(* ===== verification/Prelude.thy ===== *)
theory Prelude
  imports Main "HOL-Library.Monad_Syntax"
begin

section \<open>Shared notation, automation and lemmas\<close>

text \<open>
  What every component of the development uses: the types that stand for the machine's sizes
  and positions, assertions as values of the option monad, and generic lemmas on lists and
  sets of naturals.

  \<^item> \<open>size_t\<close> is modelled by \<open>nat\<close>. All positions, counts and lengths of the modelled code are
    bounded by the number of rows of a table, far below \<open>2 ^ 64\<close>, and every subtraction of the
    code is proved to be of a smaller number from a larger one where a theorem is about its
    value. The special value \<open>IndexSet::npos\<close> is the number \<open>npos\<close>.
  \<^item> \<open>REALM_ASSERT(e)\<close> ends the process when \<open>e\<close> is false. A function whose code holds an
    assertion returns an \<open>option\<close>, and \<open>None\<close> is the failed assertion. Theorems that such a
    function returns \<open>Some\<close> therefore show that no assertion fails.
  \<^item> \<open>REALM_ASSERT_DEBUG\<close>, \<open>verify()\<close> and everything under \<open>#ifdef REALM_DEBUG\<close> depend on the
    build. The parameter \<open>dbg\<close> of a definition says whether \<open>REALM_DEBUG\<close> is defined.
\<close>

type_synonym size_t = nat

definition npos :: size_t where
  "npos = 2 ^ 64 - 1"

declare npos_def [code del]

definition realm_assert :: "bool \<Rightarrow> unit option" where
  "realm_assert b = (if b then Some () else None)"

definition realm_assert_debug :: "bool \<Rightarrow> bool \<Rightarrow> unit option" where
  "realm_assert_debug dbg b = (if dbg then realm_assert b else Some ())"

lemma realm_assert_simps [simp]:
  "realm_assert True = Some ()" "realm_assert False = None"
  by (simp_all add: realm_assert_def)

lemma realm_assert_debug_True [simp]: "realm_assert_debug dbg True = Some ()"
  by (simp add: realm_assert_debug_def)

lemma realm_assert_debug_release [simp]: "realm_assert_debug False b = Some ()"
  by (simp add: realm_assert_debug_def)

lemma realm_assert_eq_Some [simp]: "realm_assert b = Some u \<longleftrightarrow> b"
  by (simp add: realm_assert_def)

subsection \<open>Programs that return\<close>

text \<open>
  \<open>succeeds m P\<close>: the run \<open>m\<close> ends without a failed assertion and its result satisfies \<open>P\<close>. The
  collection \<open>succ\<close> holds what every operation of a component guarantees in this form.
\<close>

named_theorems succ

definition succeeds :: "'a option \<Rightarrow> ('a \<Rightarrow> bool) \<Rightarrow> bool" where
  "succeeds m P \<longleftrightarrow> (\<exists>x. m = Some x \<and> P x)"

lemma succeeds_Some [simp]: "succeeds (Some x) P \<longleftrightarrow> P x"
  by (simp add: succeeds_def)

lemma succeeds_None [simp]: "\<not> succeeds None P"
  by (simp add: succeeds_def)

lemma succeeds_bind [simp]: "succeeds (Option.bind m f) P \<longleftrightarrow> succeeds m (\<lambda>x. succeeds (f x) P)"
  by (cases m) simp_all

lemma succeeds_assert [simp]: "succeeds (realm_assert b) P \<longleftrightarrow> b \<and> P ()"
  by (simp add: realm_assert_def)

lemma succeeds_assert_debug [simp]: "succeeds (realm_assert_debug dbg b) P \<longleftrightarrow> (dbg \<longrightarrow> b) \<and> P ()"
  by (simp add: realm_assert_debug_def)

lemma succeeds_mono: "succeeds m P \<Longrightarrow> (\<And>x. P x \<Longrightarrow> Q x) \<Longrightarrow> succeeds m Q"
  by (auto simp: succeeds_def)

lemma succeedsI: "m = Some x \<Longrightarrow> P x \<Longrightarrow> succeeds m P"
  by simp

lemma succeeds2E:
  assumes "succeeds m (\<lambda>(x, y). P x y)"
  obtains x y where "m = Some (x, y)" "P x y"
  using assms by (auto simp: succeeds_def)

lemma succeeds3E:
  assumes "succeeds m (\<lambda>(x, y, z). P x y z)"
  obtains x y z where "m = Some (x, y, z)" "P x y z"
  using assms by (auto simp: succeeds_def)

lemma succeedsE:
  assumes "succeeds m P"
  obtains x where "m = Some x" "P x"
  using assms by (auto simp: succeeds_def)

text \<open>A fallible step over a list, left to right, and the same step on each element.\<close>

fun fold_opt :: "('a \<Rightarrow> 's \<Rightarrow> 's option) \<Rightarrow> 'a list \<Rightarrow> 's \<Rightarrow> 's option" where
  "fold_opt f [] s = Some s"
| "fold_opt f (x # xs) s = do { s' \<leftarrow> f x s; fold_opt f xs s' }"

fun map_opt :: "('a \<Rightarrow> 'b option) \<Rightarrow> 'a list \<Rightarrow> 'b list option" where
  "map_opt f [] = Some []"
| "map_opt f (x # xs) = do { y \<leftarrow> f x; ys \<leftarrow> map_opt f xs; Some (y # ys) }"

lemma fold_opt_invariant:
  assumes "I s" and "\<And>x s. x \<in> set xs \<Longrightarrow> I s \<Longrightarrow> succeeds (f x s) I"
  shows "succeeds (fold_opt f xs s) I"
  using assms
proof (induction xs arbitrary: s)
  case (Cons x xs)
  have "succeeds (f x s) I" using Cons.prems by simp
  then show ?case using Cons.IH Cons.prems(2) by (auto elim!: succeeds_mono)
qed simp

lemma map_opt_succeeds:
  assumes "\<And>x. x \<in> set xs \<Longrightarrow> succeeds (f x) (P x)"
  shows "succeeds (map_opt f xs) (\<lambda>ys. list_all2 P xs ys)"
  using assms
proof (induction xs)
  case (Cons x xs)
  then show ?case by (fastforce elim!: succeeds_mono)
qed simp

subsection \<open>Interfaces shared by the components\<close>

text \<open>
  \<open>simulation\<close>: a component's operations, given by a step function on its state that may fail an
  assertion, implement a specification on an abstract state. Runs of operations then do.
\<close>

locale simulation =
  fixes inv :: "'c \<Rightarrow> 'a \<Rightarrow> bool"
    and step :: "'op \<Rightarrow> 'c \<Rightarrow> 'c option"
    and pre :: "'op \<Rightarrow> 'a \<Rightarrow> bool"
    and spec :: "'op \<Rightarrow> 'a \<Rightarrow> 'a"
  assumes step_ok: "inv c a \<Longrightarrow> pre op a \<Longrightarrow> succeeds (step op c) (\<lambda>c'. inv c' (spec op a))"
begin

fun enabled :: "'op list \<Rightarrow> 'a \<Rightarrow> bool" where
  "enabled [] a \<longleftrightarrow> True"
| "enabled (op # ops) a \<longleftrightarrow> pre op a \<and> enabled ops (spec op a)"

lemma run_ok:
  "inv c a \<Longrightarrow> enabled ops a \<Longrightarrow> succeeds (fold_opt step ops c) (\<lambda>c'. inv c' (fold spec ops a))"
proof (induction ops arbitrary: c a)
  case (Cons op ops)
  then have "succeeds (step op c) (\<lambda>c'. inv c' (spec op a))" by (simp add: step_ok)
  then show ?case using Cons by (auto elim!: succeeds_mono)
qed simp

end

subsection \<open>Lists\<close>

lemma takeWhile_length_split:
  assumes "k \<le> length xs" "\<forall>x\<in>set (take k xs). P x" "k < length xs \<Longrightarrow> \<not> P (xs ! k)"
  shows "length (takeWhile P xs) = k"
proof (cases "k < length xs")
  case True
  have "takeWhile P xs = takeWhile P (take k xs @ xs ! k # drop (Suc k) xs)"
    using True by (simp add: id_take_nth_drop [symmetric])
  also have "\<dots> = take k xs"
    using assms(2) assms(3) [OF True] by (simp add: takeWhile_append2)
  finally show ?thesis using assms(1) by simp
next
  case False
  with assms(1) have k: "k = length xs" by simp
  with assms(2) have "takeWhile P xs = xs" by (simp add: takeWhile_eq_all_conv)
  then show ?thesis by (metis k)
qed

lemma take_takeWhile_all: "x \<in> set (take (length (takeWhile P xs)) xs) \<Longrightarrow> P x"
  by (metis takeWhile_eq_take set_takeWhileD)

lemma concat_split:
  "k < length xss \<Longrightarrow> concat xss = concat (take k xss) @ xss ! k @ concat (drop (Suc k) xss)"
  by (metis concat.simps(2) concat_append id_take_nth_drop)

lemma list_update_append_mid:
  "length xs = k \<Longrightarrow> i < length ys \<Longrightarrow> (xs @ ys @ zs)[k + i := v] = xs @ ys[i := v] @ zs"
  by (auto simp: list_update_append)

subsection \<open>Sets of naturals\<close>

lemma card_Int_lessThan_mono: "finite S \<Longrightarrow> (a::nat) \<le> b \<Longrightarrow> card (S \<inter> {..<a}) \<le> card (S \<inter> {..<b})"
  by (rule card_mono) auto

lemma card_Int_lessThan_le: "card (S \<inter> {..<n::nat}) \<le> n"
  using card_mono [of "{..<n}" "S \<inter> {..<n}"] by simp

end
