(* ===== verification/Range_Lists.thy ===== *)
theory Range_Lists
  imports Prelude
begin

section \<open>Lists of ranges and the sets they stand for\<close>

text \<open>
  The abstract side of \<open>IndexSet\<close>. A range \<open>(a, b)\<close> stands for the indices \<open>a, \<dots>, b - 1\<close>, as the
  \<open>std::pair<size_t, size_t>\<close> of the code does. A list of ranges is canonical (\<open>rl_ok\<close>) when every
  range is non-empty and there is a gap between any range and the next: what
  \<open>ChunkedRangeVector::verify\<close> asks of the ranges. A canonical list is determined by the set it
  stands for (\<open>rl_ok_unique\<close>), and its sum of lengths is that set's cardinality.

  The second half defines, on sets, what shifting a position by a set of insertions or deletions
  means: \<open>unshift_of S i\<close> is the number of positions below \<open>i\<close> outside \<open>S\<close>, and \<open>shift_of S n\<close>
  is the position outside \<open>S\<close> that has \<open>n\<close> such positions below it.
\<close>

type_synonym range = "size_t \<times> size_t"

definition rl_ok :: "range list \<Rightarrow> bool" where
  "rl_ok rs \<longleftrightarrow> (\<forall>r\<in>set rs. fst r < snd r) \<and> sorted_wrt (\<lambda>r s. snd r < fst s) rs"

definition set_of :: "range list \<Rightarrow> size_t set" where
  "set_of rs = (\<Union>r\<in>set rs. {fst r..<snd r})"

definition span :: "range list \<Rightarrow> size_t" where
  "span rs = sum_list (map (\<lambda>r. snd r - fst r) rs)"

lemma rl_ok_Nil [simp]: "rl_ok []"
  by (simp add: rl_ok_def)

lemma rl_ok_Cons [simp]:
  "rl_ok (r # rs) \<longleftrightarrow> fst r < snd r \<and> (\<forall>s\<in>set rs. snd r < fst s) \<and> rl_ok rs"
  by (auto simp: rl_ok_def)

lemma rl_ok_append [simp]:
  "rl_ok (xs @ ys) \<longleftrightarrow> rl_ok xs \<and> rl_ok ys \<and> (\<forall>x\<in>set xs. \<forall>y\<in>set ys. snd x < fst y)"
  by (auto simp: rl_ok_def sorted_wrt_append)

lemma rl_ok_pos: "rl_ok rs \<Longrightarrow> r \<in> set rs \<Longrightarrow> fst r < snd r"
  by (simp add: rl_ok_def)

lemma set_of_Nil [simp]: "set_of [] = {}"
  by (simp add: set_of_def)

lemma set_of_Cons [simp]: "set_of (r # rs) = {fst r..<snd r} \<union> set_of rs"
  by (simp add: set_of_def)

lemma set_of_append [simp]: "set_of (xs @ ys) = set_of xs \<union> set_of ys"
  by (auto simp: set_of_def)

lemma set_of_finite [simp]: "finite (set_of rs)"
  by (simp add: set_of_def)

lemma mem_set_of: "i \<in> set_of rs \<longleftrightarrow> (\<exists>r\<in>set rs. fst r \<le> i \<and> i < snd r)"
  by (auto simp: set_of_def)

lemma set_of_empty_iff: "rl_ok rs \<Longrightarrow> set_of rs = {} \<longleftrightarrow> rs = []"
  by (cases rs) auto

lemma span_Nil [simp]: "span [] = 0"
  by (simp add: span_def)

lemma span_Cons [simp]: "span (r # rs) = (snd r - fst r) + span rs"
  by (simp add: span_def)

lemma span_append [simp]: "span (xs @ ys) = span xs + span ys"
  by (simp add: span_def)

lemma span_nth_le: "i < length rs \<Longrightarrow> snd (rs ! i) - fst (rs ! i) \<le> span rs"
  by (induction rs arbitrary: i) (auto simp: nth_Cons' trans_le_add2)

lemma span_update:
  "i < length rs \<Longrightarrow> span (rs[i := r]) = span rs - (snd (rs ! i) - fst (rs ! i)) + (snd r - fst r)"
proof (induction rs arbitrary: i)
  case (Cons x xs)
  show ?case
  proof (cases i)
    case (Suc j)
    with Cons span_nth_le [of j xs] show ?thesis by simp
  qed simp
qed simp

lemma set_of_lower: "i \<in> set_of rs \<Longrightarrow> \<forall>r\<in>set rs. a \<le> fst r \<Longrightarrow> a \<le> i"
  by (fastforce simp: mem_set_of)

lemma set_of_upper: "i \<in> set_of rs \<Longrightarrow> \<forall>r\<in>set rs. snd r \<le> b \<Longrightarrow> i < b"
  by (fastforce simp: mem_set_of)

lemma card_set_of: "rl_ok rs \<Longrightarrow> card (set_of rs) = span rs"
proof (induction rs)
  case Nil
  then show ?case by simp
next
  case (Cons r rs)
  have "{fst r..<snd r} \<inter> set_of rs = {}"
    using Cons.prems by (fastforce simp: mem_set_of)
  then show ?case
    using Cons by (simp add: card_Un_disjoint)
qed

lemma rl_ok_unique: "rl_ok xs \<Longrightarrow> rl_ok ys \<Longrightarrow> set_of xs = set_of ys \<Longrightarrow> xs = ys"
proof (induction xs arbitrary: ys)
  case Nil
  then show ?case by (simp add: set_of_empty_iff eq_commute [of "{}"])
next
  case (Cons x xs)
  from Cons.prems have "ys \<noteq> []" by (metis set_of_empty_iff list.distinct(1))
  then obtain y ys' where ys: "ys = y # ys'" by (cases ys) auto
  have least_x: "fst x \<in> set_of (x # xs)" "\<forall>i\<in>set_of (x # xs). fst x \<le> i"
    using Cons.prems(1) by (fastforce simp: mem_set_of)+
  have least_y: "fst y \<in> set_of ys" "\<forall>i\<in>set_of ys. fst y \<le> i"
    using Cons.prems(2) unfolding ys by (fastforce simp: mem_set_of)+
  have fst_eq: "fst x = fst y"
    using least_x least_y Cons.prems(3) by (metis le_antisym)
  have gap_x: "snd x \<notin> set_of (x # xs)" and gap_y: "snd y \<notin> set_of ys"
    using Cons.prems(1,2) unfolding ys by (fastforce simp: mem_set_of)+
  have snd_eq: "snd x = snd y"
  proof (rule linorder_cases [of "snd x" "snd y"])
    assume "snd x < snd y"
    then have "snd x \<in> set_of ys" using Cons.prems(1) fst_eq by (auto simp: ys)
    with gap_x show ?thesis using Cons.prems(3) by metis
  next
    assume "snd y < snd x"
    then have "snd y \<in> set_of (x # xs)" using Cons.prems(2) fst_eq by (auto simp: ys)
    with gap_y show ?thesis using Cons.prems(3) by metis
  qed auto
  have "set_of xs = set_of (x # xs) - {fst x..<snd x}"
    using Cons.prems(1) by (fastforce simp: mem_set_of)
  moreover have "set_of ys' = set_of ys - {fst y..<snd y}"
    using Cons.prems(2) unfolding ys by (fastforce simp: mem_set_of)
  ultimately have "set_of xs = set_of ys'"
    using Cons.prems(3) fst_eq snd_eq by simp
  then have "xs = ys'" using Cons by (simp add: ys)
  then show ?case using fst_eq snd_eq by (simp add: ys prod_eq_iff)
qed

subsection \<open>Shifting positions by a set\<close>

definition unshift_of :: "size_t set \<Rightarrow> size_t \<Rightarrow> size_t" where
  "unshift_of S i = i - card (S \<inter> {..<i})"

definition shift_of :: "size_t set \<Rightarrow> size_t \<Rightarrow> size_t" where
  "shift_of S n = (THE j. j \<notin> S \<and> unshift_of S j = n)"

lemma unshift_of_0 [simp]: "unshift_of S 0 = 0"
  by (simp add: unshift_of_def)

lemma unshift_of_le [simp]: "unshift_of S i \<le> i"
  by (simp add: unshift_of_def)

lemma unshift_of_empty [simp]: "unshift_of {} i = i"
  by (simp add: unshift_of_def)

lemma unshift_of_Suc: "unshift_of S (Suc i) = unshift_of S i + (if i \<in> S then 0 else 1)"
proof -
  have "S \<inter> {..<Suc i} = (if i \<in> S then insert i (S \<inter> {..<i}) else S \<inter> {..<i})"
    by (auto simp: less_Suc_eq)
  then show ?thesis
    using card_Int_lessThan_le [of S i] by (auto simp: unshift_of_def)
qed

lemma unshift_of_card: "unshift_of S i = card ({..<i} - S)"
  by (induction i) (auto simp: unshift_of_Suc lessThan_Suc insert_Diff_if)

lemma unshift_of_mono: "i \<le> j \<Longrightarrow> unshift_of S i \<le> unshift_of S j"
  unfolding unshift_of_card by (rule card_mono) auto

lemma unshift_of_less: "i \<notin> S \<Longrightarrow> i < j \<Longrightarrow> unshift_of S i < unshift_of S j"
  using unshift_of_mono [of "Suc i" j S] by (simp add: unshift_of_Suc)

lemma unshift_of_inj: "i \<notin> S \<Longrightarrow> j \<notin> S \<Longrightarrow> unshift_of S i = unshift_of S j \<Longrightarrow> i = j"
  by (metis linorder_neqE_nat unshift_of_less less_irrefl)

lemma unshift_of_less_iff:
  "i \<notin> S \<Longrightarrow> j \<notin> S \<Longrightarrow> unshift_of S i < unshift_of S j \<longleftrightarrow> i < j"
  by (metis linorder_neqE_nat unshift_of_less order_less_asym unshift_of_inj less_irrefl)

lemma unshift_of_ex:
  assumes "finite S"
  shows "\<exists>j. j \<notin> S \<and> unshift_of S j = n"
proof (induction n)
  case 0
  define j where "j = (LEAST j. j \<notin> S)"
  have "j \<notin> S" unfolding j_def using assms ex_new_if_finite [OF infinite_UNIV_nat] by (metis LeastI)
  moreover have "{..<j} - S = {}" unfolding j_def using not_less_Least by blast
  ultimately show ?case by (auto simp: unshift_of_card)
next
  case (Suc n)
  then obtain i where i: "i \<notin> S" "unshift_of S i = n" by blast
  define j where "j = (LEAST j. j \<notin> S \<and> i < j)"
  have "infinite (- S - {..i})" using assms by (simp add: finite_compl [symmetric] Compl_eq_Diff_UNIV)
  then obtain k where "k \<notin> S \<and> i < k" by (metis Compl_iff DiffD1 DiffD2 atMost_iff ex_in_conv finite.emptyI not_le)
  then have j: "j \<notin> S \<and> i < j" unfolding j_def by (rule LeastI)
  have "{..<j} - S = insert i ({..<i} - S)"
    using i(1) j not_less_Least [of _ "\<lambda>j. j \<notin> S \<and> i < j"] unfolding j_def [symmetric]
    by (auto simp: not_less) (metis le_neq_implies_less)
  then have "unshift_of S j = Suc n" using i(2) by (simp add: unshift_of_card)
  with j show ?case by blast
qed

lemma shift_of_props:
  assumes "finite S"
  shows "shift_of S n \<notin> S" "unshift_of S (shift_of S n) = n"
proof -
  have "\<exists>!j. j \<notin> S \<and> unshift_of S j = n"
    using unshift_of_ex [OF assms] unshift_of_inj by blast
  from theI' [OF this] show "shift_of S n \<notin> S" "unshift_of S (shift_of S n) = n"
    unfolding shift_of_def by auto
qed

lemma shift_ofI: "j \<notin> S \<Longrightarrow> unshift_of S j = n \<Longrightarrow> shift_of S n = j"
  unfolding shift_of_def by (rule the_equality) (auto intro: unshift_of_inj)

lemma shift_of_unshift_of: "j \<notin> S \<Longrightarrow> shift_of S (unshift_of S j) = j"
  by (rule shift_ofI) auto

lemma shift_of_empty [simp]: "shift_of {} n = n"
  by (rule shift_ofI) auto

lemma shift_of_ge: "finite S \<Longrightarrow> n \<le> shift_of S n"
  by (metis shift_of_props(2) unshift_of_le)

lemma shift_of_less_iff [simp]: "finite S \<Longrightarrow> shift_of S m < shift_of S n \<longleftrightarrow> m < n"
  by (metis shift_of_props unshift_of_less_iff)

lemma shift_of_eq_iff [simp]: "finite S \<Longrightarrow> shift_of S m = shift_of S n \<longleftrightarrow> m = n"
  by (metis shift_of_props(2))

subsection \<open>Removing positions from a list\<close>

text \<open>\<open>without S xs\<close> is \<open>xs\<close> with the elements at the positions of \<open>S\<close> removed.\<close>

definition without :: "size_t set \<Rightarrow> 'a list \<Rightarrow> 'a list" where
  "without S xs = nths xs (- S)"

lemma without_empty [simp]: "without {} xs = xs"
  by (simp add: without_def nths_all)

lemma length_without_take: "i \<le> length xs \<Longrightarrow> length (without S (take i xs)) = unshift_of S i"
  by (auto simp: without_def length_nths unshift_of_card intro: arg_cong [where f = card])

lemma length_without: "length (without S xs) = unshift_of S (length xs)"
  using length_without_take [of "length xs" xs S] by simp

lemma without_nth:
  assumes "i < length xs" "i \<notin> S"
  shows "without S xs ! unshift_of S i = xs ! i"
proof -
  have "without S xs = without S (take i xs @ xs ! i # drop (Suc i) xs)"
    using assms(1) by (simp add: id_take_nth_drop [symmetric])
  also have "\<dots> = without S (take i xs) @ xs ! i # nths (drop (Suc i) xs) {j. j + Suc i \<notin> S}"
    using assms by (simp add: without_def nths_append nths_Cons min_def)
  finally show ?thesis
    using assms(1) by (simp add: nth_append length_without_take)
qed

lemma without_nth_shift:
  "finite S \<Longrightarrow> shift_of S n < length xs \<Longrightarrow> without S xs ! n = xs ! shift_of S n"
  by (metis shift_of_props without_nth)

subsection \<open>Opening and closing gaps\<close>

text \<open>
  \<open>open_gap i n S\<close> moves the positions from \<open>i\<close> on up by \<open>n\<close>; \<open>close_gap i S\<close> drops position \<open>i\<close>
  and moves the positions after it down by one.
\<close>

definition open_gap :: "size_t \<Rightarrow> size_t \<Rightarrow> size_t set \<Rightarrow> size_t set" where
  "open_gap i n S = {x. (x < i \<and> x \<in> S) \<or> (i + n \<le> x \<and> x - n \<in> S)}"

definition close_gap :: "size_t \<Rightarrow> size_t set \<Rightarrow> size_t set" where
  "close_gap i S = {x. (x < i \<and> x \<in> S) \<or> (i \<le> x \<and> Suc x \<in> S)}"

definition shift_by :: "int \<Rightarrow> range \<Rightarrow> range" where
  "shift_by n r = (nat (int (fst r) + n), nat (int (snd r) + n))"

lemma shift_by_simps [simp]:
  "fst (shift_by (int n) r) = fst r + n" "snd (shift_by (int n) r) = snd r + n"
  "fst (shift_by (- 1) r) = fst r - 1" "snd (shift_by (- 1) r) = snd r - 1"
  by (auto simp: shift_by_def nat_add_distrib)

lemma set_of_shift_up: "x \<in> set_of (map (shift_by (int n)) rs) \<longleftrightarrow> n \<le> x \<and> x - n \<in> set_of rs"
  by (induction rs) auto

lemma set_of_shift_down:
  "\<forall>r\<in>set rs. 0 < fst r \<Longrightarrow> x \<in> set_of (map (shift_by (- 1)) rs) \<longleftrightarrow> Suc x \<in> set_of rs"
  by (induction rs) auto

lemma rl_ok_shift_up: "rl_ok (map (shift_by (int n)) rs) \<longleftrightarrow> rl_ok rs"
  by (induction rs) auto

lemma rl_ok_shift_down: "\<forall>r\<in>set rs. 0 < fst r \<Longrightarrow> rl_ok rs \<Longrightarrow> rl_ok (map (shift_by (- 1)) rs)"
  by (induction rs) (auto simp: less_diff_iff)

lemma set_of_after: "rl_ok (r # B) \<Longrightarrow> x \<in> set_of B \<Longrightarrow> snd r < x"
  by (fastforce simp: mem_set_of)

lemma set_of_before: "\<forall>x\<in>set A. snd x \<le> i \<Longrightarrow> x \<in> set_of A \<Longrightarrow> x < i"
  by (fastforce simp: mem_set_of)

end
