(* ===== verification/Chunked_Ranges.thy ===== *)
theory Chunked_Ranges
  imports Range_Lists
begin

section \<open>ChunkedRangeVector\<close>

text \<open>
  The storage of \<open>IndexSet\<close> (\<open>index_set.hpp\<close>, \<open>index_set.cpp\<close>): a vector of chunks, each with its
  ranges and three cached values (\<open>begin\<close>, \<open>end\<close>, \<open>count\<close>), and bidirectional iterators into it.

  A \<open>Chunk\<close> is the record \<open>chunk\<close>, a \<open>ChunkedRangeVector\<close> the list \<open>crv\<close>. An iterator is the pair
  of the index of its chunk (\<open>m_outer\<close>) and its offset in the chunk (\<open>m_inner\<close>); the end iterator
  is \<open>(length cs, 0)\<close>. Reading through an iterator is only meaningful for a valid iterator that
  is not the end, and every theorem carries that hypothesis or derives it.

  The lemmas relate each operation to the flat list of ranges \<open>ranges cs\<close>: \<open>at_it cs it A B\<close>
  says that the iterator splits \<open>ranges cs\<close> into \<open>A\<close> before it and \<open>B\<close> from it on.
\<close>

record chunk =
  ch_data :: "range list"
  ch_begin :: size_t
  ch_end :: size_t
  ch_count :: size_t

type_synonym crv = "chunk list"
type_synonym iter = "nat \<times> nat"

definition max_size :: "bool \<Rightarrow> size_t" where
  "max_size dbg = (if dbg then 4 else 4096 div 16)"

definition ranges :: "crv \<Rightarrow> range list" where
  "ranges cs = concat (map ch_data cs)"

subsection \<open>Iterators\<close>

definition end_it :: "crv \<Rightarrow> iter" where
  "end_it cs = (length cs, 0)"

definition begin_it :: "crv \<Rightarrow> iter" where
  "begin_it cs = (if cs = [] then end_it cs else (0, 0))"

definition it_range :: "crv \<Rightarrow> iter \<Rightarrow> range" where
  "it_range cs it = ch_data (cs ! fst it) ! snd it"

definition next_chunk :: "iter \<Rightarrow> iter" where
  "next_chunk it = (Suc (fst it), 0)"

definition next_it :: "crv \<Rightarrow> iter \<Rightarrow> iter" where
  "next_it cs it =
     (if Suc (snd it) = length (ch_data (cs ! fst it)) then next_chunk it
      else (fst it, Suc (snd it)))"

definition prev_it :: "crv \<Rightarrow> iter \<Rightarrow> iter" where
  "prev_it cs it =
     (if it = end_it cs \<or> snd it = 0
      then (fst it - 1, length (ch_data (cs ! (fst it - 1))) - 1)
      else (fst it, snd it - 1))"

subsection \<open>Changing a range in place\<close>

definition it_set :: "crv \<Rightarrow> iter \<Rightarrow> size_t \<Rightarrow> size_t \<Rightarrow> crv" where
  "it_set cs it front back =
     (let (o', i) = it; c = cs ! o'; r = ch_data c ! i;
          c1 = c\<lparr>ch_count := ch_count c - (snd r - fst r)\<rparr>;
          c2 = (if i = 0 then c1\<lparr>ch_begin := front\<rparr> else c1);
          c3 = (if Suc i = length (ch_data c) then c2\<lparr>ch_end := back\<rparr> else c2);
          c4 = c3\<lparr>ch_count := ch_count c3 + (back - front), ch_data := (ch_data c)[i := (front, back)]\<rparr>
      in cs[o' := c4])"

text \<open>\<open>ptrdiff_t\<close> arguments are integers; adding one to a \<open>size_t\<close> is \<open>plus_diff\<close>.\<close>

definition plus_diff :: "size_t \<Rightarrow> int \<Rightarrow> size_t" where
  "plus_diff n d = nat (int n + d)"

definition it_adjust :: "crv \<Rightarrow> iter \<Rightarrow> int \<Rightarrow> int \<Rightarrow> crv" where
  "it_adjust cs it front back =
     (let (o', i) = it; c = cs ! o'; r = ch_data c ! i;
          c1 = (if i = 0 then c\<lparr>ch_begin := plus_diff (ch_begin c) front\<rparr> else c);
          c2 = (if Suc i = length (ch_data c) then c1\<lparr>ch_end := plus_diff (ch_end c1) back\<rparr> else c1);
          c3 = c2\<lparr>ch_count := plus_diff (ch_count c2) (- front + back),
                  ch_data := (ch_data c)[i := (plus_diff (fst r) front, plus_diff (snd r) back)]\<rparr>
      in cs[o' := c3])"

definition it_shift :: "crv \<Rightarrow> iter \<Rightarrow> int \<Rightarrow> crv" where
  "it_shift cs it distance =
     (let (o', i) = it; c = cs ! o'; r = ch_data c ! i;
          c1 = (if i = 0 then c\<lparr>ch_begin := plus_diff (ch_begin c) distance\<rparr> else c);
          c2 = (if Suc i = length (ch_data c) then c1\<lparr>ch_end := plus_diff (ch_end c1) distance\<rparr> else c1);
          c3 = c2\<lparr>ch_data := (ch_data c)[i := (plus_diff (fst r) distance, plus_diff (snd r) distance)]\<rparr>
      in cs[o' := c3])"

subsection \<open>verify\<close>

text \<open>
  \<open>verify()\<close> checks the order of the ranges (with \<open>prev_end\<close> starting at \<open>size_t(-1)\<close>) and the
  cached values of every chunk; it does nothing in a release build.
\<close>

fun verify_ranges :: "size_t \<Rightarrow> range list \<Rightarrow> bool" where
  "verify_ranges prev_end [] = True"
| "verify_ranges prev_end (r # rs) =
     (fst r < snd r \<and> (prev_end = npos \<or> prev_end < fst r) \<and> verify_ranges (snd r) rs)"

definition verify_chunk :: "chunk \<Rightarrow> bool" where
  "verify_chunk c \<longleftrightarrow>
     ch_data c \<noteq> [] \<and> fst (hd (ch_data c)) = ch_begin c \<and> snd (last (ch_data c)) = ch_end c
     \<and> ch_count c \<le> ch_end c - ch_begin c \<and> span (ch_data c) = ch_count c"

definition verify :: "bool \<Rightarrow> crv \<Rightarrow> unit option" where
  "verify dbg cs =
     realm_assert_debug dbg (verify_ranges npos (ranges cs) \<and> list_all verify_chunk cs)"

text \<open>Code equations that do not compare with \<open>npos\<close> in unary.\<close>

lemma verify_ranges_code [code]:
  "verify_ranges p [] = True"
  "verify_ranges p (r # rs) = (fst r < snd r
     \<and> (p < fst r \<or> int p = 18446744073709551615) \<and> verify_ranges (snd r) rs)"
  by (auto simp: npos_def)

lemma verify_code [code]:
  "verify dbg cs = realm_assert_debug dbg
     ((case ranges cs of [] \<Rightarrow> True | r # rs \<Rightarrow> fst r < snd r \<and> verify_ranges (snd r) rs)
      \<and> list_all verify_chunk cs)"
  by (cases "ranges cs") (simp_all add: verify_def)

subsection \<open>push_back, insert, erase\<close>

definition push_back :: "bool \<Rightarrow> crv \<Rightarrow> range \<Rightarrow> crv option" where
  "push_back dbg cs value =
     (if cs \<noteq> [] \<and> length (ch_data (last cs)) < max_size dbg then do {
        let range = last cs;
        realm_assert (ch_end range \<le> fst value);
        let cs' = butlast cs @ [range\<lparr>ch_data := ch_data range @ [value],
                    ch_count := ch_count range + (snd value - fst value), ch_end := snd value\<rparr>];
        verify dbg cs';
        Some cs'
      }
      else do {
        let cs' = cs @ [\<lparr>ch_data = [value], ch_begin = fst value, ch_end = snd value,
                    ch_count = snd value - fst value\<rparr>];
        verify dbg cs';
        Some cs'
      })"

definition ensure_space :: "bool \<Rightarrow> crv \<Rightarrow> iter \<Rightarrow> (crv \<times> iter) option" where
  "ensure_space dbg cs pos =
     (let (o', offset) = pos; prev = cs ! o' in
      if length (ch_data prev) + 1 \<le> max_size dbg then Some (cs, pos)
      else do {
        let to_move = max_size dbg div 2;
        let keep = length (ch_data prev) - to_move;
        let new_data = drop keep (ch_data prev);
        let prev_data = take keep (ch_data prev);
        let moved_count = span new_data;
        let prev' = prev\<lparr>ch_data := prev_data, ch_end := snd (last prev_data),
                          ch_count := ch_count prev - moved_count\<rparr>;
        let new_pos = \<lparr>ch_data = new_data, ch_begin = fst (hd new_data),
                        ch_end = snd (last new_data), ch_count = moved_count\<rparr>;
        let cs' = take o' cs @ [prev', new_pos] @ drop (Suc o') cs;
        let pos' = (if offset \<ge> to_move then (Suc o', offset - to_move) else (o', offset));
        verify dbg cs';
        Some (cs', pos')
      })"

definition insert_range :: "bool \<Rightarrow> crv \<Rightarrow> iter \<Rightarrow> range \<Rightarrow> (crv \<times> iter) option" where
  "insert_range dbg cs pos value =
     (if fst pos = length cs then do {
        cs' \<leftarrow> push_back dbg cs value;
        Some (cs', prev_it cs' (end_it cs'))
      }
      else do {
        (cs1, pos1) \<leftarrow> ensure_space dbg cs pos;
        let (o', i) = pos1;
        let c = cs1 ! o';
        let c' = c\<lparr>ch_data := take i (ch_data c) @ value # drop i (ch_data c),
                    ch_count := ch_count c + (snd value - fst value),
                    ch_begin := min (ch_begin c) (fst value), ch_end := max (ch_end c) (snd value)\<rparr>;
        let cs2 = cs1[o' := c'];
        verify dbg cs2;
        Some (cs2, pos1)
      })"

definition erase_range :: "bool \<Rightarrow> crv \<Rightarrow> iter \<Rightarrow> (crv \<times> iter) option" where
  "erase_range dbg cs pos =
     (let (o', offset) = pos; chunk = cs ! o'; r = ch_data chunk ! offset;
          data = take offset (ch_data chunk) @ drop (Suc offset) (ch_data chunk);
          count = ch_count chunk - (snd r - fst r) in
      if data = [] then do {
        let cs' = take o' cs @ drop (Suc o') cs;
        verify dbg cs';
        Some (cs', (o', 0))
      }
      else do {
        let cs' = cs[o' := \<lparr>ch_data = data, ch_begin = fst (hd data), ch_end = snd (last data),
                             ch_count = count\<rparr>];
        let pos' = (if offset < length data then (o', offset) else (Suc o', 0));
        verify dbg cs';
        Some (cs', pos')
      })"

subsection \<open>Well-formed chunks and positions of iterators\<close>

definition chunk_wf :: "bool \<Rightarrow> chunk \<Rightarrow> bool" where
  "chunk_wf dbg c \<longleftrightarrow> ch_data c \<noteq> [] \<and> length (ch_data c) \<le> max_size dbg
     \<and> ch_begin c = fst (hd (ch_data c)) \<and> ch_end c = snd (last (ch_data c))"

definition crv_wf :: "bool \<Rightarrow> crv \<Rightarrow> bool" where
  "crv_wf dbg cs \<longleftrightarrow> (\<forall>c\<in>set cs. chunk_wf dbg c)"

definition counts_ok :: "crv \<Rightarrow> bool" where
  "counts_ok cs \<longleftrightarrow> (\<forall>c\<in>set cs. ch_count c = span (ch_data c))"

definition chunks_ok :: "bool \<Rightarrow> crv \<Rightarrow> bool" where
  "chunks_ok dbg cs \<longleftrightarrow> crv_wf dbg cs \<and> counts_ok cs"

definition crv_ok :: "bool \<Rightarrow> crv \<Rightarrow> bool" where
  "crv_ok dbg cs \<longleftrightarrow> chunks_ok dbg cs \<and> rl_ok (ranges cs)"

definition at_it :: "crv \<Rightarrow> iter \<Rightarrow> range list \<Rightarrow> range list \<Rightarrow> bool" where
  "at_it cs it A B \<longleftrightarrow>
     (\<exists>cs1 c cs2 d1 d2. cs = cs1 @ c # cs2 \<and> d2 \<noteq> [] \<and> ch_data c = d1 @ d2
        \<and> it = (length cs1, length d1) \<and> A = ranges cs1 @ d1 \<and> B = d2 @ ranges cs2)
     \<or> (it = end_it cs \<and> A = ranges cs \<and> B = [])"

definition shape :: "crv \<Rightarrow> nat list" where
  "shape cs = map (\<lambda>c. length (ch_data c)) cs"

lemma max_size_gt_1: "1 < max_size dbg"
  by (simp add: max_size_def)

lemma max_size_pos [simp]: "0 < max_size dbg"
  by (simp add: max_size_def)

lemma max_size_half: "max_size dbg = max_size dbg div 2 + max_size dbg div 2"
  by (simp add: max_size_def)

lemma ranges_Nil [simp]: "ranges [] = []"
  by (simp add: ranges_def)

lemma ranges_Cons [simp]: "ranges (c # cs) = ch_data c @ ranges cs"
  by (simp add: ranges_def)

lemma ranges_append [simp]: "ranges (xs @ ys) = ranges xs @ ranges ys"
  by (simp add: ranges_def)

lemma chunks_ok_Nil [simp]: "chunks_ok dbg []"
  by (simp add: chunks_ok_def crv_wf_def counts_ok_def)

lemma chunks_ok_Cons [simp]:
  "chunks_ok dbg (c # cs) \<longleftrightarrow> chunk_wf dbg c \<and> ch_count c = span (ch_data c) \<and> chunks_ok dbg cs"
  by (auto simp: chunks_ok_def crv_wf_def counts_ok_def)

lemma chunks_ok_append [simp]:
  "chunks_ok dbg (xs @ ys) \<longleftrightarrow> chunks_ok dbg xs \<and> chunks_ok dbg ys"
  by (auto simp: chunks_ok_def crv_wf_def counts_ok_def)

lemma crv_wf_Nil [simp]: "crv_wf dbg []"
  by (simp add: crv_wf_def)

lemma crv_wf_Cons [simp]: "crv_wf dbg (c # cs) \<longleftrightarrow> chunk_wf dbg c \<and> crv_wf dbg cs"
  by (simp add: crv_wf_def)

lemma crv_wf_append [simp]: "crv_wf dbg (xs @ ys) \<longleftrightarrow> crv_wf dbg xs \<and> crv_wf dbg ys"
  by (auto simp: crv_wf_def)

lemma chunks_ok_wf: "chunks_ok dbg cs \<Longrightarrow> crv_wf dbg cs"
  by (simp add: chunks_ok_def)

lemma chunk_wf_nonempty: "chunk_wf dbg c \<Longrightarrow> ch_data c \<noteq> []"
  by (simp add: chunk_wf_def)

lemma ranges_eq_Nil: "crv_wf dbg cs \<Longrightarrow> ranges cs = [] \<longleftrightarrow> cs = []"
  by (cases cs) (auto dest: chunk_wf_nonempty)

lemma at_it_ranges: "at_it cs it A B \<Longrightarrow> ranges cs = A @ B"
  by (auto simp: at_it_def)

lemma at_it_Nil: "at_it cs it A [] \<longleftrightarrow> it = end_it cs \<and> A = ranges cs"
  by (auto simp: at_it_def)

lemma at_it_ConsE:
  assumes "at_it cs it A (r # B)"
  obtains cs1 c cs2 d1 d2 where "cs = cs1 @ c # cs2" "ch_data c = d1 @ r # d2"
    "it = (length cs1, length d1)" "A = ranges cs1 @ d1" "B = d2 @ ranges cs2"
proof -
  from assms have "\<exists>cs1 c cs2 d1 d2. cs = cs1 @ c # cs2 \<and> d2 \<noteq> [] \<and> ch_data c = d1 @ d2
        \<and> it = (length cs1, length d1) \<and> A = ranges cs1 @ d1 \<and> r # B = d2 @ ranges cs2"
    unfolding at_it_def by (simp only: list.distinct simp_thms)
  then obtain cs1 c cs2 d1 d2 where *: "cs = cs1 @ c # cs2" "d2 \<noteq> []" "ch_data c = d1 @ d2"
    "it = (length cs1, length d1)" "A = ranges cs1 @ d1" "r # B = d2 @ ranges cs2"
    by (elim exE conjE)
  from *(2,6) obtain d3 where "d2 = r # d3" "B = d3 @ ranges cs2" by (cases d2) auto
  with * that show ?thesis by blast
qed

lemma at_it_ConsI:
  "ch_data c = d1 @ r # d2 \<Longrightarrow> A = ranges cs1 @ d1 \<Longrightarrow> B = d2 @ ranges cs2
   \<Longrightarrow> at_it (cs1 @ c # cs2) (length cs1, length d1) A (r # B)"
  unfolding at_it_def
  by (intro disjI1 exI [of _ cs1] exI [of _ c] exI [of _ cs2] exI [of _ d1] exI [of _ "r # d2"]) simp

lemma at_it_end: "at_it cs it A B \<Longrightarrow> it = end_it cs \<longleftrightarrow> B = []"
  by (cases B) (auto simp: at_it_Nil end_it_def elim: at_it_ConsE)

lemma at_it_range: "at_it cs it A (r # B) \<Longrightarrow> it_range cs it = r"
  by (erule at_it_ConsE) (simp add: it_range_def)

lemma at_begin: "crv_wf dbg cs \<Longrightarrow> at_it cs (begin_it cs) [] (ranges cs)"
proof (cases cs)
  case Nil
  then show ?thesis by (simp add: at_it_def begin_it_def)
next
  case (Cons c cs')
  moreover assume "crv_wf dbg cs"
  ultimately obtain r d where "ch_data c = [] @ r # d"
    by (cases "ch_data c") (auto dest: chunk_wf_nonempty)
  from at_it_ConsI [OF this, of "[]" "[]" "d @ ranges cs'" cs'] show ?thesis
    using Cons \<open>ch_data c = [] @ r # d\<close> by (simp add: begin_it_def)
qed

lemma at_it_next_pos:
  "crv_wf dbg (cs1 @ cs2) \<Longrightarrow> at_it (cs1 @ cs2) (length cs1, 0) (ranges cs1) (ranges cs2)"
proof (cases cs2)
  case Nil
  then show ?thesis by (simp add: at_it_Nil end_it_def)
next
  case (Cons c cs')
  moreover assume "crv_wf dbg (cs1 @ cs2)"
  ultimately obtain r d where d: "ch_data c = [] @ r # d"
    by (cases "ch_data c") (auto dest: chunk_wf_nonempty)
  from at_it_ConsI [OF d, of "ranges cs1" cs1 "d @ ranges cs'" cs'] show ?thesis
    using Cons d by simp
qed

lemma at_next:
  assumes "crv_wf dbg cs" "at_it cs it A (r # B)"
  shows "at_it cs (next_it cs it) (A @ [r]) B"
  using assms(2)
proof (rule at_it_ConsE)
  fix cs1 c cs2 d1 d2
  assume cs: "cs = cs1 @ c # cs2" and d: "ch_data c = d1 @ r # d2"
    and it: "it = (length cs1, length d1)" and A: "A = ranges cs1 @ d1" and B: "B = d2 @ ranges cs2"
  show ?thesis
  proof (cases d2)
    case Nil
    then show ?thesis
      using at_it_next_pos [of dbg "cs1 @ [c]" cs2] assms(1)
      by (simp add: next_it_def next_chunk_def cs it A B d)
  next
    case (Cons s d3)
    have "at_it cs (length cs1, length (d1 @ [r])) (A @ [r]) (s # d3 @ ranges cs2)"
      unfolding cs by (rule at_it_ConsI) (auto simp: d A Cons)
    with Cons show ?thesis
      by (simp add: next_it_def cs it B d)
  qed
qed

lemma ranges_last_chunk:
  assumes "crv_wf dbg cs" "ranges cs = A @ [r]"
  obtains cs1 c d where "cs = cs1 @ [c]" "ch_data c = d @ [r]" "A = ranges cs1 @ d"
proof (cases cs rule: rev_cases)
  case Nil
  with assms show ?thesis by simp
next
  case (snoc cs1 c)
  with assms(1) obtain d s where "ch_data c = d @ [s]"
    by (cases "ch_data c" rule: rev_cases) (auto dest: chunk_wf_nonempty)
  with snoc assms(2) that [of cs1 c d] show ?thesis by simp
qed

lemma at_prev:
  assumes wf: "crv_wf dbg cs" and at: "at_it cs it (A @ [r]) B"
  shows "at_it cs (prev_it cs it) A (r # B)"
proof (cases B)
  case Nil
  then have it: "it = end_it cs" and "ranges cs = A @ [r]" using at by (auto simp: at_it_Nil)
  from ranges_last_chunk [OF wf this(2)] obtain cs1 c d
    where cs: "cs = cs1 @ [c]" "ch_data c = d @ [r]" "A = ranges cs1 @ d" .
  have "at_it cs (length cs1, length d) A (r # [])"
    unfolding cs(1) by (rule at_it_ConsI) (auto simp: cs)
  then show ?thesis by (simp add: prev_it_def it end_it_def cs Nil)
next
  case (Cons s B')
  with at have "at_it cs it (A @ [r]) (s # B')" by simp
  then obtain cs1 c cs2 d1 d2 where cs: "cs = cs1 @ c # cs2" and d: "ch_data c = d1 @ s # d2"
    and it: "it = (length cs1, length d1)" and A: "A @ [r] = ranges cs1 @ d1"
    and B: "B' = d2 @ ranges cs2" by (rule at_it_ConsE)
  show ?thesis
  proof (cases d1 rule: rev_cases)
    case Nil
    then have "ranges cs1 = A @ [r]" using A by simp
    moreover have "crv_wf dbg cs1" using wf cs by simp
    ultimately obtain cs3 c' d where cs1: "cs1 = cs3 @ [c']" "ch_data c' = d @ [r]" "A = ranges cs3 @ d"
      using ranges_last_chunk by blast
    have "at_it (cs3 @ c' # c # cs2) (length cs3, length d) A (r # ranges (c # cs2))"
      by (rule at_it_ConsI) (auto simp: cs1)
    then show ?thesis by (simp add: prev_it_def it end_it_def cs cs1 Nil Cons B d nth_append)
  next
    case (snoc d3 q)
    then have [simp]: "q = r" and A': "A = ranges cs1 @ d3" using A by auto
    have "at_it cs (length cs1, length d3) A (r # s # d2 @ ranges cs2)"
      unfolding cs by (rule at_it_ConsI) (auto simp: d snoc A')
    then show ?thesis by (simp add: prev_it_def it end_it_def cs snoc Cons B)
  qed
qed

lemma at_it_begin:
  assumes "crv_wf dbg cs" "at_it cs it A B"
  shows "it = begin_it cs \<longleftrightarrow> A = []"
proof (cases B)
  case Nil
  with assms show ?thesis
    by (auto simp: at_it_Nil begin_it_def end_it_def ranges_eq_Nil [OF assms(1)])
next
  case (Cons r B')
  with assms(2) show ?thesis
    using assms(1)
    by (auto elim!: at_it_ConsE simp: begin_it_def ranges_eq_Nil dest: chunk_wf_nonempty)
qed

subsection \<open>The mutating operations on the flat list\<close>

lemma shape_length: "shape cs' = shape cs \<Longrightarrow> length cs' = length cs"
  by (metis length_map shape_def)

lemma length_ranges: "length (ranges cs) = sum_list (shape cs)"
  by (simp add: ranges_def shape_def length_concat comp_def)

lemma at_it_transfer:
  assumes sh: "shape cs' = shape cs" and at: "at_it cs it A B"
    and rs: "ranges cs' = A' @ B'" and len: "length A' = length A"
  shows "at_it cs' it A' B'"
proof (cases B)
  case Nil
  then have "it = end_it cs" "A = ranges cs" using at by (auto simp: at_it_Nil)
  moreover have "B' = []"
    using len arg_cong [OF rs, of length] arg_cong [OF \<open>A = ranges cs\<close>, of length]
    by (simp add: length_ranges sh)
  ultimately show ?thesis
    using rs shape_length [OF sh] by (simp add: at_it_Nil end_it_def)
next
  case (Cons r B1)
  with at obtain cs1 c cs2 d1 d2 where cs: "cs = cs1 @ c # cs2" and d: "ch_data c = d1 @ r # d2"
    and it: "it = (length cs1, length d1)" and A: "A = ranges cs1 @ d1"
    and "B1 = d2 @ ranges cs2" by (blast elim: at_it_ConsE)
  define cs1' where "cs1' = take (length cs1) cs'"
  define c' where "c' = cs' ! length cs1"
  define cs2' where "cs2' = drop (Suc (length cs1)) cs'"
  have lt: "length cs1 < length cs'" using shape_length [OF sh] by (simp add: cs)
  have cs': "cs' = cs1' @ c' # cs2'"
    unfolding cs1'_def c'_def cs2'_def using lt by (rule id_take_nth_drop)
  have "shape cs1' = take (length cs1) (shape cs')" by (simp add: shape_def cs1'_def take_map)
  then have sh1: "shape cs1' = shape cs1" by (simp add: sh) (simp add: shape_def cs)
  have "length (ch_data c') = shape cs' ! length cs1" using lt by (simp add: shape_def c'_def)
  then have lc: "length (ch_data c') = length (ch_data c)"
    by (simp add: sh) (simp add: shape_def cs nth_append)
  define e1 where "e1 = take (length d1) (ch_data c')"
  define e2 where "e2 = drop (length d1) (ch_data c')"
  have e: "ch_data c' = e1 @ e2" "length e1 = length d1" "e2 \<noteq> []"
    using lc by (auto simp: e1_def e2_def d)
  then obtain s e3 where e2: "e2 = s # e3" by (cases e2) auto
  have l1: "length (ranges cs1') = length (ranges cs1)" by (simp add: length_ranges sh1)
  have "A' @ B' = (ranges cs1' @ e1) @ (e2 @ ranges cs2')"
    using rs by (simp add: cs' e(1))
  moreover have "length A' = length (ranges cs1' @ e1)"
    using len by (simp add: A l1 e)
  ultimately have AB: "A' = ranges cs1' @ e1" "B' = e2 @ ranges cs2'" by (metis append_eq_append_conv)+
  have "it = (length cs1', length e1)" using it shape_length [OF sh1] e(2) by simp
  then show ?thesis
    unfolding cs' AB(2) e2 append_Cons
    using at_it_ConsI [of c' e1 s e3 A' cs1' "e3 @ ranges cs2'" cs2'] e(1) AB(1) by (simp add: e2)
qed

lemma span_split: "ch_data c = d1 @ r # d2 \<Longrightarrow> span (ch_data c) = span d1 + (snd r - fst r) + span d2"
  by simp

lemma chunk_wf_upd:
  assumes "chunk_wf dbg c" "ch_data c = d1 @ r # d2" "ch_data c' = d1 @ s # d2"
    "ch_begin c' = (if d1 = [] then fst s else ch_begin c)"
    "ch_end c' = (if d2 = [] then snd s else ch_end c)"
  shows "chunk_wf dbg c'"
  using assms by (cases d1) (auto simp: chunk_wf_def)

lemma it_set_at:
  assumes ok: "chunks_ok dbg cs" and at: "at_it cs it A (r # B)"
    and cs'_def: "cs' = it_set cs it f b"
  shows "chunks_ok dbg cs' \<and> at_it cs' it A ((f, b) # B) \<and> shape cs' = shape cs"
proof -
  from at obtain cs1 c cs2 d1 d2 where cs: "cs = cs1 @ c # cs2" and d: "ch_data c = d1 @ r # d2"
    and it: "it = (length cs1, length d1)" and A: "A = ranges cs1 @ d1"
    and B: "B = d2 @ ranges cs2" by (rule at_it_ConsE)
  define c' where "c' = cs' ! length cs1"
  have cs': "cs' = cs1 @ c' # cs2" and d': "ch_data c' = d1 @ (f, b) # d2"
    and b': "ch_begin c' = (if d1 = [] then f else ch_begin c)"
    and e': "ch_end c' = (if d2 = [] then b else ch_end c)"
    and n': "ch_count c' = ch_count c - (snd r - fst r) + (b - f)"
    by (auto simp: c'_def cs'_def it_set_def it cs d Let_def)
  have "chunk_wf dbg c'"
    using ok by (intro chunk_wf_upd [OF _ d d']) (auto simp: cs b' e')
  moreover have "ch_count c' = span (ch_data c')"
    using ok by (simp add: cs n' d' d)
  ultimately have "chunks_ok dbg cs'" using ok by (simp add: cs cs')
  moreover have "at_it cs' it A ((f, b) # B)"
    unfolding cs' it by (rule at_it_ConsI [OF d' A B])
  moreover have "shape cs' = shape cs" by (simp add: cs cs' shape_def d d')
  ultimately show ?thesis by simp
qed

lemma it_adjust_at:
  assumes ok: "chunks_ok dbg cs" and at: "at_it cs it A (r # B)"
    and le: "fst r \<le> snd r" "plus_diff (fst r) front \<le> plus_diff (snd r) back"
      "0 \<le> int (fst r) + front" "0 \<le> int (snd r) + back"
    and cs'_def: "cs' = it_adjust cs it front back"
  shows "chunks_ok dbg cs' \<and> at_it cs' it A ((plus_diff (fst r) front, plus_diff (snd r) back) # B)
    \<and> shape cs' = shape cs"
proof -
  let ?s = "(plus_diff (fst r) front, plus_diff (snd r) back)"
  from at obtain cs1 c cs2 d1 d2 where cs: "cs = cs1 @ c # cs2" and d: "ch_data c = d1 @ r # d2"
    and it: "it = (length cs1, length d1)" and A: "A = ranges cs1 @ d1"
    and B: "B = d2 @ ranges cs2" by (rule at_it_ConsE)
  have wf: "chunk_wf dbg c" and n: "ch_count c = span d1 + (snd r - fst r) + span d2"
    using ok by (auto simp: cs d)
  define c' where "c' = cs' ! length cs1"
  have cs': "cs' = cs1 @ c' # cs2" and d': "ch_data c' = d1 @ ?s # d2"
    and b': "ch_begin c' = (if d1 = [] then plus_diff (ch_begin c) front else ch_begin c)"
    and e': "ch_end c' = (if d2 = [] then plus_diff (ch_end c) back else ch_end c)"
    and n': "ch_count c' = plus_diff (ch_count c) (- front + back)"
    by (auto simp: c'_def cs'_def it_adjust_def it cs d Let_def)
  have "chunk_wf dbg c'"
    using wf by (intro chunk_wf_upd [OF _ d d']) (auto simp: chunk_wf_def d b' e')
  moreover have "ch_count c' = span (ch_data c')"
    using le unfolding n' n d' by (simp add: plus_diff_def)
  ultimately have "chunks_ok dbg cs'" using ok by (simp add: cs cs')
  moreover have "at_it cs' it A (?s # B)"
    unfolding cs' it by (rule at_it_ConsI [OF d' A B])
  moreover have "shape cs' = shape cs" by (simp add: cs cs' shape_def d d')
  ultimately show ?thesis by simp
qed

lemma it_shift_at:
  assumes ok: "chunks_ok dbg cs" and at: "at_it cs it A (r # B)"
    and le: "fst r \<le> snd r" "0 \<le> int (fst r) + n"
    and cs'_def: "cs' = it_shift cs it n"
  shows "chunks_ok dbg cs' \<and> at_it cs' it A ((plus_diff (fst r) n, plus_diff (snd r) n) # B)
    \<and> shape cs' = shape cs"
proof -
  let ?s = "(plus_diff (fst r) n, plus_diff (snd r) n)"
  from at obtain cs1 c cs2 d1 d2 where cs: "cs = cs1 @ c # cs2" and d: "ch_data c = d1 @ r # d2"
    and it: "it = (length cs1, length d1)" and A: "A = ranges cs1 @ d1"
    and B: "B = d2 @ ranges cs2" by (rule at_it_ConsE)
  have wf: "chunk_wf dbg c" and cnt: "ch_count c = span d1 + (snd r - fst r) + span d2"
    using ok by (auto simp: cs d)
  define c' where "c' = cs' ! length cs1"
  have cs': "cs' = cs1 @ c' # cs2" and d': "ch_data c' = d1 @ ?s # d2"
    and b': "ch_begin c' = (if d1 = [] then plus_diff (ch_begin c) n else ch_begin c)"
    and e': "ch_end c' = (if d2 = [] then plus_diff (ch_end c) n else ch_end c)"
    and n': "ch_count c' = ch_count c"
    by (auto simp: c'_def cs'_def it_shift_def it cs d Let_def)
  have "chunk_wf dbg c'"
    using wf by (intro chunk_wf_upd [OF _ d d']) (auto simp: chunk_wf_def d b' e')
  moreover have "ch_count c' = span (ch_data c')"
    using le by (simp add: n' cnt d' plus_diff_def)
  ultimately have "chunks_ok dbg cs'" using ok by (simp add: cs cs')
  moreover have "at_it cs' it A (?s # B)"
    unfolding cs' it by (rule at_it_ConsI [OF d' A B])
  moreover have "shape cs' = shape cs" by (simp add: cs cs' shape_def d d')
  ultimately show ?thesis by simp
qed

lemma crv_okD: "crv_ok dbg cs \<Longrightarrow> chunks_ok dbg cs \<and> crv_wf dbg cs \<and> rl_ok (ranges cs)"
  by (simp add: crv_ok_def chunks_ok_def)

lemma crv_okI: "chunks_ok dbg cs \<Longrightarrow> ranges cs = rs \<Longrightarrow> rl_ok rs \<Longrightarrow> crv_ok dbg cs"
  by (simp add: crv_ok_def)

lemma crv_ok_wf: "crv_ok dbg cs \<Longrightarrow> crv_wf dbg cs"
  by (simp add: crv_okD)

lemma verify_ranges_ok:
  "rl_ok rs \<Longrightarrow> \<forall>r\<in>set rs. p < fst r \<Longrightarrow> verify_ranges p rs"
  by (induction rs arbitrary: p) auto

lemma verify_ranges_npos: "rl_ok rs \<Longrightarrow> verify_ranges npos rs"
  by (cases rs) (auto intro: verify_ranges_ok)

lemma span_le_extent:
  "rl_ok d \<Longrightarrow> d \<noteq> [] \<Longrightarrow> fst (hd d) + span d \<le> snd (last d)"
proof (induction d)
  case (Cons r d)
  show ?case
  proof (cases d)
    case (Cons s d')
    then have "fst s + span d \<le> snd (last d)" "snd r < fst s" "fst r < snd r"
      using Cons.IH Cons.prems by auto
    then show ?thesis using Cons by simp
  qed (use Cons.prems in simp)
qed simp

lemma rl_ok_chunk: "rl_ok (ranges cs) \<Longrightarrow> c \<in> set cs \<Longrightarrow> rl_ok (ch_data c)"
  by (auto simp: in_set_conv_decomp)

lemma verify_ok [simp]: "crv_ok dbg cs \<Longrightarrow> verify b cs = Some ()"
proof -
  assume ok: "crv_ok dbg cs"
  have "verify_chunk c" if "c \<in> set cs" for c
  proof -
    from ok that have c: "chunk_wf dbg c" "ch_count c = span (ch_data c)" "rl_ok (ch_data c)"
      by (auto simp: crv_ok_def chunks_ok_def crv_wf_def counts_ok_def intro: rl_ok_chunk)
    with span_le_extent [OF c(3)] show ?thesis
      by (auto simp: verify_chunk_def chunk_wf_def)
  qed
  with ok show ?thesis
    by (simp add: verify_def crv_ok_def verify_ranges_npos list_all_iff)
qed

lemma push_back_ok:
  assumes ok: "crv_ok dbg cs" and rl: "rl_ok (ranges cs @ [v])"
  shows "\<exists>cs'. push_back dbg cs v = Some cs' \<and> crv_ok dbg cs' \<and> ranges cs' = ranges cs @ [v]"
proof (cases "cs \<noteq> [] \<and> length (ch_data (last cs)) < max_size dbg")
  case True
  then obtain cs1 c where cs: "cs = cs1 @ [c]" by (metis rev_exhaust)
  let ?c = "c\<lparr>ch_data := ch_data c @ [v], ch_count := ch_count c + (snd v - fst v), ch_end := snd v\<rparr>"
  have c: "chunk_wf dbg c" "ch_count c = span (ch_data c)" "chunks_ok dbg cs1"
    using ok by (auto simp: crv_ok_def cs)
  then have "last (ch_data c) \<in> set (ch_data c)" by (simp add: chunk_wf_def)
  then have "snd (last (ch_data c)) < fst v" using rl by (simp add: cs)
  then have "ch_end c \<le> fst v" using c(1) by (simp add: chunk_wf_def)
  moreover have "crv_ok dbg (cs1 @ [?c])"
    using c True rl by (auto simp: crv_ok_def chunk_wf_def cs)
  ultimately show ?thesis using True
    by (simp add: push_back_def cs Let_def)
next
  case False
  then have "push_back dbg cs v = do {
      verify dbg (cs @ [\<lparr>ch_data = [v], ch_begin = fst v, ch_end = snd v, ch_count = snd v - fst v\<rparr>]);
      Some (cs @ [\<lparr>ch_data = [v], ch_begin = fst v, ch_end = snd v, ch_count = snd v - fst v\<rparr>]) }"
    by (auto simp: push_back_def Let_def)
  moreover have "crv_ok dbg (cs @ [\<lparr>ch_data = [v], ch_begin = fst v, ch_end = snd v, ch_count = snd v - fst v\<rparr>])"
    using ok rl max_size_gt_1 [of dbg] by (auto simp: crv_ok_def chunk_wf_def)
  ultimately show ?thesis by simp
qed

lemma ensure_space_ok:
  assumes ok: "crv_ok dbg cs" and at: "at_it cs it A (r # B)"
  shows "\<exists>cs' it'. ensure_space dbg cs it = Some (cs', it') \<and> crv_ok dbg cs'
    \<and> at_it cs' it' A (r # B) \<and> length (ch_data (cs' ! fst it')) < max_size dbg"
proof -
  from at obtain cs1 c cs2 d1 d2 where cs: "cs = cs1 @ c # cs2" and d: "ch_data c = d1 @ r # d2"
    and it: "it = (length cs1, length d1)" and A: "A = ranges cs1 @ d1"
    and B: "B = d2 @ ranges cs2" by (rule at_it_ConsE)
  have wf: "chunk_wf dbg c" and cnt: "ch_count c = span (ch_data c)"
    using ok by (auto simp: crv_ok_def cs)
  show ?thesis
  proof (cases "length (ch_data c) + 1 \<le> max_size dbg")
    case True
    then show ?thesis using ok at by (simp add: ensure_space_def it cs Let_def)
  next
    case False
    let ?h = "max_size dbg div 2"
    have len: "length (ch_data c) = ?h + ?h"
      using False wf max_size_half [of dbg] by (simp add: chunk_wf_def)
    have h: "0 < ?h" "?h < max_size dbg" by (simp_all add: max_size_def)
    let ?p = "take ?h (ch_data c)" and ?n = "drop ?h (ch_data c)"
    let ?c1 = "c\<lparr>ch_data := ?p, ch_end := snd (last ?p), ch_count := ch_count c - span ?n\<rparr>"
    let ?c2 = "\<lparr>ch_data = ?n, ch_begin = fst (hd ?n), ch_end = snd (last ?n), ch_count = span ?n\<rparr>"
    let ?cs = "cs1 @ [?c1, ?c2] @ cs2"
    have pn: "ch_data c = ?p @ ?n" by simp
    have sp: "span (ch_data c) = span ?p + span ?n" using span_append [of ?p ?n] by simp
    have ne: "?p \<noteq> []" "?n \<noteq> []" using len h by auto
    have "chunk_wf dbg ?c1" "chunk_wf dbg ?c2"
      using wf ne len h by (auto simp: chunk_wf_def hd_append2)
    then have "chunks_ok dbg ?cs" using ok cnt sp by (simp add: crv_ok_def cs)
    moreover have rs: "ranges ?cs = ranges cs" by (simp add: cs)
    ultimately have ok': "crv_ok dbg ?cs"
      using ok unfolding crv_ok_def rs by blast
    have eq: "ensure_space dbg cs it = Some (?cs,
        (if length d1 \<ge> ?h then (Suc (length cs1), length d1 - ?h) else (length cs1, length d1)))"
      using False ok' len by (simp add: ensure_space_def it cs Let_def)
    show ?thesis
    proof (cases "length d1 \<ge> ?h")
      case True
      then have n: "?n = drop ?h d1 @ r # d2" "?p = take ?h d1" by (simp_all add: d)
      have "at_it ((cs1 @ [?c1]) @ ?c2 # cs2) (length (cs1 @ [?c1]), length (drop ?h d1)) A (r # B)"
        by (rule at_it_ConsI [of _ _ _ d2]) (use n A B in auto)
      then show ?thesis using eq ok' True len h by (simp add: nth_append)
    next
      case False
      then have p: "?p = d1 @ r # take (?h - Suc (length d1)) d2"
        "?n = drop (?h - Suc (length d1)) d2"
        by (auto simp: d take_Cons' drop_Cons')
      have "at_it (cs1 @ ?c1 # (?c2 # cs2)) (length cs1, length d1) A (r # B)"
        by (rule at_it_ConsI [of _ _ _ "take (?h - Suc (length d1)) d2"]) (use p A B in auto)
      then show ?thesis using eq ok' False len h by (simp add: nth_append)
    qed
  qed
qed

lemma insert_range_ok:
  assumes ok: "crv_ok dbg cs" and at: "at_it cs it A B" and rl: "rl_ok (A @ v # B)"
  shows "\<exists>cs' it'. insert_range dbg cs it v = Some (cs', it') \<and> crv_ok dbg cs' \<and> at_it cs' it' A (v # B)"
proof (cases B)
  case Nil
  with at have it: "it = end_it cs" and A: "A = ranges cs" by (auto simp: at_it_Nil)
  obtain cs' where cs': "push_back dbg cs v = Some cs'" "crv_ok dbg cs'" "ranges cs' = A @ [v]"
    using push_back_ok [OF ok, of v] rl Nil A by auto
  have "at_it cs' (end_it cs') (A @ [v]) []" by (simp add: at_it_Nil cs')
  with cs' have "at_it cs' (prev_it cs' (end_it cs')) A [v]"
    by (intro at_prev [where dbg = dbg]) (simp_all add: crv_okD)
  then show ?thesis using cs' Nil by (simp add: insert_range_def it end_it_def)
next
  case (Cons r B1)
  with at have at': "at_it cs it A (r # B1)" by simp
  from ensure_space_ok [OF ok at'] obtain cs1 it1 where es: "ensure_space dbg cs it = Some (cs1, it1)"
    and ok1: "crv_ok dbg cs1" and at1: "at_it cs1 it1 A (r # B1)"
    and sz: "length (ch_data (cs1 ! fst it1)) < max_size dbg" by blast
  from at1 obtain e1 c e2 d1 d2 where e: "cs1 = e1 @ c # e2" and d: "ch_data c = d1 @ r # d2"
    and it1: "it1 = (length e1, length d1)" and A: "A = ranges e1 @ d1"
    and B: "B1 = d2 @ ranges e2" by (rule at_it_ConsE)
  have ne: "fst it \<noteq> length cs" using at' by (auto elim!: at_it_ConsE)
  let ?c = "c\<lparr>ch_data := d1 @ v # r # d2, ch_count := ch_count c + (snd v - fst v),
               ch_begin := min (ch_begin c) (fst v), ch_end := max (ch_end c) (snd v)\<rparr>"
  have wf: "chunk_wf dbg c" "ch_count c = span (ch_data c)" using ok1 by (auto simp: crv_ok_def e)
  have v: "fst v < snd v" "\<forall>x\<in>set d1. snd x < fst v \<and> fst x < snd x" "\<forall>x\<in>set (r # d2). snd v < fst x \<and> fst x < snd x"
    using rl by (auto simp: A B Cons dest: rl_ok_pos)
  have "ch_begin ?c = fst (hd (d1 @ v # r # d2))"
    using wf(1) v by (cases d1) (auto simp: chunk_wf_def d min_def)
  moreover have "ch_end ?c = snd (last (d1 @ v # r # d2))"
    using wf(1) v last_in_set [of "r # d2"] by (fastforce simp: chunk_wf_def d max_def)
  ultimately have "chunk_wf dbg ?c"
    using sz by (simp add: chunk_wf_def e it1 nth_append d)
  moreover have "ch_count ?c = span (ch_data ?c)" using wf(2) by (simp add: d)
  ultimately have "chunks_ok dbg (e1 @ ?c # e2)"
    using ok1 unfolding crv_ok_def e chunks_ok_append chunks_ok_Cons by blast
  moreover have "ranges (e1 @ ?c # e2) = A @ v # B" by (simp add: A B Cons)
  ultimately have ok2: "crv_ok dbg (e1 @ ?c # e2)" using rl by (rule crv_okI)
  have "at_it (e1 @ ?c # e2) it1 A (v # B)"
    unfolding it1 by (rule at_it_ConsI [of _ _ _ "r # d2"]) (auto simp: A B Cons)
  moreover have "insert_range dbg cs it v = Some (e1 @ ?c # e2, it1)"
    using ne es ok2 by (simp add: insert_range_def it1 e d Let_def)
  ultimately show ?thesis using ok2 by blast
qed

lemma erase_range_ok:
  assumes ok: "chunks_ok dbg cs" and at: "at_it cs it A (r # B)" and rl: "rl_ok (A @ B)"
  shows "\<exists>cs' it'. erase_range dbg cs it = Some (cs', it') \<and> crv_ok dbg cs' \<and> at_it cs' it' A B"
proof -
  from at obtain cs1 c cs2 d1 d2 where cs: "cs = cs1 @ c # cs2" and d: "ch_data c = d1 @ r # d2"
    and it: "it = (length cs1, length d1)" and A: "A = ranges cs1 @ d1"
    and B: "B = d2 @ ranges cs2" by (rule at_it_ConsE)
  have wf: "chunk_wf dbg c" "ch_count c = span (ch_data c)" using ok by (auto simp: cs)
  show ?thesis
  proof (cases "d1 @ d2 = []")
    case True
    then have AB: "A = ranges cs1" "B = ranges cs2" by (simp_all add: A B)
    have ok': "crv_ok dbg (cs1 @ cs2)" using ok rl by (simp add: crv_ok_def cs AB)
    then have "erase_range dbg cs it = Some (cs1 @ cs2, (length cs1, 0))"
      using True by (simp add: erase_range_def it cs d Let_def)
    moreover have "at_it (cs1 @ cs2) (length cs1, 0) A B"
      unfolding AB by (rule at_it_next_pos [OF crv_ok_wf [OF ok']])
    ultimately show ?thesis using ok' by blast
  next
    case False
    let ?c = "\<lparr>ch_data = d1 @ d2, ch_begin = fst (hd (d1 @ d2)), ch_end = snd (last (d1 @ d2)),
               ch_count = ch_count c - (snd r - fst r)\<rparr>"
    let ?cs = "cs1 @ ?c # cs2"
    have "chunk_wf dbg ?c" using False wf(1) by (simp add: chunk_wf_def d)
    then have ok': "crv_ok dbg ?cs" using ok rl wf(2) by (simp add: crv_ok_def cs A B d)
    then have eq: "erase_range dbg cs it =
        Some (?cs, (if length d1 < length (d1 @ d2) then (length cs1, length d1) else (Suc (length cs1), 0)))"
      using False by (auto simp: erase_range_def it cs d Let_def)
    have "at_it ?cs (if length d1 < length (d1 @ d2) then (length cs1, length d1) else (Suc (length cs1), 0)) A B"
    proof (cases d2)
      case Nil
      then show ?thesis
        using at_it_next_pos [of dbg "cs1 @ [?c]" cs2] crv_ok_wf [OF ok'] by (simp add: A B)
    next
      case (Cons s d3)
      have "at_it ?cs (length cs1, length d1) A (s # d3 @ ranges cs2)"
        by (rule at_it_ConsI) (auto simp: A Cons)
      then show ?thesis by (simp add: Cons B)
    qed
    then show ?thesis using eq ok' by blast
  qed
qed

end
