(* ===== verification/Index_Set.thy ===== *)
theory Index_Set
  imports Chunked_Ranges
begin

section \<open>IndexSet: looking up, counting and adding single indices\<close>

text \<open>
  \<open>IndexSet\<close> (\<open>index_set.cpp\<close>) is a \<open>ChunkedRangeVector\<close> with operations that treat it as a set of
  positions. Loops over iterators are \<^theory_text>\<open>partial_function (option)\<close>, so that a loop
  that never ends is \<open>None\<close> like a failed assertion; every lemma shows that the operation returns.

  The standard library's searches are modelled by what they promise: \<open>std::find_if\<close> and
  \<open>std::lower_bound\<close> (on a partitioned range) return the first element on which the condition
  changes, so the model counts the elements in front of it.

  The contract of each operation is stated on the set \<open>idx cs\<close> of the indices it holds.
\<close>

type_synonym index_set = crv

definition idx :: "index_set \<Rightarrow> size_t set" where
  [code]: "idx cs = set_of (ranges cs)"

subsection \<open>Definitions\<close>

definition find_from :: "bool \<Rightarrow> index_set \<Rightarrow> size_t \<Rightarrow> iter \<Rightarrow> iter option" where
  "find_from dbg cs index b =
     (let outer = fst b + length (takeWhile (\<lambda>lft. \<not> index < ch_end lft) (drop (fst b) cs)) in
      if outer = length cs then Some (end_it cs)
      else if index < ch_begin (cs ! outer) then Some (outer, 0)
      else do {
        let data = ch_data (cs ! outer);
        let inner_begin = (if outer = fst b then snd b else 0);
        let inner = inner_begin + length (takeWhile (\<lambda>lft. snd lft \<le> index) (drop inner_begin data));
        realm_assert_debug dbg (inner \<noteq> length data);
        Some (outer, inner)
      })"

definition find_index :: "bool \<Rightarrow> index_set \<Rightarrow> size_t \<Rightarrow> iter option" where
  "find_index dbg cs index = find_from dbg cs index (begin_it cs)"

definition contains :: "bool \<Rightarrow> index_set \<Rightarrow> size_t \<Rightarrow> bool option" where
  "contains dbg cs index = do {
     it \<leftarrow> find_index dbg cs index;
     Some (it \<noteq> end_it cs \<and> fst (it_range cs it) \<le> index)
   }"

definition do_add :: "bool \<Rightarrow> index_set \<Rightarrow> iter \<Rightarrow> size_t \<Rightarrow> (index_set \<times> iter) option" where
  "do_add dbg cs it index = do {
     verify dbg cs;
     let more_before = (it \<noteq> begin_it cs);
     let valid = (it \<noteq> end_it cs);
     realm_assert (\<not> more_before \<or> index \<ge> snd (it_range cs (prev_it cs it)));
     (if valid \<and> fst (it_range cs it) \<le> index \<and> snd (it_range cs it) > index then Some (cs, it)
      else if more_before \<and> snd (it_range cs (prev_it cs it)) = index then do {
        let prev = prev_it cs it;
        let cs1 = it_adjust cs prev 0 1;
        (if valid \<and> snd (it_range cs1 prev) = fst (it_range cs1 it) then do {
           let r = it_range cs1 it;
           let cs2 = it_adjust cs1 prev 0 (int (snd r - fst r));
           (cs3, it3) \<leftarrow> erase_range dbg cs2 it;
           Some (cs3, prev_it cs3 it3)
         }
         else Some (cs1, prev))
      }
      else if valid \<and> fst (it_range cs it) = index + 1 then Some (it_adjust cs it (- 1) 0, it)
      else insert_range dbg cs it (index, index + 1))
   }"

definition add :: "bool \<Rightarrow> index_set \<Rightarrow> size_t \<Rightarrow> index_set option" where
  "add dbg cs index = do {
     it \<leftarrow> find_index dbg cs index;
     (cs', it') \<leftarrow> do_add dbg cs it index;
     Some cs'
   }"

text \<open>The constructor from an initialiser list adds its values one by one.\<close>

fun index_set_of_list :: "bool \<Rightarrow> index_set \<Rightarrow> size_t list \<Rightarrow> index_set option" where
  "index_set_of_list dbg cs [] = Some cs"
| "index_set_of_list dbg cs (v # vs) = do {
     cs' \<leftarrow> add dbg cs v;
     index_set_of_list dbg cs' vs
   }"

definition set_len :: "bool \<Rightarrow> index_set \<Rightarrow> size_t \<Rightarrow> index_set option" where
  "set_len dbg cs len = (if len \<noteq> 0 then push_back dbg [] (0, len) else Some [])"

definition clear :: "index_set \<Rightarrow> index_set" where
  "clear cs = []"

subsection \<open>Facts about positions in a set\<close>

lemma idx_Nil [simp]: "idx [] = {}"
  by (simp add: idx_def)

lemma idx_finite [simp]: "finite (idx cs)"
  by (simp add: idx_def)

lemma idx_at: "at_it cs it A B \<Longrightarrow> idx cs = set_of A \<union> set_of B"
  by (simp add: idx_def at_it_ranges)

lemma idx_empty_iff: "crv_ok dbg cs \<Longrightarrow> idx cs = {} \<longleftrightarrow> cs = []"
  using crv_okD [of dbg cs] ranges_eq_Nil [of dbg cs] by (simp add: idx_def set_of_empty_iff)

text \<open>
  \<open>found index A B\<close>: the split of the ranges at which \<open>find\<close> stops. All ranges before it end at
  or before \<open>index\<close>, and the one there, if any, ends after it.
\<close>

definition found :: "size_t \<Rightarrow> range list \<Rightarrow> range list \<Rightarrow> bool" where
  "found index A B \<longleftrightarrow> (\<forall>x\<in>set A. snd x \<le> index) \<and> (B \<noteq> [] \<longrightarrow> index < snd (hd B))"

lemma found_Nil [simp]: "found index A [] \<longleftrightarrow> (\<forall>x\<in>set A. snd x \<le> index)"
  by (simp add: found_def)

lemma found_Cons [simp]: "found index A (r # B) \<longleftrightarrow> (\<forall>x\<in>set A. snd x \<le> index) \<and> index < snd r"
  by (simp add: found_def)

lemma found_mem:
  assumes "rl_ok (A @ B)" "found index A B"
  shows "index \<in> set_of (A @ B) \<longleftrightarrow> B \<noteq> [] \<and> fst (hd B) \<le> index"
proof -
  have "index \<notin> set_of A" using assms(2) by (fastforce simp: found_def mem_set_of)
  moreover have "index \<notin> set_of (tl B)"
    using assms by (cases B) (fastforce simp: mem_set_of)+
  ultimately show ?thesis using assms(2) by (cases B) auto
qed

lemma find_from_ok:
  assumes ok: "crv_ok dbg cs" and at: "at_it cs b A B" and A: "\<forall>x\<in>set A. snd x \<le> index"
  shows "\<exists>it A' B'. find_from dbg cs index b = Some it \<and> at_it cs it A' B' \<and> found index A' B'"
proof -
  define outer where "outer = fst b + length (takeWhile (\<lambda>lft. \<not> index < ch_end lft) (drop (fst b) cs))"
  have wf: "crv_wf dbg cs" and rl: "rl_ok (ranges cs)" using ok by (auto simp: crv_okD)
  have b: "fst b \<le> length cs"
    using at by (cases B) (auto simp: at_it_Nil end_it_def elim!: at_it_ConsE)
  have end_ge: "snd x \<le> index" if c: "c \<in> set cs" and e: "ch_end c \<le> index" and x: "x \<in> set (ch_data c)" for c x
  proof -
    have "chunk_wf dbg c" using c wf by (simp add: crv_wf_def)
    then have "ch_end c = snd (last (ch_data c))" by (simp add: chunk_wf_def)
    moreover obtain d1 d2 where "ch_data c = d1 @ x # d2" using x by (meson split_list)
    moreover have "rl_ok (ch_data c)" using rl_ok_chunk [OF rl c] .
    ultimately have "snd x \<le> ch_end c"
      by (cases d2 rule: rev_cases) (auto dest: rl_ok_pos)
    with e show ?thesis by simp
  qed
  have before: "\<forall>x\<in>set (ranges (take outer cs)). snd x \<le> index"
  proof
    fix x assume "x \<in> set (ranges (take outer cs))"
    then obtain c where c: "c \<in> set (take outer cs)" "x \<in> set (ch_data c)" by (auto simp: ranges_def)
    have split: "take outer cs = take (fst b) cs @ takeWhile (\<lambda>lft. \<not> index < ch_end lft) (drop (fst b) cs)"
      by (simp add: outer_def take_add takeWhile_eq_take [symmetric])
    from c(1) consider "c \<in> set (take (fst b) cs)" | "c \<in> set cs" "ch_end c \<le> index"
      unfolding split set_append Un_iff
      by (metis (mono_tags, lifting) in_set_dropD not_le set_takeWhileD)
    then show "snd x \<le> index"
    proof cases
      case 1
      have "set (ranges (take (fst b) cs)) \<subseteq> set A"
        using at by (cases B) (auto simp: at_it_Nil end_it_def elim!: at_it_ConsE)
      then show ?thesis using 1 c(2) A by (auto simp: ranges_def)
    next
      case 2
      then show ?thesis using end_ge c(2) by blast
    qed
  qed
  show ?thesis
  proof (cases "outer = length cs")
    case True
    then have "find_from dbg cs index b = Some (end_it cs)" by (simp add: find_from_def outer_def)
    moreover have "at_it cs (end_it cs) (ranges cs) []" by (simp add: at_it_Nil)
    ultimately show ?thesis using before True by force
  next
    case False
    then have lt: "outer < length cs"
      using length_takeWhile_le [of "\<lambda>lft. \<not> index < ch_end lft" "drop (fst b) cs"] b
      by (simp add: outer_def)
    define c where "c = cs ! outer"
    have cs: "cs = take outer cs @ c # drop (Suc outer) cs"
      unfolding c_def using lt by (rule id_take_nth_drop)
    have c_in: "c \<in> set cs" using lt by (simp add: c_def)
    have cwf: "chunk_wf dbg c" using c_in wf by (simp add: crv_wf_def)
    have cend: "index < ch_end c"
      using nth_length_takeWhile [of "\<lambda>lft. \<not> index < ch_end lft" "drop (fst b) cs"] lt b
      by (simp add: outer_def c_def)
    define i0 where "i0 = (if outer = fst b then snd b else 0)"
    define i where "i = i0 + length (takeWhile (\<lambda>lft. snd lft \<le> index) (drop i0 (ch_data c)))"
    have i0: "i0 \<le> length (ch_data c)" "\<forall>x\<in>set (take i0 (ch_data c)). snd x \<le> index"
      using at A lt by (cases B; auto simp: i0_def at_it_Nil end_it_def c_def elim!: at_it_ConsE)+
    have pre: "\<forall>x\<in>set (take i (ch_data c)). snd x \<le> index"
      using i0(2) by (auto simp: i_def take_add takeWhile_eq_take [symmetric] dest: set_takeWhileD)
    have i: "i < length (ch_data c)"
    proof (rule ccontr)
      assume "\<not> i < length (ch_data c)"
      with pre cwf have "snd (last (ch_data c)) \<le> index" by (simp add: chunk_wf_def)
      with cend cwf show False by (simp add: chunk_wf_def)
    qed
    have "length (takeWhile (\<lambda>lft. snd lft \<le> index) (drop i0 (ch_data c))) < length (drop i0 (ch_data c))"
      using i i0(1) by (simp add: i_def)
    from nth_length_takeWhile [OF this] have post: "index < snd (ch_data c ! i)"
      using i0(1) by (simp add: i_def)
    define j where "j = (if index < ch_begin c then 0 else i)"
    have "find_from dbg cs index b = (if index < ch_begin c then Some (outer, 0)
        else do { realm_assert_debug dbg (i \<noteq> length (ch_data c)); Some (outer, i) })"
      using False unfolding find_from_def Let_def outer_def [symmetric] c_def [symmetric]
        i0_def [symmetric] i_def [symmetric] by simp
    then have eq: "find_from dbg cs index b = Some (outer, j)"
      using i by (simp add: j_def)
    have "j < length (ch_data c)" using i by (auto simp: j_def)
    then have d: "ch_data c = take j (ch_data c) @ ch_data c ! j # drop (Suc j) (ch_data c)"
      by (rule id_take_nth_drop)
    have "at_it (take outer cs @ c # drop (Suc outer) cs) (length (take outer cs), length (take j (ch_data c)))
        (ranges (take outer cs) @ take j (ch_data c))
        (ch_data c ! j # drop (Suc j) (ch_data c) @ ranges (drop (Suc outer) cs))"
      by (rule at_it_ConsI [OF d]) auto
    then have at': "at_it cs (outer, j) (ranges (take outer cs) @ take j (ch_data c))
        (ch_data c ! j # drop (Suc j) (ch_data c) @ ranges (drop (Suc outer) cs))"
      using lt \<open>j < length (ch_data c)\<close> by (simp add: cs [symmetric])
    have "index < snd (ch_data c ! j)"
    proof (cases "index < ch_begin c")
      case True
      have "ch_data c ! 0 \<in> set (ch_data c)" using cwf by (simp add: chunk_wf_def)
      then have "fst (ch_data c ! 0) < snd (ch_data c ! 0)"
        by (rule rl_ok_pos [OF rl_ok_chunk [OF rl c_in]])
      then show ?thesis using True cwf by (simp add: j_def chunk_wf_def hd_conv_nth)
    qed (simp add: j_def post)
    then have "found index (ranges (take outer cs) @ take j (ch_data c))
        (ch_data c ! j # drop (Suc j) (ch_data c) @ ranges (drop (Suc outer) cs))"
      using before pre by (auto simp: j_def)
    with eq at' show ?thesis by blast
  qed
qed

lemma find_index_ok:
  assumes "crv_ok dbg cs"
  shows "\<exists>it A B. find_index dbg cs index = Some it \<and> at_it cs it A B \<and> found index A B"
  unfolding find_index_def
  using find_from_ok [OF assms at_begin [OF crv_ok_wf [OF assms]]] by simp

lemma contains_ok: "crv_ok dbg cs \<Longrightarrow> contains dbg cs index = Some (index \<in> idx cs)"
proof -
  assume ok: "crv_ok dbg cs"
  from find_index_ok [OF ok] obtain it A B where
    it: "find_index dbg cs index = Some it" "at_it cs it A B" "found index A B" by blast
  have rs: "ranges cs = A @ B" using it(2) by (rule at_it_ranges)
  then have "rl_ok (A @ B)" using ok by (simp add: crv_ok_def)
  from found_mem [OF this it(3)] show ?thesis
    using it by (cases B) (auto simp: contains_def idx_def rs at_it_end at_it_range)
qed

subsection \<open>Adding one index\<close>

text \<open>
  What \<open>do_add\<close> promises: the set gains the index, and the returned iterator is at the range that
  now holds it. When the index does not touch the range after it, the ranges from there on are
  unchanged and the returned range ends right after the index.
\<close>

definition added :: "bool \<Rightarrow> range list \<Rightarrow> range list \<Rightarrow> size_t \<Rightarrow> (index_set \<times> iter) option \<Rightarrow> bool" where
  "added dbg A B index res \<longleftrightarrow> (\<exists>cs' it' A' r B'. res = Some (cs', it') \<and> crv_ok dbg cs'
     \<and> at_it cs' it' A' (r # B') \<and> set_of (A' @ r # B') = insert index (set_of (A @ B))
     \<and> fst r \<le> index \<and> index < snd r \<and> (\<forall>x\<in>set A'. snd x \<le> index)
     \<and> (B = [] \<or> Suc index < fst (hd B) \<longrightarrow> B' = B \<and> snd r = Suc index))"

lemma addedI:
  assumes "res = Some (cs', it')" "crv_ok dbg cs'" "at_it cs' it' A' (r # B')"
    "set_of (A' @ r # B') = insert index (set_of (A @ B))"
    "fst r \<le> index" "index < snd r" "\<forall>x\<in>set A'. snd x \<le> index"
    "B = [] \<or> Suc index < fst (hd B) \<Longrightarrow> B' = B \<and> snd r = Suc index"
  shows "added dbg A B index res"
  using assms unfolding added_def by blast

lemma plus_diff_simps [simp]:
  "plus_diff n 0 = n" "plus_diff n 1 = Suc n" "plus_diff n (int k) = n + k"
  "plus_diff (Suc n) (- 1) = n"
  by (simp_all add: plus_diff_def nat_add_distrib)

lemma insert_gap:
  assumes ok: "crv_ok dbg cs" and at: "at_it cs it A B" and found: "found index A B"
    and gapA: "\<forall>x\<in>set A. snd x < index" and gapB: "B \<noteq> [] \<Longrightarrow> Suc index < fst (hd B)"
  shows "added dbg A B index (insert_range dbg cs it (index, index + 1))"
proof -
  have rl: "rl_ok (A @ B)" using ok at by (simp add: crv_ok_def at_it_ranges)
  then have rl': "rl_ok (A @ (index, index + 1) # B)"
    using gapA gapB by (cases B) (auto dest: rl_ok_pos)
  from insert_range_ok [OF ok at rl'] obtain cs' it' where
    res: "insert_range dbg cs it (index, index + 1) = Some (cs', it')" "crv_ok dbg cs'"
    "at_it cs' it' A ((index, index + 1) # B)" by blast
  show ?thesis
    by (rule addedI [OF res]) (use gapA in \<open>auto simp: less_Suc_eq\<close>)
qed

lemma extend_front:
  assumes ok: "crv_ok dbg cs" and at: "at_it cs it A (r # B)"
    and gapA: "\<forall>x\<in>set A. snd x < index" and r: "fst r = Suc index"
  shows "added dbg A (r # B) index (Some (it_adjust cs it (- 1) 0, it))"
proof -
  have rl: "rl_ok (A @ r # B)" using ok at by (simp add: crv_ok_def at_it_ranges)
  let ?cs = "it_adjust cs it (- 1) 0"
  have ck: "chunks_ok dbg cs" using ok by (simp add: crv_okD)
  have "chunks_ok dbg ?cs \<and> at_it ?cs it A ((index, snd r) # B) \<and> shape ?cs = shape cs"
    using it_adjust_at [OF ck at, of "- 1" 0] rl r by (simp add: plus_diff_def)
  then have *: "chunks_ok dbg ?cs" "at_it ?cs it A ((index, snd r) # B)" by auto
  have "crv_ok dbg ?cs"
    by (rule crv_okI [OF *(1) at_it_ranges [OF *(2)]]) (use rl gapA r in auto)
  then show ?thesis
    by (rule addedI [OF refl _ *(2)]) (use rl gapA r in \<open>auto simp: Suc_le_eq\<close>)
qed

lemma extend_back:
  assumes ok: "crv_ok dbg cs" and at: "at_it cs it (A @ [p]) B" and p: "snd p = index"
    and gapB: "B \<noteq> [] \<Longrightarrow> Suc index < fst (hd B)"
  shows "added dbg (A @ [p]) B index (Some (it_adjust cs (prev_it cs it) 0 1, prev_it cs it))"
proof -
  have rl: "rl_ok (A @ p # B)" using ok at_it_ranges [OF at] by (simp add: crv_ok_def)
  let ?p = "prev_it cs it" and ?cs = "it_adjust cs (prev_it cs it) 0 1"
  have ck: "chunks_ok dbg cs" using ok by (simp add: crv_okD)
  have atp: "at_it cs ?p A (p # B)" by (rule at_prev [OF crv_ok_wf [OF ok] at])
  have "chunks_ok dbg ?cs \<and> at_it ?cs ?p A ((fst p, Suc index) # B) \<and> shape ?cs = shape cs"
    using it_adjust_at [OF ck atp, of 0 1] rl p by simp
  then have *: "chunks_ok dbg ?cs" "at_it ?cs ?p A ((fst p, Suc index) # B)" by auto
  have "crv_ok dbg ?cs"
    by (rule crv_okI [OF *(1) at_it_ranges [OF *(2)]]) (use rl gapB p in \<open>cases B; auto\<close>)
  then show ?thesis
    by (rule addedI [OF refl _ *(2)]) (use rl p in \<open>auto simp: less_Suc_eq\<close>)
qed

lemma join_ranges:
  assumes ok: "crv_ok dbg cs" and at: "at_it cs it (A @ [p]) (r # B)" and p: "snd p = index"
    and r: "fst r = Suc index"
  defines "cs1 \<equiv> it_adjust cs (prev_it cs it) 0 1"
  defines "cs2 \<equiv> it_adjust cs1 (prev_it cs it) 0 (int (snd r - fst r))"
  shows "it_range cs1 (prev_it cs it) = (fst p, Suc index) \<and> it_range cs1 it = r
    \<and> added dbg (A @ [p]) (r # B) index
      (do { (cs3, it3) \<leftarrow> erase_range dbg cs2 it; Some (cs3, prev_it cs3 it3) })"
proof -
  have rl: "rl_ok (A @ p # r # B)" using ok at_it_ranges [OF at] by (simp add: crv_ok_def)
  let ?p = "prev_it cs it"
  have ck: "chunks_ok dbg cs" using ok by (simp add: crv_okD)
  have atp: "at_it cs ?p A (p # r # B)" by (rule at_prev [OF crv_ok_wf [OF ok] at])
  have 1: "chunks_ok dbg cs1 \<and> at_it cs1 ?p A ((fst p, Suc index) # r # B) \<and> shape cs1 = shape cs"
    using it_adjust_at [OF ck atp, of 0 1] rl p by (simp add: cs1_def)
  then have 2: "chunks_ok dbg cs2 \<and> at_it cs2 ?p A ((fst p, snd r) # r # B) \<and> shape cs2 = shape cs1"
    using it_adjust_at [of dbg cs1 ?p A "(fst p, Suc index)" "r # B" 0 "int (snd r - fst r)"] rl p r
    by (simp add: cs2_def)
  have at1: "at_it cs1 it (A @ [(fst p, Suc index)]) (r # B)"
    by (rule at_it_transfer [OF _ at]) (use 1 in \<open>auto dest: at_it_ranges\<close>)
  have at2: "at_it cs2 it (A @ [(fst p, snd r)]) (r # B)"
    by (rule at_it_transfer [OF _ at1]) (use 2 in \<open>auto dest: at_it_ranges\<close>)
  have rl2: "rl_ok ((A @ [(fst p, snd r)]) @ B)" using rl p r by auto
  from 2 erase_range_ok [OF _ at2 rl2] obtain cs3 it3 where
    3: "erase_range dbg cs2 it = Some (cs3, it3)" "crv_ok dbg cs3" "at_it cs3 it3 (A @ [(fst p, snd r)]) B"
    by blast
  have "at_it cs3 (prev_it cs3 it3) A ((fst p, snd r) # B)"
    by (rule at_prev [OF crv_ok_wf [OF 3(2)] 3(3)])
  then have "added dbg (A @ [p]) (r # B) index (Some (cs3, prev_it cs3 it3))"
    by (rule addedI [OF refl 3(2)]) (use rl p r in \<open>auto simp: Suc_le_eq\<close>)
  then show ?thesis using 1 3(1) at_it_range [OF at1] at_it_range [of cs1 ?p] by auto
qed

lemma do_add_ok:
  assumes ok: "crv_ok dbg cs" and at: "at_it cs it A B" and found: "found index A B"
  shows "added dbg A B index (do_add dbg cs it index)"
proof -
  have rl: "rl_ok (A @ B)" using ok at by (simp add: crv_ok_def at_it_ranges)
  have wf: "crv_wf dbg cs" using ok by (rule crv_ok_wf)
  have v: "verify dbg cs = Some ()" using ok by simp
  have valid: "it \<noteq> end_it cs \<longleftrightarrow> B \<noteq> []" using at by (simp add: at_it_end)
  have more: "it \<noteq> begin_it cs \<longleftrightarrow> A \<noteq> []" using wf at by (simp add: at_it_begin)
  have cur: "it_range cs it = hd B" if "B \<noteq> []" using that at by (cases B) (auto simp: at_it_range)
  have prev: "it_range cs (prev_it cs it) = last A" if "A \<noteq> []"
    using that at by (cases A rule: rev_cases) (auto intro: at_it_range at_prev [OF wf])
  have assert: "A \<noteq> [] \<longrightarrow> snd (last A) \<le> index" using found by (cases A rule: rev_cases) (auto simp: found_def)
  consider (inside) "B \<noteq> []" "fst (hd B) \<le> index" "index < snd (hd B)"
    | (after) "\<not> (B \<noteq> [] \<and> fst (hd B) \<le> index)" "A \<noteq> []" "snd (last A) = index"
    | (gap) "\<not> (B \<noteq> [] \<and> fst (hd B) \<le> index)" "\<not> (A \<noteq> [] \<and> snd (last A) = index)"
    using found by (auto simp: found_def)
  then show ?thesis
  proof cases
    case inside
    then obtain r B1 where B: "B = r # B1" by (cases B) auto
    have eq: "do_add dbg cs it index = Some (cs, it)"
      using inside assert by (simp add: do_add_def v valid more cur prev Let_def)
    show ?thesis
      by (rule addedI [OF eq ok at [unfolded B]]) (use inside found in \<open>auto simp: B\<close>)
  next
    case after
    then obtain A1 p where A: "A = A1 @ [p]" by (cases A rule: rev_cases) auto
    have p: "snd p = index" using after A by simp
    show ?thesis
    proof (cases "B \<noteq> [] \<and> fst (hd B) = Suc index")
      case True
      then obtain r B1 where B: "B = r # B1" by (cases B) auto
      have r: "fst r = Suc index" using True B by simp
      note j = join_ranges [OF ok at [unfolded A B] p r]
      show ?thesis
        using j after p r found unfolding A B
        by (simp add: do_add_def v valid more cur prev Let_def A B)
    next
      case False
      then have gapB: "B \<noteq> [] \<Longrightarrow> Suc index < fst (hd B)" using after(1) by auto
      let ?p = "prev_it cs it" and ?cs1 = "it_adjust cs (prev_it cs it) 0 1"
      have e: "added dbg A B index (Some (?cs1, ?p))"
        using extend_back [OF ok at [unfolded A] p gapB] by (simp add: A)
      have "chunks_ok dbg cs" using ok by (simp add: crv_okD)
      from it_adjust_at [OF this at_prev [OF wf at [unfolded A]], of 0 1]
      have 1: "at_it ?cs1 ?p A1 ((fst p, Suc index) # B)" "shape ?cs1 = shape cs"
        using rl p by (auto simp: A)
      have at1: "at_it ?cs1 it (A1 @ [(fst p, Suc index)]) B"
        by (rule at_it_transfer [OF 1(2) at]) (use 1 in \<open>auto simp: A dest: at_it_ranges\<close>)
      have "B \<noteq> [] \<Longrightarrow> it_range ?cs1 it = hd B"
        using at1 by (cases B) (auto simp: at_it_range)
      moreover have "it_range ?cs1 ?p = (fst p, Suc index)" by (rule at_it_range [OF 1(1)])
      ultimately have "do_add dbg cs it index = Some (?cs1, ?p)"
        using after False assert by (auto simp: do_add_def v valid more cur prev Let_def)
      with e show ?thesis by simp
    qed
  next
    case gap
    have gapA: "\<forall>x\<in>set A. snd x < index"
    proof
      fix x assume x: "x \<in> set A"
      then obtain A1 p where A: "A = A1 @ [p]" by (cases A rule: rev_cases) auto
      have "snd p < index" using gap(2) assert A by auto
      then show "snd x < index" using x rl A by (auto dest!: rl_ok_pos)
    qed
    show ?thesis
    proof (cases "B \<noteq> [] \<and> fst (hd B) = Suc index")
      case True
      then obtain r B1 where B: "B = r # B1" by (cases B) auto
      have "do_add dbg cs it index = Some (it_adjust cs it (- 1) 0, it)"
        using gap True assert
        by (cases "A = []") (auto simp: do_add_def v valid more cur prev Let_def)
      with extend_front [OF ok at [unfolded B] gapA] True B show ?thesis by simp
    next
      case False
      have "do_add dbg cs it index = insert_range dbg cs it (index, index + 1)"
        using gap False assert
        by (cases "A = []") (auto simp: do_add_def v valid more cur prev Let_def)
      moreover have "B \<noteq> [] \<Longrightarrow> Suc index < fst (hd B)" using gap(1) False by auto
      ultimately show ?thesis using insert_gap [OF ok at found gapA] by simp
    qed
  qed
qed

lemma add_ok:
  assumes "crv_ok dbg cs"
  shows "\<exists>cs'. add dbg cs index = Some cs' \<and> crv_ok dbg cs' \<and> idx cs' = insert index (idx cs)"
proof -
  from find_index_ok [OF assms] obtain it A B where
    f: "find_index dbg cs index = Some it" "at_it cs it A B" "found index A B" by blast
  from do_add_ok [OF assms f(2,3)] obtain cs' it' A' B' where
    "do_add dbg cs it index = Some (cs', it')" "crv_ok dbg cs'" "at_it cs' it' A' B'"
    "set_of (A' @ B') = insert index (set_of (A @ B))"
    unfolding added_def by blast
  with f show ?thesis by (simp add: add_def idx_def at_it_ranges)
qed

lemma index_set_of_list_ok:
  "crv_ok dbg cs \<Longrightarrow> \<exists>cs'. index_set_of_list dbg cs vs = Some cs' \<and> crv_ok dbg cs' \<and> idx cs' = idx cs \<union> set vs"
proof (induction vs arbitrary: cs)
  case (Cons v vs)
  from add_ok [OF Cons.prems, of v] obtain cs1 where
    1: "add dbg cs v = Some cs1" "crv_ok dbg cs1" "idx cs1 = insert v (idx cs)" by blast
  from Cons.IH [OF 1(2)] 1 show ?case by auto
qed simp

lemma crv_ok_Nil [simp]: "crv_ok dbg []"
  by (simp add: crv_ok_def)

lemma set_len_ok: "\<exists>cs'. set_len dbg cs len = Some cs' \<and> crv_ok dbg cs' \<and> idx cs' = {..<len}"
proof (cases "len = 0")
  case False
  then have "rl_ok (ranges [] @ [(0, len)])" by simp
  from push_back_ok [OF crv_ok_Nil this] obtain cs' where
    "push_back dbg [] (0, len) = Some cs'" "crv_ok dbg cs'" "ranges cs' = [(0, len)]" by auto
  with False show ?thesis by (auto simp: set_len_def idx_def)
qed (simp add: set_len_def)

end
