(* ===== verification/Index_Set_Update.thy ===== *)
theory Index_Set_Update
  imports Index_Set
begin

section \<open>IndexSet: shifting, erasing and removing\<close>

text \<open>
  The operations of \<open>IndexSet\<close> that change a set in place for one position or one range of
  positions: \<open>add_shifted\<close>, \<open>insert_at\<close>, \<open>shift_for_insert_at\<close>, \<open>erase_at\<close>,
  \<open>erase_or_unshift\<close> and \<open>remove\<close>. The contracts say what each does to the set \<open>idx cs\<close>, with
  positions moved by \<open>shift_of\<close> and \<open>unshift_of\<close>.
\<close>

subsection \<open>Definitions\<close>

text \<open>\<open>for (; it != end; ++it) it.shift(n)\<close>\<close>

partial_function (option) shift_all :: "index_set \<Rightarrow> iter \<Rightarrow> int \<Rightarrow> index_set option" where
  [code]: "shift_all cs it n =
     (if it = end_it cs then Some cs
      else shift_all (it_shift cs it n) (next_it (it_shift cs it n) it) n)"

text \<open>The two loops at the head of \<open>add_shifted\<close>: whole chunks first, then ranges.\<close>

partial_function (option) add_shifted_chunks :: "index_set \<Rightarrow> iter \<Rightarrow> size_t \<Rightarrow> (iter \<times> size_t) option" where
  [code]: "add_shifted_chunks cs it index =
     (if it \<noteq> end_it cs \<and> ch_end (cs ! fst it) \<le> index
      then add_shifted_chunks cs (next_chunk it) (index + ch_count (cs ! fst it))
      else Some (it, index))"

partial_function (option) add_shifted_ranges :: "index_set \<Rightarrow> iter \<Rightarrow> size_t \<Rightarrow> (iter \<times> size_t) option" where
  [code]: "add_shifted_ranges cs it index =
     (if it \<noteq> end_it cs \<and> fst (it_range cs it) \<le> index
      then add_shifted_ranges cs (next_it cs it)
             (index + (snd (it_range cs it) - fst (it_range cs it)))
      else Some (it, index))"

definition add_shifted :: "bool \<Rightarrow> index_set \<Rightarrow> size_t \<Rightarrow> (index_set \<times> size_t) option" where
  "add_shifted dbg cs index = do {
     (it, index) \<leftarrow> add_shifted_chunks cs (begin_it cs) index;
     (it, index) \<leftarrow> add_shifted_ranges cs it index;
     (cs', it') \<leftarrow> do_add dbg cs it index;
     Some (cs', index)
   }"

text \<open>The loop of \<open>insert_at\<close> that adds the \<open>n\<close> new positions one after the other.\<close>

fun insert_at_loop :: "bool \<Rightarrow> index_set \<Rightarrow> iter \<Rightarrow> size_t \<Rightarrow> nat \<Rightarrow> index_set option" where
  "insert_at_loop dbg cs pos index 0 = Some cs"
| "insert_at_loop dbg cs pos index (Suc n) = do {
     (cs', pos') \<leftarrow> do_add dbg cs pos index;
     insert_at_loop dbg cs' (next_it cs' pos') (index + 1) n
   }"

definition insert_at :: "bool \<Rightarrow> index_set \<Rightarrow> size_t \<Rightarrow> size_t \<Rightarrow> index_set option" where
  "insert_at dbg cs index count = do {
     realm_assert (count > 0);
     pos \<leftarrow> find_index dbg cs index;
     let in_existing = (pos \<noteq> end_it cs \<and> fst (it_range cs pos) \<le> index);
     cs1 \<leftarrow> (if pos \<noteq> end_it cs then do {
               let cs0 = (if in_existing then it_adjust cs pos 0 (int count)
                          else it_shift cs pos (int count));
               shift_all cs0 (next_it cs0 pos) (int count)
             }
             else Some cs);
     cs2 \<leftarrow> (if in_existing then Some cs1 else insert_at_loop dbg cs1 pos index count);
     verify dbg cs2;
     Some cs2
   }"

definition shift_for_insert_at :: "bool \<Rightarrow> index_set \<Rightarrow> size_t \<Rightarrow> size_t \<Rightarrow> index_set option" where
  "shift_for_insert_at dbg cs index count = do {
     realm_assert (count > 0);
     it \<leftarrow> find_index dbg cs index;
     (if it = end_it cs then Some cs
      else do {
        cs1 \<leftarrow> shift_all cs it (int count);
        cs2 \<leftarrow> (if fst (it_range cs1 it) < index + count then do {
                  let old_second = snd (it_range cs1 it);
                  let cs' = it_set cs1 it (fst (it_range cs1 it) - count) index;
                  (cs'', _) \<leftarrow> insert_range dbg cs' (next_it cs' it) (index + count, old_second);
                  Some cs''
                }
                else Some cs1);
        verify dbg cs2;
        Some cs2
      })
   }"

definition do_erase :: "bool \<Rightarrow> index_set \<Rightarrow> iter \<Rightarrow> size_t \<Rightarrow> index_set option" where
  "do_erase dbg cs it index = do {
     (cs', it') \<leftarrow>
       (if fst (it_range cs it) \<le> index then
          (if fst (it_range cs it) + 1 = snd (it_range cs it) then erase_range dbg cs it
           else Some (it_adjust cs it 0 (- 1), next_it (it_adjust cs it 0 (- 1)) it))
        else if it \<noteq> begin_it cs \<and> snd (it_range cs (prev_it cs it)) + 1 = fst (it_range cs it) then do {
          let r = it_range cs it;
          let cs1 = it_adjust cs (prev_it cs it) 0 (int (snd r - fst r));
          erase_range dbg cs1 it
        }
        else Some (cs, it));
     shift_all cs' it' (- 1)
   }"

definition erase_at :: "bool \<Rightarrow> index_set \<Rightarrow> size_t \<Rightarrow> index_set option" where
  "erase_at dbg cs index = do {
     it \<leftarrow> find_index dbg cs index;
     (if it \<noteq> end_it cs then do_erase dbg cs it index else Some cs)
   }"

partial_function (option) erase_or_unshift_chunks ::
  "index_set \<Rightarrow> iter \<Rightarrow> size_t \<Rightarrow> size_t \<Rightarrow> (iter \<times> size_t) option" where
  [code]: "erase_or_unshift_chunks cs it index shifted =
     (if it \<noteq> end_it cs \<and> ch_end (cs ! fst it) \<le> index
      then erase_or_unshift_chunks cs (next_chunk it) index (shifted - ch_count (cs ! fst it))
      else Some (it, shifted))"

partial_function (option) erase_or_unshift_ranges ::
  "index_set \<Rightarrow> iter \<Rightarrow> size_t \<Rightarrow> size_t \<Rightarrow> (iter \<times> size_t) option" where
  [code]: "erase_or_unshift_ranges cs it index shifted =
     (if it \<noteq> end_it cs \<and> snd (it_range cs it) \<le> index
      then erase_or_unshift_ranges cs (next_it cs it) index
             (shifted - (snd (it_range cs it) - fst (it_range cs it)))
      else Some (it, shifted))"

definition erase_or_unshift :: "bool \<Rightarrow> index_set \<Rightarrow> size_t \<Rightarrow> (index_set \<times> size_t) option" where
  "erase_or_unshift dbg cs index = do {
     (it, shifted) \<leftarrow> erase_or_unshift_chunks cs (begin_it cs) index index;
     (it, shifted) \<leftarrow> erase_or_unshift_ranges cs it index shifted;
     (if it = end_it cs then Some (cs, shifted)
      else do {
        let shifted = (if fst (it_range cs it) \<le> index then npos else shifted);
        cs' \<leftarrow> do_erase dbg cs it index;
        Some (cs', shifted)
      })
   }"

text \<open>One iteration of \<open>do_remove\<close>: the part of the range at the iterator that is to go is cut out.\<close>

definition remove_step :: "bool \<Rightarrow> index_set \<Rightarrow> iter \<Rightarrow> size_t \<Rightarrow> size_t \<Rightarrow> (index_set \<times> iter) option" where
  "remove_step dbg cs it b end0 =
     (let r = it_range cs it in
      if fst r < b \<and> snd r > end0 then do {
        let cs1 = it_set cs it (fst r) b;
        (cs2, it2) \<leftarrow> insert_range dbg cs1 (next_it cs1 it) (end0, snd r);
        Some (cs2, prev_it cs2 it2)
      }
      else if b = fst r \<and> end0 \<ge> snd r then erase_range dbg cs it
      else if b = fst r then Some (it_set cs it end0 (snd r), it)
      else Some (it_set cs it (fst r) b, it))"

partial_function (option) do_remove ::
  "bool \<Rightarrow> index_set \<Rightarrow> iter \<Rightarrow> size_t \<Rightarrow> size_t \<Rightarrow> (index_set \<times> iter) option" where
  [code]: "do_remove dbg cs it0 begin0 end0 = do {
     it \<leftarrow> find_from dbg cs begin0 it0;
     (if it \<noteq> end_it cs \<and> fst (it_range cs it) < end0 then do {
        let b = max (fst (it_range cs it)) begin0;
        (cs', it') \<leftarrow> remove_step dbg cs it b end0;
        do_remove dbg cs' it' b end0
      }
      else Some (cs, it))
   }"

definition remove :: "bool \<Rightarrow> index_set \<Rightarrow> size_t \<Rightarrow> size_t \<Rightarrow> index_set option" where
  "remove dbg cs index count = do {
     it \<leftarrow> find_index dbg cs index;
     (cs', it') \<leftarrow> do_remove dbg cs it index (index + count);
     Some cs'
   }"

fun remove_set_loop :: "bool \<Rightarrow> index_set \<Rightarrow> iter \<Rightarrow> range list \<Rightarrow> index_set option" where
  "remove_set_loop dbg cs it [] = Some cs"
| "remove_set_loop dbg cs it (r # rs) = do {
     (cs', it') \<leftarrow> do_remove dbg cs it (fst r) (snd r);
     (if it' = end_it cs' then Some cs' else remove_set_loop dbg cs' it' rs)
   }"

definition remove_set :: "bool \<Rightarrow> index_set \<Rightarrow> index_set \<Rightarrow> index_set option" where
  "remove_set dbg cs values = remove_set_loop dbg cs (begin_it cs) (ranges values)"

subsection \<open>add_shifted\<close>

lemma begin_it_eq [simp]: "begin_it cs = (0, 0)"
  by (simp add: begin_it_def end_it_def)

lemma chunk_end_bounds:
  assumes "chunk_wf dbg c" "rl_ok (ch_data c)" "x \<in> set (ch_data c)"
  shows "fst x < snd x \<and> snd x \<le> ch_end c"
proof -
  obtain d1 d2 where d: "ch_data c = d1 @ x # d2" using assms(3) by (meson split_list)
  have "ch_end c = snd (last (ch_data c))" using assms(1) by (simp add: chunk_wf_def)
  then show ?thesis using assms(2) d by (cases d2 rule: rev_cases) (auto dest: rl_ok_pos)
qed

text \<open>The sum of the lengths of the ranges of a prefix shifts an index over that prefix.\<close>

lemma shift_over_prefix:
  assumes rl: "rl_ok (A @ B)" and A: "\<forall>x\<in>set A. snd x \<le> n + span A"
    and B: "B = [] \<or> n + span A < fst (hd B)"
  shows "shift_of (set_of (A @ B)) n = n + span A \<and> found (n + span A) A B"
proof -
  let ?j = "n + span A"
  have f: "found ?j A B" using A B rl by (cases B) auto
  have "?j \<notin> set_of (A @ B)" using found_mem [OF rl f] B by auto
  moreover have "set_of (A @ B) \<inter> {..<?j} = set_of A"
    using A B rl by (cases B) (fastforce simp: mem_set_of)+
  then have "unshift_of (set_of (A @ B)) ?j = n"
    using rl by (simp add: unshift_of_def card_set_of del: set_of_append)
  ultimately show ?thesis using f by (simp add: shift_ofI)
qed

lemma add_shifted_chunks_ok:
  assumes "chunks_ok dbg cs2" "rl_ok (ranges cs2)"
    and "\<forall>x\<in>set (ranges cs1). snd x \<le> n + span (ranges cs1)"
  shows "\<exists>cs3 cs4. cs1 @ cs2 = cs3 @ cs4
    \<and> add_shifted_chunks (cs1 @ cs2) (length cs1, 0) (n + span (ranges cs1))
        = Some ((length cs3, 0), n + span (ranges cs3))
    \<and> (\<forall>x\<in>set (ranges cs3). snd x \<le> n + span (ranges cs3))"
  using assms
proof (induction cs2 arbitrary: cs1)
  case Nil
  then have "add_shifted_chunks (cs1 @ []) (length cs1, 0) (n + span (ranges cs1))
      = Some ((length cs1, 0), n + span (ranges cs1))"
    by (subst add_shifted_chunks.simps) (simp add: end_it_def)
  then show ?case using Nil.prems(3) by blast
next
  case (Cons c cs2)
  let ?i = "n + span (ranges cs1)"
  have c: "chunk_wf dbg c" "ch_count c = span (ch_data c)" "rl_ok (ch_data c)"
    using Cons.prems by auto
  show ?case
  proof (cases "ch_end c \<le> ?i")
    case True
    have "\<forall>x\<in>set (ranges (cs1 @ [c])). snd x \<le> n + span (ranges (cs1 @ [c]))"
      using Cons.prems(3) chunk_end_bounds [OF c(1,3)] True by fastforce
    from Cons.IH [OF _ _ this] Cons.prems obtain cs3 cs4 where
      *: "(cs1 @ [c]) @ cs2 = cs3 @ cs4"
      "add_shifted_chunks ((cs1 @ [c]) @ cs2) (length (cs1 @ [c]), 0) (n + span (ranges (cs1 @ [c])))
        = Some ((length cs3, 0), n + span (ranges cs3))"
      "\<forall>x\<in>set (ranges cs3). snd x \<le> n + span (ranges cs3)" by auto
    have "add_shifted_chunks (cs1 @ c # cs2) (length cs1, 0) ?i
        = Some ((length cs3, 0), n + span (ranges cs3))"
      using *(2) True c(2)
      by (subst add_shifted_chunks.simps) (simp add: end_it_def next_chunk_def add.assoc)
    with *(1,3) show ?thesis by auto
  next
    case False
    then have "add_shifted_chunks (cs1 @ c # cs2) (length cs1, 0) ?i = Some ((length cs1, 0), ?i)"
      by (subst add_shifted_chunks.simps) simp
    then show ?thesis using Cons.prems(3) by blast
  qed
qed

lemma add_shifted_ranges_ok:
  assumes wf: "crv_wf dbg cs" and at: "at_it cs it A B" and rl: "rl_ok B"
    and A: "\<forall>x\<in>set A. snd x \<le> n + span A"
  shows "\<exists>it' A' B'. add_shifted_ranges cs it (n + span A) = Some (it', n + span A')
    \<and> at_it cs it' A' B' \<and> (\<forall>x\<in>set A'. snd x \<le> n + span A')
    \<and> (B' = [] \<or> n + span A' < fst (hd B'))"
  using at rl A
proof (induction B arbitrary: it A)
  case Nil
  then have "add_shifted_ranges cs it (n + span A) = Some (it, n + span A)"
    by (subst add_shifted_ranges.simps) (simp add: at_it_Nil)
  with Nil show ?case by blast
next
  case (Cons r B)
  have ne: "it \<noteq> end_it cs" and cur: "it_range cs it = r"
    using Cons.prems(1) by (auto simp: at_it_end at_it_range)
  show ?case
  proof (cases "fst r \<le> n + span A")
    case True
    have at': "at_it cs (next_it cs it) (A @ [r]) B" by (rule at_next [OF wf Cons.prems(1)])
    have "\<forall>x\<in>set (A @ [r]). snd x \<le> n + span (A @ [r])" using Cons.prems(2,3) True by auto
    from Cons.IH [OF at' _ this] Cons.prems(2) ne cur True show ?thesis
      by (subst add_shifted_ranges.simps) (simp add: add.assoc)
  next
    case False
    then have "add_shifted_ranges cs it (n + span A) = Some (it, n + span A)"
      using cur by (subst add_shifted_ranges.simps) simp
    then show ?thesis using Cons.prems False by (metis list.sel(1) not_le)
  qed
qed

lemma add_shifted_ok:
  assumes ok: "crv_ok dbg cs"
  shows "\<exists>cs'. add_shifted dbg cs n = Some (cs', shift_of (idx cs) n) \<and> crv_ok dbg cs'
    \<and> idx cs' = insert (shift_of (idx cs) n) (idx cs)"
proof -
  have wf: "crv_wf dbg cs" and ck: "chunks_ok dbg cs" and rl: "rl_ok (ranges cs)"
    using ok by (auto simp: crv_okD)
  from add_shifted_chunks_ok [OF ck rl, of "[]" n] obtain cs3 cs4 where
    1: "cs = cs3 @ cs4" "add_shifted_chunks cs (0, 0) n = Some ((length cs3, 0), n + span (ranges cs3))"
    "\<forall>x\<in>set (ranges cs3). snd x \<le> n + span (ranges cs3)" by auto
  have at3: "at_it cs (length cs3, 0) (ranges cs3) (ranges cs4)"
    using wf unfolding 1(1) by (rule at_it_next_pos)
  have "rl_ok (ranges cs4)" using rl by (simp add: 1(1))
  from add_shifted_ranges_ok [OF wf at3 this 1(3)] obtain it A B where
    2: "add_shifted_ranges cs (length cs3, 0) (n + span (ranges cs3)) = Some (it, n + span A)"
    "at_it cs it A B" "\<forall>x\<in>set A. snd x \<le> n + span A" "B = [] \<or> n + span A < fst (hd B)" by blast
  have AB: "ranges cs = A @ B" using 2(2) by (rule at_it_ranges)
  from shift_over_prefix [OF _ 2(3,4)] rl have
    3: "shift_of (idx cs) n = n + span A" "found (n + span A) A B" by (auto simp: AB idx_def)
  from do_add_ok [OF ok 2(2) 3(2)] obtain cs' it' A' B' where
    "do_add dbg cs it (n + span A) = Some (cs', it')" "crv_ok dbg cs'" "at_it cs' it' A' B'"
    "set_of (A' @ B') = insert (n + span A) (set_of (A @ B))"
    unfolding added_def by blast
  with 1(2) 2(1) 3(1) show ?thesis by (simp add: add_shifted_def idx_def at_it_ranges AB)
qed

subsection \<open>insert_at and shift_for_insert_at\<close>

lemma shift_all_ok:
  assumes "chunks_ok dbg cs" "at_it cs it A B" "\<forall>r\<in>set B. fst r \<le> snd r \<and> 0 \<le> int (fst r) + n"
  shows "\<exists>cs'. shift_all cs it n = Some cs' \<and> chunks_ok dbg cs'
    \<and> at_it cs' it A (map (shift_by n) B) \<and> shape cs' = shape cs"
  using assms
proof (induction B arbitrary: cs it A)
  case Nil
  then have "shift_all cs it n = Some cs"
    by (subst shift_all.simps) (simp add: at_it_Nil)
  with Nil show ?case by simp
next
  case (Cons r B)
  let ?cs = "it_shift cs it n" and ?r = "shift_by n r"
  have 1: "chunks_ok dbg ?cs" "at_it ?cs it A (?r # B)" "shape ?cs = shape cs"
    using it_shift_at [OF Cons.prems(1,2)] Cons.prems(3) by (auto simp: plus_diff_def shift_by_def)
  have "at_it ?cs (next_it ?cs it) (A @ [?r]) B"
    by (rule at_next [OF chunks_ok_wf [OF 1(1)] 1(2)])
  from Cons.IH [OF 1(1) this] Cons.prems(3) obtain cs' where
    2: "shift_all ?cs (next_it ?cs it) n = Some cs'" "chunks_ok dbg cs'"
    "at_it cs' (next_it ?cs it) (A @ [?r]) (map (shift_by n) B)" "shape cs' = shape ?cs" by auto
  have "at_it cs' it A (map (shift_by n) (r # B))"
    by (rule at_it_transfer [OF _ Cons.prems(2)]) (use 1(3) 2(3,4) in \<open>auto dest: at_it_ranges\<close>)
  moreover have "it \<noteq> end_it cs" using Cons.prems(2) by (simp add: at_it_end)
  ultimately show ?case
    using 1(3) 2 by (subst shift_all.simps) simp
qed

lemma shift_for_insert_at_ok:
  assumes ok: "crv_ok dbg cs" and n: "0 < n"
  shows "\<exists>cs'. shift_for_insert_at dbg cs index n = Some cs' \<and> crv_ok dbg cs'
    \<and> idx cs' = open_gap index n (idx cs)"
proof -
  from find_index_ok [OF ok] obtain it A B where
    f: "find_index dbg cs index = Some it" "at_it cs it A B" "found index A B" by blast
  have rl: "rl_ok (A @ B)" and ck: "chunks_ok dbg cs"
    using ok f(2) by (auto simp: crv_ok_def at_it_ranges)
  have S: "idx cs = set_of A \<union> set_of B" using f(2) by (rule idx_at)
  have A: "x < index" if "x \<in> set_of A" for x
    using that f(3) by (auto simp: found_def intro: set_of_before)
  show ?thesis
  proof (cases B)
    case Nil
    then have "shift_for_insert_at dbg cs index n = Some cs"
      using n f by (simp add: shift_for_insert_at_def at_it_Nil)
    moreover have "open_gap index n (idx cs) = idx cs"
      using A n by (force simp: open_gap_def S Nil)
    ultimately show ?thesis using ok by simp
  next
    case (Cons r B1)
    have r: "fst r < snd r" "index < snd r" and B1: "snd r < x" if "x \<in> set_of B1" for x
      using rl f(3) that set_of_after [of r B1] by (auto simp: Cons)
    have r': "fst r < snd r" "index < snd r" using rl f(3) by (auto simp: Cons)
    have ne: "it \<noteq> end_it cs" using f(2) Cons by (simp add: at_it_end)
    have "\<forall>r\<in>set B. fst r \<le> snd r \<and> 0 \<le> int (fst r) + int n"
      using rl by (auto dest: rl_ok_pos)
    from shift_all_ok [OF ck f(2) this] obtain cs1 where
      1: "shift_all cs it (int n) = Some cs1" "chunks_ok dbg cs1"
      "at_it cs1 it A (shift_by (int n) r # map (shift_by (int n)) B1)" by (auto simp: Cons)
    have rg: "it_range cs1 it = shift_by (int n) r" by (rule at_it_range [OF 1(3)])
    have rlB: "rl_ok (map (shift_by (int n)) (r # B1))"
      using rl unfolding rl_ok_shift_up by (simp add: Cons)
    show ?thesis
    proof (cases "fst r < index")
      case False
      have "rl_ok (A @ shift_by (int n) r # map (shift_by (int n)) B1)"
        using rl rlB by (fastforce simp: Cons)
      from crv_okI [OF 1(2) at_it_ranges [OF 1(3)] this] have ok1: "crv_ok dbg cs1" .
      have "idx cs1 = open_gap index n (idx cs)"
        using A B1 r' False n
        by (force simp: idx_at [OF 1(3)] open_gap_def S Cons set_of_shift_up)
      then show ?thesis
        using f(1) n ne 1(1) ok1 rg False by (auto simp: shift_for_insert_at_def)
    next
      case True
      let ?cs = "it_set cs1 it (fst r) index"
      have 2: "chunks_ok dbg ?cs" "at_it ?cs it A ((fst r, index) # map (shift_by (int n)) B1)"
        using it_set_at [OF 1(2,3)] by auto
      have "rl_ok (A @ (fst r, index) # map (shift_by (int n)) B1)"
        using rl rlB True r' by (fastforce simp: Cons)
      from crv_okI [OF 2(1) at_it_ranges [OF 2(2)] this] have ok2: "crv_ok dbg ?cs" .
      have at3: "at_it ?cs (next_it ?cs it) (A @ [(fst r, index)]) (map (shift_by (int n)) B1)"
        by (rule at_next [OF crv_ok_wf [OF ok2] 2(2)])
      have "rl_ok ((A @ [(fst r, index)]) @ (index + n, snd r + n) # map (shift_by (int n)) B1)"
        using rl rlB True r' n by (fastforce simp: Cons)
      from insert_range_ok [OF ok2 at3 this] obtain cs4 it4 where
        4: "insert_range dbg ?cs (next_it ?cs it) (index + n, snd r + n) = Some (cs4, it4)"
        "crv_ok dbg cs4"
        "at_it cs4 it4 (A @ [(fst r, index)]) ((index + n, snd r + n) # map (shift_by (int n)) B1)"
        by blast
      have "idx cs4 = open_gap index n (idx cs)"
        using A B1 r' True n
        by (force simp: idx_at [OF 4(3)] open_gap_def S Cons set_of_shift_up)
      then show ?thesis
        using f(1) n ne 1(1) rg True 4 by (auto simp: shift_for_insert_at_def Let_def)
    qed
  qed
qed

lemma insert_at_loop_ok:
  assumes "crv_ok dbg cs" "at_it cs pos A B" "\<forall>x\<in>set A. snd x \<le> i" "B \<noteq> [] \<Longrightarrow> i + n < fst (hd B)"
  shows "\<exists>cs'. insert_at_loop dbg cs pos i n = Some cs' \<and> crv_ok dbg cs'
    \<and> idx cs' = idx cs \<union> {i..<i + n}"
  using assms
proof (induction n arbitrary: cs pos A i)
  case (Suc n)
  have "rl_ok (A @ B)" using Suc.prems(1,2) by (simp add: crv_ok_def at_it_ranges)
  then have "found i A B" using Suc.prems(3,4) by (cases B) auto
  from do_add_ok [OF Suc.prems(1,2) this] Suc.prems(4) obtain cs1 it1 A1 r where
    1: "do_add dbg cs pos i = Some (cs1, it1)" "crv_ok dbg cs1" "at_it cs1 it1 A1 (r # B)"
    "set_of (A1 @ r # B) = insert i (set_of (A @ B))" "\<forall>x\<in>set A1. snd x \<le> i" "snd r = Suc i"
    unfolding added_def by fastforce
  have "at_it cs1 (next_it cs1 it1) (A1 @ [r]) B" by (rule at_next [OF crv_ok_wf [OF 1(2)] 1(3)])
  moreover have "\<forall>x\<in>set (A1 @ [r]). snd x \<le> Suc i" using 1(5,6) by auto
  ultimately obtain cs2 where "insert_at_loop dbg cs1 (next_it cs1 it1) (Suc i) n = Some cs2"
    "crv_ok dbg cs2" "idx cs2 = idx cs1 \<union> {Suc i..<Suc i + n}"
    using Suc.IH [OF 1(2)] Suc.prems(4) by fastforce
  moreover have "idx cs1 = insert i (idx cs)"
    using 1(4) at_it_ranges [OF 1(3)] at_it_ranges [OF Suc.prems(2)] by (simp add: idx_def)
  moreover have "{i..<i + Suc n} = insert i {Suc i..<Suc i + n}" by auto
  ultimately show ?case using 1(1) by auto
qed simp

lemma insert_at_ok:
  assumes ok: "crv_ok dbg cs" and n: "0 < n"
  shows "\<exists>cs'. insert_at dbg cs index n = Some cs' \<and> crv_ok dbg cs'
    \<and> idx cs' = open_gap index n (idx cs) \<union> {index..<index + n}"
proof -
  from find_index_ok [OF ok] obtain it A B where
    f: "find_index dbg cs index = Some it" "at_it cs it A B" "found index A B" by blast
  have rl: "rl_ok (A @ B)" and ck: "chunks_ok dbg cs" and wf: "crv_wf dbg cs"
    using ok f(2) by (auto simp: crv_ok_def at_it_ranges crv_ok_wf)
  have S: "idx cs = set_of A \<union> set_of B" using f(2) by (rule idx_at)
  have A: "x < index" if "x \<in> set_of A" for x
    using that f(3) by (auto simp: found_def intro: set_of_before)
  have As: "\<forall>x\<in>set A. snd x \<le> index" using f(3) by (simp add: found_def)
  have valid: "it \<noteq> end_it cs \<longleftrightarrow> B \<noteq> []" using f(2) by (simp add: at_it_end)
  show ?thesis
  proof (cases B)
    case Nil
    from insert_at_loop_ok [OF ok f(2) As, of n] Nil obtain cs' where
      "insert_at_loop dbg cs it index n = Some cs'" "crv_ok dbg cs'"
      "idx cs' = idx cs \<union> {index..<index + n}" by auto
    moreover have "open_gap index n (idx cs) = idx cs"
      using A n by (force simp: open_gap_def S Nil)
    ultimately show ?thesis using n f Nil valid by (simp add: insert_at_def)
  next
    case (Cons r B1)
    have r: "fst r < snd r" "index < snd r" using rl f(3) by (auto simp: Cons)
    have B1: "snd r < x" if "x \<in> set_of B1" for x
      using rl that set_of_after [of r B1] by (auto simp: Cons)
    have cur: "it_range cs it = r" using f(2) by (simp add: Cons at_it_range)
    have B1s: "\<forall>r\<in>set B1. fst r \<le> snd r \<and> 0 \<le> int (fst r) + int n"
      using rl by (auto simp: Cons dest: rl_ok_pos)
    define cs0 where "cs0 = (if fst r \<le> index then it_adjust cs it 0 (int n) else it_shift cs it (int n))"
    define q where "q = (if fst r \<le> index then (fst r, snd r + n) else shift_by (int n) r)"
    have 0: "chunks_ok dbg cs0" "at_it cs0 it A (q # B1)"
      using it_adjust_at [OF ck f(2) [unfolded Cons], of 0 "int n"]
        it_shift_at [OF ck f(2) [unfolded Cons], of "int n"] r(1)
      by (auto simp: cs0_def q_def shift_by_def nat_add_distrib)
    have "at_it cs0 (next_it cs0 it) (A @ [q]) B1"
      by (rule at_next [OF chunks_ok_wf [OF 0(1)] 0(2)])
    from shift_all_ok [OF 0(1) this B1s] obtain cs1 where
      1: "shift_all cs0 (next_it cs0 it) (int n) = Some cs1" "chunks_ok dbg cs1" "shape cs1 = shape cs0"
      "at_it cs1 (next_it cs0 it) (A @ [q]) (map (shift_by (int n)) B1)" by blast
    have at1: "at_it cs1 it A (q # map (shift_by (int n)) B1)"
      by (rule at_it_transfer [OF 1(3) 0(2)]) (use at_it_ranges [OF 1(4)] in auto)
    have "rl_ok (map (shift_by (int n)) (r # B1))"
      using rl unfolding rl_ok_shift_up by (simp add: Cons)
    then have rl1: "rl_ok (A @ q # map (shift_by (int n)) B1)"
      using rl r by (fastforce simp: Cons q_def)
    have ok1: "crv_ok dbg cs1" by (rule crv_okI [OF 1(2) at_it_ranges [OF at1] rl1])
    have idx1: "idx cs1 = set_of A \<union> {fst q..<snd q} \<union> set_of (map (shift_by (int n)) B1)"
      by (simp add: idx_at [OF at1] Un_assoc)
    show ?thesis
    proof (cases "fst r \<le> index")
      case True
      have "idx cs1 = open_gap index n (idx cs) \<union> {index..<index + n}"
        using A B1 r True n by (force simp: idx1 open_gap_def S Cons set_of_shift_up q_def)
      then show ?thesis
        using n f(1) valid Cons cur True 1(1) ok1 by (simp add: insert_at_def cs0_def)
    next
      case False
      from insert_at_loop_ok [OF ok1 at1 As, of n] False obtain cs2 where
        2: "insert_at_loop dbg cs1 it index n = Some cs2" "crv_ok dbg cs2"
        "idx cs2 = idx cs1 \<union> {index..<index + n}" by (auto simp: q_def)
      have "idx cs1 = open_gap index n (idx cs)"
        using A B1 r False n by (force simp: idx1 open_gap_def S Cons set_of_shift_up q_def)
      then show ?thesis
        using n f(1) valid Cons cur False 1(1) 2 by (simp add: insert_at_def cs0_def)
    qed
  qed
qed

subsection \<open>erase_at and erase_or_unshift\<close>

lemma close_gap_notin: "index \<notin> S \<Longrightarrow> \<forall>x\<in>S. x < index \<Longrightarrow> close_gap index S = S"
  by (force simp: close_gap_def)

lemma close_gap_split:
  assumes "\<And>x. x \<in> SA \<Longrightarrow> x < i" "\<And>y. y \<in> SB \<Longrightarrow> i < y"
  shows "close_gap i (SA \<union> SB) = SA \<union> {x. Suc x \<in> SB}"
  unfolding close_gap_def by (auto dest: assms)

lemma do_erase_tail:
  assumes "crv_ok dbg cs" "at_it cs it A B" "\<forall>r\<in>set B. 0 < fst r"
    and "rl_ok (A @ map (shift_by (- 1)) B)"
  shows "\<exists>cs'. shift_all cs it (- 1) = Some cs' \<and> crv_ok dbg cs'
    \<and> idx cs' = set_of A \<union> set_of (map (shift_by (- 1)) B)"
proof -
  have "rl_ok (ranges cs)" "chunks_ok dbg cs" using assms(1) by (auto simp: crv_okD)
  moreover have "\<forall>r\<in>set B. fst r \<le> snd r \<and> 0 \<le> int (fst r) + - 1"
    using calculation(1) assms(3) at_it_ranges [OF assms(2)] by (auto dest: rl_ok_pos)
  ultimately obtain cs' where *: "shift_all cs it (- 1) = Some cs'" "chunks_ok dbg cs'"
    "at_it cs' it A (map (shift_by (- 1)) B)"
    using shift_all_ok [OF _ assms(2)] by blast
  then show ?thesis using crv_okI [OF *(2) at_it_ranges [OF *(3)] assms(4)] by (simp add: idx_at)
qed

lemma do_erase_ok:
  assumes ok: "crv_ok dbg cs" and at: "at_it cs it A (r # B)" and f: "found index A (r # B)"
  shows "\<exists>cs'. do_erase dbg cs it index = Some cs' \<and> crv_ok dbg cs'
    \<and> idx cs' = close_gap index (idx cs)"
proof -
  have rl: "rl_ok (A @ r # B)" and ck: "chunks_ok dbg cs" and wf: "crv_wf dbg cs"
    using ok at by (auto simp: crv_ok_def at_it_ranges crv_ok_wf)
  have S: "idx cs = set_of A \<union> {fst r..<snd r} \<union> set_of B" using at by (simp add: idx_at Un_assoc)
  have A: "x < index" if "x \<in> set_of A" for x
    using that f by (auto intro: set_of_before)
  have B: "snd r < x" if "x \<in> set_of B" for x
    using rl that set_of_after [of r B] by auto
  have Bs: "\<forall>s\<in>set B. 0 < fst s" using rl by auto
  have cur: "it_range cs it = r" using at by (rule at_it_range)
  have rlB: "rl_ok (map (shift_by (- 1)) B)" using rl Bs by (auto intro: rl_ok_shift_down)
  note B_down = set_of_shift_down [OF Bs]
  consider (single) "fst r \<le> index" "fst r + 1 = snd r"
    | (shrink) "fst r \<le> index" "fst r + 1 \<noteq> snd r"
    | (join) A1 p where "index < fst r" "A = A1 @ [p]" "snd p + 1 = fst r"
    | (plain) "index < fst r" "A = [] \<or> snd (last A) + 1 \<noteq> fst r"
    by (cases A rule: rev_cases) force+
  then show ?thesis
  proof cases
    case single
    from erase_range_ok [OF ck at] rl obtain cs1 it1 where
      1: "erase_range dbg cs it = Some (cs1, it1)" "crv_ok dbg cs1" "at_it cs1 it1 A B" by auto
    have "rl_ok (A @ map (shift_by (- 1)) B)" using rl rlB by fastforce
    from do_erase_tail [OF 1(2,3) Bs this] obtain cs2 where
      "shift_all cs1 it1 (- 1) = Some cs2" "crv_ok dbg cs2"
      "idx cs2 = set_of A \<union> set_of (map (shift_by (- 1)) B)" by blast
    moreover have "set_of A \<union> set_of (map (shift_by (- 1)) B) = close_gap index (idx cs)"
      using A B f single by (force simp: close_gap_def S B_down)
    ultimately show ?thesis using single cur 1(1) by (simp add: do_erase_def)
  next
    case shrink
    let ?cs = "it_adjust cs it 0 (- 1)" and ?r = "(fst r, snd r - 1)"
    have 1: "chunks_ok dbg ?cs" "at_it ?cs it A (?r # B)"
      using it_adjust_at [OF ck at, of 0 "- 1"] rl by (auto simp: plus_diff_def nat_diff_distrib)
    have "rl_ok (A @ ?r # B)" using rl shrink by fastforce
    from crv_okI [OF 1(1) at_it_ranges [OF 1(2)] this] have ok1: "crv_ok dbg ?cs" .
    have "at_it ?cs (next_it ?cs it) (A @ [?r]) B" by (rule at_next [OF crv_ok_wf [OF ok1] 1(2)])
    moreover have "rl_ok ((A @ [?r]) @ map (shift_by (- 1)) B)" using rl rlB shrink by fastforce
    ultimately obtain cs2 where
      "shift_all ?cs (next_it ?cs it) (- 1) = Some cs2" "crv_ok dbg cs2"
      "idx cs2 = set_of (A @ [?r]) \<union> set_of (map (shift_by (- 1)) B)"
      using do_erase_tail [OF ok1 _ Bs] by blast
    moreover have "set_of (A @ [?r]) \<union> set_of (map (shift_by (- 1)) B) = close_gap index (idx cs)"
      using A B f shrink rl by (force simp: close_gap_def S B_down)
    ultimately show ?thesis using shrink cur by (simp add: do_erase_def)
  next
    case join
    have atp: "at_it cs (prev_it cs it) A1 (p # r # B)"
      by (rule at_prev [OF wf at [unfolded join]])
    have prev: "it_range cs (prev_it cs it) = p" using atp by (rule at_it_range)
    let ?p = "(fst p, snd p + (snd r - fst r))"
    let ?cs = "it_adjust cs (prev_it cs it) 0 (int (snd r - fst r))"
    have 1: "chunks_ok dbg ?cs" "at_it ?cs (prev_it cs it) A1 (?p # r # B)" "shape ?cs = shape cs"
      using it_adjust_at [OF ck atp, of 0 "int (snd r - fst r)"] rl by (auto simp: join)
    have at1: "at_it ?cs it (A1 @ [?p]) (r # B)"
      by (rule at_it_transfer [OF 1(3) at]) (use at_it_ranges [OF 1(2)] join in auto)
    have "rl_ok ((A1 @ [?p]) @ B)" using rl join by fastforce
    from erase_range_ok [OF 1(1) at1 this] obtain cs2 it2 where
      2: "erase_range dbg ?cs it = Some (cs2, it2)" "crv_ok dbg cs2" "at_it cs2 it2 (A1 @ [?p]) B"
      by blast
    have "rl_ok ((A1 @ [?p]) @ map (shift_by (- 1)) B)" using rl rlB join by fastforce
    from do_erase_tail [OF 2(2,3) Bs this] obtain cs3 where
      3: "shift_all cs2 it2 (- 1) = Some cs3" "crv_ok dbg cs3"
      "idx cs3 = set_of (A1 @ [?p]) \<union> set_of (map (shift_by (- 1)) B)" by blast
    have i: "index = snd p" using f join by simp
    have "set_of (A1 @ [?p]) \<union> set_of (map (shift_by (- 1)) B) = close_gap index (idx cs)"
      using A B join rl i by (force simp: close_gap_def S B_down)
    moreover have "it \<noteq> begin_it cs" using at_it_begin [OF wf at] join by simp
    ultimately show ?thesis using join cur prev 2 3 by (simp add: do_erase_def Let_def)
  next
    case plain
    have "\<not> (it \<noteq> begin_it cs \<and> snd (it_range cs (prev_it cs it)) + 1 = fst r)"
    proof (cases A rule: rev_cases)
      case Nil
      then show ?thesis using at_it_begin [OF wf at] by simp
    next
      case (snoc A1 p)
      then have "it_range cs (prev_it cs it) = p" using at_prev [OF wf] at by (blast intro: at_it_range)
      with snoc plain show ?thesis by simp
    qed
    moreover have pos: "\<forall>s\<in>set (r # B). 0 < fst s" using Bs plain by auto
    moreover have "rl_ok (A @ map (shift_by (- 1)) (r # B))"
    proof -
      have "rl_ok (map (shift_by (- 1)) (r # B))"
        using rl pos by (intro rl_ok_shift_down) auto
      moreover have "\<forall>x\<in>set A. Suc (snd x) < fst r"
        using rl plain by (cases A rule: rev_cases) (fastforce dest: rl_ok_pos)+
      ultimately show ?thesis using rl by fastforce
    qed
    ultimately obtain cs2 where
      "shift_all cs it (- 1) = Some cs2" "crv_ok dbg cs2"
      "idx cs2 = set_of A \<union> set_of (map (shift_by (- 1)) (r # B))"
      using do_erase_tail [OF ok at] by blast
    moreover have "set_of A \<union> set_of (map (shift_by (- 1)) (r # B)) = close_gap index (idx cs)"
    proof -
      have "index < y" if "y \<in> set_of (r # B)" for y
        using that plain(1) rl by (fastforce simp: mem_set_of)
      moreover have "set_of (map (shift_by (- 1)) (r # B)) = {x. Suc x \<in> set_of (r # B)}"
        using set_of_shift_down [OF pos] by blast
      ultimately show ?thesis
        unfolding idx_at [OF at] using close_gap_split [of "set_of A" index "set_of (r # B)"] A by simp
    qed
    ultimately show ?thesis
      using plain cur \<open>\<not> (it \<noteq> begin_it cs \<and> snd (it_range cs (prev_it cs it)) + 1 = fst r)\<close>
      by (auto simp: do_erase_def)
  qed
qed

lemma erase_at_ok:
  assumes ok: "crv_ok dbg cs"
  shows "\<exists>cs'. erase_at dbg cs index = Some cs' \<and> crv_ok dbg cs' \<and> idx cs' = close_gap index (idx cs)"
proof -
  from find_index_ok [OF ok] obtain it A B where
    f: "find_index dbg cs index = Some it" "at_it cs it A B" "found index A B" by blast
  show ?thesis
  proof (cases B)
    case Nil
    then have "\<forall>x\<in>idx cs. x < index"
      using f(3) set_of_before [of A index] by (auto simp: idx_at [OF f(2)])
    then have "close_gap index (idx cs) = idx cs" by (intro close_gap_notin) auto
    then show ?thesis using f Nil ok by (simp add: erase_at_def at_it_Nil)
  next
    case (Cons r B1)
    then show ?thesis using do_erase_ok [OF ok, of it A r B1 index] f
      by (simp add: erase_at_def at_it_end)
  qed
qed

lemma erase_or_unshift_chunks_ok:
  assumes "chunks_ok dbg cs2" "rl_ok (ranges cs2)" "\<forall>x\<in>set (ranges cs1). snd x \<le> index"
  shows "\<exists>cs3 cs4. cs1 @ cs2 = cs3 @ cs4
    \<and> erase_or_unshift_chunks (cs1 @ cs2) (length cs1, 0) index (n - span (ranges cs1))
        = Some ((length cs3, 0), n - span (ranges cs3))
    \<and> (\<forall>x\<in>set (ranges cs3). snd x \<le> index)"
  using assms
proof (induction cs2 arbitrary: cs1)
  case Nil
  then have "erase_or_unshift_chunks (cs1 @ []) (length cs1, 0) index (n - span (ranges cs1))
      = Some ((length cs1, 0), n - span (ranges cs1))"
    by (subst erase_or_unshift_chunks.simps) (simp add: end_it_def)
  then show ?case using Nil.prems(3) by blast
next
  case (Cons c cs2)
  have c: "chunk_wf dbg c" "ch_count c = span (ch_data c)" "rl_ok (ch_data c)"
    using Cons.prems by auto
  show ?case
  proof (cases "ch_end c \<le> index")
    case True
    have "\<forall>x\<in>set (ranges (cs1 @ [c])). snd x \<le> index"
      using Cons.prems(3) chunk_end_bounds [OF c(1,3)] True by fastforce
    from Cons.IH [OF _ _ this] Cons.prems obtain cs3 cs4 where
      *: "(cs1 @ [c]) @ cs2 = cs3 @ cs4"
      "erase_or_unshift_chunks ((cs1 @ [c]) @ cs2) (length (cs1 @ [c]), 0) index (n - span (ranges (cs1 @ [c])))
        = Some ((length cs3, 0), n - span (ranges cs3))"
      "\<forall>x\<in>set (ranges cs3). snd x \<le> index" by auto
    have "erase_or_unshift_chunks (cs1 @ c # cs2) (length cs1, 0) index (n - span (ranges cs1))
        = Some ((length cs3, 0), n - span (ranges cs3))"
      using *(2) True c(2)
      by (subst erase_or_unshift_chunks.simps) (simp add: end_it_def next_chunk_def)
    with *(1,3) show ?thesis by auto
  next
    case False
    then have "erase_or_unshift_chunks (cs1 @ c # cs2) (length cs1, 0) index (n - span (ranges cs1))
        = Some ((length cs1, 0), n - span (ranges cs1))"
      by (subst erase_or_unshift_chunks.simps) simp
    then show ?thesis using Cons.prems(3) by blast
  qed
qed

lemma erase_or_unshift_ranges_ok:
  assumes wf: "crv_wf dbg cs" and at: "at_it cs it A B" and A: "\<forall>x\<in>set A. snd x \<le> index"
  shows "\<exists>it' A' B'. erase_or_unshift_ranges cs it index (n - span A) = Some (it', n - span A')
    \<and> at_it cs it' A' B' \<and> found index A' B'"
  using at A
proof (induction B arbitrary: it A)
  case Nil
  then have "erase_or_unshift_ranges cs it index (n - span A) = Some (it, n - span A)"
    by (subst erase_or_unshift_ranges.simps) (simp add: at_it_Nil)
  with Nil show ?case by fastforce
next
  case (Cons r B)
  have ne: "it \<noteq> end_it cs" and cur: "it_range cs it = r"
    using Cons.prems(1) by (auto simp: at_it_end at_it_range)
  show ?case
  proof (cases "snd r \<le> index")
    case True
    have at': "at_it cs (next_it cs it) (A @ [r]) B" by (rule at_next [OF wf Cons.prems(1)])
    have "\<forall>x\<in>set (A @ [r]). snd x \<le> index" using Cons.prems(2) True by auto
    from Cons.IH [OF at' this] ne cur True show ?thesis
      by (subst erase_or_unshift_ranges.simps) simp
  next
    case False
    then have "erase_or_unshift_ranges cs it index (n - span A) = Some (it, n - span A)"
      using cur by (subst erase_or_unshift_ranges.simps) simp
    moreover have "found index A (r # B)" using Cons.prems False by simp
    ultimately show ?thesis using Cons.prems by blast
  qed
qed

lemma unshift_at_found:
  assumes rl: "rl_ok (A @ B)" and f: "found index A B" and B: "B = [] \<or> index < fst (hd B)"
  shows "unshift_of (set_of (A @ B)) index = index - span A"
proof -
  have "set_of (A @ B) \<inter> {..<index} = set_of A"
    using f B rl by (cases B) (fastforce simp: mem_set_of)+
  then show ?thesis using rl by (simp add: unshift_of_def card_set_of del: set_of_append)
qed

lemma erase_or_unshift_ok:
  assumes ok: "crv_ok dbg cs"
  shows "\<exists>cs'. erase_or_unshift dbg cs index
      = Some (cs', if index \<in> idx cs then npos else unshift_of (idx cs) index)
    \<and> crv_ok dbg cs' \<and> idx cs' = close_gap index (idx cs)"
proof -
  have wf: "crv_wf dbg cs" and ck: "chunks_ok dbg cs" and rl: "rl_ok (ranges cs)"
    using ok by (auto simp: crv_okD)
  from erase_or_unshift_chunks_ok [OF ck rl, of "[]" index index] obtain cs3 cs4 where
    1: "cs = cs3 @ cs4"
    "erase_or_unshift_chunks cs (0, 0) index index = Some ((length cs3, 0), index - span (ranges cs3))"
    "\<forall>x\<in>set (ranges cs3). snd x \<le> index" by auto
  have at3: "at_it cs (length cs3, 0) (ranges cs3) (ranges cs4)"
    using wf unfolding 1(1) by (rule at_it_next_pos)
  from erase_or_unshift_ranges_ok [OF wf at3 1(3), of index] obtain it A B where
    2: "erase_or_unshift_ranges cs (length cs3, 0) index (index - span (ranges cs3)) = Some (it, index - span A)"
    "at_it cs it A B" "found index A B" by blast
  have AB: "ranges cs = A @ B" using 2(2) by (rule at_it_ranges)
  have rlAB: "rl_ok (A @ B)" using rl AB by simp
  note mem = found_mem [OF rlAB 2(3), folded AB, folded idx_def]
  note un = unshift_at_found [OF rlAB 2(3), folded AB, folded idx_def]
  have run: "erase_or_unshift dbg cs index =
     (if it = end_it cs then Some (cs, index - span A)
      else do { cs' \<leftarrow> do_erase dbg cs it index;
                Some (cs', if fst (it_range cs it) \<le> index then npos else index - span A) })"
    using 1(2) 2(1) by (simp add: erase_or_unshift_def Let_def)
  show ?thesis
  proof (cases B)
    case Nil
    then have "close_gap index (idx cs) = idx cs"
      using 2(3) set_of_before [of A index] mem
      by (intro close_gap_notin) (auto simp: idx_at [OF 2(2)])
    then show ?thesis using run mem un Nil ok 2(2) by (simp add: at_it_Nil)
  next
    case (Cons r B1)
    from do_erase_ok [OF ok, of it A r B1 index] 2(2,3) Cons obtain cs' where
      "do_erase dbg cs it index = Some cs'" "crv_ok dbg cs'" "idx cs' = close_gap index (idx cs)" by auto
    moreover have "it \<noteq> end_it cs" "it_range cs it = r"
      using 2(2) Cons by (auto simp: at_it_end at_it_range)
    ultimately show ?thesis using run mem un Cons by auto
  qed
qed

subsection \<open>remove\<close>

lemma remove_step_ok:
  assumes ok: "crv_ok dbg cs" and at: "at_it cs it A (r # B)"
    and b: "fst r \<le> b" "b < snd r" "b < end0"
  shows "\<exists>cs' it' B'. remove_step dbg cs it b end0 = Some (cs', it') \<and> crv_ok dbg cs'
    \<and> at_it cs' it' A B' \<and> idx cs' = idx cs - {b..<min end0 (snd r)}"
proof -
  have rl: "rl_ok (A @ r # B)" and ck: "chunks_ok dbg cs"
    using ok at by (auto simp: crv_ok_def at_it_ranges)
  have cur: "it_range cs it = r" using at by (rule at_it_range)
  have S: "idx cs = set_of A \<union> {fst r..<snd r} \<union> set_of B" using at by (simp add: idx_at Un_assoc)
  have A: "x < fst r" if "x \<in> set_of A" for x
    using that rl by (fastforce simp: mem_set_of)
  have B: "snd r < x" if "x \<in> set_of B" for x
    using rl that set_of_after [of r B] by auto
  note set_at = it_set_at [OF ck at refl]
  have replace: "crv_ok dbg (it_set cs it f e) \<and> at_it (it_set cs it f e) it A ((f, e) # B)"
    if "rl_ok (A @ (f, e) # B)" for f e
    using set_at [of f e] that by (auto intro: crv_okI dest: at_it_ranges)
  consider (split) "fst r < b" "snd r > end0" | (all) "b = fst r" "end0 \<ge> snd r"
    | (front) "b = fst r" "end0 < snd r" | (suffix) "fst r < b" "snd r \<le> end0"
    using b(1) by linarith
  then show ?thesis
  proof cases
    case split
    let ?cs = "it_set cs it (fst r) b"
    have "rl_ok (A @ (fst r, b) # B)" using rl split b by fastforce
    then have 1: "crv_ok dbg ?cs" "at_it ?cs it A ((fst r, b) # B)" using replace by auto
    have 2: "at_it ?cs (next_it ?cs it) (A @ [(fst r, b)]) B"
      by (rule at_next [OF crv_ok_wf [OF 1(1)] 1(2)])
    have "rl_ok ((A @ [(fst r, b)]) @ (end0, snd r) # B)" using rl split b by fastforce
    from insert_range_ok [OF 1(1) 2 this] obtain cs2 it2 where
      3: "insert_range dbg ?cs (next_it ?cs it) (end0, snd r) = Some (cs2, it2)" "crv_ok dbg cs2"
      "at_it cs2 it2 (A @ [(fst r, b)]) ((end0, snd r) # B)" by blast
    have 4: "at_it cs2 (prev_it cs2 it2) A ((fst r, b) # (end0, snd r) # B)"
      by (rule at_prev [OF crv_ok_wf [OF 3(2)] 3(3)])
    have "idx cs2 = idx cs - {b..<min end0 (snd r)}"
      using A B b split by (fastforce simp: idx_at [OF 4] S)
    then show ?thesis using split cur 3 4 by (auto simp: remove_step_def Let_def)
  next
    case all
    from erase_range_ok [OF ck at] rl obtain cs' it' where
      1: "erase_range dbg cs it = Some (cs', it')" "crv_ok dbg cs'" "at_it cs' it' A B" by auto
    have "idx cs' = idx cs - {b..<min end0 (snd r)}"
      using A B b all by (fastforce simp: idx_at [OF 1(3)] S)
    then show ?thesis using all cur 1 by (auto simp: remove_step_def Let_def)
  next
    case front
    have "rl_ok (A @ (end0, snd r) # B)" using rl front b by fastforce
    note 1 = replace [OF this]
    have "idx (it_set cs it end0 (snd r)) = idx cs - {b..<min end0 (snd r)}"
      using A B b front by (fastforce simp: idx_at [OF conjunct2 [OF 1]] S)
    then show ?thesis using front cur 1 by (auto simp: remove_step_def Let_def)
  next
    case suffix
    have "rl_ok (A @ (fst r, b) # B)" using rl suffix b by fastforce
    note 1 = replace [OF this]
    have "idx (it_set cs it (fst r) b) = idx cs - {b..<min end0 (snd r)}"
      using A B b suffix by (fastforce simp: idx_at [OF conjunct2 [OF 1]] S)
    then show ?thesis using suffix cur 1 by (auto simp: remove_step_def Let_def)
  qed
qed

lemma do_remove_ok:
  assumes "crv_ok dbg cs" "at_it cs it0 A B" "\<forall>x\<in>set A. snd x \<le> begin0" "begin0 < end0"
  shows "\<exists>cs' it' A' B'. do_remove dbg cs it0 begin0 end0 = Some (cs', it') \<and> crv_ok dbg cs'
    \<and> at_it cs' it' A' B' \<and> (\<forall>x\<in>set A'. snd x \<le> end0) \<and> idx cs' = idx cs - {begin0..<end0}"
  using assms
proof (induction "card (idx cs \<inter> {begin0..<end0})" arbitrary: cs it0 A B begin0 rule: less_induct)
  case less
  from find_from_ok [OF less.prems(1-3)] obtain it A1 B1 where
    f: "find_from dbg cs begin0 it0 = Some it" "at_it cs it A1 B1" "found begin0 A1 B1" by blast
  have A1: "\<forall>x\<in>set A1. snd x \<le> begin0" using f(3) by (simp add: found_def)
  have rl: "rl_ok (A1 @ B1)" using less.prems(1) f(2) by (simp add: crv_ok_def at_it_ranges)
  show ?case
  proof (cases "B1 \<noteq> [] \<and> fst (hd B1) < end0")
    case False
    have "idx cs \<inter> {begin0..<end0} = {}"
      using set_of_before [OF A1] rl False
      by (cases B1) (fastforce simp: idx_at [OF f(2)] mem_set_of)+
    then have "idx cs = idx cs - {begin0..<end0}" by blast
    moreover have "do_remove dbg cs it0 begin0 end0 = Some (cs, it)"
      using f(1,2) False by (cases B1) (auto simp: do_remove.simps [of dbg cs] at_it_end at_it_range)
    moreover have "\<forall>x\<in>set A1. snd x \<le> end0" using A1 less.prems(4) by auto
    ultimately show ?thesis using less.prems(1) f(2) by blast
  next
    case True
    then obtain r B2 where B1: "B1 = r # B2" by (cases B1) auto
    have at: "at_it cs it A1 (r # B2)" using f(2) B1 by simp
    define b where "b = max (fst r) begin0"
    have r: "begin0 < snd r" "fst r < end0" "fst r < snd r" using f(3) True rl by (auto simp: B1)
    have b: "fst r \<le> b" "b < snd r" "b < end0" "begin0 \<le> b" using r less.prems(4) by (auto simp: b_def)
    from remove_step_ok [OF less.prems(1) at b(1-3)] obtain cs1 it1 B3 where
      1: "remove_step dbg cs it b end0 = Some (cs1, it1)" "crv_ok dbg cs1" "at_it cs1 it1 A1 B3"
      "idx cs1 = idx cs - {b..<min end0 (snd r)}" by blast
    have low: "idx cs \<inter> {begin0..<b} = {}"
      using set_of_before [OF A1] rl by (fastforce simp: idx_at [OF at] b_def mem_set_of B1)
    have "b \<in> idx cs" using b by (simp add: idx_at [OF at])
    then have "idx cs1 \<inter> {b..<end0} \<subset> idx cs \<inter> {begin0..<end0}"
      using b unfolding 1(4) by auto
    then have dec: "card (idx cs1 \<inter> {b..<end0}) < card (idx cs \<inter> {begin0..<end0})"
      by (rule psubset_card_mono [rotated]) simp
    have "\<forall>x\<in>set A1. snd x \<le> b" using A1 b(4) by auto
    from less.hyps [OF dec 1(2,3) this b(3)] obtain cs2 it2 A2 B4 where
      2: "do_remove dbg cs1 it1 b end0 = Some (cs2, it2)" "crv_ok dbg cs2" "at_it cs2 it2 A2 B4"
      "\<forall>x\<in>set A2. snd x \<le> end0" "idx cs2 = idx cs1 - {b..<end0}" by blast
    have "idx cs2 = idx cs - {begin0..<end0}" using low b unfolding 2(5) 1(4) by auto
    moreover have "do_remove dbg cs it0 begin0 end0 = Some (cs2, it2)"
      using f(1) at r(2) 1(1) 2(1)
      by (simp add: do_remove.simps [of dbg cs] at_it_end at_it_range b_def [symmetric])
    ultimately show ?thesis using 2(2-4) by blast
  qed
qed

lemma remove_ok:
  assumes ok: "crv_ok dbg cs" and n: "0 < n"
  shows "\<exists>cs'. remove dbg cs index n = Some cs' \<and> crv_ok dbg cs'
    \<and> idx cs' = idx cs - {index..<index + n}"
proof -
  from find_index_ok [OF ok] obtain it A B where
    f: "find_index dbg cs index = Some it" "at_it cs it A B" "found index A B" by blast
  then have "\<forall>x\<in>set A. snd x \<le> index" by (simp add: found_def)
  from do_remove_ok [OF ok f(2) this, of "index + n"] n f(1) show ?thesis
    by (auto simp: remove_def)
qed

lemma remove_set_loop_ok:
  assumes "crv_ok dbg cs" "at_it cs it A B" "rl_ok rs"
    and "rs \<noteq> [] \<Longrightarrow> \<forall>x\<in>set A. snd x \<le> fst (hd rs)"
  shows "\<exists>cs'. remove_set_loop dbg cs it rs = Some cs' \<and> crv_ok dbg cs' \<and> idx cs' = idx cs - set_of rs"
  using assms
proof (induction rs arbitrary: cs it A B)
  case (Cons r rs)
  from do_remove_ok [OF Cons.prems(1,2), of "fst r" "snd r"] Cons.prems(3,4) obtain cs1 it1 A1 B1 where
    1: "do_remove dbg cs it (fst r) (snd r) = Some (cs1, it1)" "crv_ok dbg cs1" "at_it cs1 it1 A1 B1"
    "\<forall>x\<in>set A1. snd x \<le> snd r" "idx cs1 = idx cs - {fst r..<snd r}" by auto
  show ?case
  proof (cases B1)
    case Nil
    have "x < snd r" if "x \<in> idx cs1" for x
      using that set_of_before [OF 1(4)] by (simp add: idx_at [OF 1(3)] Nil)
    then have "idx cs1 = idx cs - set_of (r # rs)"
      using Cons.prems(3) unfolding 1(5) by (fastforce simp: mem_set_of)
    then show ?thesis using 1(1-3) Nil by (simp add: at_it_Nil)
  next
    case Cons': (Cons s B2)
    have "rs \<noteq> [] \<Longrightarrow> \<forall>x\<in>set A1. snd x \<le> fst (hd rs)"
      using 1(4) Cons.prems(3) by (cases rs) fastforce+
    from Cons.IH [OF 1(2,3) _ this] Cons.prems(3) obtain cs2 where
      "remove_set_loop dbg cs1 it1 rs = Some cs2" "crv_ok dbg cs2" "idx cs2 = idx cs1 - set_of rs" by auto
    then show ?thesis using 1 Cons' by (auto simp: at_it_end)
  qed
qed simp

lemma remove_set_ok:
  assumes ok: "crv_ok dbg cs" and v: "rl_ok (ranges vs)"
  shows "\<exists>cs'. remove_set dbg cs vs = Some cs' \<and> crv_ok dbg cs' \<and> idx cs' = idx cs - idx vs"
  using remove_set_loop_ok [OF ok at_begin [OF crv_ok_wf [OF ok]] v]
  by (simp add: remove_set_def idx_def [of vs])

end
