(* ===== verification/Index_Set_Bulk.thy ===== *)
theory Index_Set_Bulk
  imports Index_Set_Update
begin

section \<open>IndexSet: iteration, counting and operations with another set\<close>

text \<open>
  \<open>IndexIterator\<close>, \<open>ChunkedRangeVectorBuilder\<close> and the operations of \<open>IndexSet\<close> that take another
  set. Loops that walk two sets in step with index iterators are modelled on the lists of indices
  the iterators still have to visit (\<open>as_indexes\<close>): \<open>begin1 != end1\<close> is a non-empty list,
  \<open>*begin1\<close> its head, \<open>++begin1\<close> its tail.
\<close>

subsection \<open>IndexIterator\<close>

type_synonym index_iter = "iter \<times> size_t"

definition index_deref :: "index_set \<Rightarrow> index_iter \<Rightarrow> size_t" where
  "index_deref cs i = fst (it_range cs (fst i)) + snd i"

definition index_next :: "index_set \<Rightarrow> index_iter \<Rightarrow> index_iter" where
  "index_next cs i =
     (let offset = snd i + 1; r = it_range cs (fst i) in
      if fst r + offset = snd r then (next_it cs (fst i), 0) else (fst i, offset))"

partial_function (option) as_indexes_from :: "index_set \<Rightarrow> index_iter \<Rightarrow> size_t list option" where
  [code]: "as_indexes_from cs i =
     (if fst i = end_it cs then Some []
      else do {
        rest \<leftarrow> as_indexes_from cs (index_next cs i);
        Some (index_deref cs i # rest)
      })"

definition as_indexes :: "index_set \<Rightarrow> size_t list option" where
  "as_indexes cs = as_indexes_from cs (begin_it cs, 0)"

subsection \<open>ChunkedRangeVectorBuilder\<close>

record builder =
  b_data :: crv
  b_outer_pos :: nat

definition builder_new :: "bool \<Rightarrow> crv \<Rightarrow> builder" where
  "builder_new dbg expected =
     (let size = sum_list (map (\<lambda>chunk. length (ch_data chunk)) expected) in
      \<lparr>b_data = replicate (size div max_size dbg + 1)
                 \<lparr>ch_data = [], ch_begin = 0, ch_end = 0, ch_count = 0\<rparr>,
       b_outer_pos = 0\<rparr>)"

definition builder_push :: "bool \<Rightarrow> builder \<Rightarrow> range \<Rightarrow> builder" where
  "builder_push dbg b r =
     (let p = b_outer_pos b; chunk = b_data b ! p; d = ch_data chunk in
      if d = [] then
        b\<lparr>b_data := (b_data b)[p := chunk\<lparr>ch_data := [r], ch_count := snd r - fst r,
                                       ch_begin := fst r\<rparr>]\<rparr>
      else if fst r = snd (last d) then
        b\<lparr>b_data := (b_data b)[p := chunk\<lparr>ch_data := butlast d @ [(fst (last d), snd r)],
                                       ch_count := ch_count chunk + (snd r - fst r)\<rparr>]\<rparr>
      else if length d < max_size dbg then
        b\<lparr>b_data := (b_data b)[p := chunk\<lparr>ch_data := d @ [r],
                                       ch_count := ch_count chunk + (snd r - fst r)\<rparr>]\<rparr>
      else
        let data1 = (b_data b)[p := chunk\<lparr>ch_end := snd (last d)\<rparr>]; q = p + 1 in
        if q \<ge> length data1 then
          b\<lparr>b_outer_pos := q,
            b_data := data1 @ [\<lparr>ch_data = [r], ch_begin = fst r, ch_end = 0, ch_count = 1\<rparr>]\<rparr>
        else
          let chunk = data1 ! q in
          b\<lparr>b_outer_pos := q,
            b_data := data1[q := chunk\<lparr>ch_data := ch_data chunk @ [r], ch_begin := fst r,
                                       ch_count := snd r - fst r\<rparr>]\<rparr>)"

definition builder_push_index :: "bool \<Rightarrow> builder \<Rightarrow> size_t \<Rightarrow> builder" where
  "builder_push_index dbg b index = builder_push dbg b (index, index + 1)"

definition builder_finalize :: "builder \<Rightarrow> crv" where
  "builder_finalize b =
     (if b_data b \<noteq> [] then
        let data1 = take (b_outer_pos b + 1) (b_data b) in
        if ch_data (last data1) = [] then butlast data1
        else butlast data1 @ [last data1\<lparr>ch_end := snd (last (ch_data (last data1)))\<rparr>]
      else b_data b)"

subsection \<open>count, shift and unshift\<close>

partial_function (option) count_rest ::
  "index_set \<Rightarrow> iter \<Rightarrow> size_t \<Rightarrow> size_t \<Rightarrow> (iter \<times> size_t) option" where
  [code]: "count_rest cs it end_index ret =
     (if it \<noteq> end_it cs \<and> snd (it_range cs it) < end_index \<and> snd it \<noteq> 0
      then count_rest cs (next_it cs it) end_index
             (ret + (snd (it_range cs it) - fst (it_range cs it)))
      else Some (it, ret))"

partial_function (option) count_chunks ::
  "bool \<Rightarrow> index_set \<Rightarrow> iter \<Rightarrow> size_t \<Rightarrow> size_t \<Rightarrow> (iter \<times> size_t) option" where
  [code]: "count_chunks dbg cs it end_index ret =
     (if it \<noteq> end_it cs \<and> ch_end (cs ! fst it) \<le> end_index
      then do {
        realm_assert_debug dbg (snd it = 0);
        count_chunks dbg cs (next_chunk it) end_index (ret + ch_count (cs ! fst it))
      }
      else Some (it, ret))"

partial_function (option) count_ranges ::
  "index_set \<Rightarrow> iter \<Rightarrow> size_t \<Rightarrow> size_t \<Rightarrow> (iter \<times> size_t) option" where
  [code]: "count_ranges cs it end_index ret =
     (if it \<noteq> end_it cs \<and> snd (it_range cs it) \<le> end_index
      then count_ranges cs (next_it cs it) end_index
             (ret + (snd (it_range cs it) - fst (it_range cs it)))
      else Some (it, ret))"

text \<open>The second half of \<open>count\<close>: whole chunks, whole ranges, and the partial last range.\<close>

definition count_tail :: "bool \<Rightarrow> index_set \<Rightarrow> iter \<Rightarrow> size_t \<Rightarrow> size_t \<Rightarrow> size_t option" where
  "count_tail dbg cs it end_index ret = do {
     (it, ret) \<leftarrow> count_chunks dbg cs it end_index ret;
     (it, ret) \<leftarrow> count_ranges cs it end_index ret;
     (if it \<noteq> end_it cs \<and> fst (it_range cs it) < end_index
      then Some (ret + (end_index - fst (it_range cs it)))
      else Some ret)
   }"

definition count :: "bool \<Rightarrow> index_set \<Rightarrow> size_t \<Rightarrow> size_t \<Rightarrow> size_t option" where
  "count dbg cs start_index end_index = do {
     it \<leftarrow> find_index dbg cs start_index;
     let r = it_range cs it;
     (if it = end_it cs \<or> fst r \<ge> end_index then Some 0
      else if snd r \<ge> end_index then Some (min (snd r) end_index - max (fst r) start_index)
      else if start_index > fst r \<or> snd it \<noteq> 0 then do {
        let ret = snd r - max (fst r) start_index;
        (it, ret) \<leftarrow> count_rest cs (next_it cs it) end_index ret;
        let ret = (if it \<noteq> end_it cs \<and> fst (it_range cs it) < end_index \<and> snd it \<noteq> 0
                   then ret + (end_index - fst (it_range cs it)) else ret);
        (if it = end_it cs \<or> snd (it_range cs it) \<ge> end_index then Some ret
         else count_tail dbg cs it end_index ret)
      }
      else count_tail dbg cs it end_index 0)
   }"

fun shift_loop :: "range list \<Rightarrow> size_t \<Rightarrow> size_t" where
  "shift_loop [] index = index"
| "shift_loop (r # rs) index =
     (if fst r > index then index else shift_loop rs (index + (snd r - fst r)))"

definition shift :: "index_set \<Rightarrow> size_t \<Rightarrow> size_t" where
  "shift cs index = shift_loop (ranges cs) index"

definition unshift :: "bool \<Rightarrow> index_set \<Rightarrow> size_t \<Rightarrow> size_t option" where
  "unshift dbg cs index = do {
     c \<leftarrow> contains dbg cs index;
     realm_assert_debug dbg (\<not> c);
     n \<leftarrow> count dbg cs 0 index;
     Some (index - n)
   }"

subsection \<open>Operations with another set\<close>

fun add_set_loop :: "bool \<Rightarrow> index_set \<Rightarrow> iter \<Rightarrow> size_t list \<Rightarrow> index_set option" where
  "add_set_loop dbg cs it [] = Some cs"
| "add_set_loop dbg cs it (index # is) = do {
     pos \<leftarrow> find_from dbg cs index it;
     (cs', it') \<leftarrow> do_add dbg cs pos index;
     add_set_loop dbg cs' it' is
   }"

definition add_set :: "bool \<Rightarrow> index_set \<Rightarrow> index_set \<Rightarrow> index_set option" where
  "add_set dbg cs other = do {
     is \<leftarrow> as_indexes other;
     add_set_loop dbg cs (begin_it cs) is
   }"

fun insert_at_set_loop :: "bool \<Rightarrow> builder \<Rightarrow> size_t list \<Rightarrow> size_t list \<Rightarrow> size_t \<Rightarrow> builder" where
  "insert_at_set_loop dbg b [] [] sh = b"
| "insert_at_set_loop dbg b (x # xs) [] sh =
     insert_at_set_loop dbg (builder_push_index dbg b (x + sh)) xs [] sh"
| "insert_at_set_loop dbg b [] (y # ys) sh =
     insert_at_set_loop dbg (builder_push_index dbg b y) [] ys sh"
| "insert_at_set_loop dbg b (x # xs) (y # ys) sh =
     (if x + sh < y
      then insert_at_set_loop dbg (builder_push_index dbg b (x + sh)) xs (y # ys) sh
      else insert_at_set_loop dbg (builder_push_index dbg b y) (x # xs) ys (sh + 1))"

definition insert_at_set :: "bool \<Rightarrow> index_set \<Rightarrow> index_set \<Rightarrow> index_set option" where
  "insert_at_set dbg cs positions =
     (if positions = [] then Some cs
      else if cs = [] then Some positions
      else do {
        xs \<leftarrow> as_indexes cs;
        ys \<leftarrow> as_indexes positions;
        Some (builder_finalize (insert_at_set_loop dbg (builder_new dbg cs) xs ys 0))
      })"

fun shift_for_insert_at_set_loop :: "bool \<Rightarrow> builder \<Rightarrow> size_t list \<Rightarrow> size_t list \<Rightarrow> size_t \<Rightarrow> builder" where
  "shift_for_insert_at_set_loop dbg b [] ys sh = b"
| "shift_for_insert_at_set_loop dbg b (x # xs) [] sh =
     shift_for_insert_at_set_loop dbg (builder_push_index dbg b (x + sh)) xs [] sh"
| "shift_for_insert_at_set_loop dbg b (x # xs) (y # ys) sh =
     (if x + sh < y
      then shift_for_insert_at_set_loop dbg (builder_push_index dbg b (x + sh)) xs (y # ys) sh
      else shift_for_insert_at_set_loop dbg b (x # xs) ys (sh + 1))"

definition shift_for_insert_at_set :: "bool \<Rightarrow> index_set \<Rightarrow> index_set \<Rightarrow> index_set option" where
  "shift_for_insert_at_set dbg cs values =
     (if cs = [] \<or> values = [] then Some cs
      else if ch_begin (hd values) \<ge> ch_end (last cs) then Some cs
      else do {
        xs \<leftarrow> as_indexes cs;
        ys \<leftarrow> as_indexes values;
        Some (builder_finalize (shift_for_insert_at_set_loop dbg (builder_new dbg cs) xs ys 0))
      })"

fun erase_at_set_loop :: "bool \<Rightarrow> builder \<Rightarrow> size_t list \<Rightarrow> size_t list \<Rightarrow> size_t \<Rightarrow> builder" where
  "erase_at_set_loop dbg b [] ys sh = b"
| "erase_at_set_loop dbg b (x # xs) [] sh =
     erase_at_set_loop dbg (builder_push_index dbg b (x - sh)) xs [] sh"
| "erase_at_set_loop dbg b (x # xs) (y # ys) sh =
     (if x < y then erase_at_set_loop dbg (builder_push_index dbg b (x - sh)) xs (y # ys) sh
      else if x = y then erase_at_set_loop dbg b xs ys (sh + 1)
      else erase_at_set_loop dbg b (x # xs) ys (sh + 1))"

definition erase_at_set :: "bool \<Rightarrow> index_set \<Rightarrow> index_set \<Rightarrow> index_set option" where
  "erase_at_set dbg cs positions =
     (if cs = [] \<or> positions = [] then Some cs
      else do {
        xs \<leftarrow> as_indexes cs;
        ys \<leftarrow> as_indexes positions;
        Some (builder_finalize (erase_at_set_loop dbg (builder_new dbg cs) xs ys 0))
      })"

text \<open>\<open>add_shifted_by\<close>: the two inner loops, over the ranges still to come, and the outer loop.\<close>

fun skip_shifted :: "range list \<Rightarrow> size_t \<Rightarrow> size_t \<Rightarrow> size_t \<Rightarrow> range list \<times> size_t \<times> size_t" where
  "skip_shifted [] index skip_until new_shift = ([], skip_until, new_shift)"
| "skip_shifted (r # rs) index skip_until new_shift =
     (if fst r \<le> index then skip_shifted rs index (snd r) (new_shift + (snd r - fst r))
      else (r # rs, skip_until, new_shift))"

fun copy_old :: "bool \<Rightarrow> builder \<Rightarrow> range list \<Rightarrow> size_t \<Rightarrow> size_t \<Rightarrow> builder \<times> range list \<times> size_t" where
  "copy_old dbg b [] n old_shift = (b, [], old_shift)"
| "copy_old dbg b (r # rs) n old_shift =
     (if fst r \<le> n + old_shift
      then copy_old dbg (fold (\<lambda>i b. builder_push_index dbg b i) [fst r..<snd r] b) rs n
             (old_shift + (snd r - fst r))
      else (b, r # rs, old_shift))"

fun add_shifted_by_loop ::
  "bool \<Rightarrow> builder \<Rightarrow> range list \<Rightarrow> range list \<Rightarrow> size_t \<Rightarrow> size_t \<Rightarrow> size_t \<Rightarrow> size_t list
   \<Rightarrow> (builder \<times> range list) option" where
  "add_shifted_by_loop dbg b old shifts skip_until old_shift new_shift [] = Some (b, old)"
| "add_shifted_by_loop dbg b old shifts skip_until old_shift new_shift (index # is) =
     (let (shifts', skip_until', new_shift') = skip_shifted shifts index skip_until new_shift in
      if index < skip_until'
      then add_shifted_by_loop dbg b old shifts' skip_until' old_shift new_shift' is
      else do {
        let (b', old', old_shift') = copy_old dbg b old (index - new_shift') old_shift;
        realm_assert (index \<ge> new_shift');
        add_shifted_by_loop dbg (builder_push_index dbg b' (index - new_shift' + old_shift'))
          old' shifts' skip_until' old_shift' new_shift' is
      })"

fun expected_count :: "bool \<Rightarrow> index_set \<Rightarrow> size_t list \<Rightarrow> size_t option" where
  "expected_count dbg shifted_by [] = Some 0"
| "expected_count dbg shifted_by (v # vs) = do {
     c \<leftarrow> contains dbg shifted_by v;
     n \<leftarrow> expected_count dbg shifted_by vs;
     Some (if c then n else n + 1)
   }"

definition add_shifted_by :: "bool \<Rightarrow> index_set \<Rightarrow> index_set \<Rightarrow> index_set \<Rightarrow> index_set option" where
  "add_shifted_by dbg cs shifted_by values =
     (if values = [] then Some cs
      else do {
        is \<leftarrow> as_indexes values;
        (b, old) \<leftarrow> add_shifted_by_loop dbg (builder_new dbg cs) (ranges cs) (ranges shifted_by) 0 0 0 is;
        let cs' = builder_finalize (fold (\<lambda>r b. builder_push dbg b r) old b);
        (if dbg then do {
           before \<leftarrow> as_indexes cs;
           extra \<leftarrow> expected_count dbg shifted_by is;
           after \<leftarrow> as_indexes cs';
           realm_assert (length after = length before + extra)
         }
         else Some ());
        Some cs'
      })"

subsection \<open>The indices an iteration visits\<close>

definition indexes :: "range list \<Rightarrow> size_t list" where
  "indexes rs = concat (map (\<lambda>r. [fst r..<snd r]) rs)"

lemma indexes_Nil [simp]: "indexes [] = []"
  by (simp add: indexes_def)

lemma indexes_Cons [simp]: "indexes (r # rs) = [fst r..<snd r] @ indexes rs"
  by (simp add: indexes_def)

lemma indexes_append [simp]: "indexes (xs @ ys) = indexes xs @ indexes ys"
  by (simp add: indexes_def)

lemma set_indexes [simp]: "set (indexes rs) = set_of rs"
  by (induction rs) auto

lemma length_indexes: "length (indexes rs) = span rs"
  by (induction rs) auto

lemma sorted_indexes: "rl_ok rs \<Longrightarrow> sorted_wrt (<) (indexes rs)"
proof (induction rs)
  case (Cons r rs)
  have "\<forall>x\<in>{fst r..<snd r}. \<forall>y\<in>set_of rs. x < y"
    using Cons.prems set_of_after [of r rs] by fastforce
  then show ?case using Cons by (auto simp: sorted_wrt_append)
qed simp

lemma as_indexes_from_ok:
  assumes "crv_wf dbg cs" "rl_ok (ranges cs)" "at_it cs it A B"
    and "(B = [] \<and> xs = []) \<or>
      (\<exists>r B'. B = r # B' \<and> fst r + off < snd r \<and> xs = [fst r + off..<snd r] @ indexes B')"
  shows "as_indexes_from cs (it, off) = Some xs"
  using assms
proof (induction xs arbitrary: it off A B)
  case Nil
  then have "B = []" by auto
  with Nil.prems(3) show ?case by (subst as_indexes_from.simps) (simp add: at_it_Nil)
next
  case (Cons x xs)
  then obtain r B' where B: "B = r # B'" "fst r + off < snd r"
    "x # xs = [fst r + off..<snd r] @ indexes B'" by auto
  have at: "at_it cs it A (r # B')" using Cons.prems(3) B(1) by simp
  have x: "x = fst r + off" and xs: "xs = [fst r + Suc off..<snd r] @ indexes B'"
    using B(2,3) by (auto simp: upt_conv_Cons)
  have ne: "it \<noteq> end_it cs" and cur: "it_range cs it = r"
    using at by (auto simp: at_it_end at_it_range)
  have "as_indexes_from cs (index_next cs (it, off)) = Some xs"
  proof (cases "fst r + Suc off = snd r")
    case True
    have at': "at_it cs (next_it cs it) (A @ [r]) B'" by (rule at_next [OF Cons.prems(1) at])
    have "xs = indexes B'" using xs True by simp
    moreover have "\<forall>s\<in>set B'. fst s < snd s"
      using Cons.prems(2) at_it_ranges [OF at] by (auto dest: rl_ok_pos)
    ultimately have "as_indexes_from cs (next_it cs it, 0) = Some xs"
      by (intro Cons.IH [OF Cons.prems(1,2) at']) (cases B'; simp)
    then show ?thesis using True cur by (simp add: index_next_def)
  next
    case False
    then have "fst r + Suc off < snd r" using B(2) by simp
    then have "as_indexes_from cs (it, Suc off) = Some xs"
      using xs by (intro Cons.IH [OF Cons.prems(1,2) at]) simp
    then show ?thesis using False cur by (simp add: index_next_def)
  qed
  then show ?case using ne cur x
    by (subst as_indexes_from.simps) (simp add: index_deref_def)
qed

lemma as_indexes_ok:
  assumes "crv_wf dbg cs" "rl_ok (ranges cs)"
  shows "as_indexes cs = Some (indexes (ranges cs))"
  unfolding as_indexes_def
proof (rule as_indexes_from_ok [OF assms at_begin [OF assms(1)]])
  show "(ranges cs = [] \<and> indexes (ranges cs) = []) \<or> (\<exists>r B'. ranges cs = r # B'
      \<and> fst r + 0 < snd r \<and> indexes (ranges cs) = [fst r + 0..<snd r] @ indexes B')"
    using assms(2) by (cases "ranges cs") auto
qed

lemma as_indexes_crv_ok: "crv_ok dbg cs \<Longrightarrow> as_indexes cs = Some (indexes (ranges cs))"
  using as_indexes_ok [of dbg cs] crv_okD [of dbg cs] crv_ok_wf [of dbg cs] by simp

subsection \<open>Adding all indices of another set\<close>

lemma add_set_loop_ok:
  assumes "crv_ok dbg cs" "at_it cs it A B" "sorted_wrt (<) is"
    and "is \<noteq> [] \<Longrightarrow> \<forall>x\<in>set A. snd x \<le> hd is"
  shows "\<exists>cs'. add_set_loop dbg cs it is = Some cs' \<and> crv_ok dbg cs' \<and> idx cs' = idx cs \<union> set is"
  using assms
proof (induction "is" arbitrary: cs it A B)
  case (Cons i "is")
  then have "\<forall>x\<in>set A. snd x \<le> i" by simp
  from find_from_ok [OF Cons.prems(1,2) this] obtain pos A1 B1 where
    f: "find_from dbg cs i it = Some pos" "at_it cs pos A1 B1" "found i A1 B1" by blast
  from do_add_ok [OF Cons.prems(1) f(2,3)] obtain cs1 it1 A2 r B2 where
    1: "do_add dbg cs pos i = Some (cs1, it1)" "crv_ok dbg cs1" "at_it cs1 it1 A2 (r # B2)"
    "set_of (A2 @ r # B2) = insert i (set_of (A1 @ B1))" "\<forall>x\<in>set A2. snd x \<le> i"
    unfolding added_def by blast
  have "is \<noteq> [] \<Longrightarrow> \<forall>x\<in>set A2. snd x \<le> hd is"
    using 1(5) Cons.prems(3) by (cases "is") force+
  from Cons.IH [OF 1(2,3) _ this] Cons.prems(3) obtain cs2 where
    "add_set_loop dbg cs1 it1 is = Some cs2" "crv_ok dbg cs2" "idx cs2 = idx cs1 \<union> set is" by auto
  moreover have "idx cs1 = insert i (idx cs)"
    using 1(4) at_it_ranges [OF 1(3)] at_it_ranges [OF f(2)] by (simp add: idx_def)
  ultimately show ?case using f(1) 1(1) by auto
qed simp

lemma add_set_ok:
  assumes ok: "crv_ok dbg cs" and other: "crv_ok dbg' other"
  shows "\<exists>cs'. add_set dbg cs other = Some cs' \<and> crv_ok dbg cs' \<and> idx cs' = idx cs \<union> idx other"
  using add_set_loop_ok [OF ok at_begin [OF crv_ok_wf [OF ok]], of "indexes (ranges other)"]
    as_indexes_crv_ok [OF other] crv_okD [OF other]
  by (simp add: add_set_def idx_def [of other] sorted_indexes)

subsection \<open>Counting\<close>

text \<open>\<open>below e S\<close> is how many elements of \<open>S\<close> are below \<open>e\<close>.\<close>

definition below :: "size_t \<Rightarrow> size_t set \<Rightarrow> size_t" where
  "below e S = card (S \<inter> {..<e})"

lemma below_Un_disjoint: "finite S \<Longrightarrow> finite T \<Longrightarrow> S \<inter> T = {} \<Longrightarrow> below e (S \<union> T) = below e S + below e T"
  by (auto simp: below_def Int_Un_distrib2 intro!: card_Un_disjoint)

lemma below_range: "below e {a..<b} = min b e - a"
proof -
  have "{a..<b} \<inter> {..<e} = {a..<min b e}" by auto
  then show ?thesis by (simp add: below_def)
qed

lemma below_set_of_Cons:
  assumes "rl_ok (r # B)"
  shows "below e (set_of (r # B)) = (min (snd r) e - fst r) + below e (set_of B)"
proof -
  have "{fst r..<snd r} \<inter> set_of B = {}" using assms by (fastforce simp: mem_set_of)
  then show ?thesis by (simp add: below_Un_disjoint below_range)
qed

lemma below_set_of_append:
  assumes "rl_ok (A @ B)"
  shows "below e (set_of (A @ B)) = below e (set_of A) + below e (set_of B)"
proof -
  have "set_of A \<inter> set_of B = {}" using assms by (fastforce simp: mem_set_of)
  then show ?thesis by (simp add: below_Un_disjoint)
qed

lemma below_all: "rl_ok A \<Longrightarrow> \<forall>x\<in>set A. snd x \<le> e \<Longrightarrow> below e (set_of A) = span A"
  using card_set_of [of A] set_of_before [of A e]
  by (metis below_def inf.absorb1 lessThan_iff subsetI)

lemma below_none: "rl_ok B \<Longrightarrow> B = [] \<or> e \<le> fst (hd B) \<Longrightarrow> below e (set_of B) = 0"
  by (cases B) (fastforce simp: below_def mem_set_of)+

lemma count_chunks_ok:
  assumes "chunks_ok dbg cs2" "rl_ok (ranges cs2)"
  shows "\<exists>cs3 cs4. cs2 = cs3 @ cs4
    \<and> count_chunks dbg (cs1 @ cs2) (length cs1, 0) e ret
        = Some ((length (cs1 @ cs3), 0), ret + span (ranges cs3))
    \<and> (\<forall>x\<in>set (ranges cs3). snd x \<le> e)"
  using assms
proof (induction cs2 arbitrary: cs1 ret)
  case Nil
  have "count_chunks dbg (cs1 @ []) (length cs1, 0) e ret = Some ((length cs1, 0), ret)"
    by (subst count_chunks.simps) (simp add: end_it_def)
  then show ?case by simp
next
  case (Cons c cs2)
  have c: "chunk_wf dbg c" "ch_count c = span (ch_data c)" "rl_ok (ch_data c)"
    using Cons.prems by auto
  show ?case
  proof (cases "ch_end c \<le> e")
    case True
    have run: "count_chunks dbg (cs1 @ c # cs2) (length cs1, 0) e ret
        = count_chunks dbg ((cs1 @ [c]) @ cs2) (length (cs1 @ [c]), 0) e (ret + span (ch_data c))"
      using True c(2) by (subst count_chunks.simps) (simp add: end_it_def next_chunk_def)
    from Cons.IH [of "cs1 @ [c]" "ret + span (ch_data c)"] Cons.prems obtain cs3 cs4 where
      *: "cs2 = cs3 @ cs4" "count_chunks dbg ((cs1 @ [c]) @ cs2) (length (cs1 @ [c]), 0) e (ret + span (ch_data c))
        = Some ((length ((cs1 @ [c]) @ cs3), 0), ret + span (ch_data c) + span (ranges cs3))"
      "\<forall>x\<in>set (ranges cs3). snd x \<le> e" by auto
    have "\<forall>x\<in>set (ranges (c # cs3)). snd x \<le> e"
      using *(3) chunk_end_bounds [OF c(1,3)] True by fastforce
    moreover have "c # cs2 = (c # cs3) @ cs4" using *(1) by simp
    moreover have "count_chunks dbg (cs1 @ c # cs2) (length cs1, 0) e ret
        = Some ((length (cs1 @ c # cs3), 0), ret + span (ranges (c # cs3)))"
      unfolding run *(2) by simp
    ultimately show ?thesis by blast
  next
    case False
    then have "count_chunks dbg (cs1 @ c # cs2) (length cs1, 0) e ret = Some ((length (cs1 @ []), 0), ret)"
      by (subst count_chunks.simps) simp
    then show ?thesis by fastforce
  qed
qed

lemma count_ranges_ok:
  assumes wf: "crv_wf dbg cs" and at: "at_it cs it A B"
  shows "\<exists>it' B1 B2. count_ranges cs it e ret = Some (it', ret + span B1) \<and> B = B1 @ B2
    \<and> at_it cs it' (A @ B1) B2 \<and> (\<forall>x\<in>set B1. snd x \<le> e) \<and> (B2 = [] \<or> e < snd (hd B2))"
  using at
proof (induction B arbitrary: it A ret)
  case Nil
  then have "count_ranges cs it e ret = Some (it, ret)"
    by (subst count_ranges.simps) (simp add: at_it_Nil)
  with Nil show ?case by simp
next
  case (Cons r B)
  have ne: "it \<noteq> end_it cs" and cur: "it_range cs it = r"
    using Cons.prems by (auto simp: at_it_end at_it_range)
  show ?case
  proof (cases "snd r \<le> e")
    case True
    from Cons.IH [OF at_next [OF wf Cons.prems], of "ret + (snd r - fst r)"] obtain it' B1 B2 where
      "count_ranges cs (next_it cs it) e (ret + (snd r - fst r)) = Some (it', ret + (snd r - fst r) + span B1)"
      "B = B1 @ B2" "at_it cs it' (A @ r # B1) B2" "\<forall>x\<in>set (r # B1). snd x \<le> e"
      "B2 = [] \<or> e < snd (hd B2)" using True by auto
    moreover have "count_ranges cs it e ret = count_ranges cs (next_it cs it) e (ret + (snd r - fst r))"
      using ne cur True by (subst count_ranges.simps) simp
    ultimately show ?thesis
      by (intro exI [of _ it'] exI [of _ "r # B1"] exI [of _ B2]) (simp add: add.assoc)
  next
    case False
    then have "count_ranges cs it e ret = Some (it, ret)"
      using cur by (subst count_ranges.simps) simp
    with Cons.prems False show ?thesis by force
  qed
qed

lemma count_tail_ok:
  assumes ok: "chunks_ok dbg (cs1 @ cs2)" and rl: "rl_ok (ranges (cs1 @ cs2))"
  shows "count_tail dbg (cs1 @ cs2) (length cs1, 0) e ret = Some (ret + below e (set_of (ranges cs2)))"
proof -
  have wf: "crv_wf dbg (cs1 @ cs2)" using ok by (rule chunks_ok_wf)
  have "chunks_ok dbg cs2" "rl_ok (ranges cs2)" using ok rl by auto
  from count_chunks_ok [OF this, of cs1 e ret] obtain cs3 cs4 where
    1: "cs2 = cs3 @ cs4" "count_chunks dbg (cs1 @ cs2) (length cs1, 0) e ret
        = Some ((length (cs1 @ cs3), 0), ret + span (ranges cs3))"
    "\<forall>x\<in>set (ranges cs3). snd x \<le> e" by blast
  have at: "at_it (cs1 @ cs2) (length (cs1 @ cs3), 0) (ranges (cs1 @ cs3)) (ranges cs4)"
    using at_it_next_pos [of dbg "cs1 @ cs3" cs4] wf by (simp add: 1(1))
  from count_ranges_ok [OF wf at, of e "ret + span (ranges cs3)"] obtain it' B1 B2 where
    2: "count_ranges (cs1 @ cs2) (length (cs1 @ cs3), 0) e (ret + span (ranges cs3))
        = Some (it', ret + span (ranges cs3) + span B1)" "ranges cs4 = B1 @ B2"
    "at_it (cs1 @ cs2) it' (ranges (cs1 @ cs3) @ B1) B2" "\<forall>x\<in>set B1. snd x \<le> e"
    "B2 = [] \<or> e < snd (hd B2)" by blast
  have rl': "rl_ok ((ranges cs3 @ B1) @ B2)" using rl by (simp add: 1(1) 2(2))
  have sum: "below e (set_of (ranges cs2)) = span (ranges cs3) + span B1 + below e (set_of B2)"
    using below_set_of_append [OF rl', of e] below_all [of "ranges cs3 @ B1" e] rl' 1(3) 2(4)
    by (auto simp: 1(1) 2(2) Un_assoc)
  show ?thesis
  proof (cases B2)
    case Nil
    then show ?thesis using 1(2) 2(1,3) sum by (simp add: count_tail_def at_it_Nil below_def)
  next
    case (Cons s B3)
    then have s: "it_range (cs1 @ cs2) it' = s" "it' \<noteq> end_it (cs1 @ cs2)"
      using 2(3) by (auto simp: at_it_end at_it_range)
    have "below e (set_of B2) = e - fst s"
      using below_set_of_Cons [of s B3 e] below_none [of B3 e] rl' 2(5)
      by (cases B3) (auto simp: Cons)
    then show ?thesis using 1(2) 2(1) s sum by (auto simp: count_tail_def add.assoc)
  qed
qed

end
