(* ===== verification/Index_Set_Count.thy ===== *)
theory Index_Set_Count
  imports Index_Set_Bulk
begin

section \<open>IndexSet: count, shift and unshift are right\<close>

text \<open>
  \<open>count\<close> returns the number of indices of the set in the interval, whenever the interval
  starts at zero (the only use the library makes of it besides the tests), and in general unless
  the interval ends inside the first range of a later chunk; there the code loses that range.
\<close>

definition ends_in_first_range :: "index_set \<Rightarrow> size_t \<Rightarrow> size_t \<Rightarrow> bool" where
  "ends_in_first_range cs s e \<longleftrightarrow>
     (\<exists>c\<in>set cs. s < ch_begin c \<and> ch_begin c < e \<and> e \<le> snd (hd (ch_data c)))"

lemma count_rest_ok:
  assumes wf: "crv_wf dbg cs" and at: "at_it cs it A B"
  shows "\<exists>it' B1 B2. count_rest cs it e ret = Some (it', ret + span B1) \<and> B = B1 @ B2
    \<and> at_it cs it' (A @ B1) B2 \<and> (\<forall>x\<in>set B1. snd x < e)
    \<and> (B2 = [] \<or> e \<le> snd (hd B2) \<or> snd it' = 0)"
  using at
proof (induction B arbitrary: it A ret)
  case Nil
  then have "count_rest cs it e ret = Some (it, ret)"
    by (subst count_rest.simps) (simp add: at_it_Nil)
  with Nil show ?case by simp
next
  case (Cons r B)
  have ne: "it \<noteq> end_it cs" and cur: "it_range cs it = r"
    using Cons.prems by (auto simp: at_it_end at_it_range)
  show ?case
  proof (cases "snd r < e \<and> snd it \<noteq> 0")
    case True
    from Cons.IH [OF at_next [OF wf Cons.prems], of "ret + (snd r - fst r)"] obtain it' B1 B2 where
      "count_rest cs (next_it cs it) e (ret + (snd r - fst r)) = Some (it', ret + (snd r - fst r) + span B1)"
      "B = B1 @ B2" "at_it cs it' (A @ r # B1) B2" "\<forall>x\<in>set (r # B1). snd x < e"
      "B2 = [] \<or> e \<le> snd (hd B2) \<or> snd it' = 0" using True by auto
    moreover have "count_rest cs it e ret = count_rest cs (next_it cs it) e (ret + (snd r - fst r))"
      using ne cur True by (subst count_rest.simps) simp
    ultimately show ?thesis
      by (intro exI [of _ it'] exI [of _ "r # B1"] exI [of _ B2]) (simp add: add.assoc)
  next
    case False
    then have "count_rest cs it e ret = Some (it, ret)"
      using cur by (subst count_rest.simps) auto
    moreover have "r # B = [] \<or> e \<le> snd (hd (r # B)) \<or> snd it = 0" using False by auto
    ultimately show ?thesis using Cons.prems by force
  qed
qed

lemma at_it_chunk_start:
  assumes "crv_wf dbg cs" "at_it cs it A (r # B)" "snd it = 0"
  obtains cs1 c cs2 where "cs = cs1 @ c # cs2" "it = (length cs1, 0)" "ranges (c # cs2) = r # B"
    "ch_begin c = fst r" "hd (ch_data c) = r"
proof -
  from assms(2) obtain cs1 c cs2 d1 d2 where
    *: "cs = cs1 @ c # cs2" "ch_data c = d1 @ r # d2" "it = (length cs1, length d1)"
      "A = ranges cs1 @ d1" "B = d2 @ ranges cs2" by (rule at_it_ConsE)
  then have "d1 = []" using assms(3) by simp
  moreover have "chunk_wf dbg c" using assms(1) by (simp add: *(1) crv_wf_def)
  ultimately show thesis using * by (intro that [of cs1 c cs2]) (auto simp: chunk_wf_def)
qed

lemma card_window_Cons:
  assumes rl: "rl_ok (A @ r # B)" and A: "\<forall>x\<in>set A. snd x \<le> s" and r: "s < snd r"
  shows "card (set_of (A @ r # B) \<inter> {s..<e}) = (min (snd r) e - max (fst r) s) + below e (set_of B)"
proof -
  have "set_of A \<inter> {s..<e} = {}" using set_of_before [OF A] by force
  moreover have B: "\<forall>x\<in>set_of B. snd r < x"
    using rl set_of_after [of r B] by auto
  ultimately have "set_of (A @ r # B) \<inter> {s..<e}
      = {max (fst r) s..<min (snd r) e} \<union> (set_of B \<inter> {..<e})"
    using r by fastforce
  moreover have "{max (fst r) s..<min (snd r) e} \<inter> (set_of B \<inter> {..<e}) = {}"
    using B by force
  ultimately show ?thesis by (simp add: card_Un_disjoint below_def)
qed

lemma card_window_Nil:
  "\<forall>x\<in>set A. snd x \<le> s \<Longrightarrow> card (set_of A \<inter> {s..<e}) = 0"
  using set_of_before [of A s] by (fastforce simp: card_eq_0_iff)

lemma below_prefix:
  assumes "rl_ok (B1 @ B2)" "\<forall>x\<in>set B1. snd x \<le> e"
  shows "below e (set_of (B1 @ B2)) = span B1 + below e (set_of B2)"
  using below_set_of_append [OF assms(1), of e] below_all [of B1 e] assms by simp

text \<open>The count of what follows the first range, from the position after it.\<close>

lemma count_from_next:
  assumes ok: "crv_ok dbg cs" and at: "at_it cs it A B" and s: "\<forall>x\<in>set B. s < fst x"
    and nb: "\<not> ends_in_first_range cs s e"
  shows "do { (it, ret) \<leftarrow> count_rest cs it e ret;
        let ret = (if it \<noteq> end_it cs \<and> fst (it_range cs it) < e \<and> snd it \<noteq> 0
                   then ret + (e - fst (it_range cs it)) else ret);
        (if it = end_it cs \<or> snd (it_range cs it) \<ge> e then Some ret
         else count_tail dbg cs it e ret) } = Some (ret + below e (set_of B))"
proof -
  have wf: "crv_wf dbg cs" and ch: "chunks_ok dbg cs" and rl: "rl_ok (ranges cs)"
    using crv_okD [OF ok] by auto
  from count_rest_ok [OF wf at, of e ret] obtain it' B1 B2 where
    1: "count_rest cs it e ret = Some (it', ret + span B1)" "B = B1 @ B2"
      "at_it cs it' (A @ B1) B2" "\<forall>x\<in>set B1. snd x < e"
      "B2 = [] \<or> e \<le> snd (hd B2) \<or> snd it' = 0" by blast
  have rlB: "rl_ok (B1 @ B2)" using rl at_it_ranges [OF at] by (simp add: 1(2))
  have sum: "below e (set_of B) = span B1 + below e (set_of B2)"
    using below_prefix [OF rlB, of e] 1(4) by (auto simp: 1(2) less_imp_le)
  show ?thesis
  proof (cases B2)
    case Nil
    then show ?thesis using 1(1,3) sum by (simp add: at_it_Nil below_def)
  next
    case (Cons r B3)
    have ne: "it' \<noteq> end_it cs" and cur: "it_range cs it' = r"
      using 1(3) Cons by (auto simp: at_it_end at_it_range)
    have at': "at_it cs it' (A @ B1) (r # B3)" using 1(3) Cons by simp
    have rlr: "rl_ok (r # B3)" using rlB Cons by simp
    show ?thesis
    proof (cases "e \<le> snd r")
      case True
      have "below e (set_of (r # B3)) = e - fst r"
        using below_set_of_Cons [OF rlr, of e] below_none [of B3 e] True rlr by (cases B3) auto
      moreover have "e \<le> fst r" if "snd it' = 0"
      proof -
        from at_it_chunk_start [OF wf at' that] obtain cs1 c cs2 where
          "cs = cs1 @ c # cs2" "ch_begin c = fst r" "hd (ch_data c) = r" by metis
        moreover have "s < fst r" using s Cons by (simp add: 1(2))
        ultimately show ?thesis using nb True by (auto simp: ends_in_first_range_def)
      qed
      ultimately show ?thesis using 1(1) ne cur sum Cons True by auto
    next
      case False
      then have z: "snd it' = 0" using 1(5) Cons by simp
      from at_it_chunk_start [OF wf at' z] obtain cs1 c cs2 where
        c: "cs = cs1 @ c # cs2" "it' = (length cs1, 0)" "ranges (c # cs2) = r # B3" by metis
      have "count_tail dbg cs it' e (ret + span B1) = Some (ret + span B1 + below e (set_of (r # B3)))"
        using count_tail_ok [of dbg cs1 "c # cs2" e "ret + span B1"] ch rl
        by (simp only: c)
      then show ?thesis using 1(1) ne cur sum Cons False z by simp
    qed
  qed
qed

lemma count_ok:
  assumes ok: "crv_ok dbg cs" and nb: "\<not> ends_in_first_range cs s e \<or> s = 0"
  shows "count dbg cs s e = Some (card (idx cs \<inter> {s..<e}))"
proof -
  have wf: "crv_wf dbg cs" and ch: "chunks_ok dbg cs" and rl: "rl_ok (ranges cs)"
    using crv_okD [OF ok] by auto
  from find_index_ok [OF ok] obtain it A B where
    f: "find_index dbg cs s = Some it" "at_it cs it A B" "found s A B" by blast
  have rs: "ranges cs = A @ B" using f(2) by (rule at_it_ranges)
  show ?thesis
  proof (cases B)
    case Nil
    then show ?thesis using f rs card_window_Nil [of A s e]
      by (simp add: count_def idx_def at_it_Nil)
  next
    case (Cons r B')
    have at: "at_it cs it A (r # B')" using f(2) Cons by simp
    have ne: "it \<noteq> end_it cs" and cur: "it_range cs it = r"
      using at by (auto simp: at_it_end at_it_range)
    have A: "\<forall>x\<in>set A. snd x \<le> s" and r: "s < snd r" using f(3) Cons by auto
    have rlr: "rl_ok (A @ r # B')" using rl rs Cons by simp
    note card = card_window_Cons [OF rlr A r, of e, folded Cons rs idx_def]
    have after: "\<forall>x\<in>set B'. snd r < fst x" using rlr by auto
    have pos: "fst r < snd r" using rlr by simp
    consider "e \<le> fst r" | "fst r < e" "e \<le> snd r" | "snd r < e" "fst r < s \<or> snd it \<noteq> 0"
      | "snd r < e" "s \<le> fst r" "snd it = 0" by linarith
    then show ?thesis
    proof cases
      case 1
      then have "below e (set_of B') = 0" using after rlr pos by (intro below_none) (cases B'; simp)+
      then show ?thesis using f(1) ne cur card 1 pos by (simp add: count_def)
    next
      case 2
      then have "below e (set_of B') = 0" using after rlr by (intro below_none) (cases B'; simp)+
      then show ?thesis using f(1) ne cur card 2 by (simp add: count_def)
    next
      case 3
      have "A \<noteq> [] \<or> s \<noteq> 0" using 3(2) at_it_begin [OF wf at] by (auto simp: begin_it_def)
      then have nb': "\<not> ends_in_first_range cs s e"
        using nb A rlr by (cases A) force+
      have "\<forall>x\<in>set B'. s < fst x" using after r by force
      from count_from_next [OF ok at_next [OF wf at] this nb', of "snd r - max (fst r) s"]
      show ?thesis using f(1) ne cur card 3 pos by (simp add: count_def Let_def)
    next
      case 4
      from at_it_chunk_start [OF wf at 4(3)] obtain cs1 c cs2 where
        c: "cs = cs1 @ c # cs2" "it = (length cs1, 0)" "ranges (c # cs2) = r # B'" by metis
      have tail: "count_tail dbg cs it e 0 = Some (below e (set_of (r # B')))"
        using count_tail_ok [of dbg cs1 "c # cs2" e 0] ch rl by (simp only: c) simp
      have "rl_ok (r # B')" using rlr by simp
      from below_set_of_Cons [OF this, of e] show ?thesis
        using f(1) ne cur card tail 4 pos by (simp add: count_def Let_def max_def)
    qed
  qed
qed

lemma count_0_ok: "crv_ok dbg cs \<Longrightarrow> count dbg cs 0 e = Some (card (idx cs \<inter> {..<e}))"
  using count_ok [of dbg cs 0 e] by (simp add: atLeast0LessThan)


subsection \<open>shift and unshift\<close>

lemma unshift_of_below: "unshift_of S i = i - below i S"
proof -
  have "card ({..<i} - S) = card {..<i} - card ({..<i} \<inter> S)"
    by (rule card_Diff_subset_Int) simp
  then show ?thesis by (simp add: unshift_of_card below_def Int_commute)
qed

lemma unshift_of_set_of_append:
  assumes "rl_ok (A @ B)" "\<forall>x\<in>set A. snd x \<le> i" "B = [] \<or> i \<le> fst (hd B)"
  shows "unshift_of (set_of (A @ B)) i = i - span A"
  using below_prefix [OF assms(1,2)] below_none [of B i] assms(1,3)
  by (simp add: unshift_of_below)

lemma shift_loop_ok:
  assumes "rl_ok (P @ rs)" "\<forall>x\<in>set P. snd x \<le> n + span P"
  shows "shift_loop rs (n + span P) = shift_of (set_of (P @ rs)) n"
  using assms
proof (induction rs arbitrary: P)
  case Nil
  have "n + span P \<notin> set_of P" using set_of_before [OF Nil.prems(2)] by blast
  moreover have "unshift_of (set_of P) (n + span P) = n"
    using unshift_of_set_of_append [of P "[]" "n + span P"] Nil.prems by simp
  ultimately show ?case by (simp add: shift_ofI)
next
  case (Cons r rs)
  let ?i = "n + span P"
  show ?case
  proof (cases "fst r > ?i")
    case True
    have "?i \<notin> set_of P" using set_of_before [OF Cons.prems(2)] by blast
    moreover have "\<forall>x\<in>set_of rs. snd r < x" using Cons.prems(1) set_of_after [of r rs] by auto
    ultimately have "?i \<notin> set_of (P @ r # rs)" using True Cons.prems(1) by fastforce
    moreover have "unshift_of (set_of (P @ r # rs)) ?i = n"
      using unshift_of_set_of_append [OF Cons.prems] True by simp
    ultimately have "shift_of (set_of (P @ r # rs)) n = ?i" by (rule shift_ofI)
    then show ?thesis using True by simp
  next
    case False
    have "\<forall>x\<in>set (P @ [r]). snd x \<le> n + span (P @ [r])"
      using Cons.prems False by fastforce
    with Cons.IH [of "P @ [r]"] Cons.prems(1) False show ?thesis by (simp add: add.assoc)
  qed
qed

lemma shift_ok: "crv_ok dbg cs \<Longrightarrow> shift cs index = shift_of (idx cs) index"
  using shift_loop_ok [of "[]" "ranges cs" index] crv_okD [of dbg cs]
  by (simp add: shift_def idx_def)

lemma unshift_ok:
  assumes "crv_ok dbg cs" "dbg \<Longrightarrow> index \<notin> idx cs"
  shows "unshift dbg cs index = Some (unshift_of (idx cs) index)"
  using assms contains_ok [OF assms(1)] count_0_ok [OF assms(1)]
  by (cases dbg) (simp_all add: unshift_def unshift_of_below below_def)

end
