(* ===== verification/Index_Set_Merge.thy ===== *)
theory Index_Set_Merge
  imports Index_Set_Count
begin

section \<open>IndexSet: the operations that rebuild a set\<close>

text \<open>
  \<open>ChunkedRangeVectorBuilder\<close> and the operations that push into it, against their meaning on
  sets: \<open>insert_at\<close>, \<open>shift_for_insert_at\<close>, \<open>erase_at\<close> with another set and \<open>add_shifted_by\<close>.
\<close>

subsection \<open>The builder\<close>

definition app_range :: "range list \<Rightarrow> range \<Rightarrow> range list" where
  "app_range R r =
     (if R \<noteq> [] \<and> snd (last R) = fst r then butlast R @ [(fst (last R), snd r)] else R @ [r])"

definition bok :: "bool \<Rightarrow> builder \<Rightarrow> range list \<Rightarrow> bool" where
  "bok dbg b R \<longleftrightarrow> (\<exists>full cur rest. b_data b = full @ cur # rest \<and> b_outer_pos b = length full
     \<and> (\<forall>c\<in>set full. chunk_wf dbg c \<and> length (ch_data c) = max_size dbg)
     \<and> length (ch_data cur) \<le> max_size dbg
     \<and> (ch_data cur \<noteq> [] \<longrightarrow> ch_begin cur = fst (hd (ch_data cur)))
     \<and> (ch_data cur = [] \<longrightarrow> full = [])
     \<and> (\<forall>c\<in>set rest. ch_data c = [])
     \<and> R = ranges full @ ch_data cur)"

definition bcounts :: "builder \<Rightarrow> bool" where
  "bcounts b \<longleftrightarrow> (\<forall>c\<in>set (b_data b). ch_count c = span (ch_data c))"

lemma length_ranges_full:
  "\<forall>c\<in>set full. length (ch_data c) = n \<Longrightarrow> length (ranges full) = length full * n"
  by (induction full) auto

lemma bok_new: "bok dbg (builder_new dbg cs) [] \<and> bcounts (builder_new dbg cs)"
  unfolding bok_def bcounts_def
  by (intro conjI exI [of _ "[]"] exI [of _ "\<lparr>ch_data = [], ch_begin = 0, ch_end = 0, ch_count = 0\<rparr>"]
        exI [of _ "replicate (sum_list (map (\<lambda>chunk. length (ch_data chunk)) cs) div max_size dbg)
          \<lparr>ch_data = [], ch_begin = 0, ch_end = 0, ch_count = 0\<rparr>"])
    (simp_all add: builder_new_def)

lemma bokI:
  assumes "b_data b = full @ cur # rest" "b_outer_pos b = length full"
    "\<And>c. c \<in> set full \<Longrightarrow> chunk_wf dbg c \<and> length (ch_data c) = max_size dbg"
    "length (ch_data cur) \<le> max_size dbg" "ch_data cur \<noteq> []" "ch_begin cur = fst (hd (ch_data cur))"
    "\<And>c. c \<in> set rest \<Longrightarrow> ch_data c = []" "R = ranges full @ ch_data cur"
  shows "bok dbg b R"
  using assms unfolding bok_def by blast

lemma bok_push:
  assumes ok: "bok dbg b R"
  shows "bok dbg (builder_push dbg b r) (app_range R r)"
proof -
  from ok obtain full cur rest where *: "b_data b = full @ cur # rest" "b_outer_pos b = length full"
    "\<And>c. c \<in> set full \<Longrightarrow> chunk_wf dbg c \<and> length (ch_data c) = max_size dbg"
    "length (ch_data cur) \<le> max_size dbg" "ch_data cur \<noteq> [] \<longrightarrow> ch_begin cur = fst (hd (ch_data cur))"
    "ch_data cur = [] \<longrightarrow> full = []"
    "\<And>c. c \<in> set rest \<Longrightarrow> ch_data c = []" "R = ranges full @ ch_data cur"
    unfolding bok_def by blast
  have last: "ch_data cur \<noteq> [] \<Longrightarrow> last R = last (ch_data cur)" by (simp add: *(8))
  consider "ch_data cur = []" | "ch_data cur \<noteq> []" "fst r = snd (last (ch_data cur))"
    | "ch_data cur \<noteq> []" "fst r \<noteq> snd (last (ch_data cur))" "length (ch_data cur) < max_size dbg"
    | "ch_data cur \<noteq> []" "fst r \<noteq> snd (last (ch_data cur))" "length (ch_data cur) = max_size dbg"
    using *(4) by linarith
  then show ?thesis
  proof cases
    case 1
    then show ?thesis using *
      by (intro bokI [where full = full and rest = rest
            and cur = "cur\<lparr>ch_data := [r], ch_count := snd r - fst r, ch_begin := fst r\<rparr>"])
        (auto simp: builder_push_def app_range_def Suc_le_eq)
  next
    case 2
    let ?d = "ch_data cur"
    have "butlast ?d @ [(fst (last ?d), snd r)] = (if butlast ?d = [] then [(fst (hd ?d), snd r)]
        else hd ?d # tl (butlast ?d) @ [(fst (last ?d), snd r)])"
      using 2(1) by (cases ?d rule: rev_cases) (auto simp: neq_Nil_conv)
    then have hd: "fst (hd (butlast ?d @ [(fst (last ?d), snd r)])) = fst (hd ?d)" by simp
    have len: "length (butlast ?d @ [(fst (last ?d), snd r)]) \<le> max_size dbg"
      using *(4) 2(1) by (cases ?d rule: rev_cases) auto
    show ?thesis using * 2 hd len last
      by (intro bokI [where full = full and rest = rest
            and cur = "cur\<lparr>ch_data := butlast ?d @ [(fst (last ?d), snd r)],
              ch_count := ch_count cur + (snd r - fst r)\<rparr>"])
        (auto simp: builder_push_def app_range_def Let_def butlast_append)
  next
    case 3
    then show ?thesis using * last
      by (intro bokI [where full = full and rest = rest
            and cur = "cur\<lparr>ch_data := ch_data cur @ [r], ch_count := ch_count cur + (snd r - fst r)\<rparr>"])
        (auto simp: builder_push_def app_range_def Let_def)
  next
    case 4
    let ?c = "cur\<lparr>ch_end := snd (last (ch_data cur))\<rparr>"
    have c: "chunk_wf dbg ?c" using 4 * by (simp add: chunk_wf_def)
    have R: "app_range R r = ranges (full @ [?c]) @ [r]" using 4 * last by (simp add: app_range_def)
    show ?thesis
    proof (cases rest)
      case Nil
      then show ?thesis using 4 * c R
        by (intro bokI [where full = "full @ [?c]" and rest = "[]"
              and cur = "\<lparr>ch_data = [r], ch_begin = fst r, ch_end = 0, ch_count = 1\<rparr>"])
          (auto simp: builder_push_def Let_def Suc_le_eq)
    next
      case (Cons c2 rest2)
      then show ?thesis using 4 * c R
        by (intro bokI [where full = "full @ [?c]" and rest = rest2
              and cur = "c2\<lparr>ch_data := [r], ch_begin := fst r, ch_count := snd r - fst r\<rparr>"])
          (auto simp: builder_push_def Let_def nth_append list_update_append Suc_le_eq)
    qed
  qed
qed

text \<open>The chunks' counts stay right as long as the builder needs no more chunks than it allocated
  (it then gives a new chunk the count one), or the range pushed has length one.\<close>

lemma bcounts_push:
  assumes ok: "bok dbg b R" and cnt: "bcounts b" and r: "fst r < snd r" and rl: "rl_ok R"
    and ov: "snd r = Suc (fst r) \<or> length (app_range R r) \<le> length (b_data b) * max_size dbg"
  shows "bcounts (builder_push dbg b r)"
proof -
  from ok obtain full cur rest where *: "b_data b = full @ cur # rest" "b_outer_pos b = length full"
    "\<forall>c\<in>set full. length (ch_data c) = max_size dbg"
    "\<And>c. c \<in> set rest \<Longrightarrow> ch_data c = []" "R = ranges full @ ch_data cur"
    unfolding bok_def by metis
  have cs: "\<forall>c\<in>set full \<union> set rest. ch_count c = span (ch_data c)" "ch_count cur = span (ch_data cur)"
    using cnt by (auto simp: bcounts_def *(1))
  consider "ch_data cur = []" | "ch_data cur \<noteq> []" "fst r = snd (last (ch_data cur))"
    | "ch_data cur \<noteq> []" "fst r \<noteq> snd (last (ch_data cur))" "length (ch_data cur) < max_size dbg"
    | "ch_data cur \<noteq> []" "fst r \<noteq> snd (last (ch_data cur))" "length (ch_data cur) \<ge> max_size dbg"
    by linarith
  then show ?thesis
  proof cases
    case 1
    then show ?thesis using cs by (auto simp: builder_push_def bcounts_def *(1,2))
  next
    case 2
    then obtain d l where d: "ch_data cur = d @ [l]" by (cases "ch_data cur" rule: rev_cases) auto
    have "fst l < snd l" using rl by (simp add: *(5) d)
    then show ?thesis using cs 2 r d by (auto simp: builder_push_def bcounts_def *(1,2))
  next
    case 3
    then show ?thesis using cs by (auto simp: builder_push_def bcounts_def Let_def *(1,2))
  next
    case 4
    show ?thesis
    proof (cases rest)
      case Nil
      have "length (app_range R r) = length (full @ [cur]) * max_size dbg + 1
          + (length (ch_data cur) - max_size dbg)"
        using 4 length_ranges_full [OF *(3)] by (simp add: app_range_def *(5))
      then have "snd r = Suc (fst r)" using ov Nil by (simp add: *(1))
      then show ?thesis using cs 4 Nil by (auto simp: builder_push_def bcounts_def Let_def *(1,2))
    next
      case (Cons c2 rest2)
      moreover have "ch_data c2 = []" using *(4) Cons by simp
      ultimately show ?thesis using cs 4
        by (auto simp: builder_push_def bcounts_def Let_def *(1,2) nth_append list_update_append)
    qed
  qed
qed

lemma b_data_grows: "length (b_data b) \<le> length (b_data (builder_push dbg b r))"
  by (simp add: builder_push_def Let_def)

lemma finalize_ok:
  assumes ok: "bok dbg b R" and cnt: "bcounts b" and rl: "rl_ok R"
  shows "crv_ok dbg (builder_finalize b) \<and> ranges (builder_finalize b) = R"
proof -
  from ok obtain full cur rest where *: "b_data b = full @ cur # rest" "b_outer_pos b = length full"
    "\<forall>c\<in>set full. chunk_wf dbg c"
    "length (ch_data cur) \<le> max_size dbg" "ch_data cur \<noteq> [] \<longrightarrow> ch_begin cur = fst (hd (ch_data cur))"
    "ch_data cur = [] \<longrightarrow> full = []" "R = ranges full @ ch_data cur"
    unfolding bok_def by blast
  have cs: "\<forall>c\<in>set full. ch_count c = span (ch_data c)" "ch_count cur = span (ch_data cur)"
    using cnt by (auto simp: bcounts_def *(1))
  have "chunks_ok dbg full" using *(3) cs(1) by (induction full) auto
  then show ?thesis using * cs(2) rl
    by (auto simp: builder_finalize_def Let_def crv_ok_def chunk_wf_def)
qed

lemma finalize_wf:
  assumes ok: "bok dbg b R" and rl: "rl_ok R"
  shows "crv_wf dbg (builder_finalize b) \<and> ranges (builder_finalize b) = R"
proof -
  from ok obtain full cur rest where *: "b_data b = full @ cur # rest" "b_outer_pos b = length full"
    "\<forall>c\<in>set full. chunk_wf dbg c"
    "length (ch_data cur) \<le> max_size dbg" "ch_data cur \<noteq> [] \<longrightarrow> ch_begin cur = fst (hd (ch_data cur))"
    "ch_data cur = [] \<longrightarrow> full = []" "R = ranges full @ ch_data cur"
    unfolding bok_def by blast
  then show ?thesis
    by (auto simp: builder_finalize_def Let_def crv_wf_def chunk_wf_def)
qed

lemma app_range_ok:
  assumes "rl_ok R" "fst r < snd r" "\<forall>x\<in>set R. snd x \<le> fst r"
  shows "rl_ok (app_range R r) \<and> set_of (app_range R r) = set_of R \<union> {fst r..<snd r}"
proof (cases R rule: rev_cases)
  case Nil
  then show ?thesis using assms by (simp add: app_range_def)
next
  case (snoc R' l)
  have "\<forall>x\<in>set R'. snd x < fst l" "fst l < snd l" using assms(1) by (auto simp: snoc)
  then show ?thesis using assms by (auto simp: app_range_def snoc)
qed

lemma rl_ok_hd: "rl_ok (r # B) \<Longrightarrow> q \<in> set (r # B) \<Longrightarrow> fst r \<le> fst q"
  by fastforce

lemma rl_ok_last: "rl_ok (A @ [l]) \<Longrightarrow> q \<in> set (A @ [l]) \<Longrightarrow> snd q \<le> snd l"
  by fastforce

subsection \<open>Pushing single indices\<close>

definition builds :: "bool \<Rightarrow> builder \<Rightarrow> size_t set \<Rightarrow> bool" where
  "builds dbg b S \<longleftrightarrow> (\<exists>R. bok dbg b R \<and> bcounts b \<and> rl_ok R \<and> set_of R = S)"

lemma builds_new: "builds dbg (builder_new dbg cs) {}"
  using bok_new [of dbg cs] unfolding builds_def by (intro exI [of _ "[]"]) simp

lemma set_of_bounds:
  assumes "rl_ok R" "\<forall>i\<in>set_of R. i < x" "r \<in> set R"
  shows "snd r \<le> x"
proof -
  have "snd r - 1 \<in> set_of R" using rl_ok_pos [OF assms(1,3)] assms(3)
    by (auto simp: mem_set_of intro!: bexI [of _ r])
  then show ?thesis using assms(2) by force
qed

lemma builds_push_index:
  assumes "builds dbg b S" "\<forall>i\<in>S. i < x"
  shows "builds dbg (builder_push_index dbg b x) (insert x S)"
proof -
  from assms(1) obtain R where R: "bok dbg b R" "bcounts b" "rl_ok R" "set_of R = S"
    unfolding builds_def by blast
  have "\<forall>r\<in>set R. snd r \<le> x" using set_of_bounds [OF R(3)] assms(2) R(4) by blast
  then have "rl_ok (app_range R (x, x + 1)) \<and> set_of (app_range R (x, x + 1)) = insert x S"
    using app_range_ok [OF R(3), of "(x, x + 1)"] R(4) by auto
  with bok_push [OF R(1), of "(x, x + 1)"] bcounts_push [OF R(1,2) _ R(3), of "(x, x + 1)"]
  show ?thesis unfolding builds_def builder_push_index_def by auto
qed

lemma builds_fold:
  assumes "builds dbg b S" "sorted_wrt (<) xs" "\<forall>i\<in>S. \<forall>x\<in>set xs. i < x"
  shows "builds dbg (fold (\<lambda>i b. builder_push_index dbg b i) xs b) (S \<union> set xs)"
  using assms
proof (induction xs arbitrary: b S)
  case (Cons x xs)
  have "builds dbg (builder_push_index dbg b x) (insert x S)"
    by (rule builds_push_index [OF Cons.prems(1)]) (use Cons.prems in auto)
  from Cons.IH [OF this] Cons.prems show ?case by auto
qed simp

lemma builds_finalize:
  assumes "builds dbg b S"
  shows "crv_ok dbg (builder_finalize b) \<and> idx (builder_finalize b) = S"
  using assms finalize_ok unfolding builds_def idx_def by metis

lemma build_sorted:
  assumes "sorted_wrt (<) xs" "b = fold (\<lambda>i b. builder_push_index dbg b i) xs (builder_new dbg cs)"
  shows "crv_ok dbg (builder_finalize b) \<and> idx (builder_finalize b) = set xs"
  using builds_finalize builds_fold [OF builds_new [of dbg cs] assms(1)] by (simp add: assms(2))

subsection \<open>Merging two index lists\<close>

text \<open>The three loops push the elements of these lists.\<close>

fun merge_insert :: "size_t list \<Rightarrow> size_t list \<Rightarrow> size_t \<Rightarrow> size_t list" where
  "merge_insert [] ys sh = ys"
| "merge_insert (x # xs) [] sh = (x + sh) # merge_insert xs [] sh"
| "merge_insert (x # xs) (y # ys) sh =
     (if x + sh < y then (x + sh) # merge_insert xs (y # ys) sh
      else y # merge_insert (x # xs) ys (sh + 1))"

fun merge_shift :: "size_t list \<Rightarrow> size_t list \<Rightarrow> size_t \<Rightarrow> size_t list" where
  "merge_shift [] ys sh = []"
| "merge_shift (x # xs) [] sh = (x + sh) # merge_shift xs [] sh"
| "merge_shift (x # xs) (y # ys) sh =
     (if x + sh < y then (x + sh) # merge_shift xs (y # ys) sh
      else merge_shift (x # xs) ys (sh + 1))"

fun merge_erase :: "size_t list \<Rightarrow> size_t list \<Rightarrow> size_t \<Rightarrow> size_t list" where
  "merge_erase [] ys sh = []"
| "merge_erase (x # xs) [] sh = (x - sh) # merge_erase xs [] sh"
| "merge_erase (x # xs) (y # ys) sh =
     (if x < y then (x - sh) # merge_erase xs (y # ys) sh
      else if x = y then merge_erase xs ys (sh + 1)
      else merge_erase (x # xs) ys (sh + 1))"

abbreviation push_all :: "bool \<Rightarrow> size_t list \<Rightarrow> builder \<Rightarrow> builder" where
  "push_all dbg xs b \<equiv> fold (\<lambda>i b. builder_push_index dbg b i) xs b"

lemma insert_loop_nil: "insert_at_set_loop dbg b [] ys sh = push_all dbg ys b"
  by (induction ys arbitrary: b) auto

lemma insert_at_set_loop_eq:
  "insert_at_set_loop dbg b xs ys sh = push_all dbg (merge_insert xs ys sh) b"
  by (induction xs ys sh arbitrary: b rule: merge_insert.induct) (auto simp: insert_loop_nil)

lemma shift_loop_eq:
  "shift_for_insert_at_set_loop dbg b xs ys sh = push_all dbg (merge_shift xs ys sh) b"
  by (induction xs ys sh arbitrary: b rule: merge_shift.induct) auto

lemma erase_loop_eq:
  "erase_at_set_loop dbg b xs ys sh = push_all dbg (merge_erase xs ys sh) b"
  by (induction xs ys sh arbitrary: b rule: merge_erase.induct) auto

text \<open>How far an element moves, when the positions below it are counted.\<close>

lemma shift_of_plus:
  assumes "finite D" "\<forall>d\<in>D. d < x + card D" and that: "\<forall>e\<in>E. x + card D < e"
  shows "shift_of (D \<union> E) x = x + card D"
proof (rule shift_ofI)
  show "x + card D \<notin> D \<union> E" using assms(2) that by auto
  have "(D \<union> E) \<inter> {..<x + card D} = D" using assms(2) that by force
  then show "unshift_of (D \<union> E) (x + card D) = x" by (simp add: unshift_of_below below_def)
qed

lemma unshift_of_minus:
  assumes "\<forall>d\<in>D. d < x" "\<forall>e\<in>E. x \<le> e"
  shows "unshift_of (D \<union> E) x = x - card D"
proof -
  have "(D \<union> E) \<inter> {..<x} = D" using assms by force
  then show ?thesis by (simp add: unshift_of_below below_def)
qed

lemma less_shift_of_iff:
  assumes "finite D" "y \<in> D"
  shows "y < shift_of D x \<longleftrightarrow> unshift_of D y \<le> x"
proof -
  have *: "shift_of D x \<notin> D" "unshift_of D (shift_of D x) = x"
    using shift_of_props [OF assms(1), of x] by auto
  have ne: "shift_of D x \<noteq> y" using *(1) assms(2) by metis
  show ?thesis
  proof
    assume "y < shift_of D x"
    then show "unshift_of D y \<le> x" using unshift_of_mono [of y "shift_of D x" D] *(2) by simp
  next
    assume le: "unshift_of D y \<le> x"
    show "y < shift_of D x"
    proof (rule ccontr)
      assume "\<not> y < shift_of D x"
      then have "shift_of D x < y" using ne by simp
      then show False using unshift_of_less [OF *(1), of y] *(2) le by simp
    qed
  qed
qed

lemma merge_insert_ok:
  assumes "sorted_wrt (<) xs" "sorted_wrt (<) ys" "finite D" "card D = sh"
    "\<forall>d\<in>D. (\<forall>x\<in>set xs. d < x + sh) \<and> (\<forall>y\<in>set ys. d < y)"
  shows "sorted_wrt (<) (merge_insert xs ys sh)
    \<and> set (merge_insert xs ys sh) = shift_of (D \<union> set ys) ` set xs \<union> set ys"
  using assms
proof (induction xs ys sh arbitrary: D rule: merge_insert.induct)
  case (2 x xs sh)
  have D: "shift_of (D \<union> {}) z = z + sh" if "z \<in> set (x # xs)" for z
    using shift_of_plus [OF "2.prems"(3), of z "{}"] "2.prems"(4,5) that by auto
  have IH: "sorted_wrt (<) (merge_insert xs [] sh) \<and> set (merge_insert xs [] sh) = shift_of (D \<union> set []) ` set xs \<union> set []"
    by (rule "2.IH") (use "2.prems" in auto)
  have "\<forall>z\<in>set (merge_insert xs [] sh). x + sh < z"
    using IH D "2.prems"(1) by auto
  then show ?case using IH D by auto
next
  case (3 x xs y ys sh)
  let ?E = "D \<union> set (y # ys)"
  have fin: "finite ?E" using "3.prems"(3) by simp
  show ?case
  proof (cases "x + sh < y")
    case True
    have "\<forall>e\<in>set (y # ys). x + card D < e" using "3.prems"(2,4) True by fastforce
    then have D: "shift_of ?E x = x + sh"
      using shift_of_plus [OF "3.prems"(3), of x "set (y # ys)"] "3.prems"(4,5) by auto
    have IH: "sorted_wrt (<) (merge_insert xs (y # ys) sh)
      \<and> set (merge_insert xs (y # ys) sh) = shift_of ?E ` set xs \<union> set (y # ys)"
      by (rule "3.IH"(1) [OF True]) (use "3.prems" in auto)
    have "\<forall>z\<in>set xs. x + sh < shift_of ?E z"
      unfolding D [symmetric] shift_of_less_iff [OF fin] using "3.prems"(1) by auto
    then have "\<forall>z\<in>set (merge_insert xs (y # ys) sh). x + sh < z"
      using IH "3.prems"(2) True by auto
    then show ?thesis using IH D True by auto
  next
    case False
    have le: "\<forall>z\<in>set (x # xs). y < shift_of ?E z"
    proof
      fix z assume z: "z \<in> set (x # xs)"
      have "\<forall>e\<in>set (y # ys). y \<le> e" using "3.prems"(2) by (auto intro: less_imp_le)
      then have "unshift_of ?E y = y - sh"
        using unshift_of_minus [of D y "set (y # ys)"] "3.prems"(2,4,5) by auto
      also have "\<dots> \<le> z" using z False "3.prems"(1) by auto
      finally show "y < shift_of ?E z" using less_shift_of_iff [OF fin, of y z] by simp
    qed
    have E: "insert y D \<union> set ys = ?E" by auto
    have IH: "sorted_wrt (<) (merge_insert (x # xs) ys (sh + 1))
      \<and> set (merge_insert (x # xs) ys (sh + 1)) = shift_of (insert y D \<union> set ys) ` set (x # xs) \<union> set ys"
    proof (rule "3.IH"(2) [OF False])
      show "\<forall>d\<in>insert y D. (\<forall>x\<in>set (x # xs). d < x + (sh + 1)) \<and> (\<forall>y\<in>set ys. d < y)"
        using "3.prems"(1,2,5) False by fastforce
      show "card (insert y D) = sh + 1" using "3.prems"(3,4,5) by (subst card_insert_disjoint) auto
    qed (use "3.prems" in auto)
    then have "\<forall>z\<in>set (merge_insert (x # xs) ys (sh + 1)). y < z"
      unfolding E using le "3.prems"(2) by auto
    then show ?thesis using IH False unfolding E by auto
  qed
qed simp

lemma merge_shift_ok:
  assumes "sorted_wrt (<) xs" "sorted_wrt (<) ys" "finite D" "card D = sh"
    "\<forall>d\<in>D. (\<forall>x\<in>set xs. d < x + sh) \<and> (\<forall>y\<in>set ys. d < y)"
  shows "merge_shift xs ys sh = map (shift_of (D \<union> set ys)) xs"
  using assms
proof (induction xs ys sh arbitrary: D rule: merge_shift.induct)
  case (2 x xs sh)
  then have "shift_of (D \<union> {}) x = x + sh"
    using shift_of_plus [OF "2.prems"(3), of x "{}"] by auto
  moreover have "merge_shift xs [] sh = map (shift_of (D \<union> set [])) xs"
    by (rule "2.IH") (use "2.prems" in auto)
  ultimately show ?case by simp
next
  case (3 x xs y ys sh)
  show ?case
  proof (cases "x + sh < y")
    case True
    have "\<forall>e\<in>set (y # ys). x + card D < e" using "3.prems"(2,4) True by fastforce
    then have "shift_of (D \<union> set (y # ys)) x = x + sh"
      using shift_of_plus [OF "3.prems"(3), of x "set (y # ys)"] "3.prems"(4,5) by auto
    moreover have "merge_shift xs (y # ys) sh = map (shift_of (D \<union> set (y # ys))) xs"
      by (rule "3.IH"(1) [OF True]) (use "3.prems" in auto)
    ultimately show ?thesis using True by simp
  next
    case False
    have E: "insert y D \<union> set ys = D \<union> set (y # ys)" by auto
    have "merge_shift (x # xs) ys (sh + 1) = map (shift_of (insert y D \<union> set ys)) (x # xs)"
    proof (rule "3.IH"(2) [OF False])
      show "\<forall>d\<in>insert y D. (\<forall>x\<in>set (x # xs). d < x + (sh + 1)) \<and> (\<forall>y\<in>set ys. d < y)"
        using "3.prems"(1,2,5) False by fastforce
      show "card (insert y D) = sh + 1" using "3.prems"(3,4,5) by (subst card_insert_disjoint) auto
    qed (use "3.prems" in auto)
    then show ?thesis using False unfolding E by simp
  qed
qed simp

lemma merge_erase_ok:
  assumes "sorted_wrt (<) xs" "sorted_wrt (<) ys" "finite D" "card D = sh"
    "\<forall>d\<in>D. (\<forall>x\<in>set xs. d < x) \<and> (\<forall>y\<in>set ys. d < y)"
  shows "merge_erase xs ys sh
    = map (unshift_of (D \<union> set ys)) (filter (\<lambda>x. x \<notin> set ys) xs)"
  using assms
proof (induction xs ys sh arbitrary: D rule: merge_erase.induct)
  case (2 x xs sh)
  then have "unshift_of (D \<union> {}) x = x - sh"
    using unshift_of_minus [of D x "{}"] by auto
  moreover have "merge_erase xs [] sh = map (unshift_of (D \<union> set [])) (filter (\<lambda>x. x \<notin> set []) xs)"
    by (rule "2.IH") (use "2.prems" in auto)
  ultimately show ?case by simp
next
  case (3 x xs y ys sh)
  have E: "insert y D \<union> set ys = D \<union> set (y # ys)" by auto
  have card: "card (insert y D) = sh + 1" using "3.prems"(3,4,5) by (subst card_insert_disjoint) auto
  consider "x < y" | "x = y" | "y < x" by linarith
  then show ?case
  proof cases
    case 1
    have ys: "\<forall>e\<in>set (y # ys). x < e" using "3.prems"(2) 1 by auto
    then have "\<forall>e\<in>set (y # ys). x \<le> e" by (meson less_imp_le)
    then have "unshift_of (D \<union> set (y # ys)) x = x - sh"
      using unshift_of_minus [of D x "set (y # ys)"] "3.prems"(4,5) by auto
    moreover have "merge_erase xs (y # ys) sh
        = map (unshift_of (D \<union> set (y # ys))) (filter (\<lambda>x. x \<notin> set (y # ys)) xs)"
      by (rule "3.IH"(1) [OF 1]) (use "3.prems" in auto)
    moreover have "x \<notin> set (y # ys)" using ys by blast
    ultimately show ?thesis using 1 by simp
  next
    case 2
    have "merge_erase xs ys (sh + 1)
        = map (unshift_of (insert y D \<union> set ys)) (filter (\<lambda>x. x \<notin> set ys) xs)"
    proof (rule "3.IH"(2) [OF _ 2])
      show "\<forall>d\<in>insert y D. (\<forall>x\<in>set xs. d < x) \<and> (\<forall>y\<in>set ys. d < y)"
        using "3.prems"(1,2,5) 2 by auto
    qed (use "3.prems" card 2 in auto)
    moreover have "filter (\<lambda>x. x \<notin> set (y # ys)) (x # xs) = filter (\<lambda>x. x \<notin> set ys) xs"
      using "3.prems"(1) 2 by (auto intro!: filter_cong)
    ultimately show ?thesis using 2 unfolding E by simp
  next
    case 3
    have "merge_erase (x # xs) ys (sh + 1)
        = map (unshift_of (insert y D \<union> set ys)) (filter (\<lambda>x. x \<notin> set ys) (x # xs))"
    proof (rule "3.IH"(3))
      show "\<forall>d\<in>insert y D. (\<forall>x\<in>set (x # xs). d < x) \<and> (\<forall>y\<in>set ys. d < y)"
        using "3.prems"(1,2,5) 3 by fastforce
    qed (use "3.prems" card 3 in auto)
    moreover have "filter (\<lambda>x. x \<notin> set (y # ys)) (x # xs) = filter (\<lambda>x. x \<notin> set ys) (x # xs)"
      using "3.prems"(1) 3 by (intro filter_cong) auto
    ultimately show ?thesis using 3 unfolding E by simp
  qed
qed simp

subsection \<open>The operations\<close>

lemma crv_ok_idx_Nil [simp]: "idx [] = {}"
  by (simp add: idx_def)

lemma insert_at_set_ok:
  assumes cs: "crv_ok dbg cs" and ps: "crv_ok dbg ps"
  shows "\<exists>cs'. insert_at_set dbg cs ps = Some cs' \<and> crv_ok dbg cs'
    \<and> idx cs' = idx ps \<union> shift_of (idx ps) ` idx cs"
proof -
  let ?m = "merge_insert (indexes (ranges cs)) (indexes (ranges ps)) 0"
  have "sorted_wrt (<) ?m \<and> set ?m = shift_of ({} \<union> set (indexes (ranges ps))) ` set (indexes (ranges cs))
      \<union> set (indexes (ranges ps))"
    by (rule merge_insert_ok) (use cs ps in \<open>auto simp: sorted_indexes dest: crv_okD\<close>)
  then show ?thesis
    using build_sorted [of ?m, OF _ refl, of dbg cs] cs ps as_indexes_crv_ok [OF cs] as_indexes_crv_ok [OF ps]
    by (auto simp: insert_at_set_def insert_at_set_loop_eq idx_def)
qed

lemma shift_for_insert_at_set_ok:
  assumes cs: "crv_ok dbg cs" and ps: "crv_ok dbg ps"
  shows "\<exists>cs'. shift_for_insert_at_set dbg cs ps = Some cs' \<and> crv_ok dbg cs'
    \<and> idx cs' = shift_of (idx ps) ` idx cs"
proof (cases "cs \<noteq> [] \<and> ps \<noteq> [] \<and> ch_begin (hd ps) \<ge> ch_end (last cs)")
  case True
  obtain p ps' cs' c where p: "ps = p # ps'" and c: "cs = cs' @ [c]"
    using True by (cases ps; cases cs rule: rev_cases) auto
  have "chunk_wf dbg p" "chunk_wf dbg c" "rl_ok (ranges ps)" "rl_ok (ranges cs)"
    using cs ps by (auto simp: p c crv_ok_def)
  moreover obtain r d where d: "ch_data p = r # d" using calculation(1) by (cases "ch_data p") (auto simp: chunk_wf_def)
  moreover obtain l e where e: "ch_data c = e @ [l]" using calculation(2) by (cases "ch_data c" rule: rev_cases) (auto simp: chunk_wf_def)
  ultimately have le: "snd l \<le> fst r" using True by (auto simp: p c chunk_wf_def)
  have "x < y" if "x \<in> idx cs" "y \<in> idx ps" for x y
  proof -
    have "\<forall>q\<in>set (ranges cs). snd q \<le> snd l"
      using rl_ok_last [of "ranges cs' @ e" l] \<open>rl_ok (ranges cs)\<close> by (auto simp: c e)
    then have x: "x < snd l" using that(1) set_of_before unfolding idx_def by blast
    have "\<forall>q\<in>set (ranges ps). fst r \<le> fst q"
      using rl_ok_hd [of r "d @ ranges ps'"] \<open>rl_ok (ranges ps)\<close> by (auto simp: p d)
    then have "fst r \<le> y" using that(2) set_of_lower unfolding idx_def by blast
    with x le show ?thesis by linarith
  qed
  then have "shift_of ({} \<union> idx ps) x = x + card {}" if "x \<in> idx cs" for x
    using shift_of_plus [of "{}" x "idx ps"] that by auto
  then have "shift_of (idx ps) ` idx cs = idx cs" by force
  then show ?thesis using True cs by (simp add: shift_for_insert_at_set_def)
next
  case False
  let ?m = "merge_shift (indexes (ranges cs)) (indexes (ranges ps)) 0"
  have m: "?m = map (shift_of ({} \<union> set (indexes (ranges ps)))) (indexes (ranges cs))"
    by (rule merge_shift_ok) (use cs ps in \<open>auto simp: sorted_indexes dest: crv_okD\<close>)
  have "sorted_wrt (<) ?m"
    unfolding m using crv_okD [OF cs] by (simp add: sorted_wrt_map sorted_indexes)
  from build_sorted [of ?m, OF this refl, of dbg cs] m show ?thesis
    using False cs ps as_indexes_crv_ok [OF cs] as_indexes_crv_ok [OF ps]
    by (auto simp: shift_for_insert_at_set_def shift_loop_eq idx_def)
qed

lemma erase_at_set_ok:
  assumes cs: "crv_ok dbg cs" and ps: "crv_ok dbg ps"
  shows "\<exists>cs'. erase_at_set dbg cs ps = Some cs' \<and> crv_ok dbg cs'
    \<and> idx cs' = unshift_of (idx ps) ` (idx cs - idx ps)"
proof -
  let ?x = "indexes (ranges cs)" and ?y = "indexes (ranges ps)"
  let ?m = "merge_erase ?x ?y 0"
  have m: "?m = map (unshift_of ({} \<union> set ?y)) (filter (\<lambda>x. x \<notin> set ?y) ?x)"
    by (rule merge_erase_ok) (use cs ps in \<open>auto simp: sorted_indexes dest: crv_okD\<close>)
  have "sorted_wrt (<) (filter (\<lambda>x. x \<notin> set ?y) ?x)"
    using crv_okD [OF cs] by (simp add: sorted_indexes sorted_wrt_filter)
  then have "sorted_wrt (<) ?m"
    unfolding m sorted_wrt_map
    by (rule sorted_wrt_mono_rel [rotated]) (auto intro: unshift_of_less)
  moreover have "set ?m = unshift_of (idx ps) ` (idx cs - idx ps)"
    unfolding m by (auto simp: idx_def)
  ultimately show ?thesis
    using build_sorted [of ?m, OF _ refl, of dbg cs] cs ps as_indexes_crv_ok [OF cs] as_indexes_crv_ok [OF ps]
    by (auto simp: erase_at_set_def erase_loop_eq)
qed

end
