(* ===== verification/Index_Set_Shifted.thy ===== *)
theory Index_Set_Shifted
  imports Index_Set_Merge
begin

section \<open>IndexSet::add_shifted_by\<close>

text \<open>
  \<open>add_shifted_by(shifted_by, values)\<close> adds the values that are not in \<open>shifted_by\<close>, each moved
  down by the elements of \<open>shifted_by\<close> below it and then up by the elements of the set: with
  \<open>S\<close> the set, the indices added are \<open>shift_of S ` unshift_of shifted_by ` (values - shifted_by)\<close>.
\<close>

definition shifted_values :: "size_t set \<Rightarrow> size_t set \<Rightarrow> size_t set \<Rightarrow> size_t set" where
  "shifted_values S B V = shift_of S ` unshift_of B ` (V - B)"

lemma skip_shifted_ok:
  assumes "rl_ok (Q @ shifts)" "\<forall>x\<in>set Q. fst x \<le> i"
    "u = (if Q = [] then 0 else snd (last Q))"
  shows "\<exists>Q' shifts'. skip_shifted shifts i u (span Q)
      = (shifts', (if Q' = [] then 0 else snd (last Q')), span Q')
    \<and> Q @ shifts = Q' @ shifts' \<and> (\<forall>x\<in>set Q'. fst x \<le> i) \<and> (\<forall>x\<in>set shifts'. i < fst x)"
  using assms
proof (induction shifts arbitrary: Q u)
  case (Cons r shifts)
  show ?case
  proof (cases "fst r \<le> i")
    case True
    have "rl_ok ((Q @ [r]) @ shifts)" "\<forall>x\<in>set (Q @ [r]). fst x \<le> i"
      "snd r = (if Q @ [r] = [] then 0 else snd (last (Q @ [r])))" using Cons.prems True by auto
    from Cons.IH [OF this] obtain Q' shifts' where
      "skip_shifted shifts i (snd r) (span (Q @ [r])) = (shifts', (if Q' = [] then 0 else snd (last Q')), span Q')"
      "(Q @ [r]) @ shifts = Q' @ shifts'" "\<forall>x\<in>set Q'. fst x \<le> i" "\<forall>x\<in>set shifts'. i < fst x" by blast
    then show ?thesis using True by (intro exI [of _ Q'] exI [of _ shifts']) simp
  next
    case False
    have "\<forall>x\<in>set (r # shifts). i < fst x"
      using rl_ok_hd [of r shifts] Cons.prems(1) False by force
    then show ?thesis using False Cons.prems by (intro exI [of _ Q] exI [of _ "r # shifts"]) simp
  qed
qed auto

lemma skip_until_iff:
  assumes rl: "rl_ok (Q @ shifts)" and Q: "\<forall>x\<in>set Q. fst x \<le> i" and sh: "\<forall>x\<in>set shifts. i < fst x"
  shows "i < (if Q = [] then 0 else snd (last Q)) \<longleftrightarrow> i \<in> set_of (Q @ shifts)"
    and "i \<notin> set_of (Q @ shifts) \<Longrightarrow> unshift_of (set_of (Q @ shifts)) i = i - span Q \<and> span Q \<le> i"
proof -
  have B: "i \<notin> set_of shifts" using sh by (auto simp: mem_set_of)
  show iff: "i < (if Q = [] then 0 else snd (last Q)) \<longleftrightarrow> i \<in> set_of (Q @ shifts)"
  proof (cases Q rule: rev_cases)
    case Nil
    then show ?thesis using B by simp
  next
    case (snoc Q' l)
    have "i \<notin> set_of Q'"
    proof
      assume "i \<in> set_of Q'"
      then obtain q where "q \<in> set Q'" "i < snd q" by (auto simp: mem_set_of)
      then show False using rl Q by (fastforce simp: snoc)
    qed
    then show ?thesis using B Q by (auto simp: snoc)
  qed
  assume n: "i \<notin> set_of (Q @ shifts)"
  have all: "\<forall>x\<in>set Q. snd x \<le> i"
  proof (cases Q rule: rev_cases)
    case (snoc Q' l)
    then show ?thesis using rl_ok_last [of Q' l] rl n iff by fastforce
  qed simp
  have hd: "shifts = [] \<or> i \<le> fst (hd shifts)" using sh by (cases shifts) auto
  have "span Q = below i (set_of Q)" using below_all [of Q i] rl all by simp
  also have "\<dots> \<le> card {..<i}" unfolding below_def by (rule card_mono) auto
  finally show "unshift_of (set_of (Q @ shifts)) i = i - span Q \<and> span Q \<le> i"
    using unshift_of_set_of_append [OF rl all hd] by simp
qed

lemma copy_old_ok:
  assumes "rl_ok (P @ old)" "\<forall>x\<in>set P. snd x \<le> n + span P"
    and "builds dbg b T" "\<forall>t\<in>T. \<forall>x\<in>set old. t < fst x"
  shows "\<exists>b' P1 old'. copy_old dbg b old n (span P) = (b', old', span (P @ P1)) \<and> old = P1 @ old'
    \<and> (\<forall>x\<in>set (P @ P1). snd x \<le> n + span (P @ P1)) \<and> builds dbg b' (T \<union> set_of P1)
    \<and> (\<forall>x\<in>set old'. n + span (P @ P1) < fst x)"
  using assms
proof (induction old arbitrary: P b T)
  case (Cons r old)
  show ?case
  proof (cases "fst r \<le> n + span P")
    case True
    have r: "fst r < snd r" "rl_ok (r # old)" using Cons.prems(1) by auto
    let ?b = "push_all dbg [fst r..<snd r] b"
    have T: "\<forall>t\<in>T. \<forall>x\<in>set [fst r..<snd r]. t < x" using Cons.prems(4) by force
    have "builds dbg ?b (T \<union> set [fst r..<snd r])" by (rule builds_fold [OF Cons.prems(3) _ T]) simp
    then have b: "builds dbg ?b (T \<union> {fst r..<snd r})" by simp
    have 2: "\<forall>x\<in>set (P @ [r]). snd x \<le> n + span (P @ [r])" using Cons.prems(2) True r(1) by fastforce
    have 4: "\<forall>t\<in>T \<union> {fst r..<snd r}. \<forall>x\<in>set old. t < fst x" using Cons.prems(4) r(2) by fastforce
    from Cons.IH [OF _ 2 b 4] Cons.prems(1) obtain b' P1 old' where
      "copy_old dbg ?b old n (span (P @ [r])) = (b', old', span ((P @ [r]) @ P1))" "old = P1 @ old'"
      "\<forall>x\<in>set ((P @ [r]) @ P1). snd x \<le> n + span ((P @ [r]) @ P1)"
      "builds dbg b' (T \<union> {fst r..<snd r} \<union> set_of P1)"
      "\<forall>x\<in>set old'. n + span ((P @ [r]) @ P1) < fst x" by auto
    then show ?thesis using True
      by (intro exI [of _ b'] exI [of _ "r # P1"] exI [of _ old']) (simp add: add.assoc Un_assoc)
  next
    case False
    have "\<forall>x\<in>set (r # old). n + span P < fst x"
      using rl_ok_hd [of r old] Cons.prems(1) False by force
    then show ?thesis using False Cons.prems
      by (intro exI [of _ b] exI [of _ "[]"] exI [of _ "r # old"]) simp
  qed
qed auto

lemma shift_of_set_of_append:
  assumes rl: "rl_ok (P @ old)" and P: "\<forall>x\<in>set P. snd x \<le> n + span P"
    and old: "\<forall>x\<in>set old. n + span P < fst x"
  shows "shift_of (set_of (P @ old)) n = n + span P"
proof (rule shift_ofI)
  have "n + span P \<notin> set_of P" using set_of_before [OF P] by blast
  moreover have "n + span P \<notin> set_of old" using old by (auto simp: mem_set_of)
  ultimately show "n + span P \<notin> set_of (P @ old)" by simp
  have "old = [] \<or> n + span P \<le> fst (hd old)" using old by (cases old) auto
  then show "unshift_of (set_of (P @ old)) (n + span P) = n"
    using unshift_of_set_of_append [OF rl P] by simp
qed

lemma add_shifted_by_loop_ok:
  assumes "sorted_wrt (<) is" "rl_ok (Q @ shifts)" "B = set_of (Q @ shifts)"
    "\<forall>x\<in>set Q. \<forall>i\<in>set is. fst x \<le> i" "u = (if Q = [] then 0 else snd (last Q))"
    "rl_ok (P @ old)" "S = set_of (P @ old)"
    "\<forall>i\<in>set is - B. \<forall>x\<in>set P. snd x \<le> unshift_of B i + span P"
    "builds dbg b T" "\<forall>t\<in>T. \<forall>x\<in>set old. t < fst x"
    "\<forall>t\<in>T. \<forall>i\<in>set is - B. t < shift_of S (unshift_of B i)"
  shows "\<exists>b' P1 old'. add_shifted_by_loop dbg b old shifts u (span P) (span Q) is = Some (b', old')
    \<and> old = P1 @ old' \<and> builds dbg b' (T \<union> set_of P1 \<union> shifted_values S B (set is))
    \<and> (\<forall>t\<in>T \<union> set_of P1 \<union> shifted_values S B (set is). \<forall>x\<in>set old'. t < fst x)"
  using assms
proof (induction "is" arbitrary: Q shifts u P old b T)
  case Nil
  then show ?case by (simp add: shifted_values_def)
next
  case (Cons i "is")
  note P = Cons.prems
  have "\<forall>x\<in>set Q. fst x \<le> i" using P(4) by simp
  from skip_shifted_ok [OF P(2) this P(5)] obtain Q' shifts' where
    sk: "skip_shifted shifts i u (span Q) = (shifts', (if Q' = [] then 0 else snd (last Q')), span Q')"
    "Q @ shifts = Q' @ shifts'" "\<forall>x\<in>set Q'. fst x \<le> i" "\<forall>x\<in>set shifts'. i < fst x" by blast
  let ?u = "if Q' = [] then 0 else snd (last Q')"
  have rl': "rl_ok (Q' @ shifts')" and B': "B = set_of (Q' @ shifts')" using P(2,3) sk(2) by auto
  have Q': "\<forall>x\<in>set Q'. \<forall>j\<in>set is. fst x \<le> j" using sk(3) P(1) by fastforce
  have srt: "sorted_wrt (<) is" and lt: "\<forall>j\<in>set is. i < j" using P(1) by auto
  note iff = skip_until_iff [OF rl' sk(3,4), folded B']
  show ?case
  proof (cases "i < ?u")
    case True
    then have i: "i \<in> B" using iff(1) by simp
    then have V: "shifted_values S B (set (i # is)) = shifted_values S B (set is)"
      by (simp add: shifted_values_def)
    have "add_shifted_by_loop dbg b old shifts u (span P) (span Q) (i # is)
        = add_shifted_by_loop dbg b old shifts' ?u (span P) (span Q') is"
      using True sk(1) by simp
    with Cons.IH [OF srt rl' B' Q' refl P(6,7) _ P(9,10)] P(8,11) show ?thesis
      unfolding V by simp
  next
    case False
    then have i: "i \<notin> B" using iff(1) by simp
    with iff(2) have n: "unshift_of B i = i - span Q'" "span Q' \<le> i" by auto
    let ?n = "i - span Q'"
    have fin: "finite S" by (simp add: P(7))
    have "\<forall>x\<in>set P. snd x \<le> ?n + span P" using bspec [OF P(8), of i] i n(1) by simp
    from copy_old_ok [OF P(6) this P(9,10)] obtain b1 P1 old1 where
      1: "copy_old dbg b old ?n (span P) = (b1, old1, span (P @ P1))" "old = P1 @ old1"
      "\<forall>x\<in>set (P @ P1). snd x \<le> ?n + span (P @ P1)" "builds dbg b1 (T \<union> set_of P1)"
      "\<forall>x\<in>set old1. ?n + span (P @ P1) < fst x" by blast
    have rl1: "rl_ok ((P @ P1) @ old1)" and S1: "S = set_of ((P @ P1) @ old1)"
      using P(6,7) by (auto simp: 1(2))
    have v: "shift_of S (unshift_of B i) = ?n + span (P @ P1)"
      unfolding n(1) S1 by (rule shift_of_set_of_append [OF rl1 1(3,5)])
    let ?v = "?n + span (P @ P1)"
    let ?T = "insert ?v (T \<union> set_of P1)"
    have "set_of P1 \<subseteq> {..<?v}" using set_of_before [of P1 ?v] 1(3) by auto
    moreover have "\<forall>t\<in>T. t < ?v" using P(11) i unfolding v [symmetric] by simp
    ultimately have all: "\<forall>t\<in>T \<union> set_of P1. t < ?v" by blast
    from builds_push_index [OF 1(4) all]
    have b2: "builds dbg (builder_push_index dbg b1 ?v) ?T" .
    have below: "\<forall>t\<in>?T. t \<le> ?v"
      using all less_imp_le_nat by blast
    have T1: "\<forall>t\<in>?T. \<forall>x\<in>set old1. t < fst x" using below 1(5) by (meson le_less_trans)
    have later: "?v < shift_of S (unshift_of B j)" "?n \<le> unshift_of B j" if "j \<in> set is - B" for j
    proof -
      have "unshift_of B i < unshift_of B j" using that lt i by (intro unshift_of_less) auto
      then show "?v < shift_of S (unshift_of B j)" "?n \<le> unshift_of B j"
        using n(1) v shift_of_less_iff [OF fin, of "unshift_of B i" "unshift_of B j"] by auto
    qed
    have T2: "\<forall>t\<in>?T. \<forall>j\<in>set is - B. t < shift_of S (unshift_of B j)"
      using below later(1) by (meson le_less_trans)
    have P2: "\<forall>j\<in>set is - B. \<forall>x\<in>set (P @ P1). snd x \<le> unshift_of B j + span (P @ P1)"
      using 1(3) later(2) by fastforce
    from Cons.IH [OF srt rl' B' Q' refl rl1 S1 P2 b2 T1 T2] obtain b3 P3 old3 where
      3: "add_shifted_by_loop dbg (builder_push_index dbg b1 ?v) old1 shifts' ?u (span (P @ P1)) (span Q') is
          = Some (b3, old3)" "old1 = P3 @ old3"
        "builds dbg b3 (?T \<union> set_of P3 \<union> shifted_values S B (set is))"
        "\<forall>t\<in>?T \<union> set_of P3 \<union> shifted_values S B (set is). \<forall>x\<in>set old3. t < fst x" by blast
    have V: "shifted_values S B (set (i # is)) = insert ?v (shifted_values S B (set is))"
    proof -
      have "set (i # is) - B = insert i (set is - B)" using i by auto
      then show ?thesis by (simp add: shifted_values_def v)
    qed
    have U: "?T \<union> set_of P3 \<union> shifted_values S B (set is)
        = T \<union> set_of (P1 @ P3) \<union> shifted_values S B (set (i # is))"
      unfolding V by auto
    have "add_shifted_by_loop dbg b old shifts u (span P) (span Q) (i # is) = Some (b3, old3)"
      using False sk(1) 1(1) n(2) 3(1) by (simp add: realm_assert_def)
    then show ?thesis using 3(2-4) unfolding U
      by (intro exI [of _ b3] exI [of _ "P1 @ P3"] exI [of _ old3]) (simp add: 1(2))
  qed
qed

lemma fold_push_ok:
  assumes "bok dbg b R" "rl_ok R" "rl_ok old" "\<forall>x\<in>set R. \<forall>y\<in>set old. snd x \<le> fst y"
  shows "\<exists>R'. bok dbg (fold (\<lambda>r b. builder_push dbg b r) old b) R' \<and> rl_ok R'
    \<and> set_of R' = set_of R \<union> set_of old \<and> length R \<le> length R'
    \<and> (bcounts b \<and> length R' \<le> length (b_data b) * max_size dbg
        \<longrightarrow> bcounts (fold (\<lambda>r b. builder_push dbg b r) old b))"
  using assms
proof (induction old arbitrary: b R)
  case (Cons r old)
  let ?b = "builder_push dbg b r" and ?R = "app_range R r"
  have r: "fst r < snd r" "rl_ok old" "\<forall>x\<in>set R. snd x \<le> fst r" using Cons.prems by auto
  have R: "rl_ok ?R" "set_of ?R = set_of R \<union> {fst r..<snd r}"
    using app_range_ok [OF Cons.prems(2) r(1,3)] by auto
  have "\<forall>i\<in>set_of ?R. \<forall>y\<in>set old. i < fst y"
  proof (intro ballI)
    fix i y assume iy: "i \<in> set_of ?R" "y \<in> set old"
    have "\<forall>x\<in>set R. snd x \<le> fst y" using Cons.prems(4) iy(2) by simp
    then have "i \<in> set_of R \<Longrightarrow> i < fst y" using set_of_before by blast
    moreover have "snd r < fst y" using Cons.prems(3) iy(2) by simp
    ultimately show "i < fst y" using iy(1) R(2) by auto
  qed
  then have 4: "\<forall>x\<in>set ?R. \<forall>y\<in>set old. snd x \<le> fst y" using set_of_bounds [OF R(1)] by blast
  from Cons.IH [OF bok_push [OF Cons.prems(1)] R(1) r(2) 4] obtain R' where
    R': "bok dbg (fold (\<lambda>r b. builder_push dbg b r) old ?b) R'" "rl_ok R'"
    "set_of R' = set_of ?R \<union> set_of old" "length ?R \<le> length R'"
    "bcounts ?b \<and> length R' \<le> length (b_data ?b) * max_size dbg
        \<longrightarrow> bcounts (fold (\<lambda>r b. builder_push dbg b r) old ?b)" by blast
  have "length R \<le> length ?R" by (cases R rule: rev_cases) (simp_all add: app_range_def)
  moreover have "length (b_data b) * max_size dbg \<le> length (b_data ?b) * max_size dbg"
    using b_data_grows [of b dbg r] by (rule mult_le_mono1)
  moreover have "bcounts ?b" if "bcounts b" "length R' \<le> length (b_data b) * max_size dbg"
    using bcounts_push [OF Cons.prems(1) that(1) r(1) Cons.prems(2)] that(2) R'(4) by simp
  ultimately have "bcounts (fold (\<lambda>r b. builder_push dbg b r) old ?b)"
    if "bcounts b" "length R' \<le> length (b_data b) * max_size dbg"
    using that R'(5) by (meson le_trans)
  moreover have "length R \<le> length R'"
    using R'(4) \<open>length R \<le> length ?R\<close> by simp
  ultimately show ?case using R' R(2) by (intro exI [of _ R']) auto
qed auto

lemma push_all_grows: "length (b_data b) \<le> length (b_data (push_all dbg xs b))"
proof (induction xs arbitrary: b)
  case (Cons x xs)
  from Cons [of "builder_push_index dbg b x"] b_data_grows [of b dbg "(x, x + 1)"] show ?case
    by (simp add: builder_push_index_def)
qed simp

lemma copy_old_grows:
  "copy_old dbg b old n k = (b', old', k') \<Longrightarrow> length (b_data b) \<le> length (b_data b')"
proof (induction old arbitrary: b k)
  case (Cons r old)
  then show ?case using push_all_grows [of b dbg "[fst r..<snd r]"]
    by (fastforce split: if_splits)
qed simp

lemma add_shifted_by_loop_grows:
  "add_shifted_by_loop dbg b old shifts u k m is = Some (b', old') \<Longrightarrow> length (b_data b) \<le> length (b_data b')"
proof (induction "is" arbitrary: b old shifts u k m)
  case (Cons i "is")
  obtain shifts1 u1 m1 where sk: "skip_shifted shifts i u m = (shifts1, u1, m1)" by (metis prod_cases3)
  obtain b1 old1 k1 where c: "copy_old dbg b old (i - m1) k = (b1, old1, k1)" by (metis prod_cases3)
  show ?case
  proof (cases "i < u1")
    case True
    then show ?thesis using Cons sk by simp
  next
    case False
    let ?b = "builder_push_index dbg b1 (i - m1 + k1)"
    have "add_shifted_by_loop dbg ?b old1 shifts1 u1 k1 m1 is = Some (b', old')"
      using Cons.prems False sk c by (auto simp: bind_eq_Some_conv)
    from Cons.IH [OF this] copy_old_grows [OF c] show ?thesis
      using b_data_grows [of b1 dbg "(i - m1 + k1, i - m1 + k1 + 1)"]
      by (simp add: builder_push_index_def)
  qed
qed simp

lemma length_b_data_new:
  "length (b_data (builder_new dbg cs)) = length (ranges cs) div max_size dbg + 1"
  by (simp add: builder_new_def ranges_def length_concat comp_def)

lemma expected_count_ok:
  "crv_ok dbg shifted_by \<Longrightarrow> distinct vs
   \<Longrightarrow> expected_count dbg shifted_by vs = Some (card (set vs - idx shifted_by))"
proof (induction vs)
  case (Cons v vs)
  have "set (v # vs) - idx shifted_by = (if v \<in> idx shifted_by then set vs - idx shifted_by
      else insert v (set vs - idx shifted_by))" by auto
  then show ?case using Cons by (simp add: contains_ok)
qed simp

lemma card_shifted_values:
  assumes "finite S" "finite V"
  shows "card (shifted_values S B V) = card (V - B)" "S \<inter> shifted_values S B V = {}"
proof -
  have "inj_on (\<lambda>i. shift_of S (unshift_of B i)) (V - B)"
    using assms(1) by (auto intro!: inj_onI dest: unshift_of_inj)
  then show "card (shifted_values S B V) = card (V - B)"
    unfolding shifted_values_def image_image by (rule card_image)
  show "S \<inter> shifted_values S B V = {}"
    using shift_of_props [OF assms(1)] by (auto simp: shifted_values_def)
qed

lemma distinct_indexes: "rl_ok rs \<Longrightarrow> distinct (indexes rs)"
  using strict_sorted_iff sorted_indexes by blast

lemma add_shifted_by_ok:
  assumes S: "crv_ok dbg cs" and B: "crv_ok dbg sb" and V: "crv_ok dbg vs"
  shows "\<exists>cs'. add_shifted_by dbg cs sb vs = Some cs' \<and> crv_wf dbg cs' \<and> rl_ok (ranges cs')
    \<and> idx cs' = idx cs \<union> shifted_values (idx cs) (idx sb) (idx vs)
    \<and> (length (ranges cs') \<le> (length (ranges cs) div max_size dbg + 1) * max_size dbg \<longrightarrow> crv_ok dbg cs')"
proof (cases "vs = []")
  case True
  then show ?thesis using crv_okD [OF S] S by (simp add: add_shifted_by_def shifted_values_def)
next
  case False
  let ?is = "indexes (ranges vs)" and ?new = "shifted_values (idx cs) (idx sb) (idx vs)"
  have rl: "rl_ok (ranges cs)" "rl_ok (ranges sb)" "rl_ok (ranges vs)"
    using crv_okD [OF S] crv_okD [OF B] crv_okD [OF V] by auto
  have "\<exists>b P1 old. add_shifted_by_loop dbg (builder_new dbg cs) (ranges cs) (ranges sb) 0 (span []) (span []) ?is
      = Some (b, old) \<and> ranges cs = P1 @ old
    \<and> builds dbg b ({} \<union> set_of P1 \<union> shifted_values (idx cs) (idx sb) (set ?is))
    \<and> (\<forall>t\<in>{} \<union> set_of P1 \<union> shifted_values (idx cs) (idx sb) (set ?is). \<forall>x\<in>set old. t < fst x)"
    by (rule add_shifted_by_loop_ok [of _ "[]" _ _ _ "[]"])
      (use rl in \<open>auto simp: sorted_indexes builds_new idx_def\<close>)
  then obtain b P1 old where 1:
    "add_shifted_by_loop dbg (builder_new dbg cs) (ranges cs) (ranges sb) 0 0 0 ?is = Some (b, old)"
    "ranges cs = P1 @ old" "builds dbg b (set_of P1 \<union> ?new)"
    "\<forall>t\<in>set_of P1 \<union> ?new. \<forall>x\<in>set old. t < fst x" by (auto simp: idx_def)
  from 1(3) obtain R where R: "bok dbg b R" "bcounts b" "rl_ok R" "set_of R = set_of P1 \<union> ?new"
    unfolding builds_def by blast
  have "\<forall>x\<in>set R. \<forall>y\<in>set old. snd x \<le> fst y"
    using 1(4) set_of_bounds [OF R(3)] R(4) by blast
  from fold_push_ok [OF R(1,3) _ this] rl(1) obtain R' where
    R': "bok dbg (fold (\<lambda>r b. builder_push dbg b r) old b) R'" "rl_ok R'" "set_of R' = set_of R \<union> set_of old"
    "bcounts b \<and> length R' \<le> length (b_data b) * max_size dbg
        \<longrightarrow> bcounts (fold (\<lambda>r b. builder_push dbg b r) old b)" by (auto simp: 1(2))
  let ?cs = "builder_finalize (fold (\<lambda>r b. builder_push dbg b r) old b)"
  have wf: "crv_wf dbg ?cs" "ranges ?cs = R'" using finalize_wf [OF R'(1,2)] by auto
  have idx: "idx ?cs = idx cs \<union> ?new" using R(4) R'(3) by (auto simp: idx_def wf(2) 1(2))
  have fin: "finite (idx cs)" "finite (idx vs)" by (simp_all add: idx_def)
  have "length (indexes R') = card (idx ?cs)"
    using card_set_of [OF R'(2)] by (simp add: length_indexes idx_def wf(2))
  also have "\<dots> = card (idx cs) + card (idx vs - idx sb)"
    unfolding idx using card_shifted_values [OF fin] fin(1)
    by (subst card_Un_disjoint) (auto simp: shifted_values_def fin)
  also have "card (idx cs) = length (indexes (ranges cs))"
    using card_set_of [OF rl(1)] by (simp add: length_indexes idx_def)
  finally have len: "length (indexes R') = length (indexes (ranges cs)) + card (idx vs - idx sb)" .
  have rl': "rl_ok (ranges ?cs)" using R'(2) by (simp add: wf(2))
  have after: "as_indexes ?cs = Some (indexes R')" using as_indexes_ok [OF wf(1) rl'] by (simp add: wf(2))
  have res: "add_shifted_by dbg cs sb vs = Some ?cs"
    using False 1(1) as_indexes_crv_ok [OF S] as_indexes_crv_ok [OF V] len
      after expected_count_ok [OF B distinct_indexes [OF rl(3)]]
    by (cases dbg) (simp_all add: add_shifted_by_def Let_def wf(2) idx_def [of vs] realm_assert_def)
  have "length (ranges cs) div max_size dbg + 1 \<le> length (b_data b)"
    using add_shifted_by_loop_grows [OF 1(1)] by (simp add: length_b_data_new)
  then have "crv_ok dbg ?cs" if "length R' \<le> (length (ranges cs) div max_size dbg + 1) * max_size dbg"
    using that R(2) R'(4) finalize_ok [OF R'(1) _ R'(2)]
    by (meson le_trans mult_le_mono1)
  then show ?thesis using res wf R'(2) idx by auto
qed

end
