(* ===== verification/Index_Set_Ops.thy ===== *)
theory Index_Set_Ops
  imports Index_Set_Shifted
begin

section \<open>IndexSet: the interface other components use\<close>

text \<open>
  \<open>set_op f g\<close>: the operation \<open>f\<close> on index sets computes \<open>g\<close> on the sets they stand for and keeps
  them well formed. Every mutating operation of \<open>IndexSet\<close> is an interpretation; clients prove
  their lemmas about an arbitrary operation of this kind.
\<close>

locale set_op =
  fixes dbg :: bool and f :: "index_set \<Rightarrow> index_set option" and g :: "size_t set \<Rightarrow> size_t set"
  assumes op_ok: "crv_ok dbg cs \<Longrightarrow> succeeds (f cs) (\<lambda>cs'. crv_ok dbg cs' \<and> idx cs' = g (idx cs))"
begin

lemma map_ok:
  assumes "\<forall>cs\<in>set css. crv_ok dbg cs"
  shows "succeeds (map_opt f css)
    (\<lambda>css'. (\<forall>cs\<in>set css'. crv_ok dbg cs) \<and> map idx css' = map (\<lambda>cs. g (idx cs)) css)"
  using assms
proof (induction css)
  case (Cons cs css)
  then have "succeeds (f cs) (\<lambda>cs'. crv_ok dbg cs' \<and> idx cs' = g (idx cs))" by (simp add: op_ok)
  then show ?case using Cons by (auto elim!: succeeds_mono)
qed simp

end

lemma add_succ [succ]:
  "crv_ok dbg cs \<Longrightarrow> succeeds (add dbg cs i) (\<lambda>cs'. crv_ok dbg cs' \<and> idx cs' = insert i (idx cs))"
  unfolding succeeds_def by (rule add_ok)

lemma add_set_succ [succ]:
  "crv_ok dbg cs \<Longrightarrow> crv_ok dbg' other
   \<Longrightarrow> succeeds (add_set dbg cs other) (\<lambda>cs'. crv_ok dbg cs' \<and> idx cs' = idx cs \<union> idx other)"
  unfolding succeeds_def by (rule add_set_ok)

lemma add_shifted_succ [succ]:
  "crv_ok dbg cs \<Longrightarrow> succeeds (add_shifted dbg cs n) (\<lambda>(cs', i). crv_ok dbg cs'
      \<and> i = shift_of (idx cs) n \<and> idx cs' = insert (shift_of (idx cs) n) (idx cs))"
  using add_shifted_ok [of dbg cs n] unfolding succeeds_def by auto

lemma contains_succ [succ]:
  "crv_ok dbg cs \<Longrightarrow> succeeds (contains dbg cs i) (\<lambda>b. b \<longleftrightarrow> i \<in> idx cs)"
  by (simp add: contains_ok)

lemma count_succ [succ]:
  "crv_ok dbg cs \<Longrightarrow> succeeds (count dbg cs 0 e) (\<lambda>n. n = card (idx cs \<inter> {..<e}))"
  by (simp add: count_0_ok)

lemma unshift_succ [succ]:
  "crv_ok dbg cs \<Longrightarrow> (dbg \<Longrightarrow> i \<notin> idx cs) \<Longrightarrow> succeeds (unshift dbg cs i) (\<lambda>n. n = unshift_of (idx cs) i)"
  by (simp add: unshift_ok)

lemma remove_succ [succ]:
  "crv_ok dbg cs \<Longrightarrow> 0 < n
   \<Longrightarrow> succeeds (remove dbg cs i n) (\<lambda>cs'. crv_ok dbg cs' \<and> idx cs' = idx cs - {i..<i + n})"
  unfolding succeeds_def by (rule remove_ok)

lemma remove_set_succ [succ]:
  "crv_ok dbg cs \<Longrightarrow> crv_ok dbg' vs
   \<Longrightarrow> succeeds (remove_set dbg cs vs) (\<lambda>cs'. crv_ok dbg cs' \<and> idx cs' = idx cs - idx vs)"
  unfolding succeeds_def using crv_okD [of dbg' vs] by (intro remove_set_ok) auto

lemma insert_at_succ [succ]:
  "crv_ok dbg cs \<Longrightarrow> 0 < n \<Longrightarrow> succeeds (insert_at dbg cs i n)
     (\<lambda>cs'. crv_ok dbg cs' \<and> idx cs' = open_gap i n (idx cs) \<union> {i..<i + n})"
  unfolding succeeds_def by (rule insert_at_ok)

lemma shift_for_insert_at_succ [succ]:
  "crv_ok dbg cs \<Longrightarrow> 0 < n \<Longrightarrow> succeeds (shift_for_insert_at dbg cs i n)
     (\<lambda>cs'. crv_ok dbg cs' \<and> idx cs' = open_gap i n (idx cs))"
  unfolding succeeds_def by (rule shift_for_insert_at_ok)

lemma erase_at_succ [succ]:
  "crv_ok dbg cs \<Longrightarrow> succeeds (erase_at dbg cs i) (\<lambda>cs'. crv_ok dbg cs' \<and> idx cs' = close_gap i (idx cs))"
  unfolding succeeds_def by (rule erase_at_ok)

lemma erase_or_unshift_succ [succ]:
  "crv_ok dbg cs \<Longrightarrow> succeeds (erase_or_unshift dbg cs i) (\<lambda>(cs', n). crv_ok dbg cs'
     \<and> idx cs' = close_gap i (idx cs) \<and> n = (if i \<in> idx cs then npos else unshift_of (idx cs) i))"
  using erase_or_unshift_ok [of dbg cs i] unfolding succeeds_def by auto

lemma insert_at_set_succ [succ]:
  "crv_ok dbg cs \<Longrightarrow> crv_ok dbg ps \<Longrightarrow> succeeds (insert_at_set dbg cs ps)
     (\<lambda>cs'. crv_ok dbg cs' \<and> idx cs' = idx ps \<union> shift_of (idx ps) ` idx cs)"
  unfolding succeeds_def by (rule insert_at_set_ok)

lemma shift_for_insert_at_set_succ [succ]:
  "crv_ok dbg cs \<Longrightarrow> crv_ok dbg ps \<Longrightarrow> succeeds (shift_for_insert_at_set dbg cs ps)
     (\<lambda>cs'. crv_ok dbg cs' \<and> idx cs' = shift_of (idx ps) ` idx cs)"
  unfolding succeeds_def by (rule shift_for_insert_at_set_ok)

lemma erase_at_set_succ [succ]:
  "crv_ok dbg cs \<Longrightarrow> crv_ok dbg ps \<Longrightarrow> succeeds (erase_at_set dbg cs ps)
     (\<lambda>cs'. crv_ok dbg cs' \<and> idx cs' = unshift_of (idx ps) ` (idx cs - idx ps))"
  unfolding succeeds_def by (rule erase_at_set_ok)

lemma set_len_succ [succ]:
  "succeeds (set_len dbg cs len) (\<lambda>cs'. crv_ok dbg cs' \<and> idx cs' = {..<len})"
  unfolding succeeds_def by (rule set_len_ok)

subsection \<open>The operations of one set as implementations of set operations\<close>

interpretation add_op: set_op dbg "\<lambda>cs. add dbg cs i" "insert i" for dbg i
  by unfold_locales (rule succ)

interpretation shift_for_insert_op: set_op dbg "\<lambda>cs. shift_for_insert_at dbg cs i (Suc n)" "open_gap i (Suc n)" for dbg i n
  by unfold_locales (rule succ, assumption, simp)

interpretation erase_op: set_op dbg "\<lambda>cs. erase_at dbg cs i" "close_gap i" for dbg i
  by unfold_locales (rule succ)

interpretation remove_op: set_op dbg "\<lambda>cs. remove dbg cs i (Suc n)" "\<lambda>S. S - {i..<i + Suc n}" for dbg i n
  by unfold_locales (rule succ, assumption, simp)

subsection \<open>Runs of operations\<close>

datatype index_op =
    Add size_t
  | Remove size_t size_t
  | Insert_at size_t size_t
  | Shift_for_insert_at size_t size_t
  | Erase_at size_t
  | Add_shifted size_t
  | Erase_or_unshift size_t
  | Set size_t
  | Clear
  | Add_set index_set
  | Remove_set index_set
  | Insert_at_set index_set
  | Shift_for_insert_at_set index_set
  | Erase_at_set index_set

fun index_step :: "bool \<Rightarrow> index_op \<Rightarrow> index_set \<Rightarrow> index_set option" where
  "index_step dbg (Add i) cs = add dbg cs i"
| "index_step dbg (Remove i n) cs = remove dbg cs i n"
| "index_step dbg (Insert_at i n) cs = insert_at dbg cs i n"
| "index_step dbg (Shift_for_insert_at i n) cs = shift_for_insert_at dbg cs i n"
| "index_step dbg (Erase_at i) cs = erase_at dbg cs i"
| "index_step dbg (Add_shifted i) cs = map_option fst (add_shifted dbg cs i)"
| "index_step dbg (Erase_or_unshift i) cs = map_option fst (erase_or_unshift dbg cs i)"
| "index_step dbg (Set n) cs = set_len dbg cs n"
| "index_step dbg Clear cs = Some (clear cs)"
| "index_step dbg (Add_set other) cs = add_set dbg cs other"
| "index_step dbg (Remove_set other) cs = remove_set dbg cs other"
| "index_step dbg (Insert_at_set other) cs = insert_at_set dbg cs other"
| "index_step dbg (Shift_for_insert_at_set other) cs = shift_for_insert_at_set dbg cs other"
| "index_step dbg (Erase_at_set other) cs = erase_at_set dbg cs other"

fun index_spec :: "index_op \<Rightarrow> size_t set \<Rightarrow> size_t set" where
  "index_spec (Add i) S = insert i S"
| "index_spec (Remove i n) S = S - {i..<i + n}"
| "index_spec (Insert_at i n) S = open_gap i n S \<union> {i..<i + n}"
| "index_spec (Shift_for_insert_at i n) S = open_gap i n S"
| "index_spec (Erase_at i) S = close_gap i S"
| "index_spec (Add_shifted i) S = insert (shift_of S i) S"
| "index_spec (Erase_or_unshift i) S = close_gap i S"
| "index_spec (Set n) S = {..<n}"
| "index_spec Clear S = {}"
| "index_spec (Add_set other) S = S \<union> idx other"
| "index_spec (Remove_set other) S = S - idx other"
| "index_spec (Insert_at_set other) S = idx other \<union> shift_of (idx other) ` S"
| "index_spec (Shift_for_insert_at_set other) S = shift_of (idx other) ` S"
| "index_spec (Erase_at_set other) S = unshift_of (idx other) ` (S - idx other)"

fun index_pre :: "bool \<Rightarrow> index_op \<Rightarrow> bool" where
  "index_pre dbg (Remove i n) \<longleftrightarrow> 0 < n"
| "index_pre dbg (Insert_at i n) \<longleftrightarrow> 0 < n"
| "index_pre dbg (Shift_for_insert_at i n) \<longleftrightarrow> 0 < n"
| "index_pre dbg (Add_set other) \<longleftrightarrow> crv_ok dbg other"
| "index_pre dbg (Remove_set other) \<longleftrightarrow> crv_ok dbg other"
| "index_pre dbg (Insert_at_set other) \<longleftrightarrow> crv_ok dbg other"
| "index_pre dbg (Shift_for_insert_at_set other) \<longleftrightarrow> crv_ok dbg other"
| "index_pre dbg (Erase_at_set other) \<longleftrightarrow> crv_ok dbg other"
| "index_pre dbg _ \<longleftrightarrow> True"

lemma succeeds_map_option [simp]: "succeeds (map_option h m) P \<longleftrightarrow> succeeds m (\<lambda>x. P (h x))"
  by (cases m) simp_all

lemma index_step_pairs:
  assumes "crv_ok dbg cs"
  shows "succeeds (index_step dbg (Add_shifted i) cs)
      (\<lambda>cs'. crv_ok dbg cs' \<and> idx cs' = insert (shift_of (idx cs) i) (idx cs))"
    and "succeeds (index_step dbg (Erase_or_unshift i) cs)
      (\<lambda>cs'. crv_ok dbg cs' \<and> idx cs' = close_gap i (idx cs))"
   apply simp
   apply (rule succeeds_mono [OF add_shifted_succ [OF assms]])
   apply clarsimp
  apply simp
  apply (rule succeeds_mono [OF erase_or_unshift_succ [OF assms]])
  apply clarsimp
  done

lemma index_step_ok:
  assumes "crv_ok dbg cs" "index_pre dbg op"
  shows "succeeds (index_step dbg op cs) (\<lambda>cs'. crv_ok dbg cs' \<and> idx cs' = index_spec op (idx cs))"
proof (cases op)
  case (Add_shifted i)
  show ?thesis using index_step_pairs(1) [OF assms(1)] by (simp only: Add_shifted index_spec.simps)
next
  case (Erase_or_unshift i)
  show ?thesis using index_step_pairs(2) [OF assms(1)] by (simp only: Erase_or_unshift index_spec.simps)
next
  case Clear
  then show ?thesis by (simp add: clear_def crv_ok_Nil)
qed (use assms in \<open>simp_all add: succ\<close>)

interpretation index_sim: simulation "\<lambda>cs S. crv_ok dbg cs \<and> idx cs = S" "index_step dbg"
  "\<lambda>op S. index_pre dbg op" index_spec for dbg
  by unfold_locales (use index_step_ok in auto)

end
