(* ===== verification/Index_Set_Properties.thy ===== *)
theory Index_Set_Properties
  imports Index_Set_Ops
begin

section \<open>IndexSet: its properties\<close>

text \<open>
  What the users of \<open>IndexSet\<close> rely on, over the model of \<open>index_set.cpp\<close>. \<open>crv_ok dbg cs\<close> is the
  representation invariant (chunks non-empty and within their size, cached begin, end and count
  right, ranges sorted, non-empty and not adjacent), \<open>idx cs\<close> the set of indices, and \<open>dbg\<close> tells
  a debug build from a release build.
\<close>

text \<open>C1: Any sequence of mutating operations, run on a well-formed \<open>IndexSet\<close>, ends without a failed
  assertion (debug builds check \<open>verify()\<close> in every step), leaves a well-formed set, and computes the
  composition of the set-theoretic meanings of the operations.\<close>

theorem index_set_runs:
  assumes "crv_ok dbg cs" "\<forall>op\<in>set ops. index_pre dbg op"
  shows "\<exists>cs'. fold_opt (index_step dbg) ops cs = Some cs' \<and> crv_ok dbg cs'
    \<and> verify dbg cs' = Some () \<and> idx cs' = fold index_spec ops (idx cs)"
proof -
  have en: "index_sim.enabled dbg ops S" for S
    using assms(2) by (induction ops arbitrary: S) auto
  from index_sim.run_ok [OF _ en, of cs "idx cs"] assms(1) show ?thesis
    by (auto simp: succeeds_def verify_ok)
qed

theorem index_set_runs_witness:
  "\<exists>cs'. fold_opt (index_step True) [Add 3, Insert_at 1 4, Erase_at 2, Remove 7 2] [] = Some cs'
    \<and> crv_ok True cs' \<and> verify True cs' = Some ()
    \<and> idx cs' = fold index_spec [Add 3, Insert_at 1 4, Erase_at 2, Remove 7 2] (idx [])"
  by (rule index_set_runs) (simp_all add: crv_ok_Nil)

text \<open>A well-formed \<open>IndexSet\<close> is determined by its indices: two of them with the same indices
  hold the same ranges, and \<open>contains\<close> answers membership.\<close>

theorem index_set_contains:
  assumes "crv_ok dbg cs"
  shows "contains dbg cs i = Some (i \<in> idx cs)
    \<and> (\<forall>dbg' cs'. crv_ok dbg' cs' \<and> idx cs' = idx cs \<longrightarrow> ranges cs' = ranges cs)"
  using contains_ok [OF assms] rl_ok_unique crv_okD [OF assms] crv_okD
  by (auto simp: idx_def)

theorem index_set_contains_witness:
  "contains True (the (index_set_of_list True [] [5, 1, 2])) 2
     = Some (2 \<in> idx (the (index_set_of_list True [] [5, 1, 2])))"
  by (rule index_set_contains [THEN conjunct1]) code_simp

text \<open>\<open>shift\<close> and \<open>unshift\<close> are inverse: unshifting a shifted index gives it back, and shifting
  the unshifted value of an index that is not in the set gives it back.\<close>

theorem shift_unshift_roundtrip:
  assumes "crv_ok dbg cs"
  shows "unshift dbg cs (shift cs n) = Some n
    \<and> (\<forall>i. i \<notin> idx cs \<longrightarrow> map_option (shift cs) (unshift dbg cs i) = Some i)"
proof -
  note p = shift_of_props [OF idx_finite [of cs], of n]
  have "unshift dbg cs (shift cs n) = Some n"
    using unshift_ok [OF assms, of "shift cs n"] p by (simp add: shift_ok [OF assms])
  moreover have "map_option (shift cs) (unshift dbg cs i) = Some i" if "i \<notin> idx cs" for i
    using that unshift_ok [OF assms, of i] by (simp add: shift_ok [OF assms] shift_of_unshift_of)
  ultimately show ?thesis by blast
qed

theorem shift_unshift_roundtrip_witness:
  "unshift True (the (index_set_of_list True [] [5, 1, 2]))
     (shift (the (index_set_of_list True [] [5, 1, 2])) 1) = Some 1"
  by (rule shift_unshift_roundtrip [THEN conjunct1]) code_simp

text \<open>\<open>erase_or_unshift\<close> returns \<open>npos\<close> for an index in the set and otherwise the position it had
  before the insertions the set records; \<open>add_shifted\<close> returns the position it added, which was not
  in the set before and is at or after the index given.\<close>

theorem erase_or_unshift_add_shifted:
  assumes "crv_ok dbg cs"
  shows "map_option snd (erase_or_unshift dbg cs i)
      = (if i \<in> idx cs then Some npos else unshift dbg cs i)
    \<and> map_option snd (add_shifted dbg cs n) = Some (shift cs n)
    \<and> shift cs n \<notin> idx cs \<and> n \<le> shift cs n"
  using erase_or_unshift_ok [OF assms, of i] unshift_ok [OF assms, of i] add_shifted_ok [OF assms, of n]
    shift_of_props [OF idx_finite [of cs], of n] shift_of_ge [OF idx_finite [of cs], of n]
  by (auto simp: shift_ok [OF assms])

theorem erase_or_unshift_add_shifted_witness:
  "map_option snd (erase_or_unshift True (the (index_set_of_list True [] [5, 1, 2])) 6)
     = (if 6 \<in> idx (the (index_set_of_list True [] [5, 1, 2])) then Some npos
        else unshift True (the (index_set_of_list True [] [5, 1, 2])) 6)"
  by (rule erase_or_unshift_add_shifted [THEN conjunct1]) code_simp



text \<open>In the case the previous property leaves out, \<open>count\<close> is wrong: the set \<open>{0, 2, 4, 6, 8}\<close>,
  built with \<open>add\<close> in a debug build (four ranges in a chunk), has four indices between 2 and 9, and
  \<open>count(2, 9)\<close> returns 3. The loop that finishes the first chunk leaves the iterator at the first
  range of the next chunk, and the early return does not add the part of it below \<open>end_index\<close>.\<close>

theorem count_loses_range:
  "\<exists>cs. index_set_of_list True [] [0, 2, 4, 6, 8] = Some cs \<and> crv_ok True cs
     \<and> count True cs 2 9 = Some 3 \<and> card (idx cs \<inter> {2..<9}) = 4"
proof (intro exI conjI)
  let ?cs = "the (index_set_of_list True [] [0, 2, 4, 6, 8])"
  show "index_set_of_list True [] [0, 2, 4, 6, 8] = Some ?cs" by code_simp
  show "crv_ok True ?cs" by code_simp
  show "count True ?cs 2 9 = Some 3" by code_simp
  show "card (idx ?cs \<inter> {2..<9}) = 4" by code_simp
qed

text \<open>C3: \<open>insert_at\<close> with a set of positions and \<open>erase_at\<close> with the same positions are inverse: the
  second undoes the first, and both keep the set well formed. In between, every index of the set is
  shifted past the positions inserted below it, and the positions themselves are in the set.\<close>

theorem insert_at_erase_at_roundtrip:
  assumes "crv_ok dbg cs" "crv_ok dbg positions"
  shows "\<exists>cs1 cs2. insert_at_set dbg cs positions = Some cs1 \<and> crv_ok dbg cs1
    \<and> idx cs1 = idx positions \<union> shift positions ` idx cs
    \<and> erase_at_set dbg cs1 positions = Some cs2 \<and> crv_ok dbg cs2 \<and> ranges cs2 = ranges cs"
proof -
  let ?T = "idx positions"
  from insert_at_set_ok [OF assms] obtain cs1 where
    1: "insert_at_set dbg cs positions = Some cs1" "crv_ok dbg cs1" "idx cs1 = ?T \<union> shift_of ?T ` idx cs" by blast
  from erase_at_set_ok [OF 1(2) assms(2)] obtain cs2 where
    2: "erase_at_set dbg cs1 positions = Some cs2" "crv_ok dbg cs2"
      "idx cs2 = unshift_of ?T ` (idx cs1 - ?T)" by blast
  note p = shift_of_props [OF idx_finite [of positions]]
  have "idx cs1 - ?T = shift_of ?T ` idx cs" unfolding 1(3) using p by auto
  then have "idx cs2 = idx cs" using p by (simp add: 2(3) image_image)
  then have "ranges cs2 = ranges cs"
    using rl_ok_unique crv_okD [OF 2(2)] crv_okD [OF assms(1)] by (auto simp: idx_def)
  with 1 2 show ?thesis by (simp add: shift_ok [OF assms(2)] image_def)
qed

theorem insert_at_erase_at_roundtrip_witness:
  "\<exists>cs1 cs2. insert_at_set True (the (index_set_of_list True [] [1, 4])) (the (index_set_of_list True [] [0, 3])) = Some cs1
    \<and> crv_ok True cs1
    \<and> idx cs1 = idx (the (index_set_of_list True [] [0, 3]))
        \<union> shift (the (index_set_of_list True [] [0, 3])) ` idx (the (index_set_of_list True [] [1, 4]))
    \<and> erase_at_set True cs1 (the (index_set_of_list True [] [0, 3])) = Some cs2 \<and> crv_ok True cs2
    \<and> ranges cs2 = ranges (the (index_set_of_list True [] [1, 4]))"
  by (rule insert_at_erase_at_roundtrip) code_simp+

text \<open>C4: \<open>add_shifted_by(shifted_by, values)\<close> never fails its assertions and adds, for every value
  that is not in \<open>shifted_by\<close>, that value unshifted by \<open>shifted_by\<close> and shifted by the set. The
  result is fully well formed as long as its ranges fit the chunks the builder allocates for the
  old number of ranges.\<close>

theorem add_shifted_by_correct:
  assumes "crv_ok dbg cs" "crv_ok dbg shifted_by" "crv_ok dbg values"
  shows "\<exists>cs'. add_shifted_by dbg cs shifted_by values = Some cs'
    \<and> idx cs' = idx cs \<union> {shift cs (unshift_of (idx shifted_by) v) | v. v \<in> idx values \<and> v \<notin> idx shifted_by}
    \<and> (length (ranges cs') \<le> (length (ranges cs) div max_size dbg + 1) * max_size dbg \<longrightarrow> crv_ok dbg cs')"
proof -
  have eq: "shifted_values (idx cs) (idx shifted_by) (idx values)
      = {shift cs (unshift_of (idx shifted_by) v) | v. v \<in> idx values \<and> v \<notin> idx shifted_by}"
    by (auto simp: shifted_values_def shift_ok [OF assms(1)])
  show ?thesis using add_shifted_by_ok [OF assms] unfolding eq by blast
qed

theorem add_shifted_by_correct_witness:
  "\<exists>cs'. add_shifted_by True (the (index_set_of_list True [] [1, 4])) (the (index_set_of_list True [] [0, 3]))
      (the (index_set_of_list True [] [2, 3])) = Some cs'
    \<and> idx cs' = idx (the (index_set_of_list True [] [1, 4]))
       \<union> {shift (the (index_set_of_list True [] [1, 4]))
            (unshift_of (idx (the (index_set_of_list True [] [0, 3]))) v) | v.
          v \<in> idx (the (index_set_of_list True [] [2, 3])) \<and> v \<notin> idx (the (index_set_of_list True [] [0, 3]))}
    \<and> (length (ranges cs') \<le> (length (ranges (the (index_set_of_list True [] [1, 4]))) div max_size True + 1) * max_size True
        \<longrightarrow> crv_ok True cs')"
  by (rule add_shifted_by_correct) code_simp+

text \<open>Beyond that bound the result is not well formed: the builder opens a new chunk with the
  count 1 whatever the length of the range it starts with. With a debug build, adding \<open>{0, 5}\<close> to
  \<open>{10, 20, 30..34}\<close> gives nine indices, of which the cached counts, and so \<open>count\<close>, see five.\<close>

theorem add_shifted_by_wrong_count:
  "\<exists>cs values cs'. index_set_of_list True [] [10, 20, 30, 31, 32, 33, 34] = Some cs
     \<and> index_set_of_list True [] [0, 5] = Some values \<and> crv_ok True cs \<and> crv_ok True values
     \<and> add_shifted_by True cs [] values = Some cs' \<and> card (idx cs') = 9
     \<and> count True cs' 0 100 = Some 5 \<and> \<not> counts_ok cs'"
proof (intro exI conjI)
  let ?cs = "the (index_set_of_list True [] [10, 20, 30, 31, 32, 33, 34])"
  let ?v = "the (index_set_of_list True [] [0, 5])"
  let ?r = "the (add_shifted_by True ?cs [] ?v)"
  show "index_set_of_list True [] [10, 20, 30, 31, 32, 33, 34] = Some ?cs" by code_simp
  show "index_set_of_list True [] [0, 5] = Some ?v" by code_simp
  show "crv_ok True ?cs" "crv_ok True ?v" by code_simp+
  show "add_shifted_by True ?cs [] ?v = Some ?r" by code_simp
  show "card (idx ?r) = 9" "count True ?r 0 100 = Some 5" "\<not> counts_ok ?r" by code_simp+
qed

end
