(* ===== verification/Change_Sets.thy ===== *)
theory Change_Sets
  imports Index_Set_Ops
begin

section \<open>What a change set means\<close>

text \<open>
  A collection is a list of rows; a row is a pair of its identity and its contents. A change set
  from \<open>xs\<close> to \<open>ys\<close> has the deleted positions \<open>D\<close> of \<open>xs\<close>, the inserted positions \<open>I\<close> of \<open>ys\<close>, and moves
  \<open>mv\<close>, pairs of a deleted and an inserted position that hold the same row. The positions outside
  \<open>D\<close> and \<open>I\<close> correspond in their order (\<open>corr\<close>). \<open>tracks\<close> says that the change set is right,
  \<open>same\<close> that everything it does not report as modified is unchanged. Both compose, which is what
  every operation of \<open>CollectionChangeBuilder\<close> rests on: the new change set is the composition of the
  old one and the change of a single operation.
\<close>

definition corr :: "size_t set \<Rightarrow> size_t set \<Rightarrow> size_t \<Rightarrow> size_t \<Rightarrow> bool" where
  "corr D I i j \<longleftrightarrow> i \<notin> D \<and> j \<notin> I \<and> unshift_of D i = unshift_of I j"

lemma corr_mono: "corr D I i j \<Longrightarrow> corr D I i' j' \<Longrightarrow> i < i' \<longleftrightarrow> j < j'"
  unfolding corr_def using unshift_of_less_iff by metis

lemma corr_inj: "corr D I i j \<Longrightarrow> corr D I i' j' \<Longrightarrow> i = i' \<longleftrightarrow> j = j'"
  using corr_mono [of D I i j i' j'] corr_mono [of D I i' j' i j] by (metis linorder_neqE_nat less_irrefl)

lemma corr_shift: "finite I \<Longrightarrow> i \<notin> D \<Longrightarrow> corr D I i j \<longleftrightarrow> j = shift_of I (unshift_of D i)"
  unfolding corr_def by (metis shift_ofI shift_of_props)

lemma corr_sym: "corr D I i j \<longleftrightarrow> corr I D j i"
  by (auto simp: corr_def)

lemma corr_total: "finite I \<Longrightarrow> i \<notin> D \<Longrightarrow> \<exists>j. corr D I i j"
  by (simp add: corr_shift)

lemma corr_empty [simp]: "corr {} {} i j \<longleftrightarrow> i = j"
  by (simp add: corr_def)

text \<open>Any order-preserving correspondence of the positions outside \<open>D\<close> and \<open>I\<close> is \<open>corr\<close>.\<close>

lemma corrI:
  assumes dom: "\<And>i. i \<notin> D \<Longrightarrow> \<exists>k. R i k" and ran: "\<And>k. k \<notin> I \<Longrightarrow> \<exists>i. R i k"
    and out: "\<And>i k. R i k \<Longrightarrow> i \<notin> D \<and> k \<notin> I"
    and mono: "\<And>i k i' k'. R i k \<Longrightarrow> R i' k' \<Longrightarrow> i < i' \<longleftrightarrow> k < k'"
  shows "R i k \<longleftrightarrow> corr D I i k"
proof -
  have inj: "i = i' \<longleftrightarrow> k = k'" if "R i k" "R i' k'" for i k i' k'
    using mono [OF that] mono [OF that(2,1)] by (metis linorder_neqE_nat less_irrefl)
  have R: "corr D I i k" if "R i k" for i k
  proof -
    define f where "f = (\<lambda>a. THE b. R a b)"
    have f: "f a = b" if "R a b" for a b
      unfolding f_def using that inj by (intro the_equality) blast+
    have "bij_betw f ({..<i} - D) ({..<k} - I)"
    proof (rule bij_betw_imageI)
      show "inj_on f ({..<i} - D)" by (rule inj_onI) (metis DiffD2 dom f inj)
      show "f ` ({..<i} - D) = {..<k} - I"
      proof (intro subset_antisym subsetI)
        fix y assume "y \<in> f ` ({..<i} - D)"
        then obtain x where "x < i" "x \<notin> D" "y = f x" by auto
        then have "R x y" using dom f by metis
        then show "y \<in> {..<k} - I" using mono [OF _ that] out \<open>x < i\<close> by auto
      next
        fix y assume "y \<in> {..<k} - I"
        then obtain x where "R x y" using ran by blast
        then show "y \<in> f ` ({..<i} - D)" using mono [OF _ that] out f \<open>y \<in> {..<k} - I\<close> by force
      qed
    qed
    then have "card ({..<i} - D) = card ({..<k} - I)" by (rule bij_betw_same_card)
    then show ?thesis using out [OF that] by (simp add: corr_def unshift_of_card)
  qed
  show ?thesis
  proof
    assume c: "corr D I i k"
    then obtain k' where k': "R i k'" using dom by (auto simp: corr_def)
    then show "R i k" using corr_inj [OF c R [OF k']] by simp
  qed (rule R)
qed

subsection \<open>Composition of deletions and insertions\<close>

definition comp_del :: "size_t set \<Rightarrow> size_t set \<Rightarrow> size_t set \<Rightarrow> size_t set" where
  "comp_del D1 I1 D2 = D1 \<union> shifted_values D1 I1 D2"

definition comp_ins :: "size_t set \<Rightarrow> size_t set \<Rightarrow> size_t set \<Rightarrow> size_t set" where
  "comp_ins I1 D2 I2 = I2 \<union> shift_of I2 ` unshift_of D2 ` (I1 - D2)"

lemma comp_del_iff:
  assumes "finite D1" and c: "corr D1 I1 i j"
  shows "i \<in> comp_del D1 I1 D2 \<longleftrightarrow> j \<in> D2"
proof
  have i: "i \<notin> D1" "j \<notin> I1" "shift_of D1 (unshift_of I1 j) = i"
    using c shift_ofI unfolding corr_def by metis+
  show "i \<in> comp_del D1 I1 D2" if "j \<in> D2"
    using that i by (auto simp: comp_del_def shifted_values_def)
  assume "i \<in> comp_del D1 I1 D2"
  then obtain v where v: "v \<in> D2" "v \<notin> I1" "i = shift_of D1 (unshift_of I1 v)"
    using i(1) by (auto simp: comp_del_def shifted_values_def)
  then have "unshift_of I1 v = unshift_of I1 j" using i(3) shift_of_eq_iff [OF assms(1)] by simp
  then show "j \<in> D2" using unshift_of_inj [OF v(2) i(2)] v(1) by simp
qed

lemma comp_ins_iff:
  assumes "finite I2" and c: "corr D2 I2 j k"
  shows "k \<in> comp_ins I1 D2 I2 \<longleftrightarrow> j \<in> I1"
proof
  have k: "j \<notin> D2" "k \<notin> I2" "shift_of I2 (unshift_of D2 j) = k"
    using c shift_ofI unfolding corr_def by metis+
  show "k \<in> comp_ins I1 D2 I2" if "j \<in> I1"
    using that k by (auto simp: comp_ins_def)
  assume "k \<in> comp_ins I1 D2 I2"
  then obtain v where v: "v \<in> I1" "v \<notin> D2" "k = shift_of I2 (unshift_of D2 v)"
    using k(2) by (auto simp: comp_ins_def)
  then have "unshift_of D2 v = unshift_of D2 j" using k(3) shift_of_eq_iff [OF assms(1)] by simp
  then show "j \<in> I1" using unshift_of_inj [OF v(2) k(1)] v(1) by simp
qed

lemma corr_comp:
  assumes fin: "finite D1" "finite I1" "finite D2" "finite I2"
  shows "(\<exists>j. corr D1 I1 i j \<and> corr D2 I2 j k) \<longleftrightarrow> corr (comp_del D1 I1 D2) (comp_ins I1 D2 I2) i k"
proof (rule corrI)
  fix i assume i: "i \<notin> comp_del D1 I1 D2"
  then obtain j where j: "corr D1 I1 i j" using corr_total [OF fin(2)] by (auto simp: comp_del_def)
  then have "j \<notin> D2" using comp_del_iff [OF fin(1) j] i by simp
  then show "\<exists>k j. corr D1 I1 i j \<and> corr D2 I2 j k" using corr_total [OF fin(4)] j by blast
next
  fix k assume k: "k \<notin> comp_ins I1 D2 I2"
  then obtain j where j: "corr D2 I2 j k"
    using corr_total [OF fin(3), of k I2] by (auto simp: comp_ins_def corr_sym)
  then have "j \<notin> I1" using comp_ins_iff [OF fin(4) j] k by simp
  then show "\<exists>i j. corr D1 I1 i j \<and> corr D2 I2 j k"
    using corr_total [OF fin(1), of j I1] j by (auto simp: corr_sym)
next
  fix i k assume "\<exists>j. corr D1 I1 i j \<and> corr D2 I2 j k"
  then obtain j where j: "corr D1 I1 i j" "corr D2 I2 j k" by blast
  then have "j \<notin> D2" "j \<notin> I1" by (auto simp: corr_def)
  then show "i \<notin> comp_del D1 I1 D2 \<and> k \<notin> comp_ins I1 D2 I2"
    using comp_del_iff [OF fin(1) j(1)] comp_ins_iff [OF fin(4) j(2)] by simp
next
  fix i k i' k'
  assume "\<exists>j. corr D1 I1 i j \<and> corr D2 I2 j k" "\<exists>j. corr D1 I1 i' j \<and> corr D2 I2 j k'"
  then show "i < i' \<longleftrightarrow> k < k'" using corr_mono by metis
qed

subsection \<open>Change sets that are right\<close>

definition pairs :: "size_t set \<Rightarrow> size_t set \<Rightarrow> (size_t \<times> size_t) set \<Rightarrow> nat \<Rightarrow> nat \<Rightarrow> (size_t \<times> size_t) set" where
  "pairs D I mv m n = {(i, j). i < m \<and> j < n \<and> (corr D I i j \<or> (i, j) \<in> mv)}"

definition same :: "('r \<Rightarrow> 'v) \<Rightarrow> size_t set \<Rightarrow> (size_t \<times> size_t) set \<Rightarrow> 'r list \<Rightarrow> 'r list \<Rightarrow> bool" where
  "same p M P xs ys \<longleftrightarrow> (\<forall>(i, j)\<in>P. j \<notin> M \<longrightarrow> p (xs ! i) = p (ys ! j))"

definition fits :: "size_t set \<Rightarrow> size_t set \<Rightarrow> (size_t \<times> size_t) set \<Rightarrow> nat \<Rightarrow> nat \<Rightarrow> bool" where
  "fits D I mv m n \<longleftrightarrow> D \<subseteq> {..<m} \<and> I \<subseteq> {..<n} \<and> corr D I m n \<and> mv \<subseteq> D \<times> I"

definition tracks ::
  "size_t set \<Rightarrow> size_t set \<Rightarrow> (size_t \<times> size_t) set \<Rightarrow> ('k \<times> 'v) list \<Rightarrow> ('k \<times> 'v) list \<Rightarrow> bool" where
  "tracks D I mv xs ys \<longleftrightarrow> fits D I mv (length xs) (length ys)
     \<and> same fst {} (pairs D I mv (length xs) (length ys)) xs ys"

lemma fits_finite: "fits D I mv m n \<Longrightarrow> finite D \<and> finite I"
  by (auto simp: fits_def intro: finite_subset)

lemma fits_corr_less: "fits D I mv m n \<Longrightarrow> corr D I i j \<Longrightarrow> i < m \<longleftrightarrow> j < n"
  unfolding fits_def using corr_mono by blast

lemma fits_comp:
  assumes 1: "fits D1 I1 mv1 m n" and 2: "fits D2 I2 mv2 n p"
    and mv: "mv \<subseteq> comp_del D1 I1 D2 \<times> comp_ins I1 D2 I2"
  shows "fits (comp_del D1 I1 D2) (comp_ins I1 D2 I2) mv m p"
proof -
  note fin = fits_finite [OF 1] fits_finite [OF 2]
  have "i < m" if "i \<in> comp_del D1 I1 D2" for i
  proof (cases "i \<in> D1")
    case False
    then obtain j where j: "corr D1 I1 i j" using corr_total fin(1) by blast
    then have "j \<in> D2" using comp_del_iff that fin(1) by blast
    then show ?thesis using fits_corr_less [OF 1 j] 2 by (auto simp: fits_def)
  qed (use 1 in \<open>auto simp: fits_def\<close>)
  moreover have "k < p" if "k \<in> comp_ins I1 D2 I2" for k
  proof (cases "k \<in> I2")
    case False
    then obtain j where j: "corr D2 I2 j k" using corr_total corr_sym fin(2) by metis
    then have "j \<in> I1" using comp_ins_iff that fin(2) by blast
    then show ?thesis using fits_corr_less [OF 2 j] 1 by (auto simp: fits_def)
  qed (use 2 in \<open>auto simp: fits_def\<close>)
  moreover have "corr (comp_del D1 I1 D2) (comp_ins I1 D2 I2) m p"
    using corr_comp [of D1 I1 D2 I2 m p] fin 1 2 by (auto simp: fits_def)
  ultimately show ?thesis using mv by (auto simp: fits_def)
qed

text \<open>A correspondence of the composition goes through a position in between.\<close>

lemma pairs_comp:
  assumes 1: "fits D1 I1 mv1 m n" and 2: "fits D2 I2 mv2 n p"
    and mv: "mv \<subseteq> pairs D1 I1 mv1 m n O pairs D2 I2 mv2 n p"
  shows "pairs (comp_del D1 I1 D2) (comp_ins I1 D2 I2) mv m p
    \<subseteq> pairs D1 I1 mv1 m n O pairs D2 I2 mv2 n p"
proof
  fix q assume q: "q \<in> pairs (comp_del D1 I1 D2) (comp_ins I1 D2 I2) mv m p"
  obtain i k where ik: "q = (i, k)" by (cases q)
  note fin = fits_finite [OF 1] fits_finite [OF 2]
  show "q \<in> pairs D1 I1 mv1 m n O pairs D2 I2 mv2 n p"
  proof (cases "q \<in> mv")
    case False
    then have c: "corr (comp_del D1 I1 D2) (comp_ins I1 D2 I2) i k" "i < m" "k < p"
      using q by (auto simp: pairs_def ik)
    then obtain j where j: "corr D1 I1 i j" "corr D2 I2 j k" using corr_comp fin by metis
    then have "j < n" using fits_corr_less [OF 1 j(1)] c(2) by simp
    then show ?thesis using j c by (auto simp: pairs_def ik)
  qed (use mv in blast)
qed

lemma same_comp:
  assumes "same q M1 P1 xs ys" "same q M2 P2 ys zs" "P \<subseteq> P1 O P2"
    and "\<And>i j k. (i, j) \<in> P1 \<Longrightarrow> (j, k) \<in> P2 \<Longrightarrow> k \<notin> M \<Longrightarrow> j \<notin> M1 \<and> k \<notin> M2"
  shows "same q M P xs zs"
  unfolding same_def
proof (clarify)
  fix i k assume ik: "(i, k) \<in> P" "k \<notin> M"
  then obtain j where j: "(i, j) \<in> P1" "(j, k) \<in> P2" using assms(3) by blast
  then have "j \<notin> M1" "k \<notin> M2" using assms(4) ik(2) by blast+
  then show "q (xs ! i) = q (zs ! k)" using assms(1,2) j by (fastforce simp: same_def)
qed

lemma tracks_comp:
  assumes 1: "tracks D1 I1 mv1 xs ys" and 2: "tracks D2 I2 mv2 ys zs"
    and mv: "mv \<subseteq> comp_del D1 I1 D2 \<times> comp_ins I1 D2 I2"
      "mv \<subseteq> pairs D1 I1 mv1 (length xs) (length ys) O pairs D2 I2 mv2 (length ys) (length zs)"
  shows "tracks (comp_del D1 I1 D2) (comp_ins I1 D2 I2) mv xs zs"
proof -
  have f: "fits D1 I1 mv1 (length xs) (length ys)" "fits D2 I2 mv2 (length ys) (length zs)"
    using 1 2 by (auto simp: tracks_def)
  have "same fst {} (pairs (comp_del D1 I1 D2) (comp_ins I1 D2 I2) mv (length xs) (length zs)) xs zs"
    using 1 2 by (intro same_comp [OF _ _ pairs_comp [OF f mv(2)]]) (auto simp: tracks_def)
  with fits_comp [OF f mv(1)] show ?thesis by (simp add: tracks_def)
qed

text \<open>A right change set, applied to the old list, gives the new one outside the insertions.\<close>

lemma tracks_without:
  assumes t: "tracks D I mv xs ys"
  shows "without D (map fst xs) = without I (map fst ys)"
proof (rule nth_equalityI)
  have f: "fits D I mv (length xs) (length ys)" and fin: "finite D" "finite I"
    using t fits_finite by (auto simp: tracks_def)
  show len: "length (without D (map fst xs)) = length (without I (map fst ys))"
    using f by (simp add: length_without fits_def corr_def)
  fix n assume n: "n < length (without D (map fst xs))"
  let ?i = "shift_of D n" and ?j = "shift_of I n"
  have c: "corr D I ?i ?j" using shift_of_props fin by (simp add: corr_def)
  have "n < unshift_of D (length xs)" using n by (simp add: length_without)
  then have i: "?i < length xs"
    using unshift_of_mono [of "length xs" ?i D] shift_of_props(2) [OF fin(1), of n] by linarith
  then have j: "?j < length ys" using fits_corr_less [OF f c] by simp
  have "fst (xs ! ?i) = fst (ys ! ?j)"
    using t c i j by (auto simp: tracks_def same_def pairs_def)
  then show "without D (map fst xs) ! n = without I (map fst ys) ! n"
    using without_nth_shift [OF fin(1), of n "map fst xs"] without_nth_shift [OF fin(2), of n "map fst ys"] i j
    by simp
qed

lemma tracks_id: "tracks {} {} {} xs xs"
  by (auto simp: tracks_def fits_def same_def pairs_def)

subsection \<open>The change of a single operation\<close>

definition ins_list :: "nat \<Rightarrow> 'a list \<Rightarrow> 'a list \<Rightarrow> 'a list" where
  "ins_list i new ys = take i ys @ new @ drop i ys"

definition del_list :: "nat \<Rightarrow> 'a list \<Rightarrow> 'a list" where
  "del_list i ys = take i ys @ drop (Suc i) ys"

definition move_list :: "nat \<Rightarrow> nat \<Rightarrow> 'a list \<Rightarrow> 'a list" where
  "move_list f t ys = ins_list t [ys ! f] (del_list f ys)"

definition move_over_list :: "nat \<Rightarrow> 'a list \<Rightarrow> 'a list" where
  "move_over_list r ys = butlast (ys[r := last ys])"

definition swap_list :: "nat \<Rightarrow> nat \<Rightarrow> 'a list \<Rightarrow> 'a list" where
  "swap_list a b ys = ys[a := ys ! b, b := ys ! a]"

lemma length_ins_list [simp]: "i \<le> length ys \<Longrightarrow> length (ins_list i new ys) = length ys + length new"
  by (simp add: ins_list_def)

lemma length_del_list [simp]: "i < length ys \<Longrightarrow> length (del_list i ys) = length ys - 1"
  by (simp add: del_list_def)

lemma nth_ins_list:
  assumes "i \<le> length ys" "k < length ys + length new"
  shows "ins_list i new ys ! k = (if k < i then ys ! k else if k < i + length new then new ! (k - i)
    else ys ! (k - length new))"
  using assms by (simp add: ins_list_def nth_append min_def) (auto simp: add.commute)

lemma nth_del_list:
  assumes "i < length ys"
  shows "del_list i ys ! k = (if k < i then ys ! k else ys ! Suc k)"
  using assms by (simp add: del_list_def nth_append min_def)

lemma corr_ins: "corr {} {i..<i + n} j k \<longleftrightarrow> (j < i \<and> k = j) \<or> (i \<le> j \<and> k = j + n)"
proof (rule corrI [where R = "\<lambda>j k. (j < i \<and> k = j) \<or> (i \<le> j \<and> k = j + n)", symmetric])
  fix k assume "k \<notin> {i..<i + n}"
  then show "\<exists>j. (j < i \<and> k = j) \<or> (i \<le> j \<and> k = j + n)"
    by (cases "k < i") (auto intro: exI [of _ "k - n"])
next
  fix j show "\<exists>k. (j < i \<and> k = j) \<or> (i \<le> j \<and> k = j + n)" by (cases "j < i") auto
qed auto

lemma corr_del: "corr {i} {} j k \<longleftrightarrow> (j < i \<and> k = j) \<or> (i < j \<and> k = j - 1)"
proof (rule corrI [where R = "\<lambda>j k. (j < i \<and> k = j) \<or> (i < j \<and> k = j - 1)", symmetric])
  fix k show "\<exists>j. (j < i \<and> k = j) \<or> (i < j \<and> k = j - 1)"
    by (cases "k < i") (auto intro: exI [of _ "Suc k"])
next
  fix j assume "j \<notin> {i}"
  then show "\<exists>k. (j < i \<and> k = j) \<or> (i < j \<and> k = j - 1)" by (cases "j < i") auto
qed auto

lemma corr_all_del: "corr {..<n} {} j k \<longleftrightarrow> j = k + n"
proof (rule corrI [where R = "\<lambda>j k. j = k + n", symmetric])
  fix j assume "j \<notin> {..<n}"
  then show "\<exists>k. j = k + n" by (auto intro: exI [of _ "j - n"])
qed auto

lemma corr_move_over:
  assumes "r < l"
  shows "corr {r, l} {r} j k \<longleftrightarrow> (j < l \<and> j \<noteq> r \<and> k = j) \<or> (l < j \<and> k = j - 1)"
proof (rule corrI [where R = "\<lambda>j k. (j < l \<and> j \<noteq> r \<and> k = j) \<or> (l < j \<and> k = j - 1)", symmetric])
  fix k assume "k \<notin> {r}"
  then show "\<exists>j. (j < l \<and> j \<noteq> r \<and> k = j) \<or> (l < j \<and> k = j - 1)"
    using assms by (cases "k < l") (auto intro: exI [of _ "Suc k"])
next
  fix j assume "j \<notin> {r, l}"
  then show "\<exists>k. (j < l \<and> j \<noteq> r \<and> k = j) \<or> (l < j \<and> k = j - 1)" by (cases "j < l") auto
qed (use assms in auto)

lemma corr_swap: "corr S S j k \<longleftrightarrow> j \<notin> S \<and> k = j"
  by (rule corrI [where R = "\<lambda>j k. j \<notin> S \<and> k = j", symmetric]) auto

text \<open>Each operation's own change set is right, and nothing else has changed.\<close>

abbreviation unchanged ::
  "size_t set \<Rightarrow> size_t set \<Rightarrow> (size_t \<times> size_t) set \<Rightarrow> 'r list \<Rightarrow> 'r list \<Rightarrow> bool" where
  "unchanged D I mv ys zs \<equiv> fits D I mv (length ys) (length zs)
     \<and> same id {} (pairs D I mv (length ys) (length zs)) ys zs"

lemma same_weaken: "same id {} P xs ys \<Longrightarrow> same q M P xs ys"
  by (fastforce simp: same_def)

lemma unchanged_tracks: "unchanged D I mv ys zs \<Longrightarrow> tracks D I mv ys zs"
  by (auto simp: tracks_def intro: same_weaken)

lemma unchanged_ins:
  "i \<le> length ys \<Longrightarrow> unchanged {} {i..<i + length new} {} ys (ins_list i new ys)"
  by (auto simp: fits_def corr_ins same_def pairs_def nth_ins_list)

lemma unchanged_del: "i < length ys \<Longrightarrow> unchanged {i} {} {} ys (del_list i ys)"
  by (auto simp: fits_def corr_del same_def pairs_def nth_del_list)

lemma unchanged_clear: "unchanged {..<length ys} {} {} ys []"
  by (auto simp: fits_def corr_all_del same_def pairs_def)

lemma unchanged_move_over:
  "r < length ys - 1 \<Longrightarrow> unchanged {r, length ys - 1} {r} {(length ys - 1, r)} ys (move_over_list r ys)"
  by (auto simp: fits_def corr_move_over same_def pairs_def move_over_list_def nth_butlast
      nth_list_update last_conv_nth split: if_splits) (metis One_nat_def last_conv_nth length_greater_0_conv less_nat_zero_code list.size(3))

lemma move_over_last: "ys \<noteq> [] \<Longrightarrow> move_over_list (length ys - 1) ys = del_list (length ys - 1) ys"
  by (cases ys rule: rev_cases) (auto simp: move_over_list_def del_list_def butlast_append)

lemma unchanged_swap:
  "a < length ys \<Longrightarrow> b < length ys \<Longrightarrow> a \<noteq> b
   \<Longrightarrow> unchanged {a, b} {a, b} {(a, b), (b, a)} ys (swap_list a b ys)"
  by (auto simp: fits_def corr_swap same_def pairs_def swap_list_def nth_list_update)

text \<open>How the single changes act on the sets of a change set.\<close>

lemma comp_del_empty [simp]: "comp_del D I {} = D"
  by (simp add: comp_del_def shifted_values_def)

lemma comp_ins_empty [simp]: "comp_ins I {} {} = I"
  by (simp add: comp_ins_def)

lemma comp_ins_set:
  assumes "finite D2" "finite I2"
  shows "comp_ins I D2 I2 = I2 \<union> {k. \<exists>j\<in>I. corr D2 I2 j k}"
proof -
  have "k \<in> comp_ins I D2 I2 \<longleftrightarrow> (\<exists>j\<in>I. corr D2 I2 j k)" if k: "k \<notin> I2" for k
  proof -
    obtain j where "corr D2 I2 j k" using corr_total [of D2 k I2] assms(1) k by (auto simp: corr_sym)
    then show ?thesis using comp_ins_iff [OF assms(2), of D2 j k I] corr_inj by blast
  qed
  then show ?thesis by (auto simp: comp_ins_def)
qed

lemma comp_ins_ins: "comp_ins I {} {i..<i + n} = open_gap i n I \<union> {i..<i + n}"
proof -
  have "(\<exists>j\<in>I. (j < i \<and> k = j) \<or> (i \<le> j \<and> k = j + n)) \<longleftrightarrow> k \<in> open_gap i n I" for k
    by (cases "k < i") (auto simp: open_gap_def intro: bexI [of _ "k - n"])
  then show ?thesis
    unfolding comp_ins_set [OF finite.emptyI finite_atLeastLessThan] corr_ins by auto
qed

lemma comp_ins_del: "comp_ins I {i} {} = close_gap i I"
proof -
  have "(\<exists>j\<in>I. (j < i \<and> k = j) \<or> (i < j \<and> k = j - 1)) \<longleftrightarrow> k \<in> close_gap i I" for k
    by (cases "k < i") (auto simp: close_gap_def intro: bexI [of _ "Suc k"])
  then show ?thesis
    unfolding comp_ins_set [OF finite.insertI [OF finite.emptyI] finite.emptyI] corr_del by auto
qed

lemma comp_del_del:
  "comp_del D I {i} = (if i \<in> I then D else insert (shift_of D (unshift_of I i)) D)"
  by (auto simp: comp_del_def shifted_values_def)

lemma comp_ins_all: "comp_ins I {..<n} {} = {j. j + n \<in> I}"
  unfolding comp_ins_set [OF finite_lessThan finite.emptyI] corr_all_del by auto

end
