(* ===== verification/Change_Builder.thy ===== *)
theory Change_Builder
  imports Change_Sets "HOL-Library.AList"
begin

section \<open>CollectionChangeBuilder: state and operations\<close>

text \<open>
  The model of \<open>impl/collection_change_builder.cpp\<close> without \<open>calculate\<close>: the change set being built,
  the operations that record one change of the collection, \<open>merge\<close>, \<open>parse_complete\<close> and \<open>finalize\<close>.
  \<open>std::unordered_map\<close> (\<open>m_move_mapping\<close>, new position to old position) is an association list with
  distinct keys, in whatever order the map iterates.
\<close>

record mv =
  mv_from :: size_t
  mv_to :: size_t

record change_set =
  deletions :: index_set
  insertions :: index_set
  modifications :: index_set
  modifications_new :: index_set
  moves :: "mv list"
  columns :: "index_set list"

record change_builder = change_set +
  move_mapping :: "(size_t \<times> size_t) list"
  track_columns :: bool

definition cs_empty :: "change_builder \<Rightarrow> bool" where
  "cs_empty c \<longleftrightarrow> deletions c = [] \<and> insertions c = [] \<and> modifications c = []
     \<and> modifications_new c = [] \<and> moves c = []"

definition cb_nil :: change_builder where
  "cb_nil = \<lparr>deletions = [], insertions = [], modifications = [], modifications_new = [], moves = [],
             columns = [], move_mapping = [], track_columns = True\<rparr>"

fun add_moves :: "bool \<Rightarrow> mv list \<Rightarrow> change_builder \<Rightarrow> change_builder option" where
  "add_moves dbg [] c = Some c"
| "add_moves dbg (m # ms) c = do {
     del \<leftarrow> add dbg (deletions c) (mv_from m);
     ins \<leftarrow> add dbg (insertions c) (mv_to m);
     add_moves dbg ms (c\<lparr>deletions := del, insertions := ins\<rparr>)
   }"

definition cb_new :: "bool \<Rightarrow> index_set \<Rightarrow> index_set \<Rightarrow> index_set \<Rightarrow> mv list \<Rightarrow> change_builder option" where
  "cb_new dbg del ins modif mvs = add_moves dbg mvs
     (cb_nil\<lparr>deletions := del, insertions := ins, modifications := modif, moves := mvs\<rparr>)"

fun verify_moves :: "bool \<Rightarrow> mv list \<Rightarrow> change_builder \<Rightarrow> unit option" where
  "verify_moves dbg [] c = Some ()"
| "verify_moves dbg (m # ms) c = do {
     d \<leftarrow> contains dbg (deletions c) (mv_from m);
     realm_assert d;
     i \<leftarrow> contains dbg (insertions c) (mv_to m);
     realm_assert i;
     verify_moves dbg ms c
   }"

definition cb_verify :: "bool \<Rightarrow> change_builder \<Rightarrow> unit option" where
  "cb_verify dbg c = (if dbg then verify_moves dbg (moves c) c else Some ())"

definition for_each_col :: "(index_set \<Rightarrow> index_set option) \<Rightarrow> change_builder \<Rightarrow> change_builder option" where
  "for_each_col f c = do {
     modif \<leftarrow> f (modifications c);
     cols \<leftarrow> (if track_columns c then map_opt f (columns c) else Some (columns c));
     Some (c\<lparr>modifications := modif, columns := cols\<rparr>)
   }"

subsection \<open>Operations for all collections\<close>

definition cb_modify :: "bool \<Rightarrow> change_builder \<Rightarrow> size_t \<Rightarrow> size_t \<Rightarrow> change_builder option" where
  "cb_modify dbg c ndx col = do {
     modif \<leftarrow> add dbg (modifications c) ndx;
     let c = c\<lparr>modifications := modif\<rparr>;
     (if \<not> track_columns c \<or> col = npos then Some c
      else do {
        let cols = (if col \<ge> length (columns c) then columns c @ replicate (col + 1 - length (columns c)) []
                    else columns c);
        col' \<leftarrow> add dbg (cols ! col) ndx;
        Some (c\<lparr>columns := cols[col := col']\<rparr>)
      })
   }"

definition cb_insert :: "bool \<Rightarrow> change_builder \<Rightarrow> size_t \<Rightarrow> size_t \<Rightarrow> bool \<Rightarrow> change_builder option" where
  "cb_insert dbg c index n track_moves = do {
     realm_assert (n \<noteq> 0);
     c \<leftarrow> for_each_col (\<lambda>col. shift_for_insert_at dbg col index n) c;
     (if \<not> track_moves then Some c
      else do {
        ins \<leftarrow> insert_at dbg (insertions c) index n;
        let mvs = map (\<lambda>m. if mv_to m \<ge> index then m\<lparr>mv_to := mv_to m + n\<rparr> else m) (moves c);
        let c = c\<lparr>insertions := ins, moves := mvs\<rparr>;
        (if move_mapping c = [] then Some c
         else
           let shifted = map (\<lambda>(k, v). (k + n, v)) (filter (\<lambda>(k, v). k \<ge> index) (move_mapping c));
               kept = filter (\<lambda>(k, v). \<not> k \<ge> index) (move_mapping c);
               mapping = fold (\<lambda>(k, v) m. if map_of m k = None then AList.update k v m else m) shifted kept
           in Some (c\<lparr>move_mapping := mapping\<rparr>))
      })
   }"

text \<open>The loop over the moves at the end of \<open>erase\<close>.\<close>

fun erase_moves :: "size_t \<Rightarrow> mv list \<Rightarrow> mv list" where
  "erase_moves index [] = []"
| "erase_moves index (m # ms) =
     (if mv_to m = index then erase_moves index ms
      else if mv_to m > index then m\<lparr>mv_to := mv_to m - 1\<rparr> # erase_moves index ms
      else m # erase_moves index ms)"

definition cb_erase :: "bool \<Rightarrow> change_builder \<Rightarrow> size_t \<Rightarrow> change_builder option" where
  "cb_erase dbg c index = do {
     c \<leftarrow> for_each_col (\<lambda>col. erase_at dbg col index) c;
     (ins, unshifted) \<leftarrow> erase_or_unshift dbg (insertions c) index;
     del \<leftarrow> (if unshifted \<noteq> npos then do { (d, _) \<leftarrow> add_shifted dbg (deletions c) unshifted; Some d }
            else Some (deletions c));
     Some (c\<lparr>insertions := ins, deletions := del, moves := erase_moves index (moves c)\<rparr>)
   }"

definition cb_clear :: "bool \<Rightarrow> change_builder \<Rightarrow> size_t \<Rightarrow> change_builder option" where
  "cb_clear dbg c old_size = do {
     let old_size = (if old_size \<noteq> npos
       then old_size + span (ranges (deletions c)) - span (ranges (insertions c)) else old_size);
     del \<leftarrow> set_len dbg (deletions c) old_size;
     Some (c\<lparr>modifications := clear (modifications c), insertions := clear (insertions c), moves := [],
             move_mapping := [], columns := [], deletions := del\<rparr>)
   }"

subsection \<open>Operations for lists of links\<close>

fun move_loop :: "bool \<Rightarrow> size_t \<Rightarrow> size_t \<Rightarrow> index_set \<Rightarrow> bool \<Rightarrow> mv list
    \<Rightarrow> (index_set \<times> bool \<times> mv list) option" where
  "move_loop dbg from0 to0 ins updated [] = Some (ins, updated, [])"
| "move_loop dbg from0 to0 ins updated (m # ms) =
     (if mv_to m \<noteq> from0 then do {
        let m' = (if mv_to m \<ge> to0 \<and> mv_to m < from0 then m\<lparr>mv_to := mv_to m + 1\<rparr>
                  else if mv_to m \<le> to0 \<and> mv_to m > from0 then m\<lparr>mv_to := mv_to m - 1\<rparr>
                  else m);
        (ins', updated', ms') \<leftarrow> move_loop dbg from0 to0 ins updated ms;
        Some (ins', updated', m' # ms')
      }
      else do {
        realm_assert (\<not> updated);
        ins1 \<leftarrow> erase_at dbg ins from0;
        ins2 \<leftarrow> insert_at dbg ins1 to0 1;
        (ins', updated', ms') \<leftarrow> move_loop dbg from0 to0 ins2 True ms;
        Some (ins', updated', m\<lparr>mv_to := to0\<rparr> # ms')
      })"

definition move_col :: "bool \<Rightarrow> size_t \<Rightarrow> size_t \<Rightarrow> index_set \<Rightarrow> index_set option" where
  "move_col dbg from0 to0 col = do {
     modified \<leftarrow> contains dbg col from0;
     col \<leftarrow> erase_at dbg col from0;
     (if modified then insert_at dbg col to0 1 else shift_for_insert_at dbg col to0 1)
   }"

definition cb_move :: "bool \<Rightarrow> change_builder \<Rightarrow> size_t \<Rightarrow> size_t \<Rightarrow> change_builder option" where
  "cb_move dbg c from0 to0 = do {
     realm_assert (from0 \<noteq> to0);
     (ins, updated, mvs) \<leftarrow> move_loop dbg from0 to0 (insertions c) False (moves c);
     let c = c\<lparr>insertions := ins, moves := mvs\<rparr>;
     c \<leftarrow> (if updated then Some c
           else do {
             (ins, shifted_from) \<leftarrow> erase_or_unshift dbg (insertions c) from0;
             ins \<leftarrow> insert_at dbg ins to0 1;
             let c = c\<lparr>insertions := ins\<rparr>;
             (if shifted_from \<noteq> npos then do {
                (del, shifted_from) \<leftarrow> add_shifted dbg (deletions c) shifted_from;
                Some (c\<lparr>deletions := del, moves := moves c @ [\<lparr>mv_from = shifted_from, mv_to = to0\<rparr>]\<rparr>)
              }
              else Some c)
           });
     for_each_col (move_col dbg from0 to0) c
   }"

text \<open>Moves that have become no-ops.\<close>

fun stale_moves :: "bool \<Rightarrow> index_set \<Rightarrow> index_set \<Rightarrow> mv list \<Rightarrow> (index_set \<times> index_set \<times> mv list) option" where
  "stale_moves dbg del ins [] = Some (del, ins, [])"
| "stale_moves dbg del ins (m # ms) = do {
     d \<leftarrow> count dbg del 0 (mv_from m);
     i \<leftarrow> count dbg ins 0 (mv_to m);
     (if mv_from m - d \<noteq> mv_to m - i then do {
        (del', ins', ms') \<leftarrow> stale_moves dbg del ins ms;
        Some (del', ins', m # ms')
      }
      else do {
        del1 \<leftarrow> remove dbg del (mv_from m) 1;
        ins1 \<leftarrow> remove dbg ins (mv_to m) 1;
        stale_moves dbg del1 ins1 ms
      })
   }"

definition clean_up_stale_moves :: "bool \<Rightarrow> change_builder \<Rightarrow> change_builder option" where
  "clean_up_stale_moves dbg c = do {
     (del, ins, mvs) \<leftarrow> stale_moves dbg (deletions c) (insertions c) (moves c);
     Some (c\<lparr>deletions := del, insertions := ins, moves := mvs\<rparr>)
   }"

subsection \<open>Operations for tables\<close>

definition last_end :: "index_set \<Rightarrow> size_t" where
  "last_end cs = snd (it_range cs (prev_it cs (end_it cs)))"

definition move_over_col :: "bool \<Rightarrow> size_t \<Rightarrow> size_t \<Rightarrow> index_set \<Rightarrow> index_set option" where
  "move_over_col dbg row_ndx last_row col = do {
     modified \<leftarrow> contains dbg col last_row;
     (if modified then do { col \<leftarrow> remove dbg col last_row 1; add dbg col row_ndx }
      else remove dbg col row_ndx 1)
   }"

definition cb_move_over :: "bool \<Rightarrow> change_builder \<Rightarrow> size_t \<Rightarrow> size_t \<Rightarrow> bool \<Rightarrow> change_builder option" where
  "cb_move_over dbg c row_ndx last_row track_moves = do {
     realm_assert (row_ndx \<le> last_row);
     realm_assert (insertions c = [] \<or> last_end (insertions c) - 1 \<le> last_row);
     realm_assert (modifications c = [] \<or> last_end (modifications c) - 1 \<le> last_row);
     (if row_ndx = last_row then do {
        c \<leftarrow> (if track_moves then do {
                (ins, shifted_from) \<leftarrow> erase_or_unshift dbg (insertions c) row_ndx;
                del \<leftarrow> (if shifted_from \<noteq> npos
                       then do { (d, _) \<leftarrow> add_shifted dbg (deletions c) shifted_from; Some d }
                       else Some (deletions c));
                Some (c\<lparr>insertions := ins, deletions := del,
                        move_mapping := AList.delete row_ndx (move_mapping c)\<rparr>)
              }
              else Some c);
        for_each_col (\<lambda>col. remove dbg col row_ndx 1) c
      }
      else do {
        c \<leftarrow> for_each_col (move_over_col dbg row_ndx last_row) c;
        (if \<not> track_moves then Some c
         else do {
           row_is_insertion \<leftarrow> contains dbg (insertions c) row_ndx;
           let last_is_insertion = (insertions c \<noteq> [] \<and> last_end (insertions c) = last_row + 1);
           realm_assert_debug dbg (insertions c = [] \<or> last_end (insertions c) \<le> last_row + 1);
           let (mapping, last_was_already_moved) =
             (if last_is_insertion then
                (case map_of (move_mapping c) last_row of
                   Some old \<Rightarrow> (AList.delete last_row (AList.update row_ndx old (move_mapping c)), True)
                 | None \<Rightarrow> (move_mapping c, False))
              else (move_mapping c, False));
           let mapping = (if row_is_insertion \<and> \<not> last_was_already_moved
                          then AList.delete row_ndx mapping else mapping);
           (ins, del, mapping) \<leftarrow>
             (if last_is_insertion then do {
                ins \<leftarrow> remove dbg (insertions c) last_row 1;
                Some (ins, deletions c, mapping)
              }
              else if \<not> last_was_already_moved then do {
                shifted \<leftarrow> unshift dbg (insertions c) last_row;
                (del, shifted) \<leftarrow> add_shifted dbg (deletions c) shifted;
                Some (insertions c, del, AList.update row_ndx shifted mapping)
              }
              else Some (insertions c, deletions c, mapping));
           (ins, del) \<leftarrow>
             (if \<not> row_is_insertion then do {
                shifted \<leftarrow> unshift dbg ins row_ndx;
                (del, _) \<leftarrow> add_shifted dbg del shifted;
                ins \<leftarrow> add dbg ins row_ndx;
                Some (ins, del)
              }
              else Some (ins, del));
           let c = c\<lparr>insertions := ins, deletions := del, move_mapping := mapping\<rparr>;
           cb_verify dbg c;
           Some c
         })
      })
   }"

definition swap_col :: "bool \<Rightarrow> size_t \<Rightarrow> size_t \<Rightarrow> index_set \<Rightarrow> index_set option" where
  "swap_col dbg ndx_1 ndx_2 col = do {
     row_1_modified \<leftarrow> contains dbg col ndx_1;
     row_2_modified \<leftarrow> contains dbg col ndx_2;
     (if row_1_modified \<noteq> row_2_modified then
        (if row_1_modified then do { col \<leftarrow> remove dbg col ndx_1 1; add dbg col ndx_2 }
         else do { col \<leftarrow> remove dbg col ndx_2 1; add dbg col ndx_1 })
      else Some col)
   }"

text \<open>\<open>record_move c src dst\<close>: a move from the row now at \<open>src\<close> to \<open>dst\<close>, unless \<open>src\<close> is an insertion.\<close>

definition record_move :: "bool \<Rightarrow> change_builder \<Rightarrow> size_t \<Rightarrow> size_t \<Rightarrow> change_builder option" where
  "record_move dbg c src dst = do {
     is_ins \<leftarrow> contains dbg (insertions c) src;
     (if \<not> is_ins then do {
        shifted \<leftarrow> unshift dbg (insertions c) src;
        (del, shifted) \<leftarrow> add_shifted dbg (deletions c) shifted;
        ins \<leftarrow> add dbg (insertions c) src;
        Some (c\<lparr>deletions := del, insertions := ins,
                move_mapping := AList.update dst shifted (move_mapping c)\<rparr>)
      }
      else Some c)
   }"

text \<open>The lambda \<open>update_move\<close>: the move to \<open>ndx_2\<close> now goes to \<open>ndx_1\<close>.\<close>

definition update_move :: "bool \<Rightarrow> change_builder \<Rightarrow> size_t \<Rightarrow> size_t \<Rightarrow> size_t \<Rightarrow> change_builder option" where
  "update_move dbg c original ndx_1 ndx_2 = do {
     let c = c\<lparr>move_mapping := AList.update ndx_1 original (AList.delete ndx_2 (move_mapping c))\<rparr>;
     c \<leftarrow> record_move dbg c ndx_1 ndx_2;
     b \<leftarrow> contains dbg (insertions c) ndx_2;
     realm_assert_debug dbg b;
     Some c
   }"

definition cb_swap :: "bool \<Rightarrow> change_builder \<Rightarrow> size_t \<Rightarrow> size_t \<Rightarrow> bool \<Rightarrow> change_builder option" where
  "cb_swap dbg c ndx_1 ndx_2 track_moves = do {
     realm_assert (ndx_1 \<noteq> ndx_2);
     let (ndx_1, ndx_2) = (if ndx_1 > ndx_2 then (ndx_2, ndx_1) else (ndx_1, ndx_2));
     c \<leftarrow> for_each_col (swap_col dbg ndx_1 ndx_2) c;
     (if \<not> track_moves then Some c
      else
        (case (map_of (move_mapping c) ndx_1, map_of (move_mapping c) ndx_2) of
           (Some old_1, Some old_2) \<Rightarrow>
             Some (c\<lparr>move_mapping := AList.update ndx_1 old_2 (AList.update ndx_2 old_1 (move_mapping c))\<rparr>)
         | (Some old_1, None) \<Rightarrow> update_move dbg c old_1 ndx_2 ndx_1
         | (None, Some old_2) \<Rightarrow> update_move dbg c old_2 ndx_1 ndx_2
         | (None, None) \<Rightarrow> do {
             c \<leftarrow> record_move dbg c ndx_2 ndx_1;
             record_move dbg c ndx_1 ndx_2
           }))
   }"

definition cb_subsume :: "bool \<Rightarrow> change_builder \<Rightarrow> size_t \<Rightarrow> size_t \<Rightarrow> bool \<Rightarrow> change_builder option" where
  "cb_subsume dbg c old_ndx new_ndx track_moves = do {
     realm_assert (old_ndx \<noteq> new_ndx);
     c \<leftarrow> for_each_col (\<lambda>col. do {
            b \<leftarrow> contains dbg col old_ndx;
            (if b then add dbg col new_ndx else Some col) }) c;
     (if \<not> track_moves then Some c
      else do {
        b \<leftarrow> contains dbg (insertions c) new_ndx;
        realm_assert_debug dbg b;
        realm_assert_debug dbg (map_of (move_mapping c) new_ndx = None);
        old_is_ins \<leftarrow> contains dbg (insertions c) old_ndx;
        c \<leftarrow> (case map_of (move_mapping c) old_ndx of
                Some old \<Rightarrow> Some (c\<lparr>move_mapping := AList.delete old_ndx
                                   (AList.update new_ndx old (move_mapping c))\<rparr>)
              | None \<Rightarrow>
                  (if \<not> old_is_ins then do {
                     n \<leftarrow> unshift dbg (insertions c) old_ndx;
                     Some (c\<lparr>move_mapping := AList.update new_ndx (shift (deletions c) n) (move_mapping c)\<rparr>)
                   }
                   else Some c));
        cb_verify dbg c;
        Some c
      })
   }"

fun parse_moves :: "bool \<Rightarrow> (size_t \<times> size_t) list \<Rightarrow> change_builder \<Rightarrow> change_builder option" where
  "parse_moves dbg [] c = Some c"
| "parse_moves dbg ((new_ndx, old_ndx) # ms) c = do {
     d \<leftarrow> (if dbg then contains dbg (deletions c) old_ndx else Some True);
     realm_assert_debug dbg d;
     i \<leftarrow> (if dbg then contains dbg (insertions c) new_ndx else Some True);
     realm_assert_debug dbg i;
     (if new_ndx = old_ndx then do {
        del \<leftarrow> remove dbg (deletions c) old_ndx 1;
        ins \<leftarrow> remove dbg (insertions c) new_ndx 1;
        parse_moves dbg ms (c\<lparr>deletions := del, insertions := ins\<rparr>)
      }
      else parse_moves dbg ms (c\<lparr>moves := moves c @ [\<lparr>mv_from = old_ndx, mv_to = new_ndx\<rparr>]\<rparr>))
   }"

definition parse_complete :: "bool \<Rightarrow> change_builder \<Rightarrow> change_builder option" where
  "parse_complete dbg c = do {
     c \<leftarrow> parse_moves dbg (move_mapping c) c;
     Some (c\<lparr>move_mapping := [], moves := sort_key mv_from (moves c)\<rparr>)
   }"

subsection \<open>Columns\<close>

definition insert_column :: "change_builder \<Rightarrow> size_t \<Rightarrow> change_builder" where
  "insert_column c ndx =
     (if ndx < length (columns c)
      then c\<lparr>columns := take ndx (columns c) @ [] # drop ndx (columns c)\<rparr> else c)"

definition move_column :: "change_builder \<Rightarrow> size_t \<Rightarrow> size_t \<Rightarrow> change_builder" where
  "move_column c from0 to0 =
     (if from0 \<ge> length (columns c) \<and> to0 \<ge> length (columns c) then c
      else
        let cols = (if from0 \<ge> length (columns c) \<or> to0 \<ge> length (columns c)
                    then columns c @ replicate (max from0 to0 + 1 - length (columns c)) []
                    else columns c)
        in c\<lparr>columns :=
             (if from0 < to0
              then take from0 cols @ take (to0 - from0) (drop (from0 + 1) cols) @ [cols ! from0]
                   @ drop (to0 + 1) cols
              else take to0 cols @ [cols ! from0] @ take (from0 - to0) (drop to0 cols)
                   @ drop (from0 + 1) cols)\<rparr>)"

end
