(* ===== verification/Change_Builder_Ops.thy ===== *)
theory Change_Builder_Ops
  imports Change_Builder
begin

section \<open>CollectionChangeBuilder: the operations are right\<close>

text \<open>
  \<open>describes dbg c xs ys\<close>: the builder \<open>c\<close> is well formed, and its deletions, insertions, moves and
  modifications are a right change set from the collection \<open>xs\<close> to the collection \<open>ys\<close>. Every
  operation keeps this, with \<open>ys\<close> changed as the operation says.
\<close>

type_synonym ('k, 'v) row = "'k \<times> 'v"

definition move_pairs :: "change_builder \<Rightarrow> (size_t \<times> size_t) set" where
  "move_pairs c = (\<lambda>m. (mv_from m, mv_to m)) ` set (moves c) \<union> (\<lambda>(k, v). (v, k)) ` set (move_mapping c)"

definition cb_ok :: "bool \<Rightarrow> change_builder \<Rightarrow> bool" where
  "cb_ok dbg c \<longleftrightarrow> crv_ok dbg (deletions c) \<and> crv_ok dbg (insertions c) \<and> crv_ok dbg (modifications c)
     \<and> (\<forall>col\<in>set (columns c). crv_ok dbg col \<and> idx col \<subseteq> idx (modifications c))
     \<and> (track_columns c \<or> columns c = [])"

definition moves_ok :: "change_builder \<Rightarrow> bool" where
  "moves_ok c \<longleftrightarrow> distinct (map mv_to (moves c)) \<and> distinct (map mv_from (moves c))
     \<and> distinct (map fst (move_mapping c)) \<and> distinct (map snd (move_mapping c))"

abbreviation cb_pairs :: "change_builder \<Rightarrow> nat \<Rightarrow> nat \<Rightarrow> (size_t \<times> size_t) set" where
  "cb_pairs c m n \<equiv> pairs (idx (deletions c)) (idx (insertions c)) (move_pairs c) m n"

definition describes :: "bool \<Rightarrow> change_builder \<Rightarrow> ('k, 'v) row list \<Rightarrow> ('k, 'v) row list \<Rightarrow> bool" where
  "describes dbg c xs ys \<longleftrightarrow> cb_ok dbg c \<and> moves_ok c \<and> idx (modifications c) \<subseteq> {..<length ys}
     \<and> tracks (idx (deletions c)) (idx (insertions c)) (move_pairs c) xs ys
     \<and> same snd (idx (modifications c)) (cb_pairs c (length xs) (length ys)) xs ys"

text \<open>Two states of the builder that differ in the modifications only.\<close>

abbreviation same_moves :: "change_builder \<Rightarrow> change_builder \<Rightarrow> bool" where
  "same_moves c c' \<equiv> deletions c' = deletions c \<and> insertions c' = insertions c \<and> moves c' = moves c
     \<and> move_mapping c' = move_mapping c \<and> track_columns c' = track_columns c"

lemma describes_nil: "describes dbg cb_nil xs xs"
proof -
  have "same snd {} (pairs {} {} {} (length xs) (length xs)) xs xs"
    by (auto simp: same_def pairs_def)
  then show ?thesis
    by (simp add: describes_def cb_ok_def moves_ok_def cb_nil_def crv_ok_Nil tracks_id move_pairs_def)
qed

lemma describes_step:
  assumes d: "describes dbg c xs ys" and u: "tracks D2 I2 mv2 ys zs"
    and s: "same snd M2 (pairs D2 I2 mv2 (length ys) (length zs)) ys zs"
    and ok: "cb_ok dbg c'" "moves_ok c'"
    and D': "idx (deletions c') = comp_del (idx (deletions c)) (idx (insertions c)) D2"
    and I': "idx (insertions c') = comp_ins (idx (insertions c)) D2 I2"
    and M': "idx (modifications c') \<subseteq> {..<length zs}" "M2 \<subseteq> idx (modifications c')"
      "\<And>i j k. (i, j) \<in> cb_pairs c (length xs) (length ys) \<Longrightarrow> corr D2 I2 j k \<or> (j, k) \<in> mv2
        \<Longrightarrow> j \<in> idx (modifications c) \<Longrightarrow> k \<in> idx (modifications c')"
    and mv: "\<And>f t. (f, t) \<in> move_pairs c' \<Longrightarrow>
      \<exists>j. (f, j) \<in> move_pairs c \<and> (corr D2 I2 j t \<or> (j, t) \<in> mv2)
        \<or> corr (idx (deletions c)) (idx (insertions c)) f j \<and> (j, t) \<in> mv2"
  shows "describes dbg c' xs zs"
proof -
  let ?D = "idx (deletions c)" and ?I = "idx (insertions c)"
  let ?P1 = "cb_pairs c (length xs) (length ys)" and ?P2 = "pairs D2 I2 mv2 (length ys) (length zs)"
  have t1: "tracks ?D ?I (move_pairs c) xs ys" using d by (simp add: describes_def)
  have f1: "fits ?D ?I (move_pairs c) (length xs) (length ys)" using t1 by (simp add: tracks_def)
  have f2: "fits D2 I2 mv2 (length ys) (length zs)" using u by (simp add: tracks_def)
  have fin: "finite D2" "finite I2" using fits_finite [OF f2] by auto
  have P: "(f, t) \<in> comp_del ?D ?I D2 \<times> comp_ins ?I D2 I2 \<and> (f, t) \<in> ?P1 O ?P2"
    if ft: "(f, t) \<in> move_pairs c'" for f t
  proof -
    from mv [OF ft] obtain j where
      "(f, j) \<in> move_pairs c \<and> (corr D2 I2 j t \<or> (j, t) \<in> mv2) \<or> corr ?D ?I f j \<and> (j, t) \<in> mv2" ..
    then consider "(f, j) \<in> move_pairs c" "corr D2 I2 j t" | "(f, j) \<in> move_pairs c" "(j, t) \<in> mv2"
      | "corr ?D ?I f j" "(j, t) \<in> mv2" by blast
    then show ?thesis
    proof cases
      case 1
      then have "f \<in> ?D" "j \<in> ?I" using f1 by (auto simp: fits_def)
      then have "f < length xs" "j < length ys" using f1 by (auto simp: fits_def)
      moreover from this have "t < length zs" using fits_corr_less [OF f2 1(2)] by simp
      moreover have "t \<in> comp_ins ?I D2 I2" using comp_ins_iff [OF fin(2) 1(2)] \<open>j \<in> ?I\<close> by simp
      ultimately show ?thesis using 1 \<open>f \<in> ?D\<close> by (auto simp: pairs_def comp_del_def)
    next
      case 2
      then have "f \<in> ?D" "j \<in> ?I" "t \<in> I2" using f1 f2 by (auto simp: fits_def)
      moreover from this have "f < length xs" "j < length ys" "t < length zs" using f1 f2 by (auto simp: fits_def)
      ultimately show ?thesis using 2 by (auto simp: pairs_def comp_del_def comp_ins_def)
    next
      case 3
      then have "j \<in> D2" "t \<in> I2" using f2 by (auto simp: fits_def)
      then have "j < length ys" "t < length zs" using f2 by (auto simp: fits_def)
      moreover from this have "f < length xs" using fits_corr_less [OF f1 3(1)] by simp
      moreover have "f \<in> comp_del ?D ?I D2" using comp_del_iff [OF idx_finite 3(1)] \<open>j \<in> D2\<close> by simp
      ultimately show ?thesis using 3 \<open>t \<in> I2\<close> by (auto simp: pairs_def comp_ins_def)
    qed
  qed
  have mv1: "move_pairs c' \<subseteq> comp_del ?D ?I D2 \<times> comp_ins ?I D2 I2" using P by auto
  have mv2: "move_pairs c' \<subseteq> ?P1 O ?P2" using P by auto
  have t: "tracks (idx (deletions c')) (idx (insertions c')) (move_pairs c') xs zs"
    unfolding D' I' by (rule tracks_comp [OF t1 u mv1 mv2])
  have "same snd (idx (modifications c')) (cb_pairs c' (length xs) (length zs)) xs zs"
    unfolding D' I'
  proof (rule same_comp [OF _ s pairs_comp [OF f1 f2 mv2]])
    show "same snd (idx (modifications c)) ?P1 xs ys" using d by (simp add: describes_def)
    show "j \<notin> idx (modifications c) \<and> k \<notin> M2"
      if "(i, j) \<in> ?P1" "(j, k) \<in> ?P2" "k \<notin> idx (modifications c')" for i j k
    proof
      have "corr D2 I2 j k \<or> (j, k) \<in> mv2" using that(2) by (auto simp: pairs_def)
      then show "j \<notin> idx (modifications c)" using M'(3) [OF that(1)] that(3) by blast
    qed (use that(3) M'(2) in blast)
  qed
  with t ok M'(1) show ?thesis by (simp add: describes_def)
qed

text \<open>
  \<open>keeps_place c c' n\<close>: the operation from \<open>c\<close> to \<open>c'\<close> leaves every row that it does not report where
  it was, among the first \<open>n\<close> positions. All operations with row semantics do.
\<close>

definition keeps_place :: "change_builder \<Rightarrow> change_builder \<Rightarrow> nat \<Rightarrow> bool" where
  "keeps_place c c' n \<longleftrightarrow> (\<forall>i k. corr (idx (deletions c')) (idx (insertions c')) i k \<longrightarrow> k < n
     \<longrightarrow> corr (idx (deletions c)) (idx (insertions c)) i k)"

lemma keeps_placeI:
  assumes "idx (deletions c') = comp_del (idx (deletions c)) (idx (insertions c)) D"
    "idx (insertions c') = comp_ins (idx (insertions c)) D I" "finite D" "finite I"
    "\<And>j k. corr D I j k \<Longrightarrow> k < n \<Longrightarrow> j = k"
  shows "keeps_place c c' n"
  unfolding keeps_place_def assms(1,2)
proof (intro allI impI)
  fix i k
  assume "corr (comp_del (idx (deletions c)) (idx (insertions c)) D) (comp_ins (idx (insertions c)) D I) i k" and k: "k < n"
  then obtain j where "corr (idx (deletions c)) (idx (insertions c)) i j" "corr D I j k"
    using corr_comp [OF idx_finite idx_finite assms(3,4)] by blast
  then show "corr (idx (deletions c)) (idx (insertions c)) i k" using assms(5) k by blast
qed

subsection \<open>for_each_col\<close>

locale col_op = set_op +
  assumes g_mono: "S \<subseteq> T \<Longrightarrow> g S \<subseteq> g T"
begin

lemma for_each_col_ok:
  assumes "cb_ok dbg c"
  shows "succeeds (for_each_col f c) (\<lambda>c'. cb_ok dbg c' \<and> idx (modifications c') = g (idx (modifications c))
    \<and> same_moves c c')"
proof -
  have m: "succeeds (f (modifications c)) (\<lambda>m. crv_ok dbg m \<and> idx m = g (idx (modifications c)))"
    using op_ok assms by (simp add: cb_ok_def)
  have "\<forall>cs\<in>set (columns c). crv_ok dbg cs" using assms by (simp add: cb_ok_def)
  note cols = map_ok [OF this]
  have sub: "idx col \<subseteq> g (idx (modifications c))"
    if "map idx cols' = map (\<lambda>cs. g (idx cs)) (columns c)" "col \<in> set cols'" for cols' col
  proof -
    have "idx col \<in> set (map idx cols')" using that(2) by simp
    then have "idx col \<in> (\<lambda>cs. g (idx cs)) ` set (columns c)" unfolding that(1) by simp
    then obtain cs where "cs \<in> set (columns c)" "idx col = g (idx cs)" by blast
    then show ?thesis using g_mono assms by (simp add: cb_ok_def)
  qed
  show ?thesis
  proof (cases "track_columns c")
    case True
    from m obtain m' where m': "f (modifications c) = Some m'" "crv_ok dbg m'" "idx m' = g (idx (modifications c))"
      by (rule succeedsE) blast
    from cols obtain cols' where "map_opt f (columns c) = Some cols'" "\<forall>cs\<in>set cols'. crv_ok dbg cs"
      "map idx cols' = map (\<lambda>cs. g (idx cs)) (columns c)" by (rule succeedsE) blast
    then show ?thesis using m' sub assms True by (auto simp: for_each_col_def cb_ok_def)
  next
    case False
    then show ?thesis using m assms
      by (auto simp: for_each_col_def cb_ok_def elim!: succeeds_mono)
  qed
qed

end

lemma open_gap_corr: "open_gap i n S = {k. \<exists>j\<in>S. corr {} {i..<i + n} j k}"
proof -
  have "k \<in> open_gap i n S \<longleftrightarrow> (\<exists>j\<in>S. (j < i \<and> k = j) \<or> (i \<le> j \<and> k = j + n))" for k
    by (cases "k < i") (auto simp: open_gap_def intro: bexI [of _ "k - n"])
  then show ?thesis unfolding corr_ins by auto
qed

lemma close_gap_corr: "close_gap i S = {k. \<exists>j\<in>S. corr {i} {} j k}"
  using comp_ins_del [of S i] comp_ins_set [of "{i}" "{}" S] by simp

interpretation shift_col: col_op dbg "\<lambda>cs. shift_for_insert_at dbg cs i (Suc n)" "open_gap i (Suc n)" for dbg i n
  by unfold_locales (auto simp: open_gap_def)

interpretation erase_col: col_op dbg "\<lambda>cs. erase_at dbg cs i" "close_gap i" for dbg i
  by unfold_locales (auto simp: close_gap_def)

interpretation remove_col: col_op dbg "\<lambda>cs. remove dbg cs i (Suc n)" "\<lambda>S. S - {i..<i + Suc n}" for dbg i n
  by unfold_locales auto

subsection \<open>modify\<close>

lemma cb_okD: "cb_ok dbg c \<Longrightarrow> crv_ok dbg (deletions c) \<and> crv_ok dbg (insertions c) \<and> crv_ok dbg (modifications c)"
  by (simp add: cb_ok_def)

lemma cb_modify_state:
  assumes ok: "cb_ok dbg c"
  shows "succeeds (cb_modify dbg c ndx col) (\<lambda>c'. cb_ok dbg c'
    \<and> idx (modifications c') = insert ndx (idx (modifications c))
    \<and> same_moves c c')"
proof -
  from add_succ [of dbg "modifications c" ndx] cb_okD [OF ok] obtain m where
    m: "add dbg (modifications c) ndx = Some m" "crv_ok dbg m" "idx m = insert ndx (idx (modifications c))"
    by (auto elim: succeedsE)
  have sub: "\<forall>cs\<in>set (columns c). crv_ok dbg cs \<and> idx cs \<subseteq> idx m"
    using ok m(3) by (auto simp: cb_ok_def)
  show ?thesis
  proof (cases "track_columns c \<and> col \<noteq> npos")
    case True
    let ?cols = "if col \<ge> length (columns c) then columns c @ replicate (col + 1 - length (columns c)) []
                 else columns c"
    have cols: "\<forall>cs\<in>set ?cols. crv_ok dbg cs \<and> idx cs \<subseteq> idx m" using sub by (auto simp: crv_ok_Nil)
    have col: "col < length ?cols" by auto
    then have "crv_ok dbg (?cols ! col) \<and> idx (?cols ! col) \<subseteq> idx m" using cols nth_mem by blast
    with add_succ [of dbg "?cols ! col" ndx] m(3) obtain col' where
      "add dbg (?cols ! col) ndx = Some col'" "crv_ok dbg col'" "idx col' \<subseteq> idx m"
      by (auto elim: succeedsE)
    then have "\<forall>cs\<in>set (?cols[col := col']). crv_ok dbg cs \<and> idx cs \<subseteq> idx m"
      using cols set_update_subset_insert [of ?cols col col'] by blast
    then show ?thesis using True m ok \<open>add dbg (?cols ! col) ndx = Some col'\<close>
      by (auto simp: cb_modify_def Let_def cb_ok_def)
  next
    case False
    then show ?thesis using m ok sub by (auto simp: cb_modify_def cb_ok_def)
  qed
qed

lemma cb_modify_ok:
  assumes d: "describes dbg c xs ys" and i: "ndx < length ys"
  shows "succeeds (cb_modify dbg c ndx col) (\<lambda>c'. describes dbg c' xs (ys[ndx := (fst (ys ! ndx), v)])
    \<and> same_moves c c')"
proof -
  have ok: "cb_ok dbg c" using d by (simp add: describes_def)
  have t: "tracks {} {} {} ys (ys[ndx := (fst (ys ! ndx), v)])"
    using i by (auto simp: tracks_def fits_def same_def pairs_def nth_list_update)
  have s: "same snd {ndx} (pairs {} {} {} (length ys) (length (ys[ndx := (fst (ys ! ndx), v)]))) ys
      (ys[ndx := (fst (ys ! ndx), v)])"
    by (auto simp: same_def pairs_def)
  show ?thesis
  proof (rule succeeds_mono [OF cb_modify_state [OF ok]])
    fix c'
    assume c': "cb_ok dbg c' \<and> idx (modifications c') = insert ndx (idx (modifications c)) \<and> same_moves c c'"
    then have "cb_ok dbg c'" by simp
    then have "describes dbg c' xs (ys[ndx := (fst (ys ! ndx), v)])"
      by (rule describes_step [OF d t s])
        (use d i c' in \<open>auto simp: describes_def moves_ok_def move_pairs_def\<close>)
    then show "describes dbg c' xs (ys[ndx := (fst (ys ! ndx), v)]) \<and> same_moves c c'" using c' by simp
  qed
qed

subsection \<open>insert\<close>

lemma AList_update_new: "k \<notin> fst ` set al \<Longrightarrow> AList.update k v al = al @ [(k, v)]"
  by (induction al) auto

lemma fold_update_new:
  "distinct (map fst (al @ new)) \<Longrightarrow>
   fold (\<lambda>(k, v) m. if map_of m k = None then AList.update k v m else m) new al = al @ new"
proof (induction new arbitrary: al)
  case (Cons p new)
  obtain k v where p: "p = (k, v)" by (cases p)
  have "k \<notin> fst ` set al" using Cons.prems by (auto simp: p)
  then show ?case using Cons.IH [of "al @ [p]"] Cons.prems
    by (simp add: p AList_update_new map_of_eq_None_iff)
qed simp

definition shift_to :: "size_t \<Rightarrow> size_t \<Rightarrow> size_t \<Rightarrow> size_t" where
  "shift_to i n t = (if t \<ge> i then t + n else t)"

lemma shift_to_inj: "shift_to i n a = shift_to i n b \<longleftrightarrow> a = b"
  by (auto simp: shift_to_def)

lemma distinct_map_inj: "distinct (map (\<lambda>x. h (f x)) xs) \<longleftrightarrow> distinct (map f xs)"
  if "\<And>a b. h a = h b \<longleftrightarrow> a = b"
  using that by (induction xs) (auto simp: image_iff)

lemma cb_insert_ok:
  assumes d: "describes dbg c xs ys" and i: "i \<le> length ys" and new: "new \<noteq> []"
  shows "succeeds (cb_insert dbg c i (length new) True) (\<lambda>c'. describes dbg c' xs (ins_list i new ys)
    \<and> (moves c' = [] \<longleftrightarrow> moves c = []) \<and> (move_mapping c = [] \<longrightarrow> move_mapping c' = [])
    \<and> (i = length ys \<longrightarrow> keeps_place c c' (length (ins_list i new ys))))"
proof -
  obtain n where n: "length new = Suc n" using new by (cases new) auto
  have ok: "cb_ok dbg c" and mo: "moves_ok c" using d by (auto simp: describes_def)
  have u: "unchanged {} {i..<i + Suc n} {} ys (ins_list i new ys)"
    using unchanged_ins [OF i, of new] by (simp add: n)
  from shift_col.for_each_col_ok [OF ok, of i n] obtain c1 where
    1: "for_each_col (\<lambda>cs. shift_for_insert_at dbg cs i (Suc n)) c = Some c1" "cb_ok dbg c1"
      "idx (modifications c1) = open_gap i (Suc n) (idx (modifications c))" "same_moves c c1"
    by (rule succeedsE) auto
  from insert_at_succ [of dbg "insertions c" "Suc n" i] cb_okD [OF ok] obtain ins where
    2: "insert_at dbg (insertions c) i (Suc n) = Some ins" "crv_ok dbg ins"
      "idx ins = open_gap i (Suc n) (idx (insertions c)) \<union> {i..<i + Suc n}" by (auto elim: succeedsE)
  let ?h = "shift_to i (Suc n)"
  let ?mvs = "map (\<lambda>x. if mv_to x \<ge> i then x\<lparr>mv_to := mv_to x + Suc n\<rparr> else x) (moves c)"
  let ?shifted = "map (\<lambda>(k, v). (k + Suc n, v)) (filter (\<lambda>(k, v). k \<ge> i) (move_mapping c))"
  let ?kept = "filter (\<lambda>(k, v). \<not> k \<ge> i) (move_mapping c)"
  let ?c = "c1\<lparr>insertions := ins, moves := ?mvs, move_mapping := ?kept @ ?shifted\<rparr>"
  have dist: "distinct (map fst (?kept @ ?shifted))" "distinct (map snd (?kept @ ?shifted))"
  proof -
    have "distinct (map fst (move_mapping c))" "distinct (map snd (move_mapping c))"
      using mo by (auto simp: moves_ok_def)
    then show "distinct (map fst (?kept @ ?shifted))" "distinct (map snd (?kept @ ?shifted))"
      by (induction "move_mapping c" rule: rev_induct; force simp: distinct_map inj_on_def)+
  qed
  have run: "cb_insert dbg c i (length new) True = Some ?c"
    using 1(1,4) 2(1) fold_update_new [OF dist(1)] by (cases "move_mapping c = []") (simp_all add: cb_insert_def n Let_def)
  have to: "map mv_to ?mvs = map (\<lambda>x. ?h (mv_to x)) (moves c)" "map mv_from ?mvs = map mv_from (moves c)"
    by (auto simp: shift_to_def)
  have "distinct (map mv_to ?mvs)" "distinct (map mv_from ?mvs)"
    unfolding to distinct_map_inj [OF shift_to_inj] using mo by (auto simp: moves_ok_def)
  moreover have "moves ?c = ?mvs" "move_mapping ?c = ?kept @ ?shifted" by simp_all
  ultimately have mo': "moves_ok ?c" using dist unfolding moves_ok_def by (simp only: simp_thms)
  have h: "corr {} {i..<i + Suc n} j (?h j)" for j unfolding corr_ins by (auto simp: shift_to_def)
  have mp: "\<exists>j. (f, j) \<in> move_pairs c \<and> corr {} {i..<i + Suc n} j t" if ft: "(f, t) \<in> move_pairs ?c" for f t
  proof -
    consider x where "x \<in> set (moves c)" "f = mv_from x" "t = ?h (mv_to x)"
      | k where "(k, f) \<in> set (move_mapping c)" "t = ?h k"
      using ft by (auto simp: move_pairs_def shift_to_def split: if_splits)
    then have "\<exists>j. (f, j) \<in> move_pairs c \<and> t = ?h j" by cases (force simp: move_pairs_def)+
    then show ?thesis using h by blast
  qed
  have "describes dbg ?c xs (ins_list i new ys)"
  proof (rule describes_step [OF d unchanged_tracks [OF u] same_weaken [OF conjunct2 [OF u], where M = "{}"]])
    show "cb_ok dbg ?c" using 1(2) 2(2) by (simp add: cb_ok_def)
    show "moves_ok ?c" by (rule mo')
    show "idx (insertions ?c) = comp_ins (idx (insertions c)) {} {i..<i + Suc n}"
      unfolding comp_ins_ins 2(3) [symmetric] by simp
    show "idx (modifications ?c) \<subseteq> {..<length (ins_list i new ys)}"
      using d i by (auto simp: 1(3) n open_gap_def describes_def)
    show "k \<in> idx (modifications ?c)"
      if "corr {} {i..<i + Suc n} j k \<or> (j, k) \<in> {}" "j \<in> idx (modifications c)" for j k
      using that by (auto simp: 1(3) open_gap_corr)
    show "\<exists>j. (f, j) \<in> move_pairs c \<and> (corr {} {i..<i + Suc n} j t \<or> (j, t) \<in> {})
        \<or> corr (idx (deletions c)) (idx (insertions c)) f j \<and> (j, t) \<in> {}"
      if "(f, t) \<in> move_pairs ?c" for f t
      using mp [OF that] by blast
  qed (use 1(4) in simp_all)
  moreover have "keeps_place c ?c (length (ins_list i new ys))" if "i = length ys"
  proof (rule keeps_placeI)
    show "idx (insertions ?c) = comp_ins (idx (insertions c)) {} {i..<i + Suc n}"
      unfolding comp_ins_ins 2(3) [symmetric] by simp
    show "j = k" if "corr {} {i..<i + Suc n} j k" "k < length (ins_list i new ys)" for j k
      using that \<open>i = length ys\<close> n unfolding corr_ins by auto
  qed (use 1(4) in simp_all)
  ultimately show ?thesis using run by simp
qed

subsection \<open>erase\<close>

lemma erase_moves_eq:
  "erase_moves i ms = map (\<lambda>m. if mv_to m > i then m\<lparr>mv_to := mv_to m - 1\<rparr> else m)
     (filter (\<lambda>m. mv_to m \<noteq> i) ms)"
  by (induction ms) auto

definition close_to :: "size_t \<Rightarrow> size_t \<Rightarrow> size_t" where
  "close_to i t = (if t > i then t - 1 else t)"

lemma close_to_inj: "a \<noteq> i \<Longrightarrow> b \<noteq> i \<Longrightarrow> close_to i a = close_to i b \<longleftrightarrow> a = b"
  by (auto simp: close_to_def)

lemma corr_close_to: "j \<noteq> i \<Longrightarrow> corr {i} {} j (close_to i j)"
  unfolding corr_del by (auto simp: close_to_def)

lemma distinct_map_filter_inj:
  assumes "\<And>a b. a \<noteq> i \<Longrightarrow> b \<noteq> i \<Longrightarrow> h a = h b \<Longrightarrow> a = b" "distinct (map f xs)"
  shows "distinct (map (\<lambda>x. h (f x)) (filter (\<lambda>x. f x \<noteq> i) xs))"
  using assms(2)
proof (induction xs)
  case (Cons x xs)
  then show ?case using assms(1) by (auto simp: image_iff)
qed simp

lemma moves_ok_erase:
  assumes "distinct (map mv_to ms)" "distinct (map mv_from ms)"
  shows "distinct (map mv_to (erase_moves i ms)) \<and> distinct (map mv_from (erase_moves i ms))"
proof -
  have "map mv_to (erase_moves i ms) = map (\<lambda>x. close_to i (mv_to x)) (filter (\<lambda>x. mv_to x \<noteq> i) ms)"
    by (auto simp: erase_moves_eq close_to_def)
  moreover have "map mv_from (erase_moves i ms) = map mv_from (filter (\<lambda>x. mv_to x \<noteq> i) ms)"
    by (auto simp: erase_moves_eq)
  ultimately show ?thesis
    using distinct_map_filter_inj [of i "close_to i", OF _ assms(1)] close_to_inj assms(2)
    by (simp add: distinct_map_filter)
qed

text \<open>Recording that the row now at a position is gone: the end of \<open>erase\<close>, and half of \<open>move\<close>.\<close>

lemma unshift_not_npos: "i < n \<Longrightarrow> n \<le> npos \<Longrightarrow> unshift_of S i \<noteq> npos"
  using unshift_of_le [of S i] by linarith

lemma erase_add_shifted_ok:
  assumes del: "crv_ok dbg del" and ins: "crv_ok dbg ins" and i: "i < n" "n \<le> npos"
  obtains ins' sh del' where "erase_or_unshift dbg ins i = Some (ins', sh)" "crv_ok dbg ins'"
    "idx ins' = close_gap i (idx ins)" "sh = npos \<longleftrightarrow> i \<in> idx ins"
    "sh \<noteq> npos \<longrightarrow> add_shifted dbg del sh = Some (del', shift_of (idx del) (unshift_of (idx ins) i))"
    "sh \<noteq> npos \<longrightarrow> crv_ok dbg del' \<and> idx del' = comp_del (idx del) (idx ins) {i}"
proof -
  from erase_or_unshift_succ [OF ins, of i] obtain ins' sh where
    1: "erase_or_unshift dbg ins i = Some (ins', sh)" "crv_ok dbg ins'" "idx ins' = close_gap i (idx ins)"
      "sh = (if i \<in> idx ins then npos else unshift_of (idx ins) i)" by (auto elim: succeedsE)
  from add_shifted_succ [OF del, of sh] obtain del' where
    2: "add_shifted dbg del sh = Some (del', shift_of (idx del) sh)" "crv_ok dbg del'"
      "idx del' = insert (shift_of (idx del) sh) (idx del)" by (auto elim: succeedsE)
  note np = unshift_not_npos [OF i, of "idx ins"]
  show thesis
  proof (cases "i \<in> idx ins")
    case True
    then show ?thesis by (intro that [OF 1(1-3), of undefined]) (simp_all add: 1(4))
  next
    case False
    then show ?thesis using 2 np
      by (intro that [OF 1(1-3), of del']) (simp_all add: 1(4) comp_del_del)
  qed
qed

lemma cb_erase_ok:
  assumes d: "describes dbg c xs ys" and i: "i < length ys" and n: "length ys \<le> npos"
    and mm: "move_mapping c = []"
  shows "succeeds (cb_erase dbg c i) (\<lambda>c'. describes dbg c' xs (del_list i ys) \<and> move_mapping c' = [])"
proof -
  have ok: "cb_ok dbg c" and mo: "moves_ok c" using d by (auto simp: describes_def)
  note u = unchanged_del [OF i]
  from erase_col.for_each_col_ok [OF ok, of i] obtain c1 where
    1: "for_each_col (\<lambda>cs. erase_at dbg cs i) c = Some c1" "cb_ok dbg c1"
      "idx (modifications c1) = close_gap i (idx (modifications c))" "same_moves c c1"
    by (rule succeedsE) auto
  have "crv_ok dbg (deletions c)" "crv_ok dbg (insertions c)" using cb_okD [OF ok] by auto
  then obtain ins sh del where
    2: "erase_or_unshift dbg (insertions c) i = Some (ins, sh)" "crv_ok dbg ins"
      "idx ins = close_gap i (idx (insertions c))" "sh = npos \<longleftrightarrow> i \<in> idx (insertions c)"
      "sh \<noteq> npos \<longrightarrow> add_shifted dbg (deletions c) sh
          = Some (del, shift_of (idx (deletions c)) (unshift_of (idx (insertions c)) i))"
      "sh \<noteq> npos \<longrightarrow> crv_ok dbg del \<and> idx del = comp_del (idx (deletions c)) (idx (insertions c)) {i}"
    by (rule erase_add_shifted_ok [OF _ _ i n])
  let ?del = "if sh \<noteq> npos then del else deletions c"
  let ?c = "c1\<lparr>insertions := ins, deletions := ?del, moves := erase_moves i (moves c)\<rparr>"
  have run: "cb_erase dbg c i = Some ?c"
    using 1(1,4) 2(1,5) by (auto simp: cb_erase_def)
  have mv: "\<exists>j. (f, j) \<in> move_pairs c \<and> corr {i} {} j t" if ft: "(f, t) \<in> move_pairs ?c" for f t
  proof -
    obtain x where x: "x \<in> set (moves c)" "mv_to x \<noteq> i" "f = mv_from x" "t = close_to i (mv_to x)"
      using ft 1(4) mm by (auto simp: move_pairs_def erase_moves_eq close_to_def split: if_splits)
    then show ?thesis using corr_close_to by (auto simp: move_pairs_def)
  qed
  have "describes dbg ?c xs (del_list i ys)"
  proof (rule describes_step [OF d unchanged_tracks [OF u] same_weaken [OF conjunct2 [OF u], where M = "{}"]])
    show "cb_ok dbg ?c" using 1(2) 2(2,6) cb_okD [OF ok] by (auto simp: cb_ok_def)
    show "moves_ok ?c" using moves_ok_erase mo 1(4) by (simp add: moves_ok_def)
    show "idx (deletions ?c) = comp_del (idx (deletions c)) (idx (insertions c)) {i}"
      using 2(4,6) by (simp add: comp_del_del)
    show "idx (insertions ?c) = comp_ins (idx (insertions c)) {i} {}"
      unfolding comp_ins_del 2(3) [symmetric] by simp
    show "idx (modifications ?c) \<subseteq> {..<length (del_list i ys)}"
      using d i by (fastforce simp: 1(3) close_gap_def describes_def)
    show "k \<in> idx (modifications ?c)"
      if "corr {i} {} j k \<or> (j, k) \<in> {}" "j \<in> idx (modifications c)" for j k
      using that by (auto simp: 1(3) close_gap_corr)
  qed (use mv in auto)
  then show ?thesis using run mm 1(4) by simp
qed

subsection \<open>clear\<close>

lemma span_idx: "crv_ok dbg cs \<Longrightarrow> span (ranges cs) = card (idx cs)"
  using card_set_of crv_okD by (simp add: idx_def)

lemma fits_card:
  assumes "fits D I mv m n"
  shows "n + card D - card I = m"
proof -
  have "D \<inter> {..<m} = D" "I \<inter> {..<n} = I" using assms by (auto simp: fits_def)
  then have "m - card D = n - card I" "card D \<le> m" "card I \<le> n"
    using assms card_mono [of "{..<m}" D] card_mono [of "{..<n}" I]
    by (auto simp: fits_def corr_def unshift_of_def)
  then show ?thesis by linarith
qed

lemma cb_clear_ok:
  assumes d: "describes dbg c xs ys" and n: "length ys < npos"
  shows "succeeds (cb_clear dbg c (length ys)) (\<lambda>c'. describes dbg c' xs [] \<and> move_mapping c' = [] \<and> moves c' = [])"
proof -
  have ok: "cb_ok dbg c" using d by (simp add: describes_def)
  have f: "fits (idx (deletions c)) (idx (insertions c)) (move_pairs c) (length xs) (length ys)"
    using d by (simp add: describes_def tracks_def)
  have size: "length ys + span (ranges (deletions c)) - span (ranges (insertions c)) = length xs"
    using fits_card [OF f] cb_okD [OF ok] by (simp add: span_idx [of dbg])
  from set_len_succ [of dbg "deletions c" "length xs"] obtain del where
    del: "set_len dbg (deletions c) (length xs) = Some del" "crv_ok dbg del" "idx del = {..<length xs}"
    by (auto elim: succeedsE)
  let ?c = "c\<lparr>modifications := [], insertions := [], moves := [], move_mapping := [], columns := [], deletions := del\<rparr>"
  have run: "cb_clear dbg c (length ys) = Some ?c"
    using n size del(1) by (simp add: cb_clear_def clear_def)
  note u = unchanged_clear [of ys]
  have fc: "fits (comp_del (idx (deletions c)) (idx (insertions c)) {..<length ys})
      (comp_ins (idx (insertions c)) {..<length ys} {}) {} (length xs) (length ([] :: ('a \<times> 'b) list))"
    using fits_comp [OF f conjunct1 [OF u]] by simp
  have "i \<in> comp_del (idx (deletions c)) (idx (insertions c)) {..<length ys}" if "i < length xs" for i
  proof (cases "i \<in> idx (deletions c)")
    case False
    then obtain j where j: "corr (idx (deletions c)) (idx (insertions c)) i j" using corr_total idx_finite by blast
    then show ?thesis using comp_del_iff [OF idx_finite j] fits_corr_less [OF f j] that by simp
  qed (simp add: comp_del_def)
  then have D: "idx del = comp_del (idx (deletions c)) (idx (insertions c)) {..<length ys}"
    using fc by (auto simp: del(3) fits_def)
  have "describes dbg ?c xs ([] :: ('a, 'b) row list)"
  proof (rule describes_step [OF d unchanged_tracks [OF u] same_weaken [OF conjunct2 [OF u], where M = "{}"]])
    show "idx (insertions ?c) = comp_ins (idx (insertions c)) {..<length ys} {}"
      using fc by (auto simp: fits_def)
    show "k \<in> idx (modifications ?c)"
      if "corr {..<length ys} {} j k \<or> (j, k) \<in> {}" "j \<in> idx (modifications c)" for j k
      using that d unfolding corr_all_del by (fastforce simp: describes_def)
  qed (use D del(2) ok in \<open>auto simp: cb_ok_def moves_ok_def move_pairs_def crv_ok_Nil\<close>)
  then show ?thesis using run by simp
qed

subsection \<open>move\<close>

lemma unchanged_comp:
  assumes 1: "unchanged D1 I1 {} xs ys" and 2: "unchanged D2 I2 {} ys zs"
  shows "unchanged (comp_del D1 I1 D2) (comp_ins I1 D2 I2) {} xs zs"
proof -
  have f: "fits D1 I1 {} (length xs) (length ys)" "fits D2 I2 {} (length ys) (length zs)" using 1 2 by auto
  have "same id {} (pairs (comp_del D1 I1 D2) (comp_ins I1 D2 I2) {} (length xs) (length zs)) xs zs"
    using 1 2 by (intro same_comp [OF _ _ pairs_comp [OF f]]) auto
  then show ?thesis using fits_comp [OF f] by simp
qed

lemma comp_move: "comp_del {f} {} {} = {f}" "comp_ins {} {} {t..<t + 1} = {t}"
  by (auto simp: comp_ins_def)

lemma corr_move: "corr {f} {t} j k \<longleftrightarrow> (\<exists>m. corr {f} {} j m \<and> corr {} {t..<t + 1} m k)"
  using corr_comp [of "{f}" "{}" "{}" "{t..<t + 1}" j k] by (simp only: comp_move) simp

lemma unchanged_move:
  assumes "f < length ys" "t < length ys"
  shows "unchanged {f} {t} {(f, t)} ys (move_list f t ys)"
proof -
  have t: "t \<le> length (del_list f ys)" using assms by simp
  have u: "unchanged {f} {t} {} ys (move_list f t ys)"
    using unchanged_comp [OF unchanged_del [OF assms(1)] unchanged_ins [OF t, of "[ys ! f]"]]
    by (simp only: comp_move move_list_def length_Cons list.size One_nat_def [symmetric] add_0)
  have "move_list f t ys ! t = ys ! f" using t assms by (simp add: move_list_def nth_ins_list)
  then show ?thesis using u by (auto simp: fits_def same_def pairs_def)
qed

definition move_set :: "size_t \<Rightarrow> size_t \<Rightarrow> size_t set \<Rightarrow> size_t set" where
  "move_set f t S = open_gap t (Suc 0) (close_gap f S)"

lemma move_set_corr: "move_set f t S = {k. \<exists>j\<in>S. corr {f} {t} j k}"
  unfolding move_set_def open_gap_corr close_gap_corr corr_move by auto

lemma comp_ins_move: "comp_ins I {f} {t} = {t} \<union> move_set f t I"
  by (simp add: comp_ins_set move_set_corr)

interpretation move_col_op: col_op dbg "move_col dbg f t"
  "\<lambda>S. move_set f t S \<union> (if f \<in> S then {t} else {})" for dbg f t
proof
  fix cs assume ok: "crv_ok dbg cs"
  from erase_at_succ [OF ok, of f] obtain cs1 where
    1: "erase_at dbg cs f = Some cs1" "crv_ok dbg cs1" "idx cs1 = close_gap f (idx cs)"
    by (auto elim: succeedsE)
  show "succeeds (move_col dbg f t cs)
      (\<lambda>cs'. crv_ok dbg cs' \<and> idx cs' = move_set f t (idx cs) \<union> (if f \<in> idx cs then {t} else {}))"
  proof (cases "f \<in> idx cs")
    case True
    have "succeeds (insert_at dbg cs1 t 1)
        (\<lambda>cs'. crv_ok dbg cs' \<and> idx cs' = open_gap t 1 (idx cs1) \<union> {t..<t + 1})"
      using insert_at_succ [OF 1(2), of 1 t] by simp
    then show ?thesis using True 1(1) contains_ok [OF ok, of f]
      by (auto simp: move_col_def 1(3) move_set_def elim: succeeds_mono)
  next
    case False
    have "succeeds (shift_for_insert_at dbg cs1 t 1)
        (\<lambda>cs'. crv_ok dbg cs' \<and> idx cs' = open_gap t 1 (idx cs1))"
      using shift_for_insert_at_succ [OF 1(2), of 1 t] by simp
    then show ?thesis using False 1(1) contains_ok [OF ok, of f]
      by (auto simp: move_col_def 1(3) move_set_def elim: succeeds_mono)
  qed
next
  show "move_set f t S \<union> (if f \<in> S then {t} else {}) \<subseteq> move_set f t T \<union> (if f \<in> T then {t} else {})"
    if "S \<subseteq> T" for S T
    using that by (auto simp: move_set_corr)
qed

definition move_to :: "size_t \<Rightarrow> size_t \<Rightarrow> size_t \<Rightarrow> size_t" where
  "move_to f t j = (if j = f then t else if t \<le> j \<and> j < f then j + 1 else if f < j \<and> j \<le> t then j - 1 else j)"

lemma corr_move_to: "j \<noteq> f \<Longrightarrow> corr {f} {t} j (move_to f t j)"
  unfolding corr_move corr_del corr_ins
  by (rule exI [of _ "if j < f then j else j - 1"]) (auto simp: move_to_def)

lemma move_to_inj: "move_to f t a = move_to f t b \<longleftrightarrow> a = b"
  by (auto simp: move_to_def split: if_splits)

lemma move_loop_ok:
  assumes "crv_ok dbg ins" "distinct (map mv_to ms)" "updated \<Longrightarrow> f \<notin> mv_to ` set ms"
  shows "succeeds (move_loop dbg f t ins updated ms) (\<lambda>(ins', updated', ms').
    ms' = map (\<lambda>m. m\<lparr>mv_to := move_to f t (mv_to m)\<rparr>) ms \<and> crv_ok dbg ins'
    \<and> updated' = (updated \<or> f \<in> mv_to ` set ms)
    \<and> idx ins' = (if f \<in> mv_to ` set ms then {t} \<union> move_set f t (idx ins) else idx ins))"
  using assms
proof (induction ms arbitrary: ins updated)
  case (Cons m ms)
  show ?case
  proof (cases "mv_to m = f")
    case False
    have eq: "(if mv_to m \<ge> t \<and> mv_to m < f then m\<lparr>mv_to := mv_to m + 1\<rparr>
        else if mv_to m \<le> t \<and> mv_to m > f then m\<lparr>mv_to := mv_to m - 1\<rparr> else m)
      = m\<lparr>mv_to := move_to f t (mv_to m)\<rparr>"
      using False by (auto simp: move_to_def)
    have dist: "distinct (map mv_to ms)" "updated \<Longrightarrow> f \<notin> mv_to ` set ms" using Cons.prems by auto
    from Cons.IH [OF Cons.prems(1) dist] obtain ins' where
      "move_loop dbg f t ins updated ms = Some (ins', updated \<or> f \<in> mv_to ` set ms,
          map (\<lambda>m. m\<lparr>mv_to := move_to f t (mv_to m)\<rparr>) ms)" "crv_ok dbg ins'"
      "idx ins' = (if f \<in> mv_to ` set ms then {t} \<union> move_set f t (idx ins) else idx ins)"
      by (auto elim!: succeedsE)
    then show ?thesis using False by (simp add: eq Let_def)
  next
    case True
    then have f: "f \<notin> mv_to ` set ms" and up: "\<not> updated" using Cons.prems(2,3) by auto
    from erase_at_succ [OF Cons.prems(1), of f] obtain ins1 where
      1: "erase_at dbg ins f = Some ins1" "crv_ok dbg ins1" "idx ins1 = close_gap f (idx ins)"
      by (auto elim: succeedsE)
    from insert_at_succ [OF 1(2), of 1 t] obtain ins2 where
      2: "insert_at dbg ins1 t 1 = Some ins2" "crv_ok dbg ins2" "idx ins2 = {t} \<union> move_set f t (idx ins)"
      by (auto simp: 1(3) move_set_def elim!: succeedsE)
    have "distinct (map mv_to ms)" using Cons.prems(2) by simp
    from Cons.IH [of ins2 True, OF 2(2) this] f obtain ins' where
      "move_loop dbg f t ins2 True ms = Some (ins', True, map (\<lambda>m. m\<lparr>mv_to := move_to f t (mv_to m)\<rparr>) ms)"
      "crv_ok dbg ins'" "idx ins' = idx ins2"
      using f by (auto elim!: succeedsE)
    moreover have "move_to f t f = t" by (simp add: move_to_def)
    ultimately show ?thesis using True up f 1(1) 2(1,3) by simp
  qed
qed simp

lemma moves_ok_move:
  "distinct (map mv_to ms) \<Longrightarrow> distinct (map mv_from ms) \<Longrightarrow>
   distinct (map mv_to (map (\<lambda>m. m\<lparr>mv_to := move_to f t (mv_to m)\<rparr>) ms))
   \<and> distinct (map mv_from (map (\<lambda>m. m\<lparr>mv_to := move_to f t (mv_to m)\<rparr>) ms))"
  using distinct_map_inj [OF move_to_inj, of f t mv_to ms] by (simp add: comp_def)

lemma cb_move_ok:
  assumes d: "describes dbg c xs ys" and f: "f < length ys" and t: "t < length ys" and ne: "f \<noteq> t"
    and n: "length ys \<le> npos" and mm: "move_mapping c = []"
  shows "succeeds (cb_move dbg c f t) (\<lambda>c'. describes dbg c' xs (move_list f t ys) \<and> move_mapping c' = [])"
proof -
  let ?D = "idx (deletions c)" and ?I = "idx (insertions c)"
  let ?mvs = "map (\<lambda>m. m\<lparr>mv_to := move_to f t (mv_to m)\<rparr>) (moves c)"
  have ok: "cb_ok dbg c" and mo: "moves_ok c" using d by (auto simp: describes_def)
  have fit: "fits ?D ?I (move_pairs c) (length xs) (length ys)" using d by (simp add: describes_def tracks_def)
  note u = unchanged_move [OF f t]
  have dist: "distinct (map mv_to (moves c))" "distinct (map mv_from (moves c))"
    using mo by (auto simp: moves_ok_def)
  have in_DI: "mv_from m \<in> ?D \<and> mv_to m \<in> ?I" if "m \<in> set (moves c)" for m
    using fit that by (auto simp: fits_def move_pairs_def)
  have step: "succeeds (for_each_col (move_col dbg f t) c2)
      (\<lambda>c'. describes dbg c' xs (move_list f t ys) \<and> move_mapping c' = [])"
    if c2: "cb_ok dbg c2" "modifications c2 = modifications c" "columns c2 = columns c" "move_mapping c2 = []"
      "idx (deletions c2) = comp_del ?D ?I {f}" "idx (insertions c2) = comp_ins ?I {f} {t}" "moves_ok c2"
      "\<And>a b. (a, b) \<in> move_pairs c2 \<Longrightarrow> \<exists>j. (a, j) \<in> move_pairs c \<and> (corr {f} {t} j b \<or> (j, b) \<in> {(f, t)})
        \<or> corr ?D ?I a j \<and> (j, b) \<in> {(f, t)}" for c2
  proof (rule succeeds_mono [OF move_col_op.for_each_col_ok [OF c2(1)]])
    fix c' assume c': "cb_ok dbg c' \<and> idx (modifications c')
        = move_set f t (idx (modifications c2)) \<union> (if f \<in> idx (modifications c2) then {t} else {}) \<and> same_moves c2 c'"
    have mods: "idx (modifications c') = {k. \<exists>j\<in>idx (modifications c). corr {f} {t} j k \<or> (j, k) = (f, t)}"
      using c' c2(2) by (auto simp: move_set_corr)
    have mp: "move_pairs c' = move_pairs c2" using c' by (simp add: move_pairs_def)
    have "describes dbg c' xs (move_list f t ys)"
    proof (rule describes_step [OF d unchanged_tracks [OF u] same_weaken [OF conjunct2 [OF u], where M = "{}"]])
      show "idx (modifications c') \<subseteq> {..<length (move_list f t ys)}"
      proof
        fix k assume "k \<in> idx (modifications c')"
        then obtain j where "j \<in> idx (modifications c)" "corr {f} {t} j k \<or> (j, k) = (f, t)"
          unfolding mods by blast
        then have "j < length ys" "corr {f} {t} j k \<or> k = t" using d by (auto simp: describes_def)
        moreover have "length (move_list f t ys) = length ys" using f t by (simp add: move_list_def)
        ultimately show "k \<in> {..<length (move_list f t ys)}"
          using fits_corr_less [OF conjunct1 [OF u], of j k] t by auto
      qed
    qed (use c' c2(5-8) mods in \<open>auto simp: moves_ok_def mp\<close>)
    then show "describes dbg c' xs (move_list f t ys) \<and> move_mapping c' = []" using c' c2(4) by simp
  qed
  have old_mv: "\<exists>j. (a, j) \<in> move_pairs c \<and> (corr {f} {t} j b \<or> (j, b) \<in> {(f, t)})
      \<or> corr ?D ?I a j \<and> (j, b) \<in> {(f, t)}"
    if ab: "(a, b) \<in> (\<lambda>m. (mv_from m, mv_to m)) ` set ?mvs" for a b
  proof -
    obtain m where m: "m \<in> set (moves c)" "a = mv_from m" "b = move_to f t (mv_to m)"
      using ab by auto
    then have "(a, mv_to m) \<in> move_pairs c" by (auto simp: move_pairs_def)
    moreover have "corr {f} {t} (mv_to m) b \<or> (mv_to m, b) \<in> {(f, t)}"
      using m(3) corr_move_to [of "mv_to m" f t] by (cases "mv_to m = f") (auto simp: move_to_def)
    ultimately show ?thesis by blast
  qed
  have "crv_ok dbg (insertions c)" using cb_okD [OF ok] by simp
  from move_loop_ok [OF this dist(1), of False f t] obtain ins where
    1: "move_loop dbg f t (insertions c) False (moves c) = Some (ins, f \<in> mv_to ` set (moves c), ?mvs)"
      "crv_ok dbg ins" "idx ins = (if f \<in> mv_to ` set (moves c) then {t} \<union> move_set f t ?I else ?I)"
    by (auto elim!: succeedsE)
  have mvs': "distinct (map mv_to ?mvs)" "distinct (map mv_from ?mvs)"
    using moves_ok_move [OF dist] by auto
  show ?thesis
  proof (cases "f \<in> mv_to ` set (moves c)")
    case True
    then have fI: "f \<in> ?I" using in_DI by auto
    let ?c2 = "c\<lparr>insertions := ins, moves := ?mvs\<rparr>"
    have "succeeds (for_each_col (move_col dbg f t) ?c2)
        (\<lambda>c'. describes dbg c' xs (move_list f t ys) \<and> move_mapping c' = [])"
    proof (rule step)
      show "idx (deletions ?c2) = comp_del ?D ?I {f}" using fI by (simp add: comp_del_del)
      show "idx (insertions ?c2) = comp_ins ?I {f} {t}" using True 1(3) by (simp add: comp_ins_move)
      show "moves_ok ?c2" using mvs' mm by (simp add: moves_ok_def)
      fix a b assume "(a, b) \<in> move_pairs ?c2"
      then show "\<exists>j. (a, j) \<in> move_pairs c \<and> (corr {f} {t} j b \<or> (j, b) \<in> {(f, t)})
          \<or> corr ?D ?I a j \<and> (j, b) \<in> {(f, t)}" using mm by (intro old_mv) (simp add: move_pairs_def)
    qed (use 1(2) ok mm in \<open>simp_all add: cb_ok_def\<close>)
    then show ?thesis using ne True 1(1) by (simp add: cb_move_def)
  next
    case False
    then have ins: "idx ins = ?I" using 1(3) by simp
    have "crv_ok dbg (deletions c)" using cb_okD [OF ok] by simp
    then obtain ins1 sh del where
      2: "erase_or_unshift dbg ins f = Some (ins1, sh)" "crv_ok dbg ins1" "idx ins1 = close_gap f ?I"
        "sh = npos \<longleftrightarrow> f \<in> ?I"
        "sh \<noteq> npos \<longrightarrow> add_shifted dbg (deletions c) sh = Some (del, shift_of ?D (unshift_of ?I f))"
        "sh \<noteq> npos \<longrightarrow> crv_ok dbg del \<and> idx del = comp_del ?D ?I {f}"
      by (rule erase_add_shifted_ok [OF _ 1(2) f n, unfolded ins])
    from insert_at_succ [OF 2(2), of 1 t] obtain ins2 where
      3: "insert_at dbg ins1 t 1 = Some ins2" "crv_ok dbg ins2" "idx ins2 = comp_ins ?I {f} {t}"
      by (auto simp: 2(3) comp_ins_move move_set_def elim!: succeedsE)
    show ?thesis
    proof (cases "f \<in> ?I")
      case True
      let ?c2 = "c\<lparr>moves := ?mvs, insertions := ins2\<rparr>"
      have "succeeds (for_each_col (move_col dbg f t) ?c2)
          (\<lambda>c'. describes dbg c' xs (move_list f t ys) \<and> move_mapping c' = [])"
      proof (rule step)
        show "idx (deletions ?c2) = comp_del ?D ?I {f}" using True by (simp add: comp_del_del)
        show "idx (insertions ?c2) = comp_ins ?I {f} {t}" using 3(3) by simp
        show "moves_ok ?c2" using mvs' mm by (simp add: moves_ok_def)
        fix a b assume "(a, b) \<in> move_pairs ?c2"
        then show "\<exists>j. (a, j) \<in> move_pairs c \<and> (corr {f} {t} j b \<or> (j, b) \<in> {(f, t)})
            \<or> corr ?D ?I a j \<and> (j, b) \<in> {(f, t)}" using mm by (intro old_mv) (simp add: move_pairs_def)
      qed (use 3(2) ok mm in \<open>simp_all add: cb_ok_def\<close>)
      then show ?thesis using ne False True 1(1) 2(1,4) 3(1) by (simp add: cb_move_def Let_def)
    next
      case fI: False
      let ?v = "shift_of ?D (unshift_of ?I f)"
      let ?c2 = "c\<lparr>insertions := ins2, deletions := del, moves := ?mvs @ [\<lparr>mv_from = ?v, mv_to = t\<rparr>]\<rparr>"
      have v: "?v \<notin> ?D" "corr ?D ?I ?v f" using shift_of_props [OF idx_finite] fI by (auto simp: corr_def)
      have "succeeds (for_each_col (move_col dbg f t) ?c2)
          (\<lambda>c'. describes dbg c' xs (move_list f t ys) \<and> move_mapping c' = [])"
      proof (rule step)
        show "idx (deletions ?c2) = comp_del ?D ?I {f}" using 2(4,6) fI by simp
        show "idx (insertions ?c2) = comp_ins ?I {f} {t}" using 3(3) by simp
        have tos: "mv_to ` set ?mvs = move_to f t ` mv_to ` set (moves c)" by (simp add: image_image)
        have "t \<notin> mv_to ` set ?mvs"
        proof
          assume "t \<in> mv_to ` set ?mvs"
          then obtain m where "m \<in> set (moves c)" "t = move_to f t (mv_to m)" unfolding tos by blast
          moreover have "move_to f t f = t" by (simp add: move_to_def)
          ultimately have "mv_to m = f" using move_to_inj by metis
          then show False using False \<open>m \<in> set (moves c)\<close> by blast
        qed
        moreover have "?v \<notin> mv_from ` set ?mvs" using v(1) in_DI by auto
        ultimately show "moves_ok ?c2" using mvs' mm by (simp add: moves_ok_def image_image)
        fix a b assume "(a, b) \<in> move_pairs ?c2"
        then consider "(a, b) \<in> (\<lambda>m. (mv_from m, mv_to m)) ` set ?mvs" | "(a, b) = (?v, t)"
          using mm by (auto simp: move_pairs_def)
        then show "\<exists>j. (a, j) \<in> move_pairs c \<and> (corr {f} {t} j b \<or> (j, b) \<in> {(f, t)})
            \<or> corr ?D ?I a j \<and> (j, b) \<in> {(f, t)}"
          by cases (use old_mv v(2) in blast)+
      qed (use 3(2) 2(4,6) fI ok mm in \<open>auto simp: cb_ok_def\<close>)
      then show ?thesis using ne False fI 1(1) 2(1,4,5) 3(1) by (simp add: cb_move_def Let_def)
    qed
  qed
qed

end
