(* ===== verification/Change_Builder_Rows.thy ===== *)
theory Change_Builder_Rows
  imports Change_Builder_Ops
begin

section \<open>CollectionChangeBuilder: operations with row semantics\<close>

text \<open>
  \<open>move_over\<close>, \<open>swap\<close> and \<open>parse_complete\<close>: deleting a row of a table moves the last row into its
  place, and the moves are kept in \<open>m_move_mapping\<close> until the whole transaction log is parsed.
\<close>

subsection \<open>The move mapping\<close>

lemma distinct_snd_iff:
  "distinct (map fst al) \<Longrightarrow>
   distinct (map snd al) \<longleftrightarrow> (\<forall>k k' v. map_of al k = Some v \<and> map_of al k' = Some v \<longrightarrow> k = k')"
proof (induction al)
  case (Cons p al)
  obtain k v where p: "p = (k, v)" by (cases p)
  have k: "map_of al k = None" using Cons.prems by (simp add: p map_of_eq_None_iff)
  have v: "v \<in> snd ` set al \<longleftrightarrow> (\<exists>k'. map_of al k' = Some v)"
    using Cons.prems by (auto simp: p) (metis map_of_SomeD snd_conv imageI)+
  show ?case
  proof
    assume *: "distinct (map snd (p # al))"
    then have "\<forall>k k' v. map_of al k = Some v \<and> map_of al k' = Some v \<longrightarrow> k = k'"
      using Cons by (simp add: p)
    moreover have "\<forall>k'. map_of al k' \<noteq> Some v" using * v by (simp add: p)
    ultimately show "\<forall>k k' v. map_of (p # al) k = Some v \<and> map_of (p # al) k' = Some v \<longrightarrow> k = k'"
      using k by (auto simp: p)
  next
    assume *: "\<forall>k k' v. map_of (p # al) k = Some v \<and> map_of (p # al) k' = Some v \<longrightarrow> k = k'"
    have "\<forall>k k' v. map_of al k = Some v \<and> map_of al k' = Some v \<longrightarrow> k = k'"
    proof (intro allI impI)
      fix a b w assume ab: "map_of al a = Some w \<and> map_of al b = Some w"
      then have "a \<noteq> k" "b \<noteq> k" using k by auto
      then show "a = b" using * [rule_format, of a w b] ab by (simp add: p)
    qed
    moreover have "map_of al k' \<noteq> Some v" for k'
    proof
      assume a: "map_of al k' = Some v"
      then have "k' \<noteq> k" using k by auto
      then show False using * [rule_format, of k v k'] a by (simp add: p)
    qed
    ultimately show "distinct (map snd (p # al))" using Cons v by (simp add: p)
  qed
qed simp

definition mapping_ok :: "(size_t \<times> size_t) list \<Rightarrow> bool" where
  "mapping_ok al \<longleftrightarrow> distinct (map fst al) \<and> (\<forall>k k' v. map_of al k = Some v \<and> map_of al k' = Some v \<longrightarrow> k = k')"

lemma moves_ok_mapping: "moves c = [] \<Longrightarrow> moves_ok c \<longleftrightarrow> mapping_ok (move_mapping c)"
  using distinct_snd_iff [of "move_mapping c"]
  by (simp only: moves_ok_def mapping_ok_def list.map distinct.simps simp_thms) blast

lemma move_pairs_mapping:
  "moves c = [] \<Longrightarrow> mapping_ok (move_mapping c) \<Longrightarrow>
   (f, t) \<in> move_pairs c \<longleftrightarrow> map_of (move_mapping c) t = Some f"
  by (auto simp: move_pairs_def mapping_ok_def)

lemma map_of_update: "map_of (AList.update k v al) = (map_of al)(k \<mapsto> v)"
  by (simp add: update_conv')

lemma map_of_delete: "map_of (AList.delete k al) = (map_of al)(k := None)"
  by (simp add: delete_conv')

lemmas map_of_alist = map_of_update map_of_delete

lemma mapping_ok_delete: "mapping_ok al \<Longrightarrow> mapping_ok (AList.delete k al)"
  by (auto simp: mapping_ok_def map_of_alist distinct_delete split: if_splits)

lemma mapping_ok_update:
  "mapping_ok al \<Longrightarrow> (\<forall>k'. k' \<noteq> k \<longrightarrow> map_of al k' \<noteq> Some v) \<Longrightarrow> mapping_ok (AList.update k v al)"
  by (auto simp: mapping_ok_def map_of_alist distinct_update split: if_splits)

subsection \<open>Positions\<close>

lemma last_end_ok:
  assumes ok: "crv_ok dbg cs" and ne: "cs \<noteq> []"
  shows "0 < last_end cs \<and> last_end cs - 1 \<in> idx cs \<and> (\<forall>i\<in>idx cs. i < last_end cs)"
proof -
  have wf: "crv_wf dbg cs" and rl: "rl_ok (ranges cs)" using crv_okD [OF ok] by auto
  have "ranges cs \<noteq> []" using ranges_eq_Nil [OF wf] ne by simp
  then obtain A r where rs: "ranges cs = A @ [r]" by (cases "ranges cs" rule: rev_cases) auto
  have "at_it cs (end_it cs) (A @ [r]) []" by (simp add: at_it_Nil rs)
  then have "at_it cs (prev_it cs (end_it cs)) A [r]" by (rule at_prev [OF wf])
  then have le: "last_end cs = snd r" by (simp add: last_end_def at_it_range)
  have r: "fst r < snd r" "\<forall>q\<in>set (A @ [r]). snd q \<le> snd r"
    using rl rl_ok_last [of A r] by (auto simp: rs)
  have "i < snd r" if "i \<in> idx cs" for i
    using that set_of_before r(2) unfolding idx_def rs by blast
  then show ?thesis using r(1) by (auto simp: le idx_def rs)
qed

lemma shift_of_insert_above:
  assumes "finite D" "n < m"
  shows "shift_of (insert (shift_of D m) D) n = shift_of D n"
proof (rule shift_ofI)
  note p = shift_of_props [OF assms(1), of n]
  have lt: "shift_of D n < shift_of D m" using assms by simp
  then show "shift_of D n \<notin> insert (shift_of D m) D" using p(1) by auto
  have "insert (shift_of D m) D \<inter> {..<shift_of D n} = D \<inter> {..<shift_of D n}" using lt by auto
  then show "unshift_of (insert (shift_of D m) D) (shift_of D n) = n" using p(2) by (simp add: unshift_of_def)
qed

lemma unshift_of_cong: "S \<inter> {..<i} = T \<inter> {..<i} \<Longrightarrow> unshift_of S i = unshift_of T i"
  by (simp add: unshift_of_def)

lemma comp_del_two:
  assumes "finite D" "finite I" "a < b"
  shows "comp_del (comp_del D I {b}) (insert b I) {a} = comp_del D I {a, b}"
    and "comp_del (comp_del D I {b}) (I - {b}) {a} = comp_del D I {a, b}"
proof -
  have u: "unshift_of (insert b I) a = unshift_of I a" "unshift_of (I - {b}) a = unshift_of I a"
    using assms(3) by (auto intro!: unshift_of_cong)
  have pair: "comp_del D I {a, b} = D \<union> (if a \<in> I then {} else {shift_of D (unshift_of I a)})
      \<union> (if b \<in> I then {} else {shift_of D (unshift_of I b)})"
    by (auto simp: comp_del_def shifted_values_def)
  have s: "shift_of (comp_del D I {b}) (unshift_of I a) = shift_of D (unshift_of I a)" if "a \<notin> I"
    using shift_of_insert_above [OF assms(1) unshift_of_less [OF that assms(3)]] by (simp add: comp_del_del)
  show "comp_del (comp_del D I {b}) (insert b I) {a} = comp_del D I {a, b}"
    using assms(3) s u by (cases "a \<in> I") (auto simp: pair comp_del_del [of _ "insert b I"] comp_del_del [of D I])
  show "comp_del (comp_del D I {b}) (I - {b}) {a} = comp_del D I {a, b}"
    using assms(3) s u by (cases "a \<in> I") (auto simp: pair comp_del_del [of _ "I - {b}"] comp_del_del [of D I])
qed

subsection \<open>swap\<close>

lemma record_move_ok:
  assumes "crv_ok dbg (deletions c)" "crv_ok dbg (insertions c)"
  obtains c' where "record_move dbg c src dst = Some c'" "crv_ok dbg (deletions c')" "crv_ok dbg (insertions c')"
    "idx (insertions c') = insert src (idx (insertions c))"
    "idx (deletions c') = comp_del (idx (deletions c)) (idx (insertions c)) {src}"
    "move_mapping c' = (if src \<in> idx (insertions c) then move_mapping c
       else AList.update dst (shift_of (idx (deletions c)) (unshift_of (idx (insertions c)) src)) (move_mapping c))"
    "modifications c' = modifications c" "columns c' = columns c" "moves c' = moves c"
    "track_columns c' = track_columns c"
proof (cases "src \<in> idx (insertions c)")
  case True
  then show ?thesis using assms contains_ok [OF assms(2), of src]
    by (intro that [of c]) (auto simp: record_move_def comp_del_del)
next
  case False
  let ?n = "unshift_of (idx (insertions c)) src"
  have 1: "unshift dbg (insertions c) src = Some ?n" using unshift_ok [OF assms(2)] False by simp
  from add_shifted_succ [OF assms(1), of ?n] obtain del where
    2: "add_shifted dbg (deletions c) ?n = Some (del, shift_of (idx (deletions c)) ?n)" "crv_ok dbg del"
      "idx del = insert (shift_of (idx (deletions c)) ?n) (idx (deletions c))" by (auto elim: succeedsE)
  from add_succ [OF assms(2), of src] obtain ins where
    3: "add dbg (insertions c) src = Some ins" "crv_ok dbg ins" "idx ins = insert src (idx (insertions c))"
    by (auto elim: succeedsE)
  show ?thesis using False contains_ok [OF assms(2), of src] 1 2 3
    by (intro that [of "c\<lparr>deletions := del, insertions := ins,
        move_mapping := AList.update dst (shift_of (idx (deletions c)) ?n) (move_mapping c)\<rparr>"])
      (auto simp: record_move_def comp_del_del)
qed

definition swap_set :: "size_t \<Rightarrow> size_t \<Rightarrow> size_t set \<Rightarrow> size_t set" where
  "swap_set a b S = (S - {a, b}) \<union> (if a \<in> S then {b} else {}) \<union> (if b \<in> S then {a} else {})"

lemma Diff_at: "S - {i..<i + Suc 0} = S - {i :: nat}"
  by auto

lemma remove1_succ:
  "crv_ok dbg cs \<Longrightarrow> succeeds (remove dbg cs i 1) (\<lambda>cs'. crv_ok dbg cs' \<and> idx cs' = idx cs - {i})"
  using remove_succ [of dbg cs 1 i] Diff_at by simp

lemma remove_add_succ:
  assumes "crv_ok dbg cs"
  shows "succeeds (remove dbg cs i 1 \<bind> (\<lambda>col. add dbg col j))
    (\<lambda>cs'. crv_ok dbg cs' \<and> idx cs' = insert j (idx cs - {i}))"
proof -
  from remove1_succ [OF assms, of i] obtain cs1 where
    "remove dbg cs i 1 = Some cs1" "crv_ok dbg cs1" "idx cs1 = idx cs - {i}" by (auto elim: succeedsE)
  with add_succ [of dbg cs1 j] show ?thesis by simp
qed

interpretation swap_col_op: col_op dbg "swap_col dbg a b" "swap_set a b" for dbg a b
proof
  fix cs assume ok: "crv_ok dbg cs"
  show "succeeds (swap_col dbg a b cs) (\<lambda>cs'. crv_ok dbg cs' \<and> idx cs' = swap_set a b (idx cs))"
    using ok contains_ok [OF ok] remove_add_succ [OF ok, of a b] remove_add_succ [OF ok, of b a]
    by (auto simp: swap_col_def swap_set_def elim!: succeeds_mono)
next
  show "swap_set a b S \<subseteq> swap_set a b T" if "S \<subseteq> T" for S T
    using that by (auto simp: swap_set_def)
qed

lemma comp_ins_swap: "comp_ins I {a, b} {a, b} = I \<union> {a, b}"
  by (auto simp: comp_ins_set corr_swap)

lemma comp_del_mem:
  "a \<in> I \<Longrightarrow> comp_del D I {b} = comp_del D I {a, b}" "b \<in> I \<Longrightarrow> comp_del D I {a} = comp_del D I {a, b}"
  "a \<in> I \<Longrightarrow> b \<in> I \<Longrightarrow> D = comp_del D I {a, b}"
  by (auto simp: comp_del_def shifted_values_def)

lemma cb_swap_ok:
  assumes d: "describes dbg c xs ys" and ab: "a < length ys" "b < length ys" "a \<noteq> b"
    and mv: "moves c = []"
  shows "succeeds (cb_swap dbg c a b True) (\<lambda>c'. describes dbg c' xs (swap_list a b ys) \<and> moves c' = []
    \<and> keeps_place c c' (length ys))"
  using ab
proof (induction a b rule: linorder_wlog)
  case (sym a b)
  have "swap_list b a ys = swap_list a b ys" using sym.prems
    by (auto simp: swap_list_def list_update_swap)
  moreover have "cb_swap dbg c b a True = cb_swap dbg c a b True"
    using sym.prems by (auto simp: cb_swap_def)
  ultimately show ?case using sym by auto
next
  case (le a b)
  then have ab: "a < b" and b: "b < length ys" by auto
  let ?D = "idx (deletions c)" and ?I = "idx (insertions c)" and ?m = "map_of (move_mapping c)"
  have ok: "cb_ok dbg c" and mo: "mapping_ok (move_mapping c)"
    using d mv by (auto simp: describes_def moves_ok_mapping)
  have fit: "fits ?D ?I (move_pairs c) (length xs) (length ys)" using d by (simp add: describes_def tracks_def)
  have in_DI: "v \<in> ?D \<and> k \<in> ?I" if "?m k = Some v" for k v
    using fit that move_pairs_mapping [OF mv mo, of v k] by (auto simp: fits_def)
  have inj: "k = k'" if "?m k = Some v" "?m k' = Some v" for k k' v
    using mo that unfolding mapping_ok_def by blast
  have "a < length ys" "b < length ys" "a \<noteq> b" using ab b by auto
  note u = unchanged_swap [OF this]
  from swap_col_op.for_each_col_ok [OF ok, of a b] obtain c1 where
    1: "for_each_col (swap_col dbg a b) c = Some c1" "cb_ok dbg c1"
      "idx (modifications c1) = swap_set a b (idx (modifications c))" "same_moves c c1" by (auto elim: succeedsE)
  have crv: "crv_ok dbg (deletions c1)" "crv_ok dbg (insertions c1)" using cb_okD [OF 1(2)] by auto
  have finish: "describes dbg c' xs (swap_list a b ys) \<and> moves c' = [] \<and> keeps_place c c' (length ys)"
    if c': "crv_ok dbg (deletions c')" "crv_ok dbg (insertions c')" "modifications c' = modifications c1"
      "columns c' = columns c1" "moves c' = []" "track_columns c' = track_columns c1"
      "idx (deletions c') = comp_del ?D ?I {a, b}" "idx (insertions c') = ?I \<union> {a, b}"
      "mapping_ok (move_mapping c')"
      and P: "\<And>k v. map_of (move_mapping c') k = Some v \<Longrightarrow>
        (k \<notin> {a, b} \<and> ?m k = Some v) \<or> (k = a \<and> (?m b = Some v \<or> corr ?D ?I v b))
        \<or> (k = b \<and> (?m a = Some v \<or> corr ?D ?I v a))" for c'
  proof (intro conjI)
    show "keeps_place c c' (length ys)"
      by (rule keeps_placeI [where D = "{a, b}" and I = "{a, b}"])
        (use c'(7,8) in \<open>simp_all add: comp_ins_swap corr_swap\<close>)
    show "describes dbg c' xs (swap_list a b ys)"
    proof (rule describes_step [OF d unchanged_tracks [OF u] same_weaken [OF conjunct2 [OF u], where M = "{}"]])
      show "cb_ok dbg c'" using 1(2) c'(1-6) by (simp add: cb_ok_def)
      show "moves_ok c'" using c'(5,9) by (simp add: moves_ok_mapping)
      show "idx (insertions c') = comp_ins ?I {a, b} {a, b}" using c'(8) by (simp add: comp_ins_swap)
      show "idx (modifications c') \<subseteq> {..<length (swap_list a b ys)}"
        using d ab b by (auto simp: c'(3) 1(3) swap_set_def describes_def swap_list_def split: if_splits)
      show "k \<in> idx (modifications c')"
        if "corr {a, b} {a, b} j k \<or> (j, k) \<in> {(a, b), (b, a)}" "j \<in> idx (modifications c)" for j k
        using that by (auto simp: c'(3) 1(3) swap_set_def corr_swap)
      fix f t assume "(f, t) \<in> move_pairs c'"
      then have "map_of (move_mapping c') t = Some f" using move_pairs_mapping c'(5,9) by blast
      from P [OF this] show "\<exists>j. (f, j) \<in> move_pairs c \<and> (corr {a, b} {a, b} j t \<or> (j, t) \<in> {(a, b), (b, a)})
          \<or> corr ?D ?I f j \<and> (j, t) \<in> {(a, b), (b, a)}"
        using move_pairs_mapping [OF mv mo] by (fastforce simp: corr_swap)
    qed (use c'(7) in auto)
  qed (rule c'(5))
  have corr_v: "corr ?D ?I (shift_of ?D (unshift_of ?I j)) j" "shift_of ?D (unshift_of ?I j) \<notin> ?D"
    if "j \<notin> ?I" for j using shift_of_props [OF idx_finite] that by (auto simp: corr_def)
  have new: "?m k \<noteq> Some (shift_of ?D (unshift_of ?I j))" if "j \<notin> ?I" for j k
    using in_DI corr_v(2) [OF that] by blast
  have ne_ab: "shift_of ?D (unshift_of ?I a) \<noteq> shift_of ?D (unshift_of ?I b)" if "a \<notin> ?I" "b \<notin> ?I"
    using unshift_of_less [OF that(1) ab] by simp
  have upd: "succeeds (update_move dbg c1 old p q) (\<lambda>c'. describes dbg c' xs (swap_list a b ys) \<and> moves c' = []
    \<and> keeps_place c c' (length ys))"
    if pq: "{p, q} = {a, b}" "p \<noteq> q" "?m q = Some old" "?m p = None" for p q old
  proof -
    let ?c2 = "c1\<lparr>move_mapping := AList.update p old (AList.delete q (move_mapping c1))\<rparr>"
    have qI: "q \<in> ?I" and old: "old \<in> ?D" using in_DI [OF pq(3)] by auto
    have crv2: "crv_ok dbg (deletions ?c2)" "crv_ok dbg (insertions ?c2)" using crv by auto
    obtain c3 where c3: "record_move dbg ?c2 p q = Some c3" "crv_ok dbg (deletions c3)" "crv_ok dbg (insertions c3)"
      "idx (insertions c3) = insert p ?I" "idx (deletions c3) = comp_del ?D ?I {p}"
      "move_mapping c3 = (if p \<in> ?I then move_mapping ?c2
         else AList.update q (shift_of ?D (unshift_of ?I p)) (move_mapping ?c2))"
      "modifications c3 = modifications c1" "columns c3 = columns c1" "moves c3 = []"
      "track_columns c3 = track_columns c1"
      by (rule record_move_ok [OF crv2, of p q]) (use 1(4) mv in simp_all)
    have mok2: "mapping_ok (AList.update p old (AList.delete q (move_mapping c)))"
      using inj pq(3) by (intro mapping_ok_update mapping_ok_delete mo) (auto simp: map_of_alist)
    have mok: "mapping_ok (move_mapping c3)"
      unfolding c3(6) using mok2 1(4) new [of p] old corr_v(2) [of p] pq(2)
      by (auto intro!: mapping_ok_update simp: map_of_alist split: if_splits)
    have "q \<in> idx (insertions c3)" using c3(4) qI by simp
    then have run: "update_move dbg c1 old p q = Some c3"
      using c3(1) contains_ok [OF c3(3), of q] by (simp add: update_move_def)
    have I: "insert p ?I = ?I \<union> {a, b}" using qI pq(1) by auto
    have D: "comp_del ?D ?I {p} = comp_del ?D ?I {a, b}"
      using qI by (auto simp: comp_del_def shifted_values_def pq(1) [symmetric])
    have "describes dbg c3 xs (swap_list a b ys) \<and> moves c3 = [] \<and> keeps_place c c3 (length ys)"
    proof (rule finish [OF c3(2,3,7,8,9,10) _ _ mok])
      fix k v assume kv: "map_of (move_mapping c3) k = Some v"
      have m3: "map_of (move_mapping c3) = (if p \<in> ?I then (?m(q := None))(p \<mapsto> old)
          else (?m(q := None))(p \<mapsto> old, q \<mapsto> shift_of ?D (unshift_of ?I p)))"
        using 1(4) by (simp add: c3(6) map_of_alist)
      have "a = p \<and> b = q \<or> a = q \<and> b = p" using pq(1,2) by (auto simp: doubleton_eq_iff)
      then show "(k \<notin> {a, b} \<and> ?m k = Some v) \<or> (k = a \<and> (?m b = Some v \<or> corr ?D ?I v b))
          \<or> (k = b \<and> (?m a = Some v \<or> corr ?D ?I v a))"
        using kv pq(2,3) corr_v(1) [of p] unfolding m3 by (auto split: if_splits)
    qed (use c3(4,5) I D in auto)
    then show ?thesis using run by simp
  qed
  have "succeeds (case (?m a, ?m b) of
           (Some old_1, Some old_2) \<Rightarrow>
             Some (c1\<lparr>move_mapping := AList.update a old_2 (AList.update b old_1 (move_mapping c1))\<rparr>)
         | (Some old_1, None) \<Rightarrow> update_move dbg c1 old_1 b a
         | (None, Some old_2) \<Rightarrow> update_move dbg c1 old_2 a b
         | (None, None) \<Rightarrow> do { c \<leftarrow> record_move dbg c1 b a; record_move dbg c a b })
      (\<lambda>c'. describes dbg c' xs (swap_list a b ys) \<and> moves c' = []
    \<and> keeps_place c c' (length ys))"
  proof (cases "?m a"; cases "?m b")
    fix v assume m: "?m a = None" "?m b = Some v"
    show ?thesis using upd [of a b v] m ab by simp
  next
    fix v assume m: "?m a = Some v" "?m b = None"
    show ?thesis using upd [of b a v] m ab by (auto simp: insert_commute)
  next
    fix v w assume m: "?m a = Some v" "?m b = Some w"
    have I: "a \<in> ?I" "b \<in> ?I" using in_DI m by auto
    let ?c2 = "c1\<lparr>move_mapping := AList.update a w (AList.update b v (move_mapping c1))\<rparr>"
    have vw: "v \<noteq> w" using inj [of a v b] m ab by auto
    have dist: "distinct (map fst (move_mapping ?c2))"
      using mo 1(4) by (simp add: mapping_ok_def distinct_update)
    have m2: "map_of (move_mapping ?c2) = ?m(b \<mapsto> v, a \<mapsto> w)" using 1(4) by (simp add: map_of_alist)
    let ?sw = "\<lambda>k. if k = a then b else if k = b then a else k"
    have sw: "(?m(b \<mapsto> v, a \<mapsto> w)) k = ?m (?sw k)" for k using m by simp
    have "k = k'" if kz: "(?m(b \<mapsto> v, a \<mapsto> w)) k = Some z" "(?m(b \<mapsto> v, a \<mapsto> w)) k' = Some z" for k k' z
    proof -
      have "?sw k = ?sw k'" using inj kz unfolding sw by blast
      then show ?thesis by (simp split: if_splits)
    qed
    then have "mapping_ok (move_mapping ?c2)" unfolding mapping_ok_def m2 using dist by blast
    have D: "idx (deletions c1) = comp_del ?D ?I {a, b}"
      using 1(4) comp_del_mem(3) [OF I, of ?D] by simp
    have "describes dbg ?c2 xs (swap_list a b ys) \<and> moves ?c2 = [] \<and> keeps_place c ?c2 (length ys)"
    proof (rule finish [OF _ _ _ _ _ _ _ _ \<open>mapping_ok (move_mapping ?c2)\<close>])
      fix k z assume "map_of (move_mapping ?c2) k = Some z"
      then have "(?m(b \<mapsto> v, a \<mapsto> w)) k = Some z" by (simp only: m2)
      then show "(k \<notin> {a, b} \<and> ?m k = Some z) \<or> (k = a \<and> (?m b = Some z \<or> corr ?D ?I z b))
          \<or> (k = b \<and> (?m a = Some z \<or> corr ?D ?I z a))"
        using m ab by (cases "k = a"; cases "k = b") simp_all
    qed (use crv 1(4) mv I D in auto)
    then show ?thesis using m by simp
  next
    assume m: "?m a = None" "?m b = None"
    obtain c2 where c2: "record_move dbg c1 b a = Some c2" "crv_ok dbg (deletions c2)" "crv_ok dbg (insertions c2)"
      "idx (insertions c2) = insert b ?I" "idx (deletions c2) = comp_del ?D ?I {b}"
      "move_mapping c2 = (if b \<in> ?I then move_mapping c
         else AList.update a (shift_of ?D (unshift_of ?I b)) (move_mapping c))"
      "modifications c2 = modifications c1" "columns c2 = columns c1" "moves c2 = []"
      "track_columns c2 = track_columns c1"
      by (rule record_move_ok [OF crv, of b a]) (use 1(4) mv in simp_all)
    have ua: "unshift_of (insert b ?I) a = unshift_of ?I a" using ab by (intro unshift_of_cong) auto
    have sa: "shift_of (comp_del ?D ?I {b}) (unshift_of ?I a) = shift_of ?D (unshift_of ?I a)" if "a \<notin> ?I"
      using shift_of_insert_above [OF idx_finite unshift_of_less [OF that ab]] by (simp add: comp_del_del)
    obtain c3 where c3: "record_move dbg c2 a b = Some c3" "crv_ok dbg (deletions c3)" "crv_ok dbg (insertions c3)"
      "idx (insertions c3) = ?I \<union> {a, b}" "idx (deletions c3) = comp_del ?D ?I {a, b}"
      "move_mapping c3 = (if a \<in> ?I then move_mapping c2
         else AList.update b (shift_of ?D (unshift_of ?I a)) (move_mapping c2))"
      "modifications c3 = modifications c1" "columns c3 = columns c1" "moves c3 = []"
      "track_columns c3 = track_columns c1"
      by (rule record_move_ok [OF c2(2,3), of a b])
        (use c2 ua sa ab comp_del_two(1) [OF idx_finite idx_finite ab] in \<open>auto simp: insert_commute\<close>)
    have m3: "map_of (move_mapping c3) k = (if k = a then if b \<in> ?I then None else Some (shift_of ?D (unshift_of ?I b))
        else if k = b then if a \<in> ?I then None else Some (shift_of ?D (unshift_of ?I a)) else ?m k)" for k
      using m ab by (simp add: c3(6) c2(6) map_of_alist)
    have dist: "distinct (map fst (move_mapping c3))"
      using mo by (simp add: c3(6) c2(6) mapping_ok_def distinct_update)
    have "mapping_ok (move_mapping c3)"
      unfolding mapping_ok_def m3 using dist mo new ne_ab
      by (auto simp: mapping_ok_def split: if_splits)
    have "describes dbg c3 xs (swap_list a b ys) \<and> moves c3 = [] \<and> keeps_place c c3 (length ys)"
    proof (rule finish [OF c3(2,3,7,8,9,10,5,4) \<open>mapping_ok (move_mapping c3)\<close>])
      show "(k \<notin> {a, b} \<and> ?m k = Some z) \<or> (k = a \<and> (?m b = Some z \<or> corr ?D ?I z b))
          \<or> (k = b \<and> (?m a = Some z \<or> corr ?D ?I z a))"
        if "map_of (move_mapping c3) k = Some z" for k z
        using that corr_v(1) unfolding m3 by (auto split: if_splits)
    qed
    then show ?thesis using m c2(1) c3(1) by simp
  qed
  then show ?case using ab 1(1,4) by (simp add: cb_swap_def cong: option.case_cong)
qed

subsection \<open>move_over\<close>

definition over_set :: "size_t \<Rightarrow> size_t \<Rightarrow> size_t set \<Rightarrow> size_t set" where
  "over_set r l S = (if l \<in> S then insert r (S - {l}) else S - {r})"

interpretation over_col_op: set_op dbg "move_over_col dbg r l" "over_set r l" for dbg r l
proof
  fix cs assume ok: "crv_ok dbg cs"
  show "succeeds (move_over_col dbg r l cs) (\<lambda>cs'. crv_ok dbg cs' \<and> idx cs' = over_set r l (idx cs))"
    using contains_ok [OF ok] remove_add_succ [OF ok, of l r] remove1_succ [OF ok, of r]
    by (auto simp: move_over_col_def over_set_def elim!: succeeds_mono)
qed

interpretation over_col: col_op dbg "move_over_col dbg r l" "over_set r l" for dbg r l
  by unfold_locales (auto simp: over_set_def)

lemma close_gap_last: "S \<subseteq> {..<Suc l} \<Longrightarrow> close_gap l S = S - {l}"
  by (fastforce simp: close_gap_def)

text \<open>The guards at the head of \<open>move_over\<close> hold, and tell whether the last row is an insertion.\<close>

lemma last_end_bound:
  assumes ok: "crv_ok dbg cs" and sub: "idx cs \<subseteq> {..<Suc l}"
  shows "cs = [] \<or> last_end cs - 1 \<le> l" "cs = [] \<or> last_end cs \<le> Suc l"
    "cs \<noteq> [] \<and> last_end cs = Suc l \<longleftrightarrow> l \<in> idx cs"
proof -
  show 1: "cs = [] \<or> last_end cs - 1 \<le> l" and 2: "cs = [] \<or> last_end cs \<le> Suc l"
    using last_end_ok [OF ok] sub by fastforce+
  show "cs \<noteq> [] \<and> last_end cs = Suc l \<longleftrightarrow> l \<in> idx cs"
  proof (cases "cs = []")
    case False
    then show ?thesis using last_end_ok [OF ok False] 2 by (metis Suc_leI diff_Suc_1 le_antisym lessThan_iff subsetD)
  qed simp
qed

lemma cb_move_over_last_ok:
  assumes d: "describes dbg c xs ys" and l: "length ys = Suc l" "length ys \<le> npos" and mv: "moves c = []"
  shows "succeeds (cb_move_over dbg c l l True) (\<lambda>c'. describes dbg c' xs (del_list l ys) \<and> moves c' = []
    \<and> keeps_place c c' l)"
proof -
  let ?D = "idx (deletions c)" and ?I = "idx (insertions c)" and ?M = "idx (modifications c)"
  have ok: "cb_ok dbg c" and mo: "mapping_ok (move_mapping c)"
    using d mv by (auto simp: describes_def moves_ok_mapping)
  have fit: "fits ?D ?I (move_pairs c) (length xs) (length ys)" using d by (simp add: describes_def tracks_def)
  have I: "?I \<subseteq> {..<Suc l}" and M: "?M \<subseteq> {..<Suc l}" using fit d l(1) by (auto simp: fits_def describes_def)
  have in_I: "k \<in> ?I" if "map_of (move_mapping c) k = Some v" for k v
    using fit that move_pairs_mapping [OF mv mo, of v k] by (auto simp: fits_def)
  have ll: "l < length ys" using l by simp
  note u = unchanged_del [OF ll]
  have crv: "crv_ok dbg (deletions c)" "crv_ok dbg (insertions c)" "crv_ok dbg (modifications c)"
    using cb_okD [OF ok] by auto
  obtain ins sh del where
    1: "erase_or_unshift dbg (insertions c) l = Some (ins, sh)" "crv_ok dbg ins" "idx ins = close_gap l ?I"
      "sh = npos \<longleftrightarrow> l \<in> ?I"
      "sh \<noteq> npos \<longrightarrow> add_shifted dbg (deletions c) sh = Some (del, shift_of ?D (unshift_of ?I l))"
      "sh \<noteq> npos \<longrightarrow> crv_ok dbg del \<and> idx del = comp_del ?D ?I {l}"
    by (rule erase_add_shifted_ok [OF crv(1,2) ll l(2)])
  let ?c1 = "c\<lparr>insertions := ins, deletions := if sh \<noteq> npos then del else deletions c,
    move_mapping := AList.delete l (move_mapping c)\<rparr>"
  have ok1: "cb_ok dbg ?c1" using ok 1(2,6) by (auto simp: cb_ok_def)
  have run: "cb_move_over dbg c l l True = for_each_col (\<lambda>col. remove dbg col l 1) ?c1"
    using last_end_bound [OF crv(2) I] last_end_bound [OF crv(3) M] 1(1,5)
    by (cases "sh = npos") (simp_all add: cb_move_over_def)
  have "succeeds (for_each_col (\<lambda>col. remove dbg col l 1) ?c1)
      (\<lambda>c'. describes dbg c' xs (del_list l ys) \<and> moves c' = []
    \<and> keeps_place c c' l)"
  proof (rule succeeds_mono [OF remove_col.for_each_col_ok [OF ok1, of l 0, folded One_nat_def]])
    fix c' assume c': "cb_ok dbg c' \<and> idx (modifications c') = idx (modifications ?c1) - {l..<l + 1} \<and> same_moves ?c1 c'"
    have mok: "mapping_ok (move_mapping c')" using c' mapping_ok_delete [OF mo] by simp
    have mv': "moves c' = []" using c' mv by simp
    have "describes dbg c' xs (del_list l ys)"
    proof (rule describes_step [OF d unchanged_tracks [OF u] same_weaken [OF conjunct2 [OF u], where M = "{}"]])
      show "moves_ok c'" using mv' mok by (simp add: moves_ok_mapping)
      show "idx (deletions c') = comp_del ?D ?I {l}" using c' 1(4,6) by (auto simp: comp_del_del)
      show "idx (insertions c') = comp_ins ?I {l} {}" using c' 1(3) by (simp add: comp_ins_del)
      show "idx (modifications c') \<subseteq> {..<length (del_list l ys)}" using c' M ll l by fastforce
      show "k \<in> idx (modifications c')" if "corr {l} {} j k \<or> (j, k) \<in> {}" "j \<in> ?M" for j k
        using that c' M unfolding corr_del by auto
      fix f t assume "(f, t) \<in> move_pairs c'"
      then have "map_of (move_mapping c) t = Some f" "t \<noteq> l"
        using c' move_pairs_mapping [OF mv' mok] by (auto simp: map_of_alist split: if_splits)
      moreover from this have "corr {l} {} t t" using in_I I unfolding corr_del by force
      ultimately show "\<exists>j. (f, j) \<in> move_pairs c \<and> (corr {l} {} j t \<or> (j, t) \<in> {}) \<or> corr ?D ?I f j \<and> (j, t) \<in> {}"
        using move_pairs_mapping [OF mv mo] by blast
    qed (use c' in auto)
    moreover have "keeps_place c c' l"
      by (rule keeps_placeI [where D = "{l}" and I = "{}"])
        (use c' 1(3,4,6) in \<open>auto simp: comp_del_del comp_ins_del corr_del\<close>)
    ultimately show "describes dbg c' xs (del_list l ys) \<and> moves c' = [] \<and> keeps_place c c' l" using mv' by simp
  qed
  then show ?thesis using run by simp
qed

lemma comp_ins_over: "r < l \<Longrightarrow> I \<subseteq> {..<Suc l} \<Longrightarrow> comp_ins I {r, l} {r} = insert r (I - {l})"
  by (fastforce simp: comp_ins_set corr_move_over)

lemma cb_move_over_ok:
  assumes d: "describes dbg c xs ys" and l: "length ys = Suc l" "length ys \<le> npos" and r: "r < l"
    and mv: "moves c = []"
  shows "succeeds (cb_move_over dbg c r l True) (\<lambda>c'. describes dbg c' xs (move_over_list r ys) \<and> moves c' = []
    \<and> keeps_place c c' l)"
proof -
  let ?D = "idx (deletions c)" and ?I = "idx (insertions c)" and ?M = "idx (modifications c)"
  let ?m = "map_of (move_mapping c)"
  have ok: "cb_ok dbg c" and mo: "mapping_ok (move_mapping c)"
    using d mv by (auto simp: describes_def moves_ok_mapping)
  have fit: "fits ?D ?I (move_pairs c) (length xs) (length ys)" using d by (simp add: describes_def tracks_def)
  have I: "?I \<subseteq> {..<Suc l}" and M: "?M \<subseteq> {..<Suc l}" using fit d l(1) by (auto simp: fits_def describes_def)
  have in_DI: "v \<in> ?D \<and> k \<in> ?I" if "?m k = Some v" for k v
    using fit that move_pairs_mapping [OF mv mo, of v k] by (auto simp: fits_def)
  have inj: "k = k'" if "?m k = Some v" "?m k' = Some v" for k k' v
    using mo that unfolding mapping_ok_def by blast
  have u: "unchanged {r, l} {r} {(l, r)} ys (move_over_list r ys)"
    using unchanged_move_over [of r ys] r l(1) by simp
  from over_col.for_each_col_ok [OF ok, of r l] obtain c1 where
    1: "for_each_col (move_over_col dbg r l) c = Some c1" "cb_ok dbg c1"
      "idx (modifications c1) = over_set r l ?M" "same_moves c c1" by (auto elim: succeedsE)
  have crv: "crv_ok dbg (deletions c)" "crv_ok dbg (insertions c)" "crv_ok dbg (modifications c)"
    using cb_okD [OF ok] by auto
  have finish: "describes dbg c' xs (move_over_list r ys) \<and> moves c' = [] \<and> keeps_place c c' l"
    if c': "c' = c1\<lparr>insertions := ins, deletions := del, move_mapping := mapping\<rparr>" "crv_ok dbg ins" "crv_ok dbg del"
      "idx del = comp_del ?D ?I {r, l}" "idx ins = insert r (?I - {l})" "mapping_ok mapping"
      and P: "\<And>k v. map_of mapping k = Some v \<Longrightarrow>
        (k \<noteq> r \<and> k \<noteq> l \<and> ?m k = Some v) \<or> (k = r \<and> (?m l = Some v \<or> corr ?D ?I v l))"
    for c' ins del mapping
  proof (intro conjI)
    show "keeps_place c c' l"
      by (rule keeps_placeI [where D = "{r, l}" and I = "{r}"])
        (use c'(1,4,5) comp_ins_over [OF r I] in \<open>auto simp: corr_move_over [OF r]\<close>)
    have mv': "moves c' = []" using c'(1) 1(4) mv by simp
    have mok: "mapping_ok (move_mapping c')" using c'(1,6) by simp
    show "describes dbg c' xs (move_over_list r ys)"
    proof (rule describes_step [OF d unchanged_tracks [OF u] same_weaken [OF conjunct2 [OF u], where M = "{}"]])
      show "cb_ok dbg c'" using 1(2) c'(1-3) by (simp add: cb_ok_def)
      show "moves_ok c'" using mv' mok by (simp add: moves_ok_mapping)
      show "idx (insertions c') = comp_ins ?I {r, l} {r}" using c'(1,5) comp_ins_over [OF r I] by simp
      show "idx (modifications c') \<subseteq> {..<length (move_over_list r ys)}"
      proof -
        have "length (move_over_list r ys) = l" using l(1) by (simp add: move_over_list_def)
        then show ?thesis using M r by (auto simp: c'(1) 1(3) over_set_def less_Suc_eq)
      qed
      show "k \<in> idx (modifications c')"
        if "corr {r, l} {r} j k \<or> (j, k) \<in> {(l, r)}" "j \<in> ?M" for j k
        using that M r by (auto simp: c'(1) 1(3) over_set_def corr_move_over)
      fix f t assume "(f, t) \<in> move_pairs c'"
      then have "map_of mapping t = Some f" using move_pairs_mapping [OF mv' mok] c'(1) by simp
      from P [OF this] show "\<exists>j. (f, j) \<in> move_pairs c \<and> (corr {r, l} {r} j t \<or> (j, t) \<in> {(l, r)})
          \<or> corr ?D ?I f j \<and> (j, t) \<in> {(l, r)}"
      proof (elim disjE conjE)
        assume t: "t \<noteq> r" "t \<noteq> l" "?m t = Some f"
        then have "t < l" using in_DI I by force
        then have "corr {r, l} {r} t t" using t corr_move_over [OF r] by simp
        then show ?thesis using t move_pairs_mapping [OF mv mo] by blast
      qed (use move_pairs_mapping [OF mv mo] in blast)+
    qed (use c'(1,4) in auto)
    show "moves c' = []" by (rule mv')
  qed
  have vr: "cb_verify dbg c' = Some ()" if "moves c' = []" for c' using that by (simp add: cb_verify_def)
  note guards = last_end_bound [OF crv(2) I] last_end_bound [OF crv(3) M]
  have rI: "contains dbg (insertions c) r = Some (r \<in> ?I)" by (rule contains_ok [OF crv(2)])
  have row: "\<exists>ins2 del2. unshift dbg ins1 r = Some n1 \<and> add_shifted dbg del1 n1 = Some (del2, shift_of (idx del1) n1)
      \<and> add dbg ins1 r = Some ins2 \<and> crv_ok dbg ins2 \<and> crv_ok dbg del2 \<and> idx ins2 = insert r (idx ins1)
      \<and> idx del2 = comp_del (idx del1) (idx ins1) {r}"
    if "crv_ok dbg ins1" "crv_ok dbg del1" "r \<notin> idx ins1" "n1 = unshift_of (idx ins1) r" for ins1 del1 n1
  proof -
    from add_shifted_succ [OF that(2), of n1] obtain del2 where
      "add_shifted dbg del1 n1 = Some (del2, shift_of (idx del1) n1)" "crv_ok dbg del2"
      "idx del2 = insert (shift_of (idx del1) n1) (idx del1)" by (auto elim: succeedsE)
    moreover from add_succ [OF that(1), of r] obtain ins2 where
      "add dbg ins1 r = Some ins2" "crv_ok dbg ins2" "idx ins2 = insert r (idx ins1)" by (auto elim: succeedsE)
    ultimately show ?thesis using that unshift_ok [OF that(1), of r] by (simp add: comp_del_del)
  qed
  show ?thesis
  proof (cases "l \<in> ?I")
    case lI: True
    from remove1_succ [OF crv(2), of l] obtain ins1 where
      ins1: "remove dbg (insertions c) l 1 = Some ins1" "crv_ok dbg ins1" "idx ins1 = ?I - {l}"
      by (auto elim: succeedsE)
    define moved where "moved = (?m l \<noteq> None)"
    define mapping where "mapping = (case ?m l of
        Some old \<Rightarrow> AList.delete l (AList.update r old (move_mapping c))
      | None \<Rightarrow> if r \<in> ?I then AList.delete r (move_mapping c) else move_mapping c)"
    have mok: "mapping_ok mapping"
    proof (cases "?m l")
      case None
      then show ?thesis using mo by (simp add: mapping_def mapping_ok_delete)
    next
      case (Some old)
      have eq: "map_of mapping k = (if k = l then None else if k = r then Some old else ?m k)" for k
        using Some r by (simp add: mapping_def map_of_alist)
      have "distinct (map fst mapping)"
        using Some mo by (simp add: mapping_def mapping_ok_def distinct_delete distinct_update)
      moreover have "k = k'" if "map_of mapping k = Some v" "map_of mapping k' = Some v" for k k' v
        using that inj [OF Some] inj [of k v k'] unfolding eq by (auto split: if_splits)
      ultimately show ?thesis unfolding mapping_ok_def by blast
    qed
    have P: "(k \<noteq> r \<and> k \<noteq> l \<and> ?m k = Some v) \<or> (k = r \<and> (?m l = Some v \<or> corr ?D ?I v l))"
      if kv: "map_of mapping k = Some v" for k v
    proof (cases "?m l")
      case None
      then show ?thesis using kv in_DI [of r] by (auto simp: mapping_def map_of_alist split: if_splits)
    next
      case (Some old)
      then show ?thesis using kv by (auto simp: mapping_def map_of_alist split: if_splits)
    qed
    have D: "?D = comp_del ?D ?I {l}" using lI by (simp add: comp_del_del)
    show ?thesis
    proof (cases "r \<in> ?I")
      case True
      let ?c' = "c1\<lparr>insertions := ins1, deletions := deletions c, move_mapping := mapping\<rparr>"
      have *: "describes dbg ?c' xs (move_over_list r ys) \<and> moves ?c' = [] \<and> keeps_place c ?c' l"
        by (rule finish [OF refl ins1(2) crv(1) _ _ mok P])
          (use True lI ins1(3) r comp_del_mem(3) [of r ?I l ?D] in auto)
      have "cb_move_over dbg c r l True = Some ?c'"
        using r guards 1(1,4) rI True lI ins1(1) * vr [of ?c']
        by (cases "?m l") (auto simp: cb_move_over_def mapping_def Let_def split: option.splits)
      then show ?thesis using * by simp
    next
      case rn: False
      have "r \<notin> idx ins1" using rn ins1(3) by simp
      from row [OF ins1(2) crv(1) this refl] obtain ins2 del2 where
        2: "unshift dbg ins1 r = Some (unshift_of (idx ins1) r)"
          "add_shifted dbg (deletions c) (unshift_of (idx ins1) r) = Some (del2, shift_of ?D (unshift_of (idx ins1) r))"
          "add dbg ins1 r = Some ins2" "crv_ok dbg ins2" "crv_ok dbg del2" "idx ins2 = insert r (idx ins1)"
          "idx del2 = comp_del ?D (idx ins1) {r}" by blast
      let ?c' = "c1\<lparr>insertions := ins2, deletions := del2, move_mapping := mapping\<rparr>"
      have D2: "idx del2 = comp_del ?D ?I {r, l}"
        using comp_del_two(2) [OF idx_finite idx_finite r, of "deletions c" "insertions c"]
        unfolding D [symmetric] 2(7) ins1(3) .
      have *: "describes dbg ?c' xs (move_over_list r ys) \<and> moves ?c' = [] \<and> keeps_place c ?c' l"
        by (rule finish [OF refl 2(4,5) D2 _ mok P]) (use ins1(3) 2(6) in auto)
      have "cb_move_over dbg c r l True = Some ?c'"
        using r guards 1(1,4) rI rn lI ins1(1) 2(1-3) * vr [of ?c']
        by (cases "?m l") (auto simp: cb_move_over_def mapping_def Let_def split: option.splits)
      then show ?thesis using * by simp
    qed
  next
    case ln: False
    let ?n = "unshift_of ?I l" and ?v = "shift_of ?D (unshift_of ?I l)"
    have un: "unshift dbg (insertions c) l = Some ?n" using unshift_ok [OF crv(2)] ln by simp
    from add_shifted_succ [OF crv(1), of ?n] obtain del1 where
      del1: "add_shifted dbg (deletions c) ?n = Some (del1, ?v)" "crv_ok dbg del1" "idx del1 = comp_del ?D ?I {l}"
      using ln by (auto simp: comp_del_del elim: succeedsE)
    have v: "?v \<notin> ?D" "corr ?D ?I ?v l" using shift_of_props [OF idx_finite] ln by (auto simp: corr_def)
    have ml: "?m l = None" using in_DI [of l] ln by (cases "?m l") auto
    define mapping where
      "mapping = AList.update r ?v (if r \<in> ?I then AList.delete r (move_mapping c) else move_mapping c)"
    have eq: "map_of mapping = ?m(r \<mapsto> ?v)" by (auto simp: mapping_def map_of_alist)
    have mok: "mapping_ok mapping"
      unfolding mapping_def using mo in_DI v(1)
      by (intro mapping_ok_update) (auto simp: mapping_ok_delete map_of_alist)
    have P: "(k \<noteq> r \<and> k \<noteq> l \<and> ?m k = Some w) \<or> (k = r \<and> (?m l = Some w \<or> corr ?D ?I w l))"
      if "map_of mapping k = Some w" for k w
      using that v(2) ml unfolding eq by (cases "k = r"; cases "k = l") auto
    show ?thesis
    proof (cases "r \<in> ?I")
      case True
      let ?c' = "c1\<lparr>insertions := insertions c, deletions := del1, move_mapping := mapping\<rparr>"
      have D1: "idx del1 = comp_del ?D ?I {r, l}" using comp_del_mem(1) [OF True, of ?D l] by (simp add: del1(3))
      have *: "describes dbg ?c' xs (move_over_list r ys) \<and> moves ?c' = [] \<and> keeps_place c ?c' l"
        by (rule finish [OF refl crv(2) del1(2) D1 _ mok P]) (use True ln in auto)
      have "cb_move_over dbg c r l True = Some ?c'"
        using r guards 1(1,4) rI True ln un del1(1) * vr [of ?c']
        by (auto simp: cb_move_over_def mapping_def Let_def)
      then show ?thesis using * by simp
    next
      case rn: False
      from row [OF crv(2) del1(2) rn refl] obtain ins2 del2 where
        2: "unshift dbg (insertions c) r = Some (unshift_of ?I r)"
          "add_shifted dbg del1 (unshift_of ?I r) = Some (del2, shift_of (idx del1) (unshift_of ?I r))"
          "add dbg (insertions c) r = Some ins2" "crv_ok dbg ins2" "crv_ok dbg del2" "idx ins2 = insert r ?I"
          "idx del2 = comp_del (idx del1) ?I {r}" by blast
      let ?c' = "c1\<lparr>insertions := ins2, deletions := del2, move_mapping := mapping\<rparr>"
      have I': "?I - {l} = ?I" using ln by simp
      have D2: "idx del2 = comp_del ?D ?I {r, l}"
        using comp_del_two(2) [OF idx_finite idx_finite r, of "deletions c" "insertions c"]
        by (simp add: 2(7) del1(3) I')
      have *: "describes dbg ?c' xs (move_over_list r ys) \<and> moves ?c' = [] \<and> keeps_place c ?c' l"
        by (rule finish [OF refl 2(4,5) D2 _ mok P]) (use I' 2(6) in auto)
      have "cb_move_over dbg c r l True = Some ?c'"
        using r guards 1(1,4) rI rn ln un del1(1) 2(1-3) * vr [of ?c']
        by (auto simp: cb_move_over_def mapping_def Let_def)
      then show ?thesis using * by simp
    qed
  qed
qed

end
