(* ===== verification/Change_Merge.thy ===== *)
theory Change_Merge
  imports Change_Builder_Rows
begin

section \<open>CollectionChangeBuilder: merging two change sets\<close>

text \<open>
  \<open>merge\<close> combines a change set from \<open>xs\<close> to \<open>ys\<close> with one from \<open>ys\<close> to \<open>zs\<close>, in place. The lambda
  \<open>for_each_col\<close> of its body pairs the sets of modifications of both, and resizes the shorter list of
  columns on the way.
\<close>

subsection \<open>The code\<close>

type_synonym col_pair_op = "index_set \<Rightarrow> index_set \<Rightarrow> (index_set \<times> index_set) option"

fun col_pairs :: "col_pair_op \<Rightarrow> index_set list \<Rightarrow> index_set list \<Rightarrow> (index_set list \<times> index_set list) option" where
  "col_pairs f (a # as) (b # bs) = do {
     (a', b') \<leftarrow> f a b;
     (as', bs') \<leftarrow> col_pairs f as bs;
     Some (a' # as', b' # bs')
   }"
| "col_pairs f as bs = Some (as, bs)"

definition resize :: "nat \<Rightarrow> index_set list \<Rightarrow> index_set list" where
  "resize n cols = cols @ replicate (n - length cols) []"

definition for_each_col_pair ::
  "col_pair_op \<Rightarrow> change_builder \<Rightarrow> change_builder \<Rightarrow> (change_builder \<times> change_builder) option" where
  "for_each_col_pair f c other = do {
     (m, om) \<leftarrow> f (modifications c) (modifications other);
     let c = c\<lparr>modifications := m\<rparr>;
     let other = other\<lparr>modifications := om\<rparr>;
     (if \<not> track_columns c then Some (c, other)
      else do {
        (cols, ocols) \<leftarrow> col_pairs f (resize (length (columns other)) (columns c))
                                    (resize (length (columns c)) (columns other));
        Some (c\<lparr>columns := cols\<rparr>, other\<lparr>columns := ocols\<rparr>)
      })
   }"

definition move_modified :: "bool \<Rightarrow> mv \<Rightarrow> col_pair_op" where
  "move_modified dbg m col other = do {
     b \<leftarrow> contains dbg col (mv_from m);
     other \<leftarrow> (if b then add dbg other (mv_to m) else Some other);
     Some (col, other)
   }"

fun find_from_pos :: "size_t \<Rightarrow> mv list \<Rightarrow> nat \<Rightarrow> nat option" where
  "find_from_pos k [] i = None"
| "find_from_pos k (m # ms) i = (if k = mv_from m then Some i else find_from_pos k ms (i + 1))"

text \<open>The \<open>remove_if\<close> over the old moves; the moves of \<open>c\<close> that continue one of them are taken out of \<open>c\<close>.\<close>

fun merge_old_moves :: "bool \<Rightarrow> mv list \<Rightarrow> change_builder \<Rightarrow> change_builder
    \<Rightarrow> (mv list \<times> change_builder \<times> change_builder) option" where
  "merge_old_moves dbg [] this c = Some ([], this, c)"
| "merge_old_moves dbg (old # olds) this c =
     (case find_from_pos (mv_to old) (moves c) 0 of
        Some i \<Rightarrow> do {
          let it = moves c ! i;
          (this, c) \<leftarrow> for_each_col_pair (move_modified dbg it) this c;
          let c = c\<lparr>moves := butlast ((moves c)[i := last (moves c)])\<rparr>;
          (ms, this, c) \<leftarrow> merge_old_moves dbg olds this c;
          Some (old\<lparr>mv_to := mv_to it\<rparr> # ms, this, c)
        }
      | None \<Rightarrow> do {
          deleted \<leftarrow> contains dbg (deletions c) (mv_to old);
          (if deleted then merge_old_moves dbg olds this c
           else do {
             n \<leftarrow> unshift dbg (deletions c) (mv_to old);
             let old = old\<lparr>mv_to := shift (insertions c) n\<rparr>;
             (ms, this, c) \<leftarrow> merge_old_moves dbg olds this c;
             Some (old # ms, this, c)
           })
        })"

fun drop_inserted :: "bool \<Rightarrow> index_set \<Rightarrow> mv list \<Rightarrow> mv list option" where
  "drop_inserted dbg ins [] = Some []"
| "drop_inserted dbg ins (m # ms) = do {
     b \<leftarrow> contains dbg ins (mv_from m);
     ms' \<leftarrow> drop_inserted dbg ins ms;
     Some (if b then ms' else m # ms')
   }"

fun modify_moved :: "bool \<Rightarrow> mv list \<Rightarrow> change_builder \<Rightarrow> change_builder
    \<Rightarrow> (change_builder \<times> change_builder) option" where
  "modify_moved dbg [] this c = Some (this, c)"
| "modify_moved dbg (m # ms) this c = do {
     (this, c) \<leftarrow> for_each_col_pair (move_modified dbg m) this c;
     modify_moved dbg ms this c
   }"

definition shift_move :: "bool \<Rightarrow> index_set \<Rightarrow> index_set \<Rightarrow> mv \<Rightarrow> mv option" where
  "shift_move dbg del ins m = do {
     n \<leftarrow> unshift dbg ins (mv_from m);
     Some (m\<lparr>mv_from := shift del n\<rparr>)
   }"

definition merge_cols :: "bool \<Rightarrow> change_builder \<Rightarrow> col_pair_op" where
  "merge_cols dbg c col other = do {
     col \<leftarrow> erase_at_set dbg col (deletions c);
     col \<leftarrow> shift_for_insert_at_set dbg col (insertions c);
     col \<leftarrow> add_set dbg col other;
     Some (col, other)
   }"

text \<open>
  The part of \<open>merge\<close> that combines the moves: old moves are continued, new moves of inserted rows
  dropped, modifications of moved rows kept, and new moves start at the old position of their row.
\<close>

definition merge_moves :: "bool \<Rightarrow> change_builder \<Rightarrow> change_builder \<Rightarrow> (change_builder \<times> change_builder) option" where
  "merge_moves dbg this c = do {
     (this, c) \<leftarrow> (if moves c \<noteq> [] \<or> deletions c \<noteq> [] \<or> insertions c \<noteq> [] then do {
         (ms, this, c) \<leftarrow> merge_old_moves dbg (moves this) this c;
         Some (this\<lparr>moves := ms\<rparr>, c)
       }
       else Some (this, c));
     c \<leftarrow> (if insertions this \<noteq> [] \<and> moves c \<noteq> [] then do {
         ms \<leftarrow> drop_inserted dbg (insertions this) (moves c);
         Some (c\<lparr>moves := ms\<rparr>)
       }
       else Some c);
     (this, c) \<leftarrow> (if modifications this \<noteq> [] \<and> moves c \<noteq> [] then modify_moved dbg (moves c) this c
                   else Some (this, c));
     c \<leftarrow> (if deletions this \<noteq> [] \<or> insertions this \<noteq> [] then do {
         ms \<leftarrow> map_opt (shift_move dbg (deletions this) (insertions this)) (moves c);
         Some (c\<lparr>moves := ms\<rparr>)
       }
       else Some c);
     Some (this\<lparr>moves := moves this @ moves c\<rparr>, c)
   }"

definition cb_merge :: "bool \<Rightarrow> change_builder \<Rightarrow> change_builder \<Rightarrow> change_builder option" where
  "cb_merge dbg this c =
     (if cs_empty c then Some this
      else if cs_empty this then Some c
      else do {
        cb_verify dbg this;
        cb_verify dbg c;
        (this, c) \<leftarrow> merge_moves dbg this c;
        del \<leftarrow> add_shifted_by dbg (deletions this) (insertions this) (deletions c);
        ins \<leftarrow> erase_at_set dbg (insertions this) (deletions c);
        ins \<leftarrow> insert_at_set dbg ins (insertions c);
        this \<leftarrow> clean_up_stale_moves dbg (this\<lparr>deletions := del, insertions := ins\<rparr>);
        (this, c) \<leftarrow> for_each_col_pair (merge_cols dbg c) this c;
        cb_verify dbg this;
        Some this
      })"

definition cb_finalize :: "bool \<Rightarrow> change_builder \<Rightarrow> change_set option" where
  "cb_finalize dbg c = do {
     modifications_in_old \<leftarrow> erase_at_set dbg (modifications c) (insertions c);
     modifications_in_old \<leftarrow> shift_for_insert_at_set dbg modifications_in_old (deletions c);
     modif \<leftarrow> remove_set dbg (modifications c) (insertions c);
     Some \<lparr>deletions = deletions c, insertions = insertions c, modifications = modifications_in_old,
           modifications_new = modif, moves = moves c, columns = columns c\<rparr>
   }"


subsection \<open>Moves that have become no-ops\<close>

lemma unshift_of_less_iff': "i \<notin> D \<Longrightarrow> i < f \<longleftrightarrow> unshift_of D i < unshift_of D f"
  using unshift_of_less unshift_of_mono [of f i D] by (metis leD le_less_linear)

lemma corr_drop:
  assumes fin: "finite D" "finite I" and f: "f \<in> D" and t: "t \<in> I" and eq: "unshift_of D f = unshift_of I t"
  shows "corr (D - {f}) (I - {t}) i j \<longleftrightarrow> corr D I i j \<or> i = f \<and> j = t"
proof (rule corrI [symmetric])
  have *: "i < f \<longleftrightarrow> j < t" if "corr D I i j" for i j
    using that eq unshift_of_less_iff' [of i D f] unshift_of_less_iff' [of j I t] by (auto simp: corr_def)
  fix i j i' j' assume "corr D I i j \<or> i = f \<and> j = t" "corr D I i' j' \<or> i' = f \<and> j' = t"
  then consider "corr D I i j" "corr D I i' j'" | "corr D I i j" "i' = f" "j' = t"
    | "i = f" "j = t" "corr D I i' j'" | "i = f" "j = t" "i' = f" "j' = t" by blast
  then show "i < i' \<longleftrightarrow> j < j'"
  proof cases
    case 3
    then have "i' \<noteq> f" "j' \<noteq> t" using f t by (auto simp: corr_def)
    with * [OF 3(3)] show ?thesis unfolding 3(1,2) by (meson linorder_neqE_nat order_less_asym)
  qed (simp_all add: corr_mono *)
next
  show "\<exists>j. corr D I i j \<or> i = f \<and> j = t" if "i \<notin> D - {f}" for i
    using that corr_total [OF fin(2)] by blast
  show "\<exists>i. corr D I i j \<or> i = f \<and> j = t" if "j \<notin> I - {t}" for j
    using that corr_total [OF fin(1), of j I] unfolding corr_sym [of D I] by blast
qed (use f t in \<open>auto simp: corr_def\<close>)

definition mv_pairs :: "mv list \<Rightarrow> (size_t \<times> size_t) set" where
  "mv_pairs ms = (\<lambda>m. (mv_from m, mv_to m)) ` set ms"

definition mvs_ok :: "mv list \<Rightarrow> bool" where
  "mvs_ok ms \<longleftrightarrow> distinct (map mv_to ms) \<and> distinct (map mv_from ms)"

lemma mvs_ok_Cons: "mvs_ok (m # ms) \<longleftrightarrow> mvs_ok ms \<and> mv_to m \<notin> mv_to ` set ms \<and> mv_from m \<notin> mv_from ` set ms"
  by (auto simp: mvs_ok_def)

lemma mv_pairs_simps [simp]:
  "mv_pairs [] = {}" "mv_pairs (m # ms) = insert (mv_from m, mv_to m) (mv_pairs ms)"
  "mv_pairs (xs @ ys) = mv_pairs xs \<union> mv_pairs ys"
  by (auto simp: mv_pairs_def)

lemma stale_moves_ok:
  assumes "crv_ok dbg del" "crv_ok dbg ins" "mv_pairs ms \<subseteq> idx del \<times> idx ins" "mvs_ok ms"
  shows "succeeds (stale_moves dbg del ins ms) (\<lambda>(del', ins', ms'). crv_ok dbg del' \<and> crv_ok dbg ins'
    \<and> mvs_ok ms' \<and> set ms' \<subseteq> set ms
    \<and> idx del' = idx del - mv_from ` (set ms - set ms') \<and> idx ins' = idx ins - mv_to ` (set ms - set ms')
    \<and> (\<forall>i j. corr (idx del') (idx ins') i j \<or> (i, j) \<in> mv_pairs ms'
         \<longleftrightarrow> corr (idx del) (idx ins) i j \<or> (i, j) \<in> mv_pairs ms))"
  using assms
proof (induction ms arbitrary: del ins)
  case (Cons m ms)
  have m: "mv_from m \<in> idx del" "mv_to m \<in> idx ins" and ms: "mv_pairs ms \<subseteq> idx del \<times> idx ins"
    using Cons.prems(3) by auto
  have new: "mv_to m \<notin> mv_to ` set ms" "mv_from m \<notin> mv_from ` set ms" "mvs_ok ms"
    using Cons.prems(4) by (auto simp: mvs_ok_Cons)
  have new': "\<forall>x\<in>set ms. mv_to x \<noteq> mv_to m \<and> mv_from x \<noteq> mv_from m"
    using new by (metis imageI)
  show ?case
  proof (cases "unshift_of (idx del) (mv_from m) = unshift_of (idx ins) (mv_to m)")
    case False
    from Cons.IH [OF Cons.prems(1,2) ms new(3)] obtain del' ins' ms' where
      1: "stale_moves dbg del ins ms = Some (del', ins', ms')" "crv_ok dbg del'" "crv_ok dbg ins'"
        "mvs_ok ms'" "set ms' \<subseteq> set ms" "idx del' = idx del - mv_from ` (set ms - set ms')"
        "idx ins' = idx ins - mv_to ` (set ms - set ms')"
        "\<forall>i j. corr (idx del') (idx ins') i j \<or> (i, j) \<in> mv_pairs ms'
           \<longleftrightarrow> corr (idx del) (idx ins) i j \<or> (i, j) \<in> mv_pairs ms"
      by (rule succeeds3E) (elim conjE, rule that, assumption+)
    have "set (m # ms) - set (m # ms') = set ms - set ms'" using new(1) by auto
    then have "mvs_ok (m # ms') \<and> set (m # ms') \<subseteq> set (m # ms)
      \<and> idx del' = idx del - mv_from ` (set (m # ms) - set (m # ms'))
      \<and> idx ins' = idx ins - mv_to ` (set (m # ms) - set (m # ms'))"
      using 1(4-7) new by (auto simp: mvs_ok_Cons)
    moreover have "corr (idx del') (idx ins') i j \<or> (i, j) \<in> mv_pairs (m # ms')
           \<longleftrightarrow> corr (idx del) (idx ins) i j \<or> (i, j) \<in> mv_pairs (m # ms)" for i j
      using 1(8) by simp blast
    ultimately show ?thesis
      using False 1(1-3) Cons.prems(1,2) by (simp add: count_0_ok unshift_of_def del: mv_pairs_simps)
  next
    case True
    from remove1_succ [OF Cons.prems(1), of "mv_from m"] obtain del1 where
      d1: "remove dbg del (mv_from m) 1 = Some del1" "crv_ok dbg del1" "idx del1 = idx del - {mv_from m}"
      by (auto elim: succeedsE)
    from remove1_succ [OF Cons.prems(2), of "mv_to m"] obtain ins1 where
      i1: "remove dbg ins (mv_to m) 1 = Some ins1" "crv_ok dbg ins1" "idx ins1 = idx ins - {mv_to m}"
      by (auto elim: succeedsE)
    have "mv_pairs ms \<subseteq> idx del1 \<times> idx ins1"
      using ms new' unfolding d1(3) i1(3) by (auto simp: mv_pairs_def)
    from Cons.IH [OF d1(2) i1(2) this new(3)] obtain del' ins' ms' where
      1: "stale_moves dbg del1 ins1 ms = Some (del', ins', ms')" "crv_ok dbg del'" "crv_ok dbg ins'"
        "mvs_ok ms'" "set ms' \<subseteq> set ms" "idx del' = idx del1 - mv_from ` (set ms - set ms')"
        "idx ins' = idx ins1 - mv_to ` (set ms - set ms')"
        "\<forall>i j. corr (idx del') (idx ins') i j \<or> (i, j) \<in> mv_pairs ms'
           \<longleftrightarrow> corr (idx del1) (idx ins1) i j \<or> (i, j) \<in> mv_pairs ms"
      by (rule succeeds3E) (elim conjE, rule that, assumption+)
    have "set (m # ms) - set ms' = insert m (set ms - set ms')" using new(1) 1(5) by auto
    then have "set ms' \<subseteq> set (m # ms) \<and> idx del' = idx del - mv_from ` (set (m # ms) - set ms')
      \<and> idx ins' = idx ins - mv_to ` (set (m # ms) - set ms')"
      using 1(5-7) d1(3) i1(3) by auto
    moreover have "corr (idx del') (idx ins') i j \<or> (i, j) \<in> mv_pairs ms'
           \<longleftrightarrow> corr (idx del) (idx ins) i j \<or> (i, j) \<in> mv_pairs (m # ms)" for i j
      unfolding 1(8) [rule_format] d1(3) i1(3) corr_drop [OF idx_finite idx_finite m True] by auto
    ultimately show ?thesis
      using True 1(1-4) d1(1) i1(1) Cons.prems(1,2) by (simp add: count_0_ok unshift_of_def del: mv_pairs_simps)
  qed
qed simp


lemma moves_ok_mvs: "move_mapping c = [] \<Longrightarrow> moves_ok c \<longleftrightarrow> mvs_ok (moves c)"
  by (simp add: moves_ok_def mvs_ok_def)

lemma move_pairs_mvs: "move_mapping c = [] \<Longrightarrow> move_pairs c = mv_pairs (moves c)"
  by (simp add: move_pairs_def mv_pairs_def)

text \<open>Another change set with the same corresponding positions describes the same change.\<close>

lemma describes_same_pairs:
  assumes d: "describes dbg c xs ys" and ok: "cb_ok dbg c'" "moves_ok c'"
    and M: "idx (modifications c') = idx (modifications c)"
    and sub: "idx (deletions c') \<subseteq> idx (deletions c)" "idx (insertions c') \<subseteq> idx (insertions c)"
      "move_pairs c' \<subseteq> idx (deletions c') \<times> idx (insertions c')"
    and eq: "\<And>i j. corr (idx (deletions c')) (idx (insertions c')) i j \<or> (i, j) \<in> move_pairs c'
      \<longleftrightarrow> corr (idx (deletions c)) (idx (insertions c)) i j \<or> (i, j) \<in> move_pairs c"
  shows "describes dbg c' xs ys"
proof -
  have P: "cb_pairs c' m n = cb_pairs c m n" for m n
    unfolding pairs_def eq ..
  have fit: "fits (idx (deletions c)) (idx (insertions c)) (move_pairs c) (length xs) (length ys)"
    using d by (simp add: describes_def tracks_def)
  have "(length xs, length ys) \<notin> move_pairs c'" using sub fit by (force simp: fits_def)
  then have "corr (idx (deletions c')) (idx (insertions c')) (length xs) (length ys)"
    using eq [of "length xs" "length ys"] fit by (auto simp: fits_def)
  then have "fits (idx (deletions c')) (idx (insertions c')) (move_pairs c') (length xs) (length ys)"
    using sub fit by (auto simp: fits_def)
  then show ?thesis using d ok by (simp add: describes_def tracks_def P M)
qed

lemma stale_moves_describes:
  assumes d: "describes dbg c xs ys" and mm: "move_mapping c = []"
    and run: "stale_moves dbg (deletions c) (insertions c) (moves c) = Some (del, ins, ms)"
  shows "describes dbg (c\<lparr>deletions := del, insertions := ins, moves := ms\<rparr>) xs ys"
proof -
  let ?D = "idx (deletions c)" and ?I = "idx (insertions c)" and ?c = "c\<lparr>deletions := del, insertions := ins, moves := ms\<rparr>"
  have crv: "crv_ok dbg (deletions c)" "crv_ok dbg (insertions c)" using d by (auto simp: describes_def cb_ok_def)
  have sub: "mv_pairs (moves c) \<subseteq> ?D \<times> ?I"
    using d by (simp add: describes_def tracks_def fits_def move_pairs_mvs [OF mm])
  have ok: "mvs_ok (moves c)" using d by (simp add: describes_def moves_ok_mvs [OF mm])
  from stale_moves_ok [OF crv sub ok] have
    1: "crv_ok dbg del" "crv_ok dbg ins" "mvs_ok ms" "set ms \<subseteq> set (moves c)"
      "idx del = ?D - mv_from ` (set (moves c) - set ms)" "idx ins = ?I - mv_to ` (set (moves c) - set ms)"
    and eq: "corr (idx del) (idx ins) i j \<or> (i, j) \<in> mv_pairs ms \<longleftrightarrow> corr ?D ?I i j \<or> (i, j) \<in> mv_pairs (moves c)" for i j
    unfolding run succeeds_Some split_conv by blast+
  have inj: "inj_on mv_from (set (moves c))" "inj_on mv_to (set (moves c))"
    using ok by (simp_all add: mvs_ok_def distinct_map)
  have "mv_pairs ms \<subseteq> idx del \<times> idx ins"
  proof
    fix q assume "q \<in> mv_pairs ms"
    then obtain m where m: "m \<in> set ms" "q = (mv_from m, mv_to m)" by (auto simp: mv_pairs_def)
    then have "m \<in> set (moves c)" "q \<in> ?D \<times> ?I" using 1(4) sub by (auto simp: mv_pairs_def)
    moreover have "mv_from m \<notin> mv_from ` (set (moves c) - set ms)" "mv_to m \<notin> mv_to ` (set (moves c) - set ms)"
      using m(1) inj 1(4) by (auto simp: inj_on_def subset_iff)
    ultimately show "q \<in> idx del \<times> idx ins" using m(2) 1(5,6) by auto
  qed
  moreover have "cb_ok dbg ?c" using d 1(1,2) by (simp add: describes_def cb_ok_def)
  ultimately show ?thesis
    by (intro describes_same_pairs [OF d]) (use 1(3,5,6) eq mm in \<open>auto simp: moves_ok_mvs move_pairs_mvs\<close>)
qed

lemma clean_up_stale_moves_ok:
  assumes d: "describes dbg c xs ys" and mm: "move_mapping c = []"
  shows "succeeds (clean_up_stale_moves dbg c) (\<lambda>c'. describes dbg c' xs ys \<and> move_mapping c' = [])"
proof -
  have "crv_ok dbg (deletions c)" "crv_ok dbg (insertions c)" using d by (auto simp: describes_def cb_ok_def)
  moreover have "mv_pairs (moves c) \<subseteq> idx (deletions c) \<times> idx (insertions c)"
    using d by (simp add: describes_def tracks_def fits_def move_pairs_mvs [OF mm])
  moreover have "mvs_ok (moves c)" using d by (simp add: describes_def moves_ok_mvs [OF mm])
  ultimately obtain del ins ms where
    "stale_moves dbg (deletions c) (insertions c) (moves c) = Some (del, ins, ms)"
    by (rule stale_moves_ok [THEN succeeds3E])
  then show ?thesis
    using stale_moves_describes [OF d mm] mm by (simp add: clean_up_stale_moves_def)
qed

subsection \<open>The pairs of modification sets\<close>

locale col_pair =
  fixes dbg :: bool and ready :: bool and f :: col_pair_op
    and g h :: "size_t set \<Rightarrow> size_t set \<Rightarrow> size_t set"
  assumes pair_ok: "ready \<Longrightarrow> crv_ok dbg a \<Longrightarrow> crv_ok dbg b \<Longrightarrow> succeeds (f a b) (\<lambda>(a', b').
      crv_ok dbg a' \<and> crv_ok dbg b' \<and> idx a' = g (idx a) (idx b) \<and> idx b' = h (idx a) (idx b))"
    and g_mono: "A \<subseteq> A' \<Longrightarrow> B \<subseteq> B' \<Longrightarrow> g A B \<subseteq> g A' B'"
    and h_mono: "A \<subseteq> A' \<Longrightarrow> B \<subseteq> B' \<Longrightarrow> h A B \<subseteq> h A' B'"
begin

lemma col_pairs_ok:
  assumes ready "\<forall>a\<in>set as. crv_ok dbg a \<and> idx a \<subseteq> A" "\<forall>b\<in>set bs. crv_ok dbg b \<and> idx b \<subseteq> B" "length as = length bs"
  shows "succeeds (col_pairs f as bs) (\<lambda>(as', bs').
    (\<forall>a\<in>set as'. crv_ok dbg a \<and> idx a \<subseteq> g A B) \<and> (\<forall>b\<in>set bs'. crv_ok dbg b \<and> idx b \<subseteq> h A B))"
  using assms(4,2,3)
proof (induction as bs rule: list_induct2)
  case (Cons a as b bs)
  then have ab: "crv_ok dbg a" "crv_ok dbg b" "idx a \<subseteq> A" "idx b \<subseteq> B" by simp_all
  from pair_ok [OF assms(1) ab(1,2)] obtain a' b' where
    1: "f a b = Some (a', b')" "crv_ok dbg a' \<and> crv_ok dbg b' \<and> idx a' = g (idx a) (idx b) \<and> idx b' = h (idx a) (idx b)"
    by (rule succeeds2E)
  from Cons have "succeeds (col_pairs f as bs) (\<lambda>(as', bs').
    (\<forall>a\<in>set as'. crv_ok dbg a \<and> idx a \<subseteq> g A B) \<and> (\<forall>b\<in>set bs'. crv_ok dbg b \<and> idx b \<subseteq> h A B))" by simp
  then obtain as' bs' where "col_pairs f as bs = Some (as', bs')"
    "(\<forall>a\<in>set as'. crv_ok dbg a \<and> idx a \<subseteq> g A B) \<and> (\<forall>b\<in>set bs'. crv_ok dbg b \<and> idx b \<subseteq> h A B)"
    by (rule succeeds2E)
  then show ?case using 1 g_mono [OF ab(3,4)] h_mono [OF ab(3,4)] by simp
qed simp

lemma for_each_col_pair_ok:
  assumes r: ready and c: "cb_ok dbg c" and o: "cb_ok dbg other" and t: "track_columns other = track_columns c"
  shows "succeeds (for_each_col_pair f c other) (\<lambda>(c', other'). cb_ok dbg c' \<and> cb_ok dbg other'
    \<and> idx (modifications c') = g (idx (modifications c)) (idx (modifications other))
    \<and> idx (modifications other') = h (idx (modifications c)) (idx (modifications other))
    \<and> same_moves c c' \<and> same_moves other other')"
proof -
  let ?A = "idx (modifications c)" and ?B = "idx (modifications other)"
  from pair_ok [OF r, of "modifications c" "modifications other"] c o obtain a' b' where
    1: "f (modifications c) (modifications other) = Some (a', b')"
      "crv_ok dbg a' \<and> crv_ok dbg b' \<and> idx a' = g ?A ?B \<and> idx b' = h ?A ?B"
    by (auto simp: cb_ok_def elim: succeeds2E)
  show ?thesis
  proof (cases "track_columns c")
    case False
    then show ?thesis using 1 c o t by (simp add: for_each_col_pair_def cb_ok_def)
  next
    case True
    have "\<forall>a\<in>set (resize (length (columns other)) (columns c)). crv_ok dbg a \<and> idx a \<subseteq> ?A"
      "\<forall>a\<in>set (resize (length (columns c)) (columns other)). crv_ok dbg a \<and> idx a \<subseteq> ?B"
      using c o by (auto simp: cb_ok_def resize_def crv_ok_Nil)
    from col_pairs_ok [OF r this] obtain as bs where
      "col_pairs f (resize (length (columns other)) (columns c)) (resize (length (columns c)) (columns other)) = Some (as, bs)"
      "(\<forall>a\<in>set as. crv_ok dbg a \<and> idx a \<subseteq> g ?A ?B) \<and> (\<forall>b\<in>set bs. crv_ok dbg b \<and> idx b \<subseteq> h ?A ?B)"
      by (rule succeeds2E) (simp add: resize_def)
    then show ?thesis using 1 c o t True by (simp add: for_each_col_pair_def cb_ok_def)
  qed
qed

end

interpretation move_modified: col_pair dbg True "move_modified dbg m" "\<lambda>A B. A"
    "\<lambda>A B. if mv_from m \<in> A then insert (mv_to m) B else B" for dbg m
proof
  fix a b assume ok: "crv_ok dbg a" "crv_ok dbg b"
  show "succeeds (move_modified dbg m a b) (\<lambda>(a', b'). crv_ok dbg a' \<and> crv_ok dbg b' \<and> idx a' = idx a
      \<and> idx b' = (if mv_from m \<in> idx a then insert (mv_to m) (idx b) else idx b))"
    using contains_ok [OF ok(1)] add_succ [OF ok(2), of "mv_to m"] ok
    by (auto simp: move_modified_def elim!: succeeds_mono)
qed auto

interpretation merge_cols: col_pair dbg "crv_ok dbg (deletions c) \<and> crv_ok dbg (insertions c)" "merge_cols dbg c"
    "\<lambda>A B. shift_of (idx (insertions c)) ` unshift_of (idx (deletions c)) ` (A - idx (deletions c)) \<union> B" "\<lambda>A B. B"
  for dbg c
proof
  fix a b assume that: "crv_ok dbg (deletions c) \<and> crv_ok dbg (insertions c)" and ok: "crv_ok dbg a" "crv_ok dbg b"
  from erase_at_set_succ [OF ok(1) conjunct1 [OF that]] obtain a1 where
    1: "erase_at_set dbg a (deletions c) = Some a1" "crv_ok dbg a1"
      "idx a1 = unshift_of (idx (deletions c)) ` (idx a - idx (deletions c))" by (auto elim: succeedsE)
  from shift_for_insert_at_set_succ [OF 1(2) conjunct2 [OF that]] obtain a2 where
    2: "shift_for_insert_at_set dbg a1 (insertions c) = Some a2" "crv_ok dbg a2"
      "idx a2 = shift_of (idx (insertions c)) ` idx a1" by (auto elim: succeedsE)
  show "succeeds (merge_cols dbg c a b) (\<lambda>(a', b'). crv_ok dbg a' \<and> crv_ok dbg b'
      \<and> idx a' = shift_of (idx (insertions c)) ` unshift_of (idx (deletions c)) ` (idx a - idx (deletions c)) \<union> idx b
      \<and> idx b' = idx b)"
    using add_set_succ [OF 2(2) ok(2)] 1 2 ok(2) by (auto simp: merge_cols_def elim!: succeeds_mono)
qed auto


subsection \<open>The old moves\<close>

lemma find_from_pos_None: "find_from_pos k ms i = None \<longleftrightarrow> k \<notin> mv_from ` set ms"
  by (induction ms arbitrary: i) auto

lemma find_from_pos_Some:
  "find_from_pos k ms i = Some n \<Longrightarrow> i \<le> n \<and> n - i < length ms \<and> mv_from (ms ! (n - i)) = k"
proof (induction ms arbitrary: i)
  case (Cons m ms)
  then show ?case by (cases "k = mv_from m") (auto dest!: Cons.IH simp: nth_Cons' Suc_diff_le)
qed simp

lemma swap_remove:
  assumes "distinct xs" "i < length xs"
  shows "set (butlast (xs[i := last xs])) = set xs - {xs ! i} \<and> distinct (butlast (xs[i := last xs]))"
proof -
  obtain ys l where xs: "xs = ys @ [l]" using assms(2) by (cases xs rule: rev_cases) auto
  then have d: "distinct ys" "l \<notin> set ys" using assms(1) by auto
  show ?thesis
  proof (cases "i < length ys")
    case True
    then have "set (ys[i := l]) = insert l (set ys - {ys ! i})" using set_update_distinct [OF d(1)] by simp
    moreover have "ys ! i \<noteq> l" using True d(2) nth_mem by metis
    moreover have "distinct (ys[i := l])" using d True by (intro distinct_list_update) auto
    ultimately show ?thesis using True by (auto simp: xs list_update_append butlast_append nth_append)
  next
    case False
    then have "i = length ys" using assms(2) by (simp add: xs)
    then show ?thesis using d by (auto simp: xs)
  qed
qed

lemma cb_ok_moves [simp]: "cb_ok dbg (c\<lparr>moves := ms\<rparr>) = cb_ok dbg c"
  by (simp add: cb_ok_def)

abbreviation same_but_moves :: "change_builder \<Rightarrow> change_builder \<Rightarrow> bool" where
  "same_but_moves c c' \<equiv> deletions c' = deletions c \<and> insertions c' = insertions c
     \<and> move_mapping c' = move_mapping c \<and> track_columns c' = track_columns c"

definition old_moves_done ::
  "bool \<Rightarrow> mv list \<Rightarrow> change_builder \<Rightarrow> change_builder \<Rightarrow> mv list \<Rightarrow> change_builder \<Rightarrow> change_builder \<Rightarrow> bool" where
  "old_moves_done dbg olds this c ms this' c' \<longleftrightarrow> cb_ok dbg this' \<and> cb_ok dbg c' \<and> same_moves this this'
     \<and> idx (modifications this') = idx (modifications this)
     \<and> same_but_moves c c' \<and> distinct (moves c')
     \<and> set (moves c') = {m \<in> set (moves c). mv_from m \<notin> mv_to ` set olds}
     \<and> idx (modifications c') = idx (modifications c)
         \<union> mv_to ` {m \<in> set (moves c). mv_from m \<in> mv_to ` set olds \<inter> idx (modifications this)}
     \<and> mv_from ` set ms \<subseteq> mv_from ` set olds \<and> (distinct (map mv_from olds) \<longrightarrow> distinct (map mv_from ms))
     \<and> (\<forall>f t. (f, t) \<in> mv_pairs ms \<longrightarrow> (\<exists>j. (f, j) \<in> mv_pairs olds
          \<and> ((j, t) \<in> mv_pairs (moves c) \<or> corr (idx (deletions c)) (idx (insertions c)) j t)))"

lemma split_off:
  assumes "it \<in> S" "f it = a" "a \<notin> F" "\<forall>m\<in>S. f m = a \<longrightarrow> m = it"
  shows "{m \<in> S. f m \<in> insert a F \<inter> M} = (if a \<in> M then {it} else {}) \<union> {m \<in> S - {it}. f m \<in> F \<inter> M}"
    "{m \<in> S. f m \<notin> insert a F} = {m \<in> S - {it}. f m \<notin> F}"
proof -
  show "{m \<in> S. f m \<notin> insert a F} = {m \<in> S - {it}. f m \<notin> F}" using assms by blast
  show "{m \<in> S. f m \<in> insert a F \<inter> M} = (if a \<in> M then {it} else {}) \<union> {m \<in> S - {it}. f m \<in> F \<inter> M}"
    by (cases "a \<in> M"; simp only: if_True if_False; use assms in blast)
qed

lemma split_none:
  assumes "\<forall>m\<in>S. f m \<noteq> a"
  shows "{m \<in> S. f m \<in> insert a F \<inter> M} = {m \<in> S. f m \<in> F \<inter> M}" "{m \<in> S. f m \<notin> insert a F} = {m \<in> S. f m \<notin> F}"
  using assms by blast+

lemma merge_old_moves_ok:
  assumes "cb_ok dbg this" "cb_ok dbg c" "track_columns c = track_columns this"
    "distinct (moves c)" "inj_on mv_from (set (moves c))" "distinct (map mv_to olds)"
  shows "succeeds (merge_old_moves dbg olds this c) (\<lambda>(ms, this', c'). old_moves_done dbg olds this c ms this' c')"
  using assms
proof (induction olds arbitrary: this c)
  case (Cons old olds)
  have new: "mv_to old \<notin> mv_to ` set olds" "distinct (map mv_to olds)" using Cons.prems(6) by auto
  show ?case
  proof (cases "find_from_pos (mv_to old) (moves c) 0")
    case (Some i)
    define it where "it = moves c ! i"
    have i: "i < length (moves c)" "mv_from it = mv_to old" using find_from_pos_Some [OF Some] by (auto simp: it_def)
    have it: "it \<in> set (moves c)" using i(1) by (simp add: it_def)
    have uniq: "m = it" if "m \<in> set (moves c)" "mv_from m = mv_to old" for m
      using Cons.prems(5) that it i(2) by (auto simp: inj_on_def)
    have uniq: "\<forall>m\<in>set (moves c). mv_from m = mv_to old \<longrightarrow> m = it" using uniq by blast
    note split = split_off [OF it i(2) new(1) uniq]
    from move_modified.for_each_col_pair_ok [OF TrueI Cons.prems(1-3), of it] obtain this1 c1 where
      1: "for_each_col_pair (move_modified dbg it) this c = Some (this1, c1)"
        "cb_ok dbg this1 \<and> cb_ok dbg c1 \<and> idx (modifications this1) = idx (modifications this)
         \<and> idx (modifications c1) = (if mv_from it \<in> idx (modifications this)
              then insert (mv_to it) (idx (modifications c)) else idx (modifications c))
         \<and> same_moves this this1 \<and> same_moves c c1" by (rule succeeds2E)
    let ?ms = "butlast ((moves c)[i := last (moves c)])"
    let ?c2 = "c1\<lparr>moves := ?ms\<rparr>"
    have sr: "set ?ms = set (moves c) - {it}" "distinct ?ms"
      using swap_remove [OF Cons.prems(4) i(1)] by (simp_all add: it_def)
    have "cb_ok dbg ?c2" using 1(2) by simp
    moreover have "inj_on mv_from (set (moves ?c2))" using Cons.prems(5) sr(1) by (auto simp: inj_on_def)
    ultimately obtain ms this' c' where
      2: "merge_old_moves dbg olds this1 ?c2 = Some (ms, this', c')" "old_moves_done dbg olds this1 ?c2 ms this' c'"
      using Cons.IH [of this1 ?c2] 1(2) sr(2) Cons.prems(3) new(2) by (auto elim: succeeds3E)
    have "old_moves_done dbg (old # olds) this c (old\<lparr>mv_to := mv_to it\<rparr> # ms) this' c'"
      unfolding old_moves_done_def
    proof (intro conjI allI impI)
      show "set (moves c') = {m \<in> set (moves c). mv_from m \<notin> mv_to ` set (old # olds)}"
        using 2(2) split(2) sr(1) by (simp add: old_moves_done_def)
      show "idx (modifications c') = idx (modifications c)
          \<union> mv_to ` {m \<in> set (moves c). mv_from m \<in> mv_to ` set (old # olds) \<inter> idx (modifications this)}"
        using 2(2) split(1) [of "idx (modifications this)"] sr(1) 1(2) i(2)
        by (auto simp: old_moves_done_def simp del: Int_iff)
      fix f t assume "(f, t) \<in> mv_pairs (old\<lparr>mv_to := mv_to it\<rparr> # ms)"
      then consider "(f, t) = (mv_from old, mv_to it)" | "(f, t) \<in> mv_pairs ms" by auto
      then show "\<exists>j. (f, j) \<in> mv_pairs (old # olds)
          \<and> ((j, t) \<in> mv_pairs (moves c) \<or> corr (idx (deletions c)) (idx (insertions c)) j t)"
      proof cases
        case 1
        have "(mv_to old, mv_to it) \<in> mv_pairs (moves c)" using it i(2) by (force simp: mv_pairs_def)
        then show ?thesis using 1 by auto
      next
        case 2
        have "mv_pairs ?ms \<subseteq> mv_pairs (moves c)" using sr(1) by (auto simp: mv_pairs_def)
        then show ?thesis using 2 \<open>old_moves_done dbg olds this1 ?c2 ms this' c'\<close> 1(2)
          unfolding old_moves_done_def by fastforce
      qed
    qed (use 2(2) 1(2) in \<open>auto simp: old_moves_done_def\<close>)
    then show ?thesis using Some 1(1,2) 2(1) by (simp add: it_def)
  next
    case None
    then have none: "mv_to old \<notin> mv_from ` set (moves c)" by (simp add: find_from_pos_None)
    have "deletions c = deletions c" "crv_ok dbg (deletions c)" "crv_ok dbg (insertions c)"
      using Cons.prems(2) by (auto simp: cb_ok_def)
    note del = contains_ok [OF this(2), of "mv_to old"] and un = unshift_ok [OF this(2), of "mv_to old"]
      and sh = shift_ok [OF this(3)]
    from Cons.IH [OF Cons.prems(1-5) new(2)] obtain ms this' c' where
      2: "merge_old_moves dbg olds this c = Some (ms, this', c')" "old_moves_done dbg olds this c ms this' c'"
      by (rule succeeds3E)
    have "\<forall>m\<in>set (moves c). mv_from m \<noteq> mv_to old" using none by force
    note split = split_none [OF this]
    have *: "old_moves_done dbg (old # olds) this c ms' this' c'"
      if "ms' = ms \<or> (ms' = old\<lparr>mv_to := t\<rparr> # ms \<and> corr (idx (deletions c)) (idx (insertions c)) (mv_to old) t)" for ms' t
      unfolding old_moves_done_def
    proof (intro conjI allI impI)
      show "set (moves c') = {m \<in> set (moves c). mv_from m \<notin> mv_to ` set (old # olds)}"
        using 2(2) split(2) by (simp add: old_moves_done_def)
      show "idx (modifications c') = idx (modifications c)
          \<union> mv_to ` {m \<in> set (moves c). mv_from m \<in> mv_to ` set (old # olds) \<inter> idx (modifications this)}"
        using 2(2) split(1) by (simp add: old_moves_done_def del: Int_iff)
      have sub: "mv_from ` set ms \<subseteq> mv_from ` set olds" using 2(2) by (simp add: old_moves_done_def)
      then show "mv_from ` set ms' \<subseteq> mv_from ` set (old # olds)" using that by (elim disjE) (simp, blast)+
      show "distinct (map mv_from ms')" if "distinct (map mv_from (old # olds))"
      proof -
        have "distinct (map mv_from ms)" "mv_from old \<notin> mv_from ` set ms"
          using that sub 2(2) by (auto simp: old_moves_done_def)
        then show ?thesis using \<open>ms' = ms \<or> _\<close> by auto
      qed
      fix f t' assume "(f, t') \<in> mv_pairs ms'"
      then have "(f, t') \<in> mv_pairs ms \<or> f = mv_from old \<and> corr (idx (deletions c)) (idx (insertions c)) (mv_to old) t'"
        using that by auto
      then show "\<exists>j. (f, j) \<in> mv_pairs (old # olds)
          \<and> ((j, t') \<in> mv_pairs (moves c) \<or> corr (idx (deletions c)) (idx (insertions c)) j t')"
        using 2(2) unfolding old_moves_done_def by fastforce
    qed (use 2(2) in \<open>simp_all add: old_moves_done_def\<close>)
    show ?thesis
    proof (cases "mv_to old \<in> idx (deletions c)")
      case True
      then show ?thesis using None del 2(1) * [of ms] by simp
    next
      case False
      have "corr (idx (deletions c)) (idx (insertions c)) (mv_to old)
          (shift_of (idx (insertions c)) (unshift_of (idx (deletions c)) (mv_to old)))"
        using False corr_shift [OF idx_finite] by simp
      then show ?thesis using None del un False 2(1) * by (simp add: sh)
    qed
  qed
qed (simp add: old_moves_done_def)


subsection \<open>The new moves\<close>

lemma drop_inserted_ok:
  "crv_ok dbg ins \<Longrightarrow> drop_inserted dbg ins ms = Some (filter (\<lambda>m. mv_from m \<notin> idx ins) ms)"
  by (induction ms) (auto simp: contains_ok)

lemma modify_moved_ok:
  assumes "cb_ok dbg this" "cb_ok dbg c" "track_columns c = track_columns this"
  shows "succeeds (modify_moved dbg ms this c) (\<lambda>(this', c'). cb_ok dbg this' \<and> cb_ok dbg c'
    \<and> idx (modifications this') = idx (modifications this)
    \<and> idx (modifications c') = idx (modifications c) \<union> mv_to ` {m \<in> set ms. mv_from m \<in> idx (modifications this)}
    \<and> same_moves this this' \<and> same_moves c c')"
  using assms
proof (induction ms arbitrary: this c)
  case (Cons m ms)
  from move_modified.for_each_col_pair_ok [OF TrueI Cons.prems, of m] obtain this1 c1 where
    1: "for_each_col_pair (move_modified dbg m) this c = Some (this1, c1)"
      "cb_ok dbg this1 \<and> cb_ok dbg c1 \<and> idx (modifications this1) = idx (modifications this)
       \<and> idx (modifications c1) = (if mv_from m \<in> idx (modifications this)
            then insert (mv_to m) (idx (modifications c)) else idx (modifications c))
       \<and> same_moves this this1 \<and> same_moves c c1" by (rule succeeds2E)
  have "{x \<in> set (m # ms). mv_from x \<in> S} = (if mv_from m \<in> S then {m} else {}) \<union> {x \<in> set ms. mv_from x \<in> S}" for S
    by auto
  moreover have "succeeds (modify_moved dbg ms this1 c1) (\<lambda>(this', c'). cb_ok dbg this' \<and> cb_ok dbg c'
    \<and> idx (modifications this') = idx (modifications this1)
    \<and> idx (modifications c') = idx (modifications c1) \<union> mv_to ` {m \<in> set ms. mv_from m \<in> idx (modifications this1)}
    \<and> same_moves this1 this' \<and> same_moves c1 c')"
    using 1(2) Cons.prems(3) by (intro Cons.IH) simp_all
  then obtain this' c' where
    2: "modify_moved dbg ms this1 c1 = Some (this', c')" "cb_ok dbg this' \<and> cb_ok dbg c'
    \<and> idx (modifications this') = idx (modifications this1)
    \<and> idx (modifications c') = idx (modifications c1) \<union> mv_to ` {m \<in> set ms. mv_from m \<in> idx (modifications this1)}
    \<and> same_moves this1 this' \<and> same_moves c1 c'" by (rule succeeds2E)
  ultimately show ?case using 1 by auto
qed simp

definition old_source :: "index_set \<Rightarrow> index_set \<Rightarrow> mv \<Rightarrow> mv" where
  "old_source del ins m = m\<lparr>mv_from := shift_of (idx del) (unshift_of (idx ins) (mv_from m))\<rparr>"

lemma old_source_sel [simp]:
  "mv_from (old_source del ins m) = shift_of (idx del) (unshift_of (idx ins) (mv_from m))"
  "mv_to (old_source del ins m) = mv_to m"
  by (simp_all add: old_source_def)

lemma shift_moves_ok:
  assumes "crv_ok dbg del" "crv_ok dbg ins" "\<forall>m\<in>set ms. mv_from m \<notin> idx ins"
  shows "map_opt (shift_move dbg del ins) ms = Some (map (old_source del ins) ms)"
  using assms by (induction ms) (simp_all add: shift_move_def unshift_ok shift_ok old_source_def)

definition merged_moves :: "bool \<Rightarrow> change_builder \<Rightarrow> change_builder \<Rightarrow> change_builder \<Rightarrow> change_builder \<Rightarrow> bool" where
  "merged_moves dbg this c this' c' \<longleftrightarrow> cb_ok dbg this' \<and> cb_ok dbg c'
     \<and> same_but_moves this this' \<and> same_but_moves c c' \<and> idx (modifications this') = idx (modifications this)
     \<and> (let D = idx (deletions this); I = idx (insertions this); M = idx (modifications this) in
       idx (modifications c') = idx (modifications c) \<union> mv_to ` {m \<in> set (moves c). mv_from m \<in> M
           \<and> (mv_from m \<in> mv_to ` set (moves this) \<or> mv_from m \<notin> I)}
       \<and> (\<exists>olds news. moves this' = olds @ news
           \<and> mv_from ` set olds \<subseteq> mv_from ` set (moves this)
           \<and> (distinct (map mv_from (moves this)) \<longrightarrow> distinct (map mv_from olds))
           \<and> (\<forall>f t. (f, t) \<in> mv_pairs olds \<longrightarrow> (\<exists>j. (f, j) \<in> mv_pairs (moves this)
                \<and> ((j, t) \<in> mv_pairs (moves c) \<or> corr (idx (deletions c)) (idx (insertions c)) j t)))
           \<and> distinct news
           \<and> set news \<subseteq> old_source (deletions this) (insertions this) ` {m \<in> set (moves c). mv_from m \<notin> I}))"


lemma merge_moves_ok:
  assumes ok: "cb_ok dbg c1" "cb_ok dbg c2" and t: "track_columns c2 = track_columns c1"
    and mvs: "mvs_ok (moves c1)" "mvs_ok (moves c2)" and sub: "mv_to ` set (moves c1) \<subseteq> idx (insertions c1)"
  shows "succeeds (merge_moves dbg c1 c2) (\<lambda>(A, B). merged_moves dbg c1 c2 A B)"
proof -
  let ?D = "idx (deletions c1)" and ?I = "idx (insertions c1)" and ?M = "idx (modifications c1)"
  have crv: "crv_ok dbg (deletions c1)" "crv_ok dbg (insertions c1)" using ok(1) by (auto simp: cb_ok_def)
  have "\<exists>A B ms. (if moves c2 \<noteq> [] \<or> deletions c2 \<noteq> [] \<or> insertions c2 \<noteq> []
      then do { (ms, this, c) \<leftarrow> merge_old_moves dbg (moves c1) c1 c2; Some (this\<lparr>moves := ms\<rparr>, c) }
      else Some (c1, c2)) = Some (A\<lparr>moves := ms\<rparr>, B) \<and> old_moves_done dbg (moves c1) c1 c2 ms A B"
  proof (cases "moves c2 \<noteq> [] \<or> deletions c2 \<noteq> [] \<or> insertions c2 \<noteq> []")
    case True
    have "distinct (moves c2)" "inj_on mv_from (set (moves c2))" "distinct (map mv_to (moves c1))"
      using mvs by (auto simp: mvs_ok_def distinct_map)
    from merge_old_moves_ok [OF ok t this] obtain ms A B where
      "merge_old_moves dbg (moves c1) c1 c2 = Some (ms, A, B)" "old_moves_done dbg (moves c1) c1 c2 ms A B"
      by (rule succeeds3E)
    then show ?thesis using True by auto
  next
    case False
    then have e: "moves c2 = []" "deletions c2 = []" "insertions c2 = []" by auto
    have "old_moves_done dbg (moves c1) c1 c2 (moves c1) c1 c2"
      using ok e by (auto simp: old_moves_done_def)
    then show ?thesis using e by (intro exI [of _ c1] exI [of _ c2] exI [of _ "moves c1"]) simp
  qed
  then obtain A B ms where p1: "(if moves c2 \<noteq> [] \<or> deletions c2 \<noteq> [] \<or> insertions c2 \<noteq> []
      then do { (ms, this, c) \<leftarrow> merge_old_moves dbg (moves c1) c1 c2; Some (this\<lparr>moves := ms\<rparr>, c) }
      else Some (c1, c2)) = Some (A\<lparr>moves := ms\<rparr>, B)" and o: "old_moves_done dbg (moves c1) c1 c2 ms A B" by blast
  let ?A = "A\<lparr>moves := ms\<rparr>" and ?ms = "filter (\<lambda>m. mv_from m \<notin> ?I) (moves B)"
  have A: "insertions ?A = insertions c1" "deletions ?A = deletions c1" "idx (modifications ?A) = ?M"
    "cb_ok dbg ?A" "track_columns ?A = track_columns c1" using o by (simp_all add: old_moves_done_def)
  have B: "set (moves B) = {m \<in> set (moves c2). mv_from m \<notin> mv_to ` set (moves c1)}" "cb_ok dbg B"
    "same_but_moves c2 B" "distinct (moves B)"
    "idx (modifications B) = idx (modifications c2) \<union> mv_to ` {m \<in> set (moves c2). mv_from m \<in> mv_to ` set (moves c1) \<inter> ?M}"
    using o by (simp_all add: old_moves_done_def)
  have p2: "(if insertions ?A \<noteq> [] \<and> moves B \<noteq> []
      then do { ms \<leftarrow> drop_inserted dbg (insertions ?A) (moves B); Some (B\<lparr>moves := ms\<rparr>) }
      else Some B) = Some (B\<lparr>moves := ?ms\<rparr>)"
    using drop_inserted_ok [OF crv(2), of "moves B"] unfolding A by (cases "insertions c1 = []") auto
  let ?B = "B\<lparr>moves := ?ms\<rparr>"
  have "\<exists>A' B'. (if modifications ?A \<noteq> [] \<and> moves ?B \<noteq> [] then modify_moved dbg (moves ?B) ?A ?B else Some (?A, ?B))
      = Some (A', B') \<and> cb_ok dbg A' \<and> cb_ok dbg B' \<and> idx (modifications A') = ?M
        \<and> idx (modifications B') = idx (modifications B) \<union> mv_to ` {m \<in> set ?ms. mv_from m \<in> ?M}
        \<and> same_moves ?A A' \<and> same_moves ?B B'"
  proof (cases "modifications ?A \<noteq> [] \<and> moves ?B \<noteq> []")
    case True
    have "succeeds (modify_moved dbg (moves ?B) ?A ?B) (\<lambda>(A', B'). cb_ok dbg A' \<and> cb_ok dbg B'
        \<and> idx (modifications A') = idx (modifications ?A)
        \<and> idx (modifications B') = idx (modifications ?B) \<union> mv_to ` {m \<in> set (moves ?B). mv_from m \<in> idx (modifications ?A)}
        \<and> same_moves ?A A' \<and> same_moves ?B B')"
      by (rule modify_moved_ok) (use A B t in auto)
    then obtain A' B' where "modify_moved dbg (moves ?B) ?A ?B = Some (A', B')" "cb_ok dbg A' \<and> cb_ok dbg B'
        \<and> idx (modifications A') = idx (modifications ?A)
        \<and> idx (modifications B') = idx (modifications ?B) \<union> mv_to ` {m \<in> set (moves ?B). mv_from m \<in> idx (modifications ?A)}
        \<and> same_moves ?A A' \<and> same_moves ?B B'" by (rule succeeds2E)
    then show ?thesis using True A(3) by (intro exI [of _ A'] exI [of _ B']) simp
  next
    case False
    then have "\<not> (m \<in> set ?ms \<and> mv_from m \<in> ?M)" for m using A(3) by (auto simp: filter_empty_conv)
    then have e: "mv_to ` {m \<in> set ?ms. mv_from m \<in> ?M} = {}" by blast
    show ?thesis unfolding e Un_empty_right using False A(3,4) B(2,3)
      by - (rule exI [of _ ?A], rule exI [of _ ?B], auto)
  qed
  then obtain A' B' where
    p3: "(if modifications ?A \<noteq> [] \<and> moves ?B \<noteq> [] then modify_moved dbg (moves ?B) ?A ?B else Some (?A, ?B)) = Some (A', B')"
    and AB': "cb_ok dbg A'" "cb_ok dbg B'" "idx (modifications A') = ?M"
      "idx (modifications B') = idx (modifications B) \<union> mv_to ` {m \<in> set ?ms. mv_from m \<in> ?M}"
      "same_moves ?A A'" "same_moves ?B B'" by blast
  let ?news = "map (old_source (deletions c1) (insertions c1)) ?ms"
  let ?B' = "B'\<lparr>moves := ?news\<rparr>"
  have p4: "(if deletions A' \<noteq> [] \<or> insertions A' \<noteq> []
      then do { ms \<leftarrow> map_opt (shift_move dbg (deletions A') (insertions A')) (moves B'); Some (B'\<lparr>moves := ms\<rparr>) }
      else Some B') = Some ?B'"
  proof (cases "deletions A' \<noteq> [] \<or> insertions A' \<noteq> []")
    case True
    have "map_opt (shift_move dbg (deletions c1) (insertions c1)) ?ms = Some ?news"
      by (rule shift_moves_ok [OF crv]) auto
    then show ?thesis using True AB'(5,6) A(1,2) by simp
  next
    case False
    then have e: "deletions c1 = []" "insertions c1 = []" using AB'(5) A(1,2) by auto
    have "?news = ?ms" by (rule map_idI) (simp add: e old_source_def)
    then show ?thesis using False AB'(6) by simp
  qed
  have run: "merge_moves dbg c1 c2 = Some (A'\<lparr>moves := moves A' @ moves ?B'\<rparr>, ?B')"
    unfolding merge_moves_def p1 Option.bind.simps prod.case p2 p3 p4 ..
  have inj: "inj_on (old_source (deletions c1) (insertions c1)) (set ?ms)"
  proof (rule inj_onI)
    fix m m' assume m: "m \<in> set ?ms" "m' \<in> set ?ms"
      "old_source (deletions c1) (insertions c1) m = old_source (deletions c1) (insertions c1) m'"
    then have "mv_from (old_source (deletions c1) (insertions c1) m) = mv_from (old_source (deletions c1) (insertions c1) m')"
      "mv_to m = mv_to m'" by (metis, metis old_source_sel(2))
    then show "m = m'" using m(1,2) unshift_of_inj by (intro mv.equality) auto
  qed
  have "merged_moves dbg c1 c2 (A'\<lparr>moves := moves A' @ moves ?B'\<rparr>) ?B'"
    unfolding merged_moves_def Let_def
  proof (intro conjI exI)
    have "{m \<in> set (moves c2). mv_from m \<in> ?M \<and> (mv_from m \<in> mv_to ` set (moves c1) \<or> mv_from m \<notin> ?I)}
      = {m \<in> set (moves c2). mv_from m \<in> mv_to ` set (moves c1) \<inter> ?M} \<union> {m \<in> set ?ms. mv_from m \<in> ?M}"
      using B(1) sub by auto
    then show "idx (modifications ?B') = idx (modifications c2) \<union> mv_to ` {m \<in> set (moves c2). mv_from m \<in> ?M
           \<and> (mv_from m \<in> mv_to ` set (moves c1) \<or> mv_from m \<notin> ?I)}"
      using AB'(4) B(5) by (simp add: image_Un Un_assoc)
    show "moves (A'\<lparr>moves := moves A' @ moves ?B'\<rparr>) = ms @ ?news" using AB'(5) by simp
    show "distinct ?news" using B(4) inj by (simp add: distinct_map)
    show "set ?news \<subseteq> old_source (deletions c1) (insertions c1) ` {m \<in> set (moves c2). mv_from m \<notin> ?I}" using B(1) by auto
  qed (use o AB' A B in \<open>simp_all add: old_moves_done_def\<close>)
  then show ?thesis by (simp add: run)
qed


lemma merged_moves_pairs:
  assumes mm: "merged_moves dbg c1 c2 A B" and d1: "describes dbg c1 xs ys" and d2: "describes dbg c2 ys zs"
    and map: "move_mapping c1 = []" "move_mapping c2 = []"
  shows "mvs_ok (moves A)"
    and "(f, t) \<in> mv_pairs (moves A) \<Longrightarrow>
      \<exists>j. (f, j) \<in> mv_pairs (moves c1) \<and> (corr (idx (deletions c2)) (idx (insertions c2)) j t \<or> (j, t) \<in> mv_pairs (moves c2))
        \<or> corr (idx (deletions c1)) (idx (insertions c1)) f j \<and> (j, t) \<in> mv_pairs (moves c2)"
proof -
  let ?D = "idx (deletions c1)" and ?I = "idx (insertions c1)" and ?D2 = "idx (deletions c2)" and ?I2 = "idx (insertions c2)"
  have ok: "mvs_ok (moves c1)" "mvs_ok (moves c2)"
    using d1 d2 by (auto simp: describes_def moves_ok_mvs map)
  have f1: "mv_pairs (moves c1) \<subseteq> ?D \<times> ?I" and f2: "mv_pairs (moves c2) \<subseteq> ?D2 \<times> ?I2"
    using d1 d2 by (auto simp: describes_def tracks_def fits_def move_pairs_mvs map)
  obtain olds news where o: "moves A = olds @ news" "mv_from ` set olds \<subseteq> mv_from ` set (moves c1)"
    "distinct (map mv_from olds)" "distinct news"
    "\<And>f t. (f, t) \<in> mv_pairs olds \<Longrightarrow> \<exists>j. (f, j) \<in> mv_pairs (moves c1) \<and> ((j, t) \<in> mv_pairs (moves c2) \<or> corr ?D2 ?I2 j t)"
    "set news \<subseteq> old_source (deletions c1) (insertions c1) ` {m \<in> set (moves c2). mv_from m \<notin> ?I}"
    using mm ok(1) unfolding merged_moves_def Let_def mvs_ok_def by (elim conjE exE) blast
  have from_inj: "j = j'" if "(f, j) \<in> mv_pairs ms" "(f, j') \<in> mv_pairs ms" "mvs_ok ms" for f j j' ms
    using that by (auto simp: mv_pairs_def mvs_ok_def distinct_map dest: inj_onD)
  have to_inj: "j = j'" if "(j, t) \<in> mv_pairs ms" "(j', t) \<in> mv_pairs ms" "mvs_ok ms" for t j j' ms
    using that by (auto simp: mv_pairs_def mvs_ok_def distinct_map dest: inj_onD)
  have new: "\<exists>j. corr ?D ?I f j \<and> (j, t) \<in> mv_pairs (moves c2)" if ft: "(f, t) \<in> mv_pairs news" for f t
  proof -
    from ft o(6) obtain m where m: "m \<in> set (moves c2)" "mv_from m \<notin> ?I" "f = shift_of ?D (unshift_of ?I (mv_from m))" "t = mv_to m"
      by (force simp: mv_pairs_def)
    then have "corr ?D ?I f (mv_from m)" using shift_of_props [OF idx_finite] by (simp add: corr_def)
    then show ?thesis using m by (auto simp: mv_pairs_def)
  qed
  show "(f, t) \<in> mv_pairs (moves A) \<Longrightarrow> \<exists>j. (f, j) \<in> mv_pairs (moves c1) \<and> (corr ?D2 ?I2 j t \<or> (j, t) \<in> mv_pairs (moves c2))
        \<or> corr ?D ?I f j \<and> (j, t) \<in> mv_pairs (moves c2)"
    using o(5) new unfolding o(1) by fastforce
  have P: "(mv_from m, mv_to m) \<in> mv_pairs ms" if "m \<in> set ms" for m ms
    using that by (auto simp: mv_pairs_def)
  have olds_to: "inj_on mv_to (set olds)"
  proof (rule inj_onI)
    fix m m' assume m: "m \<in> set olds" "m' \<in> set olds" "mv_to m = mv_to m'"
    from o(5) [OF P [OF m(1)]] o(5) [OF P [OF m(2)]] obtain j j' where
      j: "(mv_from m, j) \<in> mv_pairs (moves c1)" "(j, mv_to m) \<in> mv_pairs (moves c2) \<or> corr ?D2 ?I2 j (mv_to m)"
        "(mv_from m', j') \<in> mv_pairs (moves c1)" "(j', mv_to m) \<in> mv_pairs (moves c2) \<or> corr ?D2 ?I2 j' (mv_to m)"
      unfolding m(3) by blast
    have excl: "\<not> ((k, mv_to m) \<in> mv_pairs (moves c2) \<and> corr ?D2 ?I2 k' (mv_to m))" for k k'
      using f2 by (auto simp: corr_def)
    have "j = j'" using j(2,4) excl to_inj [OF _ _ ok(2)] corr_inj by metis
    then have "mv_from m = mv_from m'" using j(1,3) to_inj [OF _ _ ok(1)] by blast
    then show "m = m'" using m(1,2) o(3) by (auto simp: distinct_map dest: inj_onD)
  qed
  have news_to: "inj_on mv_to (set news)"
  proof (rule inj_onI)
    fix m m' assume m: "m \<in> set news" "m' \<in> set news" "mv_to m = mv_to m'"
    from m(1,2) o(6) obtain a b where ab: "a \<in> set (moves c2)" "b \<in> set (moves c2)"
      "m = old_source (deletions c1) (insertions c1) a" "m' = old_source (deletions c1) (insertions c1) b" by blast
    then have "a = b" using m(3) ok(2) by (auto simp: mvs_ok_def distinct_map dest: inj_onD)
    then show "m = m'" using ab by simp
  qed
  have news_from: "inj_on mv_from (set news)"
  proof (rule inj_onI)
    fix m m' assume m: "m \<in> set news" "m' \<in> set news" "mv_from m = mv_from m'"
    from new [OF P [OF m(1)]] new [OF P [OF m(2)]] obtain j j' where
      j: "corr ?D ?I (mv_from m) j" "(j, mv_to m) \<in> mv_pairs (moves c2)"
        "corr ?D ?I (mv_from m) j'" "(j', mv_to m') \<in> mv_pairs (moves c2)" unfolding m(3) by blast
    then have "mv_to m = mv_to m'" using corr_inj from_inj [OF _ _ ok(2)] by metis
    then show "m = m'" using m(3) by (intro mv.equality) auto
  qed
  have disj_from: "mv_from m \<noteq> mv_from m'" if "m \<in> set olds" "m' \<in> set news" for m m'
    using o(5) [OF P [OF that(1)]] new [OF P [OF that(2)]] f1 by (auto simp: corr_def)
  have disj_to: "mv_to m \<noteq> mv_to m'" if "m \<in> set olds" "m' \<in> set news" for m m'
  proof
    assume eq: "mv_to m = mv_to m'"
    from o(5) [OF P [OF that(1)]] new [OF P [OF that(2)]] obtain j j' where
      j: "(mv_from m, j) \<in> mv_pairs (moves c1)" "(j, mv_to m) \<in> mv_pairs (moves c2) \<or> corr ?D2 ?I2 j (mv_to m)"
        "corr ?D ?I (mv_from m') j'" "(j', mv_to m) \<in> mv_pairs (moves c2)" unfolding eq by blast
    then have "(j, mv_to m) \<in> mv_pairs (moves c2)" using f2 by (auto simp: corr_def)
    then have "j = j'" using j(4) to_inj [OF _ _ ok(2)] by blast
    then show False using j(1,3) f1 by (auto simp: corr_def)
  qed
  have "distinct olds" using o(3) by (simp add: distinct_map)
  then show "mvs_ok (moves A)"
    using o(3,4) olds_to news_to news_from disj_from disj_to by (auto simp: mvs_ok_def o(1) distinct_map)
qed

lemma describes_empty:
  assumes d: "describes dbg c xs ys" and e: "cs_empty c" and mm: "move_mapping c = []"
  shows "xs = ys"
proof -
  have e': "deletions c = []" "insertions c = []" "modifications c = []" "moves c = []"
    using e by (auto simp: cs_empty_def)
  have t: "fits {} {} {} (length xs) (length ys)" "same fst {} (pairs {} {} {} (length xs) (length ys)) xs ys"
    "same snd {} (pairs {} {} {} (length xs) (length ys)) xs ys"
    using d by (simp_all add: describes_def tracks_def move_pairs_def mm e')
  then have len: "length xs = length ys" by (simp add: fits_def)
  show ?thesis
  proof (rule nth_equalityI [OF len])
    fix i assume "i < length xs"
    then show "xs ! i = ys ! i" using t(2,3) len by (auto simp: same_def pairs_def prod_eq_iff)
  qed
qed

lemma cb_verify_describes:
  assumes "describes dbg c xs ys"
  shows "cb_verify dbg c = Some ()"
proof -
  have *: "verify_moves dbg ms c = Some ()"
    if "mv_pairs ms \<subseteq> idx (deletions c) \<times> idx (insertions c)" for ms
    using that assms by (induction ms) (auto simp: contains_ok describes_def cb_ok_def)
  have "mv_pairs (moves c) \<subseteq> idx (deletions c) \<times> idx (insertions c)"
    using assms by (auto simp: describes_def tracks_def fits_def move_pairs_def mv_pairs_def)
  from * [OF this] show ?thesis by (cases dbg) (simp_all add: cb_verify_def)
qed


subsection \<open>merge\<close>

lemma for_each_col_pair_frame:
  "for_each_col_pair f (c\<lparr>deletions := d, insertions := i, moves := m\<rparr>) other
    = map_option (\<lambda>(c', other'). (c'\<lparr>deletions := d, insertions := i, moves := m\<rparr>, other'))
        (for_each_col_pair f c other)"
  by (cases "f (modifications c) (modifications other)")
    (auto simp: for_each_col_pair_def Let_def map_option_case split: prod.splits Option.bind_splits
      intro!: change_builder.equality)

theorem cb_merge_ok:
  assumes d1: "describes dbg c1 xs ys" and d2: "describes dbg c2 ys zs"
    and map: "move_mapping c1 = []" "move_mapping c2 = []" and t: "track_columns c2 = track_columns c1"
    and fit: "\<And>del. add_shifted_by dbg (deletions c1) (insertions c1) (deletions c2) = Some del
      \<Longrightarrow> length (ranges del) \<le> (length (ranges (deletions c1)) div max_size dbg + 1) * max_size dbg"
  shows "succeeds (cb_merge dbg c1 c2) (\<lambda>c. describes dbg c xs zs \<and> move_mapping c = [])"
proof -
  let ?D = "idx (deletions c1)" and ?I = "idx (insertions c1)" and ?M = "idx (modifications c1)"
  let ?D2 = "idx (deletions c2)" and ?I2 = "idx (insertions c2)" and ?M2 = "idx (modifications c2)"
  have ok: "cb_ok dbg c1" "cb_ok dbg c2" and mvs: "mvs_ok (moves c1)" "mvs_ok (moves c2)"
    using d1 d2 by (auto simp: describes_def moves_ok_mvs map)
  have crv: "crv_ok dbg (deletions c1)" "crv_ok dbg (insertions c1)" "crv_ok dbg (deletions c2)" "crv_ok dbg (insertions c2)"
    using ok by (auto simp: cb_ok_def)
  have tr2: "tracks ?D2 ?I2 (move_pairs c2) ys zs" and s2: "same snd ?M2 (cb_pairs c2 (length ys) (length zs)) ys zs"
    using d2 by (auto simp: describes_def)
  have f1: "fits ?D ?I (mv_pairs (moves c1)) (length xs) (length ys)"
    and f2: "fits ?D2 ?I2 (mv_pairs (moves c2)) (length ys) (length zs)"
    using d1 d2 by (auto simp: describes_def tracks_def move_pairs_mvs map)
  have to_I: "mv_to ` set (moves c1) \<subseteq> ?I" using f1 by (auto simp: fits_def mv_pairs_def)
  from merge_moves_ok [OF ok t mvs to_I] obtain A B where
    run1: "merge_moves dbg c1 c2 = Some (A, B)" and mm: "merged_moves dbg c1 c2 A B" by (rule succeeds2E)
  have A: "cb_ok dbg A" "same_but_moves c1 A" "idx (modifications A) = ?M" and B: "cb_ok dbg B" "same_but_moves c2 B"
    and MB: "idx (modifications B) = ?M2 \<union> mv_to ` {m \<in> set (moves c2). mv_from m \<in> ?M
           \<and> (mv_from m \<in> mv_to ` set (moves c1) \<or> mv_from m \<notin> ?I)}"
    using mm by (simp_all add: merged_moves_def Let_def)
  from add_shifted_by_ok [OF crv(1-3)] fit obtain del where
    del: "add_shifted_by dbg (deletions c1) (insertions c1) (deletions c2) = Some del" "crv_ok dbg del"
      "idx del = comp_del ?D ?I ?D2" unfolding comp_del_def by blast
  from erase_at_set_succ [OF crv(2,3)] obtain ins1 where
    ins1: "erase_at_set dbg (insertions c1) (deletions c2) = Some ins1" "crv_ok dbg ins1"
      "idx ins1 = unshift_of ?D2 ` (?I - ?D2)" by (auto elim: succeedsE)
  from insert_at_set_succ [OF ins1(2) crv(4)] obtain ins where
    ins: "insert_at_set dbg ins1 (insertions c2) = Some ins" "crv_ok dbg ins" "idx ins = comp_ins ?I ?D2 ?I2"
    by (auto simp: comp_ins_def ins1(3) elim: succeedsE)
  let ?P = "A\<lparr>deletions := del, insertions := ins\<rparr>"
  have P: "cb_ok dbg ?P" "track_columns B = track_columns ?P" using A B t del(2) ins(2) by (auto simp: cb_ok_def)
  have ready: "crv_ok dbg (deletions B) \<and> crv_ok dbg (insertions B)" using B(2) crv by simp
  from merge_cols.for_each_col_pair_ok [OF ready P(1) B(1) P(2)] obtain G B' where
    run2: "for_each_col_pair (merge_cols dbg B) ?P B = Some (G, B')" and
    G: "cb_ok dbg G" "idx (modifications G) = shift_of ?I2 ` unshift_of ?D2 ` (?M - ?D2) \<union> idx (modifications B)"
      "same_moves ?P G" using A(2,3) B(2) by (auto elim: succeeds2E)
  have mG: "move_mapping G = []" "moves G = moves A" using G(3) A(2) map by auto
  have "describes dbg G xs zs"
  proof (rule describes_step [OF d1 tr2 s2 G(1)])
    show "moves_ok G" using merged_moves_pairs(1) [OF mm d1 d2 map] by (simp add: moves_ok_mvs mG)
    show "?M2 \<subseteq> idx (modifications G)" using G(2) MB by auto
    show "idx (modifications G) \<subseteq> {..<length zs}"
    proof
      fix k assume "k \<in> idx (modifications G)"
      then consider j where "j \<in> ?M" "j \<notin> ?D2" "k = shift_of ?I2 (unshift_of ?D2 j)" | "k \<in> ?M2"
        | m where "m \<in> set (moves c2)" "k = mv_to m" unfolding G(2) MB by blast
      then show "k \<in> {..<length zs}"
      proof cases
        case 1
        then have "corr ?D2 ?I2 j k" by (simp add: corr_shift [OF idx_finite])
        moreover have "j < length ys" using 1(1) d1 by (auto simp: describes_def)
        ultimately show ?thesis using fits_corr_less [OF f2] by simp
      next
        case 2
        then show ?thesis using d2 by (auto simp: describes_def)
      next
        case 3
        then show ?thesis using f2 by (auto simp: fits_def mv_pairs_def)
      qed
    qed
    show "k \<in> idx (modifications G)"
      if "(i, j) \<in> cb_pairs c1 (length xs) (length ys)" "corr ?D2 ?I2 j k \<or> (j, k) \<in> move_pairs c2" "j \<in> ?M" for i j k
      using that(2)
    proof
      assume c: "corr ?D2 ?I2 j k"
      then have "j \<notin> ?D2" "k = shift_of ?I2 (unshift_of ?D2 j)" using corr_shift [OF idx_finite] by (auto simp: corr_def)
      then show ?thesis using that(3) by (simp add: G(2))
    next
      assume "(j, k) \<in> move_pairs c2"
      then obtain m where m: "m \<in> set (moves c2)" "mv_from m = j" "mv_to m = k"
        by (auto simp: move_pairs_mvs map mv_pairs_def)
      have "j \<in> mv_to ` set (moves c1) \<or> j \<notin> ?I"
        using that(1) by (auto simp: pairs_def corr_def move_pairs_mvs map mv_pairs_def)
      then have "m \<in> {m \<in> set (moves c2). mv_from m \<in> ?M \<and> (mv_from m \<in> mv_to ` set (moves c1) \<or> mv_from m \<notin> ?I)}"
        using m(1) that(3) by (simp add: m(2))
      then show ?thesis using m(3) unfolding G(2) MB by blast
    qed
    show "\<exists>j. (f, j) \<in> move_pairs c1 \<and> (corr ?D2 ?I2 j t \<or> (j, t) \<in> move_pairs c2)
        \<or> corr ?D ?I f j \<and> (j, t) \<in> move_pairs c2" if "(f, t) \<in> move_pairs G" for f t
      using merged_moves_pairs(2) [OF mm d1 d2 map, of f t] that by (simp add: move_pairs_mvs map mG)
  qed (use G(3) del(3) ins(3) in simp_all)
  note dG = this
  have "crv_ok dbg (deletions G)" "crv_ok dbg (insertions G)" using G(1) by (auto simp: cb_ok_def)
  moreover have "mv_pairs (moves G) \<subseteq> idx (deletions G) \<times> idx (insertions G)"
    using dG by (simp add: describes_def tracks_def fits_def move_pairs_mvs mG)
  moreover have "mvs_ok (moves G)" using dG by (simp add: describes_def moves_ok_mvs mG)
  ultimately obtain del' ins' ms' where
    run3: "stale_moves dbg (deletions G) (insertions G) (moves G) = Some (del', ins', ms')"
    by (rule stale_moves_ok [THEN succeeds3E])
  let ?R = "G\<lparr>deletions := del', insertions := ins', moves := ms'\<rparr>"
  have dR: "describes dbg ?R xs zs" by (rule stale_moves_describes [OF dG mG(1) run3])
  have run4: "clean_up_stale_moves dbg ?P = Some (A\<lparr>deletions := del', insertions := ins', moves := ms'\<rparr>)"
    using run3 G(3) by (simp add: clean_up_stale_moves_def)
  have run5: "for_each_col_pair (merge_cols dbg B) (A\<lparr>deletions := del', insertions := ins', moves := ms'\<rparr>) B = Some (?R, B')"
    using for_each_col_pair_frame [where c = ?P and d = del' and i = ins' and m = ms'] by (simp add: run2)
  have merged: "cb_merge dbg c1 c2 = Some ?R" if "\<not> cs_empty c1" "\<not> cs_empty c2"
    using that cb_verify_describes [OF d1] cb_verify_describes [OF d2] cb_verify_describes [OF dR]
      run1 A(2) B(2) del(1) ins1(1) ins(1) run4 run5
    by (simp add: cb_merge_def)
  show ?thesis
  proof (cases "cs_empty c2")
    case True
    then show ?thesis using d1 map describes_empty [OF d2 True map(2)] by (simp add: cb_merge_def)
  next
    case ne: False
    show ?thesis
    proof (cases "cs_empty c1")
      case True
      then show ?thesis using ne d2 map describes_empty [OF d1 True map(1)] by (simp add: cb_merge_def)
    next
      case False
      then show ?thesis using merged ne dR mG by simp
    qed
  qed
qed

subsection \<open>finalize\<close>

lemma cb_finalize_ok:
  assumes ok: "cb_ok dbg c"
  shows "succeeds (cb_finalize dbg c) (\<lambda>s. deletions s = deletions c \<and> insertions s = insertions c \<and> moves s = moves c
    \<and> columns s = columns c \<and> crv_ok dbg (modifications s) \<and> crv_ok dbg (modifications_new s)
    \<and> idx (modifications_new s) = idx (modifications c) - idx (insertions c)
    \<and> idx (modifications s) = {i. \<exists>j\<in>idx (modifications c). corr (idx (deletions c)) (idx (insertions c)) i j})"
proof -
  let ?D = "idx (deletions c)" and ?I = "idx (insertions c)" and ?M = "idx (modifications c)"
  have crv: "crv_ok dbg (deletions c)" "crv_ok dbg (insertions c)" "crv_ok dbg (modifications c)"
    using cb_okD [OF ok] by auto
  from erase_at_set_succ [OF crv(3,2)] obtain m1 where
    1: "erase_at_set dbg (modifications c) (insertions c) = Some m1" "crv_ok dbg m1"
      "idx m1 = unshift_of ?I ` (?M - ?I)" by (auto elim: succeedsE)
  from shift_for_insert_at_set_succ [OF 1(2) crv(1)] obtain m2 where
    2: "shift_for_insert_at_set dbg m1 (deletions c) = Some m2" "crv_ok dbg m2" "idx m2 = shift_of ?D ` idx m1"
    by (auto elim: succeedsE)
  from remove_set_succ [OF crv(3,2)] obtain m3 where
    3: "remove_set dbg (modifications c) (insertions c) = Some m3" "crv_ok dbg m3" "idx m3 = ?M - ?I"
    by (auto elim: succeedsE)
  have "shift_of ?D ` idx m1 = {i. \<exists>j\<in>?M. corr ?D ?I i j}"
  proof (intro set_eqI iffI)
    fix i assume "i \<in> shift_of ?D ` idx m1"
    then obtain j where "j \<in> ?M" "j \<notin> ?I" "i = shift_of ?D (unshift_of ?I j)" by (auto simp: 1(3))
    then have "corr ?D ?I i j" using shift_of_props [OF idx_finite] by (simp add: corr_def)
    then show "i \<in> {i. \<exists>j\<in>?M. corr ?D ?I i j}" using \<open>j \<in> ?M\<close> by blast
  next
    fix i assume "i \<in> {i. \<exists>j\<in>?M. corr ?D ?I i j}"
    then obtain j where j: "j \<in> ?M" "corr ?D ?I i j" by blast
    then have "j \<notin> ?I" "i = shift_of ?D (unshift_of ?I j)"
      by (auto simp: corr_def intro: shift_of_unshift_of [symmetric] shift_ofI [symmetric])
    then show "i \<in> shift_of ?D ` idx m1" using j(1) by (auto simp: 1(3))
  qed
  then show ?thesis using 1 2 3 by (simp add: cb_finalize_def)
qed

end
