(* ===== verification/Change_Builder_Runs.thy ===== *)
theory Change_Builder_Runs
  imports Change_Merge
begin

section \<open>CollectionChangeBuilder: runs of operations\<close>

text \<open>
  The transaction log parser feeds the builder one operation after the other. For tables these are
  the operations with row semantics (rows are appended, and deleting one moves the last row into its
  place), ended by \<open>parse_complete\<close>; for lists of links the positional ones. Both are interpretations
  of the \<open>simulation\<close> interface, with the collection before and after as the abstract state.
\<close>

subsection \<open>parse_complete\<close>

definition stays :: "change_builder \<Rightarrow> nat \<Rightarrow> bool" where
  "stays c m \<longleftrightarrow> (\<forall>i j. corr (idx (deletions c)) (idx (insertions c)) i j \<longrightarrow> i < m \<longrightarrow> i = j)"

lemma stays_step:
  assumes s: "stays c m" and k: "keeps_place c c' n"
    and f: "fits (idx (deletions c')) (idx (insertions c')) mv m n"
  shows "stays c' m"
  unfolding stays_def
proof (intro allI impI)
  fix i j assume c: "corr (idx (deletions c')) (idx (insertions c')) i j" and i: "i < m"
  then have "j < n" using fits_corr_less [OF f] by blast
  then have "corr (idx (deletions c)) (idx (insertions c)) i j" using k c by (simp add: keeps_place_def)
  then show "i = j" using s i by (simp add: stays_def)
qed

definition to_mv :: "size_t \<times> size_t \<Rightarrow> mv" where
  "to_mv p = \<lparr>mv_from = snd p, mv_to = fst p\<rparr>"

lemma to_mv_simps [simp]: "mv_from (to_mv p) = snd p" "mv_to (to_mv p) = fst p"
  by (simp_all add: to_mv_def)

lemma stays_unshift:
  assumes fit: "fits D I mv m n" and s: "\<forall>i j. corr D I i j \<longrightarrow> i < m \<longrightarrow> i = j" and f: "f \<in> D" "f \<in> I"
  shows "unshift_of D f = unshift_of I f"
proof -
  note fin = fits_finite [OF fit]
  have fm: "f < m" "f < n" using fit f by (auto simp: fits_def)
  have "i \<in> D \<longleftrightarrow> i \<in> I" if i: "i < f" for i
  proof
    assume "i \<in> D"
    show "i \<in> I"
    proof (rule ccontr)
      assume "i \<notin> I"
      then obtain k where k: "corr D I k i" using corr_total [of D i I] fin by (auto simp: corr_sym [of D I])
      then have "k < m" using fits_corr_less [OF fit k] i fm(2) by simp
      then show False using s k \<open>i \<in> D\<close> by (auto simp: corr_def)
    qed
  next
    assume "i \<in> I"
    show "i \<in> D"
    proof (rule ccontr)
      assume "i \<notin> D"
      then obtain k where k: "corr D I i k" using corr_total fin by blast
      have "i < m" using i fm(1) by simp
      then have "i = k" using s k by blast
      then show False using k \<open>i \<in> I\<close> by (simp add: corr_def)
    qed
  qed
  then have "{..<f} - D = {..<f} - I" by auto
  then show ?thesis by (simp add: unshift_of_card)
qed

definition mapped :: "(size_t \<times> size_t) list \<Rightarrow> (size_t \<times> size_t) set" where
  "mapped al = (\<lambda>(k, v). (v, k)) ` set al"

definition parse_inv :: "bool \<Rightarrow> (size_t \<times> size_t) list \<Rightarrow> change_builder \<Rightarrow> nat \<Rightarrow> nat \<Rightarrow> bool" where
  "parse_inv dbg al c m n \<longleftrightarrow> crv_ok dbg (deletions c) \<and> crv_ok dbg (insertions c) \<and> stays c m
     \<and> fits (idx (deletions c)) (idx (insertions c)) (mv_pairs (moves c) \<union> mapped al) m n
     \<and> mvs_ok (moves c @ map to_mv al)"

lemma avoid_pair: "v \<notin> fst ` Q \<Longrightarrow> k \<notin> snd ` Q \<Longrightarrow> Q \<subseteq> A \<times> B \<Longrightarrow> Q \<subseteq> (A - {v}) \<times> (B - {k})"
  by force

lemma parse_moves_ok:
  assumes "parse_inv dbg al c m n"
  shows "succeeds (parse_moves dbg al c) (\<lambda>c'. parse_inv dbg [] c' m n
    \<and> modifications c' = modifications c \<and> columns c' = columns c \<and> track_columns c' = track_columns c
    \<and> idx (deletions c') \<subseteq> idx (deletions c) \<and> idx (insertions c') \<subseteq> idx (insertions c)
    \<and> (\<forall>i j. corr (idx (deletions c')) (idx (insertions c')) i j \<or> (i, j) \<in> mv_pairs (moves c')
        \<longleftrightarrow> corr (idx (deletions c)) (idx (insertions c)) i j \<or> (i, j) \<in> mv_pairs (moves c) \<union> mapped al))"
  using assms
proof (induction al arbitrary: c)
  case Nil
  then show ?case by (simp add: mapped_def)
next
  case (Cons p al)
  obtain k v where p: "p = (k, v)" by (cases p)
  let ?D = "idx (deletions c)" and ?I = "idx (insertions c)"
  have crv: "crv_ok dbg (deletions c)" "crv_ok dbg (insertions c)" and st: "stays c m"
    and fit: "fits ?D ?I (mv_pairs (moves c) \<union> mapped ((k, v) # al)) m n"
    and ok: "mvs_ok (moves c @ to_mv (k, v) # map to_mv al)"
    using Cons.prems by (auto simp: parse_inv_def p)
  have vk: "v \<in> ?D" "k \<in> ?I" using fit by (auto simp: fits_def mapped_def)
  have guards: "contains dbg (deletions c) v = Some True" "contains dbg (insertions c) k = Some True"
    using contains_ok crv vk by auto
  show ?case
  proof (cases "k = v")
    case False
    let ?c = "c\<lparr>moves := moves c @ [\<lparr>mv_from = v, mv_to = k\<rparr>]\<rparr>"
    have mp: "mv_pairs (moves ?c) \<union> mapped al = mv_pairs (moves c) \<union> mapped ((k, v) # al)"
      by (auto simp: mapped_def)
    have "parse_inv dbg al ?c m n"
      unfolding parse_inv_def mp using crv st fit ok by (simp add: stays_def to_mv_def)
    from Cons.IH [OF this] show ?thesis
      using False guards unfolding mp p by (cases dbg) simp_all
  next
    case True
    from remove1_succ [OF crv(1), of v] obtain del where
      del: "remove dbg (deletions c) v 1 = Some del" "crv_ok dbg del" "idx del = ?D - {v}" by (auto elim: succeedsE)
    from remove1_succ [OF crv(2), of k] obtain ins where
      ins: "remove dbg (insertions c) k 1 = Some ins" "crv_ok dbg ins" "idx ins = ?I - {k}" by (auto elim: succeedsE)
    let ?c = "c\<lparr>deletions := del, insertions := ins\<rparr>"
    have un: "unshift_of ?D v = unshift_of ?I k"
      using stays_unshift [OF fit] st vk True by (simp add: stays_def)
    have drop: "corr (idx del) (idx ins) i j \<longleftrightarrow> corr ?D ?I i j \<or> i = v \<and> j = k" for i j
      unfolding del(3) ins(3) by (rule corr_drop [OF idx_finite idx_finite vk un])
    have sub: "mv_pairs (moves c) \<union> mapped al \<subseteq> idx del \<times> idx ins"
    proof -
      let ?Q = "mv_pairs (moves c) \<union> mapped al"
      have "fst ` ?Q = mv_from ` set (moves c) \<union> snd ` set al" "snd ` ?Q = mv_to ` set (moves c) \<union> fst ` set al"
        by (simp_all add: mv_pairs_def mapped_def image_Un image_image case_prod_unfold)
      then have "v \<notin> fst ` ?Q" "k \<notin> snd ` ?Q" using ok by (auto simp: mvs_ok_def)
      moreover have "?Q \<subseteq> ?D \<times> ?I" using fit by (auto simp: fits_def mapped_def)
      ultimately show ?thesis unfolding del(3) ins(3) by (rule avoid_pair)
    qed
    have "fits (idx del) (idx ins) (mv_pairs (moves c) \<union> mapped al) m n"
      using fit sub drop [of m n] by (auto simp: fits_def del(3) ins(3))
    moreover have "stays ?c m" using st drop True by (auto simp: stays_def)
    moreover have "mvs_ok (moves c @ map to_mv al)" using ok by (auto simp: mvs_ok_def)
    ultimately have "parse_inv dbg al ?c m n" using del(2) ins(2) by (simp add: parse_inv_def)
    from Cons.IH [OF this] obtain c' where c': "parse_moves dbg al ?c = Some c'" "parse_inv dbg [] c' m n"
      "modifications c' = modifications c" "columns c' = columns c" "track_columns c' = track_columns c"
      "idx (deletions c') \<subseteq> idx del" "idx (insertions c') \<subseteq> idx ins"
      and eq: "\<And>i j. corr (idx (deletions c')) (idx (insertions c')) i j \<or> (i, j) \<in> mv_pairs (moves c')
        \<longleftrightarrow> corr (idx del) (idx ins) i j \<or> (i, j) \<in> mv_pairs (moves c) \<union> mapped al"
      by (rule succeedsE) auto
    have "corr (idx del) (idx ins) i j \<or> (i, j) \<in> mv_pairs (moves c) \<union> mapped al
        \<longleftrightarrow> corr ?D ?I i j \<or> (i, j) \<in> mv_pairs (moves c) \<union> mapped (p # al)" for i j
      unfolding drop by (auto simp: p mapped_def)
    note eq [unfolded this]
    then show ?thesis
      using True guards del(1,3) ins(1,3) c' by (cases dbg) (auto simp: p)
  qed
qed

lemma mv_pairs_sort [simp]: "mv_pairs (sort_key f ms) = mv_pairs ms"
  by (simp add: mv_pairs_def)

lemma mvs_ok_sort [simp]: "mvs_ok (sort_key f ms) \<longleftrightarrow> mvs_ok ms"
  by (simp add: mvs_ok_def distinct_map)

lemma parse_complete_ok:
  assumes d: "describes dbg c xs ys" and mv: "moves c = []" and st: "stays c (length xs)"
  shows "succeeds (parse_complete dbg c) (\<lambda>c'. describes dbg c' xs ys \<and> move_mapping c' = []
    \<and> sorted (map mv_from (moves c')))"
proof -
  have mp: "move_pairs c = mv_pairs (moves c) \<union> mapped (move_mapping c)"
    by (simp add: move_pairs_def mv_pairs_def mapped_def)
  have "mvs_ok (map to_mv (move_mapping c))"
    using d by (simp add: describes_def moves_ok_def mvs_ok_def o_def)
  then have "parse_inv dbg (move_mapping c) c (length xs) (length ys)"
    using d st mv unfolding parse_inv_def mp [symmetric] by (simp add: describes_def cb_ok_def tracks_def)
  from parse_moves_ok [OF this] obtain c1 where
    1: "parse_moves dbg (move_mapping c) c = Some c1" "parse_inv dbg [] c1 (length xs) (length ys)"
      "modifications c1 = modifications c" "columns c1 = columns c" "track_columns c1 = track_columns c"
      "idx (deletions c1) \<subseteq> idx (deletions c)" "idx (insertions c1) \<subseteq> idx (insertions c)"
    and eq: "\<And>i j. corr (idx (deletions c1)) (idx (insertions c1)) i j \<or> (i, j) \<in> mv_pairs (moves c1)
        \<longleftrightarrow> corr (idx (deletions c)) (idx (insertions c)) i j \<or> (i, j) \<in> move_pairs c"
    unfolding mp by (rule succeedsE) auto
  let ?c = "c1\<lparr>move_mapping := [], moves := sort_key mv_from (moves c1)\<rparr>"
  have ok: "cb_ok dbg ?c" using d 1(2-5) by (simp add: describes_def cb_ok_def parse_inv_def)
  have mok: "moves_ok ?c" using 1(2) by (simp add: moves_ok_mvs parse_inv_def)
  have "mv_pairs (moves c1) \<subseteq> idx (deletions c1) \<times> idx (insertions c1)"
    using 1(2) by (simp add: parse_inv_def fits_def)
  then have "describes dbg ?c xs ys"
    by (intro describes_same_pairs [OF d ok mok]) (use 1 eq in \<open>simp_all add: move_pairs_mvs\<close>)
  then show ?thesis using 1(1) by (simp add: parse_complete_def)
qed


subsection \<open>Operations on tables\<close>

datatype ('k, 'v) row_op =
    Row_insert size_t "('k, 'v) row list"
  | Row_modify size_t size_t 'v
  | Row_move_over size_t size_t
  | Row_swap size_t size_t
  | Row_clear size_t

fun row_step :: "bool \<Rightarrow> ('k, 'v) row_op \<Rightarrow> change_builder \<Rightarrow> change_builder option" where
  "row_step dbg (Row_insert i rows) c = cb_insert dbg c i (length rows) True"
| "row_step dbg (Row_modify i col v) c = cb_modify dbg c i col"
| "row_step dbg (Row_move_over r l) c = cb_move_over dbg c r l True"
| "row_step dbg (Row_swap a b) c = cb_swap dbg c a b True"
| "row_step dbg (Row_clear n) c = cb_clear dbg c n"

fun row_spec :: "('k, 'v) row_op \<Rightarrow> ('k, 'v) row list \<Rightarrow> ('k, 'v) row list" where
  "row_spec (Row_insert i rows) ys = ys @ rows"
| "row_spec (Row_modify i col v) ys = ys[i := (fst (ys ! i), v)]"
| "row_spec (Row_move_over r l) ys = move_over_list r ys"
| "row_spec (Row_swap a b) ys = swap_list a b ys"
| "row_spec (Row_clear n) ys = []"

fun row_pre :: "('k, 'v) row_op \<Rightarrow> ('k, 'v) row list \<Rightarrow> bool" where
  "row_pre (Row_insert i rows) ys \<longleftrightarrow> i = length ys \<and> rows \<noteq> []"
| "row_pre (Row_modify i col v) ys \<longleftrightarrow> i < length ys"
| "row_pre (Row_move_over r l) ys \<longleftrightarrow> length ys = Suc l \<and> r \<le> l \<and> length ys \<le> npos"
| "row_pre (Row_swap a b) ys \<longleftrightarrow> a < length ys \<and> b < length ys \<and> a \<noteq> b"
| "row_pre (Row_clear n) ys \<longleftrightarrow> n = length ys \<and> n < npos"

definition row_inv :: "bool \<Rightarrow> ('k, 'v) row list \<Rightarrow> change_builder \<Rightarrow> ('k, 'v) row list \<Rightarrow> bool" where
  "row_inv dbg xs c ys \<longleftrightarrow> describes dbg c xs ys \<and> moves c = [] \<and> stays c (length xs)"

lemma row_invI:
  assumes "stays c (length xs)" "describes dbg c' xs zs" "moves c' = []" "keeps_place c c' (length zs)"
  shows "row_inv dbg xs c' zs"
  using assms stays_step [OF assms(1,4)] by (auto simp: row_inv_def describes_def tracks_def)

lemma ins_list_end: "ins_list (length ys) new ys = ys @ new"
  by (simp add: ins_list_def)

lemma length_move_over_list [simp]: "length (move_over_list r ys) = length ys - 1"
  by (simp add: move_over_list_def)

lemma row_step_ok:
  assumes inv: "row_inv dbg xs c ys" and pre: "row_pre op ys"
  shows "succeeds (row_step dbg op c) (\<lambda>c'. row_inv dbg xs c' (row_spec op ys))"
proof -
  have d: "describes dbg c xs ys" and mv: "moves c = []" and st: "stays c (length xs)"
    using inv by (auto simp: row_inv_def)
  note I = row_invI [OF st]
  show ?thesis
  proof (cases op)
    case (Row_insert i rows)
    then have i: "i = length ys" "rows \<noteq> []" using pre by auto
    show ?thesis unfolding Row_insert row_step.simps row_spec.simps
      by (rule succeeds_mono [OF cb_insert_ok [OF d _ i(2), of i]]) (use i mv I in \<open>auto simp: ins_list_end\<close>)
  next
    case (Row_modify i col v)
    then have i: "i < length ys" using pre by simp
    show ?thesis unfolding Row_modify row_step.simps row_spec.simps
      by (rule succeeds_mono [OF cb_modify_ok [OF d i, of col v]])
        (use mv st in \<open>auto simp: row_inv_def stays_def\<close>)
  next
    case (Row_move_over r l)
    then have l: "length ys = Suc l" "length ys \<le> npos" "r \<le> l" using pre by auto
    show ?thesis
    proof (cases "r = l")
      case True
      have "move_over_list l ys = del_list l ys" using move_over_last [of ys] l(1) by fastforce
      then show ?thesis unfolding Row_move_over row_step.simps row_spec.simps
        using cb_move_over_last_ok [OF d l(1,2) mv] l(1) I True by (auto elim!: succeeds_mono)
    next
      case False
      then have "r < l" using l(3) by simp
      from cb_move_over_ok [OF d l(1,2) this mv] show ?thesis
        unfolding Row_move_over row_step.simps row_spec.simps using I l(1) by (auto elim!: succeeds_mono)
    qed
  next
    case (Row_swap a b)
    then have ab: "a < length ys" "b < length ys" "a \<noteq> b" using pre by auto
    from cb_swap_ok [OF d ab mv] show ?thesis
      unfolding Row_swap row_step.simps row_spec.simps using I by (auto simp: swap_list_def elim!: succeeds_mono)
  next
    case (Row_clear n)
    then have n: "length ys < npos" "n = length ys" using pre by auto
    have "row_inv dbg xs c' []" if "describes dbg c' xs ([] :: ('a, 'b) row list)" "moves c' = []" for c'
      by (rule I [OF that]) (simp add: keeps_place_def)
    then show ?thesis using cb_clear_ok [OF d n(1)] n(2) unfolding Row_clear by (auto elim!: succeeds_mono)
  qed
qed

interpretation row_sim: simulation "row_inv dbg xs" "row_step dbg" row_pre row_spec for dbg xs
  by unfold_locales (rule row_step_ok)

lemma row_inv_nil: "row_inv dbg xs cb_nil xs"
  using describes_nil by (simp add: row_inv_def stays_def cb_nil_def)

subsection \<open>Operations on lists of links\<close>

datatype ('k, 'v) list_op =
    List_insert size_t "('k, 'v) row list"
  | List_modify size_t size_t 'v
  | List_erase size_t
  | List_move size_t size_t
  | List_clear size_t

fun list_step :: "bool \<Rightarrow> ('k, 'v) list_op \<Rightarrow> change_builder \<Rightarrow> change_builder option" where
  "list_step dbg (List_insert i rows) c = cb_insert dbg c i (length rows) True"
| "list_step dbg (List_modify i col v) c = cb_modify dbg c i col"
| "list_step dbg (List_erase i) c = cb_erase dbg c i"
| "list_step dbg (List_move f t) c = cb_move dbg c f t"
| "list_step dbg (List_clear n) c = cb_clear dbg c n"

fun list_spec :: "('k, 'v) list_op \<Rightarrow> ('k, 'v) row list \<Rightarrow> ('k, 'v) row list" where
  "list_spec (List_insert i rows) ys = ins_list i rows ys"
| "list_spec (List_modify i col v) ys = ys[i := (fst (ys ! i), v)]"
| "list_spec (List_erase i) ys = del_list i ys"
| "list_spec (List_move f t) ys = move_list f t ys"
| "list_spec (List_clear n) ys = []"

fun list_pre :: "('k, 'v) list_op \<Rightarrow> ('k, 'v) row list \<Rightarrow> bool" where
  "list_pre (List_insert i rows) ys \<longleftrightarrow> i \<le> length ys \<and> rows \<noteq> []"
| "list_pre (List_modify i col v) ys \<longleftrightarrow> i < length ys"
| "list_pre (List_erase i) ys \<longleftrightarrow> i < length ys \<and> length ys \<le> npos"
| "list_pre (List_move f t) ys \<longleftrightarrow> f < length ys \<and> t < length ys \<and> f \<noteq> t \<and> length ys \<le> npos"
| "list_pre (List_clear n) ys \<longleftrightarrow> n = length ys \<and> n < npos"

definition list_inv :: "bool \<Rightarrow> ('k, 'v) row list \<Rightarrow> change_builder \<Rightarrow> ('k, 'v) row list \<Rightarrow> bool" where
  "list_inv dbg xs c ys \<longleftrightarrow> describes dbg c xs ys \<and> move_mapping c = []"

lemma list_step_ok:
  assumes inv: "list_inv dbg xs c ys" and pre: "list_pre op ys"
  shows "succeeds (list_step dbg op c) (\<lambda>c'. list_inv dbg xs c' (list_spec op ys))"
proof -
  have d: "describes dbg c xs ys" and mm: "move_mapping c = []" using inv by (auto simp: list_inv_def)
  show ?thesis
  proof (cases op)
    case (List_insert i rows)
    then show ?thesis using cb_insert_ok [OF d, of i rows] mm pre
      by (auto simp: list_inv_def elim!: succeeds_mono)
  next
    case (List_modify i col v)
    then show ?thesis using cb_modify_ok [OF d, of i col v] mm pre
      by (auto simp: list_inv_def elim!: succeeds_mono)
  next
    case (List_erase i)
    then show ?thesis using cb_erase_ok [OF d _ _ mm, of i] pre by (auto simp: list_inv_def elim!: succeeds_mono)
  next
    case (List_move f t)
    then show ?thesis using cb_move_ok [OF d _ _ _ _ mm, of f t] pre by (auto simp: list_inv_def elim!: succeeds_mono)
  next
    case (List_clear n)
    then show ?thesis using cb_clear_ok [OF d] pre by (auto simp: list_inv_def elim!: succeeds_mono)
  qed
qed

interpretation list_sim: simulation "list_inv dbg xs" "list_step dbg" list_pre list_spec for dbg xs
  by unfold_locales (rule list_step_ok)

lemma list_inv_nil: "list_inv dbg xs cb_nil xs"
  using describes_nil by (simp add: list_inv_def cb_nil_def)

subsection \<open>What a right change set says\<close>

definition applies :: "change_builder \<Rightarrow> ('k, 'v) row list \<Rightarrow> ('k, 'v) row list \<Rightarrow> bool" where
  "applies c xs ys \<longleftrightarrow>
     without (idx (deletions c)) (map fst xs) = without (idx (insertions c)) (map fst ys)
     \<and> (\<forall>m\<in>set (moves c). mv_from m \<in> idx (deletions c) \<and> mv_to m \<in> idx (insertions c)
          \<and> mv_from m < length xs \<and> mv_to m < length ys \<and> fst (xs ! mv_from m) = fst (ys ! mv_to m))"

lemma describes_applies: "describes dbg c xs ys \<Longrightarrow> applies c xs ys"
proof -
  assume d: "describes dbg c xs ys"
  then have t: "tracks (idx (deletions c)) (idx (insertions c)) (move_pairs c) xs ys" by (simp add: describes_def)
  have "mv_from m \<in> idx (deletions c) \<and> mv_to m \<in> idx (insertions c)
      \<and> mv_from m < length xs \<and> mv_to m < length ys \<and> fst (xs ! mv_from m) = fst (ys ! mv_to m)"
    if m: "m \<in> set (moves c)" for m
  proof -
    have mp: "(mv_from m, mv_to m) \<in> move_pairs c" using m by (force simp: move_pairs_def)
    then have "mv_from m \<in> idx (deletions c)" "mv_to m \<in> idx (insertions c)" "mv_from m < length xs" "mv_to m < length ys"
      using t by (auto simp: tracks_def fits_def)
    then show ?thesis using t mp by (fastforce simp: tracks_def same_def pairs_def)
  qed
  then show ?thesis using tracks_without [OF t] by (simp add: applies_def)
qed

subsection \<open>Columns\<close>

definition col :: "change_builder \<Rightarrow> size_t \<Rightarrow> index_set" where
  "col c i = (if i < length (columns c) then columns c ! i else [])"

lemma col_insert_column:
  "col (insert_column c ndx) i = (if i < ndx then col c i else if i = ndx then [] else col c (i - 1))"
  by (auto simp: insert_column_def col_def nth_append nth_Cons min_def split: nat.splits
      intro!: arg_cong [where f = "(!) (columns c)"])

lemma nth_rotated:
  assumes "f < length cols" "t < length cols" "i < length cols"
  shows "f < t \<Longrightarrow> (take f cols @ take (t - f) (drop (f + 1) cols) @ [cols ! f] @ drop (t + 1) cols) ! i
      = (if i < f \<or> t < i then cols ! i else if i = t then cols ! f else cols ! (i + 1))"
    and "t \<le> f \<Longrightarrow> (take t cols @ [cols ! f] @ take (f - t) (drop t cols) @ drop (f + 1) cols) ! i
      = (if i < t \<or> f < i then cols ! i else if i = t then cols ! f else cols ! (i - 1))"
proof -
  have d: "(drop k cols) ! j = cols ! n" if "n < length cols" "n = k + j" for k j n using that by simp
  show "(take f cols @ take (t - f) (drop (f + 1) cols) @ [cols ! f] @ drop (t + 1) cols) ! i
      = (if i < f \<or> t < i then cols ! i else if i = t then cols ! f else cols ! (i + 1))" if "f < t"
  proof -
    consider "i < f" | "f \<le> i" "i < t" | "i = t" | "t < i" by linarith
    then show ?thesis using assms that by cases (auto simp: nth_append min_def nth_Cons')
  qed
  show "(take t cols @ [cols ! f] @ take (f - t) (drop t cols) @ drop (f + 1) cols) ! i
      = (if i < t \<or> f < i then cols ! i else if i = t then cols ! f else cols ! (i - 1))" if "t \<le> f"
  proof -
    consider "i < t" | "i = t" | "t < i" "i \<le> f" | "f < i" by linarith
    then show ?thesis using assms that by cases (auto simp: nth_append min_def nth_Cons')
  qed
qed

lemma col_move_column:
  "col (move_column c f t) i =
    (if f < t then if i < f \<or> t < i then col c i else if i = t then col c f else col c (i + 1)
     else if i < t \<or> f < i then col c i else if i = t then col c f else col c (i - 1))"
proof (cases "f \<ge> length (columns c) \<and> t \<ge> length (columns c)")
  case True
  then show ?thesis by (auto simp: move_column_def col_def)
next
  case False
  define cols where "cols = (if f \<ge> length (columns c) \<or> t \<ge> length (columns c)
      then columns c @ replicate (max f t + 1 - length (columns c)) [] else columns c)"
  have col: "col c j = (if j < length cols then cols ! j else [])" for j
    by (auto simp: col_def cols_def nth_append)
  have ft: "f < length cols" "t < length cols" using False by (auto simp: cols_def)
  let ?new = "if f < t then take f cols @ take (t - f) (drop (f + 1) cols) @ [cols ! f] @ drop (t + 1) cols
     else take t cols @ [cols ! f] @ take (f - t) (drop t cols) @ drop (f + 1) cols"
  have new: "columns (move_column c f t) = ?new"
    using False unfolding move_column_def cols_def [symmetric] Let_def by (auto split: if_splits)
  have "length ?new = length cols" using ft by auto
  then have "col (move_column c f t) i = (if i < length cols then ?new ! i else [])"
    by (simp only: col_def new)
  then show ?thesis
    using nth_rotated [OF ft, of i] ft by (auto simp: col)
qed

end
