(* ===== verification/Change_Calculate.thy ===== *)
theory Change_Calculate
  imports Change_Builder_Runs
begin

section \<open>CollectionChangeBuilder: calculating a change set from two lists of rows\<close>

text \<open>
  \<open>calculate(prev_rows, next_rows, row_did_change, move_candidates)\<close>: the change set that turns one
  list of row indices into another. Rows of \<open>prev_rows\<close> that have been deleted are \<open>npos\<close>. Without
  move candidates the moves are found by a longest common subsequence of blocks, as in the code
  by repeatedly taking the longest matching block and recursing to both sides of it.
  \<open>std::sort\<close> is modelled by \<open>sort_key\<close>, one of the orders the standard allows for equal elements;
  the keys are distinct unless a list of links holds a row twice. The subtractions that may leave
  the range of \<open>size_t\<close> are written out with their wrap-around.
\<close>

subsection \<open>The code\<close>

record row_info =
  row_index :: size_t
  prev_tv_index :: size_t
  tv_index :: size_t
  shifted_tv_index :: size_t

definition size_sub :: "size_t \<Rightarrow> size_t \<Rightarrow> size_t" where
  "size_sub a b = (a + 2 ^ 64 - b) mod 2 ^ 64"

definition size_add :: "size_t \<Rightarrow> size_t \<Rightarrow> size_t" where
  "size_add a b = (a + b) mod 2 ^ 64"

text \<open>Rows of a query without a sort: rows move by \<open>move_last_over\<close> only.\<close>

fun calculate_moves_unsorted :: "bool \<Rightarrow> index_set \<Rightarrow> row_info list \<Rightarrow> size_t \<Rightarrow> index_set \<Rightarrow> change_builder
    \<Rightarrow> (index_set \<times> change_builder) option" where
  "calculate_moves_unsorted dbg candidates [] expected removed c = Some (removed, c)"
| "calculate_moves_unsorted dbg candidates (row # rows) expected removed c =
     (if shifted_tv_index row = expected
      then calculate_moves_unsorted dbg candidates rows (expected + 1) removed c
      else do {
        candidate \<leftarrow> contains dbg candidates (row_index row);
        (if \<not> candidate
         then calculate_moves_unsorted dbg candidates rows (shifted_tv_index row + 1) removed c
         else do {
           i \<leftarrow> count dbg (insertions c) 0 (tv_index row);
           d \<leftarrow> count dbg removed 0 (prev_tv_index row);
           let calc_expected = tv_index row - i + d;
           (if shifted_tv_index row = calc_expected
            then calculate_moves_unsorted dbg candidates rows (calc_expected + 1) removed c
            else do {
              ins \<leftarrow> add dbg (insertions c) (tv_index row);
              rem \<leftarrow> add dbg removed (prev_tv_index row);
              calculate_moves_unsorted dbg candidates rows expected rem
                (c\<lparr>moves := moves c @ [\<lparr>mv_from = prev_tv_index row, mv_to = tv_index row\<rparr>], insertions := ins\<rparr>)
            })
         })
      })"

record lcs_row =
  l_row :: size_t
  l_tv :: size_t

record lcs_match =
  m_i :: size_t
  m_j :: size_t
  m_size :: size_t
  m_modified :: size_t

text \<open>The lambda \<open>length\<close>: \<open>prev\<close> pairs the positions matched by the previous row with the lengths there.\<close>

fun block_length :: "(size_t \<times> size_t) list \<Rightarrow> size_t \<Rightarrow> size_t" where
  "block_length [] j = 1"
| "block_length (p # ps) j = (if fst p + 1 = j then snd p + 1 else block_length ps j)"

text \<open>The body of the lambda given to \<open>for_each_b_match\<close>.\<close>

definition match_at :: "bool \<Rightarrow> index_set \<Rightarrow> size_t \<Rightarrow> size_t \<Rightarrow> size_t \<Rightarrow> size_t \<Rightarrow> size_t \<Rightarrow> (size_t \<times> size_t) list
    \<Rightarrow> size_t \<Rightarrow> (size_t \<times> size_t) list \<times> lcs_match \<Rightarrow> ((size_t \<times> size_t) list \<times> lcs_match) option" where
  "match_at dbg modified begin1 end1 begin2 end2 i prev j = (\<lambda>(cur, best). do {
     let size = block_length prev j;
     let cur = cur @ [(j, size)];
     best \<leftarrow>
       (if size > m_size best
        then Some \<lparr>m_i = size_add (size_sub i size) 1, m_j = size_add (size_sub j size) 1, m_size = size, m_modified = npos\<rparr>
        else if size = m_size best then do {
          best_modified \<leftarrow> (if m_modified best = npos
            then count dbg modified (size_add (size_sub (m_j best) size) 1) (m_j best + 1)
            else Some (m_modified best));
          let best = best\<lparr>m_modified := best_modified\<rparr>;
          n \<leftarrow> count dbg modified (size_add (size_sub j size) 1) (j + 1);
          Some (if n < m_modified best
                then \<lparr>m_i = size_add (size_sub i size) 1, m_j = size_add (size_sub j size) 1, m_size = size, m_modified = n\<rparr>
                else best)
        }
        else Some best);
     realm_assert (m_i best \<ge> begin1 \<and> m_i best + m_size best \<le> end1);
     realm_assert (m_j best \<ge> begin2 \<and> m_j best + m_size best \<le> end2);
     Some (cur, best)
   })"

text \<open>\<open>for_each_b_match\<close>, from the first element of \<open>b\<close> that is not below the row on.\<close>

fun for_each_b :: "size_t \<Rightarrow> size_t \<Rightarrow> size_t \<Rightarrow> (size_t \<Rightarrow> 's \<Rightarrow> 's option) \<Rightarrow> lcs_row list \<Rightarrow> 's \<Rightarrow> 's option" where
  "for_each_b ai begin2 end2 f [] s = Some s"
| "for_each_b ai begin2 end2 f (r # rs) s =
     (if l_row r \<noteq> ai then Some s
      else if l_tv r < begin2 then for_each_b ai begin2 end2 f rs s
      else if l_tv r \<ge> end2 then Some s
      else do { s \<leftarrow> f (l_tv r) s; for_each_b ai begin2 end2 f rs s })"

definition for_each_b_match :: "lcs_row list \<Rightarrow> size_t \<Rightarrow> size_t \<Rightarrow> size_t \<Rightarrow> (size_t \<Rightarrow> 's \<Rightarrow> 's option) \<Rightarrow> 's \<Rightarrow> 's option" where
  "for_each_b_match b ai begin2 end2 f s = do {
     let it = dropWhile (\<lambda>r. l_row r < ai) b;
     realm_assert (it \<noteq> [] \<and> l_row (hd it) = ai);
     for_each_b ai begin2 end2 f it s
   }"

fun longest_match_loop :: "bool \<Rightarrow> index_set \<Rightarrow> lcs_row list \<Rightarrow> lcs_row list \<Rightarrow> size_t \<Rightarrow> size_t \<Rightarrow> size_t \<Rightarrow> size_t
    \<Rightarrow> size_t list \<Rightarrow> (size_t \<times> size_t) list \<Rightarrow> lcs_match \<Rightarrow> lcs_match option" where
  "longest_match_loop dbg modified a b begin1 end1 begin2 end2 [] prev best = Some best"
| "longest_match_loop dbg modified a b begin1 end1 begin2 end2 (i # is) prev best = do {
     (cur, best) \<leftarrow> for_each_b_match b (l_row (a ! i)) begin2 end2
                     (match_at dbg modified begin1 end1 begin2 end2 i prev) ([], best);
     longest_match_loop dbg modified a b begin1 end1 begin2 end2 is cur best
   }"

definition find_longest_match :: "bool \<Rightarrow> index_set \<Rightarrow> lcs_row list \<Rightarrow> lcs_row list \<Rightarrow> size_t \<Rightarrow> size_t \<Rightarrow> size_t \<Rightarrow> size_t
    \<Rightarrow> lcs_match option" where
  "find_longest_match dbg modified a b begin1 end1 begin2 end2 =
     longest_match_loop dbg modified a b begin1 end1 begin2 end2 [begin1..<end1] []
       \<lparr>m_i = begin1, m_j = begin2, m_size = 0, m_modified = 0\<rparr>"

partial_function (option) find_longest_matches ::
  "bool \<Rightarrow> index_set \<Rightarrow> lcs_row list \<Rightarrow> lcs_row list \<Rightarrow> size_t \<Rightarrow> size_t \<Rightarrow> size_t \<Rightarrow> size_t \<Rightarrow> lcs_match list option" where
  [code]: "find_longest_matches dbg modified a b begin1 end1 begin2 end2 = do {
     m \<leftarrow> find_longest_match dbg modified a b begin1 end1 begin2 end2;
     (if m_size m = 0 then Some []
      else do {
        before \<leftarrow> (if m_i m > begin1 \<and> m_j m > begin2
                   then find_longest_matches dbg modified a b begin1 (m_i m) begin2 (m_j m) else Some []);
        after \<leftarrow> (if m_i m + m_size m < end2 \<and> m_j m + m_size m < end2
                  then find_longest_matches dbg modified a b (m_i m + m_size m) end1 (m_j m + m_size m) end2
                  else Some []);
        Some (before @ m # after)
      })
   }"

fun add_all :: "bool \<Rightarrow> size_t list \<Rightarrow> index_set \<Rightarrow> index_set option" where
  "add_all dbg [] cs = Some cs"
| "add_all dbg (i # is) cs = do { cs \<leftarrow> add dbg cs i; add_all dbg is cs }"

text \<open>The loop that deletes and inserts the rows between the matches.\<close>

fun align_matches :: "bool \<Rightarrow> lcs_row list \<Rightarrow> row_info list \<Rightarrow> lcs_match list \<Rightarrow> size_t \<Rightarrow> size_t
    \<Rightarrow> index_set \<Rightarrow> index_set \<Rightarrow> (index_set \<times> index_set) option" where
  "align_matches dbg a rows [] i j del ins = Some (del, ins)"
| "align_matches dbg a rows (m # ms) i j del ins = do {
     del \<leftarrow> add_all dbg (map (\<lambda>k. l_tv (a ! k)) [i..<m_i m]) del;
     ins \<leftarrow> add_all dbg (map (\<lambda>k. tv_index (rows ! k)) [j..<m_j m]) ins;
     align_matches dbg a rows ms (max i (m_i m) + m_size m) (max j (m_j m) + m_size m) del ins
   }"

fun first_difference :: "lcs_row list \<Rightarrow> row_info list \<Rightarrow> nat \<Rightarrow> nat option" where
  "first_difference (a # as) (r # rs) i = (if l_row a \<noteq> row_index r then Some i else first_difference as rs (i + 1))"
| "first_difference _ _ i = None"

definition lcs_a :: "row_info list \<Rightarrow> lcs_row list" where
  "lcs_a rows = sort_key (\<lambda>r. l_tv r) (sort_key (\<lambda>r. l_row r)
     (map (\<lambda>r. \<lparr>l_row = row_index r, l_tv = prev_tv_index r\<rparr>) rows))"

definition lcs_b :: "row_info list \<Rightarrow> lcs_row list" where
  "lcs_b rows = sort_key (\<lambda>r. l_row r) (map (\<lambda>i. \<lparr>l_row = row_index (rows ! i), l_tv = i\<rparr>) [0..<length rows])"

definition calculate_moves_sorted :: "bool \<Rightarrow> row_info list \<Rightarrow> change_builder \<Rightarrow> change_builder option" where
  "calculate_moves_sorted dbg rows c = do {
     let a = lcs_a rows;
     (case first_difference a rows 0 of
        None \<Rightarrow> Some c
      | Some d \<Rightarrow> do {
          let b = lcs_b rows;
          ms \<leftarrow> find_longest_matches dbg (modifications c) a b d (length a) d (length b);
          (del, ins) \<leftarrow> align_matches dbg a rows
             (ms @ [\<lparr>m_i = length a, m_j = length b, m_size = 0, m_modified = 0\<rparr>]) d d (deletions c) (insertions c);
          Some (c\<lparr>deletions := del, insertions := ins\<rparr>)
        })
   }"

text \<open>The loop over the old rows, and the one that pairs old and new rows by their row index.\<close>

fun collect_old :: "bool \<Rightarrow> size_t list \<Rightarrow> nat \<Rightarrow> nat \<Rightarrow> index_set \<Rightarrow> (row_info list \<times> index_set) option" where
  "collect_old dbg [] i deleted del = Some ([], del)"
| "collect_old dbg (r # rs) i deleted del =
     (if r = npos then do {
        del \<leftarrow> add dbg del i;
        collect_old dbg rs (i + 1) (deleted + 1) del
      }
      else do {
        (rows, del) \<leftarrow> collect_old dbg rs (i + 1) deleted del;
        Some (\<lparr>row_index = r, prev_tv_index = npos, tv_index = i, shifted_tv_index = i - deleted\<rparr> # rows, del)
      })"

fun pair_rows :: "bool \<Rightarrow> row_info list \<Rightarrow> row_info list \<Rightarrow> index_set \<Rightarrow> index_set
    \<Rightarrow> (row_info list \<times> index_set \<times> index_set) option" where
  "pair_rows dbg [] news removed ins = do {
     ins \<leftarrow> add_all dbg (map tv_index news) ins;
     Some (news, removed, ins)
   }"
| "pair_rows dbg (old # olds) [] removed ins = do {
     removed \<leftarrow> add_all dbg (map tv_index (old # olds)) removed;
     Some ([], removed, ins)
   }"
| "pair_rows dbg (old # olds) (new # news) removed ins =
     (if row_index old = row_index new then do {
        (rows, removed, ins) \<leftarrow> pair_rows dbg olds news removed ins;
        Some (new\<lparr>prev_tv_index := tv_index old, shifted_tv_index := shifted_tv_index old\<rparr> # rows, removed, ins)
      }
      else if row_index old < row_index new then do {
        removed \<leftarrow> add dbg removed (tv_index old);
        pair_rows dbg olds (new # news) removed ins
      }
      else do {
        ins \<leftarrow> add dbg ins (tv_index new);
        (rows, removed, ins) \<leftarrow> pair_rows dbg (old # olds) news removed ins;
        Some (new # rows, removed, ins)
      })"

fun erase_rows :: "range list \<Rightarrow> size_t list \<Rightarrow> size_t list" where
  "erase_rows [] rows = rows"
| "erase_rows (r # rs) rows = erase_rows rs (take (fst r) rows @ drop (snd r) rows)"

fun insert_rows :: "size_t list \<Rightarrow> size_t list \<Rightarrow> size_t list \<Rightarrow> size_t list" where
  "insert_rows next [] rows = rows"
| "insert_rows next (i # is) rows = insert_rows next is (take i rows @ next ! i # drop i rows)"

definition calculate :: "bool \<Rightarrow> size_t list \<Rightarrow> size_t list \<Rightarrow> (size_t \<Rightarrow> bool) \<Rightarrow> index_set option \<Rightarrow> change_builder option" where
  "calculate dbg prev_rows next_rows row_did_change move_candidates = do {
     realm_assert_debug dbg (move_candidates = None \<or> sorted next_rows);
     (old_rows, del) \<leftarrow> collect_old dbg prev_rows 0 0 [];
     let old_rows = sort_key row_index old_rows;
     let new_rows = sort_key row_index
           (map (\<lambda>i. \<lparr>row_index = next_rows ! i, prev_tv_index = npos, tv_index = i, shifted_tv_index = 0\<rparr>) [0..<length next_rows]);
     (new_rows, removed, ins) \<leftarrow> pair_rows dbg old_rows new_rows [] [];
     let new_rows = sort_key tv_index (filter (\<lambda>row. prev_tv_index row \<noteq> npos) new_rows);
     modif \<leftarrow> add_all dbg (map tv_index (filter (\<lambda>row. row_did_change (row_index row)) new_rows)) [];
     let ret = cb_nil\<lparr>deletions := del, insertions := ins, modifications := modif\<rparr>;
     (removed, ret) \<leftarrow> (case move_candidates of
         Some candidates \<Rightarrow> calculate_moves_unsorted dbg candidates new_rows 0 removed ret
       | None \<Rightarrow> do { ret \<leftarrow> calculate_moves_sorted dbg new_rows ret; Some (removed, ret) });
     del \<leftarrow> add_set dbg (deletions ret) removed;
     let ret = ret\<lparr>deletions := del\<rparr>;
     cb_verify dbg ret;
     (if dbg then do {
        is \<leftarrow> as_indexes (insertions ret);
        realm_assert (insert_rows next_rows is (erase_rows (rev (ranges (deletions ret))) prev_rows) = next_rows)
      } else Some ());
     Some ret
   }"

end
