(* ===== verification/Change_Properties.thy ===== *)
theory Change_Properties
  imports Change_Calculate "HOL-Library.Code_Target_Nat"
begin

section \<open>CollectionChangeBuilder: its properties\<close>

text \<open>
  A collection is a list of rows, a row a pair of its identity and its contents. \<open>describes dbg c xs ys\<close>
  says that the builder \<open>c\<close> is well formed and that its deletions, insertions, moves and modifications
  are a right change set from \<open>xs\<close> to \<open>ys\<close>; \<open>applies c xs ys\<close> spells out what a listener reads from it.
\<close>

declare npos_def [code]

text \<open>Concrete collections for the witnesses.\<close>

type_synonym nat_rows = "(nat \<times> nat) list"

abbreviation (input) nat_rows :: "nat_rows \<Rightarrow> nat_rows" where
  "nat_rows xs \<equiv> xs"



text \<open>C6: The operations of a list of links. Whatever rows are inserted, modified, erased or moved, at
  whatever positions, the builder never fails an assertion and its change set leads from the list
  before to the list after.\<close>

theorem list_changes:
  assumes "list_sim.enabled ops xs"
  shows "\<exists>c. fold_opt (list_step dbg) ops cb_nil = Some c
    \<and> describes dbg c xs (fold list_spec ops xs) \<and> applies c xs (fold list_spec ops xs)"
proof -
  from list_sim.run_ok [OF list_inv_nil assms, of dbg] obtain c where
    "fold_opt (list_step dbg) ops cb_nil = Some c" "list_inv dbg xs c (fold list_spec ops xs)"
    by (rule succeedsE)
  then show ?thesis using describes_applies unfolding list_inv_def by blast
qed

theorem list_changes_witness:
  "\<exists>c. fold_opt (list_step True) [List_insert 1 (nat_rows [(4, 0), (5, 0)]), List_move 0 2, List_erase 4, List_modify 0 1 9] cb_nil = Some c
    \<and> describes True c (nat_rows [(1, 0), (2, 0), (3, 0)]) (nat_rows [(4, 9), (5, 0), (1, 0), (2, 0)])
    \<and> applies c (nat_rows [(1, 0), (2, 0), (3, 0)]) (nat_rows [(4, 9), (5, 0), (1, 0), (2, 0)])"
  using list_changes [of "[List_insert 1 (nat_rows [(4, 0), (5, 0)]), List_move 0 2, List_erase 4, List_modify 0 1 9]"
      "nat_rows [(1, 0), (2, 0), (3, 0)]" True]
  by (simp add: ins_list_def del_list_def move_list_def npos_def)


definition example_first :: change_builder where
  "example_first = the (fold_opt (list_step True)
     [List_erase 1, List_move 0 2 :: (nat, nat) list_op, List_modify 0 0 8] cb_nil)"

definition example_second :: change_builder where
  "example_second = the (fold_opt (list_step True)
     [List_move 2 0 :: (nat, nat) list_op, List_insert 1 [(9, 0)], List_erase 2] cb_nil)"

lemma list_built:
  assumes "list_sim.enabled ops xs"
  shows "describes dbg (the (fold_opt (list_step dbg) ops cb_nil)) xs (fold list_spec ops xs)
    \<and> move_mapping (the (fold_opt (list_step dbg) ops cb_nil)) = []"
  using list_sim.run_ok [OF list_inv_nil assms, of dbg] by (auto simp: list_inv_def elim!: succeedsE)


text \<open>C10: \<open>finalize\<close> keeps deletions, insertions and moves. The new modifications are the modified rows
  that are not insertions, and the old ones are the same rows at their old positions, so both sets
  have the same number of indices.\<close>

theorem finalize_modifications:
  assumes "describes dbg c xs ys"
  shows "\<exists>s. cb_finalize dbg c = Some s \<and> deletions s = deletions c \<and> insertions s = insertions c
    \<and> moves s = moves c \<and> idx (modifications_new s) = idx (modifications c) - idx (insertions c)
    \<and> idx (modifications s) = {i. \<exists>j\<in>idx (modifications_new s). corr (idx (deletions c)) (idx (insertions c)) i j}
    \<and> card (idx (modifications s)) = card (idx (modifications_new s))"
proof -
  let ?D = "idx (deletions c)" and ?I = "idx (insertions c)"
  have ok: "cb_ok dbg c" using assms by (simp add: describes_def)
  from cb_finalize_ok [OF ok] obtain s where
    s: "cb_finalize dbg c = Some s" "deletions s = deletions c" "insertions s = insertions c" "moves s = moves c"
      "idx (modifications_new s) = idx (modifications c) - ?I"
      "idx (modifications s) = {i. \<exists>j\<in>idx (modifications c). corr ?D ?I i j}" by (auto elim: succeedsE)
  have new: "idx (modifications s) = {i. \<exists>j\<in>idx (modifications_new s). corr ?D ?I i j}"
    unfolding s(5,6) by (auto simp: corr_def)
  have "bij_betw (\<lambda>j. shift_of ?D (unshift_of ?I j)) (idx (modifications_new s)) (idx (modifications s))"
  proof (rule bij_betw_imageI)
    show "inj_on (\<lambda>j. shift_of ?D (unshift_of ?I j)) (idx (modifications_new s))"
      by (rule inj_onI) (auto simp: s(5) intro: unshift_of_inj)
    have "corr ?D ?I i j \<longleftrightarrow> i = shift_of ?D (unshift_of ?I j)" if "j \<notin> ?I" for i j
      using corr_shift [OF idx_finite that] by (simp add: corr_sym [of ?D ?I])
    then show "(\<lambda>j. shift_of ?D (unshift_of ?I j)) ` idx (modifications_new s) = idx (modifications s)"
      unfolding new s(5) by auto
  qed
  then show ?thesis using s new by (auto simp: bij_betw_same_card)
qed

theorem finalize_modifications_witness:
  "\<exists>s. cb_finalize True example_first = Some s \<and> deletions s = deletions example_first
    \<and> insertions s = insertions example_first \<and> moves s = moves example_first
    \<and> idx (modifications_new s) = idx (modifications example_first) - idx (insertions example_first)
    \<and> idx (modifications s) = {i. \<exists>j\<in>idx (modifications_new s). corr (idx (deletions example_first)) (idx (insertions example_first)) i j}
    \<and> card (idx (modifications s)) = card (idx (modifications_new s))"
proof (rule finalize_modifications)
  show "describes True example_first (nat_rows [(1, 0), (2, 0), (3, 0), (4, 0)]) (nat_rows [(3, 8), (4, 0), (1, 0)])"
    using list_built [of "[List_erase 1, List_move 0 2, List_modify 0 0 8]" "nat_rows [(1, 0), (2, 0), (3, 0), (4, 0)]" True]
    by (simp add: example_first_def del_list_def ins_list_def move_list_def npos_def)
qed

text \<open>\<open>insert_column\<close> and \<open>move_column\<close> rearrange the sets of modifications per column as the columns
  of the table are rearranged; a column beyond the end of the list counts as unmodified.\<close>

theorem columns_follow_the_table:
  "col (insert_column c ndx) i = (if i < ndx then col c i else if i = ndx then [] else col c (i - 1))
   \<and> col (move_column c f t) i =
      (if f < t then if i < f \<or> t < i then col c i else if i = t then col c f else col c (i + 1)
       else if i < t \<or> f < i then col c i else if i = t then col c f else col c (i - 1))"
  using col_insert_column col_move_column by blast

end
