(* ===== verification/Change_Matches.thy ===== *)
theory Change_Matches
  imports Change_Calculate
begin

section \<open>The matching blocks of two lists of rows\<close>

text \<open>
  The search for common blocks of \<open>calculate\<close> returns, and what it returns is a chain of blocks of equal rows that
  follow each other in both lists. How long the blocks are, and which of two equally long ones is taken, does not
  matter for the change set to be right.
\<close>

subsection \<open>\<open>count\<close> returns for every range\<close>

lemma count_from_next_returns:
  assumes ok: "crv_ok dbg cs" and at: "at_it cs it A B"
  shows "\<exists>n. do { (it, ret) \<leftarrow> count_rest cs it e ret;
        let ret = (if it \<noteq> end_it cs \<and> fst (it_range cs it) < e \<and> snd it \<noteq> 0
                   then ret + (e - fst (it_range cs it)) else ret);
        (if it = end_it cs \<or> snd (it_range cs it) \<ge> e then Some ret
         else count_tail dbg cs it e ret) } = Some n"
proof -
  have wf: "crv_wf dbg cs" and ch: "chunks_ok dbg cs" and rl: "rl_ok (ranges cs)" using crv_okD [OF ok] by auto
  from count_rest_ok [OF wf at, of e ret] obtain it' B1 B2 where
    1: "count_rest cs it e ret = Some (it', ret + span B1)" "at_it cs it' (A @ B1) B2"
      "B2 = [] \<or> e \<le> snd (hd B2) \<or> snd it' = 0" by blast
  show ?thesis
  proof (cases B2)
    case Nil
    then show ?thesis using 1(1,2) by (simp add: at_it_Nil)
  next
    case (Cons r B3)
    then have at': "at_it cs it' (A @ B1) (r # B3)" using 1(2) by simp
    then have cur: "it_range cs it' = r" by (auto simp: at_it_range)
    show ?thesis
    proof (cases "e \<le> snd r")
      case True
      then show ?thesis using 1(1) cur by simp
    next
      case False
      then have z: "snd it' = 0" using 1(3) Cons by simp
      from at_it_chunk_start [OF wf at' z] obtain cs1 c cs2 where
        c: "cs = cs1 @ c # cs2" "it' = (length cs1, 0)" by metis
      have "count_tail dbg cs it' e n = Some (n + below e (set_of (ranges (c # cs2))))" for n
        using count_tail_ok [of dbg cs1 "c # cs2" e n] ch rl by (simp only: c)
      then show ?thesis using 1(1) cur by (simp add: Let_def)
    qed
  qed
qed

lemma count_returns [succ]:
  assumes ok: "crv_ok dbg cs"
  shows "succeeds (count dbg cs s e) (\<lambda>n. True)"
proof -
  have wf: "crv_wf dbg cs" and ch: "chunks_ok dbg cs" and rl: "rl_ok (ranges cs)" using crv_okD [OF ok] by auto
  from find_index_ok [OF ok] obtain it A B where
    f: "find_index dbg cs s = Some it" "at_it cs it A B" "found s A B" by blast
  show ?thesis
  proof (cases B)
    case Nil
    then show ?thesis using f by (simp add: count_def at_it_Nil)
  next
    case (Cons r B')
    have at: "at_it cs it A (r # B')" using f(2) Cons by simp
    then have cur: "it_range cs it = r" by (auto simp: at_it_range)
    note rest = count_from_next_returns [OF ok at_next [OF wf at], of e "snd r - max (fst r) s"]
    have tail: "count_tail dbg cs it e 0 \<noteq> None" if "snd it = 0"
    proof -
      from at_it_chunk_start [OF wf at that] obtain cs1 c cs2 where
        c: "cs = cs1 @ c # cs2" "it = (length cs1, 0)" by metis
      have "count_tail dbg cs it e 0 = Some (0 + below e (set_of (ranges (c # cs2))))"
        using count_tail_ok [of dbg cs1 "c # cs2" e 0] ch rl by (simp only: c)
      then show ?thesis by simp
    qed
    show ?thesis using f(1) cur rest tail by (auto simp: count_def Let_def succeeds_def)
  qed
qed

subsection \<open>Blocks\<close>

definition same_block :: "size_t list \<Rightarrow> size_t list \<Rightarrow> size_t \<Rightarrow> size_t \<Rightarrow> size_t \<Rightarrow> bool" where
  "same_block xs ys i j n \<longleftrightarrow> i + n \<le> length xs \<and> j + n \<le> length ys \<and> (\<forall>t<n. xs ! (i + t) = ys ! (j + t))"

text \<open>A block of length \<open>n\<close> within the searched ranges that ends with \<open>i\<close> and \<open>j\<close>.\<close>

definition block_ending :: "size_t list \<Rightarrow> size_t list \<Rightarrow> size_t \<Rightarrow> size_t \<Rightarrow> size_t \<Rightarrow> size_t \<Rightarrow> size_t \<Rightarrow> size_t \<Rightarrow> size_t \<Rightarrow> bool" where
  "block_ending xs ys b1 e1 b2 e2 i j n \<longleftrightarrow> 0 < n \<and> b1 + n \<le> i + 1 \<and> i < e1 \<and> b2 + n \<le> j + 1 \<and> j < e2
     \<and> same_block xs ys (i + 1 - n) (j + 1 - n) n"

definition block_within :: "size_t list \<Rightarrow> size_t list \<Rightarrow> size_t \<Rightarrow> size_t \<Rightarrow> size_t \<Rightarrow> size_t \<Rightarrow> lcs_match \<Rightarrow> bool" where
  "block_within xs ys b1 e1 b2 e2 m \<longleftrightarrow> b1 \<le> m_i m \<and> m_i m + m_size m \<le> e1 \<and> b2 \<le> m_j m \<and> m_j m + m_size m \<le> e2
     \<and> same_block xs ys (m_i m) (m_j m) (m_size m)"

lemma same_block_0 [simp]: "i \<le> length xs \<Longrightarrow> j \<le> length ys \<Longrightarrow> same_block xs ys i j 0"
  by (simp add: same_block_def)

lemma same_block_Suc:
  assumes "same_block xs ys i j n" "xs ! (i + n) = ys ! (j + n)" "i + n < length xs" "j + n < length ys"
  shows "same_block xs ys i j (Suc n)"
  using assms by (auto simp: same_block_def less_Suc_eq)

lemma block_ending_1:
  "xs ! i = ys ! j \<Longrightarrow> b1 \<le> i \<Longrightarrow> i < e1 \<Longrightarrow> b2 \<le> j \<Longrightarrow> j < e2 \<Longrightarrow> e1 \<le> length xs \<Longrightarrow> e2 \<le> length ys
    \<Longrightarrow> block_ending xs ys b1 e1 b2 e2 i j 1"
  by (auto simp: block_ending_def same_block_def)

lemma block_ending_Suc:
  assumes "block_ending xs ys b1 e1 b2 e2 i j n" "xs ! Suc i = ys ! Suc j" "Suc i < e1" "Suc j < e2"
    "e1 \<le> length xs" "e2 \<le> length ys"
  shows "block_ending xs ys b1 e1 b2 e2 (Suc i) (Suc j) (Suc n)"
  using assms same_block_Suc [of xs ys "i + 1 - n" "j + 1 - n" n] by (auto simp: block_ending_def)

lemma size_start: "n \<le> i + 1 \<Longrightarrow> i + 1 < 2 ^ 64 \<Longrightarrow> size_add (size_sub i n) 1 = i + 1 - n"
proof -
  assume "n \<le> i + 1" "i + 1 < 2 ^ 64"
  then consider "n \<le> i" | "n = i + 1" by linarith
  then show ?thesis
  proof cases
    case 1
    then have "(i + 2 ^ 64 - n) mod 2 ^ 64 = i - n"
      using \<open>i + 1 < 2 ^ 64\<close> by (metis Nat.add_diff_assoc2 add.commute less_imp_diff_less mod_add_self2 mod_less
          add_lessD1)
    then show ?thesis using 1 \<open>i + 1 < 2 ^ 64\<close> by (simp add: size_add_def size_sub_def)
  next
    case 2
    then show ?thesis by (simp add: size_add_def size_sub_def)
  qed
qed

subsection \<open>The longest block\<close>

definition lcs_input :: "lcs_row list \<Rightarrow> lcs_row list \<Rightarrow> size_t list \<Rightarrow> bool" where
  "lcs_input a b ys \<longleftrightarrow> sorted (map l_row b) \<and> (\<forall>r\<in>set b. l_tv r < length ys \<and> l_row r = ys ! l_tv r)
     \<and> l_row ` set a \<subseteq> l_row ` set b \<and> length a + 1 < 2 ^ 64 \<and> length ys + 1 < 2 ^ 64"

lemma for_each_b_ok:
  assumes "\<And>r s. r \<in> set rs \<Longrightarrow> l_row r = ai \<Longrightarrow> b2 \<le> l_tv r \<Longrightarrow> l_tv r < e2 \<Longrightarrow> P s \<Longrightarrow> succeeds (f (l_tv r) s) P" "P s"
  shows "succeeds (for_each_b ai b2 e2 f rs s) P"
  using assms
proof (induction rs arbitrary: s)
  case (Cons r rs)
  show ?case
  proof (cases "l_row r = ai \<and> b2 \<le> l_tv r \<and> l_tv r < e2")
    case True
    then have "succeeds (f (l_tv r) s) P" using Cons.prems by simp
    then obtain s' where "f (l_tv r) s = Some s'" "P s'" by (rule succeedsE)
    then show ?thesis using True Cons by simp
  next
    case False
    then show ?thesis using Cons by auto
  qed
qed simp

lemma for_each_b_match_ok:
  assumes in_b: "sorted (map l_row b)" "ai \<in> l_row ` set b"
    and f: "\<And>r s. r \<in> set b \<Longrightarrow> l_row r = ai \<Longrightarrow> b2 \<le> l_tv r \<Longrightarrow> l_tv r < e2 \<Longrightarrow> P s \<Longrightarrow> succeeds (f (l_tv r) s) P" and "P s"
  shows "succeeds (for_each_b_match b ai b2 e2 f s) P"
proof -
  let ?it = "dropWhile (\<lambda>r. l_row r < ai) b"
  from in_b(2) obtain r where r: "r \<in> set b" "l_row r = ai" by auto
  then have "r \<in> set ?it" by (metis UnE less_irrefl set_append set_takeWhileD takeWhile_dropWhile_id)
  then have ne: "?it \<noteq> []" by (metis empty_iff list.set(1))
  have "sorted (map l_row ?it)" using in_b(1) by (simp add: dropWhile_eq_drop sorted_wrt_drop flip: drop_map)
  then have "l_row (hd ?it) \<le> ai" using \<open>r \<in> set ?it\<close> r(2) ne by (cases ?it) auto
  moreover have "\<not> l_row (hd ?it) < ai" using hd_dropWhile [OF ne] .
  ultimately have "l_row (hd ?it) = ai" by simp
  moreover have "succeeds (for_each_b ai b2 e2 f ?it s) P"
    using f \<open>P s\<close> by (intro for_each_b_ok) (auto dest: set_dropWhileD)
  ultimately show ?thesis using ne by (simp add: for_each_b_match_def Let_def)
qed

lemma block_length_cases:
  obtains "block_length ps j = 1" | p where "p \<in> set ps" "fst p + 1 = j" "block_length ps j = snd p + 1"
proof -
  have "block_length ps j = 1 \<or> (\<exists>p\<in>set ps. fst p + 1 = j \<and> block_length ps j = snd p + 1)"
    by (induction ps) auto
  then show ?thesis using that by blast
qed

definition ending_before :: "size_t list \<Rightarrow> size_t list \<Rightarrow> size_t \<Rightarrow> size_t \<Rightarrow> size_t \<Rightarrow> size_t \<Rightarrow> size_t \<Rightarrow> (size_t \<times> size_t) list \<Rightarrow> bool" where
  "ending_before xs ys b1 e1 b2 e2 i ps \<longleftrightarrow> (\<forall>p\<in>set ps. 0 < i \<and> block_ending xs ys b1 e1 b2 e2 (i - 1) (fst p) (snd p))"

lemma block_length_ending:
  assumes "ending_before xs ys b1 e1 b2 e2 i prev" "xs ! i = ys ! j" "b1 \<le> i" "i < e1" "b2 \<le> j" "j < e2"
    "e1 \<le> length xs" "e2 \<le> length ys"
  shows "block_ending xs ys b1 e1 b2 e2 i j (block_length prev j)"
proof (cases rule: block_length_cases [of prev j])
  case 1
  then show ?thesis using block_ending_1 [OF assms(2-8)] by simp
next
  case (2 p)
  then have "0 < i" "block_ending xs ys b1 e1 b2 e2 (i - 1) (fst p) (snd p)" using assms(1) by (auto simp: ending_before_def)
  then show ?thesis using block_ending_Suc [of xs ys b1 e1 b2 e2 "i - 1" "fst p" "snd p"] 2 assms by auto
qed

definition search_ok :: "size_t list \<Rightarrow> size_t list \<Rightarrow> size_t \<Rightarrow> size_t \<Rightarrow> size_t \<Rightarrow> size_t \<Rightarrow> size_t
    \<Rightarrow> (size_t \<times> size_t) list \<times> lcs_match \<Rightarrow> bool" where
  "search_ok xs ys b1 e1 b2 e2 i = (\<lambda>(cur, best).
     ending_before xs ys b1 e1 b2 e2 (i + 1) cur \<and> block_within xs ys b1 e1 b2 e2 best)"

lemma block_ending_within:
  "block_ending xs ys b1 e1 b2 e2 i j n \<Longrightarrow>
    block_within xs ys b1 e1 b2 e2 \<lparr>m_i = i + 1 - n, m_j = j + 1 - n, m_size = n, m_modified = k\<rparr>"
  by (auto simp: block_ending_def block_within_def)

lemma match_at_ok:
  assumes "crv_ok dbg modified" "ending_before xs ys b1 e1 b2 e2 i prev" "xs ! i = ys ! j" "b1 \<le> i" "i < e1" "b2 \<le> j"
    "j < e2" "e1 \<le> length xs" "e2 \<le> length ys" "length xs + 1 < 2 ^ 64" "length ys + 1 < 2 ^ 64"
    "search_ok xs ys b1 e1 b2 e2 i s"
  shows "succeeds (match_at dbg modified b1 e1 b2 e2 i prev j s) (search_ok xs ys b1 e1 b2 e2 i)"
proof -
  obtain cur best where s: "s = (cur, best)" by (cases s)
  let ?n = "block_length prev j"
  have e: "block_ending xs ys b1 e1 b2 e2 i j ?n" by (rule block_length_ending [OF assms(2-9)])
  have start: "size_add (size_sub i ?n) 1 = i + 1 - ?n" "size_add (size_sub j ?n) 1 = j + 1 - ?n"
    using e assms size_start [of ?n i] size_start [of ?n j] by (simp_all add: block_ending_def)
  let ?new = "\<lambda>k. \<lparr>m_i = i + 1 - ?n, m_j = j + 1 - ?n, m_size = ?n, m_modified = k\<rparr>"
  have new: "block_within xs ys b1 e1 b2 e2 (?new k)" for k by (rule block_ending_within [OF e])
  have best: "block_within xs ys b1 e1 b2 e2 best" "ending_before xs ys b1 e1 b2 e2 (i + 1) cur"
    using assms(12) s by (simp_all add: search_ok_def)
  then have cur: "ending_before xs ys b1 e1 b2 e2 (i + 1) (cur @ [(j, ?n)])" using e by (auto simp: ending_before_def)
  have done': "succeeds (do {
      realm_assert (m_i m \<ge> b1 \<and> m_i m + m_size m \<le> e1);
      realm_assert (m_j m \<ge> b2 \<and> m_j m + m_size m \<le> e2);
      Some (cur @ [(j, ?n)], m) }) (search_ok xs ys b1 e1 b2 e2 i)"
    if "block_within xs ys b1 e1 b2 e2 m" for m
    using that cur by (simp add: search_ok_def block_within_def)
  have same: "block_within xs ys b1 e1 b2 e2 (best\<lparr>m_modified := k\<rparr>)" for k
    using best(1) by (simp add: block_within_def)
  consider "?n > m_size best" | "?n = m_size best" | "?n < m_size best" by linarith
  then show ?thesis
  proof cases
    case 1
    then show ?thesis using done' [OF new [of npos]] by (simp add: match_at_def s start [simplified] Let_def)
  next
    case 2
    obtain c1 where c1: "count dbg modified (size_add (size_sub (m_j best) ?n) 1) (m_j best + 1) = Some c1"
      using count_returns [OF assms(1)] by (auto simp: succeeds_def)
    obtain c2 where c2: "count dbg modified (j + 1 - ?n) (j + 1) = Some c2"
      using count_returns [OF assms(1)] by (auto simp: succeeds_def)
    show ?thesis using 2 c1 c2 done' [OF new] done' [OF same] done' [OF best(1)]
      by (auto simp: match_at_def s start [unfolded 2, simplified] Let_def)
  next
    case 3
    then show ?thesis using done' [OF best(1)] by (simp add: match_at_def s Let_def)
  qed
qed

lemma longest_match_loop_ok:
  assumes "crv_ok dbg modified" "lcs_input a b ys" "xs = map l_row a" "e1 \<le> length xs" "e2 \<le> length ys" "b1 \<le> i" "i \<le> e1"
    "ending_before xs ys b1 e1 b2 e2 i prev" "block_within xs ys b1 e1 b2 e2 best"
  shows "succeeds (longest_match_loop dbg modified a b b1 e1 b2 e2 [i..<e1] prev best) (block_within xs ys b1 e1 b2 e2)"
  using assms(6-9)
proof (induction "e1 - i" arbitrary: i prev best)
  case 0
  then show ?case by simp
next
  case (Suc k)
  then have i: "i < e1" "[i..<e1] = i # [Suc i..<e1]" by (simp_all add: upt_conv_Cons)
  have row: "l_row (a ! i) = xs ! i" using i(1) assms(3,4) by simp
  have "succeeds (for_each_b_match b (l_row (a ! i)) b2 e2 (match_at dbg modified b1 e1 b2 e2 i prev) ([], best))
      (search_ok xs ys b1 e1 b2 e2 i)"
  proof (rule for_each_b_match_ok)
    show "sorted (map l_row b)" "l_row (a ! i) \<in> l_row ` set b"
      using assms(2-4) i(1) by (auto simp: lcs_input_def subset_iff)
    show "search_ok xs ys b1 e1 b2 e2 i ([], best)" using Suc.prems(4) by (simp add: search_ok_def ending_before_def)
    fix r s assume r: "r \<in> set b" "l_row r = l_row (a ! i)" "b2 \<le> l_tv r" "l_tv r < e2" "search_ok xs ys b1 e1 b2 e2 i s"
    then show "succeeds (match_at dbg modified b1 e1 b2 e2 i prev (l_tv r) s) (search_ok xs ys b1 e1 b2 e2 i)"
      using assms(2-5) row i(1) Suc.prems(1)
      by (intro match_at_ok [OF assms(1) Suc.prems(3)]) (auto simp: lcs_input_def)
  qed
  then obtain cur best' where
    s: "for_each_b_match b (l_row (a ! i)) b2 e2 (match_at dbg modified b1 e1 b2 e2 i prev) ([], best) = Some (cur, best')"
      "search_ok xs ys b1 e1 b2 e2 i (cur, best')" by (auto elim: succeedsE)
  have "succeeds (longest_match_loop dbg modified a b b1 e1 b2 e2 [Suc i..<e1] cur best') (block_within xs ys b1 e1 b2 e2)"
    using Suc s(2) i(1) by (intro Suc.hyps(1)) (auto simp: search_ok_def)
  then show ?case using s(1) i(2) by simp
qed

lemma find_longest_match_ok:
  assumes "crv_ok dbg modified" "lcs_input a b ys" "xs = map l_row a" "e1 \<le> length xs" "e2 \<le> length ys" "b1 \<le> e1" "b2 \<le> e2"
  shows "succeeds (find_longest_match dbg modified a b b1 e1 b2 e2) (block_within xs ys b1 e1 b2 e2)"
  unfolding find_longest_match_def
  using assms by (intro longest_match_loop_ok [OF assms(1-5)]) (simp_all add: ending_before_def block_within_def)

subsection \<open>The chain of blocks\<close>

fun block_chain :: "size_t list \<Rightarrow> size_t list \<Rightarrow> size_t \<Rightarrow> size_t \<Rightarrow> lcs_match list \<Rightarrow> size_t \<Rightarrow> size_t \<Rightarrow> bool" where
  "block_chain xs ys i j [] e1 e2 \<longleftrightarrow> i \<le> e1 \<and> j \<le> e2"
| "block_chain xs ys i j (m # ms) e1 e2 \<longleftrightarrow> i \<le> m_i m \<and> j \<le> m_j m \<and> same_block xs ys (m_i m) (m_j m) (m_size m)
     \<and> block_chain xs ys (m_i m + m_size m) (m_j m + m_size m) ms e1 e2"

lemma block_chain_append:
  "block_chain xs ys i j ms i' j' \<Longrightarrow> block_chain xs ys i' j' ms' e1 e2 \<Longrightarrow> block_chain xs ys i j (ms @ ms') e1 e2"
proof (induction ms arbitrary: i j)
  case Nil
  then show ?case by (cases ms') auto
qed auto

theorem find_longest_matches_ok:
  assumes "crv_ok dbg modified" "lcs_input a b ys" "xs = map l_row a" "e1 \<le> length xs" "e2 \<le> length ys" "b1 \<le> e1" "b2 \<le> e2"
  shows "succeeds (find_longest_matches dbg modified a b b1 e1 b2 e2) (\<lambda>ms. block_chain xs ys b1 b2 ms e1 e2)"
  using assms(4-7)
proof (induction "e1 - b1" arbitrary: b1 e1 b2 e2 rule: less_induct)
  case less
  from find_longest_match_ok [OF assms(1-3) less.prems] obtain m where
    m: "find_longest_match dbg modified a b b1 e1 b2 e2 = Some m" "block_within xs ys b1 e1 b2 e2 m" by (rule succeedsE)
  show ?case
  proof (cases "m_size m = 0")
    case True
    then show ?thesis using m(1) less.prems by (subst find_longest_matches.simps) simp
  next
    case False
    let ?before = "if m_i m > b1 \<and> m_j m > b2 then find_longest_matches dbg modified a b b1 (m_i m) b2 (m_j m) else Some []"
    let ?after = "if m_i m + m_size m < e2 \<and> m_j m + m_size m < e2
      then find_longest_matches dbg modified a b (m_i m + m_size m) e1 (m_j m + m_size m) e2 else Some []"
    have w: "b1 \<le> m_i m" "m_i m + m_size m \<le> e1" "b2 \<le> m_j m" "m_j m + m_size m \<le> e2"
        "same_block xs ys (m_i m) (m_j m) (m_size m)" using m(2) by (auto simp: block_within_def)
    have "succeeds ?before (\<lambda>ms. block_chain xs ys b1 b2 ms (m_i m) (m_j m))"
      using less.hyps [of "m_i m" b1 "m_j m" b2] less.prems w False by simp
    then obtain ms1 where 1: "?before = Some ms1" "block_chain xs ys b1 b2 ms1 (m_i m) (m_j m)" by (rule succeedsE)
    have "succeeds ?after (\<lambda>ms. block_chain xs ys (m_i m + m_size m) (m_j m + m_size m) ms e1 e2)"
      using less.hyps [of e1 "m_i m + m_size m" e2 "m_j m + m_size m"] less.prems w False by simp
    then obtain ms2 where 2: "?after = Some ms2" "block_chain xs ys (m_i m + m_size m) (m_j m + m_size m) ms2 e1 e2"
      by (rule succeedsE)
    have "block_chain xs ys b1 b2 (ms1 @ m # ms2) e1 e2"
      by (rule block_chain_append [OF 1(2)]) (use 2(2) w(5) in simp)
    moreover have "find_longest_matches dbg modified a b b1 e1 b2 e2 = Some (ms1 @ m # ms2)"
      by (subst find_longest_matches.simps) (use m(1) False 1(1) 2(1) in simp)
    ultimately show ?thesis by simp
  qed
qed

end
