(* ===== verification/Change_Sequences.thy ===== *)
theory Change_Sequences
  imports Change_Matches "HOL-Library.Multiset"
begin

section \<open>What the calculated change set does\<close>

text \<open>
  From the chain of blocks to the sets of deletions and insertions: without the deleted positions the old list is the
  new list without the inserted ones. The rows that both lists have are first found by going through both lists
  sorted by row. The lists of a query have no row twice, which the lemmas on pairing rows assume.
\<close>

subsection \<open>Selecting positions of a list\<close>

lemma nths_positions: "nths xs A = map ((!) xs) (filter (\<lambda>i. i \<in> A) [0..<length xs])"
proof (induction xs rule: rev_induct)
  case (snoc x xs)
  have "map ((!) (xs @ [x])) (filter (\<lambda>i. i \<in> A) [0..<length xs]) = map ((!) xs) (filter (\<lambda>i. i \<in> A) [0..<length xs])"
    by (auto simp: nth_append)
  then show ?case using snoc.IH by (simp add: nths_append)
qed simp

lemma nths_union:
  assumes "\<forall>s\<in>S. s < k" "\<forall>t\<in>T. k \<le> t"
  shows "nths xs (S \<union> T) = nths xs S @ nths xs T"
proof -
  have "[0..<length xs] = [0..<min k (length xs)] @ [min k (length xs)..<length xs]"
    by (metis le_add_diff_inverse min.cobounded2 upt_add_eq_append zero_le)
  moreover have "\<forall>x\<in>set [min k (length xs)..<length xs]. x \<notin> S" "\<forall>x\<in>set [0..<min k (length xs)]. x \<notin> T"
    using assms by (force simp: min_def split: if_splits)+
  then have "filter (\<lambda>i. i \<in> S \<union> T) [0..<min k (length xs)] = filter (\<lambda>i. i \<in> S) [0..<min k (length xs)]"
    "filter (\<lambda>i. i \<in> T) [0..<min k (length xs)] = []"
    "filter (\<lambda>i. i \<in> S \<union> T) [min k (length xs)..<length xs] = filter (\<lambda>i. i \<in> T) [min k (length xs)..<length xs]"
    "filter (\<lambda>i. i \<in> S) [min k (length xs)..<length xs] = []"
    by (auto intro!: filter_cong simp: filter_empty_conv)
  ultimately show ?thesis unfolding nths_positions by (metis append_Nil append_Nil2 filter_append map_append)
qed

lemma nths_strict:
  assumes "sorted_wrt (<) is" "set is \<subseteq> {..<length xs}"
  shows "nths xs (set is) = map ((!) xs) is"
proof -
  have "filter (\<lambda>i. i \<in> set is) [0..<length xs] = is"
    using assms by (intro sorted_distinct_set_unique) (auto simp: strict_sorted_iff sorted_wrt_filter)
  then show ?thesis by (simp add: nths_positions)
qed

lemma nths_interval:
  assumes "j \<le> length xs"
  shows "nths xs {i..<j} = map ((!) xs) [i..<j]"
proof -
  have "{i..<j} \<subseteq> {..<length xs}" using assms by auto
  then show ?thesis using nths_strict [of "[i..<j]" xs] by simp
qed

lemma nths_cut: "nths xs A = nths xs (A \<inter> {..<length xs})"
  unfolding nths_positions by (auto intro!: arg_cong [where f = "map _"] filter_cong)

subsection \<open>Unmatched positions\<close>

fun unmatched :: "(lcs_match \<Rightarrow> size_t) \<Rightarrow> size_t \<Rightarrow> size_t \<Rightarrow> lcs_match list \<Rightarrow> size_t set" where
  "unmatched f n i [] = {i..<n}"
| "unmatched f n i (m # ms) = {i..<f m} \<union> unmatched f n (f m + m_size m) ms"

lemma unmatched_bounds: "block_chain xs ys i j ms (length xs) (length ys) \<Longrightarrow>
    unmatched m_i (length xs) i ms \<subseteq> {i..<length xs} \<and> unmatched m_j (length ys) j ms \<subseteq> {j..<length ys}"
proof (induction ms arbitrary: i j)
  case (Cons m ms)
  then have "unmatched m_i (length xs) (m_i m + m_size m) ms \<subseteq> {m_i m + m_size m..<length xs}"
    "unmatched m_j (length ys) (m_j m + m_size m) ms \<subseteq> {m_j m + m_size m..<length ys}"
    "i \<le> m_i m" "j \<le> m_j m" "m_i m \<le> length xs" "m_j m \<le> length ys" by (auto simp: same_block_def)
  then show ?case by fastforce
qed simp

lemma matched_same:
  "block_chain xs ys i j ms (length xs) (length ys) \<Longrightarrow>
    nths xs ({i..<length xs} - unmatched m_i (length xs) i ms) = nths ys ({j..<length ys} - unmatched m_j (length ys) j ms)"
proof (induction ms arbitrary: i j)
  case (Cons m ms)
  let ?i = "m_i m + m_size m" and ?j = "m_j m + m_size m"
  from Cons.prems have c: "i \<le> m_i m" "j \<le> m_j m" "same_block xs ys (m_i m) (m_j m) (m_size m)"
      "block_chain xs ys ?i ?j ms (length xs) (length ys)" by auto
  have l: "?i \<le> length xs" "?j \<le> length ys" using c(3) by (auto simp: same_block_def)
  have split: "{i..<n} - unmatched f n i (m # ms) = {f m..<f m + m_size m} \<union> ({f m + m_size m..<n} - unmatched f n (f m + m_size m) ms)"
    if "i \<le> f m" "f m + m_size m \<le> n" "unmatched f n (f m + m_size m) ms \<subseteq> {f m + m_size m..<n}" for f n i
    using that by auto
  note b = unmatched_bounds [OF c(4)]
  have "map ((!) xs) [m_i m..<?i] = map ((!) ys) [m_j m..<?j]"
    using c(3) by (auto simp: list_eq_iff_nth_eq same_block_def)
  then have "nths xs {m_i m..<?i} = nths ys {m_j m..<?j}" using l by (simp add: nths_interval)
  moreover have "nths xs ({m_i m..<?i} \<union> ({?i..<length xs} - unmatched m_i (length xs) ?i ms))
      = nths xs {m_i m..<?i} @ nths xs ({?i..<length xs} - unmatched m_i (length xs) ?i ms)"
    by (rule nths_union [of _ ?i]) auto
  moreover have "nths ys ({m_j m..<?j} \<union> ({?j..<length ys} - unmatched m_j (length ys) ?j ms))
      = nths ys {m_j m..<?j} @ nths ys ({?j..<length ys} - unmatched m_j (length ys) ?j ms)"
    by (rule nths_union [of _ ?j]) auto
  ultimately show ?case
    using Cons.IH [OF c(4)] split [of i m_i "length xs"] split [of j m_j "length ys"] c(1,2) l b by simp
qed simp

lemma add_all_ok [succ]:
  "crv_ok dbg cs \<Longrightarrow> succeeds (add_all dbg is cs) (\<lambda>cs'. crv_ok dbg cs' \<and> idx cs' = idx cs \<union> set is)"
proof (induction "is" arbitrary: cs)
  case (Cons i "is")
  from add_succ [OF Cons.prems, of i] obtain cs1 where
    1: "add dbg cs i = Some cs1" "crv_ok dbg cs1" "idx cs1 = insert i (idx cs)" by (auto elim: succeedsE)
  show ?case using 1 Cons.IH [OF 1(2)] by (auto elim!: succeeds_mono)
qed simp

lemma align_matches_ok:
  assumes "crv_ok dbg del" "crv_ok dbg ins" "block_chain xs ys i j ms (length xs) (length ys)"
  shows "succeeds (align_matches dbg a rows (ms @ [\<lparr>m_i = length xs, m_j = length ys, m_size = 0, m_modified = 0\<rparr>]) i j del ins)
    (\<lambda>(del', ins'). crv_ok dbg del' \<and> crv_ok dbg ins'
      \<and> idx del' = idx del \<union> (\<lambda>k. l_tv (a ! k)) ` unmatched m_i (length xs) i ms
      \<and> idx ins' = idx ins \<union> (\<lambda>k. tv_index (rows ! k)) ` unmatched m_j (length ys) j ms)"
  using assms
proof (induction ms arbitrary: i j del ins)
  case Nil
  from add_all_ok [OF Nil(1), of "map (\<lambda>k. l_tv (a ! k)) [i..<length xs]"] obtain del' where
    d: "add_all dbg (map (\<lambda>k. l_tv (a ! k)) [i..<length xs]) del = Some del'" "crv_ok dbg del'"
      "idx del' = idx del \<union> (\<lambda>k. l_tv (a ! k)) ` {i..<length xs}" by (auto elim: succeedsE)
  from add_all_ok [OF Nil(2), of "map (\<lambda>k. tv_index (rows ! k)) [j..<length ys]"] obtain ins' where
    e: "add_all dbg (map (\<lambda>k. tv_index (rows ! k)) [j..<length ys]) ins = Some ins'" "crv_ok dbg ins'"
      "idx ins' = idx ins \<union> (\<lambda>k. tv_index (rows ! k)) ` {j..<length ys}" by (auto elim: succeedsE)
  show ?case using d e by simp
next
  case (Cons m ms)
  from add_all_ok [OF Cons.prems(1), of "map (\<lambda>k. l_tv (a ! k)) [i..<m_i m]"] obtain del' where
    d: "add_all dbg (map (\<lambda>k. l_tv (a ! k)) [i..<m_i m]) del = Some del'" "crv_ok dbg del'"
      "idx del' = idx del \<union> (\<lambda>k. l_tv (a ! k)) ` {i..<m_i m}" by (auto elim: succeedsE)
  from add_all_ok [OF Cons.prems(2), of "map (\<lambda>k. tv_index (rows ! k)) [j..<m_j m]"] obtain ins' where
    e: "add_all dbg (map (\<lambda>k. tv_index (rows ! k)) [j..<m_j m]) ins = Some ins'" "crv_ok dbg ins'"
      "idx ins' = idx ins \<union> (\<lambda>k. tv_index (rows ! k)) ` {j..<m_j m}" by (auto elim: succeedsE)
  have c: "i \<le> m_i m" "j \<le> m_j m" "block_chain xs ys (m_i m + m_size m) (m_j m + m_size m) ms (length xs) (length ys)"
    using Cons.prems(3) by auto
  from Cons.IH [OF d(2) e(2) c(3)] show ?case
    using d(1,3) e(1,3) c(1,2) by (auto simp: max_def image_Un Un_assoc elim!: succeeds_mono)
qed

subsection \<open>The rows that are in both lists\<close>

lemma first_difference_Some:
  "first_difference as rs i = Some d \<Longrightarrow> i \<le> d \<and> d - i < length as \<and> d - i < length rs
    \<and> (\<forall>k<d - i. l_row (as ! k) = row_index (rs ! k))"
proof (induction as rs i rule: first_difference.induct)
  case (1 a as r rs i)
  show ?case
  proof (cases "l_row a = row_index r")
    case True
    then have "i + 1 \<le> d \<and> d - (i + 1) < length as \<and> d - (i + 1) < length rs
        \<and> (\<forall>k<d - (i + 1). l_row (as ! k) = row_index (rs ! k))" using 1 by simp
    then show ?thesis using True by (auto simp: nth_Cons split: nat.splits)
  next
    case False
    then show ?thesis using 1 by simp
  qed
qed auto

lemma first_difference_None:
  "first_difference as rs i = None \<Longrightarrow> length as = length rs \<Longrightarrow> map l_row as = map row_index rs"
  by (induction as rs i rule: first_difference.induct) (auto split: if_splits)

lemma lcs_input_rows:
  assumes "length rows + 1 < 2 ^ 64"
  shows "lcs_input (lcs_a rows) (lcs_b rows) (map row_index rows)" "length (lcs_a rows) = length rows"
  using assms by (auto simp: lcs_input_def lcs_a_def lcs_b_def in_set_conv_nth image_iff) force

lemma moves_sorted_ok:
  assumes "length rows + 1 < 2 ^ 64" "crv_ok dbg (modifications c)" "crv_ok dbg (deletions c)" "crv_ok dbg (insertions c)"
  shows "succeeds (calculate_moves_sorted dbg rows c) (\<lambda>c'. \<exists>del ins U V. c' = c\<lparr>deletions := del, insertions := ins\<rparr>
    \<and> U \<subseteq> {..<length rows} \<and> V \<subseteq> {..<length rows}
    \<and> nths (map l_row (lcs_a rows)) (- U) = nths (map row_index rows) (- V)
    \<and> crv_ok dbg del \<and> crv_ok dbg ins
    \<and> idx del = idx (deletions c) \<union> (\<lambda>k. l_tv (lcs_a rows ! k)) ` U
    \<and> idx ins = idx (insertions c) \<union> (\<lambda>k. tv_index (rows ! k)) ` V)"
proof -
  let ?a = "lcs_a rows" and ?b = "lcs_b rows"
  let ?xs = "map l_row ?a" and ?ys = "map row_index rows"
  note in_ok = lcs_input_rows [OF assms(1)]
  show ?thesis
  proof (cases "first_difference ?a rows 0")
    case None
    then have "?xs = ?ys" using in_ok(2) by (rule first_difference_None)
    moreover have "calculate_moves_sorted dbg rows c = Some c" using None by (simp add: calculate_moves_sorted_def Let_def)
    ultimately show ?thesis using assms
      by (simp only: succeeds_Some)
        (rule exI [of _ "deletions c"], rule exI [of _ "insertions c"], rule exI [of _ "{}"], rule exI [of _ "{}"], simp)
  next
    case (Some d)
    from first_difference_Some [OF Some] have
      d: "d < length ?xs" "d < length ?ys" "\<forall>k<d. ?xs ! k = ?ys ! k" using in_ok(2) by auto
    from find_longest_matches_ok [OF assms(2) in_ok(1) refl order.refl order.refl, of d d] d(1,2) obtain ms where
      ms: "find_longest_matches dbg (modifications c) ?a ?b d (length ?xs) d (length ?ys) = Some ms"
        "block_chain ?xs ?ys d d ms (length ?xs) (length ?ys)" by (auto elim: succeedsE)
    let ?U = "unmatched m_i (length ?xs) d ms" and ?V = "unmatched m_j (length ?ys) d ms"
    from align_matches_ok [OF assms(3,4) ms(2), of ?a rows] obtain del ins where
      al: "align_matches dbg ?a rows (ms @ [\<lparr>m_i = length ?xs, m_j = length ?ys, m_size = 0, m_modified = 0\<rparr>]) d d
          (deletions c) (insertions c) = Some (del, ins)" "crv_ok dbg del" "crv_ok dbg ins"
        "idx del = idx (deletions c) \<union> (\<lambda>k. l_tv (?a ! k)) ` ?U"
        "idx ins = idx (insertions c) \<union> (\<lambda>k. tv_index (rows ! k)) ` ?V" by (auto elim!: succeedsE)
    note b = unmatched_bounds [OF ms(2)]
    have keep: "nths zs (- W) = map ((!) zs) [0..<d] @ nths zs ({d..<length zs} - W)"
      if "W \<subseteq> {d..<length zs}" "d < length zs" for zs :: "nat list" and W
    proof -
      have "nths zs (- W) = nths zs ({0..<d} \<union> ({d..<length zs} - W))"
        using that by (subst nths_cut) (auto intro!: arg_cong [where f = "nths zs"])
      also have "\<dots> = nths zs {0..<d} @ nths zs ({d..<length zs} - W)" by (rule nths_union [of _ d]) auto
      finally show ?thesis using that(2) by (simp add: nths_interval)
    qed
    have "map ((!) ?xs) [0..<d] = map ((!) ?ys) [0..<d]" using d(3) by auto
    then have "nths ?xs (- ?U) = nths ?ys (- ?V)"
      using keep [of ?U ?xs] keep [of ?V ?ys] b d(1,2) matched_same [OF ms(2)] by simp
    moreover have "calculate_moves_sorted dbg rows c = Some (c\<lparr>deletions := del, insertions := ins\<rparr>)"
      using ms(1) al(1) Some in_ok(2) by (simp add: calculate_moves_sorted_def Let_def lcs_b_def)
    moreover have "?U \<subseteq> {..<length rows}" "?V \<subseteq> {..<length rows}" using b in_ok(2) by auto
    ultimately show ?thesis using al(2-5) by auto
  qed
qed

subsection \<open>Pairing the rows\<close>

lemma collect_old_ok:
  "crv_ok dbg del \<Longrightarrow> succeeds (collect_old dbg rs i deleted del) (\<lambda>(rows, del'). crv_ok dbg del'
    \<and> idx del' = idx del \<union> (\<lambda>k. i + k) ` {k. k < length rs \<and> rs ! k = npos}
    \<and> map row_index rows = filter (\<lambda>r. r \<noteq> npos) rs
    \<and> tv_index ` set rows \<subseteq> {i..<i + length rs} \<and> (\<forall>r\<in>set rows. rs ! (tv_index r - i) = row_index r))"
proof (induction rs arbitrary: i deleted del)
  case (Cons r rs)
  have npos_at: "{k. k < length (r # rs) \<and> (r # rs) ! k = npos}
      = (if r = npos then {0} else {}) \<union> Suc ` {k. k < length rs \<and> rs ! k = npos}"
  proof (rule set_eqI)
    fix k show "k \<in> {k. k < length (r # rs) \<and> (r # rs) ! k = npos}
        \<longleftrightarrow> k \<in> (if r = npos then {0} else {}) \<union> Suc ` {k. k < length rs \<and> rs ! k = npos}" by (cases k) auto
  qed
  have shift: "(\<lambda>k. i + k) ` {k. k < length (r # rs) \<and> (r # rs) ! k = npos}
      = (if r = npos then {i} else {}) \<union> (\<lambda>k. i + 1 + k) ` {k. k < length rs \<and> rs ! k = npos}"
    unfolding npos_at by (simp add: image_Un image_image)
  have step: "tv_index ` set rows \<subseteq> {i..<i + length (r # rs)} \<and> (\<forall>x\<in>set rows. (r # rs) ! (tv_index x - i) = row_index x)"
    if "tv_index ` set rows \<subseteq> {i + 1..<i + 1 + length rs}" "\<forall>x\<in>set rows. rs ! (tv_index x - (i + 1)) = row_index x" for rows
  proof (intro conjI ballI)
    show "tv_index ` set rows \<subseteq> {i..<i + length (r # rs)}" using that(1) by auto
    fix x assume x: "x \<in> set rows"
    then have "tv_index x \<in> {i + 1..<i + 1 + length rs}" using that(1) by blast
    then have "tv_index x - i = Suc (tv_index x - (i + 1))" by auto
    then show "(r # rs) ! (tv_index x - i) = row_index x" using that(2) x by simp
  qed
  show ?case
  proof (cases "r = npos")
    case True
    from add_succ [OF Cons.prems, of i] obtain d1 where
      1: "add dbg del i = Some d1" "crv_ok dbg d1" "idx d1 = insert i (idx del)" by (auto elim: succeedsE)
    from Cons.IH [OF 1(2), of "i + 1" "deleted + 1"] obtain rows del' where
      2: "collect_old dbg rs (i + 1) (deleted + 1) d1 = Some (rows, del')" "crv_ok dbg del'"
        "idx del' = idx d1 \<union> (\<lambda>k. i + 1 + k) ` {k. k < length rs \<and> rs ! k = npos}"
        "map row_index rows = filter (\<lambda>r. r \<noteq> npos) rs" "tv_index ` set rows \<subseteq> {i + 1..<i + 1 + length rs}"
        "\<forall>x\<in>set rows. rs ! (tv_index x - (i + 1)) = row_index x" by (auto elim: succeedsE)
    show ?thesis unfolding shift using 1 2 True step [OF 2(5,6)] by simp
  next
    case False
    from Cons.IH [OF Cons.prems, of "i + 1" deleted] obtain rows del' where
      2: "collect_old dbg rs (i + 1) deleted del = Some (rows, del')" "crv_ok dbg del'"
        "idx del' = idx del \<union> (\<lambda>k. i + 1 + k) ` {k. k < length rs \<and> rs ! k = npos}"
        "map row_index rows = filter (\<lambda>r. r \<noteq> npos) rs" "tv_index ` set rows \<subseteq> {i + 1..<i + 1 + length rs}"
        "\<forall>x\<in>set rows. rs ! (tv_index x - (i + 1)) = row_index x" by (auto elim: succeedsE)
    show ?thesis unfolding shift using 2 False step [OF 2(5,6)] by simp
  qed
qed simp

lemma collect_old_shifted:
  assumes "collect_old dbg rs i deleted del = Some (rows, del')" "deleted \<le> i" "r \<in> set rows"
  shows "i \<le> tv_index r \<and> shifted_tv_index r + deleted + card {k. i \<le> k \<and> k < tv_index r \<and> rs ! (k - i) = npos} = tv_index r"
  using assms
proof (induction rs arbitrary: i deleted del rows del')
  case (Cons x rs)
  have at: "{k. i \<le> k \<and> k < n \<and> (x # rs) ! (k - i) = npos}
      = (if x = npos then {i} else {}) \<union> {k. i + 1 \<le> k \<and> k < n \<and> rs ! (k - (i + 1)) = npos}" if "i < n" for n
  proof (rule set_eqI)
    fix k show "k \<in> {k. i \<le> k \<and> k < n \<and> (x # rs) ! (k - i) = npos}
        \<longleftrightarrow> k \<in> (if x = npos then {i} else {}) \<union> {k. i + 1 \<le> k \<and> k < n \<and> rs ! (k - (i + 1)) = npos}"
    proof (cases "i < k")
      case True
      then have "k - i = Suc (k - (i + 1))" by simp
      then show ?thesis using True by auto
    qed (use that in auto)
  qed
  have step: "card {k. i \<le> k \<and> k < n \<and> (x # rs) ! (k - i) = npos}
      = (if x = npos then 1 else 0) + card {k. i + 1 \<le> k \<and> k < n \<and> rs ! (k - (i + 1)) = npos}" if "i < n" for n
    unfolding at [OF that] by (subst card_Un_disjoint) auto
  show ?case
  proof (cases "x = npos")
    case True
    with Cons.prems(1) obtain d1 where 1: "collect_old dbg rs (i + 1) (deleted + 1) d1 = Some (rows, del')"
      by (auto split: bind_splits)
    from Cons.IH [OF 1 _ Cons.prems(3)] Cons.prems(2) step [of "tv_index r"] True show ?thesis by simp
  next
    case False
    with Cons.prems(1) obtain rows' where
      1: "collect_old dbg rs (i + 1) deleted del = Some (rows', del')"
        "rows = \<lparr>row_index = x, prev_tv_index = npos, tv_index = i, shifted_tv_index = i - deleted\<rparr> # rows'"
      by (auto split: bind_splits)
    show ?thesis
    proof (cases "r \<in> set rows'")
      case True
      from Cons.IH [OF 1(1) _ True] Cons.prems(2) step [of "tv_index r"] False show ?thesis by simp
    next
      case new: False
      then have "tv_index r = i" "shifted_tv_index r = i - deleted" using Cons.prems(3) 1(2) by auto
      then show ?thesis using Cons.prems(2) by (simp add: less_le_not_le)
    qed
  qed
qed simp

definition paired :: "row_info list \<Rightarrow> row_info \<Rightarrow> row_info" where
  "paired olds n = (case find (\<lambda>r. row_index r = row_index n) olds of
     None \<Rightarrow> n | Some r \<Rightarrow> n\<lparr>prev_tv_index := tv_index r, shifted_tv_index := shifted_tv_index r\<rparr>)"

lemma paired_same [simp]: "tv_index (paired olds n) = tv_index n" "row_index (paired olds n) = row_index n"
  by (simp_all add: paired_def split: option.split)

lemma paired_Cons: "paired (r # olds) n = (if row_index r = row_index n
    then n\<lparr>prev_tv_index := tv_index r, shifted_tv_index := shifted_tv_index r\<rparr> else paired olds n)"
  by (simp add: paired_def)

lemma paired_Nil [simp]: "paired [] n = n"
  by (simp add: paired_def)

lemma pair_rows_ok:
  assumes "sorted_wrt (\<lambda>r s. row_index r < row_index s) olds" "sorted_wrt (\<lambda>r s. row_index r < row_index s) news"
    "crv_ok dbg removed" "crv_ok dbg ins"
  shows "succeeds (pair_rows dbg olds news removed ins) (\<lambda>(rows, removed', ins'). crv_ok dbg removed' \<and> crv_ok dbg ins'
    \<and> idx removed' = idx removed \<union> tv_index ` {r \<in> set olds. row_index r \<notin> row_index ` set news}
    \<and> idx ins' = idx ins \<union> tv_index ` {r \<in> set news. row_index r \<notin> row_index ` set olds}
    \<and> rows = map (paired olds) news)"
  using assms
proof (induction dbg olds news removed ins rule: pair_rows.induct)
  case (1 dbg news removed ins)
  from add_all_ok [OF 1(4), of "map tv_index news"] show ?case using 1(3)
    by (auto simp: map_idI elim!: succeeds_mono)
next
  case (2 dbg old olds removed ins)
  from add_all_ok [OF 2(3), of "map tv_index (old # olds)"] show ?case using 2(4)
    by (auto elim!: succeeds_mono)
next
  case (3 dbg old olds new news removed ins)
  have s: "sorted_wrt (\<lambda>r s. row_index r < row_index s) olds" "sorted_wrt (\<lambda>r s. row_index r < row_index s) news"
    "\<forall>r\<in>set olds. row_index old < row_index r" "\<forall>r\<in>set news. row_index new < row_index r"
    using "3.prems"(1,2) by auto
  consider (same) "row_index old = row_index new" | (less) "row_index old < row_index new"
    | (more) "row_index new < row_index old" by linarith
  then show ?case
  proof cases
    case same
    from "3.IH"(1) [OF same s(1,2) "3.prems"(3,4)] obtain removed' ins' where
      p: "pair_rows dbg olds news removed ins = Some (map (paired olds) news, removed', ins')" "crv_ok dbg removed'" "crv_ok dbg ins'"
        "idx removed' = idx removed \<union> tv_index ` {r \<in> set olds. row_index r \<notin> row_index ` set news}"
        "idx ins' = idx ins \<union> tv_index ` {r \<in> set news. row_index r \<notin> row_index ` set olds}" by (auto elim: succeedsE)
    have "map (paired (old # olds)) news = map (paired olds) news" using s(4) same by (auto simp: paired_Cons)
    moreover have "{r \<in> set (old # olds). row_index r \<notin> row_index ` set (new # news)} = {r \<in> set olds. row_index r \<notin> row_index ` set news}"
      "{r \<in> set (new # news). row_index r \<notin> row_index ` set (old # olds)} = {r \<in> set news. row_index r \<notin> row_index ` set olds}"
      using s(3,4) same by force+
    ultimately show ?thesis using p same by (simp add: paired_Cons)
  next
    case less
    from add_succ [OF "3.prems"(3), of "tv_index old"] obtain r1 where
      1: "add dbg removed (tv_index old) = Some r1" "crv_ok dbg r1" "idx r1 = insert (tv_index old) (idx removed)"
      by (auto elim: succeedsE)
    have ne: "row_index old \<noteq> row_index new" using less by simp
    from "3.IH"(2) [OF ne less 1(1) s(1) "3.prems"(2) 1(2) "3.prems"(4)] obtain removed' ins' where
      p: "pair_rows dbg olds (new # news) r1 ins = Some (map (paired olds) (new # news), removed', ins')" "crv_ok dbg removed'"
        "crv_ok dbg ins'" "idx removed' = idx r1 \<union> tv_index ` {r \<in> set olds. row_index r \<notin> row_index ` set (new # news)}"
        "idx ins' = idx ins \<union> tv_index ` {r \<in> set (new # news). row_index r \<notin> row_index ` set olds}" by (auto elim: succeedsE)
    have "map (paired (old # olds)) (new # news) = map (paired olds) (new # news)" using s(4) less by (auto simp: paired_Cons)
    moreover have "{r \<in> set (old # olds). row_index r \<notin> row_index ` set (new # news)}
        = insert old {r \<in> set olds. row_index r \<notin> row_index ` set (new # news)}"
      "{r \<in> set (new # news). row_index r \<notin> row_index ` set (old # olds)} = {r \<in> set (new # news). row_index r \<notin> row_index ` set olds}"
      using s(4) less by force+
    ultimately show ?thesis using p 1 less ne by simp
  next
    case more
    from add_succ [OF "3.prems"(4), of "tv_index new"] obtain i1 where
      1: "add dbg ins (tv_index new) = Some i1" "crv_ok dbg i1" "idx i1 = insert (tv_index new) (idx ins)"
      by (auto elim: succeedsE)
    have ne: "row_index old \<noteq> row_index new" "\<not> row_index old < row_index new" using more by simp_all
    from "3.IH"(3) [OF ne 1(1) "3.prems"(1) s(2) "3.prems"(3) 1(2)] obtain removed' ins' where
      p: "pair_rows dbg (old # olds) news removed i1 = Some (map (paired (old # olds)) news, removed', ins')" "crv_ok dbg removed'"
        "crv_ok dbg ins'" "idx removed' = idx removed \<union> tv_index ` {r \<in> set (old # olds). row_index r \<notin> row_index ` set news}"
        "idx ins' = idx i1 \<union> tv_index ` {r \<in> set news. row_index r \<notin> row_index ` set (old # olds)}" by (auto elim: succeedsE)
    have "find (\<lambda>r. row_index r = row_index new) (old # olds) = None" using s(3) more by (auto simp: find_None_iff)
    then have "paired (old # olds) new = new" by (simp add: paired_def)
    moreover have "{r \<in> set (old # olds). row_index r \<notin> row_index ` set (new # news)} = {r \<in> set (old # olds). row_index r \<notin> row_index ` set news}"
      "{r \<in> set (new # news). row_index r \<notin> row_index ` set (old # olds)} = insert new {r \<in> set news. row_index r \<notin> row_index ` set (old # olds)}"
      using s(3) more by force+
    ultimately show ?thesis using p 1 ne by simp
  qed
qed

subsection \<open>What the debug build checks\<close>

lemma erase_rows_append: "erase_rows (rs @ rs') xs = erase_rows rs' (erase_rows rs xs)"
  by (induction rs arbitrary: xs) auto

lemma erase_rows_without:
  "rl_ok rs \<Longrightarrow> set_of rs \<subseteq> {..<length xs} \<Longrightarrow> erase_rows (rev rs) xs = without (set_of rs) xs"
proof (induction rs)
  case (Cons r rs)
  let ?f = "fst r" and ?s = "snd r"
  have b: "?f < ?s" "\<forall>x\<in>set_of rs. ?s < x" using Cons.prems(1) set_of_after [of r rs] by auto
  then have len: "?s \<le> length xs" using Cons.prems(2) by (auto simp: subset_iff dest!: spec [of _ "?s - 1"])
  let ?rest = "nths xs ({?s..} - set_of rs)"
  have "nths xs (- set_of rs) = nths xs ({0..<?s} \<union> ({?s..} - set_of rs))"
    using b by (intro arg_cong [where f = "nths xs"]) auto
  also have "\<dots> = nths xs {0..<?s} @ ?rest" by (rule nths_union [of _ ?s]) auto
  finally have 1: "nths xs (- set_of rs) = map ((!) xs) [0..<?s] @ ?rest" using len by (simp add: nths_interval)
  have "nths xs (- set_of (r # rs)) = nths xs ({0..<?f} \<union> ({?s..} - set_of rs))"
    using b by (intro arg_cong [where f = "nths xs"]) auto
  also have "\<dots> = nths xs {0..<?f} @ ?rest" using b by (intro nths_union [of _ ?s]) auto
  finally have 2: "nths xs (- set_of (r # rs)) = map ((!) xs) [0..<?f] @ ?rest" using len b by (simp add: nths_interval)
  have "erase_rows (rev (r # rs)) xs = erase_rows [r] (without (set_of rs) xs)"
    using Cons by (simp add: erase_rows_append)
  then show ?case using b(1) 1 2 by (simp add: without_def take_map)
qed simp

lemma insert_rows_without:
  "sorted_wrt (<) is \<Longrightarrow> set is \<subseteq> {..<length xs} \<Longrightarrow> insert_rows xs is (without (set is) xs) = xs"
proof (induction "is")
  case (Cons i "is")
  let ?rest = "nths xs ({Suc i..} - set is)"
  have b: "\<forall>x\<in>set is. i < x" "i < length xs" using Cons.prems by auto
  have "nths xs (- set (i # is)) = nths xs ({0..<i} \<union> ({Suc i..} - set is))"
    using b by (intro arg_cong [where f = "nths xs"]) auto
  also have "\<dots> = nths xs {0..<i} @ ?rest" by (rule nths_union [of _ "Suc i"]) auto
  finally have 1: "nths xs (- set (i # is)) = map ((!) xs) [0..<i] @ ?rest" using b(2) by (simp add: nths_interval)
  have "nths xs (- set is) = nths xs ({0..<Suc i} \<union> ({Suc i..} - set is))"
    using b by (intro arg_cong [where f = "nths xs"]) auto
  also have "\<dots> = nths xs {0..<Suc i} @ ?rest" by (rule nths_union [of _ "Suc i"]) auto
  finally have 2: "nths xs (- set is) = map ((!) xs) [0..<Suc i] @ ?rest" using b(2) nths_interval [of "Suc i" xs 0] by simp
  show ?case using Cons 1 2 by (simp add: without_def)
qed simp

subsection \<open>The change set\<close>

lemma nths_nths:
  assumes "sorted_wrt (<) is" "set is \<subseteq> {..<length xs}" "A \<inter> {..<length xs} = set is - (!) is ` U" "U \<subseteq> {..<length is}"
  shows "nths xs A = nths (map ((!) xs) is) (- U)"
proof -
  have s: "set (nths is (- U)) = set is - (!) is ` U"
  proof -
    have "distinct is" using assms(1) by (simp add: strict_sorted_iff)
    then show ?thesis using assms(4) by (auto simp: set_nths in_set_conv_nth nth_eq_iff_index_eq image_iff subset_iff) blast
  qed
  have "sorted_wrt (<) (nths is (- U))"
    unfolding nths_positions sorted_wrt_map
    by (rule sorted_wrt_mono_rel [OF _ sorted_wrt_filter [OF sorted_wrt_upt]])
      (use assms(1) in \<open>auto simp: sorted_wrt_nth_less\<close>)
  then have "nths xs (set (nths is (- U))) = map ((!) xs) (nths is (- U))"
    using assms(2) s by (intro nths_strict) auto
  moreover have "nths xs A = nths xs (set (nths is (- U)))" using nths_cut [of xs A] assms(3) s by simp
  ultimately show ?thesis by (simp add: nths_map)
qed

definition row_at :: "size_t list \<Rightarrow> nat \<Rightarrow> row_info" where
  "row_at rows i = \<lparr>row_index = rows ! i, prev_tv_index = npos, tv_index = i, shifted_tv_index = 0\<rparr>"

text \<open>The rows of both lists, in the order of the new one, with their old positions.\<close>

lemma common_rows:
  assumes olds: "distinct (map row_index olds)" "\<forall>r\<in>set olds. tv_index r < length prev \<and> tv_index r \<noteq> npos \<and> prev ! tv_index r = row_index r"
    and set_olds: "row_index ` set olds = set prev - {npos}" and next': "npos \<notin> set ns" and dist: "distinct ns"
    and rows: "rows = filter (\<lambda>r. prev_tv_index r \<noteq> npos) (map (paired olds) (map (row_at ns) [0..<length ns]))"
  shows "map tv_index rows = filter (\<lambda>j. ns ! j \<in> set prev) [0..<length ns]"
    "\<forall>r\<in>set rows. tv_index r < length ns \<and> row_index r = ns ! tv_index r"
    "\<forall>r\<in>set rows. prev_tv_index r < length prev \<and> prev ! prev_tv_index r = row_index r"
    "distinct (map row_index rows)" "row_index ` set rows = set ns \<inter> set prev"
proof -
  let ?p = "\<lambda>j. prev_tv_index (paired olds (row_at ns j))"
  have pj: "(?p j \<noteq> npos \<longleftrightarrow> ns ! j \<in> set prev) \<and> (ns ! j \<in> set prev \<longrightarrow> ?p j < length prev \<and> prev ! ?p j = ns ! j)"
    if "j < length ns" for j
  proof (cases "find (\<lambda>r. row_index r = ns ! j) olds")
    case None
    have "ns ! j \<noteq> npos" using next' that nth_mem by metis
    moreover have "ns ! j \<notin> row_index ` set olds" using None by (auto simp: find_None_iff)
    ultimately have "ns ! j \<notin> set prev" using set_olds by auto
    moreover have "?p j = npos" using None by (simp add: paired_def row_at_def)
    ultimately show ?thesis by simp
  next
    case (Some r)
    then have r: "r \<in> set olds" "row_index r = ns ! j" by (auto simp: find_Some_iff)
    then have "tv_index r < length prev" "tv_index r \<noteq> npos" "prev ! tv_index r = ns ! j" using olds(2) by auto
    moreover have "?p j = tv_index r" using Some by (simp add: paired_def row_at_def)
    moreover have "ns ! j \<in> set prev" using set_olds r by (metis DiffD1 imageI)
    ultimately show ?thesis by simp
  qed
  note p = pj [THEN conjunct1] pj [THEN conjunct2, rule_format]
  let ?J = "filter (\<lambda>j. ns ! j \<in> set prev) [0..<length ns]"
  have rows': "rows = map (\<lambda>j. paired olds (row_at ns j)) ?J"
  proof -
    have "filter (\<lambda>r. prev_tv_index r \<noteq> npos) (map (\<lambda>j. paired olds (row_at ns j)) js) = map (\<lambda>j. paired olds (row_at ns j))
        (filter (\<lambda>j. ns ! j \<in> set prev) js)" if "set js \<subseteq> {..<length ns}" for js
      using that p(1) by (induction js) auto
    from this [of "[0..<length ns]"] show ?thesis unfolding rows by (simp add: comp_def atLeast0LessThan)
  qed
  have tv: "map tv_index rows = ?J" and row: "map row_index rows = map ((!) ns) ?J"
    unfolding rows' by (simp_all add: row_at_def map_idI)
  show "map tv_index rows = ?J" by (rule tv)
  show "\<forall>r\<in>set rows. tv_index r < length ns \<and> row_index r = ns ! tv_index r" unfolding rows' by (auto simp: row_at_def)
  show "\<forall>r\<in>set rows. prev_tv_index r < length prev \<and> prev ! prev_tv_index r = row_index r"
    unfolding rows' using p(2) by (auto simp: row_at_def)
  show "distinct (map row_index rows)" unfolding row
    using dist by (auto simp: distinct_map inj_on_def nth_eq_iff_index_eq)
  have "row_index ` set rows = (!) ns ` set ?J" using row by (metis list.set_map)
  then show "row_index ` set rows = set ns \<inter> set prev" by (auto simp: in_set_conv_nth image_iff) metis+
qed

lemma common_shifted:
  assumes "\<forall>r\<in>set olds. shifted_tv_index r = f (tv_index r)" "r \<in> set (map (paired olds) (map (row_at ns) js))"
    "prev_tv_index r \<noteq> npos"
  shows "shifted_tv_index r = f (prev_tv_index r)"
proof -
  from assms(2) obtain j where r: "r = paired olds (row_at ns j)" by auto
  show ?thesis
  proof (cases "find (\<lambda>q. row_index q = row_index (row_at ns j)) olds")
    case None
    then have "prev_tv_index r = npos" unfolding r by (simp add: paired_def row_at_def)
    with assms(3) show ?thesis by simp
  next
    case (Some q)
    then have "q \<in> set olds" by (auto simp: find_Some_iff)
    with Some assms(1) show ?thesis unfolding r by (simp add: paired_def)
  qed
qed

lemma lcs_a_old:
  assumes "\<forall>r\<in>set rows. prev_tv_index r < length prev \<and> prev ! prev_tv_index r = row_index r" "distinct (map row_index rows)"
  shows "sorted_wrt (<) (map l_tv (lcs_a rows))" "set (map l_tv (lcs_a rows)) = prev_tv_index ` set rows"
    "map l_row (lcs_a rows) = map ((!) prev) (map l_tv (lcs_a rows))"
proof -
  let ?f = "\<lambda>r. \<lparr>l_row = row_index r, l_tv = prev_tv_index r\<rparr>"
  have s: "set (lcs_a rows) = ?f ` set rows" by (simp add: lcs_a_def)
  have "mset (map l_tv (lcs_a rows)) = mset (map prev_tv_index rows)" by (simp add: lcs_a_def image_mset.compositionality comp_def)
  moreover have "distinct (map prev_tv_index rows)"
    using assms unfolding distinct_map inj_on_def by (metis distinct_map)
  ultimately have "distinct (map l_tv (lcs_a rows))" by (metis mset_eq_imp_distinct_iff)
  moreover have "sorted (map l_tv (lcs_a rows))" by (simp add: lcs_a_def)
  ultimately show "sorted_wrt (<) (map l_tv (lcs_a rows))" by (simp add: strict_sorted_iff)
  show "set (map l_tv (lcs_a rows)) = prev_tv_index ` set rows" by (simp add: s image_image)
  show "map l_row (lcs_a rows) = map ((!) prev) (map l_tv (lcs_a rows))" using s assms(1) by (auto simp: comp_def)
qed

lemma sort_rows_strict:
  "distinct (map row_index rs) \<Longrightarrow> sorted_wrt (\<lambda>r s. row_index r < row_index s) (sort_key row_index rs)"
proof -
  assume "distinct (map row_index rs)"
  moreover have "mset (map row_index (sort_key row_index rs)) = mset (map row_index rs)" by simp
  ultimately have "distinct (map row_index (sort_key row_index rs))" by (metis mset_eq_imp_distinct_iff)
  then have "sorted_wrt (<) (map row_index (sort_key row_index rs))" by (simp add: strict_sorted_iff)
  then show ?thesis by (simp add: sorted_wrt_map)
qed

definition leads_to :: "(size_t \<Rightarrow> bool) \<Rightarrow> size_t list \<Rightarrow> size_t list \<Rightarrow> change_builder \<Rightarrow> bool" where
  "leads_to changed prev ns c \<longleftrightarrow> idx (deletions c) \<subseteq> {..<length prev} \<and> idx (insertions c) \<subseteq> {..<length ns}
     \<and> without (idx (deletions c)) prev = without (idx (insertions c)) ns
     \<and> {i. i < length prev \<and> prev ! i \<notin> set ns} \<subseteq> idx (deletions c)
     \<and> {j. j < length ns \<and> ns ! j \<notin> set prev} \<subseteq> idx (insertions c)
     \<and> idx (modifications c) = {j. j < length ns \<and> ns ! j \<in> set prev \<and> changed (ns ! j)}
     \<and> (\<forall>mv\<in>set (moves c). mv_from mv \<in> idx (deletions c) \<and> mv_to mv \<in> idx (insertions c) \<and> prev ! mv_from mv = ns ! mv_to mv)"

lemma debug_check_ok:
  assumes "crv_ok dbg del" "crv_ok dbg ins" "idx del \<subseteq> {..<length prev}" "idx ins \<subseteq> {..<length ns}"
    "without (idx del) prev = without (idx ins) ns"
  shows "succeeds (as_indexes ins) (\<lambda>is. insert_rows ns is (erase_rows (rev (ranges del)) prev) = ns)"
proof -
  have rl: "rl_ok (ranges del)" "rl_ok (ranges ins)" using crv_okD assms(1,2) by auto
  have "erase_rows (rev (ranges del)) prev = without (idx del) prev"
    using erase_rows_without [OF rl(1), of prev] assms(3) by (simp add: idx_def)
  moreover have "insert_rows ns (indexes (ranges ins)) (without (idx ins) ns) = ns"
    using insert_rows_without [OF sorted_indexes [OF rl(2)], of ns] assms(4) by (simp add: idx_def)
  ultimately show ?thesis using as_indexes_crv_ok [OF assms(2)] assms(5) by simp
qed

lemma distinct_filter_nth:
  "distinct (filter P xs) \<Longrightarrow> i < length xs \<Longrightarrow> j < length xs \<Longrightarrow> xs ! i = xs ! j \<Longrightarrow> P (xs ! j) \<Longrightarrow> i = j"
proof (induction xs arbitrary: i j)
  case (Cons x xs)
  have "x \<in> set (filter P xs)" if "xs ! k = x" "k < length xs" "P x" for k using that by auto
  then show ?case using Cons by (cases i; cases j) (auto split: if_splits)
qed simp

text \<open>The rows of both lists, and the sets of positions known before the moves are calculated.\<close>

definition prepared :: "bool \<Rightarrow> size_t list \<Rightarrow> size_t list \<Rightarrow> (size_t \<Rightarrow> bool) \<Rightarrow> row_info list \<Rightarrow> index_set \<Rightarrow> change_builder \<Rightarrow> bool" where
  "prepared dbg prev ns changed rows removed c \<longleftrightarrow>
     crv_ok dbg removed \<and> crv_ok dbg (deletions c) \<and> crv_ok dbg (insertions c) \<and> crv_ok dbg (modifications c)
     \<and> idx (deletions c) = {i. i < length prev \<and> prev ! i = npos}
     \<and> idx removed = {i. i < length prev \<and> prev ! i \<noteq> npos \<and> prev ! i \<notin> set ns}
     \<and> idx (insertions c) = {j. j < length ns \<and> ns ! j \<notin> set prev}
     \<and> idx (modifications c) = {j. j < length ns \<and> ns ! j \<in> set prev \<and> changed (ns ! j)}
     \<and> moves c = [] \<and> move_mapping c = []
     \<and> map tv_index rows = filter (\<lambda>j. ns ! j \<in> set prev) [0..<length ns]
     \<and> (\<forall>r\<in>set rows. tv_index r < length ns \<and> row_index r = ns ! tv_index r)
     \<and> (\<forall>r\<in>set rows. prev_tv_index r < length prev \<and> prev ! prev_tv_index r = row_index r)
     \<and> (\<forall>r\<in>set rows. shifted_tv_index r = card ({..<prev_tv_index r} - {i. i < length prev \<and> prev ! i = npos}))
     \<and> distinct (map row_index rows) \<and> row_index ` set rows = set ns \<inter> set prev
     \<and> prev_tv_index ` set rows = {i. i < length prev \<and> prev ! i \<in> set ns}"

definition calculate_end :: "bool \<Rightarrow> size_t list \<Rightarrow> size_t list \<Rightarrow> index_set option \<Rightarrow> row_info list \<Rightarrow> index_set
    \<Rightarrow> change_builder \<Rightarrow> change_builder option" where
  "calculate_end dbg prev ns move_candidates rows removed ret = do {
     (removed, ret) \<leftarrow> (case move_candidates of
         Some candidates \<Rightarrow> calculate_moves_unsorted dbg candidates rows 0 removed ret
       | None \<Rightarrow> do { ret \<leftarrow> calculate_moves_sorted dbg rows ret; Some (removed, ret) });
     del \<leftarrow> add_set dbg (deletions ret) removed;
     let ret = ret\<lparr>deletions := del\<rparr>;
     cb_verify dbg ret;
     (if dbg then do {
        is \<leftarrow> as_indexes (insertions ret);
        realm_assert (insert_rows ns is (erase_rows (rev (ranges (deletions ret))) prev) = ns)
      } else Some ());
     Some ret
   }"

lemma calculate_prepared:
  assumes "distinct (filter (\<lambda>r. r \<noteq> npos) prev)" "distinct ns" "npos \<notin> set ns" "length prev < npos"
    "dbg \<Longrightarrow> cand = None \<or> sorted ns"
  shows "\<exists>rows removed c. prepared dbg prev ns changed rows removed c
    \<and> calculate dbg prev ns changed cand = calculate_end dbg prev ns cand rows removed c"
proof -
  let ?NP = "{i. i < length prev \<and> prev ! i = npos}"
  from collect_old_ok [OF crv_ok_Nil, where dbg = dbg and rs = prev and i = 0 and deleted = 0] obtain olds0 del where
    old: "collect_old dbg prev 0 0 [] = Some (olds0, del)" "crv_ok dbg del" "idx del = ?NP"
      "map row_index olds0 = filter (\<lambda>r. r \<noteq> npos) prev" "tv_index ` set olds0 \<subseteq> {..<length prev}"
      "\<forall>r\<in>set olds0. prev ! tv_index r = row_index r"
    by (auto elim!: succeedsE simp: atLeast0LessThan)
  have shifted: "\<forall>r\<in>set olds0. shifted_tv_index r = card ({..<tv_index r} - ?NP)"
  proof
    fix r assume r: "r \<in> set olds0"
    then have "tv_index r < length prev" using old(5) by auto
    then have "{k. 0 \<le> k \<and> k < tv_index r \<and> prev ! (k - 0) = npos} = {..<tv_index r} \<inter> ?NP" by auto
    then show "shifted_tv_index r = card ({..<tv_index r} - ?NP)"
      using collect_old_shifted [OF old(1) _ r] card_Diff_subset_Int [of "{..<tv_index r}" ?NP] by simp
  qed
  let ?olds = "sort_key row_index olds0" and ?fresh = "map (row_at ns) [0..<length ns]"
  let ?news = "sort_key row_index ?fresh"
  have "map row_index ?fresh = ns" by (rule nth_equalityI) (simp_all add: row_at_def)
  then have dist: "distinct (map row_index olds0)" "distinct (map row_index ?fresh)"
    using assms(1,2) old(4) by simp_all
  have dist_olds: "distinct (map row_index ?olds)" using dist(1) by (metis mset_eq_imp_distinct_iff mset_map mset_sort)
  have set_olds: "row_index ` set ?olds = set prev - {npos}"
    using arg_cong [OF old(4), of set] by auto
  have set_news: "row_index ` set ?news = set ns" by (auto simp: row_at_def in_set_conv_nth image_iff) force
  have olds_at: "\<forall>r\<in>set ?olds. tv_index r < length prev \<and> tv_index r \<noteq> npos \<and> prev ! tv_index r = row_index r"
    using old(5,6) assms(4) by auto
  from pair_rows_ok [OF sort_rows_strict [OF dist(1)] sort_rows_strict [OF dist(2)] crv_ok_Nil crv_ok_Nil, of dbg] obtain removed ins where
    pr: "pair_rows dbg ?olds ?news [] [] = Some (map (paired ?olds) ?news, removed, ins)" "crv_ok dbg removed" "crv_ok dbg ins"
      "idx removed = tv_index ` {r \<in> set ?olds. row_index r \<notin> row_index ` set ?news}"
      "idx ins = tv_index ` {r \<in> set ?news. row_index r \<notin> row_index ` set ?olds}"
    by (auto elim!: succeedsE)
  have removed: "idx removed = {i. i < length prev \<and> prev ! i \<noteq> npos \<and> prev ! i \<notin> set ns}"
  proof -
    have "\<exists>r\<in>set ?olds. tv_index r = i" if i: "i < length prev" "prev ! i \<noteq> npos" for i
    proof -
      have "prev ! i \<in> row_index ` set ?olds" unfolding set_olds using i by simp
      then obtain r where r: "r \<in> set ?olds" "row_index r = prev ! i" by auto
      then have "tv_index r < length prev" "prev ! tv_index r = prev ! i" using olds_at by simp_all
      from distinct_filter_nth [OF assms(1) this(1) i(1) this(2) i(2)] have "tv_index r = i" .
      then show ?thesis using r(1) by blast
    qed
    moreover have "tv_index r < length prev \<and> prev ! tv_index r \<noteq> npos \<and> prev ! tv_index r = row_index r"
      if "r \<in> set ?olds" for r
    proof -
      have "row_index r \<in> set prev - {npos}" using that set_olds by blast
      then show ?thesis using olds_at that by simp
    qed
    ultimately show ?thesis unfolding pr(4) set_news by (intro set_eqI iffI) (fastforce, force)
  qed
  have ins: "idx ins = {j. j < length ns \<and> ns ! j \<notin> set prev}"
  proof -
    have "ns ! j \<noteq> npos" if "j < length ns" for j using assms(3) that nth_mem by metis
    then have "{r \<in> set ?news. row_index r \<notin> set prev - {npos}} = row_at ns ` {j. j < length ns \<and> ns ! j \<notin> set prev}"
      by (auto simp: row_at_def)
    then show ?thesis unfolding pr(5) set_olds by (simp add: image_image row_at_def)
  qed
  define rows where "rows = filter (\<lambda>r. prev_tv_index r \<noteq> npos) (map (paired ?olds) ?fresh)"
  note cr = common_rows [OF dist_olds olds_at set_olds assms(3,2) rows_def]
  have sort: "sort_key tv_index (filter (\<lambda>r. prev_tv_index r \<noteq> npos) (map (paired ?olds) ?news)) = rows"
  proof (rule sort_key_inj_key_eq)
    show "mset (filter (\<lambda>r. prev_tv_index r \<noteq> npos) (map (paired ?olds) ?news)) = mset rows"
      by (simp only: rows_def mset_filter mset_map mset_sort)
    have "inj_on tv_index (set rows)" using cr(1) by (metis distinct_filter distinct_map distinct_upt)
    then show "inj_on tv_index (set (filter (\<lambda>r. prev_tv_index r \<noteq> npos) (map (paired ?olds) ?news)))"
      by (simp only: rows_def set_filter set_map set_sort)
    show "sorted (map tv_index rows)" unfolding cr(1) by (simp add: sorted_wrt_filter)
  qed
  from add_all_ok [OF crv_ok_Nil, of dbg "map tv_index (filter (\<lambda>row. changed (row_index row)) rows)"] obtain modif where
    modif: "add_all dbg (map tv_index (filter (\<lambda>row. changed (row_index row)) rows)) [] = Some modif" "crv_ok dbg modif"
      "idx modif = tv_index ` {r \<in> set rows. changed (row_index r)}" by (auto elim!: succeedsE)
  have modified: "idx modif = {j. j < length ns \<and> ns ! j \<in> set prev \<and> changed (ns ! j)}"
  proof -
    have "tv_index ` {r \<in> S. changed (row_index r)} = {j \<in> tv_index ` S. changed (ns ! j)}"
      if "\<forall>r\<in>S. tv_index r < length ns \<and> row_index r = ns ! tv_index r" for S using that by auto
    note this [OF cr(2)]
    moreover have "tv_index ` set rows = {j. j < length ns \<and> ns ! j \<in> set prev}" using arg_cong [OF cr(1), of set] by auto
    ultimately show ?thesis unfolding modif(3) by simp
  qed
  let ?c = "cb_nil\<lparr>deletions := del, insertions := ins, modifications := modif\<rparr>"
  let ?c = "cb_nil\<lparr>deletions := del, insertions := ins, modifications := modif\<rparr>"
  have shifted_rows: "\<forall>r\<in>set rows. shifted_tv_index r = card ({..<prev_tv_index r} - ?NP)"
    using common_shifted [of ?olds "\<lambda>i. card ({..<i} - ?NP)" _ ns "[0..<length ns]"] shifted by (simp add: rows_def)
  have old_set: "prev_tv_index ` set rows = {i. i < length prev \<and> prev ! i \<in> set ns}"
  proof -
    have "\<exists>r\<in>set rows. prev_tv_index r = i" if i: "i < length prev" "prev ! i \<in> set ns" for i
    proof -
      have "prev ! i \<in> set ns \<inter> set prev" using i by simp
      then obtain r where r: "r \<in> set rows" "row_index r = prev ! i" unfolding cr(5) [symmetric] by auto
      then have "prev_tv_index r < length prev" "prev ! prev_tv_index r = prev ! i" using cr(3) by auto
      moreover have "prev ! i \<noteq> npos" using i(2) assms(3) by metis
      ultimately have "prev_tv_index r = i" using distinct_filter_nth [OF assms(1) _ i(1)] by blast
      then show ?thesis using r(1) by blast
    qed
    moreover have "prev_tv_index r < length prev \<and> prev ! prev_tv_index r \<in> set ns" if "r \<in> set rows" for r
      using that cr(3,5) by (metis IntD1 imageI)
    ultimately show ?thesis by blast
  qed
  have "prepared dbg prev ns changed rows removed ?c"
    using pr(2,3) old(2,3) modif(2) modified ins removed cr shifted_rows old_set
    unfolding prepared_def by (simp add: cb_nil_def)
  moreover have "(\<lambda>i. \<lparr>row_index = ns ! i, prev_tv_index = npos, tv_index = i, shifted_tv_index = 0\<rparr>) = row_at ns"
    by (simp add: fun_eq_iff row_at_def)
  then have "calculate dbg prev ns changed cand = calculate_end dbg prev ns cand rows removed ?c"
    using old(1) pr(1) modif(1) sort assms(5)
    by (cases cand) (simp_all add: calculate_def calculate_end_def Let_def realm_assert_debug_def)
  ultimately show ?thesis by blast
qed

lemma verify_moves_ok:
  assumes "crv_ok dbg (deletions c)" "crv_ok dbg (insertions c)"
    "\<forall>mv\<in>set (moves c). mv_from mv \<in> idx (deletions c) \<and> mv_to mv \<in> idx (insertions c)"
  shows "cb_verify dbg c = Some ()"
proof -
  have "verify_moves dbg ms c = Some ()" if "set ms \<subseteq> set (moves c)" for ms
    using that assms by (induction ms) (auto simp: contains_ok)
  then show ?thesis by (auto simp: cb_verify_def)
qed

lemma calculate_end_ok:
  assumes p: "prepared dbg prev ns changed rows removed c"
    and mv: "(case cand of Some candidates \<Rightarrow> calculate_moves_unsorted dbg candidates rows 0 removed c
       | None \<Rightarrow> do { ret \<leftarrow> calculate_moves_sorted dbg rows c; Some (removed, ret) })
      = Some (removed', c\<lparr>deletions := del', insertions := ins', moves := mvs\<rparr>)"
    and ok: "crv_ok dbg del'" "crv_ok dbg ins'" "crv_ok dbg removed'"
    and del: "idx del' \<union> idx removed' = {i. i < length prev \<and> prev ! i \<notin> set ns} \<union> A" "A \<subseteq> {..<length prev}"
    and ins: "idx ins' = {j. j < length ns \<and> ns ! j \<notin> set prev} \<union> B" "B \<subseteq> {..<length ns}"
    and mvs: "\<forall>mv\<in>set mvs. mv_from mv \<in> A \<and> mv_to mv \<in> B \<and> prev ! mv_from mv = ns ! mv_to mv"
    and same: "nths prev (- (idx del' \<union> idx removed')) = nths ns (- idx ins')"
  shows "succeeds (calculate_end dbg prev ns cand rows removed c) (\<lambda>r. leads_to changed prev ns r \<and> moves r = mvs)"
proof -
  from add_set_succ [OF ok(1,3)] obtain del'' where
    d: "add_set dbg del' removed' = Some del''" "crv_ok dbg del''" "idx del'' = idx del' \<union> idx removed'" by (rule succeedsE) auto
  let ?ret = "c\<lparr>insertions := ins', moves := mvs, deletions := del''\<rparr>"
  have bounds: "idx del'' \<subseteq> {..<length prev}" "idx ins' \<subseteq> {..<length ns}" using del ins unfolding d(3) by auto
  have same': "without (idx del'') prev = without (idx ins') ns" using same by (simp add: without_def d(3))
  from debug_check_ok [OF d(2) ok(2) bounds same'] obtain "is" where
    chk: "as_indexes ins' = Some is" "insert_rows ns is (erase_rows (rev (ranges del'')) prev) = ns" by (rule succeedsE)
  have mod: "idx (modifications c) = {j. j < length ns \<and> ns ! j \<in> set prev \<and> changed (ns ! j)}"
    using p by (simp add: prepared_def)
  have "leads_to changed prev ns ?ret"
    using bounds same' del ins mvs mod unfolding leads_to_def d(3) by (fastforce simp: d(3))
  moreover have "cb_verify dbg ?ret = Some ()"
  proof -
    have "mv_from mv \<in> idx del'' \<and> mv_to mv \<in> idx ins'" if "mv \<in> set mvs" for mv
      using that mvs del(1) ins(1) unfolding d(3) by blast
    then show ?thesis using d(2) ok(2) by (intro verify_moves_ok) simp_all
  qed
  ultimately show ?thesis using mv d(1) chk by (simp add: calculate_end_def Let_def)
qed

lemma prepared_few:
  assumes "prepared dbg prev ns changed rows removed c" "length ns < npos"
  shows "length rows + 1 < 2 ^ 64"
proof -
  have "map tv_index rows = filter (\<lambda>j. ns ! j \<in> set prev) [0..<length ns]" using assms(1) by (simp add: prepared_def)
  then have "length rows \<le> length ns"
    by (metis length_map length_filter_le diff_zero length_upt)
  then show ?thesis using assms(2) by (simp add: npos_def)
qed

lemma calculate_sorted_ok:
  assumes "distinct (filter (\<lambda>r. r \<noteq> npos) prev)" "distinct ns" "npos \<notin> set ns" "length prev < npos" "length ns < npos"
  shows "succeeds (calculate dbg prev ns changed None) (\<lambda>c. leads_to changed prev ns c \<and> moves c = [])"
proof -
  from calculate_prepared [OF assms(1-4), of dbg None changed] obtain rows removed c where
    p: "prepared dbg prev ns changed rows removed c"
      "calculate dbg prev ns changed None = calculate_end dbg prev ns None rows removed c" by auto
  note few = prepared_few [OF p(1) assms(5)]
  have c: "crv_ok dbg removed" "crv_ok dbg (deletions c)" "crv_ok dbg (insertions c)" "crv_ok dbg (modifications c)" "moves c = []"
    and rows: "map tv_index rows = filter (\<lambda>j. ns ! j \<in> set prev) [0..<length ns]"
      "\<forall>r\<in>set rows. tv_index r < length ns \<and> row_index r = ns ! tv_index r"
      "\<forall>r\<in>set rows. prev_tv_index r < length prev \<and> prev ! prev_tv_index r = row_index r" "distinct (map row_index rows)"
      "prev_tv_index ` set rows = {i. i < length prev \<and> prev ! i \<in> set ns}"
    and sets: "idx (deletions c) = {i. i < length prev \<and> prev ! i = npos}"
      "idx removed = {i. i < length prev \<and> prev ! i \<noteq> npos \<and> prev ! i \<notin> set ns}"
      "idx (insertions c) = {j. j < length ns \<and> ns ! j \<notin> set prev}" using p(1) by (simp_all add: prepared_def)
  from moves_sorted_ok [OF few c(4,2,3)] obtain del' ins' U V where
    mv: "calculate_moves_sorted dbg rows c = Some (c\<lparr>deletions := del', insertions := ins'\<rparr>)"
      "U \<subseteq> {..<length rows}" "V \<subseteq> {..<length rows}"
      "nths (map l_row (lcs_a rows)) (- U) = nths (map row_index rows) (- V)" "crv_ok dbg del'" "crv_ok dbg ins'"
      "idx del' = idx (deletions c) \<union> (\<lambda>k. l_tv (lcs_a rows ! k)) ` U" "idx ins' = idx (insertions c) \<union> (\<lambda>k. tv_index (rows ! k)) ` V"
    by (auto elim!: succeedsE)
  let ?is = "map l_tv (lcs_a rows)" and ?js = "map tv_index rows"
  note old_at = lcs_a_old [OF rows(3,4)]
  have la: "length (lcs_a rows) = length rows" by (rule lcs_input_rows(2) [OF few])
  have is_set: "set ?is = {i. i < length prev \<and> prev ! i \<in> set ns}" unfolding old_at(2) rows(5) ..
  have js_set: "set ?js = {j. j < length ns \<and> ns ! j \<in> set prev}" unfolding rows(1) by auto
  have U: "(!) ?is ` U = (\<lambda>k. l_tv (lcs_a rows ! k)) ` U" using mv(2) la by (intro image_cong) auto
  have V: "(!) ?js ` V = (\<lambda>k. tv_index (rows ! k)) ` V" using mv(3) by (intro image_cong) auto
  have sub: "(!) ?is ` U \<subseteq> set ?is" "(!) ?js ` V \<subseteq> set ?js" using mv(2,3) la by (auto intro!: nth_mem simp del: set_map)
  have del_set: "idx del' \<union> idx removed = {i. i < length prev \<and> prev ! i \<notin> set ns} \<union> (!) ?is ` U"
    unfolding mv(7) sets U using assms(3) by auto
  have ins_set: "idx ins' = {j. j < length ns \<and> ns ! j \<notin> set prev} \<union> (!) ?js ` V" unfolding mv(8) sets V ..
  have "nths prev (- (idx del' \<union> idx removed)) = nths (map ((!) prev) ?is) (- U)"
    using mv(2) la is_set sub(1) by (intro nths_nths old_at(1)) (auto simp: del_set simp del: set_map)
  moreover have "nths ns (- idx ins') = nths (map ((!) ns) ?js) (- V)"
  proof (rule nths_nths)
    show "sorted_wrt (<) ?js" unfolding rows(1) by (rule sorted_wrt_filter) simp
  qed (use mv(3) js_set sub(2) in \<open>auto simp: ins_set simp del: set_map\<close>)
  moreover have "map row_index rows = map ((!) ns) ?js" using rows(2) by auto
  ultimately have same: "nths prev (- (idx del' \<union> idx removed)) = nths ns (- idx ins')"
    using mv(4) old_at(3) by (simp only:)
  have "c\<lparr>deletions := del', insertions := ins', moves := []\<rparr> = c\<lparr>deletions := del', insertions := ins'\<rparr>" using c(5) by simp
  then show ?thesis unfolding p(2)
    using sub is_set js_set mv(1)
    by (intro calculate_end_ok [OF p(1) _ mv(5,6) c(1) del_set _ ins_set _ _ same]) auto
qed

end
