(* ===== verification/Change_Unsorted.thy ===== *)
theory Change_Unsorted
  imports Change_Sequences
begin

section \<open>Calculating the moves of rows in table order\<close>

text \<open>
  \<open>calculate_moves_unsorted\<close> goes through the rows that both lists have, in the order of the new one, and decides
  for each whether it stays or has moved. It takes no row for a moved one that is not a candidate. What it decides
  is right when the candidates were behind all other rows, as rows are that \<open>move_last_over\<close> has moved.
\<close>

subsection \<open>The rows that are gone through\<close>

text \<open>\<open>dead\<close> and \<open>gone\<close> are the old positions of the rows that are deleted or no longer match, \<open>new\<close> the new
  positions of the rows that are new, and \<open>rows\<close> all the others.\<close>

definition unsorted_input :: "size_t set \<Rightarrow> size_t set \<Rightarrow> size_t set \<Rightarrow> size_t set \<Rightarrow> row_info list \<Rightarrow> bool" where
  "unsorted_input dead gone new cand rows \<longleftrightarrow>
     sorted_wrt (\<lambda>r s. tv_index r < tv_index s) rows \<and> distinct (map prev_tv_index rows)
     \<and> (\<forall>r\<in>set rows. {..<prev_tv_index r} \<subseteq> dead \<union> gone \<union> prev_tv_index ` set rows)
     \<and> (\<forall>r\<in>set rows. {..<tv_index r} \<subseteq> new \<union> tv_index ` set rows)
     \<and> dead \<inter> gone = {} \<and> prev_tv_index ` set rows \<inter> (dead \<union> gone) = {} \<and> tv_index ` set rows \<inter> new = {}
     \<and> (\<forall>r\<in>set rows. shifted_tv_index r = card ({..<prev_tv_index r} - dead))
     \<and> (\<forall>r\<in>set rows. \<forall>s\<in>set rows. row_index r \<notin> cand \<longrightarrow> row_index s \<in> cand \<longrightarrow> prev_tv_index r < prev_tv_index s)
     \<and> (\<forall>r\<in>set rows. \<forall>s\<in>set rows. row_index r \<notin> cand \<longrightarrow> row_index s \<notin> cand \<longrightarrow> tv_index r < tv_index s
          \<longrightarrow> prev_tv_index r < prev_tv_index s)"

text \<open>The state of the loop before \<open>rest\<close>: the rows that stay, and those that have moved.\<close>

definition scanned :: "size_t set \<Rightarrow> size_t set \<Rightarrow> row_info list \<Rightarrow> row_info list \<Rightarrow> row_info set \<Rightarrow> row_info list
    \<Rightarrow> size_t \<Rightarrow> size_t set \<Rightarrow> size_t set \<Rightarrow> bool" where
  "scanned gone new rows stay moved rest expected removed ins \<longleftrightarrow>
     (\<exists>before. rows = before @ rest \<and> set before = set stay \<union> moved) \<and> set stay \<inter> moved = {}
     \<and> sorted_wrt (\<lambda>r s. tv_index r < tv_index s) stay
     \<and> sorted_wrt (\<lambda>r s. prev_tv_index r < prev_tv_index s) stay
     \<and> (\<forall>r\<in>set stay. \<forall>s\<in>set rest. prev_tv_index r < prev_tv_index s)
     \<and> expected = (if stay = [] then 0 else shifted_tv_index (last stay) + 1)
     \<and> removed = gone \<union> prev_tv_index ` moved \<and> ins = new \<union> tv_index ` moved"

lemma shifted_mono:
  assumes "unsorted_input dead gone new cand rows" "r \<in> set rows" "s \<in> set rows" "prev_tv_index r < prev_tv_index s"
  shows "shifted_tv_index r < shifted_tv_index s"
proof -
  have "prev_tv_index r \<notin> dead" using assms(1,2) by (auto simp: unsorted_input_def)
  then have "{..<prev_tv_index r} - dead \<subset> {..<prev_tv_index s} - dead" using assms(4) by auto
  then show ?thesis using assms(1-3) by (simp add: unsorted_input_def psubset_card_mono)
qed

text \<open>A row stays when no row that is still to come was before it.\<close>

lemma scanned_stay:
  assumes "unsorted_input dead gone new cand rows" "scanned gone new rows stay moved (r # rest) expected removed ins"
    "\<forall>s\<in>set rest. prev_tv_index r < prev_tv_index s"
  shows "scanned gone new rows (stay @ [r]) moved rest (shifted_tv_index r + 1) removed ins"
proof -
  from assms(2) obtain before where b: "rows = before @ r # rest" "set before = set stay \<union> moved"
    by (auto simp: scanned_def)
  have tv: "\<forall>s\<in>set before. tv_index s < tv_index r" using assms(1) b(1) by (auto simp: unsorted_input_def sorted_wrt_append)
  then have "r \<notin> moved" using b(2) by blast
  moreover have "\<exists>before. rows = before @ rest \<and> set before = set (stay @ [r]) \<union> moved"
    using b by (intro exI [of _ "before @ [r]"]) auto
  ultimately show ?thesis using assms(2,3) tv b(2) by (auto simp: scanned_def sorted_wrt_append)
qed

lemma scanned_move:
  assumes "unsorted_input dead gone new cand rows" "scanned gone new rows stay moved (r # rest) expected removed ins"
  shows "scanned gone new rows stay (insert r moved) rest expected (insert (prev_tv_index r) removed) (insert (tv_index r) ins)"
proof -
  from assms(2) obtain before where b: "rows = before @ r # rest" "set before = set stay \<union> moved"
    by (auto simp: scanned_def)
  have "\<forall>s\<in>set before. tv_index s < tv_index r" using assms(1) b(1) by (auto simp: unsorted_input_def sorted_wrt_append)
  then have "r \<notin> set stay" using b(2) by blast
  moreover have "\<exists>before. rows = before @ rest \<and> set before = set stay \<union> insert r moved"
    using b by (intro exI [of _ "before @ [r]"]) auto
  ultimately show ?thesis using assms(2) by (auto simp: scanned_def)
qed

subsection \<open>The three reasons to let a row stay\<close>

lemma stays_expected:
  assumes "unsorted_input dead gone new cand rows" "scanned gone new rows stay moved (r # rest) expected removed ins"
    "shifted_tv_index r = expected"
  shows "\<forall>s\<in>set rest. prev_tv_index r < prev_tv_index s"
proof (rule ballI, rule ccontr)
  fix s assume s: "s \<in> set rest" "\<not> prev_tv_index r < prev_tv_index s"
  from assms(2) obtain before where b: "rows = before @ r # rest" "set before = set stay \<union> moved"
    by (auto simp: scanned_def)
  have "distinct (map prev_tv_index (before @ r # rest))" using assms(1) b(1) by (simp add: unsorted_input_def)
  then have "prev_tv_index s \<noteq> prev_tv_index r" using s(1) by (simp add: image_iff) metis
  then have less: "prev_tv_index s < prev_tv_index r" using s(2) by simp
  have in_rows: "r \<in> set rows" "s \<in> set rows" using b(1) s(1) by auto
  have sh: "shifted_tv_index s < shifted_tv_index r" using shifted_mono [OF assms(1) in_rows(2,1) less] .
  show False
  proof (cases "stay = []")
    case True
    then show False using sh assms(2,3) by (simp add: scanned_def)
  next
    case False
    then have l: "last stay \<in> set stay" by simp
    then have "last stay \<in> set rows" "prev_tv_index (last stay) < prev_tv_index s"
      using assms(2) b s(1) by (auto simp: scanned_def)
    then have "shifted_tv_index (last stay) < shifted_tv_index s" using shifted_mono [OF assms(1) _ in_rows(2)] by blast
    then show False using sh assms(2,3) False by (simp add: scanned_def)
  qed
qed

lemma stays_fixed:
  assumes "unsorted_input dead gone new cand rows" "scanned gone new rows stay moved (r # rest) expected removed ins"
    "row_index r \<notin> cand"
  shows "\<forall>s\<in>set rest. prev_tv_index r < prev_tv_index s"
proof
  fix s assume s: "s \<in> set rest"
  from assms(2) obtain before where b: "rows = before @ r # rest" by (auto simp: scanned_def)
  have "tv_index r < tv_index s" using assms(1) b s by (auto simp: unsorted_input_def sorted_wrt_append)
  moreover have "r \<in> set rows" "s \<in> set rows" using b s by auto
  ultimately show "prev_tv_index r < prev_tv_index s" using assms(1,3) by (cases "row_index s \<in> cand") (auto simp: unsorted_input_def)
qed

lemma images_apart:
  assumes "inj_on f R" "S \<subseteq> R" "M \<subseteq> R" "S \<inter> M = {}" "f ` R \<inter> N = {}"
  shows "((N \<union> f ` M) \<inter> X) \<inter> f ` S = {}"
proof -
  have "f ` M \<inter> f ` S = {}" using assms(1-4) by (metis inj_on_image_Int Int_commute image_empty)
  moreover have "N \<inter> f ` S = {}" using assms(2,5) by blast
  ultimately show ?thesis by blast
qed

lemma below_split:
  fixes t :: nat
  assumes "{..<t} \<subseteq> insert t (N \<union> S \<union> M \<union> R)" "\<forall>x\<in>R. t < x" "\<forall>x\<in>S. x < t"
  shows "{..<t} = ((N \<union> M) \<inter> {..<t}) \<union> S"
proof (rule set_eqI)
  fix x show "x \<in> {..<t} \<longleftrightarrow> x \<in> ((N \<union> M) \<inter> {..<t}) \<union> S"
    using assms(1) bspec [OF assms(2), of x] bspec [OF assms(3), of x] by (auto dest: subsetD)
qed

lemma calculated_position:
  assumes "unsorted_input dead gone new cand rows" "scanned gone new rows stay moved (r # rest) expected removed ins"
  shows "tv_index r - card (ins \<inter> {..<tv_index r}) = length stay"
    "shifted_tv_index r = length stay + card (removed \<inter> {..<prev_tv_index r})
       + card {s \<in> set rest. prev_tv_index s < prev_tv_index r}"
proof -
  from assms(2) obtain before where b: "rows = before @ r # rest" "set before = set stay \<union> moved"
    by (auto simp: scanned_def)
  have sets: "removed = gone \<union> prev_tv_index ` moved" "ins = new \<union> tv_index ` moved" "set stay \<inter> moved = {}"
    and r: "r \<in> set rows" and sub: "set stay \<subseteq> set rows" "moved \<subseteq> set rows"
    using assms(2) b by (auto simp: scanned_def)
  have tv: "\<forall>s\<in>set before. tv_index s < tv_index r" "\<forall>s\<in>set rest. tv_index r < tv_index s"
    using assms(1) b(1) by (auto simp: unsorted_input_def sorted_wrt_append)
  have inj: "inj_on tv_index (set rows)" "inj_on prev_tv_index (set rows)"
  proof -
    have "sorted_wrt (<) (map tv_index rows)" using assms(1) by (simp add: unsorted_input_def sorted_wrt_map)
    then show "inj_on tv_index (set rows)" by (simp add: strict_sorted_iff distinct_map)
    show "inj_on prev_tv_index (set rows)" using assms(1) by (simp add: unsorted_input_def distinct_map)
  qed
  have "distinct (map tv_index stay)"
  proof -
    have "sorted_wrt (<) (map tv_index stay)" using assms(2) by (simp add: scanned_def sorted_wrt_map)
    then show ?thesis by (simp add: strict_sorted_iff)
  qed
  then have stay: "distinct stay" by (simp add: distinct_map)
  have cards: "card (tv_index ` set stay) = length stay" "card (prev_tv_index ` set stay) = length stay"
    using inj sub(1) stay by (auto simp: card_image inj_on_subset distinct_card)
  have "{..<tv_index r} \<subseteq> new \<union> tv_index ` set rows" using assms(1) r by (simp add: unsorted_input_def)
  moreover have "set rows = insert r (set stay \<union> moved \<union> set rest)" using b by auto
  ultimately have "{..<tv_index r} \<subseteq> insert (tv_index r) (new \<union> tv_index ` set stay \<union> tv_index ` moved \<union> tv_index ` set rest)"
    by (simp add: image_Un Un_assoc)
  moreover have "\<forall>t\<in>tv_index ` set rest. tv_index r < t" "\<forall>t\<in>tv_index ` set stay. t < tv_index r" using tv b(2) by auto
  ultimately have "{..<tv_index r} = (ins \<inter> {..<tv_index r}) \<union> tv_index ` set stay"
    unfolding sets(2) by (rule below_split)
  moreover have "(ins \<inter> {..<tv_index r}) \<inter> tv_index ` set stay = {}"
    using assms(1) unfolding sets(2) by (intro images_apart [OF inj(1) sub sets(3)]) (simp add: unsorted_input_def)
  ultimately have "tv_index r = card (ins \<inter> {..<tv_index r}) + length stay"
    using cards(1) by (metis card_Un_disjoint card_lessThan finite_Int finite_imageI finite_lessThan finite_set)
  then show "tv_index r - card (ins \<inter> {..<tv_index r}) = length stay" by simp
  let ?later = "{s \<in> set rest. prev_tv_index s < prev_tv_index r}"
  let ?A = "removed \<inter> {..<prev_tv_index r}" and ?S = "prev_tv_index ` set stay" and ?L = "prev_tv_index ` ?later"
  have "{..<prev_tv_index r} \<subseteq> dead \<union> gone \<union> prev_tv_index ` set rows" "prev_tv_index ` set rows \<inter> (dead \<union> gone) = {}"
    "dead \<inter> gone = {}" using assms(1) r by (simp_all add: unsorted_input_def)
  moreover have "\<forall>s\<in>set stay. prev_tv_index s < prev_tv_index r" using assms(2) by (simp add: scanned_def)
  ultimately have "{..<prev_tv_index r} - dead = ?A \<union> ?S \<union> ?L"
    using b sub unfolding sets(1) by auto
  moreover have "?A \<inter> ?S = {}" "(?A \<union> ?S) \<inter> ?L = {}"
  proof -
    have gone: "prev_tv_index ` set rows \<inter> gone = {}" using assms(1) by (auto simp: unsorted_input_def)
    show 1: "?A \<inter> ?S = {}" unfolding sets(1) by (rule images_apart [OF inj(2) sub sets(3) gone])
    have "s \<notin> set before" if "s \<in> set rest" for s using tv that by force
    then have later: "?later \<subseteq> set rows" "?later \<inter> moved = {}" "?later \<inter> set stay = {}" using b by auto
    have "?A \<inter> ?L = {}" unfolding sets(1) by (rule images_apart [OF inj(2) later(1) sub(2) later(2) gone])
    moreover have "?S \<inter> ?L = {}" using images_apart [OF inj(2) later(1) sub(1) later(3), of "{}" UNIV] by simp
    ultimately show "(?A \<union> ?S) \<inter> ?L = {}" by blast
  qed
  moreover have "card ?L = card ?later"
    using inj(2) b(1) by (intro card_image) (auto simp: inj_on_def)
  ultimately have "card ({..<prev_tv_index r} - dead) = card ?A + length stay + card ?later"
    by (simp add: card_Un_disjoint cards(2))
  moreover have "shifted_tv_index r = card ({..<prev_tv_index r} - dead)" using assms(1) r by (simp add: unsorted_input_def)
  ultimately show "shifted_tv_index r = length stay + card ?A + card ?later" by simp
qed


subsection \<open>The loop\<close>

lemma moves_unsorted_ok:
  assumes "unsorted_input dead gone new (idx cand) rows" "crv_ok dbg cand"
  shows "scanned gone new rows stay moved rest expected (idx removed) (idx (insertions c)) \<Longrightarrow> crv_ok dbg removed
    \<Longrightarrow> crv_ok dbg (insertions c)
    \<Longrightarrow> succeeds (calculate_moves_unsorted dbg cand rest expected removed c) (\<lambda>(removed', c'). \<exists>stay' moved' expected' mvs.
        scanned gone new rows stay' moved' [] expected' (idx removed') (idx (insertions c'))
        \<and> crv_ok dbg removed' \<and> crv_ok dbg (insertions c')
        \<and> c' = c\<lparr>moves := moves c @ mvs, insertions := insertions c'\<rparr>
        \<and> (\<forall>mv\<in>set mvs. \<exists>r\<in>moved'. mv_from mv = prev_tv_index r \<and> mv_to mv = tv_index r) \<and> moved \<subseteq> moved')"
proof (induction rest arbitrary: stay moved expected removed c)
  case Nil
  then show ?case
    by (simp, intro exI [of _ stay] exI [of _ moved] conjI exI [of _ expected] exI [of _ "[]"]) simp_all
next
  case (Cons r rest)
  let ?go = "calculate_moves_unsorted dbg cand rest (shifted_tv_index r + 1) removed c"
  have keep: "succeeds ?go (\<lambda>(removed', c'). \<exists>stay' moved' expected' mvs.
        scanned gone new rows stay' moved' [] expected' (idx removed') (idx (insertions c'))
        \<and> crv_ok dbg removed' \<and> crv_ok dbg (insertions c')
        \<and> c' = c\<lparr>moves := moves c @ mvs, insertions := insertions c'\<rparr>
        \<and> (\<forall>mv\<in>set mvs. \<exists>r\<in>moved'. mv_from mv = prev_tv_index r \<and> mv_to mv = tv_index r) \<and> moved \<subseteq> moved')"
    if "\<forall>s\<in>set rest. prev_tv_index r < prev_tv_index s"
    by (rule Cons.IH [OF scanned_stay [OF assms(1) Cons.prems(1) that] Cons.prems(2,3)])
  show ?case
  proof (cases "shifted_tv_index r = expected")
    case True
    then show ?thesis using keep [OF stays_expected [OF assms(1) Cons.prems(1) True]] by simp
  next
    case unexpected: False
    show ?thesis
    proof (cases "row_index r \<in> idx cand")
      case False
      then have "contains dbg cand (row_index r) = Some False" using contains_succ [OF assms(2), of "row_index r"] by (auto simp: succeeds_def)
      then show ?thesis using unexpected keep [OF stays_fixed [OF assms(1) Cons.prems(1) False]] by simp
    next
      case True
      then have cand: "contains dbg cand (row_index r) = Some True" using contains_succ [OF assms(2), of "row_index r"] by (auto simp: succeeds_def)
      note counts = count_0_ok [OF Cons.prems(3), of "tv_index r"] count_0_ok [OF Cons.prems(2), of "prev_tv_index r"]
      let ?calc = "length stay + card (idx removed \<inter> {..<prev_tv_index r})"
      note pos = calculated_position [OF assms(1) Cons.prems(1)]
      show ?thesis
      proof (cases "shifted_tv_index r = ?calc")
        case calc: True
        then have "\<forall>s\<in>set rest. \<not> prev_tv_index s < prev_tv_index r" using pos(2) by auto
        moreover have "\<forall>s\<in>set rest. prev_tv_index s \<noteq> prev_tv_index r"
        proof -
          obtain before where "rows = before @ r # rest" using Cons.prems(1) by (auto simp: scanned_def)
          then have "distinct (map prev_tv_index (before @ r # rest))" using assms(1) by (simp add: unsorted_input_def)
          then show ?thesis by (simp add: image_iff) metis
        qed
        ultimately have later: "\<forall>s\<in>set rest. prev_tv_index r < prev_tv_index s" by (meson linorder_neqE_nat)
        have "calculate_moves_unsorted dbg cand (r # rest) expected removed c = ?go"
          using unexpected cand counts calc pos(1) by simp
        then show ?thesis using keep [OF later] by simp
      next
        case moves: False
        from add_succ [OF Cons.prems(3), of "tv_index r"] obtain ins where
          i: "add dbg (insertions c) (tv_index r) = Some ins" "crv_ok dbg ins" "idx ins = insert (tv_index r) (idx (insertions c))"
          by (auto elim: succeedsE)
        from add_succ [OF Cons.prems(2), of "prev_tv_index r"] obtain rem' where
          d: "add dbg removed (prev_tv_index r) = Some rem'" "crv_ok dbg rem'" "idx rem' = insert (prev_tv_index r) (idx removed)"
          by (auto elim: succeedsE)
        let ?mv = "\<lparr>mv_from = prev_tv_index r, mv_to = tv_index r\<rparr>"
        let ?c = "c\<lparr>moves := moves c @ [?mv], insertions := ins\<rparr>"
        have "scanned gone new rows stay (insert r moved) rest expected (idx rem') (idx (insertions ?c))"
          using scanned_move [OF assms(1) Cons.prems(1)] i(3) d(3) by simp
        from Cons.IH [OF this d(2)] i(2) obtain removed' c' stay' moved' expected' mvs where
          ih: "calculate_moves_unsorted dbg cand rest expected rem' ?c = Some (removed', c')"
            "scanned gone new rows stay' moved' [] expected' (idx removed') (idx (insertions c'))"
            "crv_ok dbg removed'" "crv_ok dbg (insertions c')"
            "c' = ?c\<lparr>moves := moves ?c @ mvs, insertions := insertions c'\<rparr>"
            "\<forall>mv\<in>set mvs. \<exists>r\<in>moved'. mv_from mv = prev_tv_index r \<and> mv_to mv = tv_index r" "insert r moved \<subseteq> moved'"
          by (auto elim!: succeedsE)
        have "calculate_moves_unsorted dbg cand (r # rest) expected removed c = Some (removed', c')"
          using unexpected cand counts moves pos(1) i(1) d(1) ih(1) by simp
        moreover have "c' = c\<lparr>moves := moves c @ (?mv # mvs), insertions := insertions c'\<rparr>"
          by (subst ih(5)) simp
        moreover have "\<forall>mv\<in>set (?mv # mvs). \<exists>r\<in>moved'. mv_from mv = prev_tv_index r \<and> mv_to mv = tv_index r"
          using ih(6,7) by auto
        ultimately show ?thesis using ih(2-4,7) by (simp only: succeeds_Some split) blast
      qed
    qed
  qed
qed


subsection \<open>The change set\<close>

lemma kept_image: "R = S \<union> M \<Longrightarrow> S \<inter> M = {} \<Longrightarrow> inj_on f R \<Longrightarrow> f ` S = f ` R - f ` M"
proof -
  assume a: "R = S \<union> M" "S \<inter> M = {}" "inj_on f R"
  then have "R - M = S" "M \<subseteq> R" by blast+
  then show "f ` S = f ` R - f ` M" using inj_on_image_set_diff [of f R R M] a(3) by auto
qed

lemma calculate_unsorted_ok:
  assumes "distinct (filter (\<lambda>r. r \<noteq> npos) prev)" "distinct ns" "npos \<notin> set ns" "length prev < npos"
    "sorted ns" "crv_ok dbg cand"
    and behind: "\<And>i k. i < length prev \<Longrightarrow> k < length prev \<Longrightarrow> prev ! i \<in> set ns - idx cand \<Longrightarrow> prev ! k \<in> set ns \<inter> idx cand \<Longrightarrow> i < k"
    and order: "\<And>i k. i < length prev \<Longrightarrow> k < length prev \<Longrightarrow> prev ! i \<in> set ns - idx cand \<Longrightarrow> prev ! k \<in> set ns - idx cand
      \<Longrightarrow> prev ! i < prev ! k \<Longrightarrow> i < k"
  shows "succeeds (calculate dbg prev ns changed (Some cand)) (leads_to changed prev ns)"
proof -
  from calculate_prepared [OF assms(1-4), of dbg "Some cand" changed] assms(5) obtain rows removed c where
    p: "prepared dbg prev ns changed rows removed c"
      "calculate dbg prev ns changed (Some cand) = calculate_end dbg prev ns (Some cand) rows removed c" by auto
  have c: "crv_ok dbg removed" "crv_ok dbg (deletions c)" "crv_ok dbg (insertions c)" "moves c = []"
    and rows: "map tv_index rows = filter (\<lambda>j. ns ! j \<in> set prev) [0..<length ns]"
      "\<forall>r\<in>set rows. tv_index r < length ns \<and> row_index r = ns ! tv_index r"
      "\<forall>r\<in>set rows. prev_tv_index r < length prev \<and> prev ! prev_tv_index r = row_index r" "distinct (map row_index rows)"
      "prev_tv_index ` set rows = {i. i < length prev \<and> prev ! i \<in> set ns}"
      "\<forall>r\<in>set rows. shifted_tv_index r = card ({..<prev_tv_index r} - {i. i < length prev \<and> prev ! i = npos})"
    and sets: "idx (deletions c) = {i. i < length prev \<and> prev ! i = npos}"
      "idx removed = {i. i < length prev \<and> prev ! i \<noteq> npos \<and> prev ! i \<notin> set ns}"
      "idx (insertions c) = {j. j < length ns \<and> ns ! j \<notin> set prev}" using p(1) by (simp_all add: prepared_def)
  have both: "row_index ` set rows = set ns \<inter> set prev" using p(1) unfolding prepared_def by (elim conjE)
  let ?dead = "{i. i < length prev \<and> prev ! i = npos}" and ?gone = "{i. i < length prev \<and> prev ! i \<noteq> npos \<and> prev ! i \<notin> set ns}"
    and ?new = "{j. j < length ns \<and> ns ! j \<notin> set prev}"
  have tvs: "tv_index ` set rows = {j. j < length ns \<and> ns ! j \<in> set prev}" using arg_cong [OF rows(1), of set] by auto
  have tv_sorted: "sorted_wrt (\<lambda>r s. tv_index r < tv_index s) rows"
  proof -
    have "sorted_wrt (<) (map tv_index rows)" unfolding rows(1) by (rule sorted_wrt_filter) simp
    then show ?thesis by (simp add: sorted_wrt_map)
  qed
  have in_ns: "row_index r \<in> set ns" if "r \<in> set rows" for r using that both by blast
  have "unsorted_input ?dead ?gone ?new (idx cand) rows"
    unfolding unsorted_input_def
  proof (intro conjI ballI impI)
    show "distinct (map prev_tv_index rows)" using rows(3,4) unfolding distinct_map inj_on_def by metis
    fix r s assume rs: "r \<in> set rows" "s \<in> set rows" "row_index r \<notin> idx cand"
    have at: "prev_tv_index r < length prev" "prev_tv_index s < length prev"
      "prev ! prev_tv_index r = row_index r" "prev ! prev_tv_index s = row_index s" using rows(3) rs by auto
    show "prev_tv_index r < prev_tv_index s" if "row_index s \<in> idx cand"
      using behind [OF at(1,2)] at(3,4) rs that in_ns by simp
    show "prev_tv_index r < prev_tv_index s" if "row_index s \<notin> idx cand" "tv_index r < tv_index s"
    proof -
      have "ns ! tv_index r \<le> ns ! tv_index s" "ns ! tv_index r \<noteq> ns ! tv_index s"
        using assms(2,5) that(2) rows(2) rs by (simp_all add: sorted_nth_mono nth_eq_iff_index_eq)
      then have "row_index r < row_index s" using rows(2) rs by simp
      then show ?thesis using order [OF at(1,2)] at(3,4) rs that in_ns by simp
    qed
  next
    fix r assume r: "r \<in> set rows"
    show "{..<prev_tv_index r} \<subseteq> ?dead \<union> ?gone \<union> prev_tv_index ` set rows"
      unfolding rows(5) using rows(3) r by auto
    show "{..<tv_index r} \<subseteq> ?new \<union> tv_index ` set rows" unfolding tvs using rows(2) r by auto
    show "shifted_tv_index r = card ({..<prev_tv_index r} - ?dead)" using rows(6) r by blast
  next
    show "prev_tv_index ` set rows \<inter> (?dead \<union> ?gone) = {}" unfolding rows(5) using assms(3) by auto
    show "tv_index ` set rows \<inter> ?new = {}" unfolding tvs by auto
  qed (use tv_sorted in auto)
  moreover have "scanned ?gone ?new rows [] {} rows 0 (idx removed) (idx (insertions c))"
    by (simp add: scanned_def sets)
  ultimately have "succeeds (calculate_moves_unsorted dbg cand rows 0 removed c) (\<lambda>(removed', c'). \<exists>stay moved expected mvs.
        scanned ?gone ?new rows stay moved [] expected (idx removed') (idx (insertions c'))
        \<and> crv_ok dbg removed' \<and> crv_ok dbg (insertions c')
        \<and> c' = c\<lparr>moves := moves c @ mvs, insertions := insertions c'\<rparr>
        \<and> (\<forall>mv\<in>set mvs. \<exists>r\<in>moved. mv_from mv = prev_tv_index r \<and> mv_to mv = tv_index r) \<and> {} \<subseteq> moved)"
    by (rule moves_unsorted_ok [OF _ assms(6) _ c(1,3)])
  then obtain removed' c' stay moved expected mvs where
    m: "calculate_moves_unsorted dbg cand rows 0 removed c = Some (removed', c')"
      "scanned ?gone ?new rows stay moved [] expected (idx removed') (idx (insertions c'))"
      "crv_ok dbg removed'" "crv_ok dbg (insertions c')" "c' = c\<lparr>moves := moves c @ mvs, insertions := insertions c'\<rparr>"
      "\<forall>mv\<in>set mvs. \<exists>r\<in>moved. mv_from mv = prev_tv_index r \<and> mv_to mv = tv_index r" by (auto elim!: succeedsE)
  have split: "set rows = set stay \<union> moved" "set stay \<inter> moved = {}"
    and stay: "sorted_wrt (\<lambda>r s. tv_index r < tv_index s) stay" "sorted_wrt (\<lambda>r s. prev_tv_index r < prev_tv_index s) stay"
    and rem: "idx removed' = ?gone \<union> prev_tv_index ` moved" and ins: "idx (insertions c') = ?new \<union> tv_index ` moved"
    using m(2) by (auto simp: scanned_def)
  have inj: "inj_on prev_tv_index (set rows)" "inj_on tv_index (set rows)"
    using rows(2-4) unfolding distinct_map inj_on_def by metis+
  have del: "idx (deletions c) \<union> idx removed' = {i. i < length prev \<and> prev ! i \<notin> set ns} \<union> prev_tv_index ` moved"
    unfolding sets rem using assms(3) by auto
  have kept: "prev_tv_index ` set stay = prev_tv_index ` set rows - prev_tv_index ` moved"
    "tv_index ` set stay = tv_index ` set rows - tv_index ` moved"
    using kept_image [OF split inj(1)] kept_image [OF split inj(2)] by simp_all
  have "- (idx (deletions c) \<union> idx removed') \<inter> {..<length prev} = set (map prev_tv_index stay)"
    unfolding del set_map kept(1) rows(5) by auto
  then have "nths prev (- (idx (deletions c) \<union> idx removed')) = nths prev (set (map prev_tv_index stay))"
    by (subst nths_cut) simp
  also have "\<dots> = map ((!) prev) (map prev_tv_index stay)"
    using stay(2) split(1) rows(3) by (intro nths_strict) (auto simp: sorted_wrt_map)
  also have "\<dots> = map ((!) ns) (map tv_index stay)" using split(1) rows(2,3) by auto
  also have "\<dots> = nths ns (set (map tv_index stay))"
    using stay(1) split(1) rows(2) by (intro nths_strict [symmetric]) (auto simp: sorted_wrt_map)
  also have "\<dots> = nths ns (- idx (insertions c'))"
  proof -
    have "- idx (insertions c') \<inter> {..<length ns} = set (map tv_index stay)" unfolding ins set_map kept(2) tvs by auto
    then show ?thesis by (subst (2) nths_cut) simp
  qed
  finally have same: "nths prev (- (idx (deletions c) \<union> idx removed')) = nths ns (- idx (insertions c'))" .
  have c': "c' = c\<lparr>deletions := deletions c, insertions := insertions c', moves := mvs\<rparr>" by (subst m(5)) (simp add: c(4))
  have "succeeds (calculate_end dbg prev ns (Some cand) rows removed c) (\<lambda>r. leads_to changed prev ns r \<and> moves r = mvs)"
  proof (rule calculate_end_ok [OF p(1) _ c(2) m(4) m(3) del _ ins _ _ same])
    show "(case Some cand of None \<Rightarrow> calculate_moves_sorted dbg rows c \<bind> (\<lambda>ret. Some (removed, ret))
       | Some candidates \<Rightarrow> calculate_moves_unsorted dbg candidates rows 0 removed c)
      = Some (removed', c\<lparr>deletions := deletions c, insertions := insertions c', moves := mvs\<rparr>)"
      using m(1) c' by simp
    show "prev_tv_index ` moved \<subseteq> {..<length prev}" "tv_index ` moved \<subseteq> {..<length ns}" using split(1) rows(2,3) by auto
    show "\<forall>mv\<in>set mvs. mv_from mv \<in> prev_tv_index ` moved \<and> mv_to mv \<in> tv_index ` moved \<and> prev ! mv_from mv = ns ! mv_to mv"
      using m(6) split(1) rows(2,3) by fastforce
  qed
  then show ?thesis unfolding p(2) by (rule succeeds_mono) simp
qed

end
