(* ===== verification/Calculate_Claims.thy ===== *)
theory Calculate_Claims
  imports Change_Unsorted "HOL-Library.Code_Target_Nat"
begin

section \<open>Properties of calculated change sets\<close>

text \<open>
  The change set that \<open>calculate\<close> finds between two lists of rows without move candidates is right, although the
  search for common blocks does not always find as many common rows as it could. With candidates it is right when
  the rows that may have moved were behind those that have not.
\<close>

text \<open>C8: \<open>calculate\<close> returns without a failed assertion, in debug builds too, for the rows of a query before and after
  a change: without the deleted positions the old list is the new one without the inserted positions. Rows that
  are gone are deleted, rows that are new are inserted, and exactly the rows of both lists that the checker finds
  changed are modified.\<close>

theorem calculate_correct:
  assumes "distinct (filter (\<lambda>r. r \<noteq> npos) prev)" "distinct ns" "npos \<notin> set ns" "length prev < npos" "length ns < npos"
  shows "\<exists>c. calculate dbg prev ns changed None = Some c \<and> moves c = []
    \<and> idx (deletions c) \<subseteq> {..<length prev} \<and> idx (insertions c) \<subseteq> {..<length ns}
    \<and> without (idx (deletions c)) prev = without (idx (insertions c)) ns
    \<and> {i. i < length prev \<and> prev ! i \<notin> set ns} \<subseteq> idx (deletions c)
    \<and> {j. j < length ns \<and> ns ! j \<notin> set prev} \<subseteq> idx (insertions c)
    \<and> idx (modifications c) = {j. j < length ns \<and> ns ! j \<in> set prev \<and> changed (ns ! j)}"
  using calculate_sorted_ok [OF assms, of dbg changed] by (auto simp: succeeds_def leads_to_def)

theorem calculate_correct_witness:
  "\<exists>c. calculate True [0, npos, 2, 3] [3, 0, 7] (\<lambda>r. r = 3) None = Some c
    \<and> without (idx (deletions c)) [0, npos, 2, 3] = without (idx (insertions c)) [3, 0, 7] \<and> idx (modifications c) = {0}"
proof -
  have "distinct (filter (\<lambda>r. r \<noteq> npos) [0, npos, 2, 3])" "distinct [3, 0, 7 :: nat]" "npos \<notin> set [3, 0, 7]"
    "length [0, npos, 2, 3] < npos" "length [3, 0, 7 :: nat] < npos" by (simp_all add: npos_def)
  from calculate_correct [OF this, of True "\<lambda>r. r = 3"] obtain c where
    "calculate True [0, npos, 2, 3] [3, 0, 7] (\<lambda>r. r = 3) None = Some c"
    "without (idx (deletions c)) [0, npos, 2, 3] = without (idx (insertions c)) [3, 0, 7]"
    "idx (modifications c) = {j. j < length [3, 0, 7 :: nat] \<and> [3, 0, 7] ! j \<in> set [0, npos, 2, 3] \<and> [3, 0, 7] ! j = (3 :: nat)}"
    by blast
  moreover have "{j. j < length [3, 0, 7 :: nat] \<and> [3, 0, 7] ! j \<in> set [0, npos, 2, 3] \<and> [3, 0, 7] ! j = (3 :: nat)} = {0}"
    by (auto simp: less_Suc_eq numeral_3_eq_3)
  ultimately show ?thesis by auto
qed

text \<open>The search after a block compares a position of the first list with the end of the second one, so that part of the
  first list may be left out: here four rows are deleted and inserted where three would do.\<close>

declare npos_def [code]

lemma calculate_not_minimal:
  "map_option (\<lambda>c. card (idx (deletions c))) (calculate False [0, 1, 2, 3, 4, 5, 6] [1, 3, 5, 6, 0, 2, 4] (\<lambda>r. False) None) = Some 4"
  "without {0, 2, 4} [0, 1, 2, 3, 4, 5, 6] = without {4, 5, 6} [1, 3, 5, 6, 0, 2, 4 :: nat]"
  by code_simp (simp add: without_def nths_Cons)

text \<open>C9: with move candidates, \<open>calculate\<close> returns without a failed assertion for the rows of a query in table
  order, if the rows that are no candidates have kept their order and were before the candidates: without the deleted
  positions the old list is the new one without the inserted positions, every move is that of one row from a deleted
  to an inserted position, and rows that are gone, new or changed are reported as such.\<close>

theorem calculate_in_table_order:
  assumes "distinct (filter (\<lambda>r. r \<noteq> npos) prev)" "distinct ns" "npos \<notin> set ns" "length prev < npos"
    "sorted ns" "crv_ok dbg cand"
    and behind: "\<And>i k. i < length prev \<Longrightarrow> k < length prev \<Longrightarrow> prev ! i \<in> set ns - idx cand \<Longrightarrow> prev ! k \<in> set ns \<inter> idx cand
      \<Longrightarrow> i < k"
    and order: "\<And>i k. i < length prev \<Longrightarrow> k < length prev \<Longrightarrow> prev ! i \<in> set ns - idx cand \<Longrightarrow> prev ! k \<in> set ns - idx cand
      \<Longrightarrow> prev ! i < prev ! k \<Longrightarrow> i < k"
  shows "\<exists>c. calculate dbg prev ns changed (Some cand) = Some c
    \<and> idx (deletions c) \<subseteq> {..<length prev} \<and> idx (insertions c) \<subseteq> {..<length ns}
    \<and> without (idx (deletions c)) prev = without (idx (insertions c)) ns
    \<and> (\<forall>mv\<in>set (moves c). mv_from mv \<in> idx (deletions c) \<and> mv_to mv \<in> idx (insertions c) \<and> prev ! mv_from mv = ns ! mv_to mv)
    \<and> {i. i < length prev \<and> prev ! i \<notin> set ns} \<subseteq> idx (deletions c)
    \<and> {j. j < length ns \<and> ns ! j \<notin> set prev} \<subseteq> idx (insertions c)
    \<and> idx (modifications c) = {j. j < length ns \<and> ns ! j \<in> set prev \<and> changed (ns ! j)}"
  using calculate_unsorted_ok [OF assms, of changed] by (auto simp: succeeds_def leads_to_def)

definition candidates :: "size_t list \<Rightarrow> index_set" where
  "candidates is = the (index_set_of_list True [] is)"

text \<open>The last row has been moved to the place of the first one, which is deleted.\<close>

lemma candidates_ok: "crv_ok True (candidates is) \<and> idx (candidates is) = set is"
proof -
  from index_set_of_list_ok [OF crv_ok_Nil, of True "is"] obtain cs where
    "index_set_of_list True [] is = Some cs" "crv_ok True cs" "idx cs = idx [] \<union> set is" by blast
  then show ?thesis by (simp add: candidates_def)
qed

theorem calculate_in_table_order_witness:
  "\<exists>c. calculate True [npos, 1, 0] [0, 1] (\<lambda>r. r = 1) (Some (candidates [0])) = Some c
    \<and> without (idx (deletions c)) [npos, 1, 0] = without (idx (insertions c)) [0, 1] \<and> idx (modifications c) = {1}"
proof -
  have at: "i = 1" if "i < length [npos, 1, 0]" "[npos, 1, 0] ! i = 1" for i :: nat
    using that by (auto simp: npos_def less_Suc_eq)
  have at0: "i = 2" if "i < length [npos, 1, 0]" "[npos, 1, 0] ! i = 0" for i :: nat
    using that by (auto simp: npos_def less_Suc_eq)
  have cand: "set [0, 1] - idx (candidates [0]) = {1}" "set [0, 1] \<inter> idx (candidates [0]) = {0}"
    using candidates_ok by auto
  have "\<exists>c. calculate True [npos, 1, 0] [0, 1] (\<lambda>r. r = 1) (Some (candidates [0])) = Some c
    \<and> idx (deletions c) \<subseteq> {..<length [npos, 1, 0]} \<and> idx (insertions c) \<subseteq> {..<length [0, 1 :: nat]}
    \<and> without (idx (deletions c)) [npos, 1, 0] = without (idx (insertions c)) [0, 1]
    \<and> (\<forall>mv\<in>set (moves c). mv_from mv \<in> idx (deletions c) \<and> mv_to mv \<in> idx (insertions c)
         \<and> [npos, 1, 0] ! mv_from mv = [0, 1] ! mv_to mv)
    \<and> {i. i < length [npos, 1, 0] \<and> [npos, 1, 0] ! i \<notin> set [0, 1]} \<subseteq> idx (deletions c)
    \<and> {j. j < length [0, 1 :: nat] \<and> [0, 1] ! j \<notin> set [npos, 1, 0]} \<subseteq> idx (insertions c)
    \<and> idx (modifications c) = {j. j < length [0, 1 :: nat] \<and> [0, 1] ! j \<in> set [npos, 1, 0] \<and> [0, 1] ! j = (1 :: nat)}"
  proof (rule calculate_in_table_order)
    fix i k assume i: "i < length [npos, 1, 0]" "[npos, 1, 0] ! i \<in> set [0, 1] - idx (candidates [0])"
      and k: "k < length [npos, 1, 0]"
    then have i1: "i = 1" unfolding cand using at by blast
    show "i < k" if "[npos, 1, 0] ! k \<in> set [0, 1] \<inter> idx (candidates [0])"
      using that k i1 at0 unfolding cand by force
    show "i < k" if "[npos, 1, 0] ! k \<in> set [0, 1] - idx (candidates [0])" "[npos, 1, 0] ! i < [npos, 1, 0] ! k"
      using that k i1 at unfolding cand by force
  qed (use candidates_ok in \<open>simp_all add: npos_def\<close>)
  moreover have "{j. j < length [0, 1 :: nat] \<and> [0, 1] ! j \<in> set [npos, 1, 0] \<and> [0, 1] ! j = (1 :: nat)} = {1}"
    by (auto simp: less_Suc_eq)
  ultimately show ?thesis by (simp only:) blast
qed

text \<open>Rows that are swapped need not be behind the others. Rows 0 and 4 and rows 1 and 3 of a table are swapped, the
  query has the rows that are then 4, 3 and 2: row 3 is taken for a row that has stayed, and what is reported does
  not lead from the old rows to the new ones. A debug build fails an assertion.\<close>

lemma swapped_rows_asserted:
  "calculate True [4, 3, 2] [2, 3, 4] (\<lambda>r. False) (Some (candidates [0, 1, 3, 4])) = None"
  by code_simp

lemma swapped_rows_miscalculated:
  "map_option (\<lambda>c. (indexes (ranges (deletions c)), indexes (ranges (insertions c)))) (calculate False [4, 3, 2] [2, 3, 4] (\<lambda>r. False)
     (Some (candidates [0, 1, 3, 4]))) = Some ([0], [2])"
  "without {0} [4, 3, 2] \<noteq> without {2} [2, 3, 4 :: nat]"
  by code_simp (simp add: without_def nths_Cons)

end
