(* ===== verification/Collection_Notifier.thy ===== *)
theory Collection_Notifier
  imports Change_Merge "HOL-Library.Word"
begin

section \<open>The callbacks of a collection notifier\<close>

text \<open>
  The model of the callbacks of \<open>impl/collection_notifier.cpp\<close>: how they are registered and removed, how the
  changes that the worker hands over are accumulated for each of them, and how they are called. A subclass takes
  part with the changes that its \<open>do_prepare_handover\<close> passes to \<open>add_changes\<close>, which each of them does once,
  and with the result of its \<open>prepare_to_deliver\<close>.

  \<^item> A function that a client registers is its number, and \<open>None\<close> once it has been moved out of its callback.
    What the function does with the notifier while it runs, and what the worker does meanwhile, is the list of
    actions that a \<open>behaviour\<close> gives for the function, its argument and the notifier. A function may not start
    another delivery, which the Realm prevents.
  \<^item> \<open>m_callback_index\<close> and \<open>m_callback_count\<close> are words, with \<open>npos\<close> as \<open>- 1\<close>.
  \<^item> \<open>None\<close> is a failed assertion, an access beyond the end of the callbacks, the use of a Realm that is not
    there, or a loop that does not end. The thread and the write transaction that the Realm verifies are taken to
    be right. The mutexes make every method one step, apart from the functions that are called.
  \<^item> The calls that a method makes are a list that it returns with the notifier.
\<close>

subsection \<open>State\<close>

record change_callback =
  cb_fn :: "nat option"
  accumulated_changes :: change_builder
  changes_to_deliver :: change_set
  cb_token :: nat
  initial_delivered :: bool
  skip_next :: bool

record collection_notifier =
  nf_callbacks :: "change_callback list"
  nf_have_callbacks :: bool
  nf_callback_index :: "64 word"
  nf_callback_count :: "64 word"
  nf_next_token :: nat
  nf_realm :: bool
  nf_sg :: bool
  nf_sg_version :: nat
  nf_has_run :: bool
  nf_error :: bool
  nf_wake_ups :: nat

definition no_changes :: change_set where
  "no_changes = \<lparr>deletions = [], insertions = [], modifications = [], modifications_new = [], moves = [], columns = []\<rparr>"

definition changes_empty :: "change_set \<Rightarrow> bool" where
  "changes_empty c \<longleftrightarrow> deletions c = [] \<and> insertions c = [] \<and> modifications c = []
     \<and> modifications_new c = [] \<and> moves c = []"

definition collection_notifier_new :: "nat \<Rightarrow> collection_notifier" where
  "collection_notifier_new version =
     \<lparr>nf_callbacks = [], nf_have_callbacks = False, nf_callback_index = - 1, nf_callback_count = - 1, nf_next_token = 0,
      nf_realm = True, nf_sg = False, nf_sg_version = version, nf_has_run = False, nf_error = False, nf_wake_ups = 0\<rparr>"

subsection \<open>Registering and removing callbacks\<close>

definition callback_new :: "nat \<Rightarrow> nat \<Rightarrow> change_callback" where
  "callback_new f token = \<lparr>cb_fn = Some f, accumulated_changes = cb_nil, changes_to_deliver = no_changes,
     cb_token = token, initial_delivered = False, skip_next = False\<rparr>"

definition add_change_callback :: "nat \<Rightarrow> collection_notifier \<Rightarrow> (collection_notifier \<times> nat) option" where
  "add_change_callback f n = do {
     realm_assert (nf_realm n);
     let token = nf_next_token n;
     let n = n\<lparr>nf_next_token := token + 1, nf_callbacks := nf_callbacks n @ [callback_new f token]\<rparr>;
     Some ((if nf_callback_index n = - 1 then n\<lparr>nf_wake_ups := nf_wake_ups n + 1, nf_have_callbacks := True\<rparr> else n),
           token) }"

text \<open>The position of the callback, which is the end if there is none.\<close>

definition find_callback :: "nat \<Rightarrow> collection_notifier \<Rightarrow> nat option" where
  "find_callback token n = do {
     realm_assert (nf_error n \<or> length (nf_callbacks n) > 0);
     let it = length (takeWhile (\<lambda>c. cb_token c \<noteq> token) (nf_callbacks n));
     realm_assert (nf_error n \<or> it \<noteq> length (nf_callbacks n));
     Some it }"

definition remove_change_callback :: "nat \<Rightarrow> collection_notifier \<Rightarrow> collection_notifier option" where
  "remove_change_callback token n = do {
     idx \<leftarrow> find_callback token n;
     if idx = length (nf_callbacks n) then Some n
     else do {
       let n = (if nf_callback_index n \<noteq> - 1 \<and> unat (nf_callback_index n) \<ge> idx
                then n\<lparr>nf_callback_index := nf_callback_index n - 1\<rparr> else n);
       let n = n\<lparr>nf_callback_count := nf_callback_count n - 1\<rparr>;
       let n = n\<lparr>nf_callbacks := take idx (nf_callbacks n) @ drop (Suc idx) (nf_callbacks n)\<rparr>;
       Some (n\<lparr>nf_have_callbacks := nf_callbacks n \<noteq> []\<rparr>) } }"

definition suppress_next_notification :: "nat \<Rightarrow> collection_notifier \<Rightarrow> collection_notifier option" where
  "suppress_next_notification token n = do {
     realm_assert (nf_realm n);
     it \<leftarrow> find_callback token n;
     Some (n\<lparr>nf_callbacks := (if it = length (nf_callbacks n) then nf_callbacks n
        else (nf_callbacks n)[it := (nf_callbacks n ! it)\<lparr>skip_next := True\<rparr>])\<rparr>) }"

definition unregister_notifier :: "collection_notifier \<Rightarrow> collection_notifier" where
  "unregister_notifier n = n\<lparr>nf_realm := False\<rparr>"

definition is_alive :: "collection_notifier \<Rightarrow> bool" where
  "is_alive n \<longleftrightarrow> nf_realm n"

subsection \<open>What the worker does\<close>

definition attach_to :: "collection_notifier \<Rightarrow> collection_notifier option" where
  "attach_to n = do { realm_assert (\<not> nf_sg n); Some (n\<lparr>nf_sg := True\<rparr>) }"

definition detach :: "collection_notifier \<Rightarrow> collection_notifier option" where
  "detach n = do { realm_assert (nf_sg n); Some (n\<lparr>nf_sg := False\<rparr>) }"

definition accumulate :: "bool \<Rightarrow> change_builder \<Rightarrow> change_callback \<Rightarrow> change_callback option" where
  "accumulate dbg change c =
     (if skip_next c then do {
        realm_assert_debug dbg (cs_empty (accumulated_changes c));
        Some (c\<lparr>skip_next := False\<rparr>) }
      else do {
        acc \<leftarrow> cb_merge dbg (accumulated_changes c) change;
        Some (c\<lparr>accumulated_changes := acc\<rparr>) })"

definition add_changes :: "bool \<Rightarrow> change_builder \<Rightarrow> collection_notifier \<Rightarrow> collection_notifier option" where
  "add_changes dbg change n = do {
     cs \<leftarrow> map_opt (accumulate dbg change) (nf_callbacks n);
     Some (n\<lparr>nf_callbacks := cs\<rparr>) }"

definition prepare_handover :: "bool \<Rightarrow> nat \<Rightarrow> change_builder \<Rightarrow> collection_notifier \<Rightarrow> collection_notifier option" where
  "prepare_handover dbg version change n = do {
     realm_assert (nf_sg n);
     n \<leftarrow> add_changes dbg change (n\<lparr>nf_sg_version := version\<rparr>);
     let n = n\<lparr>nf_has_run := True\<rparr>;
     realm_assert_debug dbg (\<forall>c\<in>set (nf_callbacks n). \<not> skip_next c);
     Some n }"

subsection \<open>Delivery\<close>

text \<open>What \<open>finalize\<close> leaves of a builder that it is called on as a temporary.\<close>

definition finalized :: "change_builder \<Rightarrow> change_builder" where
  "finalized c = c\<lparr>deletions := [], insertions := [], modifications := [], moves := [], columns := []\<rparr>"

definition package_callback :: "bool \<Rightarrow> change_callback \<Rightarrow> change_callback option" where
  "package_callback dbg c = do {
     s \<leftarrow> cb_finalize dbg (accumulated_changes c);
     Some (c\<lparr>changes_to_deliver := s, accumulated_changes := finalized (accumulated_changes c)\<rparr>) }"

definition package_for_delivery ::
    "bool \<Rightarrow> bool \<Rightarrow> collection_notifier \<Rightarrow> (collection_notifier \<times> bool) option" where
  "package_for_delivery dbg prepare_to_deliver n =
     (if \<not> prepare_to_deliver then Some (n, False)
      else do {
        cs \<leftarrow> map_opt (package_callback dbg) (nf_callbacks n);
        Some (n\<lparr>nf_callbacks := cs, nf_callback_count := word_of_nat (length cs)\<rparr>, True) })"

datatype notifier_call =
    Before_change nat change_set
  | After_change nat change_set
  | Error_call nat

datatype notifier_action =
    AddChangeCallback nat
  | RemoveChangeCallback nat
  | SuppressNext nat
  | Unregister
  | Handover nat change_builder

fun notifier_act :: "bool \<Rightarrow> notifier_action \<Rightarrow> collection_notifier \<Rightarrow> collection_notifier option" where
  "notifier_act dbg (AddChangeCallback f) n = map_option fst (add_change_callback f n)"
| "notifier_act dbg (RemoveChangeCallback t) n = remove_change_callback t n"
| "notifier_act dbg (SuppressNext t) n = suppress_next_notification t n"
| "notifier_act dbg Unregister n = Some (unregister_notifier n)"
| "notifier_act dbg (Handover v c) n = prepare_handover dbg v c n"

type_synonym behaviour = "nat \<Rightarrow> change_set \<Rightarrow> collection_notifier \<Rightarrow> notifier_action list"

type_synonym visit = "change_callback \<Rightarrow> collection_notifier \<Rightarrow> (collection_notifier \<times> notifier_call list) option"

definition run_fn ::
    "bool \<Rightarrow> behaviour \<Rightarrow> nat option \<Rightarrow> change_set \<Rightarrow> collection_notifier \<Rightarrow> collection_notifier option" where
  "run_fn dbg behaviour f changes n = do { f \<leftarrow> f; fold_opt (notifier_act dbg) (behaviour f changes n) n }"

partial_function (option) for_each_loop ::
    "visit \<Rightarrow> collection_notifier \<Rightarrow> (collection_notifier \<times> notifier_call list) option" where
  "for_each_loop fn n =
     (if nf_callback_index n < nf_callback_count n then
        if unat (nf_callback_index n) < length (nf_callbacks n) then do {
          (n, cs) \<leftarrow> fn (nf_callbacks n ! unat (nf_callback_index n)) n;
          (n, cs') \<leftarrow> for_each_loop fn (n\<lparr>nf_callback_index := nf_callback_index n + 1\<rparr>);
          Some (n, cs @ cs') }
        else None
      else Some (n, []))"

declare for_each_loop.simps [code]

definition for_each_callback ::
    "bool \<Rightarrow> visit \<Rightarrow> collection_notifier \<Rightarrow> (collection_notifier \<times> notifier_call list) option" where
  "for_each_callback dbg fn n = do {
     realm_assert_debug dbg (unat (nf_callback_count n) \<le> length (nf_callbacks n));
     (n, cs) \<leftarrow> for_each_loop fn (n\<lparr>nf_callback_index := nf_callback_index n + 1\<rparr>);
     Some (n\<lparr>nf_callback_index := - 1\<rparr>, cs) }"

definition before_visit :: "bool \<Rightarrow> behaviour \<Rightarrow> visit" where
  "before_visit dbg behaviour callback n =
     (if changes_empty (changes_to_deliver callback) then Some (n, [])
      else do {
        n \<leftarrow> run_fn dbg behaviour (cb_fn callback) (changes_to_deliver callback) n;
        Some (n, [Before_change (cb_token callback) (changes_to_deliver callback)]) })"

definition before_advance ::
    "bool \<Rightarrow> behaviour \<Rightarrow> collection_notifier \<Rightarrow> (collection_notifier \<times> notifier_call list) option" where
  "before_advance dbg behaviour n = for_each_callback dbg (before_visit dbg behaviour) n"

text \<open>The callback that is visited, in its place.\<close>

definition update_visited :: "(change_callback \<Rightarrow> change_callback) \<Rightarrow> collection_notifier \<Rightarrow> collection_notifier" where
  "update_visited g n = n\<lparr>nf_callbacks := (nf_callbacks n)[unat (nf_callback_index n) :=
     g (nf_callbacks n ! unat (nf_callback_index n))]\<rparr>"

definition after_visit :: "bool \<Rightarrow> behaviour \<Rightarrow> visit" where
  "after_visit dbg behaviour callback n =
     (if initial_delivered callback \<and> changes_empty (changes_to_deliver callback) then Some (n, [])
      else do {
        let n = update_visited (\<lambda>c. c\<lparr>initial_delivered := True, changes_to_deliver := no_changes\<rparr>) n;
        n \<leftarrow> run_fn dbg behaviour (cb_fn callback) (changes_to_deliver callback) n;
        Some (n, [After_change (cb_token callback) (changes_to_deliver callback)]) })"

definition after_advance ::
    "bool \<Rightarrow> behaviour \<Rightarrow> collection_notifier \<Rightarrow> (collection_notifier \<times> notifier_call list) option" where
  "after_advance dbg behaviour n = for_each_callback dbg (after_visit dbg behaviour) n"

definition error_visit :: "bool \<Rightarrow> behaviour \<Rightarrow> visit" where
  "error_visit dbg behaviour callback n = do {
     let n = update_visited (\<lambda>c. c\<lparr>cb_fn := None\<rparr>) n;
     n \<leftarrow> run_fn dbg behaviour (cb_fn callback) no_changes n;
     n \<leftarrow> remove_change_callback (cb_token callback) n;
     Some (n, [Error_call (cb_token callback)]) }"

definition deliver_error ::
    "bool \<Rightarrow> behaviour \<Rightarrow> collection_notifier \<Rightarrow> (collection_notifier \<times> notifier_call list) option" where
  "deliver_error dbg behaviour n =
     (let n = n\<lparr>nf_error := True\<rparr>; n = n\<lparr>nf_callback_count := word_of_nat (length (nf_callbacks n))\<rparr>
      in for_each_callback dbg (error_visit dbg behaviour) n)"

end
