(* ===== verification/Schema_Model.thy ===== *)
theory Schema_Model
  imports Prelude "HOL-Library.Word" "HOL-Library.List_Lexorder" "HOL-Library.Char_ord"
begin

section \<open>Properties, object schemas and schemas\<close>

text \<open>
  The model of \<open>property.hpp\<close>, \<open>object_schema.cpp\<close> and \<open>schema.cpp\<close>: what a Realm file or an
  application says about its classes, how a schema is checked, and how two schemas are compared.

  \<^item> \<open>PropertyType\<close> is a byte: the six low bits name a type, the bits 64 and 128 are the flags
    \<open>Nullable\<close> and \<open>Array\<close>. The operators of the enum are the bitwise ones on \<open>8 word\<close>, and its
    \<open>operator==\<close>, which ignores the flags, is \<open>pt_eq\<close>.
  \<^item> A schema is the vector of its object schemas, sorted by name. The order of names is the
    lexicographic order of their bytes, that of \<open>std::string\<close>.
  \<^item> The pointers of a \<open>SchemaChange\<close> to an object schema and to a property are the object schema and
    the property themselves.
  \<^item> The text of an exception is composed by \<open>util::format\<close> of the core library, which is not part of
    the repository; an exception is its kind and the arguments of its format.
  \<^item> \<open>std::partition\<close> and \<open>std::sort\<close> leave the order of some elements open; the model takes the
    stable one.
\<close>

unbundle bit_operations_syntax

subsection \<open>property.hpp\<close>

type_synonym property_type = "8 word"

definition PT_Int :: property_type where "PT_Int = 0"
definition PT_Bool :: property_type where "PT_Bool = 1"
definition PT_String :: property_type where "PT_String = 2"
definition PT_Data :: property_type where "PT_Data = 3"
definition PT_Date :: property_type where "PT_Date = 4"
definition PT_Float :: property_type where "PT_Float = 5"
definition PT_Double :: property_type where "PT_Double = 6"
definition PT_Object :: property_type where "PT_Object = 7"
definition PT_LinkingObjects :: property_type where "PT_LinkingObjects = 8"
definition PT_Any :: property_type where "PT_Any = 9"
definition PT_Required :: property_type where "PT_Required = 0"
definition PT_Nullable :: property_type where "PT_Nullable = 64"
definition PT_Array :: property_type where "PT_Array = 128"
definition PT_Flags :: property_type where "PT_Flags = PT_Nullable OR PT_Array"

lemmas PT_defs = PT_Int_def PT_Bool_def PT_String_def PT_Data_def PT_Date_def PT_Float_def PT_Double_def
  PT_Object_def PT_LinkingObjects_def PT_Any_def PT_Required_def PT_Nullable_def PT_Array_def PT_Flags_def

definition base_type :: "property_type \<Rightarrow> property_type" where
  "base_type t = t AND NOT PT_Flags"

definition pt_eq :: "property_type \<Rightarrow> property_type \<Rightarrow> bool" where
  "pt_eq a b \<longleftrightarrow> base_type a = base_type b"

definition is_array :: "property_type \<Rightarrow> bool" where
  "is_array a \<longleftrightarrow> a AND PT_Array = PT_Array"

definition is_nullable :: "property_type \<Rightarrow> bool" where
  "is_nullable a \<longleftrightarrow> a AND PT_Nullable = PT_Nullable"

record property =
  prop_name :: string
  prop_type :: property_type
  object_type :: string
  link_origin_property_name :: string
  is_primary :: bool
  is_indexed :: bool
  table_column :: size_t

definition property_new :: "string \<Rightarrow> property_type \<Rightarrow> bool \<Rightarrow> bool \<Rightarrow> property" where
  "property_new name type primary indexed = \<lparr>prop_name = name, prop_type = type, object_type = [],
     link_origin_property_name = [], is_primary = primary, is_indexed = indexed, table_column = npos\<rparr>"

definition property_link :: "string \<Rightarrow> property_type \<Rightarrow> string \<Rightarrow> string \<Rightarrow> property" where
  "property_link name type target origin = \<lparr>prop_name = name, prop_type = type, object_type = target,
     link_origin_property_name = origin, is_primary = False, is_indexed = False, table_column = npos\<rparr>"

definition requires_index :: "property \<Rightarrow> bool" where
  "requires_index p \<longleftrightarrow> is_primary p \<or> is_indexed p"

definition type_is_indexable :: "property \<Rightarrow> bool" where
  "type_is_indexable p \<longleftrightarrow> pt_eq (prop_type p) PT_Int \<or> pt_eq (prop_type p) PT_Bool
     \<or> pt_eq (prop_type p) PT_Date \<or> pt_eq (prop_type p) PT_String"

definition type_is_nullable :: "property \<Rightarrow> bool" where
  "type_is_nullable p \<longleftrightarrow> \<not> (is_array (prop_type p) \<and> pt_eq (prop_type p) PT_Object)
     \<and> \<not> pt_eq (prop_type p) PT_LinkingObjects"

text \<open>The \<open>default\<close> of the two switches below is unreachable for the ten types of the enum.\<close>

definition string_for_property_type :: "property_type \<Rightarrow> string" where
  "string_for_property_type type =
     (if is_array type then if pt_eq type PT_LinkingObjects then ''linking objects'' else ''array''
      else let t = base_type type in
        if t = PT_String then ''string'' else if t = PT_Int then ''int'' else if t = PT_Bool then ''bool''
        else if t = PT_Date then ''date'' else if t = PT_Data then ''data'' else if t = PT_Double then ''double''
        else if t = PT_Float then ''float'' else if t = PT_Object then ''object'' else if t = PT_Any then ''any''
        else if t = PT_LinkingObjects then ''linking objects'' else [])"

definition type_string :: "property \<Rightarrow> string" where
  "type_string p =
     (if is_array (prop_type p) then
        if pt_eq (prop_type p) PT_Object then ''array<'' @ object_type p @ ''>''
        else if pt_eq (prop_type p) PT_LinkingObjects then ''linking objects<'' @ object_type p @ ''>''
        else ''array<'' @ string_for_property_type (base_type (prop_type p)) @ ''>''
      else let t = base_type (prop_type p) in
        if t = PT_Object then ''<'' @ object_type p @ ''>''
        else if t = PT_LinkingObjects then ''linking objects<'' @ object_type p @ ''>''
        else string_for_property_type t)"

definition property_eq :: "property \<Rightarrow> property \<Rightarrow> bool" where
  "property_eq l r \<longleftrightarrow> prop_type l = prop_type r \<and> is_primary l = is_primary r
     \<and> requires_index l = requires_index r \<and> prop_name l = prop_name r \<and> object_type l = object_type r
     \<and> link_origin_property_name l = link_origin_property_name r"

subsection \<open>object_schema.cpp\<close>

record object_schema =
  os_name :: string
  persisted_properties :: "property list"
  computed_properties :: "property list"
  primary_key :: string

definition object_schema_new :: "string \<Rightarrow> property list \<Rightarrow> property list \<Rightarrow> object_schema" where
  "object_schema_new name persisted computed = \<lparr>os_name = name, persisted_properties = persisted,
     computed_properties = computed,
     primary_key = (case find is_primary persisted of Some p \<Rightarrow> prop_name p | None \<Rightarrow> [])\<rparr>"

fun find_property :: "string \<Rightarrow> property list \<Rightarrow> property option" where
  "find_property name [] = None"
| "find_property name (p # ps) = (if prop_name p = name then Some p else find_property name ps)"

definition property_for_name :: "object_schema \<Rightarrow> string \<Rightarrow> property option" where
  "property_for_name os name =
     (case find_property name (persisted_properties os) of
        Some p \<Rightarrow> Some p
      | None \<Rightarrow> find_property name (computed_properties os))"

definition primary_key_property :: "object_schema \<Rightarrow> property option" where
  "primary_key_property os = property_for_name os (primary_key os)"

definition property_is_computed :: "object_schema \<Rightarrow> property \<Rightarrow> bool" where
  "property_is_computed os p \<longleftrightarrow> (\<exists>q\<in>set (computed_properties os). property_eq q p)"

fun update_property :: "string \<Rightarrow> (property \<Rightarrow> property) \<Rightarrow> property list \<Rightarrow> property list" where
  "update_property name f [] = []"
| "update_property name f (p # ps) = (if prop_name p = name then f p # ps else p # update_property name f ps)"

text \<open>Writing through the pointer that \<open>property_for_name\<close> returns.\<close>

definition update_property_for_name :: "object_schema \<Rightarrow> string \<Rightarrow> (property \<Rightarrow> property) \<Rightarrow> object_schema" where
  "update_property_for_name os name f =
     (if find_property name (persisted_properties os) \<noteq> None
      then os\<lparr>persisted_properties := update_property name f (persisted_properties os)\<rparr>
      else os\<lparr>computed_properties := update_property name f (computed_properties os)\<rparr>)"

definition set_primary_key_property :: "object_schema \<Rightarrow> object_schema" where
  "set_primary_key_property os =
     (if primary_key os \<noteq> [] then update_property_for_name os (primary_key os) (\<lambda>p. p\<lparr>is_primary := True\<rparr>) else os)"

text \<open>
  The exceptions of a validation: one constructor for every message of the code, its arguments those of
  the message's format.
\<close>

datatype validation_error =
    DuplicateType string
  | LinkingObjectsNotArray string string
  | CannotBeNullable string string string
  | MustBeNullable string string
  | CannotBePrimaryKey string string string
  | TwoPrimaryKeys string string string
  | CannotBeIndexed string string string
  | HasOriginName string string string
  | MissingOriginName string string string
  | HasObjectType string string string
  | UnknownObjectType string string string string
  | OriginMissing string string string string
  | OriginNotLink string string string string
  | OriginLinksElsewhere string string string string string
  | NoSuchPrimaryKey string string

type_synonym schema = "object_schema list"

definition schema_new :: "object_schema list \<Rightarrow> schema" where
  "schema_new types = sort_key os_name types"

definition schema_find :: "schema \<Rightarrow> string \<Rightarrow> object_schema option" where
  "schema_find s name =
     (case dropWhile (\<lambda>os. os_name os < name) s of
        [] \<Rightarrow> None
      | os # _ \<Rightarrow> if os_name os \<noteq> name then None else Some os)"

text \<open>
  \<open>validate_property\<close> returns the exceptions it adds and the new value of \<open>*primary\<close>. The checks of the
  property itself, of its object type, and of the origin of linking objects are separate definitions.
\<close>

definition check_type :: "string \<Rightarrow> property \<Rightarrow> validation_error list" where
  "check_type object_name p =
     (if pt_eq (prop_type p) PT_LinkingObjects \<and> \<not> is_array (prop_type p)
      then [LinkingObjectsNotArray object_name (prop_name p)] else [])
     @ (if is_nullable (prop_type p) \<and> \<not> type_is_nullable p
        then [CannotBeNullable object_name (prop_name p) (string_for_property_type (prop_type p))]
        else if pt_eq (prop_type p) PT_Object \<and> \<not> is_nullable (prop_type p) \<and> \<not> is_array (prop_type p)
        then [MustBeNullable object_name (prop_name p)] else [])"

definition check_primary :: "string \<Rightarrow> property \<Rightarrow> property option \<Rightarrow> validation_error list \<times> property option" where
  "check_primary object_name p primary =
     (if is_primary p then
        ((if \<not> pt_eq (prop_type p) PT_Int \<and> \<not> pt_eq (prop_type p) PT_String
          then [CannotBePrimaryKey object_name (prop_name p) (string_for_property_type (prop_type p))] else [])
         @ (case primary of
              Some q \<Rightarrow> [TwoPrimaryKeys (prop_name p) (prop_name q) object_name]
            | None \<Rightarrow> []),
         Some p)
      else ([], primary))"

definition check_index_and_origin :: "string \<Rightarrow> property \<Rightarrow> validation_error list" where
  "check_index_and_origin object_name p =
     (if is_indexed p \<and> \<not> type_is_indexable p
      then [CannotBeIndexed object_name (prop_name p) (string_for_property_type (prop_type p))] else [])
     @ (if \<not> pt_eq (prop_type p) PT_LinkingObjects \<and> link_origin_property_name p \<noteq> []
        then [HasOriginName object_name (prop_name p) (string_for_property_type (prop_type p))]
        else if pt_eq (prop_type p) PT_LinkingObjects \<and> link_origin_property_name p = []
        then [MissingOriginName object_name (prop_name p) (string_for_property_type (prop_type p))] else [])"

definition check_link :: "schema \<Rightarrow> string \<Rightarrow> property \<Rightarrow> validation_error list" where
  "check_link s object_name p =
     (if \<not> pt_eq (prop_type p) PT_Object \<and> \<not> pt_eq (prop_type p) PT_LinkingObjects
      then if object_type p \<noteq> []
        then [HasObjectType object_name (prop_name p) (type_string p)]
        else []
      else
        (case schema_find s (object_type p) of
           None \<Rightarrow> [UnknownObjectType object_name (prop_name p) (string_for_property_type (prop_type p)) (object_type p)]
         | Some target \<Rightarrow>
             if \<not> pt_eq (prop_type p) PT_LinkingObjects then []
             else
               (case property_for_name target (link_origin_property_name p) of
                  None \<Rightarrow> [OriginMissing (object_type p) (link_origin_property_name p) object_name (prop_name p)]
                | Some origin \<Rightarrow>
                    if \<not> pt_eq (prop_type origin) PT_Object
                    then [OriginNotLink (object_type p) (link_origin_property_name p) object_name (prop_name p)]
                    else if object_type origin \<noteq> object_name
                    then [OriginLinksElsewhere (object_type p) (link_origin_property_name p) object_name (prop_name p) (object_type origin)]
                    else [])))"

definition validate_property :: "schema \<Rightarrow> string \<Rightarrow> property \<Rightarrow> property option \<Rightarrow> validation_error list \<times> property option" where
  "validate_property s object_name p primary =
     (let (errors, primary') = check_primary object_name p primary
      in (check_type object_name p @ errors @ check_index_and_origin object_name p @ check_link s object_name p, primary'))"

fun validate_properties :: "schema \<Rightarrow> string \<Rightarrow> property list \<Rightarrow> property option \<Rightarrow> validation_error list \<times> property option" where
  "validate_properties s object_name [] primary = ([], primary)"
| "validate_properties s object_name (p # ps) primary =
     (let (errors, primary) = validate_property s object_name p primary;
          (more, primary) = validate_properties s object_name ps primary
      in (errors @ more, primary))"

definition object_validate :: "schema \<Rightarrow> object_schema \<Rightarrow> validation_error list" where
  "object_validate s os =
     (let (errors, primary) = validate_properties s (os_name os) (persisted_properties os) None;
          (more, primary) = validate_properties s (os_name os) (computed_properties os) primary
      in errors @ more @
         (if primary_key os \<noteq> [] \<and> primary = None \<and> primary_key_property os = None
          then [NoSuchPrimaryKey (os_name os) (primary_key os)] else []))"

definition object_schema_eq :: "object_schema \<Rightarrow> object_schema \<Rightarrow> bool" where
  "object_schema_eq a b \<longleftrightarrow> os_name a = os_name b \<and> primary_key a = primary_key b
     \<and> list_all2 property_eq (persisted_properties a) (persisted_properties b)
     \<and> list_all2 property_eq (computed_properties a) (computed_properties b)"

subsection \<open>schema.cpp\<close>

definition schema_eq :: "schema \<Rightarrow> schema \<Rightarrow> bool" where
  "schema_eq a b \<longleftrightarrow> list_all2 object_schema_eq a b"

text \<open>The names of the adjacent duplicates, one for every adjacent pair.\<close>

fun duplicates :: "schema \<Rightarrow> string list" where
  "duplicates (a # b # os) = (if os_name a = os_name b then os_name a # duplicates (b # os) else duplicates (b # os))"
| "duplicates _ = []"

definition schema_validate :: "schema \<Rightarrow> validation_error list + unit" where
  "schema_validate s =
     (let exceptions = map DuplicateType (duplicates s)
                       @ concat (map (object_validate s) s)
      in if exceptions \<noteq> [] then Inl exceptions else Inr ())"

datatype schema_change =
    AddTable object_schema
  | RemoveTable object_schema
  | AddInitialProperties object_schema
  | AddProperty object_schema property
  | RemoveProperty object_schema property
  | ChangePropertyType object_schema property property
  | MakePropertyNullable object_schema property
  | MakePropertyRequired object_schema property
  | AddIndex object_schema property
  | RemoveIndex object_schema property
  | ChangePrimaryKey object_schema "property option"

fun is_not_remove_property :: "schema_change \<Rightarrow> bool" where
  "is_not_remove_property (RemoveProperty os p) = False"
| "is_not_remove_property _ = True"

fun removed_column :: "schema_change \<Rightarrow> size_t" where
  "removed_column (RemoveProperty os p) = table_column p"
| "removed_column _ = 0"

text \<open>The changes of one property of an existing class.\<close>

definition compare_property :: "object_schema \<Rightarrow> object_schema \<Rightarrow> property \<Rightarrow> schema_change list" where
  "compare_property existing target current =
     (case property_for_name target (prop_name current) of
        None \<Rightarrow> [RemoveProperty existing current]
      | Some p \<Rightarrow>
          if property_is_computed target p then [RemoveProperty existing current]
          else if \<not> pt_eq (prop_type current) (prop_type p) \<or> object_type current \<noteq> object_type p
              \<or> is_array (prop_type current) \<noteq> is_array (prop_type p)
          then [ChangePropertyType existing current p]
          else
            (if is_nullable (prop_type current) \<noteq> is_nullable (prop_type p)
             then if is_nullable (prop_type current) then [MakePropertyRequired existing current]
                  else [MakePropertyNullable existing current]
             else [])
            @ (if requires_index p then if \<not> is_indexed current then [AddIndex existing current] else []
               else if requires_index current then [RemoveIndex existing current] else []))"

definition compare_objects :: "object_schema \<Rightarrow> object_schema \<Rightarrow> schema_change list \<Rightarrow> schema_change list" where
  "compare_objects existing target changes =
     (let changes = changes @ concat (map (compare_property existing target) (persisted_properties existing));
          changes = (if primary_key existing \<noteq> primary_key target
                     then changes @ [ChangePrimaryKey existing (primary_key_property target)] else changes);
          changes = changes @ map (AddProperty existing)
                     (filter (\<lambda>p. property_for_name existing (prop_name p) = None) (persisted_properties target))
      in filter is_not_remove_property changes
         @ sort_key (\<lambda>c. - int (removed_column c)) (filter (\<lambda>c. \<not> is_not_remove_property c) changes))"

text \<open>\<open>zip_matching\<close>: the pairs that the function is called with, in order.\<close>

fun zip_matching :: "schema \<Rightarrow> schema \<Rightarrow> (object_schema option \<times> object_schema option) list" where
  "zip_matching (a # as) (b # bs) =
     (if os_name a = os_name b then (Some a, Some b) # zip_matching as bs
      else if os_name a < os_name b then (Some a, None) # zip_matching as (b # bs)
      else (None, Some b) # zip_matching (a # as) bs)"
| "zip_matching as [] = map (\<lambda>a. (Some a, None)) as"
| "zip_matching [] bs = map (\<lambda>b. (None, Some b)) bs"

fun table_changes :: "bool \<Rightarrow> object_schema option \<times> object_schema option \<Rightarrow> schema_change list" where
  "table_changes removals (Some target, None) = [AddTable target]"
| "table_changes removals (None, Some existing) = (if removals then [RemoveTable existing] else [])"
| "table_changes removals _ = []"

fun column_changes :: "object_schema option \<times> object_schema option \<Rightarrow> schema_change list \<Rightarrow> schema_change list" where
  "column_changes (Some target, Some existing) changes = compare_objects existing target changes"
| "column_changes (Some target, None) changes = changes @ [AddInitialProperties target]"
| "column_changes _ changes = changes"

definition schema_compare :: "schema \<Rightarrow> schema \<Rightarrow> bool \<Rightarrow> schema_change list" where
  "schema_compare existing target include_table_removals =
     fold column_changes (zip_matching target existing)
       (concat (map (table_changes include_table_removals) (zip_matching target existing)))"

fun copy_columns :: "property list \<Rightarrow> object_schema \<Rightarrow> object_schema" where
  "copy_columns [] os = os"
| "copy_columns (p # ps) os =
     copy_columns ps (update_property_for_name os (prop_name p) (\<lambda>q. q\<lparr>table_column := table_column p\<rparr>))"

fun copy_matching :: "object_schema option \<times> object_schema option \<Rightarrow> schema \<Rightarrow> schema" where
  "copy_matching (Some existing, Some other) s =
     map (\<lambda>os. if os_name os = os_name existing then copy_columns (persisted_properties other) os else os) s"
| "copy_matching _ s = s"

definition copy_table_columns_from :: "schema \<Rightarrow> schema \<Rightarrow> schema" where
  "copy_table_columns_from s other = fold copy_matching (zip_matching s other) s"

end
