(* ===== verification/Store_Changes.thy ===== *)
theory Store_Changes
  imports Schema_Model
begin

section \<open>Which changes of a schema are allowed\<close>

text \<open>
  The checks of \<open>object_store.cpp\<close> that look at a list of changes only. The visitor
  \<open>SchemaDifferenceExplainer\<close> is \<open>explain\<close>, the errors it adds for a change; a verifier that derives from
  it and overrides some of its operators is a function of its own. \<open>verify_no_errors\<close> throws the exception
  that holds all errors. An exception is a constructor of \<open>schema_exception\<close>.
\<close>

datatype store_error =
    ClassAdded string
  | ClassRemoved string
  | PropertyAdded string string
  | PropertyRemoved string string
  | PropertyTypeChanged string string string string
  | MadeOptional string string
  | MadeRequired string string
  | PrimaryKeyChanged string string string
  | PrimaryKeyAdded string
  | PrimaryKeyRemoved string
  | MadeIndexed string string
  | MadeUnindexed string string

datatype schema_exception =
    SchemaMismatch "store_error list"
  | InvalidSchemaChange "store_error list"
  | InvalidExternalSchemaChange "store_error list"
  | DuplicatePrimaryKeyValue string string
  | RenamedPropertyMissing string string
  | RenameTypeMissing string
  | RenameTypeRemoved string
  | RenameSourceExists string string string
  | RenameSourceMissing string string
  | RenameChangesType string string string string string
  | RenameChangesNullability string string string

fun explain :: "schema_change \<Rightarrow> store_error list" where
  "explain (AddTable t) = [ClassAdded (os_name t)]"
| "explain (RemoveTable e) = []"
| "explain (AddInitialProperties t) = []"
| "explain (AddProperty e p) = [PropertyAdded (os_name e) (prop_name p)]"
| "explain (RemoveProperty e p) = [PropertyRemoved (os_name e) (prop_name p)]"
| "explain (ChangePropertyType e old new) =
     [PropertyTypeChanged (os_name e) (prop_name new) (type_string old) (type_string new)]"
| "explain (MakePropertyNullable e p) = [MadeOptional (os_name e) (prop_name p)]"
| "explain (MakePropertyRequired e p) = [MadeRequired (os_name e) (prop_name p)]"
| "explain (ChangePrimaryKey e k) =
     (case k of
        Some p \<Rightarrow> if primary_key e \<noteq> [] then [PrimaryKeyChanged (os_name e) (primary_key e) (prop_name p)]
                  else [PrimaryKeyAdded (os_name e)]
      | None \<Rightarrow> [PrimaryKeyRemoved (os_name e)])"
| "explain (AddIndex e p) = [MadeIndexed (os_name e) (prop_name p)]"
| "explain (RemoveIndex e p) = [MadeUnindexed (os_name e) (prop_name p)]"

definition verify_no_errors :: "(store_error list \<Rightarrow> schema_exception) \<Rightarrow> (schema_change \<Rightarrow> store_error list) \<Rightarrow>
    schema_change list \<Rightarrow> schema_exception + unit" where
  "verify_no_errors error_type verifier changes =
     (let errors = concat (map verifier changes) in if errors \<noteq> [] then Inl (error_type errors) else Inr ())"

fun change_needs_migration :: "schema_change \<Rightarrow> bool" where
  "change_needs_migration (AddIndex e p) = False"
| "change_needs_migration (AddInitialProperties t) = False"
| "change_needs_migration (AddProperty e p) = True"
| "change_needs_migration (AddTable t) = False"
| "change_needs_migration (RemoveTable e) = False"
| "change_needs_migration (ChangePrimaryKey e k) = True"
| "change_needs_migration (ChangePropertyType e old new) = True"
| "change_needs_migration (MakePropertyNullable e p) = True"
| "change_needs_migration (MakePropertyRequired e p) = True"
| "change_needs_migration (RemoveIndex e p) = False"
| "change_needs_migration (RemoveProperty e p) = True"

definition needs_migration :: "schema_change list \<Rightarrow> bool" where
  "needs_migration changes = list_ex change_needs_migration changes"

definition verify_no_changes_required :: "schema_change list \<Rightarrow> schema_exception + unit" where
  "verify_no_changes_required changes = verify_no_errors SchemaMismatch explain changes"

fun explain_migration :: "schema_change \<Rightarrow> store_error list" where
  "explain_migration (AddTable t) = []"
| "explain_migration (AddInitialProperties t) = []"
| "explain_migration (AddIndex e p) = []"
| "explain_migration (RemoveIndex e p) = []"
| "explain_migration c = explain c"

definition verify_no_migration_required :: "schema_change list \<Rightarrow> schema_exception + unit" where
  "verify_no_migration_required changes = verify_no_errors SchemaMismatch explain_migration changes"

text \<open>The verifier of additive changes also has the flags \<open>index_changes\<close> and \<open>other_changes\<close>.\<close>

record additive_verifier =
  av_errors :: "store_error list"
  index_changes :: bool
  other_changes :: bool

fun verify_additive :: "schema_change \<Rightarrow> additive_verifier \<Rightarrow> additive_verifier" where
  "verify_additive (AddTable t) v = v\<lparr>other_changes := True\<rparr>"
| "verify_additive (AddInitialProperties t) v = v\<lparr>other_changes := True\<rparr>"
| "verify_additive (AddProperty e p) v = v\<lparr>other_changes := True\<rparr>"
| "verify_additive (RemoveProperty e p) v = v"
| "verify_additive (AddIndex e p) v = v\<lparr>index_changes := True\<rparr>"
| "verify_additive (RemoveIndex e p) v = v\<lparr>index_changes := True\<rparr>"
| "verify_additive c v = v\<lparr>av_errors := av_errors v @ explain c\<rparr>"

definition verify_valid_additive_changes :: "schema_change list \<Rightarrow> bool \<Rightarrow> schema_exception + bool" where
  "verify_valid_additive_changes changes update_indexes =
     (let v = fold verify_additive changes \<lparr>av_errors = [], index_changes = False, other_changes = False\<rparr>
      in if av_errors v \<noteq> [] then Inl (InvalidSchemaChange (av_errors v))
         else Inr (other_changes v \<or> (index_changes v \<and> update_indexes)))"

fun explain_external :: "schema_change \<Rightarrow> store_error list" where
  "explain_external (AddTable t) = []"
| "explain_external (AddInitialProperties t) = []"
| "explain_external (AddProperty e p) = []"
| "explain_external (AddIndex e p) = []"
| "explain_external (RemoveIndex e p) = []"
| "explain_external (RemoveTable e) = [ClassRemoved (os_name e)]"
| "explain_external c = explain c"

definition verify_valid_external_changes :: "schema_change list \<Rightarrow> schema_exception + unit" where
  "verify_valid_external_changes changes = verify_no_errors InvalidExternalSchemaChange explain_external changes"

fun explain_immutable :: "schema_change \<Rightarrow> store_error list" where
  "explain_immutable (AddTable t) = []"
| "explain_immutable (AddInitialProperties t) = []"
| "explain_immutable (RemoveProperty e p) = []"
| "explain_immutable (AddIndex e p) = []"
| "explain_immutable (RemoveIndex e p) = []"
| "explain_immutable c = explain c"

definition verify_compatible_for_immutable_and_readonly :: "schema_change list \<Rightarrow> schema_exception + unit" where
  "verify_compatible_for_immutable_and_readonly changes =
     verify_no_errors InvalidSchemaChange explain_immutable changes"

subsection \<open>What the checks accept\<close>

lemma verify_no_errors_ok: "verify_no_errors f v cs = Inr () \<longleftrightarrow> (\<forall>c\<in>set cs. v c = [])"
  by (auto simp: verify_no_errors_def Let_def)

lemma explain_Nil: "explain c = [] \<longleftrightarrow> (\<exists>t. c = RemoveTable t \<or> c = AddInitialProperties t)"
  by (cases c) (auto split: option.splits)

lemma explain_migration_Nil: "explain_migration c = [] \<longleftrightarrow> \<not> change_needs_migration c"
  by (cases c) (auto split: option.splits)

text \<open>The changes that only add, and those that touch existing data or a primary key.\<close>

fun is_addition :: "schema_change \<Rightarrow> bool" where
  "is_addition (AddTable t) = True"
| "is_addition (AddInitialProperties t) = True"
| "is_addition (AddProperty e p) = True"
| "is_addition _ = False"

fun is_index_change :: "schema_change \<Rightarrow> bool" where
  "is_index_change (AddIndex e p) = True"
| "is_index_change (RemoveIndex e p) = True"
| "is_index_change _ = False"

fun is_removal :: "schema_change \<Rightarrow> bool" where
  "is_removal (RemoveProperty e p) = True"
| "is_removal (RemoveTable e) = True"
| "is_removal _ = False"

lemma verify_additive_fold:
  "av_errors (fold verify_additive cs v) = av_errors v @
     concat (map (\<lambda>c. if is_addition c \<or> is_index_change c \<or> is_removal c then [] else explain c) cs)
   \<and> other_changes (fold verify_additive cs v) = (other_changes v \<or> list_ex is_addition cs)
   \<and> index_changes (fold verify_additive cs v) = (index_changes v \<or> list_ex is_index_change cs)"
proof (induction cs arbitrary: v)
  case (Cons c cs)
  show ?case using Cons.IH [of "verify_additive c v"] by (cases c) simp_all
qed simp

lemma explain_not_Nil: "\<not> is_addition c \<Longrightarrow> \<not> is_removal c \<Longrightarrow> explain c \<noteq> []"
  by (cases c) (auto split: option.splits)

lemma verify_valid_additive_ok:
  "verify_valid_additive_changes cs u = Inr b \<longleftrightarrow>
     (\<forall>c\<in>set cs. is_addition c \<or> is_index_change c \<or> is_removal c)
     \<and> b = (list_ex is_addition cs \<or> (u \<and> list_ex is_index_change cs))"
  using explain_not_Nil
  by (auto simp: verify_valid_additive_changes_def Let_def verify_additive_fold split: if_splits) 

end
