(* ===== verification/Store_Model.thy ===== *)
theory Store_Model
  imports Store_Changes
begin

section \<open>The object store: files with a schema\<close>

text \<open>
  The model of the operations of \<open>object_store.cpp\<close> that read and write a file.

  The tables of a file belong to the core database, a compiled library whose headers alone are in the
  repository. It is a parameter of the model: \<open>'g\<close> is its \<open>Group\<close>, and a value of \<open>'g core\<close> holds the
  functions of \<open>Group\<close>, \<open>Table\<close> and \<open>sync\<close> that the store calls, a table being given by its name. What the
  code reads of a table is data: its columns with their name, type, nullability, link target, search
  index and, for a column of subtables, the columns of these. \<open>enable_sync\<close> is \<open>REALM_ENABLE_SYNC\<close>.

  A result \<open>None\<close> is a failed \<open>REALM_ASSERT\<close>, or an access through a null table or an \<open>end()\<close> iterator. An
  exception is \<open>Inl\<close>; the caller then rolls the transaction back, so that the state is not part of it.
  The sixty-four bit numbers of the file are \<open>64 word\<close>.
\<close>

subsection \<open>The core database, as the store sees it\<close>

datatype data_type =
    type_Int | type_Bool | type_Float | type_Double | type_String | type_Binary | type_OldDateTime
  | type_Timestamp | type_Table | type_Mixed | type_Link | type_LinkList

datatype core_column =
  Column (cc_name: string) (cc_type: data_type) (cc_nullable: bool) (cc_target: string)
    (cc_indexed: bool) (cc_sub: "core_column list")

datatype core_value =
    NullValue
  | IntValue "64 word"
  | BoolValue bool
  | FloatValue "32 word"
  | DoubleValue "64 word"
  | StringValue string
  | BinaryValue string
  | TimestampValue "64 word" "32 word"
  | LinkValue size_t

record 'g core =
  enable_sync :: bool
  table_names :: "'g \<Rightarrow> string list"
  table_columns :: "'g \<Rightarrow> string \<Rightarrow> core_column list"
  table_size :: "'g \<Rightarrow> string \<Rightarrow> nat"
  get_cell :: "'g \<Rightarrow> string \<Rightarrow> size_t \<Rightarrow> size_t \<Rightarrow> core_value"
  get_or_add_table :: "string \<Rightarrow> 'g \<Rightarrow> 'g"
  remove_table :: "string \<Rightarrow> 'g \<Rightarrow> 'g"
  table_insert_column :: "string \<Rightarrow> size_t \<Rightarrow> core_column \<Rightarrow> 'g \<Rightarrow> 'g"
  table_remove_column :: "string \<Rightarrow> size_t \<Rightarrow> 'g \<Rightarrow> 'g"
  table_rename_column :: "string \<Rightarrow> size_t \<Rightarrow> string \<Rightarrow> 'g \<Rightarrow> 'g"
  add_search_index :: "string \<Rightarrow> size_t \<Rightarrow> 'g \<Rightarrow> 'g"
  remove_search_index :: "string \<Rightarrow> size_t \<Rightarrow> 'g \<Rightarrow> 'g"
  add_empty_row :: "string \<Rightarrow> 'g \<Rightarrow> 'g"
  set_cell :: "string \<Rightarrow> size_t \<Rightarrow> size_t \<Rightarrow> core_value \<Rightarrow> 'g \<Rightarrow> 'g"
  move_last_over :: "string \<Rightarrow> size_t \<Rightarrow> 'g \<Rightarrow> 'g"
  has_object_ids :: "'g \<Rightarrow> bool"
  sync_create_table :: "string \<Rightarrow> 'g \<Rightarrow> 'g"
  sync_create_table_with_primary_key :: "string \<Rightarrow> data_type \<Rightarrow> string \<Rightarrow> bool \<Rightarrow> 'g \<Rightarrow> 'g"
  initialize_schema :: "'g \<Rightarrow> 'g"
  set_up_basic_permissions :: "'g \<Rightarrow> 'g"
  add_user_to_role :: "string \<Rightarrow> string \<Rightarrow> 'g \<Rightarrow> 'g"
  set_class_permissions_for_role :: "string \<Rightarrow> string \<Rightarrow> 'g \<Rightarrow> 'g"

text \<open>\<open>Table::get_column_index\<close> and \<open>Table::find_first_string\<close> return \<open>not_found\<close>, which is \<open>npos\<close>, when there is none.\<close>

definition first_index :: "(nat \<Rightarrow> bool) \<Rightarrow> nat \<Rightarrow> size_t" where
  "first_index P n = (case find P [0..<n] of Some i \<Rightarrow> i | None \<Rightarrow> npos)"

definition column_index :: "core_column list \<Rightarrow> string \<Rightarrow> size_t" where
  "column_index cols name = first_index (\<lambda>i. cc_name (cols ! i) = name) (length cols)"

definition find_first_string :: "'g core \<Rightarrow> 'g \<Rightarrow> string \<Rightarrow> size_t \<Rightarrow> string \<Rightarrow> size_t" where
  "find_first_string C g table col s =
     first_index (\<lambda>row. get_cell C g table col row = StringValue s) (table_size C g table)"

definition get_string :: "'g core \<Rightarrow> 'g \<Rightarrow> string \<Rightarrow> size_t \<Rightarrow> size_t \<Rightarrow> string" where
  "get_string C g table col row = (case get_cell C g table col row of StringValue s \<Rightarrow> s | _ \<Rightarrow> [])"

subsection \<open>The metadata tables\<close>

definition metadata_table :: string where "metadata_table = ''metadata''"
definition version_column :: string where "version_column = ''version''"
definition pk_table :: string where "pk_table = ''pk''"
definition pk_class_column :: string where "pk_class_column = ''pk_table''"
definition pk_property_column :: string where "pk_property_column = ''pk_property''"
definition object_table_prefix :: string where "object_table_prefix = ''class_''"

definition not_versioned :: "64 word" where "not_versioned = - 1"

definition plain_column :: "string \<Rightarrow> data_type \<Rightarrow> bool \<Rightarrow> core_column" where
  "plain_column name type nullable = Column name type nullable [] False []"

definition create_metadata_tables :: "'g core \<Rightarrow> 'g \<Rightarrow> 'g" where
  "create_metadata_tables C g =
     (let g = get_or_add_table C pk_table g;
          g = get_or_add_table C metadata_table g;
          g = (if table_columns C g metadata_table = []
               then set_cell C metadata_table 0 0 (IntValue not_versioned)
                 (add_empty_row C metadata_table
                   (table_insert_column C metadata_table 0 (plain_column version_column type_Int False) g))
               else g);
          g = (if table_columns C g pk_table = []
               then table_insert_column C pk_table 1 (plain_column pk_property_column type_String False)
                 (table_insert_column C pk_table 0 (plain_column pk_class_column type_String False) g)
               else g)
      in add_search_index C pk_table 0 g)"

definition set_schema_version_cell :: "'g core \<Rightarrow> 64 word \<Rightarrow> 'g \<Rightarrow> 'g" where
  "set_schema_version_cell C version g = set_cell C metadata_table 0 0 (IntValue version) g"

definition set_schema_version :: "'g core \<Rightarrow> 64 word \<Rightarrow> 'g \<Rightarrow> 'g" where
  "set_schema_version C version g = set_schema_version_cell C version (create_metadata_tables C g)"

definition get_schema_version :: "'g core \<Rightarrow> 'g \<Rightarrow> 64 word" where
  "get_schema_version C g =
     (if metadata_table \<notin> set (table_names C g) \<or> table_columns C g metadata_table = [] then not_versioned
      else case get_cell C g metadata_table 0 0 of IntValue v \<Rightarrow> v | _ \<Rightarrow> 0)"

definition get_primary_key_for_object :: "'g core \<Rightarrow> 'g \<Rightarrow> string \<Rightarrow> string" where
  "get_primary_key_for_object C g class_name =
     (if pk_table \<notin> set (table_names C g) then []
      else let row = find_first_string C g pk_table 0 class_name
        in if row = npos then [] else get_string C g pk_table 1 row)"

definition set_primary_key_for_object :: "'g core \<Rightarrow> string \<Rightarrow> string \<Rightarrow> 'g \<Rightarrow> 'g option" where
  "set_primary_key_for_object C class_name key g =
     (let row = find_first_string C g pk_table 0 class_name in
      if enable_sync C \<and> has_object_ids C g
      then do {
        realm_assert (if key = [] then row = npos else row \<noteq> npos \<and> get_string C g pk_table 1 row = key);
        Some g }
      else if row = npos \<and> key \<noteq> []
      then (let row = table_size C g pk_table; g = add_empty_row C pk_table g
            in Some (set_cell C pk_table 1 row (StringValue key) (set_cell C pk_table 0 row (StringValue class_name) g)))
      else if key = [] then Some (if row \<noteq> npos then move_last_over C pk_table row g else g)
      else Some (set_cell C pk_table 1 row (StringValue key) g))"

subsection \<open>Tables and columns\<close>

definition object_type_for_table_name :: "string \<Rightarrow> string" where
  "object_type_for_table_name name =
     (if take (length object_table_prefix) name = object_table_prefix
      then drop (length object_table_prefix) name else [])"

definition table_name_for_object_type :: "string \<Rightarrow> string" where
  "table_name_for_object_type class_name = object_table_prefix @ class_name"

definition table_for_object_type :: "'g core \<Rightarrow> 'g \<Rightarrow> string \<Rightarrow> string option" where
  "table_for_object_type C g class_name =
     (let name = table_name_for_object_type class_name in if name \<in> set (table_names C g) then Some name else None)"

definition to_core_type :: "property_type \<Rightarrow> data_type option" where
  "to_core_type type = do {
     realm_assert (\<not> pt_eq type PT_Object);
     realm_assert (\<not> pt_eq type PT_Any);
     let t = base_type type;
     if t = PT_Int then Some type_Int
     else if t = PT_Bool then Some type_Bool
     else if t = PT_Float then Some type_Float
     else if t = PT_Double then Some type_Double
     else if t = PT_String then Some type_String
     else if t = PT_Date then Some type_Timestamp
     else if t = PT_Data then Some type_Binary
     else None }"

definition array_column_name :: string where "array_column_name = ''!ARRAY_VALUE''"

definition insert_property_column :: "'g core \<Rightarrow> string \<Rightarrow> property \<Rightarrow> size_t \<Rightarrow> 'g \<Rightarrow> 'g option" where
  "insert_property_column C table p col g = do {
     realm_assert (\<not> pt_eq (prop_type p) PT_LinkingObjects);
     if pt_eq (prop_type p) PT_Object then do {
       let target = table_name_for_object_type (object_type p);
       realm_assert (target \<in> set (table_names C g));
       Some (table_insert_column C table col
         (Column (prop_name p) (if is_array (prop_type p) then type_LinkList else type_Link) False target False []) g) }
     else if is_array (prop_type p) then do {
       t \<leftarrow> to_core_type (base_type (prop_type p));
       Some (table_insert_column C table col
         (Column (prop_name p) type_Table False [] False
            [plain_column array_column_name t (is_nullable (prop_type p))]) g) }
     else do {
       t \<leftarrow> to_core_type (prop_type p);
       let g = table_insert_column C table col (plain_column (prop_name p) t (is_nullable (prop_type p))) g;
       Some (if requires_index p then add_search_index C table col g else g) } }"

definition add_column :: "'g core \<Rightarrow> string \<Rightarrow> property \<Rightarrow> 'g \<Rightarrow> 'g option" where
  "add_column C table p g = insert_property_column C table p (length (table_columns C g table)) g"

definition replace_column :: "'g core \<Rightarrow> string \<Rightarrow> property \<Rightarrow> property \<Rightarrow> 'g \<Rightarrow> 'g option" where
  "replace_column C table old new g = do {
     g \<leftarrow> insert_property_column C table new (table_column old) g;
     Some (table_remove_column C table (table_column old + 1) g) }"

definition create_table :: "'g core \<Rightarrow> object_schema \<Rightarrow> 'g \<Rightarrow> 'g option" where
  "create_table C os g =
     (let name = table_name_for_object_type (os_name os) in
      if enable_sync C then
        (case primary_key_property os of
           Some p \<Rightarrow> do {
             t \<leftarrow> to_core_type (prop_type p);
             Some (sync_create_table_with_primary_key C name t (prop_name p) (is_nullable (prop_type p)) g) }
         | None \<Rightarrow> Some (sync_create_table C name g))
      else set_primary_key_for_object C (os_name os) (primary_key os) (get_or_add_table C name g))"

definition add_initial_columns :: "'g core \<Rightarrow> object_schema \<Rightarrow> 'g \<Rightarrow> 'g option" where
  "add_initial_columns C os g =
     fold_opt (\<lambda>p g. if enable_sync C \<and> is_primary p then Some g
                     else add_column C (table_name_for_object_type (os_name os)) p g)
       (persisted_properties os) g"

definition has_values_to_copy :: "property_type \<Rightarrow> bool" where
  "has_values_to_copy type \<longleftrightarrow>
     base_type type \<in> set [PT_Int, PT_Bool, PT_Float, PT_Double, PT_String, PT_Data, PT_Date]"

definition copy_property_values :: "'g core \<Rightarrow> property \<Rightarrow> string \<Rightarrow> 'g \<Rightarrow> 'g" where
  "copy_property_values C p table g =
     (if has_values_to_copy (prop_type p)
      then fold (\<lambda>i g. set_cell C table (table_column p) i (get_cell C g table (table_column p + 1) i) g)
             [0..<table_size C g table] g
      else g)"

definition make_property_optional :: "'g core \<Rightarrow> string \<Rightarrow> property \<Rightarrow> 'g \<Rightarrow> 'g option" where
  "make_property_optional C table p g = do {
     let p = p\<lparr>prop_type := prop_type p OR PT_Nullable\<rparr>;
     g \<leftarrow> insert_property_column C table p (table_column p) g;
     Some (table_remove_column C table (table_column p + 1) (copy_property_values C p table g)) }"

definition make_property_required :: "'g core \<Rightarrow> string \<Rightarrow> property \<Rightarrow> 'g \<Rightarrow> 'g option" where
  "make_property_required C table p g = do {
     let p = p\<lparr>prop_type := prop_type p AND NOT PT_Nullable\<rparr>;
     g \<leftarrow> insert_property_column C table p (table_column p) g;
     Some (table_remove_column C table (table_column p + 1) g) }"

definition primary_column_unique :: "'g core \<Rightarrow> string \<Rightarrow> string \<Rightarrow> 'g \<Rightarrow> (schema_exception + unit) option" where
  "primary_column_unique C class_name primary g = do {
     table \<leftarrow> table_for_object_type C g class_name;
     let col = column_index (table_columns C g table) primary;
     if length (remdups (map (get_cell C g table col) [0..<table_size C g table])) \<noteq> table_size C g table
     then Some (Inl (DuplicatePrimaryKeyValue class_name primary))
     else Some (Inr ()) }"

fun primary_columns_unique :: "'g core \<Rightarrow> nat list \<Rightarrow> 'g \<Rightarrow> (schema_exception + unit) option" where
  "primary_columns_unique C [] g = Some (Inr ())"
| "primary_columns_unique C (i # rows) g = do {
     r \<leftarrow> primary_column_unique C (get_string C g pk_table 0 i) (get_string C g pk_table 1 i) g;
     case r of Inl e \<Rightarrow> Some (Inl e) | Inr _ \<Rightarrow> primary_columns_unique C rows g }"

definition validate_primary_column_uniqueness :: "'g core \<Rightarrow> 'g \<Rightarrow> (schema_exception + unit) option" where
  "validate_primary_column_uniqueness C g = primary_columns_unique C [0..<table_size C g pk_table] g"

end
