(* ===== verification/Transact_Info.thy ===== *)
theory Transact_Info
  imports Change_Builder Store_Model
begin

section \<open>What an observer of the transaction log collects\<close>

text \<open>
  \<open>TransactionChangeInfo\<close> of \<open>collection_notifier.hpp\<close>: which tables are of interest, the change sets of
  the tables, and the lists that are observed. A \<open>ListChangeInfo\<close> holds a pointer to the change set of its
  notifier, which outlives the entry: here it is an index into \<open>builders\<close>, the change sets of all notifiers
  that have registered a list. \<open>table_indices\<close> and \<open>column_indices\<close> follow the tables and columns that
  are moved or inserted.
\<close>

record list_change_info =
  table_ndx :: size_t
  row_ndx :: size_t
  col_ndx :: size_t
  list_changes :: nat

record transaction_change_info =
  table_modifications_needed :: "bool list"
  table_moves_needed :: "bool list"
  info_lists :: "list_change_info list"
  info_tables :: "change_builder list"
  column_indices :: "size_t list list"
  table_indices :: "size_t list"
  track_all :: bool
  schema_changed :: bool
  builders :: "change_builder list"

definition info_new :: transaction_change_info where
  "info_new = \<lparr>table_modifications_needed = [], table_moves_needed = [], info_lists = [], info_tables = [],
     column_indices = [], table_indices = [], track_all = False, schema_changed = False, builders = []\<rparr>"

text \<open>
  What the checker of linked objects reads of the tables of a group: the types of their columns, the tables
  that links lead to, and the rows linked to, where a link may be null. A table is its index in the group.
\<close>

record link_tables =
  column_types :: "size_t \<Rightarrow> data_type list"
  get_link_target :: "size_t \<Rightarrow> size_t \<Rightarrow> size_t"
  get_link :: "size_t \<Rightarrow> size_t \<Rightarrow> size_t \<Rightarrow> size_t option"
  get_linklist :: "size_t \<Rightarrow> size_t \<Rightarrow> size_t \<Rightarrow> size_t list"

end
