(* ===== verification/Deep_Change.thy ===== *)
theory Deep_Change
  imports Transact_Info Index_Set_Ops
begin

section \<open>The checker of changes to linked objects\<close>

text \<open>
  The model of \<open>DeepChangeChecker\<close> and of \<open>get_modification_checker\<close> in \<open>collection_notifier.cpp\<close>.

  \<^item> \<open>find_related_tables\<close> recurses over the tables that link columns lead to. Nothing in the code bounds the
    recursion but the tables already listed, so it is a partial function; \<open>Deep_Related\<close> shows that it returns.
  \<^item> \<open>check_row\<close> and \<open>check_outgoing_links\<close> call each other; the latter takes \<open>check_row\<close> one level deeper as
    its argument \<open>check\<close>. \<open>m_current_path\<close> has four entries and bounds the recursion.
  \<^item> \<open>any_of\<close> is \<open>std::any_of\<close>, and the loop over a list of links, with a predicate that changes the state.
\<close>

subsection \<open>Related tables\<close>

record outgoing_link =
  link_col :: size_t
  is_list :: bool

record related_table =
  related_ndx :: size_t
  outgoing_links :: "outgoing_link list"

definition is_related :: "related_table list \<Rightarrow> size_t \<Rightarrow> bool" where
  "is_related out t \<longleftrightarrow> t \<in> related_ndx ` set out"

definition push_link :: "related_table list \<Rightarrow> nat \<Rightarrow> outgoing_link \<Rightarrow> related_table list" where
  "push_link out i l = out[i := (out ! i)\<lparr>outgoing_links := outgoing_links (out ! i) @ [l]\<rparr>]"

text \<open>The loop over the columns \<open>is\<close> of the table \<open>t\<close>, which is the entry \<open>out_index\<close> of \<open>out\<close>.\<close>

partial_function (option) related_columns ::
    "link_tables \<Rightarrow> nat \<Rightarrow> size_t \<Rightarrow> size_t list \<Rightarrow> related_table list \<Rightarrow> related_table list option" where
  "related_columns g out_index t is out =
     (case is of
        [] \<Rightarrow> Some out
      | i # is \<Rightarrow>
          let type = column_types g t ! i in
          if type = type_Link \<or> type = type_LinkList then do {
            let out = push_link out out_index \<lparr>link_col = i, is_list = (type = type_LinkList)\<rparr>;
            let u = get_link_target g t i;
            out \<leftarrow> (if u = npos \<or> is_related out u then Some out
                   else related_columns g (length out) u [0..<length (column_types g u)]
                          (out @ [\<lparr>related_ndx = u, outgoing_links = []\<rparr>]));
            related_columns g out_index t is out }
          else related_columns g out_index t is out)"

declare related_columns.simps [code]

definition find_related_tables :: "link_tables \<Rightarrow> related_table list \<Rightarrow> size_t \<Rightarrow> related_table list option" where
  "find_related_tables g out t =
     (if t = npos \<or> is_related out t then Some out
      else related_columns g (length out) t [0..<length (column_types g t)]
             (out @ [\<lparr>related_ndx = t, outgoing_links = []\<rparr>]))"

subsection \<open>The checker\<close>

record path_entry =
  path_table :: size_t
  path_row :: size_t
  path_col :: size_t
  depth_exceeded :: bool

record checker =
  not_modified :: "index_set list"
  current_path :: "path_entry list"

definition path_size :: nat where
  "path_size = 4"

definition checker_new :: checker where
  "checker_new = \<lparr>not_modified = [],
     current_path = replicate path_size \<lparr>path_table = 0, path_row = 0, path_col = 0, depth_exceeded = False\<rparr>\<rparr>"

definition mark_exceeded :: "nat \<Rightarrow> nat \<Rightarrow> checker \<Rightarrow> checker" where
  "mark_exceeded from stop st = st\<lparr>current_path :=
     map (\<lambda>(i, p). if from \<le> i \<and> i < stop then p\<lparr>depth_exceeded := True\<rparr> else p) (enumerate 0 (current_path st))\<rparr>"

definition already_checking :: "size_t \<Rightarrow> size_t \<Rightarrow> size_t \<Rightarrow> nat \<Rightarrow> checker \<Rightarrow> bool \<times> checker" where
  "already_checking t row col depth st =
     (let match = length (takeWhile (\<lambda>p. \<not> (path_table p = t \<and> path_row p = row \<and> path_col p = col))
                            (take depth (current_path st)))
      in if match \<noteq> depth then (True, mark_exceeded match depth st)
         else (False, st\<lparr>current_path := (current_path st)[depth :=
                  \<lparr>path_table = t, path_row = row, path_col = col, depth_exceeded = False\<rparr>]\<rparr>))"

fun any_of :: "('a \<Rightarrow> 's \<Rightarrow> (bool \<times> 's) option) \<Rightarrow> 'a list \<Rightarrow> 's \<Rightarrow> (bool \<times> 's) option" where
  "any_of P [] st = Some (False, st)"
| "any_of P (x # xs) st = do {
     (b, st) \<leftarrow> P x st;
     if b then Some (True, st) else any_of P xs st }"

definition linked_rows :: "link_tables \<Rightarrow> size_t \<Rightarrow> size_t \<Rightarrow> outgoing_link \<Rightarrow> size_t list" where
  "linked_rows g t row l =
     (if is_list l then get_linklist g t (link_col l) row
      else case get_link g t (link_col l) row of None \<Rightarrow> [] | Some dst \<Rightarrow> [dst])"

definition linked_object_changed ::
    "(size_t \<Rightarrow> size_t \<Rightarrow> checker \<Rightarrow> (bool \<times> checker) option) \<Rightarrow> link_tables \<Rightarrow> size_t \<Rightarrow> size_t \<Rightarrow> nat
       \<Rightarrow> outgoing_link \<Rightarrow> checker \<Rightarrow> (bool \<times> checker) option" where
  "linked_object_changed check g t row depth l st =
     (let (checking, st) = already_checking t row (link_col l) depth st in
      if checking then Some (False, st)
      else any_of (check (get_link_target g t (link_col l))) (linked_rows g t row l) st)"

definition check_outgoing_links ::
    "(size_t \<Rightarrow> size_t \<Rightarrow> checker \<Rightarrow> (bool \<times> checker) option) \<Rightarrow> link_tables \<Rightarrow> related_table list
       \<Rightarrow> size_t \<Rightarrow> size_t \<Rightarrow> nat \<Rightarrow> checker \<Rightarrow> (bool \<times> checker) option" where
  "check_outgoing_links check g rel t row depth st =
     (case find (\<lambda>r. related_ndx r = t) rel of
        None \<Rightarrow> Some (False, st)
      | Some r \<Rightarrow> any_of (linked_object_changed check g t row depth) (outgoing_links r) st)"

definition row_modified :: "bool \<Rightarrow> transaction_change_info \<Rightarrow> size_t \<Rightarrow> size_t \<Rightarrow> bool option" where
  "row_modified dbg info t row =
     (if t < length (info_tables info) then contains dbg (modifications (info_tables info ! t)) row else Some False)"

definition resize_sets :: "nat \<Rightarrow> index_set list \<Rightarrow> index_set list" where
  "resize_sets n xs = (if length xs < n then xs @ replicate (n - length xs) [] else xs)"

function check_row :: "bool \<Rightarrow> link_tables \<Rightarrow> transaction_change_info \<Rightarrow> related_table list
    \<Rightarrow> size_t \<Rightarrow> size_t \<Rightarrow> nat \<Rightarrow> checker \<Rightarrow> (bool \<times> checker) option" where
  "check_row dbg g info rel t row depth st =
     (if path_size \<le> depth then Some (False, mark_exceeded 0 path_size st)
      else do {
        modified \<leftarrow> (if 0 < depth then row_modified dbg info t row else Some False);
        if modified then Some (True, st)
        else do {
          let st = st\<lparr>not_modified := resize_sets (t + 1) (not_modified st)\<rparr>;
          known \<leftarrow> contains dbg (not_modified st ! t) row;
          if known then Some (False, st)
          else do {
            (ret, st) \<leftarrow> check_outgoing_links
               (\<lambda>target dst st. check_row dbg g info rel target dst (depth + 1) st) g rel t row depth st;
            if \<not> ret \<and> (depth = 0 \<or> \<not> depth_exceeded (current_path st ! (depth - 1))) then do {
              s \<leftarrow> add dbg (not_modified st ! t) row;
              Some (ret, st\<lparr>not_modified := (not_modified st)[t := s]\<rparr>) }
            else Some (ret, st) } } })"
  by pat_completeness auto
termination
  by (relation "measure (\<lambda>(_, _, _, _, _, _, depth, _). path_size - depth)") auto

declare check_row.simps [simp del]

definition check_object :: "bool \<Rightarrow> link_tables \<Rightarrow> transaction_change_info \<Rightarrow> related_table list \<Rightarrow> size_t
    \<Rightarrow> size_t \<Rightarrow> checker \<Rightarrow> (bool \<times> checker) option" where
  "check_object dbg g info rel root row st = do {
     modified \<leftarrow> row_modified dbg info root row;
     if modified then Some (True, st) else check_row dbg g info rel root row 0 st }"

subsection \<open>The choice of a checker\<close>

datatype modification_checker = NeverModified | RootModifications size_t | DeepCheck

definition get_modification_checker :: "transaction_change_info \<Rightarrow> related_table list \<Rightarrow> modification_checker" where
  "get_modification_checker info rel =
     (if \<not> (\<exists>r\<in>set rel. related_ndx r < length (info_tables info)
             \<and> modifications (info_tables info ! related_ndx r) \<noteq> []) then NeverModified
      else if length rel = 1 then RootModifications (related_ndx (rel ! 0))
      else DeepCheck)"

fun run_checker :: "bool \<Rightarrow> link_tables \<Rightarrow> transaction_change_info \<Rightarrow> related_table list \<Rightarrow> size_t
    \<Rightarrow> modification_checker \<Rightarrow> size_t \<Rightarrow> checker \<Rightarrow> (bool \<times> checker) option" where
  "run_checker dbg g info rel root NeverModified row st = Some (False, st)"
| "run_checker dbg g info rel root (RootModifications t) row st =
     map_option (\<lambda>b. (b, st)) (contains dbg (modifications (info_tables info ! t)) row)"
| "run_checker dbg g info rel root DeepCheck row st = check_object dbg g info rel root row st"

text \<open>A notifier asks the checker about one row after the other.\<close>

fun check_rows :: "bool \<Rightarrow> link_tables \<Rightarrow> transaction_change_info \<Rightarrow> related_table list \<Rightarrow> size_t
    \<Rightarrow> modification_checker \<Rightarrow> size_t list \<Rightarrow> checker \<Rightarrow> bool list option" where
  "check_rows dbg g info rel root c [] st = Some []"
| "check_rows dbg g info rel root c (row # rows) st = do {
     (b, st) \<leftarrow> run_checker dbg g info rel root c row st;
     bs \<leftarrow> check_rows dbg g info rel root c rows st;
     Some (b # bs) }"

end
