(* ===== verification/Notifier_Runs.thy ===== *)
theory Notifier_Runs
  imports Change_Calculate Collection_Notifier Deep_Change
begin

section \<open>What the notifiers find out on the worker\<close>

text \<open>
  The subclasses of \<open>CollectionNotifier\<close>: \<open>impl/results_notifier.cpp\<close>, \<open>impl/list_notifier.cpp\<close>,
  \<open>impl/primitive_list_notifier.cpp\<close> and \<open>impl/object_notifier.cpp\<close>. Their \<open>run\<close> turns what the observer of the
  transaction log has collected into the change set that \<open>do_prepare_handover\<close> passes to \<open>add_changes\<close>.

  \<^item> What a notifier asks the core for is a record that the functions take: whether its table, list or row is still
    attached, where it is, and what its query finds. A pointer to \<open>TransactionChangeInfo\<close> is the value that it
    points to; the set \<open>m_changes\<close> that the observer fills for a list is the one in the record of the notifier.
  \<^item> The function that \<open>get_modification_checker\<close> returns is a predicate on the rows, as for \<open>calculate\<close>.
  \<^item> The handover objects of the core are what they hold, with the version that they are for.
  \<^item> \<open>None\<close> is a failed assertion.
\<close>

subsection \<open>What they share\<close>

text \<open>What is left of a change set that has been moved to the argument of \<open>add_changes\<close>.\<close>

definition moved_from :: "change_builder \<Rightarrow> change_builder" where
  "moved_from c = cb_nil\<lparr>track_columns := track_columns c\<rparr>"

definition resize_flags :: "nat \<Rightarrow> bool list \<Rightarrow> bool list" where
  "resize_flags k bs = (if length bs \<le> k then bs @ replicate (k + 1 - length bs) False else bs)"

text \<open>\<open>add_required_change_info\<close>, with the result of \<open>do_add_required_change_info\<close>.\<close>

definition add_required_change_info :: "related_table list \<Rightarrow> bool \<times> transaction_change_info \<Rightarrow> transaction_change_info" where
  "add_required_change_info related = (\<lambda>(required, info).
     if \<not> required \<or> related = [] then info
     else info\<lparr>table_modifications_needed :=
       fold (\<lambda>t flags. flags[related_ndx t := True]) related
         (resize_flags (Max (set (map related_ndx related))) (table_modifications_needed info))\<rparr>)"

subsection \<open>Results\<close>

text \<open>What the core says of the query and of the table that it is on.\<close>

record query_state =
  q_attached :: bool
  q_table_ndx :: size_t
  q_container :: "size_t \<times> size_t \<times> size_t"
  q_version :: "64 word"
  q_rows :: "size_t list"

text \<open>\<open>rn_target\<close> is the table view that the target has been given, \<open>rn_background\<close> its
  \<open>wants_background_updates\<close>, and \<open>rn_will_sort\<close> the answer of \<open>m_descriptor_ordering.will_apply_sort()\<close>.\<close>

record results_notifier =
  rn_base :: collection_notifier
  rn_target :: "size_t list option"
  rn_background :: bool
  rn_query_handover :: bool
  rn_query :: bool
  rn_will_sort :: bool
  rn_in_table_order :: bool
  rn_tv :: "size_t list option"
  rn_tv_handover :: "(size_t list \<times> nat) option"
  rn_tv_to_deliver :: "(size_t list \<times> nat) option"
  rn_last_seen_version :: "64 word"
  rn_previous_rows :: "size_t list"
  rn_changes :: change_builder
  rn_info :: bool

definition results_notifier_new :: "nat \<Rightarrow> bool \<Rightarrow> bool \<Rightarrow> bool \<Rightarrow> results_notifier" where
  "results_notifier_new version is_in_table_order will_sort background =
     \<lparr>rn_base = collection_notifier_new version, rn_target = None, rn_background = background, rn_query_handover = True,
      rn_query = False, rn_will_sort = will_sort, rn_in_table_order = is_in_table_order, rn_tv = None,
      rn_tv_handover = None, rn_tv_to_deliver = None, rn_last_seen_version = - 1, rn_previous_rows = [],
      rn_changes = cb_nil, rn_info = False\<rparr>"

definition release_results :: "results_notifier \<Rightarrow> results_notifier" where
  "release_results n = n\<lparr>rn_query := False\<rparr>"

text \<open>The number of \<open>m_changes\<close> among the change sets of lists is \<open>b\<close>.\<close>

definition results_add_required_change_info ::
    "nat \<Rightarrow> query_state \<Rightarrow> transaction_change_info \<Rightarrow> results_notifier
      \<Rightarrow> (bool \<times> transaction_change_info \<times> results_notifier) option" where
  "results_add_required_change_info b q info n = do {
     realm_assert (rn_query n);
     let n = n\<lparr>rn_info := True\<rparr>;
     (if \<not> q_attached q then Some (False, info, n)
      else do {
        let info =
          (if q_table_ndx q = npos then
             (case q_container q of (t, r, k) \<Rightarrow>
                info\<lparr>info_lists := info_lists info @ [\<lparr>table_ndx = t, row_ndx = r, col_ndx = k, list_changes = b\<rparr>]\<rparr>)
           else info\<lparr>table_moves_needed :=
             (resize_flags (q_table_ndx q) (table_moves_needed info))[q_table_ndx q := True]\<rparr>);
        Some (nf_has_run (rn_base n) \<and> nf_have_callbacks (rn_base n), info, n) }) }"

definition need_to_run :: "query_state \<Rightarrow> results_notifier \<Rightarrow> bool option" where
  "need_to_run q n = do {
     realm_assert (rn_info n);
     realm_assert (rn_tv n = None);
     Some (if \<not> nf_realm (rn_base n) \<or> \<not> nf_have_callbacks (rn_base n) \<and> \<not> rn_background n then False
       else \<not> (nf_has_run (rn_base n) \<and> q_version q = rn_last_seen_version n)) }"

text \<open>Where a row is after the changes of its table: \<open>npos\<close> if it has been deleted.\<close>

definition moved_row :: "mv list \<Rightarrow> size_t \<Rightarrow> size_t" where
  "moved_row ms r = (case dropWhile (\<lambda>m. mv_from m < r) ms of
     [] \<Rightarrow> npos | m # _ \<Rightarrow> if mv_from m = r then mv_to m else npos)"

definition translate_row :: "bool \<Rightarrow> change_builder \<Rightarrow> size_t \<Rightarrow> size_t option" where
  "translate_row dbg c r = do {
     deleted \<leftarrow> contains dbg (deletions c) r;
     (if deleted then Some (moved_row (moves c) r)
      else do { u \<leftarrow> unshift dbg (deletions c) r; Some (shift (insertions c) u) }) }"

definition query_table_changes :: "query_state \<Rightarrow> transaction_change_info \<Rightarrow> results_notifier \<Rightarrow> change_builder option" where
  "query_table_changes q info n = (if q_table_ndx q = npos then Some (rn_changes n)
     else if q_table_ndx q < length (info_tables info) then Some (info_tables info ! q_table_ndx q) else None)"

definition calculate_changes :: "bool \<Rightarrow> query_state \<Rightarrow> transaction_change_info \<Rightarrow> (size_t \<Rightarrow> bool)
    \<Rightarrow> size_t list \<Rightarrow> results_notifier \<Rightarrow> results_notifier option" where
  "calculate_changes dbg q info row_did_change next_rows n =
     (if nf_has_run (rn_base n) \<and> nf_have_callbacks (rn_base n) then do {
        (previous_rows, move_candidates) \<leftarrow> (case query_table_changes q info n of
            None \<Rightarrow> Some (rn_previous_rows n, None)
          | Some changes \<Rightarrow> do {
              rows \<leftarrow> map_opt (translate_row dbg changes) (rn_previous_rows n);
              Some (rows, if rn_in_table_order n \<and> \<not> rn_will_sort n then Some (insertions changes) else None) });
        changes \<leftarrow> calculate dbg previous_rows next_rows row_did_change move_candidates;
        Some (n\<lparr>rn_changes := changes, rn_previous_rows := next_rows\<rparr>) }
      else Some (n\<lparr>rn_previous_rows := next_rows\<rparr>))"

definition results_run :: "bool \<Rightarrow> query_state \<Rightarrow> transaction_change_info \<Rightarrow> (size_t \<Rightarrow> bool) \<Rightarrow> results_notifier
    \<Rightarrow> results_notifier option" where
  "results_run dbg q info row_did_change n =
     (if \<not> q_attached q then do {
        del \<leftarrow> set_len dbg [] (length (rn_previous_rows n));
        Some (n\<lparr>rn_changes := cb_nil\<lparr>deletions := del\<rparr>, rn_previous_rows := []\<rparr>) }
      else do {
        needed \<leftarrow> need_to_run q n;
        if \<not> needed then Some n
        else calculate_changes dbg q info row_did_change (q_rows q)
          (n\<lparr>rn_tv := Some (q_rows q), rn_last_seen_version := q_version q\<rparr>) })"

text \<open>Both ways through \<open>do_prepare_handover\<close> end with \<open>add_changes\<close>, which empties the changes.\<close>

definition results_prepare_handover :: "bool \<Rightarrow> nat \<Rightarrow> results_notifier \<Rightarrow> results_notifier option" where
  "results_prepare_handover dbg version n = do {
     let n = (case rn_tv n of
         None \<Rightarrow> n\<lparr>rn_tv_handover := map_option (\<lambda>h. (fst h, version)) (rn_tv_handover n)\<rparr>
       | Some rows \<Rightarrow> n\<lparr>rn_tv_handover := Some (rows, version)\<rparr>);
     base \<leftarrow> prepare_handover dbg version (rn_changes n) (rn_base n);
     Some (n\<lparr>rn_base := base, rn_changes := moved_from (rn_changes n), rn_tv := None\<rparr>) }"

definition results_prepare_to_deliver :: "results_notifier \<Rightarrow> bool \<times> results_notifier" where
  "results_prepare_to_deliver n =
     (if \<not> nf_realm (rn_base n) then (False, n)
      else (True, n\<lparr>rn_tv_to_deliver := rn_tv_handover n, rn_tv_handover := None\<rparr>))"

definition results_deliver :: "results_notifier \<Rightarrow> results_notifier option" where
  "results_deliver n =
     (if \<not> nf_realm (rn_base n) then Some n
      else do {
        realm_assert (\<not> rn_query_handover n);
        Some (case rn_tv_to_deliver n of None \<Rightarrow> n
          | Some (rows, _) \<Rightarrow> n\<lparr>rn_target := Some rows, rn_tv_to_deliver := None\<rparr>) })"

definition results_attach_to :: "results_notifier \<Rightarrow> results_notifier option" where
  "results_attach_to n = do {
     base \<leftarrow> attach_to (rn_base n);
     realm_assert (rn_query_handover n);
     Some (n\<lparr>rn_base := base, rn_query := True, rn_query_handover := False\<rparr>) }"

definition results_detach_from :: "results_notifier \<Rightarrow> results_notifier option" where
  "results_detach_from n = do {
     realm_assert (nf_sg (rn_base n));
     realm_assert (rn_query n);
     realm_assert (rn_tv n = None);
     base \<leftarrow> detach (rn_base n);
     Some (n\<lparr>rn_base := base, rn_query_handover := True, rn_query := False\<rparr>) }"

subsection \<open>Lists of links\<close>

text \<open>The rows that the list links to while it is attached.\<close>

record list_notifier =
  ln_prev_size :: nat
  ln_change :: change_builder

definition list_notifier_new :: "size_t list \<Rightarrow> list_notifier" where
  "list_notifier_new rows = \<lparr>ln_prev_size = length rows, ln_change = cb_nil\<rparr>"

definition list_add_required_change_info ::
    "nat \<Rightarrow> size_t \<times> size_t \<times> size_t \<Rightarrow> bool \<Rightarrow> transaction_change_info \<Rightarrow> bool \<times> transaction_change_info" where
  "list_add_required_change_info b container attached info =
     (if \<not> attached then (False, info)
      else case container of (t, r, k) \<Rightarrow>
        (True, info\<lparr>info_lists := info_lists info @ [\<lparr>table_ndx = t, row_ndx = r, col_ndx = k, list_changes = b\<rparr>]\<rparr>))"

text \<open>The body of the two loops: the row at position \<open>i\<close> of the list.\<close>

definition add_modified_link :: "bool \<Rightarrow> size_t list \<Rightarrow> (size_t \<Rightarrow> bool) \<Rightarrow> size_t \<Rightarrow> index_set \<Rightarrow> index_set option" where
  "add_modified_link dbg rows row_did_change i modified = do {
     known \<leftarrow> contains dbg modified i;
     (if known then Some modified
      else do {
        realm_assert (i < length rows);
        (if row_did_change (rows ! i) then add dbg modified i else Some modified) }) }"

definition list_run :: "bool \<Rightarrow> size_t list option \<Rightarrow> (size_t \<Rightarrow> bool) \<Rightarrow> list_notifier \<Rightarrow> list_notifier option" where
  "list_run dbg list row_did_change n =
     (case list of
        None \<Rightarrow>
          (if ln_prev_size n \<noteq> 0 then do {
             del \<leftarrow> set_len dbg (deletions (ln_change n)) (ln_prev_size n);
             Some (n\<lparr>ln_change := (ln_change n)\<lparr>deletions := del\<rparr>, ln_prev_size := 0\<rparr>) }
           else Some (n\<lparr>ln_change := cb_nil\<rparr>))
      | Some rows \<Rightarrow> do {
          modif \<leftarrow> fold_opt (add_modified_link dbg rows row_did_change) [0..<length rows] (modifications (ln_change n));
          modif \<leftarrow> fold_opt (add_modified_link dbg rows row_did_change) (map mv_to (moves (ln_change n))) modif;
          Some (n\<lparr>ln_change := (ln_change n)\<lparr>modifications := modif\<rparr>, ln_prev_size := length rows\<rparr>) })"

text \<open>A list of links or of values.\<close>

definition list_prepare_handover :: "bool \<Rightarrow> nat \<Rightarrow> collection_notifier \<times> list_notifier
    \<Rightarrow> (collection_notifier \<times> list_notifier) option" where
  "list_prepare_handover dbg version = (\<lambda>(base, n). do {
     base \<leftarrow> prepare_handover dbg version (ln_change n) base;
     Some (base, n\<lparr>ln_change := moved_from (ln_change n)\<rparr>) })"

subsection \<open>Lists of primitive values\<close>

text \<open>The observer records the clearing of a table of unknown size as deletions up to the greatest index.\<close>

definition primitive_run :: "bool \<Rightarrow> nat option \<Rightarrow> list_notifier \<Rightarrow> list_notifier option" where
  "primitive_run dbg values n =
     (case values of
        None \<Rightarrow>
          (if ln_prev_size n \<noteq> 0 then do {
             del \<leftarrow> set_len dbg (deletions (ln_change n)) (ln_prev_size n);
             Some (n\<lparr>ln_change := (ln_change n)\<lparr>deletions := del\<rparr>, ln_prev_size := 0\<rparr>) }
           else Some (n\<lparr>ln_change := cb_nil\<rparr>))
      | Some n_values \<Rightarrow> do {
          n \<leftarrow> (if ranges (deletions (ln_change n)) \<noteq> [] \<and> snd (hd (ranges (deletions (ln_change n)))) = npos
                then do {
                  del \<leftarrow> set_len dbg (deletions (ln_change n)) (ln_prev_size n);
                  Some (n\<lparr>ln_change := (ln_change n)\<lparr>deletions := del\<rparr>\<rparr>) }
                else Some n);
          Some (n\<lparr>ln_prev_size := n_values\<rparr>) })"

subsection \<open>Objects\<close>

text \<open>The row is \<open>None\<close> once the notifier has let it go; otherwise it is attached with the index of its table and
  its own, or it has been deleted.\<close>

record object_notifier =
  on_row :: bool
  on_change :: change_builder

definition object_add_required_change_info ::
    "(size_t \<times> size_t) option \<Rightarrow> transaction_change_info \<Rightarrow> object_notifier \<Rightarrow> transaction_change_info" where
  "object_add_required_change_info attached info n =
     (case attached of
        Some (table, _) \<Rightarrow> if on_row n then info\<lparr>table_modifications_needed :=
            (resize_flags table (table_modifications_needed info))[table := True]\<rparr> else info
      | None \<Rightarrow> info)"

definition object_column :: "bool \<Rightarrow> size_t \<Rightarrow> index_set \<Rightarrow> index_set option" where
  "object_column dbg row modified = do {
     changed \<leftarrow> contains dbg modified row;
     (if changed then add dbg [] 0 else Some []) }"

definition object_run :: "bool \<Rightarrow> (size_t \<times> size_t) option \<Rightarrow> transaction_change_info \<Rightarrow> object_notifier
    \<Rightarrow> object_notifier option" where
  "object_run dbg attached info n =
     (if \<not> on_row n then Some n
      else case attached of
        None \<Rightarrow> do {
          del \<leftarrow> add dbg (deletions (on_change n)) 0;
          Some (n\<lparr>on_change := (on_change n)\<lparr>deletions := del\<rparr>, on_row := False\<rparr>) }
      | Some (table, row) \<Rightarrow>
          (if table \<ge> length (info_tables info) then Some n
           else do {
             let change = info_tables info ! table;
             changed \<leftarrow> contains dbg (modifications change) row;
             (if \<not> changed then Some n
              else do {
                modif \<leftarrow> add dbg (modifications (on_change n)) 0;
                cols \<leftarrow> map_opt (object_column dbg row) (columns change);
                Some (n\<lparr>on_change := (on_change n)\<lparr>modifications := modif,
                  columns := columns (on_change n) @ cols\<rparr>\<rparr>) }) }))"

definition object_prepare_handover :: "bool \<Rightarrow> nat \<Rightarrow> collection_notifier \<times> object_notifier
    \<Rightarrow> (collection_notifier \<times> object_notifier) option" where
  "object_prepare_handover dbg version = (\<lambda>(base, n). do {
     base \<leftarrow> prepare_handover dbg version (on_change n) base;
     Some (base, n\<lparr>on_change := moved_from (on_change n)\<rparr>) })"

end
