(* ===== verification/Results_Claims.thy ===== *)
theory Results_Claims
  imports Notifier_Runs Change_Unsorted Change_Properties "HOL-Library.Code_Target_Nat"
begin

section \<open>Properties of what the notifiers find out\<close>

text \<open>
  A notifier for results translates the rows that its query had found to where they are after the changes of the
  table, and compares them with the rows that the query finds now. A notifier for a list adds the positions of linked
  rows that have changed to what the observer of the log has recorded.
\<close>

subsection \<open>Where the rows of a table are\<close>

lemma moved_row_ok:
  assumes "sorted (map mv_from ms)" "distinct (map mv_from ms)"
  shows "(\<exists>m\<in>set ms. mv_from m = r \<and> moved_row ms r = mv_to m) \<or> (r \<notin> mv_from ` set ms \<and> moved_row ms r = npos)"
  using assms
proof (induction ms)
  case (Cons m ms)
  consider "mv_from m < r" | "mv_from m = r" | "r < mv_from m" by linarith
  then show ?case
  proof cases
    case 1
    then have "moved_row (m # ms) r = moved_row ms r" by (simp add: moved_row_def)
    then show ?thesis using Cons 1 by auto
  next
    case 3
    then have "r \<notin> mv_from ` set (m # ms)" using Cons.prems(1) by auto
    then show ?thesis using 3 by (simp add: moved_row_def)
  qed (simp add: moved_row_def)
qed (simp add: moved_row_def)

text \<open>\<open>row_translated c xs ys i j\<close>: row \<open>i\<close> of the old table is row \<open>j\<close> of the new one, or \<open>j\<close> is \<open>npos\<close>.\<close>

definition row_translated :: "change_builder \<Rightarrow> ('k \<times> 'v) list \<Rightarrow> ('k \<times> 'v) list \<Rightarrow> size_t \<Rightarrow> size_t \<Rightarrow> bool" where
  "row_translated c xs ys i j \<longleftrightarrow> j \<noteq> npos \<longrightarrow> j < length ys \<and> fst (xs ! i) = fst (ys ! j)
     \<and> (if j \<in> idx (insertions c) then (i, j) \<in> mv_pairs (moves c) else corr (idx (deletions c)) (idx (insertions c)) i j)"

lemma translate_row_ok:
  assumes "describes dbg c xs ys" "sorted (map mv_from (moves c))" "i < length xs"
  shows "succeeds (translate_row dbg c i) (row_translated c xs ys i)"
proof -
  let ?D = "idx (deletions c)" and ?I = "idx (insertions c)"
  have ok: "crv_ok dbg (deletions c)" "crv_ok dbg (insertions c)" using assms(1) by (auto simp: describes_def cb_ok_def)
  have fits: "fits ?D ?I (move_pairs c) (length xs) (length ys)"
    and same: "same fst {} (pairs ?D ?I (move_pairs c) (length xs) (length ys)) xs ys"
    using assms(1) by (auto simp: describes_def tracks_def)
  have pair: "fst (xs ! i) = fst (ys ! j)" if "j < length ys" "corr ?D ?I i j \<or> (i, j) \<in> move_pairs c" for j
    using same that assms(3) by (auto simp: same_def pairs_def)
  show ?thesis
  proof (cases "i \<in> ?D")
    case True
    then have t: "translate_row dbg c i = Some (moved_row (moves c) i)"
      using contains_ok [OF ok(1)] by (simp add: translate_row_def)
    have "distinct (map mv_from (moves c))" using assms(1) by (simp add: describes_def moves_ok_def)
    from moved_row_ok [OF assms(2) this, of i] consider m where "m \<in> set (moves c)" "mv_from m = i" "moved_row (moves c) i = mv_to m"
      | "moved_row (moves c) i = npos" by auto
    then have "row_translated c xs ys i (moved_row (moves c) i)"
    proof cases
      case 1
      then have p: "(i, mv_to m) \<in> mv_pairs (moves c)" "(i, mv_to m) \<in> move_pairs c"
        by (auto simp: mv_pairs_def move_pairs_def)
      then have "mv_to m \<in> ?I" "mv_to m < length ys" using fits by (auto simp: fits_def)
      then show ?thesis using 1(3) p pair by (simp add: row_translated_def)
    qed (simp add: row_translated_def)
    then show ?thesis using t by simp
  next
    case False
    let ?j = "shift_of ?I (unshift_of ?D i)"
    have fin: "finite ?I" using fits_finite [OF fits] by simp
    have c: "corr ?D ?I i ?j" using corr_shift [OF fin False] by simp
    have "contains dbg (deletions c) i = Some False" using contains_ok [OF ok(1)] False by simp
    then have "translate_row dbg c i = Some ?j"
      using unshift_ok [OF ok(1)] False shift_ok [OF ok(2)] by (simp add: translate_row_def)
    moreover have "?j < length ys" using fits_corr_less [OF fits c] assms(3) by simp
    moreover have "?j \<notin> ?I" using c by (simp add: corr_def)
    ultimately show ?thesis using c pair by (simp add: row_translated_def)
  qed
qed

lemma map_opt_ok:
  "(\<And>x. x \<in> set xs \<Longrightarrow> succeeds (f x) (P x)) \<Longrightarrow> succeeds (map_opt f xs) (\<lambda>ys. list_all2 P xs ys)"
proof (induction xs)
  case (Cons x xs)
  from Cons.prems [of x] obtain y where y: "f x = Some y" "P x y" by (auto elim: succeedsE)
  have "succeeds (map_opt f xs) (list_all2 P xs)" by (rule Cons.IH) (simp add: Cons.prems)
  with y show ?case by (auto elim!: succeeds_mono)
qed simp

lemma distinct_filterI:
  "(\<And>i j. i < length xs \<Longrightarrow> j < length xs \<Longrightarrow> xs ! i = xs ! j \<Longrightarrow> P (xs ! i) \<Longrightarrow> i = j) \<Longrightarrow> distinct (filter P xs)"
proof (induction xs)
  case (Cons x xs)
  have "distinct (filter P xs)"
    by (rule Cons.IH) (use Cons.prems [of "Suc _" "Suc _"] in auto)
  moreover have "x \<notin> set xs" if "P x"
  proof
    assume "x \<in> set xs"
    then obtain k where "k < length xs" "xs ! k = x" by (auto simp: in_set_conv_nth)
    then show False using Cons.prems [of 0 "Suc k"] that by simp
  qed
  ultimately show ?case by auto
qed simp

lemma translated_distinct:
  assumes "list_all2 (row_translated c xs ys) prev prev'" "distinct (map fst xs)" "distinct prev" "set prev \<subseteq> {..<length xs}"
  shows "distinct (filter (\<lambda>r. r \<noteq> npos) prev')"
proof (rule distinct_filterI)
  fix i j assume a: "i < length prev'" "j < length prev'" "prev' ! i = prev' ! j" "prev' ! i \<noteq> npos"
  have len: "length prev = length prev'" using assms(1) by (rule list_all2_lengthD)
  have "fst (xs ! (prev ! i)) = fst (xs ! (prev ! j))"
    using list_all2_nthD2 [OF assms(1) a(1)] list_all2_nthD2 [OF assms(1) a(2)] a(3,4) by (simp add: row_translated_def)
  moreover have "prev ! i < length xs" "prev ! j < length xs" using a(1,2) len assms(4) nth_mem by (metis lessThan_iff subsetD)+
  ultimately have "prev ! i = prev ! j" using assms(2) by (metis length_map nth_eq_iff_index_eq nth_map)
  then show "i = j" using assms(3) a(1,2) len by (simp add: nth_eq_iff_index_eq)
qed

subsection \<open>The change set of the results\<close>

text \<open>The change set leads from the old rows to the new ones, \<open>rows\<close> being where the new ones are in their table.\<close>

definition results_reported :: "(size_t \<Rightarrow> bool) \<Rightarrow> 'k list \<Rightarrow> 'k list \<Rightarrow> size_t list \<Rightarrow> change_builder \<Rightarrow> bool" where
  "results_reported changed old new rows c \<longleftrightarrow>
     idx (deletions c) \<subseteq> {..<length old} \<and> idx (insertions c) \<subseteq> {..<length new}
     \<and> without (idx (deletions c)) old = without (idx (insertions c)) new
     \<and> {i. i < length old \<and> old ! i \<notin> set new} \<subseteq> idx (deletions c)
     \<and> {j. j < length new \<and> new ! j \<notin> set old} \<subseteq> idx (insertions c)
     \<and> (\<forall>mv\<in>set (moves c). mv_from mv \<in> idx (deletions c) \<and> mv_to mv \<in> idx (insertions c) \<and> old ! mv_from mv = new ! mv_to mv)
     \<and> {j. j < length new \<and> j \<notin> idx (insertions c) \<and> changed (rows ! j)} \<subseteq> idx (modifications c)
     \<and> idx (modifications c) \<subseteq> {j. j < length new \<and> new ! j \<in> set old \<and> changed (rows ! j)}"

lemma leads_to_reported:
  assumes l: "leads_to changed prev' ns r" and f: "list_all2 (row_translated c xs ys) prev prev'" and ns: "npos \<notin> set ns"
  shows "results_reported changed (map (\<lambda>i. fst (xs ! i)) prev) (map (\<lambda>j. fst (ys ! j)) ns) ns r"
proof -
  let ?D = "idx (deletions r)" and ?I = "idx (insertions r)"
  let ?old = "map (\<lambda>i. fst (xs ! i)) prev" and ?new = "map (\<lambda>j. fst (ys ! j)) ns"
  have len: "length prev = length prev'" using f by (rule list_all2_lengthD)
  have key: "?old ! i = fst (ys ! (prev' ! i))" if "i < length prev" "prev' ! i \<noteq> npos" for i
    using list_all2_nthD [OF f that(1)] that by (simp add: row_translated_def)
  have kept: "prev' ! i \<noteq> npos" if "i < length prev'" "i \<notin> ?D" for i
  proof -
    have "prev' ! i \<in> set ns" using l that by (auto simp: leads_to_def)
    then show ?thesis using ns by metis
  qed
  have lt: "?D \<subseteq> {..<length prev}" "?I \<subseteq> {..<length ns}" "without ?D prev' = without ?I ns"
    "idx (modifications r) = {j. j < length ns \<and> ns ! j \<in> set prev' \<and> changed (ns ! j)}"
    "{i. i < length prev' \<and> prev' ! i \<notin> set ns} \<subseteq> ?D" "{j. j < length ns \<and> ns ! j \<notin> set prev'} \<subseteq> ?I"
    and mvs: "\<forall>mv\<in>set (moves r). mv_from mv \<in> ?D \<and> mv_to mv \<in> ?I \<and> prev' ! mv_from mv = ns ! mv_to mv"
    using l len by (auto simp: leads_to_def)
  have in_old: "?new ! j \<in> set ?old" if "j < length ns" "ns ! j \<in> set prev'" for j
  proof -
    from that(2) obtain i where i: "i < length prev'" "prev' ! i = ns ! j" by (auto simp: in_set_conv_nth)
    have "ns ! j \<noteq> npos" using ns that(1) nth_mem by metis
    then have "?old ! i = ?new ! j" using key [of i] i len that(1) by simp
    then show ?thesis using i(1) len by (metis length_map nth_mem)
  qed
  have in_new: "?old ! i \<in> set ?new" if "i < length prev" "prev' ! i \<in> set ns" for i
  proof -
    have "prev' ! i \<noteq> npos" using ns that(2) by metis
    then have "?old ! i = fst (ys ! (prev' ! i))" using key that(1) by blast
    then show ?thesis using that(2) by simp
  qed
  have "nths ?old (- ?D) = nths (map (\<lambda>j. fst (ys ! j)) prev') (- ?D)"
    unfolding nths_positions length_map len using key kept len by (intro map_cong refl) auto
  then have "without ?D ?old = map (\<lambda>j. fst (ys ! j)) (without ?D prev')" by (simp add: without_def nths_map)
  also have "\<dots> = without ?I ?new" by (simp only: lt(3)) (simp add: without_def nths_map)
  finally have same: "without ?D ?old = without ?I ?new" .
  have moved: "mv_from mv \<in> ?D \<and> mv_to mv \<in> ?I \<and> ?old ! mv_from mv = ?new ! mv_to mv" if "mv \<in> set (moves r)" for mv
  proof -
    have m: "mv_from mv \<in> ?D" "mv_to mv \<in> ?I" "prev' ! mv_from mv = ns ! mv_to mv" using mvs that by auto
    then have b: "mv_from mv < length prev" "mv_to mv < length ns" using lt(1,2) by auto
    then have "ns ! mv_to mv \<noteq> npos" using ns nth_mem by metis
    then have "?old ! mv_from mv = ?new ! mv_to mv" using key [OF b(1)] m(3) b(2) by simp
    then show ?thesis using m by blast
  qed
  show ?thesis unfolding results_reported_def
  proof (intro conjI)
    show "{i. i < length ?old \<and> ?old ! i \<notin> set ?new} \<subseteq> ?D" using in_new lt(5) len by (auto simp del: nth_map set_map)
    show "{j. j < length ?new \<and> ?new ! j \<notin> set ?old} \<subseteq> ?I" using in_old lt(6) by (auto simp del: nth_map set_map)
    show "{j. j < length ?new \<and> j \<notin> ?I \<and> changed (ns ! j)} \<subseteq> idx (modifications r)"
      unfolding lt(4) using lt(6) by auto
    show "idx (modifications r) \<subseteq> {j. j < length ?new \<and> ?new ! j \<in> set ?old \<and> changed (ns ! j)}"
      unfolding lt(4) using in_old by (auto simp del: nth_map set_map)
  qed (use lt(1,2) same moved in simp_all)
qed

text \<open>The rows that the table has moved were behind those that have stayed.\<close>

definition moved_behind :: "change_builder \<Rightarrow> nat \<Rightarrow> bool" where
  "moved_behind c n \<longleftrightarrow> (\<forall>m\<in>set (moves c). \<forall>i<n. i \<notin> idx (deletions c) \<longrightarrow> i < mv_from m)"

lemma calculate_translated_ok:
  assumes c: "describes dbg c xs ys" and f: "list_all2 (row_translated c xs ys) prev prev'"
    and d: "distinct (map fst xs)" "distinct prev" "set prev \<subseteq> {..<length xs}" "length xs < npos"
    and ns: "distinct ns" "set ns \<subseteq> {..<length ys}" "length ys < npos"
    and order: "cand \<Longrightarrow> sorted prev \<and> sorted ns \<and> moved_behind c (length xs)"
  shows "succeeds (calculate dbg prev' ns changed (if cand then Some (insertions c) else None)) (leads_to changed prev' ns)"
proof -
  have len: "length prev' = length prev" using f list_all2_lengthD by fastforce
  have short: "length prev' < npos" "length ns < npos"
  proof -
    have "card (set prev) \<le> card {..<length xs}" "card (set ns) \<le> card {..<length ys}"
      using d(3) ns(2) by (simp_all only: card_mono finite_lessThan)
    then show "length prev' < npos" "length ns < npos" using d(2,4) ns(1,3) len by (simp_all add: distinct_card)
  qed
  have np: "npos \<notin> set ns" using ns(2,3) by auto
  note dist = translated_distinct [OF f d(1-3)]
  show ?thesis
  proof (cases cand)
    case False
    show ?thesis using calculate_sorted_ok [OF dist ns(1) np short, of dbg changed] False by (auto elim: succeeds_mono)
  next
    case True
    note o = order [OF True]
    have ok: "crv_ok dbg (insertions c)" using c by (simp add: describes_def cb_ok_def)
    have fits: "fits (idx (deletions c)) (idx (insertions c)) (move_pairs c) (length xs) (length ys)"
      using c by (simp add: describes_def tracks_def)
    have at: "row_translated c xs ys (prev ! i) (prev' ! i)" if "i < length prev'" for i using list_all2_nthD2 [OF f that] .
    have in_ns: "r \<noteq> npos" if "r \<in> set ns" for r using that np by metis
    have less: "i < k" if "prev ! i < prev ! k" "i < length prev'" "k < length prev'" for i k
    proof (rule ccontr)
      assume "\<not> i < k"
      then have "prev ! k \<le> prev ! i" using o that(2,3) len by (simp add: sorted_nth_mono)
      then show False using that(1) by simp
    qed
    have stay: "corr (idx (deletions c)) (idx (insertions c)) (prev ! i) (prev' ! i)"
      if "i < length prev'" "prev' ! i \<in> set ns - idx (insertions c)" for i
      using at [OF that(1)] that(2) in_ns by (auto simp: row_translated_def)
    show ?thesis
    proof (simp add: True, rule calculate_unsorted_ok [OF dist ns(1) np short(1) _ ok])
      show "sorted ns" using o by simp
      fix i k assume ik: "i < length prev'" "k < length prev'" and i: "prev' ! i \<in> set ns - idx (insertions c)"
      show "i < k" if "prev' ! k \<in> set ns \<inter> idx (insertions c)"
      proof (rule less [OF _ ik])
        have "(prev ! k, prev' ! k) \<in> mv_pairs (moves c)" using at [OF ik(2)] that in_ns by (auto simp: row_translated_def)
        then obtain m where "m \<in> set (moves c)" "mv_from m = prev ! k" by (auto simp: mv_pairs_def)
        moreover have "prev ! i \<notin> idx (deletions c)" using stay [OF ik(1) i] by (simp add: corr_def)
        moreover have "prev ! i < length xs" using d(3) ik(1) len nth_mem by (metis lessThan_iff subsetD)
        ultimately show "prev ! i < prev ! k" using o unfolding moved_behind_def by metis
      qed
      show "i < k" if "prev' ! k \<in> set ns - idx (insertions c)" "prev' ! i < prev' ! k"
        using less [OF _ ik] corr_mono [OF stay [OF ik(1) i] stay [OF ik(2) that(1)]] that(2) by blast
    qed
  qed
qed


text \<open>What the observer holds of a table after operations on it.\<close>

lemma table_observed:
  assumes "row_sim.enabled ops xs" "fold_opt (row_step dbg) ops cb_nil = Some c" "parse_complete dbg c = Some c'"
  shows "describes dbg c' xs (fold row_spec ops xs) \<and> sorted (map mv_from (moves c'))"
proof -
  have "row_inv dbg xs c (fold row_spec ops xs)"
    using row_sim.run_ok [OF row_inv_nil assms(1), of dbg] assms(2) by (simp add: succeeds_def)
  then have "describes dbg c xs (fold row_spec ops xs)" "moves c = []" "stays c (length xs)" by (simp_all add: row_inv_def)
  from parse_complete_ok [OF this] assms(3) show ?thesis by (simp add: succeeds_def)
qed

text \<open>Row 0 of four rows is deleted, the last row takes its place; the query had the rows 0, 1 and 3.\<close>

definition four_rows :: "(nat \<times> nat) list" where
  "four_rows = [(10, 0), (11, 0), (12, 0), (13, 0)]"

definition row_deleted :: change_builder where
  "row_deleted = the (parse_complete True (the (fold_opt (row_step True) [Row_move_over 0 3 :: (nat, nat) row_op] cb_nil)))"

definition example_results :: results_notifier where
  "example_results = (results_notifier_new 1 True False False)
     \<lparr>rn_base := (collection_notifier_new 1)\<lparr>nf_has_run := True, nf_have_callbacks := True\<rparr>, rn_info := True,
      rn_previous_rows := [0, 1, 3]\<rparr>"

definition example_query :: query_state where
  "example_query = \<lparr>q_attached = True, q_table_ndx = 0, q_container = (0, 0, 0), q_version = 1, q_rows = [0, 1]\<rparr>"

declare npos_def [code]


subsection \<open>Lists\<close>

lemma add_modified_links_ok:
  "crv_ok dbg m \<Longrightarrow> set is \<subseteq> {..<length rows} \<Longrightarrow>
    succeeds (fold_opt (add_modified_link dbg rows changed) is m)
      (\<lambda>m'. crv_ok dbg m' \<and> idx m' = idx m \<union> {i \<in> set is. changed (rows ! i)})"
proof (induction "is" arbitrary: m)
  case (Cons i "is")
  have step: "succeeds (add_modified_link dbg rows changed i m)
      (\<lambda>m'. crv_ok dbg m' \<and> idx m' = idx m \<union> {j \<in> {i}. j \<in> idx m \<or> changed (rows ! j)})"
    using contains_ok [OF Cons.prems(1), of i] add_succ [OF Cons.prems(1), of i] Cons.prems
    by (cases "i \<in> idx m") (auto simp: add_modified_link_def elim!: succeeds_mono)
  then obtain m1 where 1: "add_modified_link dbg rows changed i m = Some m1" "crv_ok dbg m1"
    "idx m1 = idx m \<union> {j \<in> {i}. j \<in> idx m \<or> changed (rows ! j)}" by (auto elim: succeedsE)
  from Cons.IH [OF 1(2)] Cons.prems(2) show ?case
    using 1(1,3) by (auto elim!: succeeds_mono)
qed simp

lemma more_modifications:
  assumes "describes dbg c xs ys" "crv_ok dbg m" "idx (modifications c) \<subseteq> idx m" "idx m \<subseteq> {..<length ys}"
  shows "describes dbg (c\<lparr>modifications := m\<rparr>) xs ys"
proof -
  have mp: "move_pairs (c\<lparr>modifications := m\<rparr>) = move_pairs c" by (simp add: move_pairs_def)
  show ?thesis
    using assms unfolding describes_def mp by (auto simp: cb_ok_def moves_ok_def same_def)
qed

text \<open>C32: a run of the notifier of a list that is attached returns, and keeps the right change set from the old list to
  the new one that the observer has recorded. To its modifications it adds exactly the positions of the links to rows
  that have changed.\<close>

theorem list_run_adds_changed_links:
  assumes "describes dbg (ln_change n) xs ys" "length rows = length ys"
  shows "\<exists>n'. list_run dbg (Some rows) changed n = Some n' \<and> ln_prev_size n' = length ys
    \<and> describes dbg (ln_change n') xs ys
    \<and> idx (modifications (ln_change n')) = idx (modifications (ln_change n)) \<union> {i. i < length ys \<and> changed (rows ! i)}"
proof -
  let ?c = "ln_change n"
  have ok: "crv_ok dbg (modifications ?c)" and to: "set (map mv_to (moves ?c)) \<subseteq> {..<length rows}"
    using assms by (auto simp: describes_def cb_ok_def tracks_def fits_def move_pairs_def)
  have all: "set [0..<length rows] \<subseteq> {..<length rows}" by auto
  from add_modified_links_ok [OF ok all, of changed] obtain m1 where
    1: "fold_opt (add_modified_link dbg rows changed) [0..<length rows] (modifications ?c) = Some m1" "crv_ok dbg m1"
      "idx m1 = idx (modifications ?c) \<union> {i \<in> set [0..<length rows]. changed (rows ! i)}" by (auto elim: succeedsE)
  from add_modified_links_ok [OF 1(2) to, of changed] obtain m2 where
    2: "fold_opt (add_modified_link dbg rows changed) (map mv_to (moves ?c)) m1 = Some m2" "crv_ok dbg m2"
      "idx m2 = idx m1 \<union> {i \<in> set (map mv_to (moves ?c)). changed (rows ! i)}" by (auto elim: succeedsE)
  have m: "idx m2 = idx (modifications ?c) \<union> {i. i < length ys \<and> changed (rows ! i)}"
    using 1(3) 2(3) to assms(2) by auto
  have "describes dbg (?c\<lparr>modifications := m2\<rparr>) xs ys"
    using m assms(1) by (intro more_modifications [OF assms(1) 2(2)]) (auto simp: describes_def)
  then show ?thesis using 1(1) 2(1) m assms(2) by (simp add: list_run_def)
qed

definition list_moved :: change_builder where
  "list_moved = the (fold_opt (list_step True) [List_move 0 2 :: (nat, nat) list_op, List_erase 0] cb_nil)"

theorem list_run_adds_changed_links_witness:
  "\<exists>n'. list_run True (Some [7, 5]) (\<lambda>r. r = 5) \<lparr>ln_prev_size = 3, ln_change = list_moved\<rparr> = Some n'
    \<and> describes True (ln_change n') [(1 :: nat, 0 :: nat), (2, 0), (3, 0)] [(3, 0), (1, 0)]
    \<and> idx (modifications (ln_change n')) = {1}"
proof -
  have "succeeds (fold_opt (list_step True) [List_move 0 2 :: (nat, nat) list_op, List_erase 0] cb_nil)
      (\<lambda>c. list_inv True [(1, 0), (2, 0), (3, 0)] c
         (fold list_spec [List_move 0 2, List_erase 0] [(1 :: nat, 0 :: nat), (2, 0), (3, 0)]))"
    by (rule list_sim.run_ok [OF list_inv_nil]) (simp add: move_list_def npos_def)
  then have d: "describes True list_moved [(1 :: nat, 0 :: nat), (2, 0), (3, 0)] [(3, 0), (1, 0)]"
    by (auto simp: list_moved_def list_inv_def move_list_def del_list_def ins_list_def elim!: succeedsE)
  have "idx (modifications list_moved) = {}" by code_simp
  moreover have "{i. i < length [(3 :: nat, 0 :: nat), (1, 0)] \<and> [7, 5] ! i = (5 :: nat)} = {1}"
    by (auto simp: less_Suc_eq)
  ultimately show ?thesis
    using list_run_adds_changed_links [of True "\<lparr>ln_prev_size = 3, ln_change = list_moved\<rparr>" _ _ "[7, 5]" "\<lambda>r. r = 5", OF _ _]
      d by fastforce
qed

text \<open>When a list is deleted after a row has been inserted, the run sets the deletions but keeps the insertion: the
  change set reports a row in a list that is gone.\<close>

lemma deleted_list_keeps_insertion:
  "map_option (\<lambda>n. (indexes (ranges (deletions (ln_change n))), indexes (ranges (insertions (ln_change n)))))
     (list_run True None (\<lambda>r. False) \<lparr>ln_prev_size = 1,
        ln_change = the (fold_opt (list_step True) [List_insert 1 [(2, 0)] :: (nat, nat) list_op] cb_nil)\<rparr>) = Some ([0], [1])"
  by code_simp

subsection \<open>Objects and lists of values\<close>

text \<open>The notifier of an object reports a modification, with its columns, exactly if the observer has one for the row.\<close>

lemma object_columns_ok:
  assumes "\<forall>col\<in>set cols. crv_ok dbg col"
  shows "succeeds (map_opt (object_column dbg row) cols) (\<lambda>cs. list_all2 (\<lambda>col c. idx c = (if row \<in> idx col then {0} else {})) cols cs)"
proof (rule map_opt_ok)
  fix col assume "col \<in> set cols"
  then have "contains dbg col row = Some (row \<in> idx col)" using assms contains_ok by blast
  then show "succeeds (object_column dbg row col) (\<lambda>c. idx c = (if row \<in> idx col then {0} else {}))"
    using add_succ [OF crv_ok_Nil, of dbg 0] by (auto simp: object_column_def elim!: succeeds_mono)
qed

lemma object_run_reports:
  assumes "on_row n" "on_change n = cb_nil" "table < length (info_tables info)" "cb_ok dbg (info_tables info ! table)"
  shows "succeeds (object_run dbg (Some (table, row)) info n) (\<lambda>n'. on_row n'
    \<and> idx (modifications (on_change n')) = (if row \<in> idx (modifications (info_tables info ! table)) then {0} else {})
    \<and> (row \<in> idx (modifications (info_tables info ! table)) \<longrightarrow>
        list_all2 (\<lambda>col c. idx c = (if row \<in> idx col then {0} else {})) (columns (info_tables info ! table)) (columns (on_change n'))))"
proof -
  let ?c = "info_tables info ! table"
  have ok: "contains dbg (modifications ?c) row = Some (row \<in> idx (modifications ?c))" "\<forall>col\<in>set (columns ?c). crv_ok dbg col"
    using assms(4) contains_ok by (auto simp: cb_ok_def)
  show ?thesis
  proof (cases "row \<in> idx (modifications ?c)")
    case True
    from add_succ [OF crv_ok_Nil, of dbg 0] obtain m where "add dbg [] 0 = Some m" "idx m = {0}" by (auto elim: succeedsE)
    moreover from object_columns_ok [OF ok(2), of row] obtain cs where
      "map_opt (object_column dbg row) (columns ?c) = Some cs"
      "list_all2 (\<lambda>col c. idx c = (if row \<in> idx col then {0} else {})) (columns ?c) cs" by (rule succeedsE)
    ultimately show ?thesis using assms(1-3) ok(1) True by (simp add: object_run_def Let_def cb_nil_def)
  next
    case False
    then show ?thesis using assms(1-3) ok(1) by (simp add: object_run_def Let_def cb_nil_def)
  qed
qed

text \<open>A list of values that was cleared is reported as the deletion of all values that it had at the previous run.\<close>

lemma primitive_run_cleared:
  assumes "ranges (deletions (ln_change n)) = [(0, npos)]"
  shows "succeeds (primitive_run dbg (Some k) n) (\<lambda>n'. ln_prev_size n' = k
    \<and> idx (deletions (ln_change n')) = {..<ln_prev_size n} \<and> insertions (ln_change n') = insertions (ln_change n))"
proof -
  from set_len_ok [of dbg "deletions (ln_change n)" "ln_prev_size n"] obtain del where
    "set_len dbg (deletions (ln_change n)) (ln_prev_size n) = Some del" "idx del = {..<ln_prev_size n}" by blast
  then show ?thesis using assms by (simp add: primitive_run_def)
qed

end
