(* ===== verification/Store_Apply.thy ===== *)
theory Store_Apply
  imports Store_Model
begin

section \<open>The object store: reading and changing the schema of a file\<close>

text \<open>
  How \<open>object_store.cpp\<close> reads the schema of a file, and how it applies the changes of a comparison in the
  modes of \<open>apply_schema_changes\<close>. The visitors named \<open>Applier\<close> are functions of a change and the file.
  \<open>TableHelper\<close> keeps the table of the last class; as no visitor removes a table, it is the lookup and its
  assertion.
\<close>

subsection \<open>The schema of a file\<close>

fun from_core_type :: "core_column \<Rightarrow> property_type option" where
  "from_core_type (Column name type nullable target indexed sub) =
     (let optional = if nullable then PT_Nullable else PT_Required in
      case type of
        type_Int \<Rightarrow> Some (PT_Int OR optional)
      | type_Float \<Rightarrow> Some (PT_Float OR optional)
      | type_Double \<Rightarrow> Some (PT_Double OR optional)
      | type_Bool \<Rightarrow> Some (PT_Bool OR optional)
      | type_String \<Rightarrow> Some (PT_String OR optional)
      | type_Binary \<Rightarrow> Some (PT_Data OR optional)
      | type_Timestamp \<Rightarrow> Some (PT_Date OR optional)
      | type_Mixed \<Rightarrow> Some (PT_Any OR optional)
      | type_Link \<Rightarrow> Some (PT_Object OR PT_Nullable)
      | type_LinkList \<Rightarrow> Some (PT_Object OR PT_Array)
      | type_Table \<Rightarrow> (case sub of [] \<Rightarrow> None | c # _ \<Rightarrow> map_option (\<lambda>t. t OR PT_Array) (from_core_type c))
      | type_OldDateTime \<Rightarrow> None)"

definition object_id_column_name :: string where "object_id_column_name = ''!OID''"

text \<open>The result is \<open>Some None\<close> for a column that is not a property.\<close>

definition property_for_column_index :: "'g core \<Rightarrow> 'g \<Rightarrow> string \<Rightarrow> size_t \<Rightarrow> property option option" where
  "property_for_column_index C g table col =
     (let c = table_columns C g table ! col in
      if enable_sync C \<and> cc_name c = object_id_column_name then Some None
      else if cc_type c = type_Table \<and> (length (cc_sub c) \<noteq> 1 \<or> cc_name (cc_sub c ! 0) \<noteq> array_column_name) then Some None
      else do {
        type \<leftarrow> from_core_type c;
        Some (Some \<lparr>prop_name = cc_name c, prop_type = type,
          object_type = (if pt_eq type PT_Object then object_type_for_table_name (cc_target c) else []),
          link_origin_property_name = [], is_primary = False, is_indexed = cc_indexed c, table_column = col\<rparr>) })"

definition object_schema_from_group :: "'g core \<Rightarrow> 'g \<Rightarrow> string \<Rightarrow> object_schema option" where
  "object_schema_from_group C g name = do {
     table \<leftarrow> table_for_object_type C g name;
     ps \<leftarrow> map_opt (property_for_column_index C g table) [0..<length (table_columns C g table)];
     Some (set_primary_key_property \<lparr>os_name = name, persisted_properties = List.map_filter id ps,
       computed_properties = [], primary_key = get_primary_key_for_object C g name\<rparr>) }"

definition schema_from_group :: "'g core \<Rightarrow> 'g \<Rightarrow> schema option" where
  "schema_from_group C g = do {
     types \<leftarrow> map_opt (object_schema_from_group C g)
       (filter (\<lambda>n. n \<noteq> []) (map object_type_for_table_name (table_names C g)));
     Some (schema_new types) }"

definition set_schema_columns :: "'g core \<Rightarrow> 'g \<Rightarrow> schema \<Rightarrow> schema" where
  "set_schema_columns C g s =
     map (\<lambda>os. case table_for_object_type C g (os_name os) of
         None \<Rightarrow> os
       | Some table \<Rightarrow> os\<lparr>persisted_properties :=
           map (\<lambda>p. p\<lparr>table_column := column_index (table_columns C g table) (prop_name p)\<rparr>)
             (persisted_properties os)\<rparr>) s"

definition delete_data_for_object :: "'g core \<Rightarrow> string \<Rightarrow> 'g \<Rightarrow> 'g option" where
  "delete_data_for_object C name g =
     (case table_for_object_type C g name of
        Some table \<Rightarrow> set_primary_key_for_object C name [] (remove_table C table g)
      | None \<Rightarrow> Some g)"

definition store_is_empty :: "'g core \<Rightarrow> 'g \<Rightarrow> bool" where
  "store_is_empty C g \<longleftrightarrow>
     (\<forall>table\<in>set (table_names C g).
        let name = object_type_for_table_name table
        in name = [] \<or> take 2 name = ''__'' \<or> table_size C g table = 0)"

subsection \<open>Applying changes\<close>

definition table_helper :: "'g core \<Rightarrow> object_schema \<Rightarrow> 'g \<Rightarrow> string option" where
  "table_helper C os g = table_for_object_type C g (os_name os)"

definition on_table :: "'g core \<Rightarrow> object_schema \<Rightarrow> (string \<Rightarrow> 'g \<Rightarrow> 'g option) \<Rightarrow> 'g \<Rightarrow> 'g option" where
  "on_table C os f g = do { table \<leftarrow> table_helper C os g; f table g }"

abbreviation index_op :: "'g core \<Rightarrow> (string \<Rightarrow> size_t \<Rightarrow> 'g \<Rightarrow> 'g) \<Rightarrow> object_schema \<Rightarrow> property \<Rightarrow> 'g \<Rightarrow> 'g option" where
  "index_op C f os p \<equiv> on_table C os (\<lambda>table g. Some (f table (table_column p) g))"

definition key_name :: "property option \<Rightarrow> string" where
  "key_name k = (case k of Some p \<Rightarrow> prop_name p | None \<Rightarrow> [])"

text \<open>The visitor of \<open>apply_non_migration_changes\<close> also collects the errors of its base class.\<close>

fun non_migration_applier :: "'g core \<Rightarrow> schema_change \<Rightarrow> 'g \<Rightarrow> 'g option" where
  "non_migration_applier C (AddTable t) g = create_table C t g"
| "non_migration_applier C (AddInitialProperties t) g = add_initial_columns C t g"
| "non_migration_applier C (AddIndex e p) g = index_op C (add_search_index C) e p g"
| "non_migration_applier C (RemoveIndex e p) g = index_op C (remove_search_index C) e p g"
| "non_migration_applier C _ g = Some g"

definition apply_non_migration_changes :: "'g core \<Rightarrow> schema_change list \<Rightarrow> 'g \<Rightarrow> (schema_exception + 'g) option" where
  "apply_non_migration_changes C changes g = do {
     g \<leftarrow> fold_opt (non_migration_applier C) changes g;
     case verify_no_errors SchemaMismatch explain_migration changes of
       Inl e \<Rightarrow> Some (Inl e) | Inr _ \<Rightarrow> Some (Inr g) }"

fun initial_applier :: "'g core \<Rightarrow> schema_change \<Rightarrow> 'g \<Rightarrow> 'g option" where
  "initial_applier C (AddTable t) g = create_table C t g"
| "initial_applier C (RemoveTable e) g = Some g"
| "initial_applier C (AddInitialProperties t) g = add_initial_columns C t g"
| "initial_applier C (AddProperty e p) g = on_table C e (\<lambda>table. add_column C table p) g"
| "initial_applier C (RemoveProperty e p) g = index_op C (table_remove_column C) e p g"
| "initial_applier C (MakePropertyNullable e p) g = on_table C e (\<lambda>table. make_property_optional C table p) g"
| "initial_applier C (MakePropertyRequired e p) g = on_table C e (\<lambda>table. make_property_required C table p) g"
| "initial_applier C (ChangePrimaryKey e k) g = set_primary_key_for_object C (os_name e) (key_name k) g"
| "initial_applier C (AddIndex e p) g = index_op C (add_search_index C) e p g"
| "initial_applier C (RemoveIndex e p) g = index_op C (remove_search_index C) e p g"
| "initial_applier C (ChangePropertyType e old new) g = on_table C e (\<lambda>table. replace_column C table old new) g"

definition create_initial_tables :: "'g core \<Rightarrow> schema_change list \<Rightarrow> 'g \<Rightarrow> 'g option" where
  "create_initial_tables C changes g = fold_opt (initial_applier C) changes g"

fun additive_applier :: "'g core \<Rightarrow> bool \<Rightarrow> schema_change \<Rightarrow> 'g \<Rightarrow> 'g option" where
  "additive_applier C update_indexes (AddTable t) g = create_table C t g"
| "additive_applier C update_indexes (AddInitialProperties t) g = add_initial_columns C t g"
| "additive_applier C update_indexes (AddProperty e p) g = on_table C e (\<lambda>table. add_column C table p) g"
| "additive_applier C update_indexes (AddIndex e p) g =
     (if update_indexes then index_op C (add_search_index C) e p g else Some g)"
| "additive_applier C update_indexes (RemoveIndex e p) g =
     (if update_indexes then index_op C (remove_search_index C) e p g else Some g)"
| "additive_applier C update_indexes _ g = Some g"

definition apply_additive_changes :: "'g core \<Rightarrow> schema_change list \<Rightarrow> bool \<Rightarrow> 'g \<Rightarrow> 'g option" where
  "apply_additive_changes C changes update_indexes g = fold_opt (additive_applier C update_indexes) changes g"

fun pre_migration_applier :: "'g core \<Rightarrow> schema_change \<Rightarrow> 'g \<Rightarrow> 'g option" where
  "pre_migration_applier C (AddTable t) g = create_table C t g"
| "pre_migration_applier C (RemoveTable e) g = Some g"
| "pre_migration_applier C (AddInitialProperties t) g = add_initial_columns C t g"
| "pre_migration_applier C (AddProperty e p) g = on_table C e (\<lambda>table. add_column C table p) g"
| "pre_migration_applier C (RemoveProperty e p) g = Some g"
| "pre_migration_applier C (ChangePropertyType e old new) g = on_table C e (\<lambda>table. replace_column C table old new) g"
| "pre_migration_applier C (MakePropertyNullable e p) g = on_table C e (\<lambda>table. make_property_optional C table p) g"
| "pre_migration_applier C (MakePropertyRequired e p) g = on_table C e (\<lambda>table. make_property_required C table p) g"
| "pre_migration_applier C (ChangePrimaryKey e k) g = set_primary_key_for_object C (os_name e) (key_name k) g"
| "pre_migration_applier C (AddIndex e p) g = index_op C (add_search_index C) e p g"
| "pre_migration_applier C (RemoveIndex e p) g = index_op C (remove_search_index C) e p g"

definition apply_pre_migration_changes :: "'g core \<Rightarrow> schema_change list \<Rightarrow> 'g \<Rightarrow> 'g option" where
  "apply_pre_migration_changes C changes g = fold_opt (pre_migration_applier C) changes g"

definition no_exception :: "'g option \<Rightarrow> (schema_exception + 'g) option" where
  "no_exception m = map_option Inr m"

fun post_migration_applier :: "'g core \<Rightarrow> schema \<Rightarrow> bool \<Rightarrow> schema_change \<Rightarrow> 'g \<Rightarrow> (schema_exception + 'g) option" where
  "post_migration_applier C initial reread (RemoveProperty e p) g = do {
     missing \<leftarrow> (if initial = [] then Some False
                 else map_option (\<lambda>os. property_for_name os (prop_name p) = None) (schema_find initial (os_name e)));
     if missing
     then Some (Inl (RenamedPropertyMissing (os_name e) (prop_name p)))
     else no_exception (do {
       table \<leftarrow> table_for_object_type C g (os_name e);
       Some (table_remove_column C table (table_column p) g) }) }"
| "post_migration_applier C initial reread (ChangePrimaryKey e k) g =
     (case k of
        Some p \<Rightarrow> do {
          r \<leftarrow> primary_column_unique C (os_name e) (prop_name p) g;
          case r of Inl e \<Rightarrow> Some (Inl e) | Inr _ \<Rightarrow> Some (Inr g) }
      | None \<Rightarrow> Some (Inr g))"
| "post_migration_applier C initial reread (AddTable t) g = no_exception (create_table C t g)"
| "post_migration_applier C initial reread (AddInitialProperties t) g =
     (if reread then no_exception (add_initial_columns C t g) else Some (Inr g))"
| "post_migration_applier C initial reread (AddIndex e p) g = no_exception (index_op C (add_search_index C) e p g)"
| "post_migration_applier C initial reread (RemoveIndex e p) g = no_exception (index_op C (remove_search_index C) e p g)"
| "post_migration_applier C initial reread _ g = Some (Inr g)"

fun apply_post_migration_changes ::
    "'g core \<Rightarrow> schema_change list \<Rightarrow> schema \<Rightarrow> bool \<Rightarrow> 'g \<Rightarrow> (schema_exception + 'g) option" where
  "apply_post_migration_changes C [] initial reread g = Some (Inr g)"
| "apply_post_migration_changes C (c # cs) initial reread g = do {
     r \<leftarrow> post_migration_applier C initial reread c g;
     case r of Inl e \<Rightarrow> Some (Inl e) | Inr g \<Rightarrow> apply_post_migration_changes C cs initial reread g }"

subsection \<open>Permissions\<close>

definition ensure_private_role_exists_for_user :: "'g core \<Rightarrow> string \<Rightarrow> 'g \<Rightarrow> 'g option" where
  "ensure_private_role_exists_for_user C user g = do {
     let private_role = ''__User:'' @ user;
     roles \<leftarrow> table_for_object_type C g ''__Role'';
     let role = find_first_string C g roles (column_index (table_columns C g roles) ''name'') private_role;
     if role \<noteq> npos then Some g
     else do {
       let g = add_user_to_role C user private_role g;
       let role = find_first_string C g roles (column_index (table_columns C g roles) ''name'') private_role;
       users \<leftarrow> table_for_object_type C g ''__User'';
       let row = find_first_string C g users (column_index (table_columns C g users) ''id'') user;
       Some (set_cell C users (column_index (table_columns C g users) ''role'') row (LinkValue role) g) } }"

fun permission_applier :: "'g core \<Rightarrow> schema_change \<Rightarrow> 'g \<Rightarrow> 'g" where
  "permission_applier C (AddTable t) g = set_class_permissions_for_role C (os_name t) ''everyone'' g"
| "permission_applier C _ g = g"

definition create_default_permissions :: "'g core \<Rightarrow> schema_change list \<Rightarrow> string \<Rightarrow> 'g \<Rightarrow> 'g option" where
  "create_default_permissions C changes user g =
     (if enable_sync C then do {
        let g = set_up_basic_permissions C (initialize_schema C g);
        let g = add_user_to_role C user ''everyone'' g;
        g \<leftarrow> ensure_private_role_exists_for_user C user g;
        Some (fold (permission_applier C) changes g) }
      else Some g)"

subsection \<open>Changing the schema of a file\<close>

datatype schema_mode = Automatic | Immutable | ReadOnlyAlternative | ResetFile | Additive | Manual

text \<open>
  A migration function may change the file and the columns of the target schema, and may throw. The
  result holds the file and the target schema, whose columns \<open>set_schema_columns\<close> updates.
\<close>

type_synonym 'g result = "(schema_exception + 'g \<times> schema) option"
type_synonym 'g migration = "'g \<times> schema \<Rightarrow> 'g result"

definition and_then :: "(schema_exception + 'a) option \<Rightarrow> ('a \<Rightarrow> (schema_exception + 'b) option) \<Rightarrow> (schema_exception + 'b) option" where
  "and_then m f = do { r \<leftarrow> m; case r of Inl e \<Rightarrow> Some (Inl e) | Inr x \<Rightarrow> f x }"

definition apply_manual :: "'g core \<Rightarrow> schema \<Rightarrow> 64 word \<Rightarrow> 'g migration option \<Rightarrow> 'g \<Rightarrow> 'g result" where
  "apply_manual C target target_version migration g =
     (let target = set_schema_columns C g target in
      and_then (case migration of Some f \<Rightarrow> f (g, target) | None \<Rightarrow> Some (Inr (g, target)))
        (\<lambda>(g, target). do {
           s \<leftarrow> schema_from_group C g;
           and_then (Some (verify_no_changes_required (schema_compare s target False)))
             (\<lambda>_. and_then (validate_primary_column_uniqueness C g)
               (\<lambda>_. let target = set_schema_columns C g target
                    in Some (Inr (set_schema_version_cell C target_version g, target)))) }))"

definition apply_migration :: "'g core \<Rightarrow> schema \<Rightarrow> 64 word \<Rightarrow> schema_change list \<Rightarrow> 'g migration option \<Rightarrow> 'g \<Rightarrow> 'g result" where
  "apply_migration C target target_version changes migration g = do {
     old_schema \<leftarrow> schema_from_group C g;
     g \<leftarrow> apply_pre_migration_changes C changes g;
     and_then
       (case migration of
          Some f \<Rightarrow>
            and_then (f (g, set_schema_columns C g target)) (\<lambda>(g, target). do {
              s \<leftarrow> schema_from_group C g;
              and_then (apply_post_migration_changes C (schema_compare s target False) old_schema True g)
                (\<lambda>g. and_then (validate_primary_column_uniqueness C g) (\<lambda>_. Some (Inr (g, target)))) })
        | None \<Rightarrow> and_then (apply_post_migration_changes C changes [] False g) (\<lambda>g. Some (Inr (g, target))))
       (\<lambda>(g, target). let g = set_schema_version_cell C target_version g
                      in Some (Inr (g, set_schema_columns C g target))) }"

definition apply_schema_changes :: "'g core \<Rightarrow> 64 word \<Rightarrow> schema \<Rightarrow> 64 word \<Rightarrow> schema_mode \<Rightarrow> schema_change list \<Rightarrow>
    string option \<Rightarrow> 'g migration option \<Rightarrow> 'g \<Rightarrow> 'g result" where
  "apply_schema_changes C schema_version target target_version mode changes user migration g =
     (let g = create_metadata_tables C g in
      if mode = Additive then do {
        g \<leftarrow> apply_additive_changes C changes True g;
        let g = (if schema_version < target_version \<or> schema_version = not_versioned
                 then set_schema_version_cell C target_version g else g);
        g \<leftarrow> (case user of Some u \<Rightarrow> create_default_permissions C changes u g | None \<Rightarrow> Some g);
        Some (Inr (g, set_schema_columns C g target)) }
      else if schema_version = not_versioned then do {
        g \<leftarrow> create_initial_tables C changes g;
        let g = set_schema_version_cell C target_version g;
        Some (Inr (g, set_schema_columns C g target)) }
      else if mode = Manual then apply_manual C target target_version migration g
      else if schema_version = target_version
      then and_then (apply_non_migration_changes C changes g) (\<lambda>g. Some (Inr (g, set_schema_columns C g target)))
      else apply_migration C target target_version changes migration g)"

subsection \<open>Renaming a property\<close>

definition update_class :: "string \<Rightarrow> (object_schema \<Rightarrow> object_schema) \<Rightarrow> schema \<Rightarrow> schema" where
  "update_class name f s = map (\<lambda>os. if os_name os = name then f os else os) s"

definition shift_renamed :: "size_t \<Rightarrow> size_t \<Rightarrow> property \<Rightarrow> property" where
  "shift_renamed removed renamed p =
     (if table_column p = removed then p\<lparr>table_column := renamed\<rparr>
      else if table_column p > removed then p\<lparr>table_column := table_column p - 1\<rparr> else p)"

definition rename_column_of :: "'g core \<Rightarrow> schema \<Rightarrow> string \<Rightarrow> string \<Rightarrow> property \<Rightarrow> property \<Rightarrow> string \<Rightarrow> 'g \<Rightarrow> 'g result" where
  "rename_column_of C target class_name table old new new_name g = do {
     let removed = table_column new;
     let g = table_remove_column C table removed (table_rename_column C table (table_column old) new_name g);
     let target = update_class class_name
       (\<lambda>os. os\<lparr>persisted_properties := map (shift_renamed removed (table_column old)) (persisted_properties os)\<rparr>) target;
     if is_nullable (prop_type new) \<and> \<not> is_nullable (prop_type old)
     then do {
       g \<leftarrow> make_property_optional C table (new\<lparr>table_column := table_column old\<rparr>) g;
       Some (Inr (g, target)) }
     else Some (Inr (g, target)) }"

definition rename_property :: "'g core \<Rightarrow> schema \<Rightarrow> string \<Rightarrow> string \<Rightarrow> string \<Rightarrow> 'g \<Rightarrow> 'g result" where
  "rename_property C target class_name old_name new_name g =
     (case table_for_object_type C g class_name of
        None \<Rightarrow> Some (Inl (RenameTypeMissing class_name))
      | Some table \<Rightarrow>
          (case schema_find target class_name of
             None \<Rightarrow> Some (Inl (RenameTypeRemoved class_name))
           | Some os \<Rightarrow>
               if property_for_name os old_name \<noteq> None
               then Some (Inl (RenameSourceExists class_name old_name new_name))
               else do {
                 file_schema \<leftarrow> object_schema_from_group C g class_name;
                 case property_for_name file_schema old_name of
                   None \<Rightarrow> Some (Inl (RenameSourceMissing class_name old_name))
                 | Some old \<Rightarrow>
                     (case property_for_name file_schema new_name of
                        None \<Rightarrow> Some (Inr (table_rename_column C table (table_column old) new_name g, target))
                      | Some new \<Rightarrow>
                          if \<not> pt_eq (prop_type old) (prop_type new) \<or> object_type old \<noteq> object_type new
                          then Some (Inl (RenameChangesType class_name old_name new_name (type_string old) (type_string new)))
                          else if is_nullable (prop_type old) \<and> \<not> is_nullable (prop_type new)
                          then Some (Inl (RenameChangesNullability class_name old_name new_name))
                          else rename_column_of C target class_name table old new new_name g) }))"

end
