(* ===== verification/Store_Reference.thy ===== *)
theory Store_Reference
  imports Store_Apply
begin

section \<open>What the store relies on in the core database\<close>

text \<open>
  The documented behaviour of the functions of \<open>Group\<close> and \<open>Table\<close> that the theorems about the store use,
  as a predicate on the parameter of the model, and a file format that has it: a list of named tables,
  each a list of columns and a list of rows. The latter shows that the hypotheses can hold and is what
  the examples run on.
\<close>

fun set_indexed :: "bool \<Rightarrow> core_column \<Rightarrow> core_column" where
  "set_indexed b (Column n ty nl tg ix sub) = Column n ty nl tg b sub"

fun set_column_name :: "string \<Rightarrow> core_column \<Rightarrow> core_column" where
  "set_column_name n' (Column n ty nl tg ix sub) = Column n' ty nl tg ix sub"

definition insert_nth :: "nat \<Rightarrow> 'a \<Rightarrow> 'a list \<Rightarrow> 'a list" where
  "insert_nth i x xs = take i xs @ x # drop i xs"

definition remove_nth :: "nat \<Rightarrow> 'a list \<Rightarrow> 'a list" where
  "remove_nth i xs = take i xs @ drop (Suc i) xs"

definition update_nth :: "nat \<Rightarrow> ('a \<Rightarrow> 'a) \<Rightarrow> 'a list \<Rightarrow> 'a list" where
  "update_nth i f xs = (if i < length xs then xs[i := f (xs ! i)] else xs)"

subsection \<open>Laws\<close>

text \<open>The operations on the columns of a table change its columns, as their names say, and no other table.\<close>

definition column_laws :: "'g core \<Rightarrow> bool" where
  "column_laws C \<longleftrightarrow>
     (\<forall>g t i c. t \<in> set (table_names C g) \<longrightarrow> i \<le> length (table_columns C g t) \<longrightarrow>
        table_columns C (table_insert_column C t i c g) = (table_columns C g)(t := insert_nth i c (table_columns C g t)))
   \<and> (\<forall>g t i. t \<in> set (table_names C g) \<longrightarrow> i < length (table_columns C g t) \<longrightarrow>
        table_columns C (table_remove_column C t i g) = (table_columns C g)(t := remove_nth i (table_columns C g t)))
   \<and> (\<forall>g t i n. t \<in> set (table_names C g) \<longrightarrow> i < length (table_columns C g t) \<longrightarrow>
        table_columns C (table_rename_column C t i n g)
          = (table_columns C g)(t := update_nth i (set_column_name n) (table_columns C g t)))
   \<and> (\<forall>g t i. t \<in> set (table_names C g) \<longrightarrow> i < length (table_columns C g t) \<longrightarrow>
        table_columns C (add_search_index C t i g)
          = (table_columns C g)(t := update_nth i (set_indexed True) (table_columns C g t)))
   \<and> (\<forall>g t i. t \<in> set (table_names C g) \<longrightarrow> i < length (table_columns C g t) \<longrightarrow>
        table_columns C (remove_search_index C t i g)
          = (table_columns C g)(t := update_nth i (set_indexed False) (table_columns C g t)))"

text \<open>No operation on columns or rows adds or removes a table, and none on rows changes a column.\<close>

definition frame_laws :: "'g core \<Rightarrow> bool" where
  "frame_laws C \<longleftrightarrow>
     (\<forall>g t i c. table_names C (table_insert_column C t i c g) = table_names C g)
   \<and> (\<forall>g t i. table_names C (table_remove_column C t i g) = table_names C g)
   \<and> (\<forall>g t i n. table_names C (table_rename_column C t i n g) = table_names C g)
   \<and> (\<forall>g t i. table_names C (add_search_index C t i g) = table_names C g)
   \<and> (\<forall>g t i. table_names C (remove_search_index C t i g) = table_names C g)
   \<and> (\<forall>g t c r v. table_names C (set_cell C t c r v g) = table_names C g)
   \<and> (\<forall>g t. table_names C (add_empty_row C t g) = table_names C g)
   \<and> (\<forall>g t r. table_names C (move_last_over C t r g) = table_names C g)
   \<and> (\<forall>g t c r v. table_columns C (set_cell C t c r v g) = table_columns C g)
   \<and> (\<forall>g t. table_columns C (add_empty_row C t g) = table_columns C g)
   \<and> (\<forall>g t r. table_columns C (move_last_over C t r g) = table_columns C g)"

definition table_laws :: "'g core \<Rightarrow> bool" where
  "table_laws C \<longleftrightarrow>
     (\<forall>g n. n \<in> set (table_names C g) \<longrightarrow> get_or_add_table C n g = g)
   \<and> (\<forall>g n. n \<notin> set (table_names C g) \<longrightarrow>
        table_names C (get_or_add_table C n g) = table_names C g @ [n] \<and>
        table_columns C (get_or_add_table C n g) = (table_columns C g)(n := []))"

subsection \<open>A file format\<close>

record ref_table =
  rt_columns :: "core_column list"
  rt_rows :: "core_value list list"

type_synonym ref_group = "(string \<times> ref_table) list"

definition ref_table_of :: "ref_group \<Rightarrow> string \<Rightarrow> ref_table" where
  "ref_table_of g n = (case map_of g n of Some t \<Rightarrow> t | None \<Rightarrow> \<lparr>rt_columns = [], rt_rows = []\<rparr>)"

definition ref_update :: "string \<Rightarrow> (ref_table \<Rightarrow> ref_table) \<Rightarrow> ref_group \<Rightarrow> ref_group" where
  "ref_update n f g = map (\<lambda>(m, t). if m = n then (m, f t) else (m, t)) g"

definition default_value :: "core_column \<Rightarrow> core_value" where
  "default_value c =
     (if cc_nullable c then NullValue
      else case cc_type c of
        type_Int \<Rightarrow> IntValue 0 | type_Bool \<Rightarrow> BoolValue False | type_Float \<Rightarrow> FloatValue 0
      | type_Double \<Rightarrow> DoubleValue 0 | type_String \<Rightarrow> StringValue [] | type_Binary \<Rightarrow> BinaryValue []
      | type_Timestamp \<Rightarrow> TimestampValue 0 0 | _ \<Rightarrow> NullValue)"

definition ref_get_or_add :: "string \<Rightarrow> ref_group \<Rightarrow> ref_group" where
  "ref_get_or_add n g = (if n \<in> set (map fst g) then g else g @ [(n, \<lparr>rt_columns = [], rt_rows = []\<rparr>)])"

definition ref_insert_column :: "string \<Rightarrow> size_t \<Rightarrow> core_column \<Rightarrow> ref_group \<Rightarrow> ref_group" where
  "ref_insert_column n i c = ref_update n (\<lambda>t. \<lparr>rt_columns = insert_nth i c (rt_columns t),
     rt_rows = map (insert_nth i (default_value c)) (rt_rows t)\<rparr>)"

definition ref_remove_column :: "string \<Rightarrow> size_t \<Rightarrow> ref_group \<Rightarrow> ref_group" where
  "ref_remove_column n i = ref_update n (\<lambda>t. \<lparr>rt_columns = remove_nth i (rt_columns t),
     rt_rows = map (remove_nth i) (rt_rows t)\<rparr>)"

definition ref_update_column :: "(core_column \<Rightarrow> core_column) \<Rightarrow> string \<Rightarrow> size_t \<Rightarrow> ref_group \<Rightarrow> ref_group" where
  "ref_update_column f n i = ref_update n (\<lambda>t. t\<lparr>rt_columns := update_nth i f (rt_columns t)\<rparr>)"

definition ref_add_row :: "string \<Rightarrow> ref_group \<Rightarrow> ref_group" where
  "ref_add_row n = ref_update n (\<lambda>t. t\<lparr>rt_rows := rt_rows t @ [map default_value (rt_columns t)]\<rparr>)"

definition ref_set_cell :: "string \<Rightarrow> size_t \<Rightarrow> size_t \<Rightarrow> core_value \<Rightarrow> ref_group \<Rightarrow> ref_group" where
  "ref_set_cell n c r v = ref_update n (\<lambda>t. t\<lparr>rt_rows := update_nth r (\<lambda>row. row[c := v]) (rt_rows t)\<rparr>)"

definition ref_move_last_over :: "string \<Rightarrow> size_t \<Rightarrow> ref_group \<Rightarrow> ref_group" where
  "ref_move_last_over n r = ref_update n (\<lambda>t. t\<lparr>rt_rows := butlast ((rt_rows t)[r := last (rt_rows t)])\<rparr>)"

definition ref_core :: "ref_group core" where
  "ref_core = \<lparr>enable_sync = False,
     table_names = map fst,
     table_columns = (\<lambda>g n. rt_columns (ref_table_of g n)),
     table_size = (\<lambda>g n. length (rt_rows (ref_table_of g n))),
     get_cell = (\<lambda>g n c r. rt_rows (ref_table_of g n) ! r ! c),
     get_or_add_table = ref_get_or_add,
     remove_table = (\<lambda>n. filter (\<lambda>(m, t). m \<noteq> n)),
     table_insert_column = ref_insert_column,
     table_remove_column = ref_remove_column,
     table_rename_column = (\<lambda>n i new. ref_update_column (set_column_name new) n i),
     add_search_index = ref_update_column (set_indexed True),
     remove_search_index = ref_update_column (set_indexed False),
     add_empty_row = ref_add_row,
     set_cell = ref_set_cell,
     move_last_over = ref_move_last_over,
     has_object_ids = (\<lambda>g. False),
     sync_create_table = ref_get_or_add,
     sync_create_table_with_primary_key = (\<lambda>n t c nl g. ref_get_or_add n g),
     initialize_schema = id, set_up_basic_permissions = id,
     add_user_to_role = (\<lambda>u r. id), set_class_permissions_for_role = (\<lambda>n r. id)\<rparr>"

lemma map_of_ref_update: "map_of (ref_update n f g) m = (if m = n then map_option f (map_of g m) else map_of g m)"
  by (induction g) (auto simp: ref_update_def)

lemma map_fst_ref_update [simp]: "map fst (ref_update n f g) = map fst g"
  by (induction g) (auto simp: ref_update_def)

lemma ref_columns_update:
  "n \<in> set (map fst g) \<Longrightarrow> rt_columns (ref_table_of (ref_update n f g) m)
     = (if m = n then rt_columns (f (ref_table_of g n)) else rt_columns (ref_table_of g m))"
  by (cases "map_of g n") (auto simp: ref_table_of_def map_of_ref_update map_of_eq_None_iff split: option.split)

lemma ref_columns_same:
  "(\<And>t. rt_columns (f t) = rt_columns t) \<Longrightarrow>
     rt_columns (ref_table_of (ref_update n f g) m) = rt_columns (ref_table_of g m)"
  by (auto simp: ref_table_of_def map_of_ref_update split: option.split)

lemma ref_table_new: "n \<notin> set (map fst g) \<Longrightarrow>
  ref_table_of (g @ [(n, t)]) m = (if m = n then t else ref_table_of g m)"
proof (cases "m = n")
  case True
  assume "n \<notin> set (map fst g)"
  then have "map_of g n = None" by (simp add: map_of_eq_None_iff)
  then show ?thesis using True by (simp add: ref_table_of_def map_add_def)
qed (simp add: ref_table_of_def map_add_def split: option.split)

lemma ref_core_laws: "column_laws ref_core" "frame_laws ref_core" "table_laws ref_core"
proof -
  show "column_laws ref_core"
    unfolding column_laws_def
    by (intro conjI allI impI ext)
       (simp_all add: ref_core_def ref_insert_column_def ref_remove_column_def ref_update_column_def ref_columns_update)
  show "frame_laws ref_core"
    unfolding frame_laws_def
    by (intro conjI allI impI ext)
       (simp_all add: ref_core_def ref_insert_column_def ref_remove_column_def ref_update_column_def
          ref_add_row_def ref_set_cell_def ref_move_last_over_def ref_columns_same)
  show "table_laws ref_core"
    unfolding table_laws_def
    by (intro conjI allI impI ext) (simp_all add: ref_core_def ref_get_or_add_def ref_table_new)
qed

end
