(* ===== verification/Schema_Compare.thy ===== *)
theory Schema_Compare
  imports Schema_Model "HOL-Library.Multiset"
begin

section \<open>What the comparison of two schemas means\<close>

text \<open>
  A schema describes for every class its primary key and its columns: their types, the classes they
  link to and whether they have a search index. \<open>schema_view\<close> is this description as a map, and
  \<open>apply_change\<close> is what each change does to it. The lemmas of this theory say that the lookup in a
  sorted schema finds the class of a name, that \<open>zip_matching\<close> pairs the classes of the same name, and
  that the changes of one class and one property are not mixed with those of another.
\<close>

subsection \<open>Well-formed schemas\<close>

definition sorted_schema :: "schema \<Rightarrow> bool" where
  "sorted_schema s \<longleftrightarrow> sorted (map os_name s) \<and> distinct (map os_name s)"

abbreviation class_named :: "schema \<Rightarrow> string \<Rightarrow> object_schema option" where
  "class_named s n \<equiv> find (\<lambda>os. os_name os = n) s"

definition all_properties :: "object_schema \<Rightarrow> property list" where
  "all_properties os = persisted_properties os @ computed_properties os"

lemma sorted_schema_Nil [simp]: "sorted_schema []"
  by (simp add: sorted_schema_def)

lemma sorted_schema_Cons:
  "sorted_schema (os # s) \<longleftrightarrow> sorted_schema s \<and> (\<forall>x\<in>set s. os_name os < os_name x)"
  by (auto simp: sorted_schema_def less_le)

lemma class_named_None_less: "(\<forall>x\<in>set s. n < os_name x) \<Longrightarrow> class_named s n = None"
  by (auto simp: find_None_iff)

lemma schema_find_class_named: "sorted_schema s \<Longrightarrow> schema_find s n = class_named s n"
proof (induction s)
  case (Cons os s)
  then have IH: "schema_find s n = class_named s n" and less: "\<forall>x\<in>set s. os_name os < os_name x"
    by (simp_all add: sorted_schema_Cons)
  consider "os_name os < n" | "os_name os = n" | "n < os_name os" by (rule linorder_cases)
  then show ?case
  proof cases
    case 1
    then show ?thesis using IH by (auto simp: schema_find_def)
  next
    case 2
    then show ?thesis by (simp add: schema_find_def)
  next
    case 3
    with less have "\<forall>x\<in>set s. n < os_name x" by (auto intro: less_trans)
    with 3 show ?thesis by (auto simp: schema_find_def class_named_None_less)
  qed
qed (simp add: schema_find_def)

lemma class_named_SomeD: "class_named s n = Some os \<Longrightarrow> os \<in> set s \<and> os_name os = n"
  by (auto simp: find_Some_iff)

lemma class_named_mem: "sorted_schema s \<Longrightarrow> os \<in> set s \<Longrightarrow> class_named s (os_name os) = Some os"
  by (induction s) (auto simp: sorted_schema_Cons)

lemma find_property_Some_iff:
  "distinct (map prop_name ps) \<Longrightarrow> find_property n ps = Some p \<longleftrightarrow> p \<in> set ps \<and> prop_name p = n"
  by (induction ps) (auto simp: rev_image_eqI)

lemma find_property_None_iff: "find_property n ps = None \<longleftrightarrow> n \<notin> prop_name ` set ps"
  by (induction ps) auto

lemma find_property_name: "find_property n ps = Some p \<Longrightarrow> p \<in> set ps \<and> prop_name p = n"
  by (induction ps) (auto split: if_splits)

lemma property_for_name_name: "property_for_name os n = Some p \<Longrightarrow> p \<in> set (all_properties os) \<and> prop_name p = n"
  by (auto simp: property_for_name_def all_properties_def split: option.splits dest: find_property_name)

lemma primary_key_property_name: "primary_key_property os = Some p \<Longrightarrow> prop_name p = primary_key os"
  by (auto simp: primary_key_property_def dest: property_for_name_name)

subsection \<open>Pairing the classes of two schemas\<close>

fun pair_name :: "object_schema option \<times> object_schema option \<Rightarrow> string" where
  "pair_name (Some a, _) = os_name a"
| "pair_name (None, Some b) = os_name b"
| "pair_name (None, None) = []"

fun matched :: "object_schema option \<times> object_schema option \<Rightarrow> bool" where
  "matched (Some a, Some b) \<longleftrightarrow> os_name a = os_name b"
| "matched (None, None) \<longleftrightarrow> False"
| "matched _ \<longleftrightarrow> True"

text \<open>A function of the pairs, restricted to the class of one name.\<close>

definition at_pair :: "(object_schema option \<times> object_schema option \<Rightarrow> 'c list) \<Rightarrow>
    object_schema option \<times> object_schema option \<Rightarrow> 'c list" where
  "at_pair f ab = (if ab = (None, None) then [] else f ab)"

lemma zip_matching_at:
  assumes "sorted_schema a" "sorted_schema b"
    and own: "\<And>ab c. matched ab \<Longrightarrow> c \<in> set (f ab) \<Longrightarrow> Q c = n \<Longrightarrow> pair_name ab = n"
  shows "filter (\<lambda>c. Q c = n) (concat (map f (zip_matching a b)))
       = filter (\<lambda>c. Q c = n) (at_pair f (class_named a n, class_named b n))"
  using assms(1,2)
proof (induction a b rule: zip_matching.induct)
  case (1 x xs y ys)
  have none: "filter (\<lambda>c. Q c = n) (f ab) = []" if "pair_name ab \<noteq> n" "matched ab" for ab
    using that own unfolding filter_empty_conv by blast
  have less: "class_named s n = None" if "m = n" "\<forall>z\<in>set s. m < os_name z" for m s
    using that by (auto intro: class_named_None_less)
  have trans: "os_name x < os_name y \<Longrightarrow> \<forall>z\<in>set (y # ys). os_name x < os_name z"
    "os_name y < os_name x \<Longrightarrow> \<forall>z\<in>set (x # xs). os_name y < os_name z"
    using "1.prems" by (auto simp: sorted_schema_Cons intro: less_trans)
  consider "os_name x = os_name y" | "os_name x < os_name y" | "os_name y < os_name x"
    by (rule linorder_cases [of "os_name x" "os_name y"]) auto
  then show ?case
  proof cases
    case 1
    then have IH: "filter (\<lambda>c. Q c = n) (concat (map f (zip_matching xs ys)))
       = filter (\<lambda>c. Q c = n) (at_pair f (class_named xs n, class_named ys n))"
      using "1.IH"(1) "1.prems" by (simp add: sorted_schema_Cons)
    show ?thesis
    proof (cases "os_name x = n")
      case True
      then have "class_named xs n = None" "class_named ys n = None"
        using less [of "os_name x" xs] less [of "os_name y" ys] 1 "1.prems" by (auto simp: sorted_schema_Cons)
      then show ?thesis using IH True 1 by (simp add: at_pair_def)
    next
      case False
      then show ?thesis using IH 1 none [of "(Some x, Some y)"] by simp
    qed
  next
    case 2
    then have IH: "filter (\<lambda>c. Q c = n) (concat (map f (zip_matching xs (y # ys))))
       = filter (\<lambda>c. Q c = n) (at_pair f (class_named xs n, class_named (y # ys) n))"
      using "1.IH"(2) "1.prems" by (simp add: sorted_schema_Cons)
    show ?thesis
    proof (cases "os_name x = n")
      case True
      then have "class_named xs n = None" "class_named (y # ys) n = None"
        using less [of "os_name x" xs] less [of "os_name x" "y # ys"] trans(1) 2 "1.prems"
        by (simp_all add: sorted_schema_Cons)
      moreover have "zip_matching (x # xs) (y # ys) = (Some x, None) # zip_matching xs (y # ys)" using 2 by auto
      ultimately show ?thesis using IH True by (simp add: at_pair_def del: zip_matching.simps)
    next
      case False
      have "zip_matching (x # xs) (y # ys) = (Some x, None) # zip_matching xs (y # ys)" using 2 by auto
      then show ?thesis using IH False none [of "(Some x, None)"] by (simp del: zip_matching.simps)
    qed
  next
    case 3
    then have IH: "filter (\<lambda>c. Q c = n) (concat (map f (zip_matching (x # xs) ys)))
       = filter (\<lambda>c. Q c = n) (at_pair f (class_named (x # xs) n, class_named ys n))"
      using "1.IH"(3) "1.prems" by (auto simp: sorted_schema_Cons)
    show ?thesis
    proof (cases "os_name y = n")
      case True
      then have "class_named ys n = None" "class_named (x # xs) n = None"
        using less [of "os_name y" ys] less [of "os_name y" "x # xs"] trans(2) 3 "1.prems"
        by (simp_all add: sorted_schema_Cons)
      moreover have "zip_matching (x # xs) (y # ys) = (None, Some y) # zip_matching (x # xs) ys" using 3 by auto
      ultimately show ?thesis using IH True by (simp add: at_pair_def del: zip_matching.simps)
    next
      case False
      have "zip_matching (x # xs) (y # ys) = (None, Some y) # zip_matching (x # xs) ys" using 3 by auto
      then show ?thesis using IH False none [of "(None, Some y)"] by (simp del: zip_matching.simps)
    qed
  qed
next
  case (2 as)
  then show ?case
  proof (induction as)
    case (Cons x xs)
    have "filter (\<lambda>c. Q c = n) (f (Some x, None)) = []" if "os_name x \<noteq> n"
      using that own [of "(Some x, None)"] unfolding filter_empty_conv by auto
    moreover have "class_named xs n = None" if "os_name x = n"
      using that Cons.prems by (auto simp: sorted_schema_Cons intro: class_named_None_less)
    ultimately show ?case using Cons by (auto simp: sorted_schema_Cons at_pair_def)
  qed (simp add: at_pair_def)
next
  case (3 b bs)
  have "filter (\<lambda>c. Q c = n) (concat (map f (map (\<lambda>b. (None, Some b)) bs)))
      = filter (\<lambda>c. Q c = n) (at_pair f (None, class_named bs n))" if "sorted_schema bs" for bs
    using that
  proof (induction bs)
    case (Cons x xs)
    have "filter (\<lambda>c. Q c = n) (f (None, Some x)) = []" if "os_name x \<noteq> n"
      using that own [of "(None, Some x)"] unfolding filter_empty_conv by auto
    moreover have "class_named xs n = None" if "os_name x = n"
      using that Cons.prems by (auto simp: sorted_schema_Cons intro: class_named_None_less)
    ultimately show ?case using Cons by (auto simp: sorted_schema_Cons at_pair_def)
  qed (simp add: at_pair_def)
  from this [OF "3.prems"(2)] show ?case by simp
qed

subsection \<open>The changes of a class\<close>

text \<open>
  \<open>compare_objects\<close> reorders what it and the classes before it have added: the removals of columns go
  to the end. \<open>class_changes\<close> are the changes a class contributes, in the order it finds them.
\<close>

fun class_changes :: "object_schema option \<times> object_schema option \<Rightarrow> schema_change list" where
  "class_changes (Some target, Some existing) =
     concat (map (compare_property existing target) (persisted_properties existing))
     @ (if primary_key existing \<noteq> primary_key target
        then [ChangePrimaryKey existing (primary_key_property target)] else [])
     @ map (AddProperty existing)
         (filter (\<lambda>p. property_for_name existing (prop_name p) = None) (persisted_properties target))"
| "class_changes (Some target, None) = [AddInitialProperties target]"
| "class_changes _ = []"

abbreviation unordered_changes :: "schema \<Rightarrow> schema \<Rightarrow> bool \<Rightarrow> schema_change list" where
  "unordered_changes existing target removals \<equiv>
     concat (map (table_changes removals) (zip_matching target existing))
     @ concat (map class_changes (zip_matching target existing))"

definition removals_last :: "schema_change list \<Rightarrow> schema_change list" where
  "removals_last changes = filter is_not_remove_property changes
     @ sort_key (\<lambda>c. - int (removed_column c)) (filter (\<lambda>c. \<not> is_not_remove_property c) changes)"

lemma compare_objects_eq:
  "compare_objects existing target changes = removals_last (changes @ class_changes (Some target, Some existing))"
  by (simp add: compare_objects_def removals_last_def Let_def)

lemma removals_last_kept:
  "filter is_not_remove_property (removals_last cs) = filter is_not_remove_property cs"
  "mset (removals_last cs) = mset cs"
proof -
  show "filter is_not_remove_property (removals_last cs) = filter is_not_remove_property cs"
    by (simp add: removals_last_def filter_empty_conv)
  show "mset (removals_last cs) = mset cs"
    by (simp add: removals_last_def multiset_partition [symmetric] del: mset_filter
          flip: mset_filter) (simp flip: multiset_partition)
qed

lemma column_changes_kept:
  "filter is_not_remove_property (column_changes ab cs) = filter is_not_remove_property (cs @ class_changes ab)
   \<and> mset (column_changes ab cs) = mset (cs @ class_changes ab)"
proof (cases ab)
  case (Pair a b)
  then show ?thesis
    by (cases a; cases b)
       (simp_all only: column_changes.simps compare_objects_eq removals_last_kept class_changes.simps
          append_Nil2 simp_thms)
qed

lemma fold_column_changes:
  "filter is_not_remove_property (fold column_changes zs cs)
     = filter is_not_remove_property (cs @ concat (map class_changes zs))
   \<and> mset (fold column_changes zs cs) = mset (cs @ concat (map class_changes zs))"
proof (induction zs arbitrary: cs)
  case (Cons z zs)
  have "filter is_not_remove_property (column_changes z cs @ concat (map class_changes zs))
     = filter is_not_remove_property (cs @ concat (map class_changes (z # zs)))"
    using column_changes_kept [of z cs] by simp
  moreover have "mset (column_changes z cs @ concat (map class_changes zs))
     = mset (cs @ concat (map class_changes (z # zs)))"
    using column_changes_kept [of z cs] by simp
  ultimately show ?case using Cons.IH [of "column_changes z cs"] by simp
qed simp

lemma schema_compare_kept:
  "filter is_not_remove_property (schema_compare existing target removals)
     = filter is_not_remove_property (unordered_changes existing target removals)"
  "mset (schema_compare existing target removals) = mset (unordered_changes existing target removals)"
  using fold_column_changes by (simp_all add: schema_compare_def)

lemma filter_reordered:
  assumes "filter N r = filter N l" "mset r = mset l"
    and "(\<forall>c\<in>set (filter P l). N c) \<or> length (filter P l) \<le> 1"
  shows "filter P r = filter P l"
  using assms(3)
proof
  assume N: "\<forall>c\<in>set (filter P l). N c"
  have set: "set r = set l" using assms(2) by (metis set_mset_mset)
  have "filter P r = filter P (filter N r)" using N set by (auto intro: filter_cong)
  also have "\<dots> = filter P l" using N assms(1) by (auto intro: filter_cong)
  finally show ?thesis .
next
  assume "length (filter P l) \<le> 1"
  moreover have m: "mset (filter P r) = mset (filter P l)" using assms(2) by (metis mset_filter)
  ultimately show ?thesis
    by (cases "filter P l") (auto simp: mset_single_iff_right simp del: mset_filter)
qed

end
