(* ===== verification/Schema_Views.thy ===== *)
theory Schema_Views
  imports Schema_Compare
begin

section \<open>The description a schema gives, and what the changes do to it\<close>

text \<open>
  \<open>schema_view\<close> maps every class to the name of its primary key and every property of a class to its
  column. An existing schema describes the file, where \<open>is_indexed\<close> says whether a column has a search
  index; in a target schema a property has one exactly when it requires it. \<open>apply_change\<close> is the effect
  of a change; making a column optional or required replaces it by a new one. The lemmas compute the effect of a list of changes for one class and one property from
  the changes that concern it.
\<close>

record column_view =
  cv_type :: property_type
  cv_target :: string
  cv_indexed :: bool

record schema_view =
  sv_keys :: "string \<Rightarrow> string option"
  sv_columns :: "string \<Rightarrow> string \<Rightarrow> column_view option"

definition column_of :: "(property \<Rightarrow> bool) \<Rightarrow> property \<Rightarrow> column_view" where
  "column_of indexed p = \<lparr>cv_type = prop_type p, cv_target = object_type p, cv_indexed = indexed p\<rparr>"

definition columns_of :: "(property \<Rightarrow> bool) \<Rightarrow> object_schema \<Rightarrow> string \<Rightarrow> column_view option" where
  "columns_of indexed os q = map_option (column_of indexed) (find_property q (persisted_properties os))"

definition view_of :: "(property \<Rightarrow> bool) \<Rightarrow> schema \<Rightarrow> schema_view" where
  "view_of indexed s = \<lparr>sv_keys = (\<lambda>n. map_option primary_key (class_named s n)),
     sv_columns = (\<lambda>n. case class_named s n of None \<Rightarrow> Map.empty | Some os \<Rightarrow> columns_of indexed os)\<rparr>"

definition set_key :: "string \<Rightarrow> string option \<Rightarrow> schema_view \<Rightarrow> schema_view" where
  "set_key n k v = v\<lparr>sv_keys := (sv_keys v)(n := k)\<rparr>"

definition change_columns :: "string \<Rightarrow> ((string \<Rightarrow> column_view option) \<Rightarrow> string \<Rightarrow> column_view option) \<Rightarrow>
    schema_view \<Rightarrow> schema_view" where
  "change_columns n f v = v\<lparr>sv_columns := (sv_columns v)(n := f (sv_columns v n))\<rparr>"

abbreviation on_column :: "string \<Rightarrow> string \<Rightarrow> (column_view \<Rightarrow> column_view) \<Rightarrow> schema_view \<Rightarrow> schema_view" where
  "on_column n q f \<equiv> change_columns n (\<lambda>cols. cols(q := map_option f (cols q)))"

fun apply_change :: "schema_change \<Rightarrow> schema_view \<Rightarrow> schema_view" where
  "apply_change (AddTable t) v = set_key (os_name t) (Some (primary_key t)) v"
| "apply_change (RemoveTable e) v = change_columns (os_name e) (\<lambda>cols. Map.empty) (set_key (os_name e) None v)"
| "apply_change (AddInitialProperties t) v =
     change_columns (os_name t) (\<lambda>cols. cols ++ columns_of requires_index t) v"
| "apply_change (AddProperty e p) v =
     change_columns (os_name e) (\<lambda>cols. cols(prop_name p \<mapsto> column_of requires_index p)) v"
| "apply_change (RemoveProperty e p) v = change_columns (os_name e) (\<lambda>cols. cols(prop_name p := None)) v"
| "apply_change (ChangePropertyType e old new) v =
     on_column (os_name e) (prop_name old) (\<lambda>_. column_of requires_index new) v"
| "apply_change (MakePropertyNullable e p) v =
     on_column (os_name e) (prop_name p)
       (\<lambda>c. c\<lparr>cv_type := cv_type c OR PT_Nullable, cv_indexed := requires_index p\<rparr>) v"
| "apply_change (MakePropertyRequired e p) v =
     on_column (os_name e) (prop_name p)
       (\<lambda>c. c\<lparr>cv_type := cv_type c AND NOT PT_Nullable, cv_indexed := requires_index p\<rparr>) v"
| "apply_change (AddIndex e p) v = on_column (os_name e) (prop_name p) (\<lambda>c. c\<lparr>cv_indexed := True\<rparr>) v"
| "apply_change (RemoveIndex e p) v = on_column (os_name e) (prop_name p) (\<lambda>c. c\<lparr>cv_indexed := False\<rparr>) v"
| "apply_change (ChangePrimaryKey e k) v =
     set_key (os_name e) (Some (case k of Some p \<Rightarrow> prop_name p | None \<Rightarrow> [])) v"

subsection \<open>One class, one property\<close>

fun class_of_change :: "schema_change \<Rightarrow> string" where
  "class_of_change (AddTable t) = os_name t"
| "class_of_change (RemoveTable e) = os_name e"
| "class_of_change (AddInitialProperties t) = os_name t"
| "class_of_change (AddProperty e p) = os_name e"
| "class_of_change (RemoveProperty e p) = os_name e"
| "class_of_change (ChangePropertyType e old new) = os_name e"
| "class_of_change (MakePropertyNullable e p) = os_name e"
| "class_of_change (MakePropertyRequired e p) = os_name e"
| "class_of_change (AddIndex e p) = os_name e"
| "class_of_change (RemoveIndex e p) = os_name e"
| "class_of_change (ChangePrimaryKey e k) = os_name e"

fun sets_key :: "schema_change \<Rightarrow> bool" where
  "sets_key (AddTable t) = True"
| "sets_key (RemoveTable e) = True"
| "sets_key (ChangePrimaryKey e k) = True"
| "sets_key _ = False"

fun touches :: "string \<Rightarrow> schema_change \<Rightarrow> bool" where
  "touches q (AddProperty e p) = (prop_name p = q)"
| "touches q (RemoveProperty e p) = (prop_name p = q)"
| "touches q (ChangePropertyType e old new) = (prop_name old = q)"
| "touches q (MakePropertyNullable e p) = (prop_name p = q)"
| "touches q (MakePropertyRequired e p) = (prop_name p = q)"
| "touches q (AddIndex e p) = (prop_name p = q)"
| "touches q (RemoveIndex e p) = (prop_name p = q)"
| "touches q (RemoveTable e) = True"
| "touches q (AddInitialProperties t) = True"
| "touches q _ = False"

abbreviation concerns_key :: "string \<Rightarrow> schema_change \<Rightarrow> bool" where
  "concerns_key n c \<equiv> class_of_change c = n \<and> sets_key c"

abbreviation concerns :: "string \<Rightarrow> string \<Rightarrow> schema_change \<Rightarrow> bool" where
  "concerns n q c \<equiv> class_of_change c = n \<and> touches q c"

lemma set_key_simps [simp]:
  "sv_keys (set_key n k v) = (sv_keys v)(n := k)" "sv_columns (set_key n k v) = sv_columns v"
  by (simp_all add: set_key_def)

lemma change_columns_simps [simp]:
  "sv_keys (change_columns n f v) = sv_keys v"
  "sv_columns (change_columns n f v) = (sv_columns v)(n := f (sv_columns v n))"
  by (simp_all add: change_columns_def)

text \<open>A change that does not concern a class or a property leaves it, and one that does looks at nothing else.\<close>

lemma apply_change_key_unconcerned: "\<not> concerns_key n c \<Longrightarrow> sv_keys (apply_change c v) n = sv_keys v n"
  by (cases c) simp_all

lemma apply_change_column_unconcerned:
  "\<not> concerns n q c \<Longrightarrow> sv_columns (apply_change c v) n q = sv_columns v n q"
  by (cases c) (simp_all add: fun_upd_def split del: if_split cong: if_cong, auto)

lemma apply_change_key_local:
  "sv_keys v n = sv_keys w n \<Longrightarrow> sv_keys (apply_change c v) n = sv_keys (apply_change c w) n"
  by (cases c) simp_all

lemma apply_change_column_local:
  "sv_columns v n q = sv_columns w n q \<Longrightarrow> sv_columns (apply_change c v) n q = sv_columns (apply_change c w) n q"
  by (cases c) (auto simp: map_add_def split: option.split)

lemma fold_apply_key_local:
  "sv_keys v n = sv_keys w n \<Longrightarrow> sv_keys (fold apply_change cs v) n = sv_keys (fold apply_change cs w) n"
proof (induction cs arbitrary: v w)
  case (Cons c cs)
  show ?case using Cons.IH [OF apply_change_key_local [OF Cons.prems]] by simp
qed simp

lemma fold_apply_column_local:
  "sv_columns v n q = sv_columns w n q \<Longrightarrow>
     sv_columns (fold apply_change cs v) n q = sv_columns (fold apply_change cs w) n q"
proof (induction cs arbitrary: v w)
  case (Cons c cs)
  show ?case using Cons.IH [OF apply_change_column_local [OF Cons.prems]] by simp
qed simp

lemma fold_apply_key:
  "sv_keys (fold apply_change cs v) n = sv_keys (fold apply_change (filter (concerns_key n) cs) v) n"
proof (induction cs arbitrary: v)
  case (Cons c cs)
  then show ?case
    using fold_apply_key_local [of "apply_change c v" n v] apply_change_key_unconcerned [of c n v] by auto
qed simp

lemma fold_apply_column:
  "sv_columns (fold apply_change cs v) n q = sv_columns (fold apply_change (filter (concerns n q) cs) v) n q"
proof (induction cs arbitrary: v)
  case (Cons c cs)
  then show ?case
    using fold_apply_column_local [of "apply_change c v" n q v] apply_change_column_unconcerned [of c n q v] by auto
qed simp

subsection \<open>Types\<close>

lemma bit_push_single: "k < 8 \<Longrightarrow> bit (push_bit k (1 :: property_type)) n \<longleftrightarrow> n = k"
  by (auto simp: bit_push_bit_iff bit_1_iff bit_exp_iff)

lemma flag_bits:
  "bit PT_Array n \<longleftrightarrow> n = 7" "bit PT_Nullable n \<longleftrightarrow> n = 6" "bit PT_Flags n \<longleftrightarrow> n = 6 \<or> n = 7"
proof -
  have eq: "PT_Array = push_bit 7 1" "PT_Nullable = push_bit 6 1" by (simp_all add: PT_defs)
  show bits: "bit PT_Array n \<longleftrightarrow> n = 7" "bit PT_Nullable n \<longleftrightarrow> n = 6"
    unfolding eq by (simp_all only: bit_push_single)
  then show "bit PT_Flags n \<longleftrightarrow> n = 6 \<or> n = 7" by (simp only: PT_Flags_def bit_or_iff disj_commute)
qed

lemmas type_eq_iff = bit_eq_iff [where 'a = property_type]

lemma is_array_bit: "is_array t \<longleftrightarrow> bit t 7"
  by (auto simp: is_array_def type_eq_iff bit_and_iff flag_bits dest: spec [of _ 7])

lemma is_nullable_bit: "is_nullable t \<longleftrightarrow> bit t 6"
  by (auto simp: is_nullable_def type_eq_iff bit_and_iff flag_bits dest: spec [of _ 6])

lemma pt_eq_bits: "pt_eq s t \<longleftrightarrow> (\<forall>n<8. n \<noteq> 6 \<and> n \<noteq> 7 \<longrightarrow> bit s n = bit t n)"
  by (auto simp: pt_eq_def base_type_def type_eq_iff bit_and_iff bit_not_iff flag_bits dest: bit_imp_le_length)

lemma type_eqI: "pt_eq s t \<Longrightarrow> is_array s = is_array t \<Longrightarrow> is_nullable s = is_nullable t \<Longrightarrow> s = t"
  by (rule bit_word_eqI) (auto simp: pt_eq_bits is_array_bit is_nullable_bit)

lemma nullable_type:
  "pt_eq (t OR PT_Nullable) t" "is_array (t OR PT_Nullable) = is_array t" "is_nullable (t OR PT_Nullable)"
  "pt_eq (t AND NOT PT_Nullable) t" "is_array (t AND NOT PT_Nullable) = is_array t"
  "\<not> is_nullable (t AND NOT PT_Nullable)"
  by (auto simp: pt_eq_bits is_array_bit is_nullable_bit bit_or_iff bit_and_iff bit_not_iff flag_bits)

lemma pt_eq_trans: "pt_eq a b \<Longrightarrow> pt_eq b c \<Longrightarrow> pt_eq a c"
  by (simp add: pt_eq_def)

end
