(* ===== verification/Schema_Properties.thy ===== *)
theory Schema_Properties
  imports Schema_Views
begin

section \<open>Comparing schemas\<close>

text \<open>
  The changes that \<open>Schema::compare\<close> lists turn the existing schema into the target; the removals of
  columns come last and from the highest column down; a schema that passes \<open>validate\<close> is consistent.
\<close>

subsection \<open>The changes of one class\<close>

lemma table_changes_own: "matched ab \<Longrightarrow> c \<in> set (table_changes r ab) \<Longrightarrow> class_of_change c = pair_name ab"
  by (cases "(r, ab)" rule: table_changes.cases) (auto split: if_splits)

lemma compare_property_own:
  "c \<in> set (compare_property e t p) \<Longrightarrow> class_of_change c = os_name e \<and> touches q c = (prop_name p = q) \<and> \<not> sets_key c"
  by (auto simp: compare_property_def split: option.splits if_splits)

lemma class_changes_own: "matched ab \<Longrightarrow> c \<in> set (class_changes ab) \<Longrightarrow> class_of_change c = pair_name ab"
  by (cases ab rule: class_changes.cases) (auto split: if_splits dest: compare_property_own)

definition changes_of_pair :: "bool \<Rightarrow> object_schema option \<times> object_schema option \<Rightarrow> schema_change list" where
  "changes_of_pair r ab = table_changes r ab @ class_changes ab"

lemma filter_own:
  assumes "\<And>c. c \<in> set (f ab) \<Longrightarrow> matched ab \<Longrightarrow> class_of_change c = pair_name ab"
    and "f (None, None) = []" "ab = (None, None) \<or> matched ab \<and> pair_name ab = n"
  shows "filter (\<lambda>c. class_of_change c = n) (at_pair f ab) = f ab"
  using assms by (auto simp: at_pair_def filter_id_conv)

lemma changes_of_class:
  assumes "sorted_schema target" "sorted_schema existing"
  shows "filter (\<lambda>c. class_of_change c = n) (unordered_changes existing target r)
       = changes_of_pair r (class_named target n, class_named existing n)"
proof -
  let ?ab = "(class_named target n, class_named existing n)"
  have ab: "?ab = (None, None) \<or> matched ?ab \<and> pair_name ?ab = n"
    by (cases "class_named target n"; cases "class_named existing n") (auto dest: class_named_SomeD)
  have "filter (\<lambda>c. class_of_change c = n) (concat (map (table_changes r) (zip_matching target existing)))
      = filter (\<lambda>c. class_of_change c = n) (at_pair (table_changes r) ?ab)"
    by (rule zip_matching_at [OF assms]) (auto dest: table_changes_own)
  also have "\<dots> = table_changes r ?ab"
    by (rule filter_own) (use ab in \<open>auto dest: table_changes_own\<close>)
  finally have 1: "filter (\<lambda>c. class_of_change c = n) (concat (map (table_changes r) (zip_matching target existing)))
      = table_changes r ?ab" .
  have "filter (\<lambda>c. class_of_change c = n) (concat (map class_changes (zip_matching target existing)))
      = filter (\<lambda>c. class_of_change c = n) (at_pair class_changes ?ab)"
    by (rule zip_matching_at [OF assms]) (auto dest: class_changes_own)
  also have "\<dots> = class_changes ?ab"
    by (rule filter_own) (use ab in \<open>auto dest: class_changes_own\<close>)
  finally show ?thesis using 1 by (simp add: changes_of_pair_def)
qed

lemma filter_touches_existing:
  "distinct (map prop_name ps) \<Longrightarrow> filter (touches q) (concat (map (compare_property e t) ps))
     = (case find_property q ps of Some p \<Rightarrow> compare_property e t p | None \<Rightarrow> [])"
proof (induction ps)
  case (Cons p ps)
  have "filter (touches q) (compare_property e t p) = (if prop_name p = q then compare_property e t p else [])"
    by (auto simp: filter_id_conv filter_empty_conv dest: compare_property_own)
  moreover have "find_property q ps = None" if "prop_name p = q"
    using that Cons.prems by (auto simp: find_property_None_iff)
  ultimately show ?case using Cons by auto
qed simp

lemma filter_touches_added:
  "distinct (map prop_name ps) \<Longrightarrow>
     filter (touches q) (map (AddProperty e) (filter (\<lambda>p. property_for_name e (prop_name p) = None) ps))
     = (case find_property q ps of Some p \<Rightarrow> if property_for_name e q = None then [AddProperty e p] else [] | None \<Rightarrow> [])"
proof (induction ps)
  case (Cons p ps)
  moreover have "find_property q ps = None" if "prop_name p = q"
    using that Cons.prems by (auto simp: find_property_None_iff)
  ultimately show ?case by auto
qed simp

lemma touching_changes:
  assumes "distinct (map prop_name (persisted_properties e))" "distinct (map prop_name (persisted_properties t))"
    and "computed_properties e = []"
  shows "filter (touches q) (class_changes (Some t, Some e))
     = (case find_property q (persisted_properties e) of
          Some p \<Rightarrow> compare_property e t p
        | None \<Rightarrow> (case find_property q (persisted_properties t) of Some p \<Rightarrow> [AddProperty e p] | None \<Rightarrow> []))"
  using filter_touches_existing [OF assms(1), where q = q and e = e and t = t]
    filter_touches_added [OF assms(2), where q = q and e = e] assms(3)
  by (auto simp: property_for_name_def simp del: filter_map split: option.splits)

lemma compare_property_removes:
  "(\<forall>c\<in>set (compare_property e t p). is_not_remove_property c) \<or> length (compare_property e t p) \<le> 1"
  by (auto simp: compare_property_def split: option.splits)

lemma key_changes:
  "filter sets_key (class_changes (Some t, Some e))
     = (if primary_key e \<noteq> primary_key t then [ChangePrimaryKey e (primary_key_property t)] else [])"
  by (auto simp: filter_empty_conv dest: compare_property_own)

subsection \<open>The column of a property after its changes\<close>

lemma property_eq_name: "property_eq p q \<Longrightarrow> prop_name p = prop_name q"
  by (simp add: property_eq_def)

lemma compare_property_reaches:
  assumes t: "distinct (map prop_name (all_properties t))"
    and v: "sv_columns v (os_name e) (prop_name p) = Some (column_of is_indexed p)"
  shows "sv_columns (fold apply_change (compare_property e t p) v) (os_name e) (prop_name p)
       = columns_of requires_index t (prop_name p)"
proof (cases "find_property (prop_name p) (persisted_properties t)")
  case None
  then have target: "columns_of requires_index t (prop_name p) = None" by (simp add: columns_of_def)
  have "compare_property e t p = [RemoveProperty e p]"
  proof (cases "find_property (prop_name p) (computed_properties t)")
    case None
    then show ?thesis using \<open>find_property _ (persisted_properties t) = None\<close>
      by (simp add: compare_property_def property_for_name_def)
  next
    case (Some q)
    then have "property_is_computed t q"
      by (auto simp: property_is_computed_def property_eq_def dest!: find_property_name)
    then show ?thesis using Some None by (simp add: compare_property_def property_for_name_def)
  qed
  then show ?thesis using target by simp
next
  case (Some q)
  then have q: "prop_name q = prop_name p" "q \<in> set (persisted_properties t)" by (auto dest: find_property_name)
  have "\<not> property_is_computed t q"
    using t q by (auto simp: property_is_computed_def all_properties_def dest!: property_eq_name)
  then show ?thesis
    using Some v type_eqI [of "prop_type p" "prop_type q"] nullable_type [of "prop_type p"]
    by (auto simp: compare_property_def property_for_name_def columns_of_def column_of_def requires_index_def
          pt_eq_def intro!: type_eqI)
qed

subsection \<open>The comparison\<close>

definition well_formed_target :: "schema \<Rightarrow> bool" where
  "well_formed_target s \<longleftrightarrow> sorted_schema s \<and>
     (\<forall>t\<in>set s. distinct (map prop_name (all_properties t)) \<and> (primary_key t \<noteq> [] \<longrightarrow> primary_key_property t \<noteq> None))"

definition well_formed_existing :: "schema \<Rightarrow> bool" where
  "well_formed_existing s \<longleftrightarrow> sorted_schema s \<and>
     (\<forall>e\<in>set s. distinct (map prop_name (persisted_properties e)) \<and> computed_properties e = [])"

definition combined_view :: "schema \<Rightarrow> schema \<Rightarrow> bool \<Rightarrow> schema_view" where
  "combined_view existing target removals =
     (let e = view_of is_indexed existing; t = view_of requires_index target in
      \<lparr>sv_keys = (if removals then sv_keys t else sv_keys e ++ sv_keys t),
       sv_columns = (\<lambda>n. if sv_keys t n \<noteq> None \<or> removals then sv_columns t n else sv_columns e n)\<rparr>)"

lemma compare_filter:
  assumes "sorted_schema target" "sorted_schema existing"
    and "let cs = filter P (changes_of_pair r (class_named target n, class_named existing n))
         in (\<forall>c\<in>set cs. is_not_remove_property c) \<or> length cs \<le> 1"
  shows "filter (\<lambda>c. class_of_change c = n \<and> P c) (schema_compare existing target r)
       = filter P (changes_of_pair r (class_named target n, class_named existing n))"
proof -
  have f: "filter (\<lambda>c. class_of_change c = n \<and> P c) (unordered_changes existing target r)
      = filter P (changes_of_pair r (class_named target n, class_named existing n))"
    by (simp only: changes_of_class [OF assms(1,2), symmetric] filter_filter)
  have "filter (\<lambda>c. class_of_change c = n \<and> P c) (schema_compare existing target r)
      = filter (\<lambda>c. class_of_change c = n \<and> P c) (unordered_changes existing target r)"
    by (rule filter_reordered [where N = is_not_remove_property])
       (use assms(3) in \<open>simp_all only: schema_compare_kept f Let_def\<close>)
  with f show ?thesis by simp
qed

lemma sets_key_not_removal: "sets_key c \<Longrightarrow> is_not_remove_property c"
  by (cases c) simp_all

lemma compare_reaches_key:
  assumes "well_formed_target target" "well_formed_existing existing"
  shows "sv_keys (fold apply_change (schema_compare existing target r) (view_of is_indexed existing)) n
       = sv_keys (combined_view existing target r) n"
proof -
  have sorted: "sorted_schema target" "sorted_schema existing"
    using assms by (simp_all add: well_formed_target_def well_formed_existing_def)
  have f: "filter (concerns_key n) (schema_compare existing target r)
      = filter sets_key (changes_of_pair r (class_named target n, class_named existing n))"
    by (rule compare_filter [OF sorted]) (auto dest: sets_key_not_removal)
  have key: "primary_key t = (case primary_key_property t of Some p \<Rightarrow> prop_name p | None \<Rightarrow> [])"
    if "class_named target n = Some t" for t
    using assms(1) that by (auto simp: well_formed_target_def dest!: class_named_SomeD
        split: option.splits dest: primary_key_property_name)
  show ?thesis
  proof (cases "class_named target n")
    case None
    then show ?thesis
      unfolding fold_apply_key [of "schema_compare existing target r"] f
      by (cases "class_named existing n")
         (auto simp: combined_view_def view_of_def changes_of_pair_def Let_def map_add_def dest: class_named_SomeD)
  next
    case (Some t)
    then have n: "os_name t = n" by (auto dest: class_named_SomeD)
    show ?thesis
    proof (cases "class_named existing n")
      case None
      then show ?thesis
        unfolding fold_apply_key [of "schema_compare existing target r"] f
        using Some n by (simp add: combined_view_def view_of_def changes_of_pair_def Let_def)
    next
      case (Some e)
      then have "os_name e = n" by (auto dest: class_named_SomeD)
      moreover have "filter sets_key (changes_of_pair r (Some t, Some e))
          = (if primary_key e \<noteq> primary_key t then [ChangePrimaryKey e (primary_key_property t)] else [])"
        by (simp only: changes_of_pair_def table_changes.simps append_Nil key_changes)
      ultimately show ?thesis
        unfolding fold_apply_key [of "schema_compare existing target r"] f
        using \<open>class_named target n = Some t\<close> Some key [of t]
        by (simp add: combined_view_def view_of_def Let_def)
    qed
  qed
qed

lemma compare_reaches_column:
  assumes "well_formed_target target" "well_formed_existing existing"
  shows "sv_columns (fold apply_change (schema_compare existing target r) (view_of is_indexed existing)) n q
       = sv_columns (combined_view existing target r) n q"
proof -
  have sorted: "sorted_schema target" "sorted_schema existing"
    using assms by (simp_all add: well_formed_target_def well_formed_existing_def)
  let ?cs = "filter (touches q) (changes_of_pair r (class_named target n, class_named existing n))"
  let ?v = "view_of is_indexed existing"
  have filtered: "sv_columns (fold apply_change (schema_compare existing target r) ?v) n q
      = sv_columns (fold apply_change ?cs ?v) n q"
    if "(\<forall>c\<in>set ?cs. is_not_remove_property c) \<or> length ?cs \<le> 1"
    using compare_filter [OF sorted, where P = "touches q" and n = n and r = r] that
    unfolding Let_def by (subst fold_apply_column) simp
  show ?thesis
  proof (cases "class_named target n")
    case None
    then show ?thesis
      by (subst filtered; cases "class_named existing n")
         (auto simp: combined_view_def view_of_def changes_of_pair_def Let_def dest: class_named_SomeD)
  next
    case t: (Some t)
    then have n: "os_name t = n" and t': "distinct (map prop_name (all_properties t))"
      using assms(1) by (auto simp: well_formed_target_def dest: class_named_SomeD)
    have target: "sv_columns (combined_view existing target r) n = columns_of requires_index t"
      using t by (simp add: combined_view_def view_of_def Let_def)
    show ?thesis
    proof (cases "class_named existing n")
      case None
      then have "?cs = [AddInitialProperties t]" "sv_columns ?v n q = None"
        using t by (simp_all add: changes_of_pair_def view_of_def)
      then show ?thesis
        using filtered target n by (simp add: map_add_def split: option.split)
    next
      case (Some e)
      then have e: "os_name e = n" "distinct (map prop_name (persisted_properties e))" "computed_properties e = []"
        using assms(2) by (auto simp: well_formed_existing_def dest: class_named_SomeD)
      have cs: "?cs = (case find_property q (persisted_properties e) of
            Some p \<Rightarrow> compare_property e t p
          | None \<Rightarrow> (case find_property q (persisted_properties t) of Some p \<Rightarrow> [AddProperty e p] | None \<Rightarrow> []))"
        using touching_changes [OF e(2) _ e(3), of t q] t' t Some
        by (simp add: changes_of_pair_def all_properties_def)
      have v: "sv_columns ?v n q = columns_of is_indexed e q" using Some by (simp add: view_of_def)
      show ?thesis
      proof (cases "find_property q (persisted_properties e)")
        case None
        then show ?thesis
          using cs filtered target v e(1)
          by (cases "find_property q (persisted_properties t)") (auto simp: columns_of_def dest: find_property_name)
      next
        case (Some p)
        then have p: "prop_name p = q" by (auto dest: find_property_name)
        have "sv_columns (fold apply_change (compare_property e t p) ?v) n q = columns_of requires_index t q"
          using compare_property_reaches [OF t', of ?v e p] v e(1) p Some by (simp add: columns_of_def)
        then show ?thesis using cs Some filtered target compare_property_removes [of e t p] by simp
      qed
    qed
  qed
qed

lemma compare_reaches_target_fold:
  assumes "well_formed_target target" "well_formed_existing existing"
  shows "fold apply_change (schema_compare existing target removals) (view_of is_indexed existing)
       = combined_view existing target removals"
  by (rule schema_view.equality) (auto intro!: ext compare_reaches_key compare_reaches_column assms)

subsection \<open>The order of removals\<close>

definition removals_descend :: "schema_change list \<Rightarrow> bool" where
  "removals_descend cs \<longleftrightarrow> (\<exists>kept removed. cs = kept @ removed \<and> (\<forall>c\<in>set kept. is_not_remove_property c)
     \<and> (\<forall>c\<in>set removed. \<not> is_not_remove_property c) \<and> sorted_wrt (\<lambda>a b. removed_column b \<le> removed_column a) removed)"

lemma removals_last_descend: "removals_descend (removals_last cs)"
  unfolding removals_descend_def
proof (intro exI conjI)
  let ?removed = "sort_key (\<lambda>c. - int (removed_column c)) (filter (\<lambda>c. \<not> is_not_remove_property c) cs)"
  show "removals_last cs = filter is_not_remove_property cs @ ?removed" by (simp add: removals_last_def)
  have "sorted (map (\<lambda>c. - int (removed_column c)) ?removed)" by simp
  then show "sorted_wrt (\<lambda>a b. removed_column b \<le> removed_column a) ?removed"
    by (simp only: sorted_map neg_le_iff_le of_nat_le_iff)
qed simp_all

lemma removals_descend_filter: "removals_descend cs \<Longrightarrow> removals_descend (filter P cs)"
  unfolding removals_descend_def
proof (elim exE conjE)
  fix kept removed
  assume *: "cs = kept @ removed" "\<forall>c\<in>set kept. is_not_remove_property c"
    "\<forall>c\<in>set removed. \<not> is_not_remove_property c" "sorted_wrt (\<lambda>a b. removed_column b \<le> removed_column a) removed"
  show "\<exists>kept removed. filter P cs = kept @ removed \<and> (\<forall>c\<in>set kept. is_not_remove_property c)
     \<and> (\<forall>c\<in>set removed. \<not> is_not_remove_property c) \<and> sorted_wrt (\<lambda>a b. removed_column b \<le> removed_column a) removed"
    by (rule exI [of _ "filter P kept"], rule exI [of _ "filter P removed"]) (use * in \<open>simp add: sorted_wrt_filter\<close>)
qed

lemma removals_descend_kept: "\<forall>c\<in>set cs. is_not_remove_property c \<Longrightarrow> removals_descend cs"
  unfolding removals_descend_def by (rule exI [of _ cs], rule exI [of _ "[]"]) simp

lemma zip_matching_pairs:
  "sorted_schema a \<Longrightarrow> sorted_schema b \<Longrightarrow> ab \<in> set (zip_matching a b) \<Longrightarrow>
     matched ab \<and> pair_name ab \<in> os_name ` set a \<union> os_name ` set b"
  by (induction a b rule: zip_matching.induct) (auto simp: sorted_schema_Cons split: if_splits)

lemma zip_matching_fresh:
  assumes "sorted_schema a" "sorted_schema b" "n \<notin> os_name ` set a \<union> os_name ` set b"
  shows "n \<notin> pair_name ` set (zip_matching a b)"
proof
  assume "n \<in> pair_name ` set (zip_matching a b)"
  then obtain ab where "ab \<in> set (zip_matching a b)" "n = pair_name ab" by (rule imageE)
  with zip_matching_pairs [OF assms(1,2), of ab] assms(3) show False by simp
qed

lemma smaller_name_fresh: "n \<le> m \<Longrightarrow> \<forall>z\<in>set s. m < os_name z \<Longrightarrow> n \<notin> os_name ` set s"
  by auto

lemma zip_matching_distinct:
  "sorted_schema a \<Longrightarrow> sorted_schema b \<Longrightarrow> distinct (map pair_name (zip_matching a b))"
proof (induction a b rule: zip_matching.induct)
  case (1 x xs y ys)
  have s: "sorted_schema xs" "sorted_schema ys" "\<forall>z\<in>set xs. os_name x < os_name z" "\<forall>z\<in>set ys. os_name y < os_name z"
    using "1.prems" by (simp_all add: sorted_schema_Cons)
  consider "os_name x = os_name y" | "os_name x < os_name y" | "os_name y < os_name x"
    by (rule linorder_cases [of "os_name x" "os_name y"]) auto
  then show ?case
  proof cases
    case 1
    then have "os_name x \<notin> os_name ` set xs \<union> os_name ` set ys"
      using smaller_name_fresh [OF _ s(3), of "os_name x"] smaller_name_fresh [OF _ s(4), of "os_name x"] by simp
    then have "os_name x \<notin> pair_name ` set (zip_matching xs ys)"
      by (rule zip_matching_fresh [OF s(1,2)])
    moreover have "zip_matching (x # xs) (y # ys) = (Some x, Some y) # zip_matching xs ys" using 1 by simp
    ultimately show ?thesis using "1.IH"(1) [OF 1 s(1,2)] by (simp del: zip_matching.simps)
  next
    case 2
    then have "os_name x \<notin> os_name ` set xs \<union> os_name ` set (y # ys)"
      using smaller_name_fresh [OF order_refl s(3)] smaller_name_fresh [OF _ s(4), of "os_name x"] by auto
    then have "os_name x \<notin> pair_name ` set (zip_matching xs (y # ys))"
      by (rule zip_matching_fresh [OF s(1) "1.prems"(2)])
    moreover have "zip_matching (x # xs) (y # ys) = (Some x, None) # zip_matching xs (y # ys)" using 2 by auto
    ultimately show ?thesis using "1.IH"(2) [OF _ 2 s(1) "1.prems"(2)] 2 by (simp del: zip_matching.simps)
  next
    case 3
    then have "os_name y \<notin> os_name ` set (x # xs) \<union> os_name ` set ys"
      using smaller_name_fresh [OF order_refl s(4)] smaller_name_fresh [OF _ s(3), of "os_name y"] by auto
    then have "os_name y \<notin> pair_name ` set (zip_matching (x # xs) ys)"
      by (rule zip_matching_fresh [OF "1.prems"(1) s(2)])
    moreover have "zip_matching (x # xs) (y # ys) = (None, Some y) # zip_matching (x # xs) ys" using 3 by auto
    ultimately show ?thesis using "1.IH"(3) [OF _ _ "1.prems"(1) s(2)] 3 by (simp del: zip_matching.simps)
  qed
qed (auto simp: sorted_schema_def comp_def)

lemma column_changes_class:
  assumes "matched ab" "removals_descend (filter (\<lambda>c. class_of_change c = n) cs)"
    and "\<forall>c\<in>set cs. \<not> is_not_remove_property c \<longrightarrow> class_of_change c \<noteq> pair_name ab"
  shows "removals_descend (filter (\<lambda>c. class_of_change c = n) (column_changes ab cs))"
proof (cases "(ab, cs)" rule: column_changes.cases)
  case (1 target existing changes)
  then show ?thesis by (simp add: compare_objects_eq removals_last_descend removals_descend_filter)
next
  case (2 target changes)
  show ?thesis
  proof (cases "os_name target = n")
    case True
    then show ?thesis using 2 assms(3) by (auto intro!: removals_descend_kept)
  qed (use 2 assms(2) in auto)
qed (use assms(2) in auto)

lemma fold_column_changes_class:
  assumes "distinct (map pair_name zs)" "\<forall>ab\<in>set zs. matched ab"
    and "removals_descend (filter (\<lambda>c. class_of_change c = n) cs)"
    and "\<forall>c\<in>set cs. \<not> is_not_remove_property c \<longrightarrow> class_of_change c \<notin> pair_name ` set zs"
  shows "removals_descend (filter (\<lambda>c. class_of_change c = n) (fold column_changes zs cs))"
  using assms
proof (induction zs arbitrary: cs)
  case (Cons z zs)
  have "set (column_changes z cs) = set (cs @ class_changes z)"
    using column_changes_kept [of z cs] by (metis set_mset_mset)
  then have "\<forall>c\<in>set (column_changes z cs). \<not> is_not_remove_property c \<longrightarrow> class_of_change c \<notin> pair_name ` set zs"
    using Cons.prems by (auto dest: class_changes_own)
  then show ?case
    using Cons.IH [of "column_changes z cs"] Cons.prems column_changes_class [of z n cs] by simp
qed simp

subsection \<open>Comparing a schema with itself\<close>

lemma zip_matching_self: "zip_matching s s = map (\<lambda>os. (Some os, Some os)) s"
  by (induction s) simp_all

lemma concat_eq_Nil: "concat (map f xs) = [] \<longleftrightarrow> (\<forall>x\<in>set xs. f x = [])"
  by (induction xs) auto

lemma property_for_name_mem:
  "distinct (map prop_name (persisted_properties os)) \<Longrightarrow> p \<in> set (persisted_properties os) \<Longrightarrow>
     property_for_name os (prop_name p) = Some p"
  using find_property_Some_iff [of "persisted_properties os" "prop_name p" p] by (simp add: property_for_name_def)

lemma compare_property_self:
  assumes "distinct (map prop_name (persisted_properties os))" "computed_properties os = []"
    and "p \<in> set (persisted_properties os)"
  shows "compare_property os os p = [] \<longleftrightarrow> (requires_index p \<longrightarrow> is_indexed p)"
  using assms by (auto simp: compare_property_def property_for_name_mem property_is_computed_def pt_eq_def)

lemma class_changes_self:
  assumes "distinct (map prop_name (persisted_properties os))" "computed_properties os = []"
  shows "class_changes (Some os, Some os) = []
    \<longleftrightarrow> (\<forall>p\<in>set (persisted_properties os). requires_index p \<longrightarrow> is_indexed p)"
  using assms by (auto simp: concat_eq_Nil compare_property_self property_for_name_mem filter_empty_conv)

lemma compare_self_changes:
  assumes "well_formed_existing s"
  shows "schema_compare s s r = [] \<longleftrightarrow> (\<forall>os\<in>set s. \<forall>p\<in>set (persisted_properties os). requires_index p \<longrightarrow> is_indexed p)"
proof -
  have "schema_compare s s r = [] \<longleftrightarrow> unordered_changes s s r = []"
    using schema_compare_kept(2) [of s s r] by (metis mset_zero_iff)
  also have "\<dots> \<longleftrightarrow> (\<forall>os\<in>set s. class_changes (Some os, Some os) = [])"
    by (simp add: zip_matching_self concat_eq_Nil comp_def del: class_changes.simps)
  also have "\<dots> \<longleftrightarrow> (\<forall>os\<in>set s. \<forall>p\<in>set (persisted_properties os). requires_index p \<longrightarrow> is_indexed p)"
    using assms class_changes_self by (simp add: well_formed_existing_def del: class_changes.simps)
  finally show ?thesis .
qed

subsection \<open>Copying the columns\<close>

definition with_column_of :: "property list \<Rightarrow> property \<Rightarrow> property" where
  "with_column_of ps p =
     (case find_property (prop_name p) ps of Some q \<Rightarrow> p\<lparr>table_column := table_column q\<rparr> | None \<Rightarrow> p)"

definition with_columns_of :: "property list \<Rightarrow> object_schema \<Rightarrow> object_schema" where
  "with_columns_of ps os = os\<lparr>persisted_properties := map (with_column_of ps) (persisted_properties os),
     computed_properties := map (with_column_of ps) (computed_properties os)\<rparr>"

lemma with_column_name [simp]: "prop_name (with_column_of ps p) = prop_name p"
  by (simp add: with_column_of_def split: option.split)

lemma map_unnamed:
  "n \<notin> prop_name ` set qs \<Longrightarrow> map (\<lambda>q. if prop_name q = n then f q else q) qs = qs"
  by (induction qs) auto

lemma update_property_map:
  "distinct (map prop_name qs) \<Longrightarrow>
     update_property n f qs = map (\<lambda>q. if prop_name q = n then f q else q) qs"
proof (induction qs)
  case (Cons q qs)
  then show ?case using map_unnamed [of "prop_name q" qs f] by auto
qed simp

lemma update_property_for_name_map:
  assumes "distinct (map prop_name (all_properties os))"
  shows "update_property_for_name os n f = os\<lparr>
     persisted_properties := map (\<lambda>q. if prop_name q = n then f q else q) (persisted_properties os),
     computed_properties := map (\<lambda>q. if prop_name q = n then f q else q) (computed_properties os)\<rparr>"
proof (cases "find_property n (persisted_properties os)")
  case None
  then have "map (\<lambda>q. if prop_name q = n then f q else q) (persisted_properties os) = persisted_properties os"
    by (simp add: find_property_None_iff map_unnamed)
  then show ?thesis using None assms
    by (simp add: update_property_for_name_def update_property_map all_properties_def)
next
  case (Some p)
  then have "map (\<lambda>q. if prop_name q = n then f q else q) (computed_properties os) = computed_properties os"
    using assms by (intro map_unnamed) (auto simp: all_properties_def dest!: find_property_name)
  then show ?thesis using Some assms
    by (simp add: update_property_for_name_def update_property_map all_properties_def)
qed

lemma copy_columns_eq:
  "distinct (map prop_name (all_properties os)) \<Longrightarrow> distinct (map prop_name ps) \<Longrightarrow>
     copy_columns ps os = with_columns_of ps os"
proof (induction ps arbitrary: os)
  case Nil
  have "with_column_of [] = id" by (auto simp: with_column_of_def)
  then show ?case by (simp add: with_columns_of_def)
next
  case (Cons p ps)
  define os' where "os' = update_property_for_name os (prop_name p) (\<lambda>q. q\<lparr>table_column := table_column p\<rparr>)"
  have os': "os' = os\<lparr>
     persisted_properties := map (\<lambda>q. if prop_name q = prop_name p then q\<lparr>table_column := table_column p\<rparr> else q)
       (persisted_properties os),
     computed_properties := map (\<lambda>q. if prop_name q = prop_name p then q\<lparr>table_column := table_column p\<rparr> else q)
       (computed_properties os)\<rparr>"
    unfolding os'_def by (rule update_property_for_name_map [OF Cons.prems(1)])
  have names: "map prop_name (all_properties os') = map prop_name (all_properties os)"
    by (auto simp: os' all_properties_def)
  have "find_property (prop_name p) ps = None" using Cons.prems(2) by (auto simp: find_property_None_iff)
  then have step: "with_column_of ps (if prop_name q = prop_name p then q\<lparr>table_column := table_column p\<rparr> else q)
      = with_column_of (p # ps) q" for q
    by (auto simp: with_column_of_def)
  have "with_columns_of ps os' = with_columns_of (p # ps) os"
    by (simp add: with_columns_of_def os' step comp_def)
  then show ?case using Cons.IH [of os'] Cons.prems names by (simp add: os'_def [symmetric])
qed

lemma copy_columns_name [simp]: "os_name (copy_columns ps os) = os_name os"
  by (induction ps arbitrary: os) (simp_all add: update_property_for_name_def)

fun matching_columns :: "object_schema option \<times> object_schema option \<Rightarrow> (string \<times> property list) list" where
  "matching_columns (Some existing, Some other) = [(os_name existing, persisted_properties other)]"
| "matching_columns _ = []"

definition copy_if_named :: "string \<times> property list \<Rightarrow> object_schema \<Rightarrow> object_schema" where
  "copy_if_named c os = (if os_name os = fst c then copy_columns (snd c) os else os)"

lemma copy_if_named_name [simp]: "os_name (copy_if_named c os) = os_name os"
  by (simp add: copy_if_named_def)

lemma fold_copy_matching:
  "fold copy_matching zs s = map (fold copy_if_named (concat (map matching_columns zs))) s"
proof (induction zs arbitrary: s)
  case (Cons z zs)
  have "copy_matching z s = map (fold copy_if_named (matching_columns z)) s"
    by (cases z rule: matching_columns.cases) (simp_all add: copy_if_named_def cong: map_cong)
  then show ?case using Cons.IH by (simp add: comp_def)
qed simp

lemma fold_copy_named:
  "fold copy_if_named cs os = fold copy_if_named (filter (\<lambda>c. fst c = os_name os) cs) os"
  by (induction cs arbitrary: os) (auto simp: copy_if_named_def)

lemma copy_table_columns_eq:
  assumes "sorted_schema s" "sorted_schema other"
    and "\<forall>os\<in>set s. distinct (map prop_name (all_properties os))"
    and "\<forall>os\<in>set other. distinct (map prop_name (persisted_properties os))"
  shows "copy_table_columns_from s other = map (\<lambda>os. case class_named other (os_name os) of
      Some o' \<Rightarrow> with_columns_of (persisted_properties o') os | None \<Rightarrow> os) s"
  unfolding copy_table_columns_from_def fold_copy_matching
proof (rule map_cong [OF refl])
  fix os assume os: "os \<in> set s"
  let ?n = "os_name os"
  have "filter (\<lambda>c. fst c = ?n) (concat (map matching_columns (zip_matching s other)))
      = filter (\<lambda>c. fst c = ?n) (at_pair matching_columns (class_named s ?n, class_named other ?n))"
  proof (rule zip_matching_at [OF assms(1,2)])
    fix ab c assume "matched ab" "c \<in> set (matching_columns ab)" "fst c = ?n"
    then show "pair_name ab = ?n" by (cases ab rule: matching_columns.cases) auto
  qed
  also have "\<dots> = (case class_named other ?n of Some o' \<Rightarrow> [(?n, persisted_properties o')] | None \<Rightarrow> [])"
    using class_named_mem [OF assms(1) os] by (cases "class_named other ?n") (simp_all add: at_pair_def)
  finally have cs: "filter (\<lambda>c. fst c = ?n) (concat (map matching_columns (zip_matching s other)))
      = (case class_named other ?n of Some o' \<Rightarrow> [(?n, persisted_properties o')] | None \<Rightarrow> [])" .
  show "fold copy_if_named (concat (map matching_columns (zip_matching s other))) os
      = (case class_named other ?n of Some o' \<Rightarrow> with_columns_of (persisted_properties o') os | None \<Rightarrow> os)"
    unfolding fold_copy_named [of "concat (map matching_columns (zip_matching s other))"] cs
    using assms(3,4) os
    by (cases "class_named other ?n") (auto simp: copy_if_named_def copy_columns_eq dest: class_named_SomeD)
qed

end
