(* ===== verification/Schema_Claims.thy ===== *)
theory Schema_Claims
  imports Schema_Properties "HOL-Library.Code_Target_Nat"
begin

section \<open>Properties of schemas\<close>

text \<open>
  A declarative account of what \<open>Schema::validate\<close> accepts, the columns that
  \<open>copy_table_columns_from\<close> leaves, and the properties of the component with their witnesses.
\<close>

declare npos_def [code]

subsection \<open>Validation\<close>

definition valid_link :: "schema \<Rightarrow> string \<Rightarrow> property \<Rightarrow> bool" where
  "valid_link s n p \<longleftrightarrow>
     (if pt_eq (prop_type p) PT_Object then \<exists>os\<in>set s. os_name os = object_type p
      else if pt_eq (prop_type p) PT_LinkingObjects
      then \<exists>os\<in>set s. os_name os = object_type p \<and>
        (\<exists>origin. property_for_name os (link_origin_property_name p) = Some origin
           \<and> pt_eq (prop_type origin) PT_Object \<and> object_type origin = n)
      else object_type p = [])"

definition valid_property :: "schema \<Rightarrow> string \<Rightarrow> property \<Rightarrow> bool" where
  "valid_property s n p \<longleftrightarrow>
     (pt_eq (prop_type p) PT_LinkingObjects \<longrightarrow> is_array (prop_type p) \<and> \<not> is_nullable (prop_type p))
   \<and> (pt_eq (prop_type p) PT_Object \<longrightarrow> is_array (prop_type p) \<noteq> is_nullable (prop_type p))
   \<and> (is_primary p \<longrightarrow> pt_eq (prop_type p) PT_Int \<or> pt_eq (prop_type p) PT_String)
   \<and> (is_indexed p \<longrightarrow> type_is_indexable p)
   \<and> (link_origin_property_name p \<noteq> [] \<longleftrightarrow> pt_eq (prop_type p) PT_LinkingObjects)
   \<and> valid_link s n p"

definition valid_class :: "schema \<Rightarrow> object_schema \<Rightarrow> bool" where
  "valid_class s os \<longleftrightarrow>
     (\<forall>p\<in>set (all_properties os). valid_property s (os_name os) p)
   \<and> length (filter is_primary (all_properties os)) \<le> 1
   \<and> (primary_key os \<noteq> [] \<longrightarrow> (\<exists>p\<in>set (all_properties os). is_primary p \<or> prop_name p = primary_key os))"

lemma object_not_linking: "pt_eq t PT_Object \<Longrightarrow> \<not> pt_eq t PT_LinkingObjects"
  by (auto simp: pt_eq_def base_type_def PT_defs)

lemma check_type_Nil:
  "check_type n p = [] \<longleftrightarrow>
     (pt_eq (prop_type p) PT_LinkingObjects \<longrightarrow> is_array (prop_type p) \<and> \<not> is_nullable (prop_type p))
   \<and> (pt_eq (prop_type p) PT_Object \<longrightarrow> is_array (prop_type p) \<noteq> is_nullable (prop_type p))"
  using object_not_linking [of "prop_type p"] by (auto simp: check_type_def type_is_nullable_def)

lemma check_index_Nil:
  "check_index_and_origin n p = [] \<longleftrightarrow> (is_indexed p \<longrightarrow> type_is_indexable p)
     \<and> (link_origin_property_name p \<noteq> [] \<longleftrightarrow> pt_eq (prop_type p) PT_LinkingObjects)"
  by (auto simp: check_index_and_origin_def)

lemma class_named_None_iff: "class_named s n = None \<longleftrightarrow> (\<forall>os\<in>set s. os_name os \<noteq> n)"
  by (auto simp: find_None_iff)

lemma check_link_Nil:
  assumes "sorted_schema s"
  shows "check_link s n p = [] \<longleftrightarrow> valid_link s n p"
proof (cases "class_named s (object_type p)")
  case None
  then have "\<forall>os\<in>set s. os_name os \<noteq> object_type p" by (simp only: class_named_None_iff)
  with None show ?thesis using assms
    by (auto simp: check_link_def valid_link_def schema_find_class_named)
next
  case (Some os)
  then have os: "os \<in> set s" "os_name os = object_type p" by (auto dest: class_named_SomeD)
  have unique: "x = os" if "x \<in> set s" "os_name x = object_type p" for x
    using class_named_mem [OF assms that(1)] that(2) Some by simp
  have one: "(\<exists>x\<in>set s. os_name x = object_type p \<and> Q x) \<longleftrightarrow> Q os" for Q
    using os unique by metis
  show ?thesis
    using one [of "\<lambda>_. True"] Some object_not_linking [of "prop_type p"]
    by (simp add: check_link_def valid_link_def schema_find_class_named [OF assms] one split: option.splits)
qed

lemma validate_property_Nil:
  assumes "sorted_schema s"
  shows "fst (validate_property s n p primary) = [] \<longleftrightarrow> valid_property s n p \<and> (is_primary p \<longrightarrow> primary = None)"
    and "snd (validate_property s n p primary) = (if is_primary p then Some p else primary)"
  by (auto simp: validate_property_def valid_property_def check_primary_def check_type_Nil check_index_Nil
      check_link_Nil [OF assms] split: option.splits)

lemma validate_properties_Nil:
  assumes "sorted_schema s"
  shows "(fst (validate_properties s n ps primary) = [] \<longleftrightarrow> (\<forall>p\<in>set ps. valid_property s n p)
      \<and> length (filter is_primary ps) + (if primary = None then 0 else 1) \<le> 1)
    \<and> (snd (validate_properties s n ps primary) = None \<longleftrightarrow> primary = None \<and> filter is_primary ps = [])"
proof (induction ps arbitrary: primary)
  case (Cons p ps)
  obtain e primary' where v: "validate_property s n p primary = (e, primary')" by fastforce
  obtain e' primary'' where vs: "validate_properties s n ps primary' = (e', primary'')" by fastforce
  from validate_property_Nil [OF assms, of n p primary] v
  have "e = [] \<longleftrightarrow> valid_property s n p \<and> (is_primary p \<longrightarrow> primary = None)"
    "primary' = (if is_primary p then Some p else primary)" by simp_all
  then show ?case using Cons.IH [of primary'] v vs by auto
qed simp

lemma property_for_name_all: "property_for_name os n = find_property n (all_properties os)"
proof -
  have "find_property n (ps @ qs) = (case find_property n ps of Some p \<Rightarrow> Some p | None \<Rightarrow> find_property n qs)"
    for ps qs by (induction ps) auto
  then show ?thesis by (simp add: property_for_name_def all_properties_def)
qed

lemma object_validate_Nil:
  assumes "sorted_schema s"
  shows "object_validate s os = [] \<longleftrightarrow> valid_class s os"
proof -
  obtain e primary where 1: "validate_properties s (os_name os) (persisted_properties os) None = (e, primary)" by fastforce
  obtain e' primary' where 2: "validate_properties s (os_name os) (computed_properties os) primary = (e', primary')" by fastforce
  have pk: "primary_key_property os = None \<longleftrightarrow> (\<forall>p\<in>set (all_properties os). prop_name p \<noteq> primary_key os)"
    unfolding primary_key_property_def property_for_name_all find_property_None_iff
    by (metis image_iff)
  let ?f = "filter is_primary (persisted_properties os)" and ?g = "filter is_primary (computed_properties os)"
  have e: "e = [] \<longleftrightarrow> (\<forall>p\<in>set (persisted_properties os). valid_property s (os_name os) p) \<and> length ?f \<le> 1"
    "primary = None \<longleftrightarrow> ?f = []"
    using validate_properties_Nil [OF assms, of "os_name os" "persisted_properties os" None] 1 by simp_all
  have e': "e' = [] \<longleftrightarrow> (\<forall>p\<in>set (computed_properties os). valid_property s (os_name os) p)
      \<and> length ?g + (if ?f = [] then 0 else 1) \<le> 1"
    "primary' = None \<longleftrightarrow> ?f = [] \<and> ?g = []"
    using validate_properties_Nil [OF assms, of "os_name os" "computed_properties os" primary] 2 e(2) by simp_all
  have one: "length ?f \<le> 1 \<and> length ?g + (if ?f = [] then 0 else 1) \<le> 1
      \<longleftrightarrow> length (filter is_primary (all_properties os)) \<le> 1"
    by (cases ?f) (auto simp: all_properties_def)
  have "?f = [] \<and> ?g = [] \<longleftrightarrow> (\<forall>p\<in>set (all_properties os). \<not> is_primary p)"
    by (auto simp: all_properties_def filter_empty_conv)
  then have missing: "primary' = None \<and> primary_key_property os = None
      \<longleftrightarrow> \<not> (\<exists>p\<in>set (all_properties os). is_primary p \<or> prop_name p = primary_key os)"
    using e'(2) pk by blast
  have "object_validate s os = [] \<longleftrightarrow> e = [] \<and> e' = []
      \<and> \<not> (primary_key os \<noteq> [] \<and> primary' = None \<and> primary_key_property os = None)"
    using 1 2 by (simp add: object_validate_def)
  also have "\<dots> \<longleftrightarrow> valid_class s os"
    unfolding e(1) e'(1) valid_class_def missing
    using one by (auto simp: all_properties_def)
  finally show ?thesis .
qed

lemma duplicates_Nil: "sorted (map os_name s) \<Longrightarrow> duplicates s = [] \<longleftrightarrow> distinct (map os_name s)"
proof (induction s rule: duplicates.induct)
  case (1 a b os)
  then show ?case by (auto simp: order.order_iff_strict) (metis image_eqI less_asym)?
qed simp_all

text \<open>C11: \<open>Schema::validate\<close> throws nothing exactly when the schema is consistent: no two classes have the
  same name, every property is valid (nullability, primary key type, index, links to existing classes,
  origins of linking objects that link back), and every class has at most one primary key, which exists
  when its name is given. \<close>

theorem validate_accepts_consistent:
  assumes "sorted (map os_name s)"
  shows "schema_validate s = Inr () \<longleftrightarrow> distinct (map os_name s) \<and> (\<forall>os\<in>set s. valid_class s os)"
proof (cases "distinct (map os_name s)")
  case True
  then have s: "sorted_schema s" using assms by (simp add: sorted_schema_def)
  show ?thesis
    using duplicates_Nil [OF assms] True
    by (simp add: schema_validate_def concat_eq_Nil object_validate_Nil [OF s])
next
  case False
  then show ?thesis using duplicates_Nil [OF assms] by (simp add: schema_validate_def)
qed

definition dog :: object_schema where
  "dog = object_schema_new ''Dog''
     [property_new ''id'' PT_Int True False, property_new ''name'' PT_String False True,
      property_link ''owner'' (PT_Object OR PT_Nullable) ''Person'' []] []"

definition person :: object_schema where
  "person = object_schema_new ''Person'' [property_new ''age'' (PT_Int OR PT_Nullable) False False]
     [property_link ''dogs'' (PT_LinkingObjects OR PT_Array) ''Dog'' ''owner'']"

theorem validate_accepts_consistent_witness:
  "sorted (map os_name [dog, person]) \<and>
   (schema_validate [dog, person] = Inr () \<longleftrightarrow>
      distinct (map os_name [dog, person]) \<and> (\<forall>os\<in>set [dog, person]. valid_class [dog, person] os))"
proof -
  have "sorted (map os_name [dog, person])" by code_simp
  with validate_accepts_consistent [OF this] show ?thesis by blast
qed

subsection \<open>Lookup and comparison\<close>

text \<open>after the constructor has sorted the classes, the binary search of \<open>Schema::find\<close> returns the class of
  a name when there is one, and \<open>end()\<close> otherwise, whatever the order in which the classes were given. \<close>

theorem schema_find_constructed:
  assumes "distinct (map os_name types)"
  shows "schema_find (schema_new types) n = map_of (map (\<lambda>os. (os_name os, os)) types) n"
proof -
  have s: "sorted_schema (schema_new types)"
    using assms by (simp add: sorted_schema_def schema_new_def distinct_map)
  have keys: "distinct (map fst (map (\<lambda>os. (os_name os, os)) types))" using assms by (simp add: comp_def)
  have set: "set (schema_new types) = set types" by (simp add: schema_new_def)
  show ?thesis
  proof (cases "class_named (schema_new types) n")
    case None
    then have "n \<notin> fst ` set (map (\<lambda>os. (os_name os, os)) types)"
      by (auto simp: class_named_None_iff set)
    then show ?thesis using None by (simp add: schema_find_class_named [OF s] map_of_eq_None_iff [THEN iffD2])
  next
    case (Some os)
    then have "(n, os) \<in> set (map (\<lambda>os. (os_name os, os)) types)" by (auto simp: set dest: class_named_SomeD)
    with keys have "map_of (map (\<lambda>os. (os_name os, os)) types) n = Some os" by (rule map_of_is_SomeI)
    with Some show ?thesis by (simp add: schema_find_class_named [OF s])
  qed
qed

theorem schema_find_constructed_witness:
  "distinct (map os_name [person, dog]) \<and> schema_find (schema_new [person, dog]) ''Dog'' = Some dog"
proof -
  have d: "distinct (map os_name [person, dog])" by code_simp
  have "map_of (map (\<lambda>os. (os_name os, os)) [person, dog]) ''Dog'' = Some dog" by code_simp
  with d schema_find_constructed [OF d, of "''Dog''"] show ?thesis by simp
qed

text \<open>C12: \<open>Schema::compare\<close> is right: applying its changes in their order to the description of the existing
  schema gives that of the target: every class of the target with its primary key and exactly its
  properties, with their types, links and indexes; a class the target does not have is removed when
  removals are asked for, and left untouched otherwise. \<close>

theorem compare_reaches_target:
  assumes "well_formed_target target" "well_formed_existing existing"
  shows "fold apply_change (schema_compare existing target removals) (view_of is_indexed existing)
       = combined_view existing target removals"
  by (rule compare_reaches_target_fold [OF assms])

text \<open>An older version of the schema, in the order of columns of a file.\<close>

definition old_dog :: object_schema where
  "old_dog = object_schema_new ''Dog''
     [(property_new ''name'' (PT_String OR PT_Nullable) False False)\<lparr>table_column := 0\<rparr>,
      (property_new ''weight'' PT_Double False False)\<lparr>table_column := 1\<rparr>,
      (property_new ''height'' PT_Double False False)\<lparr>table_column := 2\<rparr>] []"

definition old_cat :: object_schema where
  "old_cat = object_schema_new ''Cat'' [(property_new ''id'' PT_Int False False)\<lparr>table_column := 0\<rparr>] []"

lemma example_schemas: "well_formed_target [dog, person]" "well_formed_existing [old_cat, old_dog]"
  by code_simp+

theorem compare_reaches_target_witness:
  "well_formed_target [dog, person] \<and> well_formed_existing [old_cat, old_dog] \<and>
   sv_columns (fold apply_change (schema_compare [old_cat, old_dog] [dog, person] True)
     (view_of is_indexed [old_cat, old_dog])) ''Dog'' ''name''
     = Some \<lparr>cv_type = PT_String, cv_target = [], cv_indexed = True\<rparr>"
proof -
  have "sv_columns (combined_view [old_cat, old_dog] [dog, person] True) ''Dog'' ''name''
      = Some \<lparr>cv_type = PT_String, cv_target = [], cv_indexed = True\<rparr>" by code_simp
  then show ?thesis
    using compare_reaches_target [OF example_schemas, of True] example_schemas by simp
qed

text \<open>in the changes of any class the removals of columns come after all others, from the highest column
  down, so that no removal shifts a column that a later one names. \<close>

theorem removals_come_last:
  assumes "sorted_schema target" "sorted_schema existing"
  shows "removals_descend (filter (\<lambda>c. class_of_change c = n) (schema_compare existing target removals))"
proof -
  let ?tables = "concat (map (table_changes removals) (zip_matching target existing))"
  have kept: "\<forall>c\<in>set ?tables. is_not_remove_property c"
  proof
    fix c assume "c \<in> set ?tables"
    then obtain ab where "c \<in> set (table_changes removals ab)" by auto
    then show "is_not_remove_property c"
      by (cases "(removals, ab)" rule: table_changes.cases) (auto split: if_splits)
  qed
  show ?thesis
    unfolding schema_compare_def
    by (rule fold_column_changes_class [OF zip_matching_distinct [OF assms]])
       (use kept zip_matching_pairs [OF assms] in \<open>auto intro!: removals_descend_kept\<close>)
qed

theorem removals_come_last_witness:
  "sorted_schema [dog, person] \<and> sorted_schema [old_cat, old_dog] \<and>
   removals_descend (filter (\<lambda>c. class_of_change c = ''Dog'') (schema_compare [old_cat, old_dog] [dog, person] True))"
proof -
  have "sorted_schema [dog, person]" "sorted_schema [old_cat, old_dog]" by code_simp+
  with removals_come_last [OF this] show ?thesis by blast
qed

text \<open>a schema differs from itself exactly when a property that requires an index, a primary key for
  example, has none. \<close>

theorem compare_with_itself:
  assumes "well_formed_existing s"
  shows "schema_compare s s removals = []
     \<longleftrightarrow> (\<forall>os\<in>set s. \<forall>p\<in>set (persisted_properties os). requires_index p \<longrightarrow> is_indexed p)"
  by (rule compare_self_changes [OF assms])

theorem compare_with_itself_witness:
  "well_formed_existing [old_cat, old_dog] \<and> schema_compare [old_cat, old_dog] [old_cat, old_dog] True = []"
proof -
  have "\<forall>os\<in>set [old_cat, old_dog]. \<forall>p\<in>set (persisted_properties os). requires_index p \<longrightarrow> is_indexed p"
    by code_simp
  with compare_with_itself [OF example_schemas(2), of True] example_schemas(2) show ?thesis by blast
qed

text \<open>\<open>copy_table_columns_from\<close> gives every property of a class, persisted or computed, the column that the
  property of the same name has in the class of the same name of the other schema, and changes nothing
  else. \<close>

theorem copy_columns_by_name:
  assumes "sorted_schema s" "sorted_schema other"
    and "\<forall>os\<in>set s. distinct (map prop_name (all_properties os))"
    and "\<forall>os\<in>set other. distinct (map prop_name (persisted_properties os))"
  shows "copy_table_columns_from s other = map (\<lambda>os. case class_named other (os_name os) of
      Some o' \<Rightarrow> with_columns_of (persisted_properties o') os | None \<Rightarrow> os) s"
  by (rule copy_table_columns_eq [OF assms])

theorem copy_columns_by_name_witness:
  "map_option table_column (property_for_name (hd (copy_table_columns_from [dog, person] [old_cat, old_dog])) ''name'')
     = Some 0"
proof -
  have "sorted_schema [dog, person]" "sorted_schema [old_cat, old_dog]"
    "\<forall>os\<in>set [dog, person]. distinct (map prop_name (all_properties os))"
    "\<forall>os\<in>set [old_cat, old_dog]. distinct (map prop_name (persisted_properties os))" by code_simp+
  note copy_columns_by_name [OF this]
  moreover have "map_option table_column (property_for_name (hd (map (\<lambda>os. case class_named [old_cat, old_dog] (os_name os) of
      Some o' \<Rightarrow> with_columns_of (persisted_properties o') os | None \<Rightarrow> os) [dog, person])) ''name'') = Some 0"
    by code_simp
  ultimately show ?thesis by simp
qed

end
