(* ===== verification/Store_Claims.thy ===== *)
theory Store_Claims
  imports Store_Reference Schema_Claims
begin

section \<open>Properties of the object store\<close>

text \<open>
  What the checks of a list of changes accept, how classes and tables are named, and what holds of the
  file and of the target schema when \<open>apply_schema_changes\<close> and \<open>rename_property\<close> return.
\<close>

text \<open>C13: \<open>needs_migration\<close> is true exactly for the changes that \<open>verify_no_migration_required\<close> rejects. \<close>

theorem needs_migration_iff_rejected:
  "needs_migration changes \<longleftrightarrow> (\<exists>errors. errors \<noteq> [] \<and> verify_no_migration_required changes = Inl (SchemaMismatch errors))"
proof -
  have "needs_migration changes \<longleftrightarrow> verify_no_migration_required changes \<noteq> Inr ()"
    by (auto simp: needs_migration_def verify_no_migration_required_def verify_no_errors_ok explain_migration_Nil
        list_ex_iff)
  then show ?thesis by (auto simp: verify_no_migration_required_def verify_no_errors_def Let_def)
qed

text \<open>C14: the additive mode accepts exactly the lists of changes that add classes and properties, change
  indexes, or remove what it will leave in the file, and tells whether there is anything to write. \<close>

theorem additive_changes_accepted:
  "verify_valid_additive_changes changes update_indexes = Inr write \<longleftrightarrow>
     (\<forall>c\<in>set changes. is_addition c \<or> is_index_change c \<or> is_removal c)
     \<and> write = (list_ex is_addition changes \<or> (update_indexes \<and> list_ex is_index_change changes))"
  by (rule verify_valid_additive_ok)

theorem additive_changes_accepted_witness:
  "verify_valid_additive_changes [AddTable dog, AddInitialProperties dog] False = Inr True"
  by (subst additive_changes_accepted) simp

text \<open>the name of the table of a class determines the class, and no metadata table is taken for one. \<close>

theorem table_names_roundtrip:
  "object_type_for_table_name (table_name_for_object_type class_name) = class_name
   \<and> object_type_for_table_name pk_table = [] \<and> object_type_for_table_name metadata_table = []"
  by (simp add: object_type_for_table_name_def table_name_for_object_type_def object_table_prefix_def
      pk_table_def metadata_table_def)

subsection \<open>The columns of the target schema\<close>

definition columns_current :: "'g core \<Rightarrow> 'g \<Rightarrow> schema \<Rightarrow> bool" where
  "columns_current C g s \<longleftrightarrow> (\<forall>os\<in>set s. \<forall>table. table_for_object_type C g (os_name os) = Some table \<longrightarrow>
     (\<forall>p\<in>set (persisted_properties os). table_column p = column_index (table_columns C g table) (prop_name p)))"

lemma set_schema_columns_current: "columns_current C g (set_schema_columns C g s)"
  by (auto simp: columns_current_def set_schema_columns_def split: option.splits)

lemma table_for_version_cell:
  "frame_laws C \<Longrightarrow> table_for_object_type C (set_schema_version_cell C v g) n = table_for_object_type C g n"
  by (simp add: frame_laws_def table_for_object_type_def set_schema_version_cell_def)

lemma columns_current_version_cell:
  "frame_laws C \<Longrightarrow> columns_current C (set_schema_version_cell C v g) s = columns_current C g s"
  by (simp add: columns_current_def table_for_version_cell) (simp add: frame_laws_def set_schema_version_cell_def)

lemma and_then_Inr: "and_then m f = Some (Inr y) \<longleftrightarrow> (\<exists>x. m = Some (Inr x) \<and> f x = Some (Inr y))"
  by (cases m) (auto simp: and_then_def split: sum.split)

lemma bind_Some_iff: "Option.bind m f = Some y \<longleftrightarrow> (\<exists>x. m = Some x \<and> f x = Some y)"
  by (cases m) auto

text \<open>C15: when \<open>apply_schema_changes\<close> returns, in any mode, every persisted property of the target schema has the
  index of the column of its name in the resulting file, whatever columns the changes and the migration
  function have inserted and removed. \<close>

theorem target_columns_current:
  assumes "frame_laws C"
    and "apply_schema_changes C schema_version target target_version mode changes user migration g = Some (Inr (g', target'))"
  shows "columns_current C g' target'"
  using assms(2)
  by (auto simp: apply_schema_changes_def apply_manual_def apply_migration_def Let_def and_then_Inr bind_Some_iff
      set_schema_columns_current columns_current_version_cell [OF assms(1)] split: if_splits)

definition initial_group :: ref_group where
  "initial_group = []"

theorem target_columns_current_witness:
  "\<exists>g' target'. apply_schema_changes ref_core not_versioned [dog, person] 1 Automatic
       (schema_compare [] [dog, person] False) None None initial_group = Some (Inr (g', target'))
     \<and> columns_current ref_core g' target' \<and> map table_column (persisted_properties (hd target')) = [0, 1, 2]"
proof -
  define r where "r = apply_schema_changes ref_core not_versioned [dog, person] 1 Automatic
       (schema_compare [] [dog, person] False) None None initial_group"
  have "(case r of Some (Inr (g', target')) \<Rightarrow> map table_column (persisted_properties (hd target')) | _ \<Rightarrow> []) = [0, 1, 2]"
    unfolding r_def by code_simp
  then obtain g' target' where
    run: "r = Some (Inr (g', target'))" "map table_column (persisted_properties (hd target')) = [0, 1, 2]"
    by (auto split: option.splits sum.splits)
  have "columns_current ref_core g' target'"
    by (rule target_columns_current [OF ref_core_laws(2) run(1) [unfolded r_def]])
  with run show ?thesis unfolding r_def by (intro exI [of _ g'] exI [of _ target']) simp
qed

subsection \<open>Manual migrations\<close>

lemma compare_property_kinds:
  "c \<in> set (compare_property e t p) \<Longrightarrow> c \<noteq> AddInitialProperties x \<and> c \<noteq> RemoveTable x"
  by (auto simp: compare_property_def split: option.splits if_splits)

lemma class_changes_kinds:
  "AddInitialProperties t \<in> set (class_changes ab) \<Longrightarrow> ab = (Some t, None)"
  "RemoveTable t \<notin> set (class_changes ab)"
  by (cases ab rule: class_changes.cases; auto dest: compare_property_kinds split: if_splits)+

lemma table_changes_kinds:
  "AddInitialProperties t \<notin> set (table_changes False ab)" "RemoveTable t \<notin> set (table_changes False ab)"
  by (cases "(False, ab)" rule: table_changes.cases; simp)+

lemma schema_compare_set: "set (schema_compare s target r) = set (unordered_changes s target r)"
  using schema_compare_kept(2) by (metis set_mset_mset)

lemma add_initial_after_add_table:
  assumes "AddInitialProperties t \<in> set (schema_compare s target False)"
  shows "AddTable t \<in> set (schema_compare s target False)"
proof -
  from assms have "\<exists>ab\<in>set (zip_matching target s). AddInitialProperties t \<in> set (class_changes ab)"
    using table_changes_kinds(1) by (auto simp: schema_compare_set)
  then have "(Some t, None) \<in> set (zip_matching target s)" using class_changes_kinds(1) by blast
  moreover have "AddTable t \<in> set (table_changes False (Some t, None))" by simp
  ultimately have "\<exists>ab\<in>set (zip_matching target s). AddTable t \<in> set (table_changes False ab)" by blast
  then show ?thesis by (simp add: schema_compare_set)
qed

lemma no_remove_table: "RemoveTable e \<notin> set (schema_compare s target False)"
  by (simp add: schema_compare_set class_changes_kinds table_changes_kinds)

lemma verified_no_changes:
  assumes "verify_no_changes_required (schema_compare s target False) = Inr ()"
  shows "schema_compare s target False = []"
proof (rule ccontr)
  assume "schema_compare s target False \<noteq> []"
  then obtain c where c: "c \<in> set (schema_compare s target False)" by (cases "schema_compare s target False") auto
  have all: "explain c = []" if "c \<in> set (schema_compare s target False)" for c
    using assms that by (simp add: verify_no_changes_required_def verify_no_errors_ok)
  from all [OF c] obtain t where "c = RemoveTable t \<or> c = AddInitialProperties t" by (auto simp: explain_Nil)
  then have "AddTable t \<in> set (schema_compare s target False)"
    using c no_remove_table add_initial_after_add_table by blast
  from all [OF this] show False by simp
qed

text \<open>C16: a manual migration is only committed when the file it leaves has the target schema: every class of the
  target is in the file with the primary key, properties and indexes of the target, and every primary key
  of the file has distinct values. \<close>

theorem manual_migration_checked:
  assumes "apply_manual C target version migration g = Some (Inr (g', target'))"
  shows "\<exists>g0 target0 s. g' = set_schema_version_cell C version g0 \<and> target' = set_schema_columns C g0 target0
     \<and> schema_from_group C g0 = Some s \<and> validate_primary_column_uniqueness C g0 = Some (Inr ())
     \<and> (well_formed_target target0 \<longrightarrow> well_formed_existing s \<longrightarrow>
          combined_view s target0 False = view_of is_indexed s)"
proof -
  from assms obtain g0 target0 s where
    "schema_from_group C g0 = Some s" "verify_no_changes_required (schema_compare s target0 False) = Inr ()"
    "validate_primary_column_uniqueness C g0 = Some (Inr ())" "target' = set_schema_columns C g0 target0"
    "g' = set_schema_version_cell C version g0"
    by (auto simp: apply_manual_def Let_def and_then_Inr bind_Some_iff)
  moreover from this(2) have "schema_compare s target0 False = []" by (rule verified_no_changes)
  then have "combined_view s target0 False = view_of is_indexed s"
    if "well_formed_target target0" "well_formed_existing s"
    using compare_reaches_target_fold [OF that, of False] by simp
  ultimately show ?thesis by blast
qed

text \<open>The file that opening an empty file with this schema creates.\<close>

definition created_group :: ref_group where
  "created_group =
     (case apply_schema_changes ref_core not_versioned [dog, person] 1 Automatic
        (schema_compare [] [dog, person] False) None None initial_group of
        Some (Inr (g, s)) \<Rightarrow> g | _ \<Rightarrow> [])"

theorem manual_migration_checked_witness:
  "\<exists>g' s. apply_manual ref_core [dog, person] 2 None created_group = Some (Inr (g', s))
     \<and> (\<exists>g0. g' = set_schema_version_cell ref_core 2 g0 \<and> validate_primary_column_uniqueness ref_core g0 = Some (Inr ()))
     \<and> get_schema_version ref_core g' = 2"
proof -
  define r where "r = apply_manual ref_core [dog, person] 2 None created_group"
  have "(case r of Some (Inr (g', s)) \<Rightarrow> get_schema_version ref_core g' = 2 | _ \<Rightarrow> False)"
    unfolding r_def by code_simp
  then obtain g' s where run: "r = Some (Inr (g', s))" and v: "get_schema_version ref_core g' = 2"
    by (auto split: option.splits sum.splits)
  from manual_migration_checked [OF run [unfolded r_def]] run v show ?thesis
    unfolding r_def by (intro exI [of _ g'] exI [of _ s]) blast
qed

end
