(* ===== verification/Store_Rename.thy ===== *)
theory Store_Rename
  imports Store_Claims
begin

section \<open>Renaming a property\<close>

text \<open>
  What the schema of a file says of its columns, and what \<open>rename_property\<close> does to the columns of the
  target schema during a migration.
\<close>

subsection \<open>The properties that a file has\<close>

lemma map_opt_set: "map_opt f xs = Some ys \<Longrightarrow> y \<in> set ys \<Longrightarrow> \<exists>x\<in>set xs. f x = Some y"
  by (induction xs arbitrary: ys) (auto simp: bind_Some_iff)

lemma property_for_column_index_column:
  "property_for_column_index C g table col = Some (Some p) \<Longrightarrow>
     table_column p = col \<and> prop_name p = cc_name (table_columns C g table ! col)"
  by (auto simp: property_for_column_index_def Let_def bind_Some_iff split: if_splits)

lemma update_property_set:
  "q \<in> set (update_property n f ps) \<Longrightarrow> \<exists>p\<in>set ps. q = p \<or> q = f p"
  by (induction n f ps rule: update_property.induct) (auto split: if_splits)

lemma set_primary_key_set:
  assumes "q \<in> set (persisted_properties (set_primary_key_property os))"
  shows "\<exists>p\<in>set (persisted_properties os). q = p \<or> q = p\<lparr>is_primary := True\<rparr>"
  using assms by (auto simp: set_primary_key_property_def update_property_for_name_def dest: update_property_set split: if_splits)

lemma set_primary_key_simps [simp]:
  "os_name (set_primary_key_property os) = os_name os"
  "primary_key (set_primary_key_property os) = primary_key os"
  by (simp_all add: set_primary_key_property_def update_property_for_name_def)

lemma set_primary_key_computed: "computed_properties os = [] \<Longrightarrow> computed_properties (set_primary_key_property os) = []"
  by (simp add: set_primary_key_property_def update_property_for_name_def)

lemma file_properties:
  assumes os: "object_schema_from_group C g name = Some os" and table: "table_for_object_type C g name = Some table"
  shows "computed_properties os = []"
    and "q \<in> set (persisted_properties os) \<Longrightarrow>
      table_column q < length (table_columns C g table) \<and> cc_name (table_columns C g table ! table_column q) = prop_name q"
proof -
  from os table obtain ps where ps: "map_opt (property_for_column_index C g table) [0..<length (table_columns C g table)] = Some ps"
    and eq: "os = set_primary_key_property \<lparr>os_name = name, persisted_properties = List.map_filter id ps,
       computed_properties = [], primary_key = get_primary_key_for_object C g name\<rparr>"
    by (auto simp: object_schema_from_group_def bind_Some_iff)
  show "computed_properties os = []" by (simp add: eq set_primary_key_computed)
  assume "q \<in> set (persisted_properties os)"
  then obtain p where p: "p \<in> set (List.map_filter id ps)" "q = p \<or> q = p\<lparr>is_primary := True\<rparr>"
    unfolding eq by (auto dest: set_primary_key_set)
  then have "Some p \<in> set ps" by (auto simp: List.map_filter_def)
  from map_opt_set [OF ps this] obtain col where
    "col < length (table_columns C g table)" "property_for_column_index C g table col = Some (Some p)" by auto
  with p(2) property_for_column_index_column [OF this(2)]
  show "table_column q < length (table_columns C g table) \<and> cc_name (table_columns C g table ! table_column q) = prop_name q"
    by auto
qed

subsection \<open>Columns by name\<close>

lemma find_upt_unique:
  assumes "i < n" "P i" "\<And>j. j < n \<Longrightarrow> P j \<Longrightarrow> j = i"
  shows "find P [0..<n] = Some i"
proof -
  have "\<not> P j" if "j < i" for j using assms(1) assms(3) [of j] that by auto
  then show ?thesis using assms(1,2) unfolding find_Some_iff by (intro exI [of _ i]) simp
qed

lemma column_indexI:
  assumes "distinct (map cc_name cols)" "i < length cols" "cc_name (cols ! i) = n"
  shows "column_index cols n = i"
proof -
  have "find (\<lambda>i. cc_name (cols ! i) = n) [0..<length cols] = Some i"
  proof (rule find_upt_unique)
    show "i < length cols" "cc_name (cols ! i) = n" by (rule assms)+
    fix j assume "j < length cols" "cc_name (cols ! j) = n"
    then show "j = i" using assms nth_eq_iff_index_eq [OF assms(1), of j i] by simp
  qed
  then show ?thesis by (simp add: column_index_def first_index_def)
qed

lemma cc_name_set_column_name [simp]: "cc_name (set_column_name n c) = n"
  by (cases c) simp

text \<open>The names of the columns after column \<open>o\<close> has got the name of column \<open>r\<close>, which has been removed.\<close>

definition renamed_columns :: "size_t \<Rightarrow> size_t \<Rightarrow> string \<Rightarrow> core_column list \<Rightarrow> core_column list" where
  "renamed_columns i r n cols = remove_nth r (update_nth i (set_column_name n) cols)"

lemma nth_remove_nth: "r < length xs \<Longrightarrow> remove_nth r xs ! j = (if j < r then xs ! j else xs ! Suc j)"
  by (auto simp: remove_nth_def nth_append min_def)

lemma length_remove_nth: "r < length xs \<Longrightarrow> length (remove_nth r xs) = length xs - 1"
  by (simp add: remove_nth_def)

lemma renamed_names:
  assumes "distinct (map cc_name cols)" "i < r" "r < length cols" "cc_name (cols ! r) = n"
  shows "distinct (map cc_name (renamed_columns i r n cols))"
    and "length (renamed_columns i r n cols) = length cols - 1"
    and "j < length cols - 1 \<Longrightarrow> cc_name (renamed_columns i r n cols ! j)
       = (if j = i then n else if j < r then cc_name (cols ! j) else cc_name (cols ! Suc j))"
proof -
  show len: "length (renamed_columns i r n cols) = length cols - 1"
    using assms by (simp add: renamed_columns_def update_nth_def length_remove_nth)
  have nth: "cc_name (renamed_columns i r n cols ! j)
       = (if j = i then n else if j < r then cc_name (cols ! j) else cc_name (cols ! Suc j))" if "j < length cols - 1" for j
    using assms that by (simp add: renamed_columns_def update_nth_def nth_remove_nth nth_list_update)
  then show "j < length cols - 1 \<Longrightarrow> cc_name (renamed_columns i r n cols ! j)
       = (if j = i then n else if j < r then cc_name (cols ! j) else cc_name (cols ! Suc j))" .
  have inj: "cc_name (cols ! a) = cc_name (cols ! b) \<longleftrightarrow> a = b" if "a < length cols" "b < length cols" for a b
    using nth_eq_iff_index_eq [OF assms(1), of a b] that by simp
  show "distinct (map cc_name (renamed_columns i r n cols))"
    unfolding distinct_conv_nth
  proof (intro allI impI)
    fix a b assume *: "a < length (map cc_name (renamed_columns i r n cols))"
      "b < length (map cc_name (renamed_columns i r n cols))" "a \<noteq> b"
    then have "a < length cols - 1" "b < length cols - 1" by (simp_all add: len)
    then show "map cc_name (renamed_columns i r n cols) ! a \<noteq> map cc_name (renamed_columns i r n cols) ! b"
      using * assms(2-4) by (auto simp: nth inj)
  qed
qed

lemma shifted_column_index:
  assumes "distinct (map cc_name cols)" "i < r" "r < length cols" "cc_name (cols ! r) = n"
    and p: "k < length cols" "k \<noteq> i" "cc_name (cols ! k) = m"
  shows "column_index (renamed_columns i r n cols) m = (if k = r then i else if r < k then k - 1 else k)"
proof -
  have "column_index (renamed_columns i r n cols) m = k'"
    if "k' < length cols - 1" "cc_name (renamed_columns i r n cols ! k') = m" for k'
    using that renamed_names [OF assms(1-4)] by (intro column_indexI) simp_all
  moreover have "(if k = r then i else if r < k then k - 1 else k) < length cols - 1"
    using assms by auto
  moreover have "cc_name (renamed_columns i r n cols ! (if k = r then i else if r < k then k - 1 else k)) = m"
    using assms renamed_names(3) [OF assms(1-4)] by (auto simp: not_less)
  ultimately show ?thesis by blast
qed

lemma column_index_cong:
  assumes "map cc_name cols = map cc_name cols'"
  shows "column_index cols n = column_index cols' n"
proof -
  have len: "length cols = length cols'" using assms by (metis length_map)
  have "find (\<lambda>i. cc_name (cols ! i) = n) [0..<length cols'] = find (\<lambda>i. cc_name (cols' ! i) = n) [0..<length cols']"
  proof (rule find_cong [OF refl])
    fix i assume "i \<in> set [0..<length cols']"
    then have "cc_name (cols ! i) = map cc_name cols ! i" "cc_name (cols' ! i) = map cc_name cols' ! i"
      by (simp_all add: len)
    then show "(cc_name (cols ! i) = n) = (cc_name (cols' ! i) = n)" by (simp add: assms)
  qed
  then show ?thesis by (simp add: column_index_def first_index_def len)
qed

subsection \<open>Inserting and replacing columns\<close>

lemma cc_name_set_indexed [simp]: "cc_name (set_indexed b c) = cc_name c"
  by (cases c) simp

lemma insert_nth_update:
  "i \<le> length cols \<Longrightarrow> update_nth i f (insert_nth i c cols) = insert_nth i (f c) cols"
  by (simp add: update_nth_def insert_nth_def list_update_append nth_append)

lemma length_insert_nth [simp]: "i \<le> length cols \<Longrightarrow> length (insert_nth i c cols) = Suc (length cols)"
  by (simp add: insert_nth_def)

text \<open>The column that \<open>insert_property_column\<close> creates for a property.\<close>

definition column_for :: "property \<Rightarrow> core_column option" where
  "column_for p =
     (let type = prop_type p in
      if pt_eq type PT_LinkingObjects then None
      else if pt_eq type PT_Object
      then Some (Column (prop_name p) (if is_array type then type_LinkList else type_Link) False
                   (table_name_for_object_type (object_type p)) False [])
      else if is_array type
      then map_option (\<lambda>t. Column (prop_name p) type_Table False [] False
                              [plain_column array_column_name t (is_nullable type)]) (to_core_type (base_type type))
      else map_option (\<lambda>t. Column (prop_name p) t (is_nullable type) [] (requires_index p) []) (to_core_type type))"

lemma column_for_name: "column_for p = Some c \<Longrightarrow> cc_name c = prop_name p"
  by (auto simp: column_for_def Let_def split: if_splits)

lemma insert_property_column_columns:
  assumes laws: "column_laws C" "frame_laws C"
    and t: "table \<in> set (table_names C g)" "i \<le> length (table_columns C g table)"
    and res: "insert_property_column C table p i g = Some g'"
  shows "column_for p \<noteq> None \<and> table_names C g' = table_names C g
     \<and> table_columns C g' = (table_columns C g)(table := insert_nth i (the (column_for p)) (table_columns C g table))"
proof -
  have ins: "table_columns C (table_insert_column C table i c g)
      = (table_columns C g)(table := insert_nth i c (table_columns C g table))" for c
    using laws(1) t by (simp add: column_laws_def)
  have names: "table_names C (table_insert_column C table i c g) = table_names C g"
    "table_names C (add_search_index C table i g) = table_names C g" for c g
    using laws(2) by (simp_all add: frame_laws_def)
  have idx: "table_columns C (add_search_index C table i (table_insert_column C table i c g))
      = (table_columns C g)(table := insert_nth i (set_indexed True c) (table_columns C g table))" for c
    using laws(1) t by (simp add: column_laws_def ins names insert_nth_update less_Suc_eq_le)
  show ?thesis
    using res
    by (cases "requires_index p")
       (auto simp: insert_property_column_def column_for_def Let_def bind_Some_iff ins idx names plain_column_def split: if_splits)
qed

lemma remove_after_insert:
  "i < length cols \<Longrightarrow> remove_nth (Suc i) (insert_nth i c cols) = cols[i := c]"
  by (simp add: remove_nth_def insert_nth_def upd_conv_take_nth_drop min_def)

lemma copy_property_values_frame:
  assumes "frame_laws C"
  shows "table_columns C (copy_property_values C p table g) = table_columns C g"
    and "table_names C (copy_property_values C p table g) = table_names C g"
proof -
  have "table_columns C (fold (\<lambda>i g. set_cell C table c i (f g i) g) is g) = table_columns C g
      \<and> table_names C (fold (\<lambda>i g. set_cell C table c i (f g i) g) is g) = table_names C g" for "is" c f
    by (induction "is" arbitrary: g) (use assms in \<open>simp_all add: frame_laws_def\<close>)
  then show "table_columns C (copy_property_values C p table g) = table_columns C g"
    "table_names C (copy_property_values C p table g) = table_names C g"
    by (simp_all add: copy_property_values_def)
qed

lemma make_property_optional_columns:
  assumes laws: "column_laws C" "frame_laws C"
    and t: "table \<in> set (table_names C g)" "table_column p < length (table_columns C g table)"
    and res: "make_property_optional C table p g = Some g'"
  shows "\<exists>c. column_for (p\<lparr>prop_type := prop_type p OR PT_Nullable\<rparr>) = Some c \<and> table_names C g' = table_names C g
     \<and> table_columns C g' = (table_columns C g)(table := (table_columns C g table)[table_column p := c])"
proof -
  let ?p = "p\<lparr>prop_type := prop_type p OR PT_Nullable\<rparr>"
  from res obtain g1 where g1: "insert_property_column C table ?p (table_column p) g = Some g1"
    and g': "g' = table_remove_column C table (table_column p + 1) (copy_property_values C ?p table g1)"
    by (auto simp: make_property_optional_def Let_def bind_Some_iff)
  define c where "c = the (column_for ?p)"
  have c: "column_for ?p = Some c" "table_names C g1 = table_names C g"
    "table_columns C g1 = (table_columns C g)(table := insert_nth (table_column p) c (table_columns C g table))"
    using insert_property_column_columns [OF laws t(1) _ g1] t(2) by (auto simp: c_def)
  let ?g2 = "copy_property_values C ?p table g1"
  have "table_columns C g' = (table_columns C ?g2)(table := remove_nth (table_column p + 1) (table_columns C ?g2 table))"
    using laws(1) t c by (simp add: g' column_laws_def copy_property_values_frame [OF laws(2)])
  then have "table_columns C g' = (table_columns C g)(table := (table_columns C g table)[table_column p := c])"
    using t(2) by (simp add: copy_property_values_frame [OF laws(2)] c(3) remove_after_insert)
  moreover have "table_names C g' = table_names C g"
    using laws(2) c(2) by (simp add: g' frame_laws_def copy_property_values_frame [OF laws(2)])
  ultimately show ?thesis using c(1) by blast
qed

subsection \<open>The columns after renaming\<close>

text \<open>
  The situation of a rename in a migration: the target describes the columns of the file, and both names
  are properties of the class in the file, the old one in an earlier column.
\<close>

definition renames_to_later :: "'g core \<Rightarrow> 'g \<Rightarrow> schema \<Rightarrow> string \<Rightarrow> string \<Rightarrow> string \<Rightarrow> bool" where
  "renames_to_later C g target class_name old_name new_name \<longleftrightarrow>
     columns_current C g target
   \<and> (\<exists>table os old new. table_for_object_type C g class_name = Some table
        \<and> object_schema_from_group C g class_name = Some os
        \<and> property_for_name os old_name = Some old \<and> property_for_name os new_name = Some new
        \<and> table_column old < table_column new
        \<and> distinct (map cc_name (table_columns C g table))
        \<and> (\<forall>os\<in>set target. os_name os = class_name \<longrightarrow>
             (\<forall>p\<in>set (persisted_properties os). prop_name p \<in> cc_name ` set (table_columns C g table)))
        \<and> distinct (map os_name target))"

lemma file_property:
  assumes "object_schema_from_group C g name = Some os" "table_for_object_type C g name = Some table"
    and "property_for_name os n = Some p"
  shows "prop_name p = n \<and> table_column p < length (table_columns C g table)
    \<and> cc_name (table_columns C g table ! table_column p) = n"
  using assms property_for_name_name [OF assms(3)] file_properties [OF assms(1,2)]
  by (auto simp: all_properties_def)

lemma table_for_object_typeD:
  "table_for_object_type C g n = Some table \<Longrightarrow> table \<in> set (table_names C g) \<and> table = table_name_for_object_type n"
  by (auto simp: table_for_object_type_def Let_def split: if_splits)

lemma table_name_inj [simp]: "table_name_for_object_type m = table_name_for_object_type n \<longleftrightarrow> m = n"
  by (simp add: table_name_for_object_type_def)

lemma rename_column_of_columns:
  assumes laws: "column_laws C" "frame_laws C"
    and table: "table \<in> set (table_names C g)"
    and cols: "table_columns C g table = cols" "table_column old < table_column new" "table_column new < length cols"
    and new: "prop_name new = n"
    and res: "rename_column_of C target class_name table old new n g = Some (Inr (g', target'))"
  shows "table_names C g' = table_names C g" "\<And>t. t \<noteq> table \<Longrightarrow> table_columns C g' t = table_columns C g t"
    "map cc_name (table_columns C g' table) = map cc_name (renamed_columns (table_column old) (table_column new) n cols)"
    "target' = update_class class_name (\<lambda>os. os\<lparr>persisted_properties :=
       map (shift_renamed (table_column new) (table_column old)) (persisted_properties os)\<rparr>) target"
proof -
  let ?i = "table_column old" and ?r = "table_column new"
  define g1 where "g1 = table_remove_column C table ?r (table_rename_column C table ?i n g)"
  have names1: "table_names C g1 = table_names C g" using laws(2) by (simp add: g1_def frame_laws_def)
  have ren: "table_columns C (table_rename_column C table ?i n g)
      = (table_columns C g)(table := update_nth ?i (set_column_name n) cols)"
    using laws(1) table cols by (simp add: column_laws_def)
  have len: "?r < length (table_columns C (table_rename_column C table ?i n g) table)"
    using cols by (simp add: ren update_nth_def)
  have "table_names C (table_rename_column C table ?i n g) = table_names C g"
    using laws(2) by (simp add: frame_laws_def)
  then have cols1: "table_columns C g1 = (table_columns C g)(table := renamed_columns ?i ?r n cols)"
    using laws(1) table len by (simp add: g1_def column_laws_def ren renamed_columns_def)
  have len1: "?i < length (renamed_columns ?i ?r n cols)"
    using cols by (simp add: renamed_columns_def update_nth_def length_remove_nth)
  have name1: "cc_name (renamed_columns ?i ?r n cols ! ?i) = n"
    using cols by (simp add: renamed_columns_def update_nth_def nth_remove_nth)
  show "target' = update_class class_name (\<lambda>os. os\<lparr>persisted_properties :=
       map (shift_renamed ?r ?i) (persisted_properties os)\<rparr>) target"
    using res by (auto simp: rename_column_of_def Let_def bind_Some_iff split: if_splits)
  have "g' = g1 \<or> (\<exists>c. cc_name c = n \<and> table_names C g' = table_names C g1
      \<and> table_columns C g' = (table_columns C g1)(table := (table_columns C g1 table)[?i := c]))"
  proof (cases "is_nullable (prop_type new) \<and> \<not> is_nullable (prop_type old)")
    case True
    then have "make_property_optional C table (new\<lparr>table_column := ?i\<rparr>) g1 = Some g'"
      using res by (auto simp: rename_column_of_def Let_def bind_Some_iff g1_def)
    with make_property_optional_columns [OF laws _ _ this] table len1 obtain c where
      "column_for (new\<lparr>table_column := ?i, prop_type := prop_type new OR PT_Nullable\<rparr>) = Some c"
      "table_names C g' = table_names C g1"
      "table_columns C g' = (table_columns C g1)(table := (table_columns C g1 table)[?i := c])"
      by (auto simp: names1 cols1)
    moreover from this(1) have "cc_name c = n" using new by (auto dest: column_for_name)
    ultimately show ?thesis by blast
  next
    case False
    then show ?thesis using res by (auto simp: rename_column_of_def Let_def g1_def)
  qed
  then show "table_names C g' = table_names C g" "\<And>t. t \<noteq> table \<Longrightarrow> table_columns C g' t = table_columns C g t"
    "map cc_name (table_columns C g' table) = map cc_name (renamed_columns ?i ?r n cols)"
    using len1 name1 by (auto simp: names1 cols1 map_update list_update_same_conv)
qed

text \<open>C17: renaming a property to one that the file holds in a later column keeps the columns of the target schema:
  after the rename every property of the target still has the index of the column of its name. \<close>

theorem rename_keeps_columns_current:
  assumes laws: "column_laws C" "frame_laws C"
    and pre: "renames_to_later C g target class_name old_name new_name"
    and res: "rename_property C target class_name old_name new_name g = Some (Inr (g', target'))"
  shows "columns_current C g' target'"
proof -
  from pre obtain table os old new where
    cur: "columns_current C g target" and table: "table_for_object_type C g class_name = Some table"
    and os: "object_schema_from_group C g class_name = Some os"
    and old: "property_for_name os old_name = Some old" and new: "property_for_name os new_name = Some new"
    and less: "table_column old < table_column new" and dist: "distinct (map cc_name (table_columns C g table))"
    and present: "\<forall>os\<in>set target. os_name os = class_name \<longrightarrow>
      (\<forall>p\<in>set (persisted_properties os). prop_name p \<in> cc_name ` set (table_columns C g table))"
    and dt: "distinct (map os_name target)"
    by (auto simp: renames_to_later_def)
  let ?cols = "table_columns C g table"
  note old' = file_property [OF os table old] and new' = file_property [OF os table new]
  note tab = table_for_object_typeD [OF table]
  from res table os old new obtain tos where
    tos: "schema_find target class_name = Some tos" "property_for_name tos old_name = None"
    and res': "rename_column_of C target class_name table old new new_name g = Some (Inr (g', target'))"
    by (auto simp: rename_property_def split: option.splits if_splits)
  from tab new' have in_group: "table \<in> set (table_names C g)"
    and bound: "table_column new < length ?cols" and name: "prop_name new = new_name"
    and at_new: "cc_name (?cols ! table_column new) = new_name" by auto
  have eff': "table_names C g' = table_names C g" "\<And>t. t \<noteq> table \<Longrightarrow> table_columns C g' t = table_columns C g t"
    "map cc_name (table_columns C g' table) = map cc_name (renamed_columns (table_column old) (table_column new) new_name ?cols)"
    "target' = update_class class_name (\<lambda>os. os\<lparr>persisted_properties :=
       map (shift_renamed (table_column new) (table_column old)) (persisted_properties os)\<rparr>) target"
    by (rule rename_column_of_columns [OF laws in_group refl less bound name res'], assumption?)+
  show ?thesis
    unfolding columns_current_def
  proof (intro ballI allI impI)
    fix x t p assume x: "x \<in> set target'" and t: "table_for_object_type C g' (os_name x) = Some t"
      and p: "p \<in> set (persisted_properties x)"
    have t': "table_for_object_type C g (os_name x) = Some t" using t by (simp add: table_for_object_type_def eff'(1))
    from x obtain y where y: "y \<in> set target" "os_name x = os_name y"
      "x = (if os_name y = class_name then y\<lparr>persisted_properties :=
         map (shift_renamed (table_column new) (table_column old)) (persisted_properties y)\<rparr> else y)"
      by (auto simp: eff'(4) update_class_def)
    show "table_column p = column_index (table_columns C g' t) (prop_name p)"
    proof (cases "os_name y = class_name")
      case False
      then have "t \<noteq> table" using tab table_for_object_typeD [OF t'] y(2) by auto
      then show ?thesis using cur y p t' False eff'(2) by (auto simp: columns_current_def)
    next
      case True
      then have "t = table" using table t' y(2) by simp
      from p y(3) True obtain q where q: "q \<in> set (persisted_properties y)"
        "p = shift_renamed (table_column new) (table_column old) q" by auto
      have "schema_find target class_name = Some tos \<Longrightarrow> tos \<in> set target \<and> os_name tos = class_name"
        by (auto simp: schema_find_def split: list.splits if_splits dest: set_dropWhileD)
           (metis list.set_intros(1) set_dropWhileD)
      then have "y = tos" using tos(1) y(1) True dt by (metis distinct_map inj_onD)
      then have qold: "prop_name q \<noteq> old_name"
        using tos(2) q(1) by (auto simp: property_for_name_def find_property_None_iff split: option.splits)
      from present y(1) True q(1) obtain k where k: "k < length ?cols" "cc_name (?cols ! k) = prop_name q"
        by (metis imageE in_set_conv_nth)
      have "table_column q = column_index ?cols (prop_name q)"
        using cur y(1) q(1) t' y(2) \<open>t = table\<close> by (auto simp: columns_current_def)
      then have qk: "table_column q = k" using column_indexI [OF dist k] by simp
      have "k \<noteq> table_column old" using k old' qold by auto
      have "column_index (table_columns C g' table) (prop_name q)
          = column_index (renamed_columns (table_column old) (table_column new) new_name ?cols) (prop_name q)"
        by (rule column_index_cong) (rule eff'(3))
      also have "\<dots> = (if k = table_column new then table_column old else if table_column new < k then k - 1 else k)"
        by (rule shifted_column_index [OF dist less bound at_new k(1) \<open>k \<noteq> table_column old\<close> k(2)])
      finally show ?thesis using q(2) qk \<open>t = table\<close> by (auto simp: shift_renamed_def)
    qed
  qed
qed

text \<open>A file whose class \<open>Dog\<close> has the columns \<open>name\<close>, \<open>weight\<close> and \<open>nick\<close>, and targets without the first or the last.\<close>

definition dog_group :: ref_group where
  "dog_group = [(''class_Dog'', \<lparr>rt_columns = [plain_column ''name'' type_String False,
       plain_column ''weight'' type_Double False, plain_column ''nick'' type_String True],
     rt_rows = [[StringValue ''Rex'', DoubleValue 0, NullValue]]\<rparr>)]"

definition dog_with :: "string list \<Rightarrow> schema" where
  "dog_with names = set_schema_columns ref_core dog_group
     [object_schema_new ''Dog'' (map (\<lambda>n. property_new n PT_String False False) names) []]"

definition column_names :: "ref_group result \<Rightarrow> (string list \<times> size_t list) list" where
  "column_names r = (case r of
     Some (Inr (g, s)) \<Rightarrow>
       [(map cc_name (table_columns ref_core g ''class_Dog''), map table_column (persisted_properties (hd s)))]
   | _ \<Rightarrow> [])"

lemma dog_renames: "renames_to_later ref_core dog_group (dog_with [''weight'', ''nick'']) ''Dog'' ''name'' ''nick''"
proof -
  have cur: "columns_current ref_core dog_group (dog_with names)" for names
    by (simp add: dog_with_def set_schema_columns_current)
  have table: "table_for_object_type ref_core dog_group ''Dog'' = Some ''class_Dog''" by code_simp
  let ?cols = "table_columns ref_core dog_group ''class_Dog''"
  have dist: "distinct (map cc_name ?cols)" by code_simp
  have present: "\<forall>os\<in>set (dog_with [''weight'', ''nick'']). os_name os = ''Dog'' \<longrightarrow>
      (\<forall>p\<in>set (persisted_properties os). prop_name p \<in> cc_name ` set ?cols)" by code_simp
  have names: "distinct (map os_name (dog_with [''weight'', ''nick'']))" by code_simp
  define os where "os = the (object_schema_from_group ref_core dog_group ''Dog'')"
  have "object_schema_from_group ref_core dog_group ''Dog'' \<noteq> None" by code_simp
  then have os: "object_schema_from_group ref_core dog_group ''Dog'' = Some os" by (auto simp: os_def)
  have "property_for_name os ''name'' \<noteq> None" "property_for_name os ''nick'' \<noteq> None"
    "table_column (the (property_for_name os ''name'')) < table_column (the (property_for_name os ''nick''))"
    unfolding os_def by code_simp+
  then show ?thesis using cur table dist present names os unfolding renames_to_later_def by auto
qed

theorem rename_keeps_columns_current_witness:
  "\<exists>g' target'. rename_property ref_core (dog_with [''weight'', ''nick'']) ''Dog'' ''name'' ''nick'' dog_group
       = Some (Inr (g', target')) \<and> columns_current ref_core g' target'
     \<and> map cc_name (table_columns ref_core g' ''class_Dog'') = [''nick'', ''weight'']"
proof -
  define r where "r = rename_property ref_core (dog_with [''weight'', ''nick'']) ''Dog'' ''name'' ''nick'' dog_group"
  have "column_names r = [([''nick'', ''weight''], [1, 0])]" unfolding r_def by code_simp
  then obtain g' target' where run: "r = Some (Inr (g', target'))"
    and cols: "map cc_name (table_columns ref_core g' ''class_Dog'') = [''nick'', ''weight'']"
    by (auto simp: column_names_def split: option.splits sum.splits)
  have "columns_current ref_core g' target'"
    by (rule rename_keeps_columns_current [OF ref_core_laws(1,2) dog_renames run [unfolded r_def]])
  with run cols show ?thesis unfolding r_def by (intro exI [of _ g'] exI [of _ target']) simp
qed

text \<open>When the new name is held by an earlier column than the old one, its removal shifts the renamed column,
  which \<open>rename_property\<close> does not account for: the target is left with a column index that is not that of
  the property. Here \<open>nick\<close> is renamed to \<open>weight\<close>, a string in this file, and gets the column 2 of a table
  with two columns. \<close>

theorem rename_to_earlier_column_wrong:
  "\<exists>g target. columns_current ref_core g target
     \<and> (\<exists>g' target'. rename_property ref_core target ''Dog'' ''nick'' ''weight'' g = Some (Inr (g', target'))
          \<and> \<not> columns_current ref_core g' target')"
proof -
  let ?g = "ref_update ''class_Dog'' (\<lambda>t. t\<lparr>rt_columns := [plain_column ''name'' type_String False,
       plain_column ''weight'' type_String False, plain_column ''nick'' type_String False]\<rparr>) dog_group"
  let ?s = "dog_with [''name'', ''weight'']"
  define r where "r = rename_property ref_core ?s ''Dog'' ''nick'' ''weight'' ?g"
  have "column_names r = [([''name'', ''weight''], [0, 2])]" unfolding r_def by code_simp
  then obtain g' s' where run: "r = Some (Inr (g', s'))"
    and cols: "map cc_name (table_columns ref_core g' ''class_Dog'') = [''name'', ''weight'']"
    and columns: "map table_column (persisted_properties (hd s')) = [0, 2]"
    by (auto simp: column_names_def split: option.splits sum.splits)
  have "(case r of Some (Inr (g, s)) \<Rightarrow> \<exists>os\<in>set s. table_for_object_type ref_core g (os_name os) = Some ''class_Dog''
      \<and> (\<exists>p\<in>set (persisted_properties os). table_column p \<noteq> column_index (table_columns ref_core g ''class_Dog'') (prop_name p))
    | _ \<Rightarrow> False)" unfolding r_def by code_simp
  then have "\<not> columns_current ref_core g' s'" by (auto simp: run columns_current_def)
  moreover have "columns_current ref_core ?g ?s"
  proof -
    have "?s = set_schema_columns ref_core ?g ?s" by code_simp
    then show ?thesis by (metis set_schema_columns_current)
  qed
  ultimately show ?thesis using run unfolding r_def by blast
qed

end
