(* ===== verification/Session_Model.thy ===== *)
theory Session_Model
  imports Prelude
begin

section \<open>The sync session\<close>

text \<open>
  The model of \<open>sync_session.cpp\<close> without its notifiers: the four states of a \<open>SyncSession\<close>, their
  operators, and the public operations, which hold the state mutex and dispatch on the state.

  \<^item> What a session calls outside of itself (the \<open>sync::Session\<close> of the sync client, the handlers of the
    binding, the sync manager, the user, the callbacks of waiters) is a \<open>call\<close>, appended to \<open>ss_calls\<close> in the
    order of the code. A callback is a number.
  \<^item> \<open>ss_session\<close> says whether \<open>m_session\<close> is set, \<open>ss_locked\<close> whether the state mutex is held by the operation.
    \<open>None\<close> is a failed assertion or the dereference of an empty optional or pointer.
  \<^item> \<open>ss_history\<close> is not in the code: the states that \<open>advance_state\<close> has left and entered.
  \<^item> A vector of waiters that has been moved from is empty, as the standard library leaves it.
  \<^item> An operation is one step; the part of \<open>handle_error\<close> before it releases the mutex for the first time is
    a step of its own.
\<close>

datatype public_state = WaitingForAccessToken | Active | Dying | Inactive

datatype connection_state = Disconnected | Connecting | Connected

datatype stop_policy = Immediately | LiveIndefinitely | AfterChangesUploaded

datatype waiter = UploadCompletion | DownloadCompletion

datatype call =
    MakeSession
  | DestroySession
  | Bind string string
  | Refresh string
  | CancelReconnectDelay
  | OverrideServer string int
  | AsyncWait waiter nat
  | AsyncWaitDying nat
  | NonsyncTransactNotify int
  | BindSessionHandler
  | UnregisterSession
  | ConnectionChange connection_state connection_state
  | OperationAborted nat
  | InvalidateUser
  | MakeFileAction bool
  | ErrorHandler bool

record session_config =
  stop_policy :: stop_policy
  has_user :: bool
  has_error_handler :: bool

record sync_session =
  ss_state :: public_state
  ss_connection :: connection_state
  ss_death_count :: size_t
  ss_packages :: "(waiter \<times> nat) list"
  ss_override :: "(string \<times> int) option"
  ss_session :: bool
  ss_bound :: bool
  ss_deferred_commit :: "int option"
  ss_deferred_close :: bool
  ss_server_url :: "string option"
  ss_locked :: bool
  ss_calls :: "call list"
  ss_history :: "(public_state \<times> public_state) list"

definition session_new :: sync_session where
  "session_new = \<lparr>ss_state = Inactive, ss_connection = Disconnected, ss_death_count = 0, ss_packages = [],
     ss_override = None, ss_session = False, ss_bound = False, ss_deferred_commit = None,
     ss_deferred_close = False, ss_server_url = None, ss_locked = False, ss_calls = [], ss_history = []\<rparr>"

definition emit :: "call list \<Rightarrow> sync_session \<Rightarrow> sync_session" where
  "emit cs s = s\<lparr>ss_calls := ss_calls s @ cs\<rparr>"

definition lock :: "sync_session \<Rightarrow> sync_session" where
  "lock s = s\<lparr>ss_locked := True\<rparr>"

definition unlock :: "sync_session \<Rightarrow> sync_session" where
  "unlock s = s\<lparr>ss_locked := False\<rparr>"

subsection \<open>Entering a state\<close>

definition unregister :: "sync_session \<Rightarrow> sync_session option" where
  "unregister s = do {
     realm_assert (ss_locked s);
     realm_assert (ss_state s = Inactive);
     Some (emit [UnregisterSession] (unlock s)) }"

definition enter_inactive :: "sync_session \<Rightarrow> sync_session option" where
  "enter_inactive s = do {
     let packages = ss_packages s;
     let s = (if ss_session s then emit [DestroySession] s else s);
     s \<leftarrow> unregister (s\<lparr>ss_packages := [], ss_session := False\<rparr>);
     let old = ss_connection s;
     let s = s\<lparr>ss_connection := Disconnected\<rparr>;
     let s = (if old \<noteq> Disconnected then emit [ConnectionChange old Disconnected] s else s);
     Some (emit (map (\<lambda>(w, c). OperationAborted c) packages) s) }"

definition leave_state :: "public_state \<Rightarrow> sync_session \<Rightarrow> sync_session option" where
  "leave_state new s = do {
     realm_assert (ss_locked s);
     realm_assert (ss_state s \<noteq> new);
     Some (s\<lparr>ss_state := new, ss_history := ss_history s @ [(ss_state s, new)]\<rparr>) }"

definition advance_inactive :: "sync_session \<Rightarrow> sync_session option" where
  "advance_inactive s = do { s \<leftarrow> leave_state Inactive s; enter_inactive s }"

definition enter_dying :: "sync_session \<Rightarrow> sync_session option" where
  "enter_dying s =
     (if \<not> ss_session s then advance_inactive s
      else let n = Suc (ss_death_count s) in Some (emit [AsyncWaitDying n] (s\<lparr>ss_death_count := n\<rparr>)))"

definition enter_state :: "sync_session \<Rightarrow> sync_session option" where
  "enter_state s =
     (case ss_state s of
        WaitingForAccessToken \<Rightarrow> Some (s\<lparr>ss_deferred_close := False\<rparr>)
      | Active \<Rightarrow> Some s
      | Dying \<Rightarrow> enter_dying s
      | Inactive \<Rightarrow> enter_inactive s)"

definition advance_state :: "public_state \<Rightarrow> sync_session \<Rightarrow> sync_session option" where
  "advance_state new s = do { s \<leftarrow> leave_state new s; enter_state s }"

subsection \<open>The operators of the states\<close>

definition create_sync_session :: "sync_session \<Rightarrow> sync_session" where
  "create_sync_session s = (if ss_session s then s else emit [MakeSession] (s\<lparr>ss_session := True, ss_bound := False\<rparr>))"

definition state_close :: "session_config \<Rightarrow> sync_session \<Rightarrow> sync_session option" where
  "state_close cfg s =
     (case ss_state s of
        WaitingForAccessToken \<Rightarrow>
          (case stop_policy cfg of
             Immediately \<Rightarrow> advance_state Inactive s
           | LiveIndefinitely \<Rightarrow> Some (s\<lparr>ss_deferred_close := True\<rparr>)
           | AfterChangesUploaded \<Rightarrow> Some (s\<lparr>ss_deferred_close := True\<rparr>))
      | Active \<Rightarrow>
          (case stop_policy cfg of
             Immediately \<Rightarrow> advance_state Inactive s
           | LiveIndefinitely \<Rightarrow> Some s
           | AfterChangesUploaded \<Rightarrow> advance_state Dying s)
      | Dying \<Rightarrow> Some s
      | Inactive \<Rightarrow> Some s)"

definition bind_or_refresh :: "string \<Rightarrow> sync_session \<Rightarrow> sync_session option" where
  "bind_or_refresh token s =
     (if ss_bound s then Some (emit [Refresh token, CancelReconnectDelay] s)
      else do {
        url \<leftarrow> ss_server_url s;
        Some ((emit [Bind url token] s)\<lparr>ss_bound := True\<rparr>) })"

definition register_pending :: "sync_session \<Rightarrow> sync_session" where
  "register_pending s =
     (let s = (case ss_override s of Some (a, p) \<Rightarrow> emit [OverrideServer a p] s | None \<Rightarrow> s);
          s = (emit (map (\<lambda>(w, c). AsyncWait w c) (ss_packages s)) s)\<lparr>ss_packages := []\<rparr>
      in case ss_deferred_commit s of
           Some v \<Rightarrow> (emit [NonsyncTransactNotify v] s)\<lparr>ss_deferred_commit := None\<rparr> | None \<Rightarrow> s)"

definition waiting_refresh :: "session_config \<Rightarrow> string \<Rightarrow> string option \<Rightarrow> sync_session \<Rightarrow> sync_session option" where
  "waiting_refresh cfg token url s = do {
     let s = create_sync_session s;
     let s = (if ss_server_url s = None then s\<lparr>ss_server_url := url\<rparr> else s);
     s \<leftarrow> bind_or_refresh token s;
     s \<leftarrow> advance_state Active (register_pending s);
     if ss_deferred_close s then state_close cfg s else Some s }"

definition state_refresh_access_token ::
    "session_config \<Rightarrow> string \<Rightarrow> string option \<Rightarrow> sync_session \<Rightarrow> sync_session option" where
  "state_refresh_access_token cfg token url s =
     (case ss_state s of
        WaitingForAccessToken \<Rightarrow> waiting_refresh cfg token url s
      | Active \<Rightarrow> do { realm_assert (ss_session s); Some (emit [Refresh token, CancelReconnectDelay] s) }
      | Dying \<Rightarrow> Some s
      | Inactive \<Rightarrow> Some s)"

definition state_access_token_expired :: "sync_session \<Rightarrow> sync_session option" where
  "state_access_token_expired s =
     (case ss_state s of
        Active \<Rightarrow> do { s \<leftarrow> advance_state WaitingForAccessToken s; Some (emit [BindSessionHandler] (unlock s)) }
      | _ \<Rightarrow> Some s)"

definition state_nonsync_transact_notify :: "int \<Rightarrow> sync_session \<Rightarrow> sync_session option" where
  "state_nonsync_transact_notify version s =
     (case ss_state s of
        WaitingForAccessToken \<Rightarrow> Some (s\<lparr>ss_deferred_commit := Some version\<rparr>)
      | Active \<Rightarrow> do { realm_assert (ss_session s); Some (emit [NonsyncTransactNotify version] s) }
      | _ \<Rightarrow> Some s)"

text \<open>The second component says whether the binding is to be asked for a token.\<close>

definition state_revive_if_needed :: "sync_session \<Rightarrow> (sync_session \<times> bool) option" where
  "state_revive_if_needed s =
     (case ss_state s of
        WaitingForAccessToken \<Rightarrow> Some (s\<lparr>ss_deferred_close := False\<rparr>, False)
      | Active \<Rightarrow> Some (s, False)
      | Dying \<Rightarrow> map_option (\<lambda>s. (s, False)) (advance_state Active s)
      | Inactive \<Rightarrow> map_option (\<lambda>s. (s, True)) (advance_state WaitingForAccessToken s))"

definition state_handle_reconnect :: "sync_session \<Rightarrow> sync_session option" where
  "state_handle_reconnect s =
     (case ss_state s of
        WaitingForAccessToken \<Rightarrow> Some (emit [BindSessionHandler] (unlock s))
      | Active \<Rightarrow> do { realm_assert (ss_session s); Some (emit [CancelReconnectDelay] s) }
      | _ \<Rightarrow> Some s)"

definition state_log_out :: "sync_session \<Rightarrow> sync_session option" where
  "state_log_out s = (if ss_state s = Inactive then Some s else advance_state Inactive s)"

text \<open>Whether the error has been handled.\<close>

definition state_handle_error :: "bool \<Rightarrow> sync_session \<Rightarrow> (sync_session \<times> bool) option" where
  "state_handle_error fatal s =
     (if ss_state s = Dying
      then map_option (\<lambda>s. (s, True)) (if fatal then advance_state Inactive s else Some s)
      else Some (s, False))"

definition state_wait_for_completion :: "waiter \<Rightarrow> nat \<Rightarrow> sync_session \<Rightarrow> (sync_session \<times> bool) option" where
  "state_wait_for_completion w callback s =
     (if ss_state s = Active \<or> ss_state s = Dying
      then do { realm_assert (ss_session s); Some (emit [AsyncWait w callback] s, True) }
      else Some (s\<lparr>ss_packages := ss_packages s @ [(w, callback)]\<rparr>, True))"

definition state_override_server :: "string \<Rightarrow> int \<Rightarrow> sync_session \<Rightarrow> sync_session option" where
  "state_override_server address port s =
     (let s = s\<lparr>ss_override := Some (address, port)\<rparr> in
      if ss_state s = Active \<or> ss_state s = Dying
      then do { realm_assert (ss_session s); Some (emit [OverrideServer address port] s) }
      else Some s)"

end
