(* ===== verification/Session_Ops.thy ===== *)
theory Session_Ops
  imports Session_Model
begin

section \<open>The operations of a sync session\<close>

text \<open>
  The error codes of the sync protocol and of the sync client, what \<open>handle_error\<close> does for each, the public
  operations of \<open>SyncSession\<close>, and the step relation of a session: its operations and the events of the
  underlying \<open>sync::Session\<close>.
\<close>

subsection \<open>Errors\<close>

text \<open>\<open>superseded\<close> and \<open>disabled_session\<close> are the same code.\<close>

datatype protocol_error =
    PE_connection_closed | PE_other_error | PE_unknown_message
  | PE_bad_syntax | PE_limits_exceeded | PE_wrong_protocol_version
  | PE_bad_session_ident | PE_reuse_of_session_ident | PE_bound_in_other_session
  | PE_bad_message_order | PE_bad_decompression | PE_bad_changeset_header_syntax
  | PE_bad_changeset_size | PE_bad_changesets | PE_session_closed
  | PE_other_session_error | PE_token_expired | PE_bad_authentication
  | PE_illegal_realm_path | PE_no_such_realm | PE_permission_denied
  | PE_bad_server_file_ident | PE_bad_client_file_ident | PE_bad_server_version
  | PE_bad_client_version | PE_diverging_histories | PE_bad_changeset
  | PE_disabled_session | PE_partial_sync_disabled | PE_unsupported_session_feature
  | PE_bad_origin_file_ident

datatype client_error =
    CE_connection_closed | CE_unknown_message | CE_bad_syntax
  | CE_limits_exceeded | CE_bad_session_ident | CE_bad_message_order
  | CE_bad_client_file_ident | CE_bad_progress | CE_bad_changeset_header_syntax
  | CE_bad_changeset_size | CE_bad_origin_file_ident | CE_bad_server_version
  | CE_bad_changeset | CE_bad_request_ident | CE_bad_error_code
  | CE_bad_compression | CE_bad_client_version | CE_ssl_server_cert_rejected
  | CE_pong_timeout | CE_bad_client_file_ident_salt | CE_bad_file_ident
  | CE_connect_timeout | CE_bad_timestamp

datatype error_code = ProtocolError protocol_error | ClientError client_error | OtherError

record sync_error =
  se_code :: error_code
  se_fatal :: bool

datatype should_backup = BackupYes | BackupNo

text \<open>What the two switches over the error codes do.\<close>

datatype error_effect =
    NotReported
  | TokenExpired
  | BadAuthentication
  | MarkForDeletion should_backup
  | JustReport

definition protocol_error_effect :: "protocol_error \<Rightarrow> error_effect" where
  "protocol_error_effect e =
     (if e \<in> {PE_connection_closed, PE_other_error} then NotReported
      else if e \<in> {PE_session_closed, PE_other_session_error, PE_disabled_session} then NotReported
      else if e = PE_token_expired then TokenExpired
      else if e = PE_bad_authentication then BadAuthentication
      else if e = PE_permission_denied then MarkForDeletion BackupNo
      else if e \<in> {PE_bad_origin_file_ident, PE_bad_server_file_ident, PE_bad_client_file_ident,
                   PE_bad_server_version, PE_diverging_histories} then MarkForDeletion BackupYes
      else JustReport)"

definition client_error_effect :: "client_error \<Rightarrow> error_effect" where
  "client_error_effect e = (if e \<in> {CE_connection_closed, CE_pong_timeout} then NotReported else JustReport)"

definition error_effect_of :: "error_code \<Rightarrow> error_effect" where
  "error_effect_of c =
     (case c of ProtocolError e \<Rightarrow> protocol_error_effect e | ClientError e \<Rightarrow> client_error_effect e | OtherError \<Rightarrow> JustReport)"

definition cancel_pending_waits :: "sync_session \<Rightarrow> sync_session" where
  "cancel_pending_waits s =
     emit (map (\<lambda>(w, c). OperationAborted c) (ss_packages s)) (unlock (s\<lparr>ss_packages := []\<rparr>))"

definition update_error_and_mark_file_for_deletion :: "should_backup \<Rightarrow> sync_session \<Rightarrow> sync_session" where
  "update_error_and_mark_file_for_deletion b s = emit [MakeFileAction (b = BackupYes)] s"

definition report_error :: "session_config \<Rightarrow> error_code \<Rightarrow> sync_session \<Rightarrow> sync_session" where
  "report_error cfg c s = (if has_error_handler cfg then emit [ErrorHandler (c = OtherError)] s else s)"

text \<open>The rest of \<open>handle_error\<close> once the state has not handled the error.\<close>

definition handle_unhandled_error :: "session_config \<Rightarrow> sync_error \<Rightarrow> sync_session \<Rightarrow> sync_session option" where
  "handle_unhandled_error cfg e s =
     (case error_effect_of (se_code e) of
        NotReported \<Rightarrow> Some s
      | TokenExpired \<Rightarrow> map_option unlock (state_access_token_expired (lock s))
      | BadAuthentication \<Rightarrow>
          (let s = cancel_pending_waits (lock s);
               s = (if has_user cfg then emit [InvalidateUser] s else s)
           in Some (report_error cfg (se_code e) s))
      | MarkForDeletion b \<Rightarrow> do {
          s \<leftarrow> advance_state Inactive (lock (update_error_and_mark_file_for_deletion b s));
          Some (report_error cfg (se_code e) (unlock s)) }
      | JustReport \<Rightarrow>
          Some (report_error cfg (se_code e) (if se_fatal e then cancel_pending_waits (lock s) else s)))"

definition handle_error :: "session_config \<Rightarrow> sync_error \<Rightarrow> sync_session \<Rightarrow> sync_session option" where
  "handle_error cfg e s = do {
     (s, handled) \<leftarrow> state_handle_error (se_fatal e) (lock s);
     if handled then Some (unlock s) else handle_unhandled_error cfg e (unlock s) }"

subsection \<open>Public operations\<close>

definition nonsync_transact_notify :: "int \<Rightarrow> sync_session \<Rightarrow> sync_session option" where
  "nonsync_transact_notify version s = map_option unlock (state_nonsync_transact_notify version (lock s))"

definition revive_if_needed :: "sync_session \<Rightarrow> sync_session option" where
  "revive_if_needed s = do {
     (s, ask) \<leftarrow> state_revive_if_needed (lock s);
     let s = unlock s;
     Some (if ask then emit [BindSessionHandler] s else s) }"

definition handle_reconnect :: "sync_session \<Rightarrow> sync_session option" where
  "handle_reconnect s = map_option unlock (state_handle_reconnect (lock s))"

definition log_out :: "sync_session \<Rightarrow> sync_session option" where
  "log_out s = map_option unlock (state_log_out (lock s))"

definition session_close :: "session_config \<Rightarrow> sync_session \<Rightarrow> sync_session option" where
  "session_close cfg s = map_option unlock (state_close cfg (lock s))"

definition wait_for_completion :: "waiter \<Rightarrow> nat \<Rightarrow> sync_session \<Rightarrow> (sync_session \<times> bool) option" where
  "wait_for_completion w callback s = map_option (\<lambda>(s, b). (unlock s, b)) (state_wait_for_completion w callback (lock s))"

definition refresh_access_token :: "session_config \<Rightarrow> string \<Rightarrow> string option \<Rightarrow> sync_session \<Rightarrow> sync_session option" where
  "refresh_access_token cfg token url s =
     (if ss_server_url s = None \<and> url = None then Some s
      else map_option unlock (state_refresh_access_token cfg token url (lock s)))"

definition override_server :: "string \<Rightarrow> int \<Rightarrow> sync_session \<Rightarrow> sync_session option" where
  "override_server address port s = map_option unlock (state_override_server address port (lock s))"

text \<open>Dropping the last external reference closes the session, unless it has been given out again.\<close>

definition did_drop_external_reference :: "session_config \<Rightarrow> bool \<Rightarrow> sync_session \<Rightarrow> sync_session option" where
  "did_drop_external_reference cfg expired s =
     (if \<not> expired then Some s else map_option unlock (state_close cfg (lock s)))"

text \<open>The callbacks a session has registered with its \<open>sync::Session\<close>.\<close>

definition upload_completed :: "nat \<Rightarrow> sync_session \<Rightarrow> sync_session option" where
  "upload_completed death_count s =
     (if ss_state s = Dying \<and> ss_death_count s = death_count
      then map_option unlock (advance_state Inactive (lock s)) else Some s)"

definition connection_state_changed ::
    "session_config \<Rightarrow> connection_state \<Rightarrow> sync_error option \<Rightarrow> sync_session \<Rightarrow> sync_session option" where
  "connection_state_changed cfg new error s =
     (let s = emit [ConnectionChange (ss_connection s) new] (s\<lparr>ss_connection := new\<rparr>) in
      case error of Some e \<Rightarrow> handle_error cfg e s | None \<Rightarrow> Some s)"

subsection \<open>Steps\<close>

datatype session_op =
    NonsyncTransact int
  | Revive
  | Reconnect
  | LogOut
  | Close
  | Wait waiter nat
  | RefreshToken string "string option"
  | SetOverride string int
  | DropReference bool
  | UploadCompleted nat
  | ConnectionChanged connection_state "sync_error option"

fun session_step :: "session_config \<Rightarrow> session_op \<Rightarrow> sync_session \<Rightarrow> sync_session option" where
  "session_step cfg (NonsyncTransact v) s = nonsync_transact_notify v s"
| "session_step cfg Revive s = revive_if_needed s"
| "session_step cfg Reconnect s = handle_reconnect s"
| "session_step cfg LogOut s = log_out s"
| "session_step cfg Close s = session_close cfg s"
| "session_step cfg (Wait w c) s = map_option fst (wait_for_completion w c s)"
| "session_step cfg (RefreshToken t u) s = refresh_access_token cfg t u s"
| "session_step cfg (SetOverride a p) s = override_server a p s"
| "session_step cfg (DropReference expired) s = did_drop_external_reference cfg expired s"
| "session_step cfg (UploadCompleted n) s = upload_completed n s"
| "session_step cfg (ConnectionChanged st e) s = connection_state_changed cfg st e s"

text \<open>The underlying session reports changes of its connection and errors only while it exists.\<close>

fun possible :: "session_op \<Rightarrow> sync_session \<Rightarrow> bool" where
  "possible (ConnectionChanged st e) s = ss_session s"
| "possible _ s = True"

inductive session_reaches :: "session_config \<Rightarrow> session_op list \<Rightarrow> sync_session \<Rightarrow> bool" for cfg where
  start: "session_reaches cfg [] session_new"
| step: "session_reaches cfg ops s \<Longrightarrow> possible op s \<Longrightarrow> session_step cfg op s = Some s' \<Longrightarrow>
     session_reaches cfg (ops @ [op]) s'"

inductive_cases session_reaches_snocE: "session_reaches cfg (ops @ [op]) s"

end
