(* ===== verification/Session_Invariant.thy ===== *)
theory Session_Invariant
  imports Session_Ops "HOL-Library.Multiset"
begin

section \<open>The invariant of a sync session\<close>

text \<open>
  What holds of a session between two operations, and that every operation that is possible runs without a
  failed assertion and keeps it.

  \<^item> \<open>documented\<close> are the transitions that the comment on \<open>SyncSession::State\<close> allows; the history of a session is
    a path of them.
  \<^item> \<open>waits\<close> counts the callbacks of waiters: those that are pending, and those that have been handed to the
    underlying session or told that their operation is aborted.
\<close>

fun documented :: "public_state \<Rightarrow> public_state \<Rightarrow> bool" where
  "documented WaitingForAccessToken Active = True"
| "documented WaitingForAccessToken Inactive = True"
| "documented Active WaitingForAccessToken = True"
| "documented Active Inactive = True"
| "documented Active Dying = True"
| "documented Dying Inactive = True"
| "documented Dying Active = True"
| "documented Inactive WaitingForAccessToken = True"
| "documented _ _ = False"

fun documented_path :: "public_state \<Rightarrow> (public_state \<times> public_state) list \<Rightarrow> public_state \<Rightarrow> bool" where
  "documented_path a [] b \<longleftrightarrow> a = b"
| "documented_path a ((x, y) # es) b \<longleftrightarrow> x = a \<and> documented x y \<and> documented_path y es b"

lemma documented_path_snoc [simp]:
  "documented_path a (es @ [(x, y)]) b \<longleftrightarrow> documented_path a es x \<and> documented x y \<and> y = b"
  by (induction a es x rule: documented_path.induct) auto

fun waited_callback :: "call \<Rightarrow> nat list" where
  "waited_callback (AsyncWait w c) = [c]"
| "waited_callback (OperationAborted c) = [c]"
| "waited_callback _ = []"

definition resolved :: "call list \<Rightarrow> nat list" where
  "resolved cs = concat (map waited_callback cs)"

definition waits :: "sync_session \<Rightarrow> nat multiset" where
  "waits s = mset (map snd (ss_packages s)) + mset (resolved (ss_calls s))"

fun new_waits :: "session_op \<Rightarrow> nat multiset" where
  "new_waits (Wait w c) = {#c#}"
| "new_waits _ = {#}"

lemma resolved_simps [simp]:
  "resolved [] = []" "resolved (c # cs) = waited_callback c @ resolved cs"
  "resolved (cs @ ds) = resolved cs @ resolved ds"
  by (simp_all add: resolved_def)

lemma resolved_aborted [simp]: "resolved (map (\<lambda>(w, c). OperationAborted c) ps) = map snd ps"
  by (induction ps) auto

lemma resolved_handed_over [simp]: "resolved (map (\<lambda>(w, c). AsyncWait w c) ps) = map snd ps"
  by (induction ps) auto

definition session_inv :: "sync_session \<Rightarrow> bool" where
  "session_inv s \<longleftrightarrow>
     documented_path Inactive (ss_history s) (ss_state s)
   \<and> (ss_state s = Inactive \<longrightarrow> \<not> ss_session s \<and> ss_connection s = Disconnected)
   \<and> (ss_state s = Active \<or> ss_state s = Dying \<longrightarrow>
        ss_session s \<and> ss_packages s = [] \<and> ss_deferred_commit s = None)
   \<and> (ss_session s \<longrightarrow> ss_bound s \<and> ss_server_url s \<noteq> None)"

named_theorems session_defs

lemmas session_state_defs [session_defs] = emit_def lock_def unlock_def unregister_def leave_state_def
  enter_inactive_def enter_dying_def enter_state_def advance_state_def advance_inactive_def Let_def

definition step_result :: "nat multiset \<Rightarrow> sync_session \<Rightarrow> sync_session \<Rightarrow> bool" where
  "step_result new s s' \<longleftrightarrow> session_inv s' \<and> waits s' = waits s + new"

lemma advance_inactive_result:
  assumes "session_inv s" "ss_state s \<noteq> Inactive"
  shows "succeeds (advance_state Inactive (lock s)) (\<lambda>s'. step_result {#} s s' \<and> ss_state s' = Inactive)"
  using assms
  by (cases "ss_state s") (auto simp: session_defs step_result_def session_inv_def waits_def)

lemma state_close_result:
  assumes "session_inv s"
  shows "succeeds (state_close cfg (lock s)) (step_result {#} s)"
  using assms
  by (cases "ss_state s"; cases "stop_policy cfg")
     (auto simp: session_defs state_close_def step_result_def session_inv_def waits_def)

text \<open>The steps of \<open>refresh_access_token\<close> while waiting for a token.\<close>

definition bound_waiting :: "sync_session \<Rightarrow> sync_session \<Rightarrow> bool" where
  "bound_waiting s s' \<longleftrightarrow> step_result {#} s s' \<and> ss_state s' = WaitingForAccessToken \<and> ss_session s' \<and> ss_locked s'"

lemma bind_result:
  assumes "session_inv s" "ss_state s = WaitingForAccessToken" "ss_server_url s \<noteq> None \<or> url \<noteq> None"
  shows "succeeds (bind_or_refresh token (let s = create_sync_session (lock s) in
      if ss_server_url s = None then s\<lparr>ss_server_url := url\<rparr> else s)) (bound_waiting s)"
  using assms
  by (cases "ss_session s"; cases "ss_server_url s")
     (auto simp: bind_or_refresh_def create_sync_session_def emit_def lock_def bound_waiting_def step_result_def
        session_inv_def waits_def)

lemma register_pending_result:
  assumes "bound_waiting s s1"
  shows "bound_waiting s (register_pending s1) \<and> ss_packages (register_pending s1) = []
    \<and> ss_deferred_commit (register_pending s1) = None"
proof -
  have "waits (register_pending s1) = waits s1" "session_inv s1 \<Longrightarrow> session_inv (register_pending s1)"
    "ss_state (register_pending s1) = ss_state s1" "ss_session (register_pending s1) = ss_session s1"
    "ss_locked (register_pending s1) = ss_locked s1" "ss_packages (register_pending s1) = []"
    "ss_deferred_commit (register_pending s1) = None"
    by (auto simp: register_pending_def emit_def waits_def session_inv_def Let_def split: option.splits prod.splits)
  then show ?thesis using assms by (simp add: bound_waiting_def step_result_def)
qed

lemma advance_active_result:
  assumes "bound_waiting s s1" "ss_packages s1 = []" "ss_deferred_commit s1 = None"
  shows "succeeds (advance_state Active s1) (\<lambda>s'. step_result {#} s s' \<and> ss_locked s')"
  using assms
  by (auto simp: bound_waiting_def step_result_def advance_state_def leave_state_def enter_state_def session_inv_def waits_def)

lemma lock_locked: "ss_locked s \<Longrightarrow> lock s = s"
  by (simp add: lock_def)

lemma waiting_refresh_result:
  assumes "session_inv s" "ss_state s = WaitingForAccessToken" "ss_server_url s \<noteq> None \<or> url \<noteq> None"
  shows "succeeds (waiting_refresh cfg token url (lock s)) (step_result {#} s)"
proof -
  from bind_result [OF assms] obtain s1 where
    s1: "bind_or_refresh token (let s = create_sync_session (lock s) in
      if ss_server_url s = None then s\<lparr>ss_server_url := url\<rparr> else s) = Some s1" "bound_waiting s s1"
    by (rule succeedsE)
  note reg = register_pending_result [OF s1(2)]
  have "succeeds (advance_state Active (register_pending s1)) (\<lambda>s'. step_result {#} s s' \<and> ss_locked s')"
    using reg by (blast intro: advance_active_result)
  then obtain s2 where s2: "advance_state Active (register_pending s1) = Some s2" "step_result {#} s s2 \<and> ss_locked s2"
    by (rule succeedsE)
  have "succeeds (state_close cfg (lock s2)) (step_result {#} s2)"
    using s2 by (intro state_close_result) (simp add: step_result_def)
  then have "succeeds (state_close cfg s2) (step_result {#} s)"
    using s2 by (auto simp: lock_locked step_result_def elim!: succeeds_mono)
  then show ?thesis using s1(1) s2 by (auto simp: waiting_refresh_def Let_def)
qed

lemma refresh_result:
  assumes "session_inv s" "ss_server_url s \<noteq> None \<or> url \<noteq> None"
  shows "succeeds (state_refresh_access_token cfg token url (lock s)) (step_result {#} s)"
proof (cases "ss_state s = WaitingForAccessToken")
  case True
  then have "state_refresh_access_token cfg token url (lock s) = waiting_refresh cfg token url (lock s)"
    by (simp add: state_refresh_access_token_def lock_def)
  then show ?thesis using waiting_refresh_result [OF assms(1) True assms(2)] by simp
next
  case False
  then show ?thesis using assms
    by (cases "ss_state s") (auto simp: session_defs state_refresh_access_token_def step_result_def session_inv_def waits_def)
qed

lemma token_expired_result:
  assumes "session_inv s"
  shows "succeeds (state_access_token_expired (lock s)) (step_result {#} s)"
  using assms
  by (cases "ss_state s")
     (auto simp: session_defs state_access_token_expired_def step_result_def session_inv_def waits_def)

lemma revive_result:
  assumes "session_inv s"
  shows "succeeds (state_revive_if_needed (lock s)) (\<lambda>(s', b). step_result {#} s s')"
  using assms
  by (cases "ss_state s")
     (auto simp: session_defs state_revive_if_needed_def step_result_def session_inv_def waits_def)

lemma frame_results:
  assumes "session_inv s"
  shows "step_result {#} s (lock s)" "step_result {#} s (unlock s)" "session_inv (lock s)" "session_inv (unlock s)"
    and "resolved cs = [] \<Longrightarrow> step_result {#} s (emit cs s)"
    and "step_result {#} s (cancel_pending_waits s)"
    and "step_result {#} s (report_error cfg c s)"
    and "ss_state s \<noteq> Inactive \<Longrightarrow> step_result {#} s (s\<lparr>ss_connection := k\<rparr>)"
  using assms
  by (auto simp: session_defs step_result_def session_inv_def waits_def cancel_pending_waits_def report_error_def)

lemma step_result_trans: "step_result {#} s t \<Longrightarrow> step_result {#} t u \<Longrightarrow> step_result {#} s u"
  by (simp add: step_result_def)

lemma step_result_inv: "step_result n s s' \<Longrightarrow> session_inv s'"
  by (simp add: step_result_def)

lemma lock_simps [simp]:
  "ss_state (lock s) = ss_state s" "ss_state (unlock s) = ss_state s" "ss_state (emit cs s) = ss_state s"
  "ss_session (lock s) = ss_session s" "ss_session (unlock s) = ss_session s" "ss_session (emit cs s) = ss_session s"
  "waits (lock s) = waits s" "waits (unlock s) = waits s"
  by (simp_all add: lock_def unlock_def emit_def waits_def)

lemma session_inv_lock [simp]: "session_inv (lock s) = session_inv s" "session_inv (unlock s) = session_inv s"
  by (simp_all add: session_inv_def lock_def unlock_def)

lemma step_result_lock [simp]:
  "step_result n (lock s) = step_result n s" "step_result n (unlock s) = step_result n s"
  "step_result n s (unlock s') = step_result n s s'"
  by (auto simp: step_result_def)

lemma succeeds_unlock [simp]:
  "succeeds (map_option unlock m) (step_result n s) = succeeds m (step_result n s)"
  by (cases m) simp_all

lemma inactive_no_session: "session_inv s \<Longrightarrow> ss_session s \<Longrightarrow> ss_state s \<noteq> Inactive"
  by (auto simp: session_inv_def)

subsection \<open>Errors\<close>

lemma unhandled_error_result:
  assumes "session_inv s" "ss_state s \<noteq> Inactive"
  shows "succeeds (handle_unhandled_error cfg e s) (step_result {#} s)"
proof (cases "error_effect_of (se_code e)")
  case NotReported
  then show ?thesis using assms by (simp add: handle_unhandled_error_def step_result_def)
next
  case TokenExpired
  then show ?thesis using token_expired_result [OF assms(1)]
    by (simp add: handle_unhandled_error_def)
next
  case BadAuthentication
  have "step_result {#} s (cancel_pending_waits (lock s))"
    using frame_results(6) [of "lock s"] frame_results(3) [OF assms(1)] by simp
  then show ?thesis using BadAuthentication
    by (auto simp: handle_unhandled_error_def Let_def report_error_def
        intro!: step_result_trans [OF _ frame_results(5)] step_result_inv frame_results(5))
next
  case (MarkForDeletion b)
  let ?s = "update_error_and_mark_file_for_deletion b s"
  have s: "step_result {#} s ?s" "ss_state ?s \<noteq> Inactive"
    using assms frame_results(5) [OF assms(1)] by (simp_all add: update_error_and_mark_file_for_deletion_def)
  have "succeeds (advance_state Inactive (lock ?s)) (\<lambda>s'. step_result {#} ?s s' \<and> ss_state s' = Inactive)"
    by (rule advance_inactive_result) (use s in \<open>auto simp: step_result_def\<close>)
  then obtain x where x: "advance_state Inactive (lock ?s) = Some x" "step_result {#} ?s x" by (auto simp: succeeds_def)
  have "step_result {#} s (report_error cfg (se_code e) (unlock x))"
    using step_result_trans [OF step_result_trans [OF s(1) x(2)] frame_results(7)] step_result_inv [OF x(2)]
    by (metis frame_results(7) session_inv_lock(2) step_result_lock(2) step_result_trans x(2) s(1))
  then show ?thesis using MarkForDeletion x(1) by (simp add: handle_unhandled_error_def)
next
  case JustReport
  have "step_result {#} s (cancel_pending_waits (lock s))"
    using frame_results(6) [of "lock s"] frame_results(3) [OF assms(1)] by simp
  then show ?thesis using JustReport assms
    by (auto simp: handle_unhandled_error_def Let_def intro: step_result_trans [OF _ frame_results(7)]
        step_result_inv frame_results(7))
qed

lemma handle_error_result:
  assumes "session_inv s" "ss_state s \<noteq> Inactive"
  shows "succeeds (handle_error cfg e s) (step_result {#} s)"
proof (cases "ss_state s = Dying")
  case True
  then show ?thesis using advance_inactive_result [OF assms] assms(1)
    by (auto simp: handle_error_def state_handle_error_def succeeds_def step_result_def session_inv_def
        lock_def unlock_def waits_def)
next
  case False
  have "session_inv (unlock (lock s))" using assms(1) by (simp add: frame_results)
  then have "succeeds (handle_unhandled_error cfg e (unlock (lock s))) (step_result {#} (unlock (lock s)))"
    by (rule unhandled_error_result) (simp add: assms(2))
  then show ?thesis using False by (simp add: handle_error_def state_handle_error_def)
qed

subsection \<open>Every operation\<close>

lemma session_step_result:
  assumes inv: "session_inv s" and possible: "possible op s"
  shows "succeeds (session_step cfg op s) (step_result (new_waits op) s)"
proof (cases op)
  case (NonsyncTransact v)
  then show ?thesis using inv
    by (cases "ss_state s") (auto simp: nonsync_transact_notify_def state_nonsync_transact_notify_def session_defs
        step_result_def session_inv_def waits_def)
next
  case Revive
  from revive_result [OF inv] obtain s' b where r: "state_revive_if_needed (lock s) = Some (s', b)" "step_result {#} s s'"
    by (rule succeeds2E)
  then have "step_result {#} s (emit [BindSessionHandler] (unlock s'))"
    by (auto intro!: step_result_trans [OF _ frame_results(5)] dest: step_result_inv)
  then show ?thesis using r Revive by (simp add: revive_if_needed_def Let_def)
next
  case Reconnect
  then show ?thesis using inv
    by (cases "ss_state s") (auto simp: handle_reconnect_def state_handle_reconnect_def session_defs step_result_def
        session_inv_def waits_def)
next
  case LogOut
  then show ?thesis using inv advance_inactive_result [OF inv]
    by (auto simp: log_out_def state_log_out_def frame_results elim: succeeds_mono)
next
  case Close
  then show ?thesis using state_close_result [OF inv] by (simp add: session_close_def)
next
  case (Wait w c)
  then show ?thesis using inv
    by (cases "ss_state s") (auto simp: wait_for_completion_def state_wait_for_completion_def session_defs
        step_result_def session_inv_def waits_def)
next
  case (RefreshToken token url)
  then show ?thesis using refresh_result [OF inv, of url cfg token] inv
    by (auto simp: refresh_access_token_def step_result_def [of "{#}" s s])
next
  case (SetOverride a p)
  then show ?thesis using inv
    by (cases "ss_state s") (auto simp: override_server_def state_override_server_def session_defs step_result_def
        session_inv_def waits_def)
next
  case (DropReference expired)
  then show ?thesis using state_close_result [OF inv] inv
    by (auto simp: did_drop_external_reference_def step_result_def [of "{#}" s s])
next
  case (UploadCompleted n)
  then show ?thesis using advance_inactive_result [OF inv] inv
    by (auto simp: upload_completed_def step_result_def [of "{#}" s s] elim: succeeds_mono)
next
  case (ConnectionChanged k e)
  let ?s = "emit [ConnectionChange (ss_connection s) k] (s\<lparr>ss_connection := k\<rparr>)"
  from inv possible ConnectionChanged have live: "ss_state s \<noteq> Inactive" by (auto dest: inactive_no_session)
  then have s: "step_result {#} s ?s" "ss_state ?s \<noteq> Inactive"
    using inv by (auto simp: step_result_def session_inv_def emit_def waits_def)
  show ?thesis
  proof (cases e)
    case None
    then show ?thesis using ConnectionChanged s(1) by (simp add: connection_state_changed_def)
  next
    case (Some err)
    have "succeeds (handle_error cfg err ?s) (step_result {#} ?s)"
      using s by (intro handle_error_result) (auto dest: step_result_inv)
    then show ?thesis using ConnectionChanged Some s(1)
      by (auto simp: connection_state_changed_def Let_def elim!: succeeds_mono intro: step_result_trans)
  qed
qed

lemma session_new_inv: "session_inv session_new" "waits session_new = {#}"
  by (simp_all add: session_new_def session_inv_def waits_def)

lemma reaches_inv: "session_reaches cfg ops s \<Longrightarrow> session_inv s \<and> waits s = sum_list (map new_waits ops)"
proof (induction rule: session_reaches.induct)
  case (step ops s op s')
  then show ?case using session_step_result [of s op cfg] by (simp add: step_result_def)
qed (simp add: session_new_inv)

end
