(* ===== verification/Session_Claims.thy ===== *)
theory Session_Claims
  imports Session_Invariant "HOL-Library.Code_Target_Nat"
begin

section \<open>Properties of sync sessions\<close>

text \<open>
  What holds in every state that a session reaches from its construction, by any sequence of its operations
  and of the events of its underlying session, and where the code leaves a gap between two sections that
  hold the mutex.
\<close>

definition run_session :: "session_config \<Rightarrow> session_op list \<Rightarrow> sync_session option" where
  "run_session cfg ops = fold_opt (\<lambda>op s. if possible op s then session_step cfg op s else None) ops session_new"

lemma fold_opt_append: "fold_opt f (xs @ ys) s = Option.bind (fold_opt f xs s) (fold_opt f ys)"
  by (induction xs arbitrary: s) (auto split: Option.bind_split)

lemma run_session_reaches: "run_session cfg ops = Some s \<Longrightarrow> session_reaches cfg ops s"
proof (induction ops arbitrary: s rule: rev_induct)
  case (snoc op ops)
  then show ?case
    by (auto simp: run_session_def fold_opt_append split: Option.bind_splits if_splits intro: session_reaches.step)
qed (simp add: run_session_def session_reaches.start)

definition upload_config :: session_config where
  "upload_config = \<lparr>stop_policy = AfterChangesUploaded, has_user = True, has_error_handler = True\<rparr>"

definition example_run :: "session_op list" where
  "example_run = [Revive, Wait UploadCompletion 1, RefreshToken ''token'' (Some ''url''),
     ConnectionChanged Connected None, ConnectionChanged Connected (Some \<lparr>se_code = ProtocolError PE_token_expired, se_fatal = False\<rparr>),
     Wait DownloadCompletion 2, RefreshToken ''token2'' None]"

definition example_session :: sync_session where
  "example_session = (case run_session upload_config example_run of Some s \<Rightarrow> s | None \<Rightarrow> session_new)"

lemma example_reached: "session_reaches upload_config example_run example_session"
proof -
  have "run_session upload_config example_run \<noteq> None" by code_simp
  then show ?thesis by (auto simp: example_session_def intro!: run_session_reaches)
qed





text \<open>C20: the states a session goes through follow the documented transitions, whatever the operations and errors:
  its history is a path of them from \<open>INACTIVE\<close> to the current state. \<close>

theorem session_history_documented:
  assumes "session_reaches cfg ops s"
  shows "documented_path Inactive (ss_history s) (ss_state s)"
  using reaches_inv [OF assms] by (simp add: session_inv_def)

theorem session_history_documented_witness:
  "documented_path Inactive (ss_history example_session) Active \<and> length (ss_history example_session) = 4"
proof -
  have "ss_state example_session = Active" "length (ss_history example_session) = 4" by code_simp+
  with session_history_documented [OF example_reached] show ?thesis by simp
qed

text \<open>C21: no waiter is lost or called twice: the callbacks registered by the operations so far are, each as often as
  it was registered, those pending in the session, those handed to the underlying session and those told
  that their operation is aborted. \<close>

theorem waiters_resolved_once:
  assumes "session_reaches cfg ops s"
  shows "sum_list (map new_waits ops) = mset (map snd (ss_packages s)) + mset (resolved (ss_calls s))"
  using reaches_inv [OF assms] by (simp add: waits_def)

theorem waiters_resolved_once_witness:
  "{#2, 1#} = mset (map snd (ss_packages example_session)) + mset (resolved (ss_calls example_session))"
  using waiters_resolved_once [OF example_reached] by (simp add: example_run_def)

text \<open>C22: closing an active session that is to upload its changes first ends it when they are uploaded: it dies,
  becomes inactive on the completion it waits for and on no earlier one; revived before that, it stays
  active whatever completes. \<close>

theorem close_waits_for_upload:
  assumes "session_reaches cfg ops s" "ss_state s = Active" "stop_policy cfg = AfterChangesUploaded"
  shows "\<exists>s1 s2 s3. session_close cfg s = Some s1 \<and> ss_state s1 = Dying
     \<and> upload_completed (ss_death_count s1) s1 = Some s2 \<and> ss_state s2 = Inactive
     \<and> (\<forall>n. n \<noteq> ss_death_count s1 \<longrightarrow> upload_completed n s1 = Some s1)
     \<and> revive_if_needed s1 = Some s3 \<and> ss_state s3 = Active \<and> (\<forall>n. upload_completed n s3 = Some s3)"
proof -
  have "ss_session s" using session_inv_def reaches_inv [OF assms(1)] assms(2) by auto
  then show ?thesis
    using assms(2,3)
    by (simp add: session_close_def state_close_def upload_completed_def revive_if_needed_def state_revive_if_needed_def
        session_defs)
qed

theorem close_waits_for_upload_witness:
  "\<exists>s1. session_close upload_config example_session = Some s1 \<and> ss_state s1 = Dying"
proof -
  have "ss_state example_session = Active" "stop_policy upload_config = AfterChangesUploaded" by code_simp+
  from close_waits_for_upload [OF example_reached this] show ?thesis by blast
qed

text \<open>\<open>handle_error\<close> releases the mutex after the state has declined to handle the error. When another thread logs
  the user out in this gap, an error that marks the file for deletion makes the session enter \<open>INACTIVE\<close>
  again, and the assertion of \<open>advance_state\<close> fails. \<close>

theorem handle_error_race:
  "\<exists>ops s s1 s2. session_reaches upload_config ops s \<and> ss_session s
     \<and> state_handle_error True (lock s) = Some (s1, False)
     \<and> log_out (unlock s1) = Some s2
     \<and> handle_unhandled_error upload_config \<lparr>se_code = ProtocolError PE_permission_denied, se_fatal = True\<rparr> s2 = None"
proof -
  let ?s1 = "lock example_session"
  let ?e = "\<lparr>se_code = ProtocolError PE_permission_denied, se_fatal = True\<rparr>"
  have 1: "ss_session example_session" "state_handle_error True (lock example_session) = Some (?s1, False)" by code_simp+
  have 2: "log_out (unlock ?s1) \<noteq> None"
    "handle_unhandled_error upload_config ?e (the (log_out (unlock ?s1))) = None" by code_simp+
  then obtain s2 where s2: "log_out (unlock ?s1) = Some s2" by auto
  show ?thesis
    by (rule exI [of _ example_run], rule exI [of _ example_session], rule exI [of _ ?s1], rule exI [of _ s2])
       (use 1 2 s2 example_reached in simp)
qed

end
