(* ===== verification/Session_Notifiers.thy ===== *)
theory Session_Notifiers
  imports Session_Model
begin

section \<open>The notifiers of a sync session\<close>

text \<open>
  The model of \<open>SyncProgressNotifier\<close> and of \<open>SyncSession::ConnectionChangeNotifier\<close>.

  \<^item> A callback is its token; an invocation is the token with the arguments it is called with. The byte counts
    and versions are only compared, never added.
  \<^item> The unordered map of packages is an association list. The order in which an update goes through it is left
    open by the standard; the model takes the order of registration.
  \<^item> \<open>m_callback_index\<close> and \<open>m_callback_count\<close> are unsigned and start at \<open>npos\<close>, the predecessor of \<open>0\<close>. They are
    integers here, with \<open>npos\<close> as \<open>- 1\<close>, and compared as numbers modulo \<open>2 ^ 64\<close>. \<open>None\<close> is an access beyond the
    end of the callbacks, or a loop that does not end.
  \<^item> What a callback does to the notifier while it runs is given by \<open>behaviour\<close>, the list of the operations it
    performs. It may not start another notification.
\<close>

subsection \<open>Progress\<close>

record progress =
  uploadable :: nat
  downloadable :: nat
  uploaded :: nat
  downloaded :: nat
  pr_snapshot_version :: nat

record notifier_package =
  captured_transferrable :: "nat option"
  np_snapshot_version :: nat
  is_streaming :: bool
  is_download :: bool

record progress_notifier =
  pn_token :: nat
  pn_local_version :: nat
  pn_progress :: "progress option"
  pn_packages :: "(nat \<times> notifier_package) list"

definition progress_notifier_new :: progress_notifier where
  "progress_notifier_new = \<lparr>pn_token = 1, pn_local_version = 0, pn_progress = None, pn_packages = []\<rparr>"

text \<open>The invocation, its transferred and transferrable bytes, if there is one, and whether the notifier is expired.\<close>

definition invocation_of :: "progress \<Rightarrow> notifier_package \<Rightarrow> nat \<Rightarrow> (nat \<times> nat) option \<times> bool" where
  "invocation_of pr p transferrable =
     (let transferred = (if is_download p then downloaded pr else uploaded pr)
      in (Some (transferred, transferrable), \<not> is_streaming p \<and> transferrable \<le> transferred))"

definition create_invocation ::
    "progress \<Rightarrow> notifier_package \<Rightarrow> notifier_package \<times> (nat \<times> nat) option \<times> bool" where
  "create_invocation pr p =
     (if is_streaming p then (p, invocation_of pr p (if is_download p then downloadable pr else uploadable pr))
      else case captured_transferrable p of
        Some t \<Rightarrow> (p, invocation_of pr p t)
      | None \<Rightarrow>
          if is_download p
          then (p\<lparr>captured_transferrable := Some (downloadable pr)\<rparr>, invocation_of pr p (downloadable pr))
          else if np_snapshot_version p > pr_snapshot_version pr then (p, None, False)
          else (p\<lparr>captured_transferrable := Some (uploadable pr)\<rparr>, invocation_of pr p (uploadable pr)))"

definition invocations :: "nat \<Rightarrow> (nat \<times> nat) option \<Rightarrow> (nat \<times> nat \<times> nat) list" where
  "invocations token i = (case i of Some (a, b) \<Rightarrow> [(token, a, b)] | None \<Rightarrow> [])"

text \<open>The token the caller gets, and the calls of notifiers.\<close>

definition register_callback ::
    "bool \<Rightarrow> bool \<Rightarrow> progress_notifier \<Rightarrow> progress_notifier \<times> nat \<times> (nat \<times> nat \<times> nat) list" where
  "register_callback download streaming n =
     (let token = pn_token n; n = n\<lparr>pn_token := token + 1\<rparr>;
          package = \<lparr>captured_transferrable = None, np_snapshot_version = pn_local_version n,
                     is_streaming = streaming, is_download = download\<rparr>
      in case pn_progress n of
           None \<Rightarrow> (n\<lparr>pn_packages := pn_packages n @ [(token, package)]\<rparr>, token, [])
         | Some pr \<Rightarrow>
             let (package, i, skip) = create_invocation pr package
             in if skip then (n, 0, invocations token i)
                else (n\<lparr>pn_packages := pn_packages n @ [(token, package)]\<rparr>, token, invocations token i))"

definition unregister_callback :: "nat \<Rightarrow> progress_notifier \<Rightarrow> progress_notifier" where
  "unregister_callback token n = n\<lparr>pn_packages := filter (\<lambda>(t, p). t \<noteq> token) (pn_packages n)\<rparr>"

fun update_packages :: "progress \<Rightarrow> (nat \<times> notifier_package) list \<Rightarrow>
    (nat \<times> notifier_package) list \<times> (nat \<times> nat \<times> nat) list" where
  "update_packages pr [] = ([], [])"
| "update_packages pr ((t, p) # ps) =
     (let (p, i, expired) = create_invocation pr p; (ps, is) = update_packages pr ps
      in (if expired then ps else (t, p) # ps, invocations t i @ is))"

definition progress_update :: "progress \<Rightarrow> nat \<Rightarrow> progress_notifier \<Rightarrow> progress_notifier \<times> (nat \<times> nat \<times> nat) list" where
  "progress_update pr download_version n =
     (if download_version = 0 then (n, [])
      else let (ps, is) = update_packages pr (pn_packages n)
        in (n\<lparr>pn_progress := Some pr, pn_packages := ps\<rparr>, is))"

definition set_local_version :: "nat \<Rightarrow> progress_notifier \<Rightarrow> progress_notifier" where
  "set_local_version v n = n\<lparr>pn_local_version := v\<rparr>"

subsection \<open>Changes of the connection\<close>

record connection_notifier =
  cn_callbacks :: "nat list"
  cn_index :: int
  cn_count :: int
  cn_next_token :: nat

definition connection_notifier_new :: connection_notifier where
  "connection_notifier_new = \<lparr>cn_callbacks = [], cn_index = - 1, cn_count = - 1, cn_next_token = 0\<rparr>"

definition add_callback :: "connection_notifier \<Rightarrow> connection_notifier \<times> nat" where
  "add_callback n = (n\<lparr>cn_callbacks := cn_callbacks n @ [cn_next_token n], cn_next_token := cn_next_token n + 1\<rparr>,
     cn_next_token n)"

definition remove_callback :: "nat \<Rightarrow> connection_notifier \<Rightarrow> connection_notifier" where
  "remove_callback token n =
     (let idx = length (takeWhile (\<lambda>t. t \<noteq> token) (cn_callbacks n)) in
      if idx = length (cn_callbacks n) then n
      else n\<lparr>cn_index := (if cn_index n \<noteq> - 1 \<and> cn_index n \<ge> int idx then cn_index n - 1 else cn_index n),
             cn_count := cn_count n - 1,
             cn_callbacks := take idx (cn_callbacks n) @ drop (Suc idx) (cn_callbacks n)\<rparr>)"

datatype callback_op = AddCallback | RemoveCallback nat

fun callback_step :: "callback_op \<Rightarrow> connection_notifier \<Rightarrow> connection_notifier" where
  "callback_step AddCallback n = fst (add_callback n)"
| "callback_step (RemoveCallback t) n = remove_callback t n"

text \<open>The loop of \<open>invoke_callbacks\<close>, with the tokens of the callbacks that it calls.\<close>

definition size_less :: "int \<Rightarrow> int \<Rightarrow> bool" where
  "size_less a b \<longleftrightarrow> a mod 2 ^ 64 < b mod 2 ^ 64"

partial_function (option) invoke_loop ::
    "(nat \<Rightarrow> callback_op list) \<Rightarrow> connection_notifier \<Rightarrow> (connection_notifier \<times> nat list) option" where
  "invoke_loop behaviour n =
     (if size_less (cn_index n) (cn_count n) then
        if cn_index n < int (length (cn_callbacks n)) then do {
          let t = cn_callbacks n ! nat (cn_index n);
          let n = fold callback_step (behaviour t) n;
          (n, ts) \<leftarrow> invoke_loop behaviour (n\<lparr>cn_index := cn_index n + 1\<rparr>);
          Some (n, t # ts) }
        else None
      else Some (n, []))"

declare invoke_loop.simps [code]

definition invoke_callbacks ::
    "(nat \<Rightarrow> callback_op list) \<Rightarrow> connection_notifier \<Rightarrow> (connection_notifier \<times> nat list) option" where
  "invoke_callbacks behaviour n = do {
     (n, ts) \<leftarrow> invoke_loop behaviour
            (n\<lparr>cn_count := int (length (cn_callbacks n)), cn_index := cn_index n + 1\<rparr>);
     Some (n\<lparr>cn_index := - 1\<rparr>, ts) }"

end
