(* ===== verification/Notifier_Claims.thy ===== *)
theory Notifier_Claims
  imports Session_Notifiers "HOL-Library.Code_Target_Nat"
begin

section \<open>Properties of the notifiers of a sync session\<close>

text \<open>
  A notification of a change of the connection calls every callback once, whatever the callbacks remove, but
  for one case.
\<close>

subsection \<open>Changes of the connection\<close>

text \<open>
  The callbacks that a notification calls: each in turn, less those that an earlier one has removed.
\<close>

function notified :: "(nat \<Rightarrow> callback_op list) \<Rightarrow> nat list \<Rightarrow> nat list" where
  "notified behaviour [] = []"
| "notified behaviour (t # ts) = t # notified behaviour (filter (\<lambda>u. RemoveCallback u \<notin> set (behaviour t)) ts)"
  by pat_completeness auto
termination by (relation "measure (\<lambda>(b, ts). length ts)") (auto simp: le_imp_less_Suc)

definition connection_notifier_ok :: "connection_notifier \<Rightarrow> bool" where
  "connection_notifier_ok n \<longleftrightarrow> distinct (cn_callbacks n) \<and> (\<forall>t\<in>set (cn_callbacks n). t < cn_next_token n)
     \<and> cn_index n = - 1 \<and> length (cn_callbacks n) < 2 ^ 64"

text \<open>Every callback removes only callbacks that were registered before the notification.\<close>

definition removes_old :: "(nat \<Rightarrow> callback_op list) \<Rightarrow> nat \<Rightarrow> bool" where
  "removes_old behaviour m \<longleftrightarrow> (\<forall>t u. RemoveCallback u \<in> set (behaviour t) \<longrightarrow> u < m)"

text \<open>
  While a notification runs, the callbacks are those it has passed, those it will call, and those added
  since it started.
\<close>

definition in_loop :: "nat \<Rightarrow> connection_notifier \<Rightarrow> nat list \<Rightarrow> nat list \<Rightarrow> bool" where
  "in_loop m n d r \<longleftrightarrow> (\<exists>a. cn_callbacks n = d @ r @ a \<and> (\<forall>t\<in>set a. m \<le> t)) \<and> distinct (d @ r)
     \<and> (\<forall>t\<in>set (d @ r). t < m) \<and> m \<le> cn_next_token n
     \<and> cn_index n = int (length d) - 1 \<and> cn_count n = int (length (d @ r)) \<and> length (d @ r) < 2 ^ 64"

lemma filter_neq_absent: "u \<notin> set xs \<Longrightarrow> filter (\<lambda>t. t \<noteq> u) xs = xs"
  by (induction xs) auto

lemma filter_neq_remove:
  "distinct xs \<Longrightarrow> length (takeWhile (\<lambda>t. t \<noteq> u) xs) < length xs \<Longrightarrow>
     take (length (takeWhile (\<lambda>t. t \<noteq> u) xs)) xs @ drop (Suc (length (takeWhile (\<lambda>t. t \<noteq> u) xs))) xs = filter (\<lambda>t. t \<noteq> u) xs"
proof (induction xs)
  case (Cons x xs)
  then show ?case by (auto simp: filter_neq_absent)
qed simp

lemma takeWhile_neq_length: "length (takeWhile (\<lambda>t. t \<noteq> u) xs) = length xs \<longleftrightarrow> u \<notin> set xs"
  by (induction xs) auto

lemma in_loop_remove:
  assumes "in_loop m n d r" "u < m"
  shows "in_loop m (remove_callback u n) (filter (\<lambda>t. t \<noteq> u) d) (filter (\<lambda>t. t \<noteq> u) r)"
proof -
  from assms obtain a where a: "cn_callbacks n = d @ r @ a" "\<forall>t\<in>set a. m \<le> t"
    and dist: "distinct (d @ r)" and less: "\<forall>t\<in>set (d @ r). t < m" "m \<le> cn_next_token n"
    and idx: "cn_index n = int (length d) - 1" "cn_count n = int (length (d @ r))" "length (d @ r) < 2 ^ 64"
    by (auto simp: in_loop_def)
  have ua: "u \<notin> set a" using a(2) assms(2) by auto
  consider "u \<notin> set d" "u \<notin> set r" | "u \<in> set d" "u \<notin> set r" | "u \<notin> set d" "u \<in> set r"
    using dist by auto
  then show ?thesis
  proof cases
    case 1
    then have "filter (\<lambda>t. t \<noteq> u) d = d" "filter (\<lambda>t. t \<noteq> u) r = r" by (auto simp: filter_neq_absent)
    moreover have "remove_callback u n = n"
      using 1 ua takeWhile_neq_length [of u "cn_callbacks n"] by (simp add: remove_callback_def a(1))
    ultimately show ?thesis using assms(1) by simp
  next
    case 2
    let ?k = "length (takeWhile (\<lambda>t. t \<noteq> u) d)"
    have k: "?k < length d" using 2(1) takeWhile_neq_length [of u d] length_takeWhile_le [of "\<lambda>t. t \<noteq> u" d] by auto
    have tw: "takeWhile (\<lambda>t. t \<noteq> u) (d @ r @ a) = takeWhile (\<lambda>t. t \<noteq> u) d" using 2(1) by (simp add: takeWhile_append1)
    have r: "filter (\<lambda>t. t \<noteq> u) r = r" using 2(2) by (auto simp: filter_neq_absent)
    have d: "take ?k d @ drop (Suc ?k) d = filter (\<lambda>t. t \<noteq> u) d" using dist k by (intro filter_neq_remove) simp_all
    have len: "length (filter (\<lambda>t. t \<noteq> u) d) = length d - 1" using k by (simp flip: d)
    have d2: "take ?k d @ drop (Suc ?k) d @ zs = filter (\<lambda>t. t \<noteq> u) d @ zs" for zs
      by (simp flip: append_assoc add: d)
    have "cn_callbacks (remove_callback u n) = filter (\<lambda>t. t \<noteq> u) d @ r @ a"
      using k by (simp add: remove_callback_def Let_def a(1) tw flip: d)
    then show ?thesis
      using a(2) dist less idx k len
      by (auto simp: in_loop_def remove_callback_def Let_def a(1) tw r d2)
  next
    case 3
    let ?k = "length (takeWhile (\<lambda>t. t \<noteq> u) r)"
    have k: "?k < length r" using 3(2) takeWhile_neq_length [of u r] length_takeWhile_le [of "\<lambda>t. t \<noteq> u" r] by auto
    have tw: "takeWhile (\<lambda>t. t \<noteq> u) (d @ r @ a) = d @ takeWhile (\<lambda>t. t \<noteq> u) r"
      by (subst takeWhile_append2) (use 3 in \<open>auto simp: takeWhile_append1\<close>)
    have d: "filter (\<lambda>t. t \<noteq> u) d = d" using 3(1) by (auto simp: filter_neq_absent)
    have r: "take ?k r @ drop (Suc ?k) r = filter (\<lambda>t. t \<noteq> u) r" using dist k by (intro filter_neq_remove) simp_all
    have len: "length (filter (\<lambda>t. t \<noteq> u) r) = length r - 1" using k by (simp flip: r)
    have r2: "take ?k r @ drop (Suc ?k) r @ zs = filter (\<lambda>t. t \<noteq> u) r @ zs" for zs
      by (simp flip: append_assoc add: r)
    have "cn_callbacks (remove_callback u n) = d @ filter (\<lambda>t. t \<noteq> u) r @ a"
      using k by (simp add: remove_callback_def Let_def a(1) tw flip: r)
    then show ?thesis
      using a(2) dist less idx k len
      by (auto simp: in_loop_def remove_callback_def Let_def a(1) tw d r2)
  qed
qed

lemma in_loop_add: "in_loop m n d r \<Longrightarrow> in_loop m (fst (add_callback n)) d r"
  by (auto simp: in_loop_def add_callback_def)

lemma in_loop_steps:
  assumes "in_loop m n d r" "\<forall>u. RemoveCallback u \<in> set ops \<longrightarrow> u < m"
  shows "\<exists>d'. in_loop m (fold callback_step ops n) d' (filter (\<lambda>u. RemoveCallback u \<notin> set ops) r)"
  using assms
proof (induction ops arbitrary: n d r)
  case (Cons op ops)
  show ?case
  proof (cases op)
    case AddCallback
    then show ?thesis using Cons.IH [OF in_loop_add [OF Cons.prems(1)]] Cons.prems(2) by auto
  next
    case (RemoveCallback u)
    then have "filter (\<lambda>t. RemoveCallback t \<notin> set (op # ops)) r
        = filter (\<lambda>t. RemoveCallback t \<notin> set ops) (filter (\<lambda>t. t \<noteq> u) r)"
      by (auto intro: filter_cong)
    then show ?thesis using Cons.IH [OF in_loop_remove [OF Cons.prems(1), of u]] Cons.prems(2) RemoveCallback by auto
  qed
qed auto

lemma invoke_loop_notified:
  assumes "in_loop m n d r" "removes_old behaviour m"
  shows "\<exists>n'. invoke_loop behaviour (n\<lparr>cn_index := cn_index n + 1\<rparr>) = Some (n', notified behaviour r)"
  using assms
proof (induction behaviour r arbitrary: n d rule: notified.induct)
  case (1 behaviour)
  then have "cn_count n = int (length d)" "cn_index n + 1 = int (length d)" by (auto simp: in_loop_def)
  then show ?case by (subst invoke_loop.simps) (simp add: size_less_def)
next
  case (2 behaviour t ts)
  let ?n = "n\<lparr>cn_index := cn_index n + 1\<rparr>"
  from "2.prems"(1) have idx: "cn_index n + 1 = int (length d)" and cnt: "cn_count n = int (length d + Suc (length ts))"
    and bound: "length d + Suc (length ts) < 2 ^ 64" and cbs: "\<exists>a. cn_callbacks n = d @ (t # ts) @ a"
    by (auto simp: in_loop_def)
  have less: "size_less (int (length d)) (int (length d + Suc (length ts)))"
    using bound by (simp add: size_less_def)
  have "in_loop m ?n (d @ [t]) ts" using "2.prems"(1) by (auto simp: in_loop_def)
  moreover have old: "\<forall>u. RemoveCallback u \<in> set (behaviour t) \<longrightarrow> u < m" using "2.prems"(2) unfolding removes_old_def by blast
  ultimately obtain d' where d': "in_loop m (fold callback_step (behaviour t) ?n) d'
      (filter (\<lambda>u. RemoveCallback u \<notin> set (behaviour t)) ts)"
    using in_loop_steps [of m ?n "d @ [t]" ts "behaviour t"] old by blast
  have at: "cn_index ?n < int (length (cn_callbacks ?n))" "cn_callbacks ?n ! nat (cn_index ?n) = t"
    using idx cbs by (auto simp: nth_append)
  have "size_less (cn_index ?n) (cn_count ?n)" using less idx cnt by simp
  then show ?case
    using "2.IH" [OF d' "2.prems"(2)] at by (subst invoke_loop.simps) (auto simp: Let_def)
qed

text \<open>A notification of a change of the connection returns and calls every callback that was registered when it
  started once and in order, except those that an earlier callback has removed, as long as no callback
  removes one that was added since. \<close>

theorem connection_change_notifies_each:
  assumes "connection_notifier_ok n" "removes_old behaviour (cn_next_token n)"
  shows "\<exists>n'. invoke_callbacks behaviour n = Some (n', notified behaviour (cn_callbacks n))"
proof -
  let ?n = "n\<lparr>cn_count := int (length (cn_callbacks n))\<rparr>"
  have "in_loop (cn_next_token n) ?n [] (cn_callbacks n)"
    using assms(1) by (auto simp: in_loop_def connection_notifier_ok_def)
  from invoke_loop_notified [OF this assms(2)] show ?thesis by (auto simp: invoke_callbacks_def)
qed

text \<open>Three callbacks; the first removes itself and the last.\<close>

definition three_callbacks :: connection_notifier where
  "three_callbacks = fst (add_callback (fst (add_callback (fst (add_callback connection_notifier_new)))))"

definition removing :: "nat \<Rightarrow> callback_op list" where
  "removing t = (if t = 0 then [RemoveCallback 0, RemoveCallback 2, AddCallback] else [])"

theorem connection_change_notifies_each_witness:
  "connection_notifier_ok three_callbacks \<and> removes_old removing (cn_next_token three_callbacks)
   \<and> (\<exists>n'. invoke_callbacks removing three_callbacks = Some (n', [0, 1]))"
proof -
  have ok: "connection_notifier_ok three_callbacks" by code_simp
  moreover have "cn_next_token three_callbacks = 3" by code_simp
  then have old: "removes_old removing (cn_next_token three_callbacks)"
    by (auto simp: removes_old_def removing_def)
  moreover have "notified removing (cn_callbacks three_callbacks) = [0, 1]" by code_simp
  ultimately show ?thesis using connection_change_notifies_each [OF ok old] by simp
qed

text \<open>a callback that adds another one and removes it again makes the notification miss the callbacks at the end:
  the removal is counted although the added callback was not. \<close>

theorem connection_change_skips_callback:
  "\<exists>behaviour n n'. connection_notifier_ok n \<and> 1 \<in> set (cn_callbacks n) \<and> RemoveCallback 1 \<notin> set (behaviour 0)
     \<and> invoke_callbacks behaviour n = Some (n', [0])"
proof -
  let ?n = "fst (add_callback (fst (add_callback connection_notifier_new)))"
  let ?b = "\<lambda>t::nat. if t = 0 then [AddCallback, RemoveCallback 2] else []"
  have "map_option snd (invoke_callbacks ?b ?n) = Some [0]" by code_simp
  then obtain n' where "invoke_callbacks ?b ?n = Some (n', [0])" by auto
  moreover have "connection_notifier_ok ?n" "1 \<in> set (cn_callbacks ?n)" by code_simp+
  ultimately show ?thesis
    by (intro exI [of _ ?b] exI [of _ ?n] exI [of _ n']) simp
qed

end
