(* ===== verification/Progress_Claims.thy ===== *)
theory Progress_Claims
  imports Session_Notifiers "HOL-Library.Code_Target_Nat"
begin

section \<open>Properties of progress notifiers\<close>

text \<open>
  Runs of a \<open>SyncProgressNotifier\<close>: the notifiers that are registered and unregistered, and the updates of the
  sync client, in any order, with the invocations they lead to. The token of a notifier is its number.
\<close>

datatype progress_op =
    Register bool bool
  | Unregister nat
  | Update progress nat
  | SetLocalVersion nat

type_synonym invocation = "nat \<times> nat \<times> nat"

fun progress_step :: "progress_op \<Rightarrow> progress_notifier \<Rightarrow> progress_notifier \<times> invocation list" where
  "progress_step (Register download streaming) n = (case register_callback download streaming n of (n, t, is) \<Rightarrow> (n, is))"
| "progress_step (Unregister t) n = (unregister_callback t n, [])"
| "progress_step (Update pr v) n = progress_update pr v n"
| "progress_step (SetLocalVersion v) n = (set_local_version v n, [])"

fun progress_run :: "progress_op list \<Rightarrow> progress_notifier \<Rightarrow> progress_notifier \<times> invocation list" where
  "progress_run [] n = (n, [])"
| "progress_run (op # ops) n =
     (case progress_step op n of (n, is) \<Rightarrow> case progress_run ops n of (n, js) \<Rightarrow> (n, is @ js))"

text \<open>The flags \<open>is_streaming\<close> of the notifiers in the order of their tokens.\<close>

fun streams :: "progress_op list \<Rightarrow> bool list" where
  "streams [] = []"
| "streams (Register d s # ops) = s # streams ops"
| "streams (_ # ops) = streams ops"

text \<open>The invocations of one notifier.\<close>

definition calls_of :: "nat \<Rightarrow> invocation list \<Rightarrow> (nat \<times> nat) list" where
  "calls_of t is = map snd (filter (\<lambda>i. fst i = t) is)"

lemma calls_of_append [simp]: "calls_of t (is @ js) = calls_of t is @ calls_of t js"
  by (simp add: calls_of_def)

lemma calls_of_Nil [simp]: "calls_of t [] = []"
  by (simp add: calls_of_def)

lemma calls_of_invocations [simp]:
  "calls_of t (invocations u i) = (if u = t then (case i of Some x \<Rightarrow> [x] | None \<Rightarrow> []) else [])"
  by (auto simp: calls_of_def invocations_def split: option.split)

text \<open>
  A notifier that is not streaming reports one amount. While it is registered it has reported less than the
  amount, and the amount is the one it has captured.
\<close>

definition reports_once :: "(nat \<times> nat) list \<Rightarrow> bool" where
  "reports_once xs \<longleftrightarrow> (\<exists>amount. \<forall>x\<in>set xs. snd x = amount) \<and> (\<forall>x\<in>set (butlast xs). fst x < snd x)"

definition reporting :: "notifier_package option \<Rightarrow> (nat \<times> nat) list \<Rightarrow> bool" where
  "reporting p xs \<longleftrightarrow> (case p of
     None \<Rightarrow> reports_once xs
   | Some p \<Rightarrow> (case captured_transferrable p of
       None \<Rightarrow> xs = [] | Some amount \<Rightarrow> \<forall>x\<in>set xs. snd x = amount \<and> fst x < amount))"

lemma reporting_once: "reporting p xs \<Longrightarrow> reports_once xs"
  by (auto simp: reporting_def reports_once_def dest: in_set_butlastD split: option.splits)

definition next_package :: "progress \<Rightarrow> notifier_package \<Rightarrow> notifier_package option" where
  "next_package pr p = (case create_invocation pr p of (p, i, expired) \<Rightarrow> if expired then None else Some p)"

definition next_call :: "progress \<Rightarrow> notifier_package \<Rightarrow> (nat \<times> nat) list" where
  "next_call pr p = (case create_invocation pr p of (p, i, expired) \<Rightarrow> case i of None \<Rightarrow> [] | Some x \<Rightarrow> [x])"

lemma reporting_next:
  assumes "reporting (Some p) xs" "\<not> is_streaming p"
  shows "reporting (next_package pr p) (xs @ next_call pr p)"
  using assms
  by (auto simp: reporting_def reports_once_def next_package_def next_call_def create_invocation_def invocation_of_def Let_def
      butlast_append not_le split: option.splits if_splits)

lemma next_package_streaming: "next_package pr p = Some p' \<Longrightarrow> is_streaming p' = is_streaming p"
  by (auto simp: next_package_def create_invocation_def invocation_of_def Let_def split: option.splits if_splits)

lemma update_packages_keys:
  "update_packages pr ps = (ps', is) \<Longrightarrow> set (map fst ps') \<subseteq> set (map fst ps) \<and> (distinct (map fst ps) \<longrightarrow> distinct (map fst ps'))"
  by (induction pr ps arbitrary: ps' "is" rule: update_packages.induct) (fastforce split: prod.splits if_splits)+

lemma update_packages_of:
  assumes "update_packages pr ps = (ps', is)" "distinct (map fst ps)"
  shows "map_of ps' t = Option.bind (map_of ps t) (next_package pr)
    \<and> calls_of t is = (case map_of ps t of None \<Rightarrow> [] | Some p \<Rightarrow> next_call pr p)"
  using assms
proof (induction pr ps arbitrary: ps' "is" rule: update_packages.induct)
  case (2 pr u p ps)
  obtain p' i expired where c: "create_invocation pr p = (p', i, expired)" by (metis prod_cases3)
  obtain ps1 is1 where u: "update_packages pr ps = (ps1, is1)" by fastforce
  have "map_of ps u = None" "map_of ps1 u = None"
    using 2(3) update_packages_keys [OF u] by (auto simp: map_of_eq_None_iff)
  then show ?case using 2 c u by (auto simp: next_package_def next_call_def split: option.splits if_splits)
qed simp

text \<open>The invariant of a run.\<close>

definition progress_inv :: "bool list \<Rightarrow> progress_notifier \<Rightarrow> invocation list \<Rightarrow> bool" where
  "progress_inv fs n is \<longleftrightarrow> pn_token n = Suc (length fs) \<and> distinct (map fst (pn_packages n))
     \<and> (\<forall>t. pn_token n \<le> t \<longrightarrow> map_of (pn_packages n) t = None \<and> calls_of t is = [])
     \<and> (\<forall>t p. map_of (pn_packages n) t = Some p \<longrightarrow> 1 \<le> t \<and> is_streaming p = fs ! (t - 1))
     \<and> (\<forall>t. 1 \<le> t \<and> t \<le> length fs \<and> \<not> fs ! (t - 1) \<longrightarrow> reporting (map_of (pn_packages n) t) (calls_of t is))"

lemma progress_inv_update:
  assumes "progress_inv fs n is"
  shows "progress_inv fs (fst (progress_update pr v n)) (is @ snd (progress_update pr v n))"
proof (cases "v = 0")
  case True
  then show ?thesis using assms by (simp add: progress_update_def)
next
  case False
  obtain ps js where u: "update_packages pr (pn_packages n) = (ps, js)" by fastforce
  have d: "distinct (map fst (pn_packages n))" using assms by (simp add: progress_inv_def)
  note U = update_packages_of [OF u d]
  have P: "pn_token n = Suc (length fs)" "\<And>t. pn_token n \<le> t \<Longrightarrow> map_of (pn_packages n) t = None \<and> calls_of t is = []"
    "\<And>t p. map_of (pn_packages n) t = Some p \<Longrightarrow> 1 \<le> t \<and> is_streaming p = fs ! (t - 1)"
    "\<And>t. 1 \<le> t \<Longrightarrow> t \<le> length fs \<Longrightarrow> \<not> fs ! (t - 1) \<Longrightarrow> reporting (map_of (pn_packages n) t) (calls_of t is)"
    using assms unfolding progress_inv_def by blast+
  have "reporting (map_of ps t) (calls_of t (is @ js))" if t: "1 \<le> t" "t \<le> length fs" "\<not> fs ! (t - 1)" for t
    using U [of t] P(3) [of t] P(4) [OF t] t(3) reporting_next
    by (cases "map_of (pn_packages n) t") auto
  moreover have "1 \<le> t \<and> is_streaming p = fs ! (t - 1)" if "map_of ps t = Some p" for t p
    using that U [of t] P(3) [of t] next_package_streaming [of pr _ p] by (auto simp del: map_of_eq_Some_iff simp: bind_eq_Some_conv)
  moreover have "map_of ps t = None \<and> calls_of t (is @ js) = []" if "pn_token n \<le> t" for t
    using U [of t] P(2) [OF that] by simp
  ultimately show ?thesis using False u update_packages_keys [OF u] d P(1)
    by (simp add: progress_inv_def progress_update_def)
qed

lemma progress_inv_register:
  assumes "progress_inv fs n is"
  shows "progress_inv (fs @ [streaming]) (fst (progress_step (Register download streaming) n))
    (is @ snd (progress_step (Register download streaming) n))"
proof -
  let ?p = "\<lparr>captured_transferrable = None, np_snapshot_version = pn_local_version n, is_streaming = streaming, is_download = download\<rparr>"
  have P: "pn_token n = Suc (length fs)" "distinct (map fst (pn_packages n))"
    "\<And>t. pn_token n \<le> t \<Longrightarrow> map_of (pn_packages n) t = None \<and> calls_of t is = []"
    "\<And>t p. map_of (pn_packages n) t = Some p \<Longrightarrow> 1 \<le> t \<and> is_streaming p = fs ! (t - 1)"
    "\<And>t. 1 \<le> t \<Longrightarrow> t \<le> length fs \<Longrightarrow> \<not> fs ! (t - 1) \<Longrightarrow> reporting (map_of (pn_packages n) t) (calls_of t is)"
    using assms unfolding progress_inv_def by blast+
  obtain q i where step: "fst (progress_step (Register download streaming) n) =
      n\<lparr>pn_token := pn_token n + 1, pn_packages := pn_packages n @ (case q of None \<Rightarrow> [] | Some p \<Rightarrow> [(pn_token n, p)])\<rparr>"
    "snd (progress_step (Register download streaming) n) = invocations (pn_token n) i"
    and q: "pn_progress n = None \<and> q = Some ?p \<and> i = None
      \<or> (\<exists>pr. pn_progress n = Some pr \<and> q = next_package pr ?p \<and> next_call pr ?p = (case i of None \<Rightarrow> [] | Some x \<Rightarrow> [x]))"
  proof (cases "pn_progress n")
    case None
    then show ?thesis by (intro that [of "Some ?p" None]) (simp_all add: register_callback_def Let_def invocations_def)
  next
    case (Some pr)
    obtain p' i expired where c: "create_invocation pr ?p = (p', i, expired)" by (metis prod_cases3)
    then show ?thesis using Some
      by (intro that [of "if expired then None else Some p'" i])
        (simp_all add: register_callback_def next_package_def next_call_def Let_def)
  qed
  let ?new = "case i of None \<Rightarrow> [] | Some x \<Rightarrow> [x]"
  have "reporting q ?new" if "\<not> streaming"
    using q
  proof
    assume "\<exists>pr. pn_progress n = Some pr \<and> q = next_package pr ?p \<and> next_call pr ?p = ?new"
    then obtain pr where pr: "q = next_package pr ?p" "next_call pr ?p = ?new" by blast
    have "reporting (next_package pr ?p) ([] @ next_call pr ?p)"
      by (rule reporting_next) (simp_all add: that reporting_def)
    then show ?thesis by (simp only: pr append_Nil)
  qed (simp add: reporting_def)
  moreover have "is_streaming p = streaming" if "q = Some p" for p
    using q that next_package_streaming by fastforce
  moreover let ?n = "fst (progress_step (Register download streaming) n)"
  let ?is = "is @ snd (progress_step (Register download streaming) n)"
  have M: "map_of (pn_packages ?n) t = (if t = pn_token n then q else map_of (pn_packages n) t)" for t
    using P(3) [of "pn_token n"] unfolding step(1) by (simp add: map_add_def split: option.splits)
  have C: "calls_of t ?is = calls_of t is @ (if t = pn_token n then ?new else [])" for t
    unfolding step(2) by simp
  have D: "distinct (map fst (pn_packages ?n))" "pn_token ?n = Suc (length (fs @ [streaming]))"
    using P(1,2) P(3) [of "pn_token n"] unfolding step(1) by (auto simp: map_of_eq_None_iff split: option.splits)
  ultimately show ?thesis unfolding progress_inv_def M C using D P(1,3)
  proof (intro conjI allI impI)
    fix t p assume q: "\<And>p. q = Some p \<Longrightarrow> is_streaming p = streaming"
      and t: "(if t = pn_token n then q else map_of (pn_packages n) t) = Some p"
    show "1 \<le> t" using t P(1) P(4) [of t p] by (auto split: if_splits)
    have "t \<le> pn_token n"
    proof (rule ccontr)
      assume "\<not> t \<le> pn_token n"
      then show False using t P(3) [of t] by auto
    qed
    then show "is_streaming p = (fs @ [streaming]) ! (t - 1)"
      using t q P(1) P(4) [of t p] by (cases "t = pn_token n") (auto simp: nth_append)
  next
    fix t assume r: "\<not> streaming \<Longrightarrow> reporting q ?new"
      and t: "1 \<le> t \<and> t \<le> length (fs @ [streaming]) \<and> \<not> (fs @ [streaming]) ! (t - 1)"
    show "reporting (if t = pn_token n then q else map_of (pn_packages n) t)
        (calls_of t is @ (if t = pn_token n then ?new else []))"
    proof (cases "t = pn_token n")
      case True
      then show ?thesis using t r P(1) P(3) [of t] by simp
    next
      case False
      then have "t - 1 < length fs" using t P(1) by auto
      then show ?thesis using t P(5) [of t] False by (auto simp: nth_append)
    qed
  qed auto
qed

lemma progress_inv_step:
  assumes "progress_inv fs n is" "progress_step op n = (n', js)"
  shows "progress_inv (fs @ streams [op]) n' (is @ js)"
proof (cases op)
  case (Register d s)
  then show ?thesis using progress_inv_register [OF assms(1), of s d] assms(2) by simp
next
  case (Unregister u)
  have n': "n' = unregister_callback u n" "js = []" using assms(2) Unregister by auto
  have packages: "pn_packages n' = filter (\<lambda>x. fst x \<noteq> u) (pn_packages n)"
    by (simp add: n' unregister_callback_def case_prod_unfold)
  have "map_of (filter (\<lambda>x. fst x \<noteq> u) ps) t = (if t = u then None else map_of ps t)" for ps :: "(nat \<times> notifier_package) list" and t
    by (induction ps) auto
  then have "map_of (pn_packages n') t = (if t = u then None else map_of (pn_packages n) t)" for t by (simp add: packages)
  moreover have "distinct (map fst (filter (\<lambda>x. fst x \<noteq> u) ps))" if "distinct (map fst ps)"
    for ps :: "(nat \<times> notifier_package) list"
    using that by (induction ps) auto
  then have "distinct (map fst (pn_packages n'))" using assms(1) by (simp add: packages progress_inv_def)
  moreover have "pn_token n' = pn_token n" using n' by (simp add: unregister_callback_def)
  ultimately show ?thesis using assms(1) n' Unregister
    by (auto simp: progress_inv_def reporting_def [of None] intro: reporting_once
        simp del: map_of_eq_Some_iff map_of_eq_None_iff split: if_splits)
next
  case (Update pr v)
  then show ?thesis using progress_inv_update [OF assms(1), of pr v] assms(2) by simp
next
  case (SetLocalVersion v)
  then show ?thesis using assms by (auto simp: progress_inv_def set_local_version_def)
qed

lemma streams_Cons: "streams (op # ops) = streams [op] @ streams ops"
  by (cases op) simp_all

lemma progress_inv_run:
  "progress_inv fs n is \<Longrightarrow> progress_run ops n = (n', js) \<Longrightarrow> progress_inv (fs @ streams ops) n' (is @ js)"
proof (induction ops arbitrary: fs n "is" js)
  case (Cons op ops)
  obtain n1 is1 where s: "progress_step op n = (n1, is1)" by fastforce
  obtain n2 is2 where r: "progress_run ops n1 = (n2, is2)" by fastforce
  have "progress_inv ((fs @ streams [op]) @ streams ops) n' ((is @ is1) @ is2)"
    by (rule Cons.IH [OF progress_inv_step [OF Cons.prems(1) s]]) (use Cons.prems(2) s r in simp)
  then show ?case using Cons.prems(2) s r by (simp add: streams_Cons [of op ops])
qed simp

lemma progress_inv_new: "progress_inv [] progress_notifier_new []"
  by (simp add: progress_inv_def progress_notifier_new_def)

text \<open>C23: a progress notifier that is not streaming reports one amount, the one there was when it was first called: in
  all of its calls the transferrable bytes are the same, all but the last have transferred less, and once
  they have been transferred it is no longer registered. \<close>

theorem progress_reported_once:
  assumes "progress_run ops progress_notifier_new = (n, is)" "1 \<le> t" "t \<le> length (streams ops)" "\<not> streams ops ! (t - 1)"
  shows "\<exists>amount. (\<forall>x\<in>set (calls_of t is). snd x = amount) \<and> (\<forall>x\<in>set (butlast (calls_of t is)). fst x < amount)
    \<and> (calls_of t is \<noteq> [] \<longrightarrow> amount \<le> fst (last (calls_of t is)) \<longrightarrow> t \<notin> fst ` set (pn_packages n))"
proof -
  have inv: "progress_inv (streams ops) n is" using progress_inv_run [OF progress_inv_new assms(1)] by simp
  then have rep: "reporting (map_of (pn_packages n) t) (calls_of t is)" using assms(2-) unfolding progress_inv_def by blast
  then obtain amount where a: "\<forall>x\<in>set (calls_of t is). snd x = amount" "\<forall>x\<in>set (butlast (calls_of t is)). fst x < snd x"
    using reporting_once [OF rep] unfolding reports_once_def by blast
  have "t \<notin> fst ` set (pn_packages n)" if "calls_of t is \<noteq> []" "amount \<le> fst (last (calls_of t is))"
  proof
    assume "t \<in> fst ` set (pn_packages n)"
    then obtain p where "map_of (pn_packages n) t = Some p" by (metis map_of_eq_None_iff not_None_eq)
    then have "fst (last (calls_of t is)) < snd (last (calls_of t is))"
      using rep last_in_set [OF that(1)] that(1) by (auto simp: reporting_def simp del: last_in_set split: option.splits)
    then show False using a(1) last_in_set [OF that(1)] that(2) by auto
  qed
  moreover have "\<forall>x\<in>set (butlast (calls_of t is)). fst x < amount" using a by (auto dest: in_set_butlastD)
  ultimately show ?thesis using a(1) by blast
qed

definition example_progress :: "progress_op list" where
  "example_progress = [Register True False, Update \<lparr>uploadable = 0, downloadable = 10, uploaded = 0, downloaded = 4, pr_snapshot_version = 1\<rparr> 1,
     Register True True, Update \<lparr>uploadable = 0, downloadable = 20, uploaded = 0, downloaded = 12, pr_snapshot_version = 1\<rparr> 1,
     Update \<lparr>uploadable = 0, downloadable = 20, uploaded = 0, downloaded = 20, pr_snapshot_version = 1\<rparr> 1]"

theorem progress_reported_once_witness:
  "calls_of 1 (snd (progress_run example_progress progress_notifier_new)) = [(4, 10), (12, 10)]
   \<and> 1 \<notin> fst ` set (pn_packages (fst (progress_run example_progress progress_notifier_new)))"
proof -
  let ?r = "progress_run example_progress progress_notifier_new"
  have c: "calls_of 1 (snd ?r) = [(4, 10), (12, 10)]" by code_simp
  have "streams example_progress = [False, True]" by code_simp
  then have "\<exists>amount. (\<forall>x\<in>set (calls_of 1 (snd ?r)). snd x = amount) \<and> (\<forall>x\<in>set (butlast (calls_of 1 (snd ?r))). fst x < amount)
    \<and> (calls_of 1 (snd ?r) \<noteq> [] \<longrightarrow> amount \<le> fst (last (calls_of 1 (snd ?r))) \<longrightarrow> 1 \<notin> fst ` set (pn_packages (fst ?r)))"
    by (intro progress_reported_once [of example_progress]) simp_all
  then show ?thesis by (simp add: c del: One_nat_def)
qed

end
