(* ===== verification/Deep_Reach.thy ===== *)
theory Deep_Reach
  imports Deep_Change
begin

section \<open>The checker finds the changes within reach\<close>

text \<open>
  \<open>within edge modified B k n\<close> says that a modified row is at most \<open>k\<close> links away from \<open>n\<close>, on a path that
  takes no link of \<open>B\<close>, a link being a row with a column. The search of the code prunes the links that it is following already; the lemma
  \<open>within_shortcut\<close> shows that this loses nothing, as the rest of a path can be taken from the first visit.

  \<open>finds\<close> is what a call of \<open>check_row\<close> at some depth guarantees, with the memo of unmodified rows and the
  flags of the path: an entry that is not flagged has been searched to the end but for links back into the
  path above it.
\<close>

primrec within :: "('n \<Rightarrow> 'c \<Rightarrow> 'n \<Rightarrow> bool) \<Rightarrow> ('n \<Rightarrow> bool) \<Rightarrow> ('n \<times> 'c) set \<Rightarrow> nat \<Rightarrow> 'n \<Rightarrow> bool" where
  "within edge modified B 0 n \<longleftrightarrow> False"
| "within edge modified B (Suc k) n \<longleftrightarrow>
     (\<exists>c n'. (n, c) \<notin> B \<and> edge n c n' \<and> (modified n' \<or> within edge modified B k n'))"

lemma within_mono: "within edge modified B k n \<Longrightarrow> k \<le> k' \<Longrightarrow> B' \<subseteq> B \<Longrightarrow> within edge modified B' k' n"
proof (induction k arbitrary: n k')
  case (Suc k)
  then obtain j where "k' = Suc j" "k \<le> j" by (cases k') auto
  with Suc show ?case by simp (meson subsetD)
qed simp

lemma within_avoid:
  assumes "within edge modified B k m"
  shows "within edge modified (insert (n, c) B) k m \<or> (\<exists>n'. edge n c n' \<and> (modified n' \<or> within edge modified B (k - 1) n'))"
  using assms
proof (induction k arbitrary: m)
  case (Suc k)
  then obtain d m' where d: "(m, d) \<notin> B" "edge m d m'" "modified m' \<or> within edge modified B k m'" by auto
  show ?case
  proof (cases "(m, d) = (n, c)")
    case True
    then show ?thesis using d by auto
  next
    case False
    from d(3) show ?thesis
    proof
      assume "modified m'"
      then show ?thesis using d False by auto
    next
      assume "within edge modified B k m'"
      from Suc.IH [OF this] show ?thesis
      proof
        assume "within edge modified (insert (n, c) B) k m'"
        then show ?thesis using d False by auto
      next
        assume "\<exists>n'. edge n c n' \<and> (modified n' \<or> within edge modified B (k - 1) n')"
        then obtain n' where n': "edge n c n'" "modified n' \<or> within edge modified B (k - 1) n'" by blast
        then have "modified n' \<or> within edge modified B k n'" using within_mono [of edge modified B "k - 1" n' k B] by auto
        then show ?thesis using n'(1) by auto
      qed
    qed
  qed
qed simp

lemma within_shortcut:
  assumes "within edge modified B (Suc k) n"
  obtains c n' where "(n, c) \<notin> B" "edge n c n'" "modified n' \<or> within edge modified (insert (n, c) B) k n'"
proof -
  from assms obtain c n' where c: "(n, c) \<notin> B" "edge n c n'" "modified n' \<or> within edge modified B k n'" by auto
  have "\<exists>n'. edge n c n' \<and> (modified n' \<or> within edge modified (insert (n, c) B) j n')"
    if "edge n c n'" "modified n' \<or> within edge modified B j n'" for j n'
    using that
  proof (induction j arbitrary: n' rule: less_induct)
    case (less j)
    show ?case
    proof (cases "modified n' \<or> within edge modified (insert (n, c) B) j n'")
      case False
      then have "within edge modified B j n'" using less.prems by blast
      from within_avoid [OF this, of n c] False obtain n2 where n2: "edge n c n2" "modified n2 \<or> within edge modified B (j - 1) n2"
        by blast
      have "j \<noteq> 0" using \<open>within edge modified B j n'\<close> by (cases j) auto
      then have "\<exists>n'. edge n c n' \<and> (modified n' \<or> within edge modified (insert (n, c) B) (j - 1) n')"
        using less.IH [of "j - 1", OF _ n2] by simp
      then obtain n3 where n3: "edge n c n3" "modified n3 \<or> within edge modified (insert (n, c) B) (j - 1) n3" by blast
      then have "modified n3 \<or> within edge modified (insert (n, c) B) j n3"
        using within_mono [of edge modified "insert (n, c) B" "j - 1" n3 j "insert (n, c) B"] by auto
      then show ?thesis using n3(1) by blast
    qed (use less.prems in blast)
  qed
  from this [OF c(2,3)] c(1) show ?thesis using that by blast
qed

subsection \<open>The links between the rows of a group\<close>

definition table_links :: "related_table list \<Rightarrow> size_t \<Rightarrow> outgoing_link list" where
  "table_links rel t = (case find (\<lambda>r. related_ndx r = t) rel of None \<Rightarrow> [] | Some r \<Rightarrow> outgoing_links r)"

definition link_edge :: "link_tables \<Rightarrow> related_table list \<Rightarrow> size_t \<times> size_t \<Rightarrow> size_t \<Rightarrow> size_t \<times> size_t \<Rightarrow> bool" where
  "link_edge g rel n c n' \<longleftrightarrow> (\<exists>l\<in>set (table_links rel (fst n)). link_col l = c
     \<and> fst n' = get_link_target g (fst n) c \<and> snd n' \<in> set (linked_rows g (fst n) (snd n) l))"

definition is_modified :: "transaction_change_info \<Rightarrow> size_t \<times> size_t \<Rightarrow> bool" where
  "is_modified info n \<longleftrightarrow> fst n < length (info_tables info) \<and> snd n \<in> idx (modifications (info_tables info ! fst n))"

abbreviation changed_within where
  "changed_within g rel info \<equiv> within (link_edge g rel) (is_modified info)"

definition info_ok :: "bool \<Rightarrow> transaction_change_info \<Rightarrow> bool" where
  "info_ok dbg info \<longleftrightarrow> (\<forall>c\<in>set (info_tables info). crv_ok dbg (modifications c))"

lemma row_modified_ok: "info_ok dbg info \<Longrightarrow> row_modified dbg info t r = Some (is_modified info (t, r))"
  by (auto simp: row_modified_def info_ok_def is_modified_def contains_ok)

subsection \<open>The state of the checker\<close>

abbreviation exceeded :: "checker \<Rightarrow> nat \<Rightarrow> bool" where
  "exceeded st i \<equiv> depth_exceeded (current_path st ! i)"

definition path_key :: "checker \<Rightarrow> nat \<Rightarrow> (size_t \<times> size_t) \<times> size_t" where
  "path_key st i = ((path_table (current_path st ! i), path_row (current_path st ! i)), path_col (current_path st ! i))"

definition path_links :: "checker \<Rightarrow> nat \<Rightarrow> nat \<Rightarrow> ((size_t \<times> size_t) \<times> size_t) set" where
  "path_links st m d = path_key st ` {m..<d}"

definition checker_ok :: "bool \<Rightarrow> link_tables \<Rightarrow> related_table list \<Rightarrow> transaction_change_info \<Rightarrow> checker \<Rightarrow> bool" where
  "checker_ok dbg g rel info st \<longleftrightarrow> length (current_path st) = path_size
     \<and> (\<forall>t<length (not_modified st). crv_ok dbg (not_modified st ! t)
          \<and> (\<forall>r\<in>idx (not_modified st ! t). \<not> changed_within g rel info {} 3 (t, r)))"

lemma path_linksI: "path_key st i = k \<Longrightarrow> m \<le> i \<Longrightarrow> i < d \<Longrightarrow> k \<in> path_links st m d"
  by (auto simp: path_links_def)

text \<open>The part of the path above depth \<open>d\<close> keeps its links and its flags, and no table is forgotten.\<close>

definition keeps_path :: "nat \<Rightarrow> checker \<Rightarrow> checker \<Rightarrow> bool" where
  "keeps_path d st st' \<longleftrightarrow> length (not_modified st) \<le> length (not_modified st') \<and> (\<forall>i<d. path_key st' i = path_key st i \<and> (exceeded st i \<longrightarrow> exceeded st' i))"

lemma keeps_path_refl [simp]: "keeps_path d st st"
  by (simp add: keeps_path_def)

lemma keeps_path_trans: "keeps_path d a b \<Longrightarrow> keeps_path d b c \<Longrightarrow> keeps_path d a c"
  by (simp add: keeps_path_def)

lemma keeps_path_le: "keeps_path d a b \<Longrightarrow> e \<le> d \<Longrightarrow> keeps_path e a b"
  by (simp add: keeps_path_def)

lemma keeps_path_links: "keeps_path d a b \<Longrightarrow> e \<le> d \<Longrightarrow> path_links b m e = path_links a m e"
  by (auto simp: keeps_path_def path_links_def image_iff)

definition finds :: "bool \<Rightarrow> link_tables \<Rightarrow> related_table list \<Rightarrow> transaction_change_info \<Rightarrow> nat
    \<Rightarrow> size_t \<times> size_t \<Rightarrow> checker \<Rightarrow> bool \<times> checker \<Rightarrow> bool" where
  "finds dbg g rel info d n st r \<longleftrightarrow> (case r of (b, st') \<Rightarrow>
     checker_ok dbg g rel info st' \<and> keeps_path d st st'
     \<and> (b \<longrightarrow> d < path_size \<and> (0 < d \<and> is_modified info n \<or> changed_within g rel info {} (3 - d) n))
     \<and> (\<not> b \<longrightarrow> (0 < d \<and> d \<le> 3 \<longrightarrow> \<not> is_modified info n) \<and> \<not> changed_within g rel info (path_links st 0 d) (3 - d) n
          \<and> (\<forall>m. 1 \<le> m \<and> m \<le> d \<and> \<not> exceeded st' (m - 1) \<longrightarrow>
               \<not> is_modified info n \<and> \<not> changed_within g rel info (path_links st m d) 3 n)))"

subsection \<open>Steps of the search\<close>

lemma any_of_succeeds:
  assumes step: "\<And>x st. x \<in> set xs \<Longrightarrow> I st \<Longrightarrow>
      succeeds (P x st) (\<lambda>(b, st'). I st' \<and> R st st' \<and> (b \<longrightarrow> Q x) \<and> (\<not> b \<longrightarrow> N x st'))"
    and R: "\<And>st. R st st" "\<And>a b c. R a b \<Longrightarrow> R b c \<Longrightarrow> R a c"
    and N: "\<And>x a b. N x a \<Longrightarrow> R a b \<Longrightarrow> N x b"
    and I: "I st"
  shows "succeeds (any_of P xs st)
    (\<lambda>(b, st'). I st' \<and> R st st' \<and> (b \<longrightarrow> (\<exists>x\<in>set xs. Q x)) \<and> (\<not> b \<longrightarrow> (\<forall>x\<in>set xs. N x st')))"
  using step I
proof (induction xs arbitrary: st)
  case (Cons x xs)
  from Cons.prems(1) [of x st] Cons.prems(2)
  obtain b st1 where 1: "P x st = Some (b, st1)" "I st1" "R st st1" "b \<longrightarrow> Q x" "\<not> b \<longrightarrow> N x st1"
    by (auto simp: succeeds_def)
  show ?case
  proof (cases b)
    case True
    then show ?thesis using 1 by simp
  next
    case False
    have "succeeds (any_of P xs st1)
      (\<lambda>(b, st'). I st' \<and> R st1 st' \<and> (b \<longrightarrow> (\<exists>x\<in>set xs. Q x)) \<and> (\<not> b \<longrightarrow> (\<forall>x\<in>set xs. N x st')))"
      using Cons.IH [of st1] Cons.prems(1) 1(2) by simp
    then obtain b' st2 where 2: "any_of P xs st1 = Some (b', st2)" "I st2" "R st1 st2" "b' \<longrightarrow> (\<exists>x\<in>set xs. Q x)"
        "\<not> b' \<longrightarrow> (\<forall>x\<in>set xs. N x st2)"
      by (auto simp: succeeds_def)
    have "R st st2" "N x st2" using R(2) [OF 1(3) 2(3)] N [OF _ 2(3)] 1(5) False by auto
    then show ?thesis using 1(1) 2 False by simp
  qed
qed (simp add: R(1))

lemma length_mark_exceeded [simp]: "length (current_path (mark_exceeded m d st)) = length (current_path st)"
  by (simp add: mark_exceeded_def)

lemma not_modified_mark_exceeded [simp]: "not_modified (mark_exceeded m d st) = not_modified st"
  by (simp add: mark_exceeded_def)

lemma mark_exceeded_nth:
  "i < length (current_path st) \<Longrightarrow> current_path (mark_exceeded m d st) ! i =
     (if m \<le> i \<and> i < d then (current_path st ! i)\<lparr>depth_exceeded := True\<rparr> else current_path st ! i)"
  by (simp add: mark_exceeded_def nth_enumerate_eq)

lemma mark_exceeded_keeps: "d \<le> length (current_path st) \<Longrightarrow> keeps_path d st (mark_exceeded m e st)"
  by (auto simp: keeps_path_def path_key_def mark_exceeded_nth)

lemma mark_exceeded_ok: "checker_ok dbg g rel info st \<Longrightarrow> checker_ok dbg g rel info (mark_exceeded m e st)"
  by (simp add: checker_ok_def)

text \<open>A link that is being followed already flags the path from its first visit on.\<close>

lemma already_checking_True:
  assumes "already_checking t row c d st = (True, st')" "d \<le> path_size" "checker_ok dbg g rel info st"
  shows "checker_ok dbg g rel info st'" "keeps_path d st st'" "((t, row), c) \<in> path_links st 0 d"
    "1 \<le> m \<Longrightarrow> m \<le> d \<Longrightarrow> \<not> exceeded st' (m - 1) \<Longrightarrow> ((t, row), c) \<in> path_links st m d"
proof -
  let ?P = "\<lambda>p. \<not> (path_table p = t \<and> path_row p = row \<and> path_col p = c)"
  let ?k = "length (takeWhile ?P (take d (current_path st)))"
  have len: "length (current_path st) = path_size" using assms(3) by (simp add: checker_ok_def)
  have k: "?k \<noteq> d" "st' = mark_exceeded ?k d st"
    using assms(1) by (auto simp: already_checking_def Let_def split: if_splits)
  have "?k \<le> length (take d (current_path st))" by (rule length_takeWhile_le)
  then have kd: "?k < d" using k(1) assms(2) len by simp
  then have "\<not> ?P (take d (current_path st) ! ?k)" using len assms(2)
    by (intro nth_length_takeWhile) simp
  then have key: "path_key st ?k = ((t, row), c)" using kd by (simp add: path_key_def)
  show "checker_ok dbg g rel info st'" using mark_exceeded_ok [OF assms(3)] k(2) by simp
  show "keeps_path d st st'" using mark_exceeded_keeps [of d st] assms(2) len k(2) by simp
  show "((t, row), c) \<in> path_links st 0 d" using path_linksI [OF key] kd by simp
  assume m: "1 \<le> m" "m \<le> d" "\<not> exceeded st' (m - 1)"
  then have i: "m - 1 < d" "m - 1 < length (current_path st)" using len assms(2) by simp_all
  have "\<not> ?k \<le> m - 1" using m(3) k(2) i(1) mark_exceeded_nth [OF i(2)] by auto
  then have "m - 1 < ?k" by simp
  then show "((t, row), c) \<in> path_links st m d" using path_linksI [OF key, of m d] kd by simp
qed

lemma already_checking_False:
  assumes "already_checking t row c d st = (False, st')" "d < path_size" "checker_ok dbg g rel info st"
  shows "checker_ok dbg g rel info st'" "keeps_path d st st'"
    "m \<le> d \<Longrightarrow> path_links st' m (Suc d) = insert ((t, row), c) (path_links st m d)"
proof -
  have st': "st' = st\<lparr>current_path := (current_path st)[d :=
      \<lparr>path_table = t, path_row = row, path_col = c, depth_exceeded = False\<rparr>]\<rparr>"
    using assms(1) by (auto simp: already_checking_def Let_def split: if_splits)
  have len: "length (current_path st) = path_size" using assms(3) by (simp add: checker_ok_def)
  show "checker_ok dbg g rel info st'" using assms(3) st' by (simp add: checker_ok_def)
  show keeps: "keeps_path d st st'" using st' by (auto simp: keeps_path_def path_key_def)
  assume "m \<le> d"
  then have "{m..<Suc d} = insert d {m..<d}" by auto
  then have "path_links st' m (Suc d) = insert (path_key st' d) (path_links st' m d)"
    by (simp add: path_links_def)
  then show "path_links st' m (Suc d) = insert ((t, row), c) (path_links st m d)"
    using keeps_path_links [OF keeps, of d m] st' len assms(2) by (simp add: path_key_def)
qed

subsection \<open>The search\<close>

locale row_search =
  fixes dbg g rel info d and check :: "size_t \<Rightarrow> size_t \<Rightarrow> checker \<Rightarrow> (bool \<times> checker) option"
  assumes check: "info_ok dbg info \<Longrightarrow> d < path_size \<Longrightarrow> checker_ok dbg g rel info st \<Longrightarrow>
      succeeds (check t r st) (finds dbg g rel info (Suc d) (t, r) st)"
begin

definition missed :: "checker \<Rightarrow> size_t \<Rightarrow> (nat \<Rightarrow> ((size_t \<times> size_t) \<times> size_t) set) \<Rightarrow> size_t \<times> size_t \<Rightarrow> bool" where
  "missed st e B n \<longleftrightarrow> (Suc d \<le> 3 \<longrightarrow> \<not> is_modified info n) \<and> \<not> changed_within g rel info (B 0) (3 - Suc d) n
     \<and> (\<forall>m. 1 \<le> m \<and> m \<le> e \<and> \<not> exceeded st (m - 1) \<longrightarrow> \<not> is_modified info n \<and> \<not> changed_within g rel info (B m) 3 n)"

lemma missed_keeps: "missed a e B n \<Longrightarrow> keeps_path e a b \<Longrightarrow> missed b e B n"
  by (auto simp: missed_def keeps_path_def)

lemma rows_checked:
  assumes "checker_ok dbg g rel info st" and depth: "d < path_size" and info: "info_ok dbg info"
  shows "succeeds (any_of (check t) rows st) (\<lambda>(b, st'). checker_ok dbg g rel info st' \<and> keeps_path (Suc d) st st'
    \<and> (b \<longrightarrow> (\<exists>r\<in>set rows. Suc d < path_size \<and> (is_modified info (t, r) \<or> changed_within g rel info {} (3 - Suc d) (t, r))))
    \<and> (\<not> b \<longrightarrow> (\<forall>r\<in>set rows. missed st' (Suc d) (\<lambda>m. path_links st m (Suc d)) (t, r))))"
proof -
  let ?I = "\<lambda>s. checker_ok dbg g rel info s \<and> (\<forall>i<Suc d. path_key s i = path_key st i)"
  have "succeeds (any_of (check t) rows st) (\<lambda>(b, st'). ?I st' \<and> keeps_path (Suc d) st st'
    \<and> (b \<longrightarrow> (\<exists>r\<in>set rows. Suc d < path_size \<and> (is_modified info (t, r) \<or> changed_within g rel info {} (3 - Suc d) (t, r))))
    \<and> (\<not> b \<longrightarrow> (\<forall>r\<in>set rows. missed st' (Suc d) (\<lambda>m. path_links st m (Suc d)) (t, r))))"
  proof (rule any_of_succeeds)
    fix r s assume s: "?I s"
    have B: "path_links s m (Suc d) = path_links st m (Suc d)" for m
      using s by (auto simp: path_links_def image_iff)
    show "succeeds (check t r s) (\<lambda>(b, st'). ?I st' \<and> keeps_path (Suc d) s st'
      \<and> (b \<longrightarrow> Suc d < path_size \<and> (is_modified info (t, r) \<or> changed_within g rel info {} (3 - Suc d) (t, r)))
      \<and> (\<not> b \<longrightarrow> missed st' (Suc d) (\<lambda>m. path_links st m (Suc d)) (t, r)))"
      by (rule succeeds_mono [OF check [OF info depth, of s t r]])
        (use s in \<open>auto simp: finds_def missed_def B keeps_path_def\<close>)
  qed (use assms in \<open>auto intro: keeps_path_trans missed_keeps\<close>)
  then show ?thesis by (rule succeeds_mono) auto
qed

definition link_done :: "checker \<Rightarrow> (nat \<Rightarrow> ((size_t \<times> size_t) \<times> size_t) set) \<Rightarrow> size_t \<Rightarrow> size_t \<Rightarrow> outgoing_link \<Rightarrow> bool" where
  "link_done st B t row l \<longleftrightarrow> (\<forall>r\<in>set (linked_rows g t row l).
     let n = (get_link_target g t (link_col l), r); k = ((t, row), link_col l) in
       (k \<notin> B 0 \<longrightarrow> (Suc d \<le> 3 \<longrightarrow> \<not> is_modified info n) \<and> \<not> changed_within g rel info (insert k (B 0)) (3 - Suc d) n)
       \<and> (\<forall>m. 1 \<le> m \<and> m \<le> d \<and> \<not> exceeded st (m - 1) \<and> k \<notin> B m \<longrightarrow>
            \<not> is_modified info n \<and> \<not> changed_within g rel info (insert k (B m)) 3 n))"

lemma link_done_keeps: "link_done a B t row l \<Longrightarrow> keeps_path d a b \<Longrightarrow> link_done b B t row l"
proof -
  assume a: "link_done a B t row l" and k: "keeps_path d a b"
  have fl: "\<not> exceeded a (m - 1)" if "1 \<le> m" "m \<le> d" "\<not> exceeded b (m - 1)" for m
    using that k by (auto simp: keeps_path_def)
  show "link_done b B t row l" using a fl unfolding link_done_def Let_def by blast
qed

definition link_found :: "size_t \<Rightarrow> size_t \<Rightarrow> outgoing_link \<Rightarrow> bool" where
  "link_found t row l \<longleftrightarrow> (\<exists>r\<in>set (linked_rows g t row l). let n = (get_link_target g t (link_col l), r) in
     Suc d < path_size \<and> (is_modified info n \<or> changed_within g rel info {} (3 - Suc d) n))"

lemma link_checked:
  assumes ok: "checker_ok dbg g rel info st" and depth: "d < path_size" and info: "info_ok dbg info"
  shows "succeeds (linked_object_changed check g t row d l st) (\<lambda>(b, st'). checker_ok dbg g rel info st' \<and> keeps_path d st st'
    \<and> (b \<longrightarrow> link_found t row l) \<and> (\<not> b \<longrightarrow> link_done st' (\<lambda>m. path_links st m d) t row l))"
proof -
  obtain c st1 where c: "already_checking t row (link_col l) d st = (c, st1)" by fastforce
  show ?thesis
  proof (cases c)
    case True
    have c': "already_checking t row (link_col l) d st = (True, st1)" using c True by simp
    note A = already_checking_True [OF c' less_imp_le [OF depth] ok]
    have "link_done st1 (\<lambda>m. path_links st m d) t row l"
      using A(3,4) depth by (auto simp: link_done_def Let_def)
    then show ?thesis using c True A(1,2) depth by (simp add: linked_object_changed_def)
  next
    case False
    have c': "already_checking t row (link_col l) d st = (False, st1)" using c False by simp
    note A = already_checking_False [OF c' depth ok]
    let ?t = "get_link_target g t (link_col l)" and ?rows = "linked_rows g t row l"
    have links_done: "link_done s (\<lambda>m. path_links st m d) t row l"
      if "\<forall>r\<in>set ?rows. missed s (Suc d) (\<lambda>m. path_links st1 m (Suc d)) (?t, r)" for s
      unfolding link_done_def Let_def
    proof (intro ballI conjI impI allI)
      fix r m assume r: "r \<in> set ?rows" and m: "1 \<le> m \<and> m \<le> d \<and> \<not> exceeded s (m - 1) \<and> ((t, row), link_col l) \<notin> path_links st m d"
      have "1 \<le> m \<and> m \<le> Suc d \<and> \<not> exceeded s (m - 1) \<longrightarrow>
          \<not> is_modified info (?t, r) \<and> \<not> changed_within g rel info (path_links st1 m (Suc d)) 3 (?t, r)"
        using that r unfolding missed_def by blast
      then show "\<not> is_modified info (?t, r)"
        "\<not> changed_within g rel info (insert ((t, row), link_col l) (path_links st m d)) 3 (?t, r)"
        using m A(3) [of m] by simp_all
    qed (use that A(3) [of 0] in \<open>auto simp: missed_def\<close>)
    have "keeps_path d st s" if "keeps_path (Suc d) st1 s" for s
      using keeps_path_trans [OF A(2) keeps_path_le [OF that]] by simp
    then show ?thesis unfolding linked_object_changed_def c using False links_done
      by (auto simp: link_found_def Let_def intro!: succeeds_mono [OF rows_checked [OF A(1) depth info]])
  qed
qed

lemma links_checked:
  assumes ok: "checker_ok dbg g rel info st" and depth: "d < path_size" and info: "info_ok dbg info"
  shows "succeeds (check_outgoing_links check g rel t row d st) (\<lambda>(b, st'). checker_ok dbg g rel info st' \<and> keeps_path d st st'
    \<and> (b \<longrightarrow> (\<exists>l\<in>set (table_links rel t). link_found t row l))
    \<and> (\<not> b \<longrightarrow> (\<forall>l\<in>set (table_links rel t). link_done st' (\<lambda>m. path_links st m d) t row l)))"
proof (cases "find (\<lambda>r. related_ndx r = t) rel")
  case None
  then show ?thesis using ok by (simp add: check_outgoing_links_def table_links_def)
next
  case (Some r)
  let ?I = "\<lambda>s. checker_ok dbg g rel info s \<and> (\<forall>i<d. path_key s i = path_key st i)"
  have "succeeds (any_of (linked_object_changed check g t row d) (outgoing_links r) st)
    (\<lambda>(b, st'). ?I st' \<and> keeps_path d st st' \<and> (b \<longrightarrow> (\<exists>l\<in>set (outgoing_links r). link_found t row l))
      \<and> (\<not> b \<longrightarrow> (\<forall>l\<in>set (outgoing_links r). link_done st' (\<lambda>m. path_links st m d) t row l)))"
  proof (rule any_of_succeeds)
    fix l s assume s: "?I s"
    have B: "path_links s m d = path_links st m d" for m
      using s by (auto simp: path_links_def image_iff)
    show "succeeds (linked_object_changed check g t row d l s) (\<lambda>(b, st'). ?I st' \<and> keeps_path d s st'
      \<and> (b \<longrightarrow> link_found t row l) \<and> (\<not> b \<longrightarrow> link_done st' (\<lambda>m. path_links st m d) t row l))"
      by (rule succeeds_mono [OF link_checked [of s t row l, OF _ depth info]]) (use s in \<open>auto simp: B keeps_path_def\<close>)
  qed (use ok in \<open>auto intro: keeps_path_trans link_done_keeps\<close>)
  then show ?thesis using Some by (auto simp: check_outgoing_links_def table_links_def elim: succeeds_mono)
qed

text \<open>Links that lead nowhere, together.\<close>

lemma links_done:
  assumes "\<forall>l\<in>set (table_links rel t). link_done st B t row l"
  shows "\<not> changed_within g rel info (B 0) (3 - d) (t, row)"
    "1 \<le> m \<Longrightarrow> m \<le> d \<Longrightarrow> \<not> exceeded st (m - 1) \<Longrightarrow> \<not> changed_within g rel info (B m) 3 (t, row)"
proof -
  show "\<not> changed_within g rel info (B 0) (3 - d) (t, row)"
  proof
    assume w: "changed_within g rel info (B 0) (3 - d) (t, row)"
    then obtain k where k: "3 - d = Suc k" by (cases "3 - d") auto
    then have k': "k = 3 - Suc d" "Suc d \<le> 3" by simp_all
    from within_shortcut [OF w [unfolded k]] obtain c n where n: "((t, row), c) \<notin> B 0" "link_edge g rel (t, row) c n"
      "is_modified info n \<or> changed_within g rel info (insert ((t, row), c) (B 0)) k n" .
    then show False using assms k' by (cases n) (auto simp: link_edge_def link_done_def Let_def)
  qed
  assume m: "1 \<le> m" "m \<le> d" "\<not> exceeded st (m - 1)"
  show "\<not> changed_within g rel info (B m) 3 (t, row)"
  proof
    assume "changed_within g rel info (B m) 3 (t, row)"
    then have w: "changed_within g rel info (B m) (Suc 2) (t, row)" by (simp only: numeral_3_eq_3 numeral_2_eq_2)
    from within_shortcut [OF w] obtain c n where n: "((t, row), c) \<notin> B m" "link_edge g rel (t, row) c n"
      "is_modified info n \<or> changed_within g rel info (insert ((t, row), c) (B m)) 2 n" .
    from n(3) have "is_modified info n \<or> changed_within g rel info (insert ((t, row), c) (B m)) 3 n"
      using within_mono [where k = 2 and k' = 3] by fastforce
    then show False using assms m n(1,2) by (cases n) (auto simp: link_edge_def link_done_def Let_def)
  qed
qed

end

text \<open>What is found below a link is found from its row.\<close>

lemma found_within:
  assumes "l \<in> set (table_links rel t)" "row_search.link_found g rel info d t row l"
    "row_search dbg g rel info d check"
  shows "changed_within g rel info {} (3 - d) (t, row)"
proof -
  from assms(2) obtain r where r: "r \<in> set (linked_rows g t row l)" "Suc d < path_size"
      "is_modified info (get_link_target g t (link_col l), r)
        \<or> changed_within g rel info {} (3 - Suc d) (get_link_target g t (link_col l), r)"
    by (auto simp: row_search.link_found_def [OF assms(3)] Let_def)
  have "link_edge g rel (t, row) (link_col l) (get_link_target g t (link_col l), r)"
    using assms(1) r(1) by (auto simp: link_edge_def)
  moreover have "3 - d = Suc (3 - Suc d)" using r(2) by (simp add: path_size_def)
  ultimately show ?thesis using r(3) by auto
qed

lemma resize_ok:
  "checker_ok dbg g rel info st \<Longrightarrow> checker_ok dbg g rel info (st\<lparr>not_modified := resize_sets n (not_modified st)\<rparr>)"
  by (auto simp: checker_ok_def resize_sets_def nth_append crv_ok_Nil)

lemma length_resize_sets: "n \<le> length (resize_sets n xs)"
  by (simp add: resize_sets_def)

lemma check_row_finds:
  assumes "info_ok dbg info" "d \<le> path_size" "checker_ok dbg g rel info st"
  shows "succeeds (check_row dbg g info rel t row d st) (finds dbg g rel info d (t, row) st)"
  using assms(2,3)
proof (induction "path_size - d" arbitrary: d t row st)
  case 0
  then have d: "d = path_size" by simp
  have len: "length (current_path st) = path_size" using 0 by (simp add: checker_ok_def)
  have fl: "exceeded (mark_exceeded 0 path_size st) (m - 1)" if "1 \<le> m" "m \<le> path_size" for m
    using that len by (cases m) (auto simp: mark_exceeded_nth)
  have "check_row dbg g info rel t row d st = Some (False, mark_exceeded 0 path_size st)"
    using d by (subst check_row.simps) simp
  then show ?case using d len mark_exceeded_ok [OF 0(3), of 0 path_size] mark_exceeded_keeps [of path_size st 0 path_size] fl
    by (simp add: finds_def) (auto simp: path_size_def)
next
  case (Suc k)
  then have d: "d < path_size" by simp
  let ?check = "\<lambda>target dst st. check_row dbg g info rel target dst (d + 1) st"
  have S: "row_search dbg g rel info d ?check" using Suc by unfold_locales auto
  let ?n = "(t, row)" and ?st1 = "st\<lparr>not_modified := resize_sets (t + 1) (not_modified st)\<rparr>"
  have st1: "checker_ok dbg g rel info ?st1" using Suc.prems by (intro resize_ok)
  have t: "t < length (not_modified ?st1)" using length_resize_sets [of "t + 1" "not_modified st"] by simp
  show ?case
  proof (cases "0 < d \<and> is_modified info ?n")
    case True
    then show ?thesis using d Suc.prems by (subst check_row.simps) (simp add: row_modified_ok [OF assms(1)] finds_def)
  next
    case unmod: False
    have cont: "contains dbg (not_modified ?st1 ! t) row = Some (row \<in> idx (not_modified ?st1 ! t))"
      using st1 t by (intro contains_ok) (simp add: checker_ok_def)
    have eq: "check_row dbg g info rel t row d st =
      (if row \<in> idx (not_modified ?st1 ! t) then Some (False, ?st1)
       else Option.bind (check_outgoing_links ?check g rel t row d ?st1) (\<lambda>(ret, st).
         if \<not> ret \<and> (d = 0 \<or> \<not> exceeded st (d - 1))
         then Option.bind (add dbg (not_modified st ! t) row) (\<lambda>s. Some (ret, st\<lparr>not_modified := (not_modified st)[t := s]\<rparr>))
         else Some (ret, st)))"
      using d unmod cont by (subst check_row.simps) (auto simp: row_modified_ok [OF assms(1)])
    have not_within: "\<not> changed_within g rel info B j ?n" if "\<not> changed_within g rel info {} 3 ?n" "j \<le> 3" for B j
      using that within_mono [of "link_edge g rel" "is_modified info" B j ?n 3 "{}"] by blast
    show ?thesis
    proof (cases "row \<in> idx (not_modified ?st1 ! t)")
      case True
      then have "\<not> changed_within g rel info {} 3 ?n" using st1 t by (simp add: checker_ok_def)
      note nw = not_within [OF this]
      have "keeps_path d st ?st1" by (simp add: keeps_path_def path_key_def resize_sets_def)
      then show ?thesis using True st1 unmod nw by (auto simp: eq finds_def)
    next
      case False
      have "keeps_path d st ?st1" by (simp add: keeps_path_def path_key_def resize_sets_def)
      obtain ret st2 where r: "check_outgoing_links ?check g rel t row d ?st1 = Some (ret, st2)"
        and st2: "checker_ok dbg g rel info st2" "keeps_path d ?st1 st2"
        and found: "ret \<longrightarrow> (\<exists>l\<in>set (table_links rel t). row_search.link_found g rel info d t row l)"
        and dn: "\<not> ret \<longrightarrow> (\<forall>l\<in>set (table_links rel t). row_search.link_done g rel info d st2 (\<lambda>m. path_links ?st1 m d) t row l)"
        using row_search.links_checked [OF S st1 d assms(1), of t row] by (auto simp: succeeds_def)
      have keeps: "keeps_path d st st2" using keeps_path_trans [OF \<open>keeps_path d st ?st1\<close> st2(2)] .
      have links: "path_links ?st1 m d = path_links st m d" for m by (simp add: path_links_def path_key_def)
      show ?thesis
      proof (cases ret)
        case True
        then have "changed_within g rel info {} (3 - d) ?n" using found found_within [OF _ _ S] by blast
        then show ?thesis using True False r st2(1) keeps d by (simp add: eq finds_def)
      next
        case ret: False
        then have "\<forall>l\<in>set (table_links rel t). row_search.link_done g rel info d st2 (\<lambda>m. path_links ?st1 m d) t row l"
          using dn by blast
        note nw = row_search.links_done [OF S this, unfolded links]
        show ?thesis
        proof (cases "d = 0 \<or> \<not> exceeded st2 (d - 1)")
          case True
          have "\<not> changed_within g rel info {} 3 ?n"
          proof (cases d)
            case 0
            then show ?thesis using nw(1) by (simp add: path_links_def)
          next
            case (Suc e)
            then show ?thesis using nw(2) [of d] True by (simp add: path_links_def)
          qed
          moreover have t2: "t < length (not_modified st2)" using st2(2) t by (simp add: keeps_path_def)
          moreover have "crv_ok dbg (not_modified st2 ! t)" using st2(1) t2 by (simp add: checker_ok_def)
          then obtain s where s: "add dbg (not_modified st2 ! t) row = Some s" "crv_ok dbg s"
              "idx s = insert row (idx (not_modified st2 ! t))"
            using add_succ [of dbg "not_modified st2 ! t" row] by (auto simp: succeeds_def)
          ultimately have "checker_ok dbg g rel info (st2\<lparr>not_modified := (not_modified st2)[t := s]\<rparr>)"
            using st2(1) by (auto simp: checker_ok_def nth_list_update)
          moreover have "keeps_path d st (st2\<lparr>not_modified := (not_modified st2)[t := s]\<rparr>)"
            using keeps by (simp add: keeps_path_def path_key_def)
          ultimately show ?thesis using True False ret r s(1) unmod nw by (auto simp: eq finds_def)
        next
          case False
          then show ?thesis using \<open>row \<notin> idx (not_modified ?st1 ! t)\<close> ret r st2(1) keeps unmod nw by (auto simp: eq finds_def)
        qed
      qed
    qed
  qed
qed

interpretation checker: row_search dbg g rel info d "\<lambda>target dst st. check_row dbg g info rel target dst (d + 1) st"
  for dbg g rel info d
  by unfold_locales (auto intro: check_row_finds)

end
