(* ===== verification/Deep_Related.thy ===== *)
theory Deep_Related
  imports Deep_Reach
begin

section \<open>The tables a notifier has to watch\<close>

text \<open>
  \<open>find_related_tables\<close> returns on every group whose link columns lead to tables of the group, however the
  links run in circles, and lists the tables that can be reached, each once and with its link columns.
\<close>

definition is_link_column :: "link_tables \<Rightarrow> size_t \<Rightarrow> size_t \<Rightarrow> bool" where
  "is_link_column g t i \<longleftrightarrow> column_types g t ! i = type_Link \<or> column_types g t ! i = type_LinkList"

definition link_of_column :: "link_tables \<Rightarrow> size_t \<Rightarrow> size_t \<Rightarrow> outgoing_link" where
  "link_of_column g t i = \<lparr>link_col = i, is_list = (column_types g t ! i = type_LinkList)\<rparr>"

definition column_links :: "link_tables \<Rightarrow> size_t \<Rightarrow> size_t list \<Rightarrow> outgoing_link list" where
  "column_links g t is = map (link_of_column g t) (filter (is_link_column g t) is)"

definition all_links :: "link_tables \<Rightarrow> size_t \<Rightarrow> outgoing_link list" where
  "all_links g t = column_links g t [0..<length (column_types g t)]"

definition links_to :: "link_tables \<Rightarrow> size_t \<Rightarrow> size_t \<Rightarrow> bool" where
  "links_to g t u \<longleftrightarrow> (\<exists>i<length (column_types g t). is_link_column g t i \<and> u = get_link_target g t i)"

text \<open>A group of \<open>N\<close> tables.\<close>

definition group_ok :: "nat \<Rightarrow> link_tables \<Rightarrow> bool" where
  "group_ok N g \<longleftrightarrow> N \<le> npos \<and> (\<forall>t<N. \<forall>u. links_to g t u \<longrightarrow> u < N)"

abbreviation tabs :: "related_table list \<Rightarrow> size_t set" where
  "tabs out \<equiv> related_ndx ` set out"

definition related_ok :: "link_tables \<Rightarrow> related_table list \<Rightarrow> related_table \<Rightarrow> bool" where
  "related_ok g out r \<longleftrightarrow> outgoing_links r = all_links g (related_ndx r) \<and> (\<forall>u. links_to g (related_ndx r) u \<longrightarrow> u \<in> tabs out)"

definition lists_related ::
    "nat \<Rightarrow> link_tables \<Rightarrow> nat \<Rightarrow> size_t \<Rightarrow> size_t list \<Rightarrow> related_table list \<Rightarrow> related_table list \<Rightarrow> bool" where
  "lists_related N g k t is out out' \<longleftrightarrow> distinct (map related_ndx out') \<and> tabs out' \<subseteq> {..<N}
     \<and> length out \<le> length out' \<and> (\<forall>j<length out. j \<noteq> k \<longrightarrow> out' ! j = out ! j)
     \<and> related_ndx (out' ! k) = t \<and> outgoing_links (out' ! k) = outgoing_links (out ! k) @ column_links g t is
     \<and> (\<forall>i\<in>set is. is_link_column g t i \<longrightarrow> get_link_target g t i \<in> tabs out')
     \<and> (\<forall>r\<in>set (drop (length out) out'). related_ok g out' r \<and> (links_to g)\<^sup>*\<^sup>* t (related_ndx r))"

lemma length_push_link [simp]: "length (push_link out i l) = length out"
  by (simp add: push_link_def)

lemma push_link_nth: "j < length out \<Longrightarrow> push_link out i l ! j =
    (if j = i then (out ! i)\<lparr>outgoing_links := outgoing_links (out ! i) @ [l]\<rparr> else out ! j)"
  by (simp add: push_link_def)

lemma push_link_ndx [simp]: "i < length out \<Longrightarrow> map related_ndx (push_link out i l) = map related_ndx out"
  by (auto simp: push_link_def map_update intro: nth_equalityI)
    (metis list_update_id nth_map)

lemma tabs_map: "tabs out = set (map related_ndx out)"
  by simp

lemma lists_related_tabs:
  assumes "lists_related N g k t is out out'" "k < length out" "related_ndx (out ! k) = t"
  shows "tabs out \<subseteq> tabs out'"
proof
  fix u assume "u \<in> tabs out"
  then obtain j where j: "j < length out" "u = related_ndx (out ! j)" by (auto simp: in_set_conv_nth)
  then have "u = related_ndx (out' ! j)" "j < length out'"
    using assms by (cases "j = k"; auto simp: lists_related_def)+
  then show "u \<in> tabs out'" by auto
qed

lemma lists_related_trans:
  assumes a: "lists_related N g k t is1 out out1" and b: "lists_related N g k t is2 out1 out2"
    and k: "k < length out" "related_ndx (out ! k) = t"
  shows "lists_related N g k t (is1 @ is2) out out2"
proof -
  have len: "length out \<le> length out1" "length out1 \<le> length out2" and k1: "related_ndx (out1 ! k) = t"
    using a b by (auto simp: lists_related_def)
  have t: "tabs out1 \<subseteq> tabs out2" using lists_related_tabs [OF b] len k k1 by simp
  have "related_ok g out2 r \<and> (links_to g)\<^sup>*\<^sup>* t (related_ndx r)" if "r \<in> set (drop (length out) out2)" for r
  proof -
    from that obtain j where j: "length out \<le> j" "j < length out2" "r = out2 ! j"
      by (auto simp: in_set_conv_nth) (metis add.commute le_add1 less_diff_conv)
    show ?thesis
    proof (cases "j < length out1")
      case True
      then have "r = out1 ! j" using j k b by (auto simp: lists_related_def)
      then have "r \<in> set (drop (length out) out1)" using True j(1)
        by (auto simp: in_set_conv_nth intro!: exI [of _ "j - length out"])
      then have "related_ok g out1 r \<and> (links_to g)\<^sup>*\<^sup>* t (related_ndx r)" using a by (simp add: lists_related_def)
      then show ?thesis using t by (auto simp: related_ok_def)
    next
      case False
      then have "r \<in> set (drop (length out1) out2)" using j
        by (auto simp: in_set_conv_nth intro!: exI [of _ "j - length out1"])
      then show ?thesis using b by (simp add: lists_related_def)
    qed
  qed
  moreover have "\<forall>i\<in>set (is1 @ is2). is_link_column g t i \<longrightarrow> get_link_target g t i \<in> tabs out2"
    using a b t by (auto simp: lists_related_def)
  ultimately show ?thesis using a b k len by (simp add: lists_related_def column_links_def)
qed

lemma lists_related_Nil:
  "distinct (map related_ndx out) \<Longrightarrow> tabs out \<subseteq> {..<N} \<Longrightarrow> related_ndx (out ! k) = t \<Longrightarrow> lists_related N g k t [] out out"
  by (simp add: lists_related_def column_links_def)

lemma lists_related_skip:
  "\<not> is_link_column g t i \<Longrightarrow> lists_related N g k t is out out' \<Longrightarrow> lists_related N g k t (i # is) out out'"
  by (auto simp: lists_related_def column_links_def)

text \<open>A link column whose table is listed already, and one whose table is listed by the recursion.\<close>

lemma lists_related_known:
  assumes d: "distinct (map related_ndx out)" "tabs out \<subseteq> {..<N}" and k: "k < length out" "related_ndx (out ! k) = t"
    and i: "is_link_column g t i" "get_link_target g t i \<in> tabs out"
  shows "lists_related N g k t [i] out (push_link out k (link_of_column g t i))"
proof -
  have "related_ndx (push_link out k (link_of_column g t i) ! k) = t" using k by (simp add: push_link_nth)
  moreover have "tabs (push_link out k (link_of_column g t i)) = tabs out"
    using push_link_ndx [OF k(1), of "link_of_column g t i"] by (metis tabs_map)
  ultimately show ?thesis using assms
    by (auto simp: lists_related_def column_links_def push_link_nth)
qed

lemma lists_related_new:
  assumes k: "k < length out" "related_ndx (out ! k) = t" and i: "is_link_column g t i" "i < length (column_types g t)"
    and u: "u = get_link_target g t i" and out1: "out1 = push_link out k (link_of_column g t i)"
    and rec: "lists_related N g (length out) u [0..<length (column_types g u)] (out1 @ [\<lparr>related_ndx = u, outgoing_links = []\<rparr>]) out2"
  shows "lists_related N g k t [i] out out2"
proof -
  have len: "length out1 = length out" using out1 by simp
  have old: "out2 ! j = out1 ! j" if "j < length out" for j
    using rec that len by (auto simp: lists_related_def nth_append)
  have new: "related_ndx (out2 ! length out) = u" "outgoing_links (out2 ! length out) = all_links g u"
    using rec len by (auto simp: lists_related_def nth_append all_links_def)
  have l2: "length out < length out2" using rec len by (simp add: lists_related_def)
  then have u2: "u \<in> tabs out2" using new(1) by force
  have tu: "links_to g t u" using i u by (auto simp: links_to_def)
  have "related_ok g out2 r \<and> (links_to g)\<^sup>*\<^sup>* t (related_ndx r)" if "r \<in> set (drop (length out) out2)" for r
  proof -
    have "drop (length out) out2 = out2 ! length out # drop (Suc (length out)) out2" using l2 by (simp add: Cons_nth_drop_Suc)
    with that consider "r = out2 ! length out" | "r \<in> set (drop (Suc (length out)) out2)" by auto
    then show ?thesis
    proof cases
      case 1
      have "v \<in> tabs out2" if "links_to g u v" for v
        using rec that by (auto simp: lists_related_def links_to_def)
      then show ?thesis using 1 new tu by (auto simp: related_ok_def)
    next
      case 2
      then have "related_ok g out2 r \<and> (links_to g)\<^sup>*\<^sup>* u (related_ndx r)" using rec len by (simp add: lists_related_def)
      then show ?thesis using tu by (auto intro: converse_rtranclp_into_rtranclp)
    qed
  qed
  then show ?thesis using k i u u2 l2 rec out1
    by (auto simp: lists_related_def column_links_def old push_link_nth)
qed

subsection \<open>The recursion returns\<close>

lemma related_columns_Cons:
  "related_columns g k t (i # is) out =
     (if is_link_column g t i then
        let out = push_link out k (link_of_column g t i); u = get_link_target g t i in
        Option.bind (if u = npos \<or> u \<in> tabs out then Some out
               else related_columns g (length out) u [0..<length (column_types g u)]
                      (out @ [\<lparr>related_ndx = u, outgoing_links = []\<rparr>]))
          (related_columns g k t is)
      else related_columns g k t is out)"
  by (subst related_columns.simps) (simp add: is_link_column_def link_of_column_def is_related_def Let_def)

lemma related_columns_ok:
  assumes "group_ok N g" "card ({..<N} - tabs out) \<le> n" "distinct (map related_ndx out)" "tabs out \<subseteq> {..<N}"
    "k < length out" "related_ndx (out ! k) = t" "t < N" "set is \<subseteq> {..<length (column_types g t)}"
  shows "succeeds (related_columns g k t is out) (lists_related N g k t is out)"
  using assms(2-)
proof (induction n arbitrary: k t "is" out rule: less_induct)
  case (less n)
  show ?case using less.prems
  proof (induction "is" arbitrary: out)
    case Nil
    then show ?case by (subst related_columns.simps) (simp add: lists_related_Nil)
  next
    case (Cons i "is")
    show ?case
    proof (cases "is_link_column g t i")
      case False
      have "succeeds (related_columns g k t is out) (lists_related N g k t is out)"
        using Cons.prems by (intro Cons.IH) simp_all
      then show ?thesis using False by (auto simp: related_columns_Cons lists_related_skip elim!: succeeds_mono)
    next
      case True
      let ?u = "get_link_target g t i" and ?out1 = "push_link out k (link_of_column g t i)"
      have i: "i < length (column_types g t)" using Cons.prems by simp
      then have uN: "?u < N" using assms(1) Cons.prems(6) True by (auto simp: group_ok_def links_to_def)
      then have u: "?u \<noteq> npos" using assms(1) by (auto simp: group_ok_def)
      have tabs1: "tabs ?out1 = tabs out" "distinct (map related_ndx ?out1)"
        using push_link_ndx [OF Cons.prems(4), of "link_of_column g t i"] Cons.prems(2) by (metis tabs_map, metis)
      have step: "succeeds (if ?u = npos \<or> ?u \<in> tabs ?out1 then Some ?out1
          else related_columns g (length ?out1) ?u [0..<length (column_types g ?u)]
            (?out1 @ [\<lparr>related_ndx = ?u, outgoing_links = []\<rparr>])) (lists_related N g k t [i] out)"
      proof (cases "?u \<in> tabs out")
        case True
        then show ?thesis using lists_related_known Cons.prems \<open>is_link_column g t i\<close> tabs1(1) by simp
      next
        case False
        let ?out2 = "?out1 @ [\<lparr>related_ndx = ?u, outgoing_links = []\<rparr>]"
        have "{..<N} - tabs ?out2 \<subset> {..<N} - tabs out" using False uN tabs1(1) by auto
        then have "card ({..<N} - tabs ?out2) < card ({..<N} - tabs out)" by (intro psubset_card_mono) auto
        then have c: "card ({..<N} - tabs ?out2) < n" using Cons.prems(1) by simp
        have "succeeds (related_columns g (length ?out1) ?u [0..<length (column_types g ?u)] ?out2)
            (lists_related N g (length ?out1) ?u [0..<length (column_types g ?u)] ?out2)"
          by (rule less.IH [OF c order_refl]) (use Cons.prems False uN tabs1 in \<open>auto simp: nth_append\<close>)
        then show ?thesis using False u tabs1(1)
          lists_related_new [OF Cons.prems(4,5) True i refl refl] by (auto elim!: succeeds_mono)
      qed
      have rest: "succeeds (related_columns g k t is out2) (lists_related N g k t (i # is) out)"
        if out2: "lists_related N g k t [i] out out2" for out2
      proof -
        have t2: "tabs out \<subseteq> tabs out2" using lists_related_tabs [OF out2 Cons.prems(4,5)] .
        then have "card ({..<N} - tabs out2) \<le> card ({..<N} - tabs out)" by (intro card_mono) auto
        then have "succeeds (related_columns g k t is out2) (lists_related N g k t is out2)"
          using Cons.prems out2 by (intro Cons.IH) (auto simp: lists_related_def)
        then show ?thesis using lists_related_trans [OF out2 _ Cons.prems(4,5)] by (auto elim: succeeds_mono)
      qed
      show ?thesis using step rest True by (auto simp: related_columns_Cons Let_def succeeds_def)
    qed
  qed
qed

lemma find_related_tables_ok:
  assumes "group_ok N g" "root < N"
  shows "succeeds (find_related_tables g [] root) (\<lambda>rel. distinct (map related_ndx rel) \<and> root \<in> tabs rel
    \<and> (\<forall>r\<in>set rel. related_ok g rel r \<and> (links_to g)\<^sup>*\<^sup>* root (related_ndx r)))"
proof -
  let ?out = "[\<lparr>related_ndx = root, outgoing_links = []\<rparr>]" and ?is = "[0..<length (column_types g root)]"
  have "root \<noteq> npos" using assms by (auto simp: group_ok_def)
  then have eq: "find_related_tables g [] root = related_columns g 0 root ?is ?out"
    by (simp add: find_related_tables_def is_related_def)
  have "succeeds (related_columns g 0 root ?is ?out) (lists_related N g 0 root ?is ?out)"
    by (rule related_columns_ok [OF assms(1) order_refl]) (use assms(2) in auto)
  then show ?thesis unfolding eq
  proof (rule succeeds_mono)
    fix rel assume l: "lists_related N g 0 root ?is ?out rel"
    then obtain r rs where rel: "rel = r # rs" by (cases rel) (auto simp: lists_related_def)
    then have "related_ok g rel r" "related_ndx r = root"
      using l by (auto simp: lists_related_def related_ok_def all_links_def links_to_def)
    then show "distinct (map related_ndx rel) \<and> root \<in> tabs rel
        \<and> (\<forall>r\<in>set rel. related_ok g rel r \<and> (links_to g)\<^sup>*\<^sup>* root (related_ndx r))"
      using l rel by (auto simp: lists_related_def)
  qed
qed

end
