(* ===== verification/Deep_Claims.thy ===== *)
theory Deep_Claims
  imports Deep_Related "HOL-Library.Code_Target_Nat"
begin

section \<open>Properties of the checker of linked objects\<close>

text \<open>
  Which tables a notifier watches, which rows it reports as changed, and the case that the code's shortcut
  for a single related table leaves out.
\<close>

declare npos_def [code]

definition row_link :: "link_tables \<Rightarrow> size_t \<times> size_t \<Rightarrow> size_t \<Rightarrow> size_t \<times> size_t \<Rightarrow> bool" where
  "row_link g n c n' \<longleftrightarrow> c < length (column_types g (fst n)) \<and> is_link_column g (fst n) c
     \<and> fst n' = get_link_target g (fst n) c \<and> snd n' \<in> set (linked_rows g (fst n) (snd n) (link_of_column g (fst n) c))"

text \<open>A row has changed when it is modified or at most three links away from a modified row.\<close>

definition row_changed :: "link_tables \<Rightarrow> transaction_change_info \<Rightarrow> size_t \<Rightarrow> size_t \<Rightarrow> bool" where
  "row_changed g info t row \<longleftrightarrow> is_modified info (t, row) \<or> within (row_link g) (is_modified info) {} 3 (t, row)"

definition related_closed :: "link_tables \<Rightarrow> size_t \<Rightarrow> related_table list \<Rightarrow> bool" where
  "related_closed g root rel \<longleftrightarrow> distinct (map related_ndx rel) \<and> root \<in> tabs rel \<and> (\<forall>r\<in>set rel. related_ok g rel r)"

lemma table_links_related:
  assumes "related_closed g root rel" "t \<in> tabs rel"
  shows "table_links rel t = all_links g t" "links_to g t u \<Longrightarrow> u \<in> tabs rel"
proof -
  from assms(2) obtain r where r: "r \<in> set rel" "related_ndx r = t" by auto
  then obtain r' where r': "find (\<lambda>r. related_ndx r = t) rel = Some r'"
    by (cases "find (\<lambda>r. related_ndx r = t) rel") (auto simp: find_None_iff)
  then have "r' \<in> set rel" "related_ndx r' = t" by (auto simp: find_Some_iff)
  then have ok: "related_ok g rel r'" "related_ndx r' = t" using assms(1) by (auto simp: related_closed_def)
  then show "table_links rel t = all_links g t" using r' by (simp add: table_links_def related_ok_def)
  show "links_to g t u \<Longrightarrow> u \<in> tabs rel" using ok by (simp add: related_ok_def)
qed

lemma link_edge_related:
  assumes "related_closed g root rel" "fst n \<in> tabs rel"
  shows "link_edge g rel n c n' \<longleftrightarrow> row_link g n c n'" "row_link g n c n' \<Longrightarrow> fst n' \<in> tabs rel"
  using table_links_related [OF assms]
  by (auto simp: link_edge_def row_link_def all_links_def column_links_def link_of_column_def links_to_def image_iff)

lemma within_related:
  assumes "related_closed g root rel" "fst n \<in> tabs rel"
  shows "within (link_edge g rel) M {} k n \<longleftrightarrow> within (row_link g) M {} k n"
  using assms(2)
proof (induction k arbitrary: n)
  case (Suc k)
  then show ?case using link_edge_related [OF assms(1) Suc.prems] by simp blast
qed simp

lemma check_object_ok:
  assumes "info_ok dbg info" "checker_ok dbg g rel info st" "related_closed g root rel"
  shows "succeeds (check_object dbg g info rel root row st)
    (\<lambda>(b, st'). b = row_changed g info root row \<and> checker_ok dbg g rel info st')"
proof -
  have w: "changed_within g rel info {} 3 (root, row) \<longleftrightarrow> within (row_link g) (is_modified info) {} 3 (root, row)"
    using within_related [OF assms(3), of "(root, row)"] assms(3) by (simp add: related_closed_def)
  show ?thesis
  proof (cases "is_modified info (root, row)")
    case True
    then show ?thesis using assms by (simp add: check_object_def row_modified_ok row_changed_def)
  next
    case False
    then show ?thesis using check_row_finds [OF assms(1) _ assms(2), of 0 root row] assms(1) w
      by (auto simp: check_object_def row_modified_ok row_changed_def finds_def path_links_def elim!: succeeds_mono)
  qed
qed

lemma checker_new_ok: "checker_ok dbg g rel info checker_new"
  by (simp add: checker_ok_def checker_new_def)

lemma deep_check_rows:
  assumes "info_ok dbg info" "checker_ok dbg g rel info st" "related_closed g root rel"
  shows "check_rows dbg g info rel root DeepCheck rows st = Some (map (row_changed g info root) rows)"
  using assms(2)
proof (induction rows arbitrary: st)
  case (Cons row rows)
  from check_object_ok [OF assms(1) Cons.prems assms(3), of row] obtain st' where
    "check_object dbg g info rel root row st = Some (row_changed g info root row, st')" "checker_ok dbg g rel info st'"
    by (auto simp: succeeds_def)
  then show ?case using Cons.IH by simp
qed simp

lemma related_modified:
  assumes "related_closed g root rel" "fst n \<in> tabs rel" "within (row_link g) M {} k n"
  shows "\<exists>n'. M n' \<and> fst n' \<in> tabs rel"
  using assms(2,3)
proof (induction k arbitrary: n)
  case (Suc k)
  then obtain c n' where n': "row_link g n c n'" "M n' \<or> within (row_link g) M {} k n'" by auto
  then have "fst n' \<in> tabs rel" using link_edge_related(2) [OF assms(1) Suc.prems(1)] by simp
  then show ?case using n'(2) Suc.IH [of n'] by (cases n') auto
qed simp

definition example_group :: link_tables where
  "example_group = \<lparr>column_types = (\<lambda>t. if t = 0 then [type_Int, type_LinkList] else if t = 1 then [type_Int, type_Link] else []),
     get_link_target = (\<lambda>t c. if t = 0 then 1 else 0),
     get_link = (\<lambda>t c r. if t = 1 \<and> r = 0 then Some 1 else None),
     get_linklist = (\<lambda>t c r. if t = 0 \<and> r = 0 then [0] else if t = 0 \<and> r = 1 then [1, 2] else [])\<rparr>"

definition example_modified :: transaction_change_info where
  "example_modified = info_new\<lparr>info_tables := [cb_nil, cb_nil\<lparr>modifications := the (add True [] 2)\<rparr>]\<rparr>"

lemma example_group_ok: "group_ok 2 example_group"
  by (auto simp: group_ok_def example_group_def links_to_def npos_def)

lemma example_modified_ok: "info_ok True example_modified"
  using add_ok [OF crv_ok_Nil, of True 2] by (auto simp: info_ok_def example_modified_def cb_nil_def crv_ok_Nil)

text \<open>C24: the search for related tables returns, however the links run in circles, and lists exactly the tables that
  links lead to from the root, each once and with all of its link columns. \<close>

theorem related_tables_complete:
  assumes "group_ok N g" "root < N"
  shows "\<exists>rel. find_related_tables g [] root = Some rel \<and> distinct (map related_ndx rel)
    \<and> set (map related_ndx rel) = {t. (links_to g)\<^sup>*\<^sup>* root t}
    \<and> (\<forall>r\<in>set rel. outgoing_links r = all_links g (related_ndx r))"
proof -
  from find_related_tables_ok [OF assms] obtain rel where rel: "find_related_tables g [] root = Some rel"
    "distinct (map related_ndx rel)" "root \<in> tabs rel"
    "\<forall>r\<in>set rel. related_ok g rel r \<and> (links_to g)\<^sup>*\<^sup>* root (related_ndx r)" by (auto simp: succeeds_def)
  have "t \<in> tabs rel" if "(links_to g)\<^sup>*\<^sup>* root t" for t
    using that by induction (use rel in \<open>auto simp: related_ok_def\<close>)
  then show ?thesis using rel by (auto simp: related_ok_def)
qed

theorem related_tables_complete_witness:
  "\<exists>rel. find_related_tables example_group [] 1 = Some rel \<and> distinct (map related_ndx rel)
    \<and> set (map related_ndx rel) = {t. (links_to example_group)\<^sup>*\<^sup>* 1 t}
    \<and> (\<forall>r\<in>set rel. outgoing_links r = all_links example_group (related_ndx r))"
  by (rule related_tables_complete [OF example_group_ok]) simp



definition self_linked :: link_tables where
  "self_linked = \<lparr>column_types = (\<lambda>t. if t = 0 then [type_Int, type_Link] else []), get_link_target = (\<lambda>t c. 0),
     get_link = (\<lambda>t c r. if t = 0 \<and> r = 0 then Some 1 else None), get_linklist = (\<lambda>t c r. [])\<rparr>"

definition self_modified :: transaction_change_info where
  "self_modified = info_new\<lparr>info_tables := [cb_nil\<lparr>modifications := the (add True [] 1)\<rparr>]\<rparr>"

text \<open>When a class links only to itself its table is the single related one, and the shortcut for that case asks
  for modifications of the row alone: a row whose linked row is modified is not reported as changed. \<close>

theorem self_link_ignored:
  "\<exists>rel. find_related_tables self_linked [] 0 = Some rel
    \<and> check_rows True self_linked self_modified rel 0 (get_modification_checker self_modified rel) [0] checker_new = Some [False]
    \<and> check_rows True self_linked self_modified rel 0 DeepCheck [0] checker_new = Some [True]
    \<and> row_changed self_linked self_modified 0 0"
proof -
  have rel: "find_related_tables self_linked [] 0 =
      Some [\<lparr>related_ndx = 0, outgoing_links = [\<lparr>link_col = 1, is_list = False\<rparr>]\<rparr>]" (is "_ = Some ?rel")
    by code_simp
  have c: "check_rows True self_linked self_modified ?rel 0 (get_modification_checker self_modified ?rel) [0] checker_new = Some [False]"
    "check_rows True self_linked self_modified ?rel 0 DeepCheck [0] checker_new = Some [True]" by code_simp+
  have "group_ok 1 self_linked" by (auto simp: group_ok_def self_linked_def links_to_def npos_def)
  then have "related_closed self_linked 0 ?rel"
    using find_related_tables_ok [of 1 self_linked 0] rel by (auto simp: succeeds_def related_closed_def)
  moreover obtain cs where "add True [] 1 = Some cs" "crv_ok True cs"
    using add_ok [OF crv_ok_Nil, of True 1] by blast
  then have "info_ok True self_modified" by (simp add: info_ok_def self_modified_def del: One_nat_def)
  ultimately have "row_changed self_linked self_modified 0 0"
    using deep_check_rows [OF _ checker_new_ok, of True self_modified self_linked 0 ?rel "[0]"] c(2) by simp
  with rel c show ?thesis by blast
qed

end
