(* ===== verification/Log_Integers.thy ===== *)
theory Log_Integers
  imports Prelude
begin

section \<open>The integers of the transaction log\<close>

text \<open>
  The variable-length encoding of \<open>core/realm/impl/transact_log.hpp\<close>: \<open>TransactLogEncoder::encode_int\<close> and
  \<open>TransactLogParser::read_int\<close>, for any integer type, and the types can differ.

  \<^item> A type is its number of value bits and whether it is signed. A byte is a number below 256. The masks and
    shifts of the code act on numbers that are not negative: they are written as remainders and quotients, and
    an \<open>|\<close> of numbers with no bit in common as a sum.
  \<^item> \<open>None\<close> is the exception \<open>BadTransactLog\<close>.
\<close>

type_synonym byte = nat

record int_type =
  digits :: nat
  is_signed :: bool

definition int_max :: "int_type \<Rightarrow> int" where
  "int_max T = 2 ^ digits T - 1"

definition int_min :: "int_type \<Rightarrow> int" where
  "int_min T = (if is_signed T then - (2 ^ digits T) else 0)"

definition fits_type :: "int_type \<Rightarrow> int \<Rightarrow> bool" where
  "fits_type T v \<longleftrightarrow> int_min T \<le> v \<and> v \<le> int_max T"

definition type_char :: int_type where "type_char = \<lparr>digits = 7, is_signed = True\<rparr>"
definition type_int :: int_type where "type_int = \<lparr>digits = 31, is_signed = True\<rparr>"
definition type_int64 :: int_type where "type_int64 = \<lparr>digits = 63, is_signed = True\<rparr>"
definition type_size :: int_type where "type_size = \<lparr>digits = 64, is_signed = False\<rparr>"

definition max_bytes :: "int_type \<Rightarrow> nat" where
  "max_bytes T = (1 + digits T + 6) div 7"

subsection \<open>Writing\<close>

fun encode_loop :: "nat \<Rightarrow> int \<Rightarrow> byte list \<times> int" where
  "encode_loop 0 value = ([], value)"
| "encode_loop (Suc n) value =
     (if value div 2 ^ 6 = 0 then ([], value)
      else let (bs, v) = encode_loop n (value div 2 ^ 7) in ((2 ^ 7 + nat (value mod 2 ^ 7)) # bs, v))"

definition encode_int :: "int_type \<Rightarrow> int \<Rightarrow> byte list" where
  "encode_int T value =
     (let negative = value < 0;
          value = (if negative then - (value + 1) else value);
          (bs, v) = encode_loop (max_bytes T) value
      in bs @ [(if negative then 2 ^ 6 else 0) + nat v])"

subsection \<open>Reading\<close>

fun read_loop :: "int_type \<Rightarrow> nat \<Rightarrow> int \<Rightarrow> byte \<Rightarrow> byte list \<Rightarrow> (int \<times> byte \<times> byte list) option" where
  "read_loop T i value part bs =
     (if i = max_bytes T then Some (value, part, bs)
      else case bs of
        [] \<Rightarrow> None
      | part # bs \<Rightarrow>
          if part div 2 ^ 7 = 0 then
            let p = int (part mod 2 ^ 6) in
            if int_max T div 2 ^ (i * 7) < p then None else Some (value + p * 2 ^ (i * 7), part, bs)
          else if i = max_bytes T - 1 then None
          else read_loop T (i + 1) (value + int (part mod 2 ^ 7) * 2 ^ (i * 7)) part bs)"

declare read_loop.simps [simp del]

definition read_int :: "int_type \<Rightarrow> byte list \<Rightarrow> (int \<times> byte list) option" where
  "read_int T bs = do {
     (value, part, bs) \<leftarrow> read_loop T 0 0 0 bs;
     if part div 2 ^ 6 mod 2 = 1 then
       let value = (if is_signed T then - value else (- value) mod 2 ^ digits T) in
       if value - 1 < int_min T then None else Some (value - 1, bs)
     else Some (value, bs) }"

subsection \<open>The encoding without the loop's bound\<close>

function enc :: "bool \<Rightarrow> nat \<Rightarrow> byte list" where
  "enc s w = (if w < 64 then [(if s then 64 else 0) + w] else (128 + w mod 128) # enc s (w div 128))"
  by pat_completeness auto
termination by (relation "measure snd") auto

declare enc.simps [simp del]

lemma enc_small: "w < 64 \<Longrightarrow> enc s w = [(if s then 64 else 0) + w]"
  by (subst enc.simps) simp

lemma enc_big: "\<not> w < 64 \<Longrightarrow> enc s w = (128 + w mod 128) # enc s (w div 128)"
  by (subst enc.simps) simp

lemma encode_loop_big:
  "\<not> w < 64 \<Longrightarrow> encode_loop (Suc n) (int w) =
    (case encode_loop n (int (w div 128)) of (bs, v) \<Rightarrow> ((128 + w mod 128) # bs, v))"
  by (auto simp: zdiv_int zmod_int nat_mod_distrib)

lemma encode_loop_small: "w < 64 \<Longrightarrow> encode_loop n (int w) = ([], int w)"
  by (cases n) auto

lemma encode_loop_enc:
  assumes "w < 2 ^ (7 * n + 6)"
  shows "(case encode_loop (Suc n) (int w) of (bs, v) \<Rightarrow> bs @ [(if s then 2 ^ 6 else 0) + nat v]) = enc s w"
  using assms
proof (induction n arbitrary: w)
  case 0
  then show ?case by (simp add: enc_small)
next
  case (Suc n)
  show ?case
  proof (cases "w < 64")
    case True
    then show ?thesis by (simp add: enc_small encode_loop_small del: encode_loop.simps)
  next
    case False
    have "w div 128 < 2 ^ (7 * n + 6)" using Suc.prems by (simp add: less_mult_imp_div_less power_add algebra_simps)
    from Suc.IH [OF this] show ?thesis
      unfolding encode_loop_big [OF False] enc_big [OF False] by (cases s; simp split: prod.splits del: encode_loop.simps)
  qed
qed

lemma max_bytes_bound: "digits T \<le> 7 * (max_bytes T - 1) + 6" "0 < max_bytes T"
  by (auto simp: max_bytes_def)

definition sign_and_size :: "int \<Rightarrow> bool \<times> nat" where
  "sign_and_size v = (v < 0, nat (if v < 0 then - v - 1 else v))"

lemma encode_int_enc:
  assumes "fits_type T v"
  shows "encode_int T v = (case sign_and_size v of (s, w) \<Rightarrow> enc s w)"
proof -
  let ?w = "nat (if v < 0 then - v - 1 else v)"
  have "int ?w < 2 ^ digits T" using assms by (auto simp: fits_type_def int_max_def int_min_def split: if_splits)
  also have "\<dots> \<le> 2 ^ (7 * (max_bytes T - 1) + 6)" using max_bytes_bound [of T] by (intro power_increasing) auto
  finally have "?w < 2 ^ (7 * (max_bytes T - 1) + 6)" by (simp add: of_nat_less_iff [where 'a = int, symmetric] del: of_nat_less_iff)
  from encode_loop_enc [OF this, of "v < 0"] show ?thesis
    using max_bytes_bound(2) [of T] by (auto simp: encode_int_def sign_and_size_def Let_def)
qed

lemma enc_bytes: "b \<in> set (enc s w) \<Longrightarrow> b < 256"
proof (induction s w rule: enc.induct)
  case (1 s w)
  show ?case
  proof (cases "w < 64")
    case True
    then show ?thesis using 1 by (auto simp: enc_small split: if_splits)
  next
    case False
    have "w mod 128 < 128" by simp
    then show ?thesis using 1 False by (auto simp: enc_big)
  qed
qed

text \<open>The number of bytes.\<close>

lemma enc_length: "0 < length (enc s w) \<and> w < 2 ^ (7 * length (enc s w) - 1)
    \<and> (1 < length (enc s w) \<longrightarrow> 2 ^ (7 * (length (enc s w) - 1) - 1) \<le> w)"
proof (induction s w rule: enc.induct)
  case (1 s w)
  show ?case
  proof (cases "w < 64")
    case True
    then show ?thesis by (simp add: enc_small)
  next
    case False
    let ?l = "length (enc s (w div 128))"
    have IH: "0 < ?l" "w div 128 < 2 ^ (7 * ?l - 1)" "1 < ?l \<Longrightarrow> 2 ^ (7 * (?l - 1) - 1) \<le> w div 128"
      using 1 [OF False] by auto
    have len: "length (enc s w) = ?l + 1" by (simp add: enc_big [OF False])
    have "w < 2 ^ (7 * ?l - 1) * 128" using IH(2) by (simp add: div_less_iff_less_mult)
    also have "\<dots> = 2 ^ (7 * (?l + 1) - 1)" using IH(1) by (cases ?l) (simp_all add: power_add)
    finally have up: "w < 2 ^ (7 * (?l + 1) - 1)" .
    have "2 ^ (7 * ?l - 1) \<le> w"
    proof (cases "1 < ?l")
      case True
      then have "2 ^ (7 * (?l - 1) - 1) * 128 \<le> w" using IH(3) by (metis less_eq_div_iff_mult_less_eq zero_less_numeral)
      moreover have "2 ^ (7 * (?l - 1) - 1) * 128 = (2 :: nat) ^ (7 * ?l - 1)"
      proof -
        have "7 * ?l - 1 = (7 * (?l - 1) - 1) + 7" using True by simp
        then have "(2 :: nat) ^ (7 * ?l - 1) = 2 ^ (7 * (?l - 1) - 1) * 2 ^ 7" by (metis power_add)
        then show ?thesis by simp
      qed
      ultimately show ?thesis by simp
    next
      case False: False
      then have "?l = 1" using IH(1) by linarith
      then show ?thesis using \<open>\<not> w < 64\<close> by simp
    qed
    then show ?thesis unfolding len using up IH(1) by simp
  qed
qed

lemma enc_length_bound: "w < 2 ^ (7 * n + 6) \<Longrightarrow> length (enc s w) \<le> n + 1"
proof (rule ccontr)
  assume w: "w < 2 ^ (7 * n + 6)" and "\<not> length (enc s w) \<le> n + 1"
  then have l: "n + 1 < length (enc s w)" by simp
  then have "2 ^ (7 * (length (enc s w) - 1) - 1) \<le> w" using enc_length [of s w] by simp
  moreover have "(2 :: nat) ^ (7 * n + 6) \<le> 2 ^ (7 * (length (enc s w) - 1) - 1)" using l by (intro power_increasing) auto
  ultimately show False using w by (meson leD le_trans)
qed

subsection \<open>Reading what has been written\<close>

lemma int_max_div: "k \<le> digits T \<Longrightarrow> int_max T div 2 ^ k = 2 ^ (digits T - k) - 1"
proof -
  assume k: "k \<le> digits T"
  then have "(2 :: int) ^ digits T = 2 ^ (digits T - k) * 2 ^ k" by (simp add: power_add [symmetric])
  then have "int_max T = (2 ^ (digits T - k) - 1) * 2 ^ k + (2 ^ k - 1)" by (simp add: int_max_def algebra_simps)
  then show ?thesis by (simp add: div_mult_self3 div_pos_pos_trivial)
qed

text \<open>The quotient is how much of the number is left at the byte \<open>i\<close>.\<close>

lemma left_div:
  assumes "i + 1 < max_bytes T"
  shows "int w \<le> int_max T div 2 ^ (i * 7) \<longleftrightarrow> int (w div 128) \<le> int_max T div 2 ^ ((i + 1) * 7)"
proof -
  have d: "(i + 1) * 7 \<le> digits T" "digits T - i * 7 = (digits T - (i + 1) * 7) + 7" using assms by (auto simp: max_bytes_def)
  have "(2 :: int) ^ (digits T - i * 7) = 2 ^ (digits T - (i + 1) * 7) * 2 ^ 7" unfolding d(2) power_add ..
  then show ?thesis using d(1) by (simp add: int_max_div zdiv_int) (auto simp: div_less_iff_less_mult)
qed

lemma left_last:
  assumes "i + 1 = max_bytes T" "int w \<le> int_max T div 2 ^ (i * 7)"
  shows "w < 64"
proof -
  have d: "i * 7 \<le> digits T" "digits T - i * 7 \<le> 6" using assms(1) by (auto simp: max_bytes_def)
  then have "int w < 2 ^ (digits T - i * 7)" using assms(2) by (simp add: int_max_div)
  also have "\<dots> \<le> 2 ^ 6" using d(2) by (intro power_increasing) auto
  finally show ?thesis by simp
qed

lemma read_loop_enc:
  assumes "i < max_bytes T"
  shows "read_loop T i value part (enc s w @ bs) =
    (if int w \<le> int_max T div 2 ^ (i * 7) then Some (value + int w * 2 ^ (i * 7), last (enc s w), bs) else None)"
  using assms
proof (induction s w arbitrary: i "value" part rule: enc.induct)
  case (1 s w)
  show ?case
  proof (cases "w < 64")
    case True
    then show ?thesis using 1(2) by (subst read_loop.simps) (auto simp: enc_small Let_def)
  next
    case False
    have e: "enc s w @ bs = (128 + w mod 128) # (enc s (w div 128) @ bs)" "last (enc s w) = last (enc s (w div 128))"
      using enc_length [of s "w div 128"] by (auto simp: enc_big [OF False])
    have b: "(128 + w mod 128) div 2 ^ 7 \<noteq> 0" "(128 + w mod 128) mod 2 ^ 7 = w mod 128" by auto
    show ?thesis
    proof (cases "i + 1 = max_bytes T")
      case True
      then have "\<not> int w \<le> int_max T div 2 ^ (i * 7)" using left_last False by blast
      then show ?thesis using True b 1(2) unfolding e by (subst read_loop.simps) auto
    next
      case l: False
      then have "i + 1 < max_bytes T" using 1(2) by simp
      note IH = 1(1) [OF False this, of "value + int (w mod 128) * 2 ^ (i * 7)" "128 + w mod 128"]
      have "int w * 2 ^ (i * 7) = int (w mod 128) * 2 ^ (i * 7) + int (w div 128) * 2 ^ ((i + 1) * 7)"
      proof -
        have "int w = int (w mod 128) + int (w div 128) * 128" by (metis mod_div_mult_eq of_nat_add of_nat_mult of_nat_numeral)
        moreover have "(2 :: int) ^ ((i + 1) * 7) = 128 * 2 ^ (i * 7)" by (simp add: power_add)
        ultimately show ?thesis by (simp add: algebra_simps)
      qed
      moreover have "read_loop T i value part (enc s w @ bs)
          = read_loop T (i + 1) (value + int (w mod 128) * 2 ^ (i * 7)) (128 + w mod 128) (enc s (w div 128) @ bs)"
        using l 1(2) b unfolding e by (subst read_loop.simps) (auto simp: Let_def)
      ultimately show ?thesis using IH left_div [OF \<open>i + 1 < max_bytes T\<close>, of w] e(2) by auto
    qed
  qed
qed

lemma last_enc: "last (enc s w) div 2 ^ 6 mod 2 = (if s then 1 else 0)"
proof (induction s w rule: enc.induct)
  case (1 s w)
  show ?case
  proof (cases "w < 64")
    case True
    then have "(64 + w) div 64 = 1" by (simp add: div_eq_dividend_iff)
    then show ?thesis using True by (simp add: enc_small)
  next
    case False
    then show ?thesis using 1 enc_length [of s "w div 128"] by (auto simp: enc_big)
  qed
qed

text \<open>
  What is read at any type: the number when it is in the range of the type, and an exception otherwise, but
  for a negative number other than \<open>-1\<close> that is read as an unsigned one.
\<close>

definition read_back :: "int_type \<Rightarrow> int \<Rightarrow> int option" where
  "read_back T v =
     (if fits_type T v then Some v
      else if \<not> is_signed T \<and> v < -1 \<and> - v \<le> 2 ^ digits T then Some (v + 2 ^ digits T) else None)"

lemma read_int_encode_int:
  assumes "fits_type T v"
  shows "read_int T' (encode_int T v @ bs) = map_option (\<lambda>v'. (v', bs)) (read_back T' v)"
proof -
  obtain s w where sw: "sign_and_size v = (s, w)" by fastforce
  have m: "0 < max_bytes T'" by (rule max_bytes_bound)
  have r: "read_loop T' 0 0 0 (encode_int T v @ bs) = (if int w \<le> int_max T' then Some (int w, last (enc s w), bs) else None)"
    using read_loop_enc [OF m, of 0 0 s w bs] by (simp add: encode_int_enc [OF assms] sw)
  show ?thesis
  proof (cases "v < 0")
    case False
    then have "\<not> s" "int w = v" using sw by (auto simp: sign_and_size_def)
    moreover have "- (2 ^ digits T') \<le> v" using False by (smt (verit) zero_le_power)
    ultimately show ?thesis using r last_enc [of s w] False
      by (auto simp: read_int_def read_back_def fits_type_def int_min_def)
  next
    case True
    then have s: "s" "int w = - v - 1" using sw by (auto simp: sign_and_size_def)
    then have read: "read_int T' (encode_int T v @ bs) =
        (if - v - 1 \<le> int_max T' then
           let value = (if is_signed T' then v + 1 else (v + 1) mod 2 ^ digits T')
           in if value - 1 < int_min T' then None else Some (value - 1, bs)
         else None)"
      using r last_enc [of s w] by (auto simp: read_int_def Let_def add.commute)
    show ?thesis
    proof (cases "is_signed T'")
      case True
      then show ?thesis unfolding read using \<open>v < 0\<close> by (auto simp: read_back_def fits_type_def int_min_def int_max_def)
    next
      case u: False
      show ?thesis
      proof (cases "- v - 1 \<le> int_max T' \<and> v \<noteq> -1")
        case True
        then have "(v + 1) mod 2 ^ digits T' = v + 1 + 2 ^ digits T'"
          using \<open>v < 0\<close> by (intro int_mod_pos_eq [of _ _ "-1"]) (auto simp: int_max_def)
        then show ?thesis unfolding read using True u \<open>v < 0\<close>
          by (auto simp: read_back_def fits_type_def int_min_def int_max_def Let_def)
      next
        case False
        then show ?thesis unfolding read using u \<open>v < 0\<close>
          by (auto simp: read_back_def fits_type_def int_min_def int_max_def Let_def)
      qed
    qed
  qed
qed

lemma read_int_same [simp]: "fits_type T v \<Longrightarrow> read_int T (encode_int T v @ bs) = Some (v, bs)"
  by (simp add: read_int_encode_int read_back_def)

end
