(* ===== verification/Transact_Log.thy ===== *)
theory Transact_Log
  imports Transact_Info
begin

section \<open>The observer of the transaction log\<close>

text \<open>
  The model of \<open>TransactLogValidator\<close> and \<open>TransactLogObserver\<close> in \<open>transact_log_handler.cpp\<close>: one function
  per method, called with the instructions of the log in their order, and \<open>observe\<close>, the dispatch that the
  parser of the core makes.

  \<^item> The pointers \<open>m_active_table\<close>, \<open>m_active_descriptor\<close> and \<open>m_active_list\<close> are the index of a change set of
    the tables, or of a builder of a list. The log selects a table again after it has inserted or moved one.
  \<^item> The instructions that set a cell differ in the type of the value only, which no method reads.
  \<^item> \<open>None\<close> is a failed assertion, \<open>Inl\<close> the exception \<open>UnsupportedSchemaChange\<close>.
\<close>

datatype set_kind = InstrSet | InstrSetDefault | InstrSetUnique

datatype log_instruction =
    SelectTable size_t "(size_t \<times> size_t) list"
  | SelectDescriptor nat
  | SelectLinkList size_t size_t
  | SetCell size_t size_t set_kind
  | SetCellUnique size_t size_t
  | ChangeCell size_t size_t
  | LinkListSet size_t
  | LinkListInsert size_t
  | LinkListErase size_t
  | LinkListNullify size_t
  | LinkListSwap size_t size_t
  | LinkListClear size_t
  | LinkListMove size_t size_t
  | InsertEmptyRows size_t size_t
  | AddRowWithKey size_t
  | EraseRows size_t size_t bool
  | SwapRows size_t size_t
  | MoveRow size_t size_t
  | MergeRows size_t size_t
  | ClearTable
  | InsertColumn size_t
  | InsertLinkColumn size_t
  | MoveColumn size_t size_t
  | InsertGroupLevelTable size_t
  | MoveGroupLevelTable size_t size_t
  | EraseGroupLevelTable size_t
  | RenameGroupLevelTable size_t
  | EraseColumn size_t
  | EraseLinkColumn size_t
  | RenameColumn size_t
  | AddSearchIndex size_t
  | RemoveSearchIndex size_t
  | SetLinkType size_t
  | OptimizeTable

datatype log_error = UnsupportedSchemaChange

text \<open>\<open>TransactLogValidationMixin\<close>.\<close>

fun validate :: "log_instruction \<Rightarrow> log_error + unit" where
  "validate (EraseGroupLevelTable t) = Inl UnsupportedSchemaChange"
| "validate (RenameGroupLevelTable t) = Inl UnsupportedSchemaChange"
| "validate (EraseColumn c) = Inl UnsupportedSchemaChange"
| "validate (EraseLinkColumn c) = Inl UnsupportedSchemaChange"
| "validate (RenameColumn c) = Inl UnsupportedSchemaChange"
| "validate _ = Inr ()"

subsection \<open>Vectors\<close>

definition expand :: "'a \<Rightarrow> nat \<Rightarrow> 'a list \<Rightarrow> 'a list" where
  "expand d n xs = xs @ replicate (n - length xs) d"

definition rotate_to :: "'a \<Rightarrow> nat \<Rightarrow> nat \<Rightarrow> 'a list \<Rightarrow> 'a list option" where
  "rotate_to d from to xs = do {
     realm_assert (from \<noteq> to);
     if length xs \<le> from \<and> length xs \<le> to then Some xs
     else
       let xs = (if length xs \<le> from \<or> length xs \<le> to then expand d (max from to + 1) xs else xs)
       in Some (if from < to
         then take from xs @ take (to - from) (drop (from + 1) xs) @ [xs ! from] @ drop (to + 1) xs
         else take to xs @ [xs ! from] @ take (from - to) (drop to xs) @ drop (from + 1) xs) }"

definition insert_empty_at :: "'a \<Rightarrow> nat \<Rightarrow> 'a list \<Rightarrow> 'a list" where
  "insert_empty_at d pos xs = (if pos < length xs then take pos xs @ d # drop pos xs else xs)"

definition adjust_for_move :: "size_t \<Rightarrow> size_t \<Rightarrow> size_t \<Rightarrow> size_t" where
  "adjust_for_move from to v =
     (if v = from then to else if v > from \<and> v \<le> to then v - 1 else if v < from \<and> v \<ge> to then v + 1 else v)"

definition expand_to :: "size_t list \<Rightarrow> nat \<Rightarrow> size_t list" where
  "expand_to cols i =
     (if length cols > i then cols
      else let n = max (length cols * 2) (i + 1); start = (if cols = [] then 0 else (last cols + 1) mod 2 ^ 64)
        in cols @ [start..<start + (n - length cols)])"

definition adjust_ge :: "size_t \<Rightarrow> size_t list \<Rightarrow> size_t list" where
  "adjust_ge i values = map (\<lambda>v. if v \<ge> i then v + 1 else v) values"

subsection \<open>The state\<close>

datatype active = NoChanges | TableChanges nat | ListChanges nat

record observer =
  ob_info :: transaction_change_info
  active_list :: "nat option"
  active_table :: active
  active_descriptor :: active
  need_move_info :: bool
  is_top_level_table :: bool
  current_table :: size_t

definition observer_new :: "transaction_change_info \<Rightarrow> observer" where
  "observer_new info = \<lparr>ob_info = info, active_list = None, active_table = NoChanges, active_descriptor = NoChanges,
     need_move_info = False, is_top_level_table = True, current_table = 0\<rparr>"

fun change_active :: "(change_builder \<Rightarrow> change_builder option) \<Rightarrow> active \<Rightarrow> transaction_change_info \<Rightarrow> transaction_change_info option" where
  "change_active f NoChanges info = Some info"
| "change_active f (TableChanges i) info = do {
     c \<leftarrow> f (info_tables info ! i); Some (info\<lparr>info_tables := (info_tables info)[i := c]\<rparr>) }"
| "change_active f (ListChanges i) info = do {
     c \<leftarrow> f (builders info ! i); Some (info\<lparr>builders := (builders info)[i := c]\<rparr>) }"

definition on_table :: "(change_builder \<Rightarrow> change_builder option) \<Rightarrow> observer \<Rightarrow> observer option" where
  "on_table f ob = do { info \<leftarrow> change_active f (active_table ob) (ob_info ob); Some (ob\<lparr>ob_info := info\<rparr>) }"

definition on_list :: "(change_builder \<Rightarrow> change_builder option) \<Rightarrow> observer \<Rightarrow> observer option" where
  "on_list f ob = (case active_list ob of
     None \<Rightarrow> Some ob
   | Some i \<Rightarrow> do { info \<leftarrow> change_active f (ListChanges i) (ob_info ob); Some (ob\<lparr>ob_info := info\<rparr>) })"

definition map_lists :: "(list_change_info \<Rightarrow> list_change_info) \<Rightarrow> observer \<Rightarrow> observer" where
  "map_lists f ob = ob\<lparr>ob_info := (ob_info ob)\<lparr>info_lists := map f (info_lists (ob_info ob))\<rparr>\<rparr>"

definition find_list :: "transaction_change_info \<Rightarrow> size_t \<Rightarrow> size_t \<Rightarrow> size_t \<Rightarrow> nat option" where
  "find_list info t c row = map_option list_changes
     (find (\<lambda>l. table_ndx l = t \<and> row_ndx l = row \<and> col_ndx l = c) (rev (info_lists info)))"

subsection \<open>Selecting\<close>

definition mark_dirty :: "bool \<Rightarrow> size_t \<Rightarrow> size_t \<Rightarrow> observer \<Rightarrow> observer option" where
  "mark_dirty dbg row c ob = on_table (\<lambda>b. cb_modify dbg b row c) ob"

definition needed :: "bool list \<Rightarrow> size_t \<Rightarrow> bool" where
  "needed bs t \<longleftrightarrow> t < length bs \<and> bs ! t"

definition select_table :: "bool \<Rightarrow> size_t \<Rightarrow> (size_t \<times> size_t) list \<Rightarrow> observer \<Rightarrow> observer option" where
  "select_table dbg t path ob =
     (let ob = ob\<lparr>current_table := t, active_table := NoChanges, is_top_level_table := True\<rparr>; info = ob_info ob in
      if length path > 1 then Some (ob\<lparr>is_top_level_table := False\<rparr>)
      else if \<not> track_all info \<and> \<not> needed (table_modifications_needed info) t then Some ob
      else
        let info = (if length (info_tables info) \<le> t
                    then info\<lparr>info_tables := expand cb_nil (max (length (info_tables info) * 2) (t + 1)) (info_tables info)\<rparr>
                    else info);
            ob = ob\<lparr>need_move_info := track_all info \<or> needed (table_moves_needed info) t, ob_info := info,
                    active_table := TableChanges t\<rparr>
        in case path of
             [] \<Rightarrow> Some ob
           | (c, row) # _ \<Rightarrow> do {
               ob \<leftarrow> mark_dirty dbg row c ob;
               let ob = ob\<lparr>active_table := NoChanges, is_top_level_table := False\<rparr>;
               case find_list (ob_info ob) t c row of
                 None \<Rightarrow> Some ob
               | Some i \<Rightarrow> Some (ob\<lparr>active_table := ListChanges i, need_move_info := True\<rparr>) })"

definition select_descriptor :: "nat \<Rightarrow> observer \<Rightarrow> observer" where
  "select_descriptor levels ob = ob\<lparr>active_descriptor := (if levels = 0 then active_table ob else NoChanges)\<rparr>"

definition select_link_list :: "bool \<Rightarrow> size_t \<Rightarrow> size_t \<Rightarrow> observer \<Rightarrow> observer option" where
  "select_link_list dbg c row ob = do {
     ob \<leftarrow> mark_dirty dbg row c ob;
     Some (ob\<lparr>active_list := find_list (ob_info ob) (current_table ob) c row\<rparr>) }"

subsection \<open>Lists of links\<close>

definition link_list_set :: "bool \<Rightarrow> size_t \<Rightarrow> observer \<Rightarrow> observer option" where
  "link_list_set dbg i ob = on_list (\<lambda>b. cb_modify dbg b i npos) ob"

definition link_list_insert :: "bool \<Rightarrow> size_t \<Rightarrow> observer \<Rightarrow> observer option" where
  "link_list_insert dbg i ob = on_list (\<lambda>b. cb_insert dbg b i 1 True) ob"

definition link_list_erase :: "bool \<Rightarrow> size_t \<Rightarrow> observer \<Rightarrow> observer option" where
  "link_list_erase dbg i ob = on_list (\<lambda>b. cb_erase dbg b i) ob"

definition link_list_swap :: "bool \<Rightarrow> size_t \<Rightarrow> size_t \<Rightarrow> observer \<Rightarrow> observer option" where
  "link_list_swap dbg i j ob = do { ob \<leftarrow> link_list_set dbg i ob; link_list_set dbg j ob }"

definition link_list_clear :: "bool \<Rightarrow> size_t \<Rightarrow> observer \<Rightarrow> observer option" where
  "link_list_clear dbg old_size ob = on_list (\<lambda>b. cb_clear dbg b old_size) ob"

definition link_list_move :: "bool \<Rightarrow> size_t \<Rightarrow> size_t \<Rightarrow> observer \<Rightarrow> observer option" where
  "link_list_move dbg from to ob = on_list (\<lambda>b. cb_move dbg b from to) ob"

subsection \<open>Rows\<close>

definition insert_empty_rows :: "bool \<Rightarrow> size_t \<Rightarrow> size_t \<Rightarrow> observer \<Rightarrow> observer option" where
  "insert_empty_rows dbg row n ob = do {
     ob \<leftarrow> on_table (\<lambda>b. cb_insert dbg b row n (need_move_info ob)) ob;
     if \<not> is_top_level_table ob then Some ob
     else Some (map_lists (\<lambda>l. if table_ndx l = current_table ob \<and> row_ndx l \<ge> row
                               then l\<lparr>row_ndx := row_ndx l + n\<rparr> else l) ob) }"

text \<open>The loop over the observed lists when the last row takes the place of an erased one.\<close>

function erase_lists :: "size_t \<Rightarrow> size_t \<Rightarrow> size_t \<Rightarrow> nat \<Rightarrow> list_change_info list \<Rightarrow> list_change_info list" where
  "erase_lists t row last_row i ls =
     (if i < length ls then
        let l = ls ! i in
        if table_ndx l \<noteq> t then erase_lists t row last_row (i + 1) ls
        else if row_ndx l = row then
          erase_lists t row last_row (i + 1) (butlast (if i + 1 < length ls then ls[i := last ls] else ls))
        else erase_lists t row last_row (i + 1) (if row_ndx l = last_row then ls[i := l\<lparr>row_ndx := row\<rparr>] else ls)
      else ls)"
  by pat_completeness auto
termination
  by (relation "measure (\<lambda>(_, _, _, i, ls). length ls - i)") auto

declare erase_lists.simps [simp del]

definition observe_erase_rows :: "bool \<Rightarrow> size_t \<Rightarrow> size_t \<Rightarrow> bool \<Rightarrow> observer \<Rightarrow> observer option" where
  "observe_erase_rows dbg row prior_num_rows unordered ob =
     (if \<not> unordered then on_table (\<lambda>b. cb_erase dbg b row) ob
      else do {
        let last_row = prior_num_rows - 1;
        ob \<leftarrow> on_table (\<lambda>b. cb_move_over dbg b row last_row (need_move_info ob)) ob;
        if \<not> is_top_level_table ob then Some ob
        else Some (ob\<lparr>ob_info := (ob_info ob)\<lparr>info_lists :=
               erase_lists (current_table ob) row last_row 0 (info_lists (ob_info ob))\<rparr>\<rparr>) })"

definition swap_rows :: "bool \<Rightarrow> size_t \<Rightarrow> size_t \<Rightarrow> observer \<Rightarrow> observer option" where
  "swap_rows dbg a b ob = do {
     realm_assert (a < b);
     if \<not> is_top_level_table ob then do {
       ob \<leftarrow> on_table (\<lambda>c. cb_move dbg c a b) ob;
       if a + 1 \<noteq> b then on_table (\<lambda>c. cb_move dbg c (b - 1) a) ob else Some ob }
     else do {
       ob \<leftarrow> on_table (\<lambda>c. cb_swap dbg c a b (need_move_info ob)) ob;
       Some (map_lists (\<lambda>l. if table_ndx l = current_table ob
                            then if row_ndx l = a then l\<lparr>row_ndx := b\<rparr> else if row_ndx l = b then l\<lparr>row_ndx := a\<rparr> else l
                            else l) ob) } }"

definition move_row :: "bool \<Rightarrow> size_t \<Rightarrow> size_t \<Rightarrow> observer \<Rightarrow> observer option" where
  "move_row dbg from to ob = do {
     realm_assert (active_table ob = NoChanges \<or> \<not> is_top_level_table ob);
     on_table (\<lambda>c. cb_move dbg c from to) ob }"

definition merge_rows :: "bool \<Rightarrow> size_t \<Rightarrow> size_t \<Rightarrow> observer \<Rightarrow> observer option" where
  "merge_rows dbg from to ob = do {
     ob \<leftarrow> on_table (\<lambda>c. cb_subsume dbg c from to (need_move_info ob)) ob;
     if \<not> is_top_level_table ob then Some ob
     else Some (map_lists (\<lambda>l. if table_ndx l = current_table ob \<and> row_ndx l = from then l\<lparr>row_ndx := to\<rparr> else l) ob) }"

definition clear_table :: "bool \<Rightarrow> observer \<Rightarrow> observer option" where
  "clear_table dbg ob = do {
     ob \<leftarrow> on_table (\<lambda>c. cb_clear dbg c npos) ob;
     if \<not> is_top_level_table ob then Some ob
     else Some (ob\<lparr>ob_info := (ob_info ob)\<lparr>info_lists :=
            filter (\<lambda>l. table_ndx l \<noteq> current_table ob) (info_lists (ob_info ob))\<rparr>\<rparr>) }"

subsection \<open>The schema\<close>

definition update_column_indices :: "(size_t list \<Rightarrow> size_t list option) \<Rightarrow> observer \<Rightarrow> observer option" where
  "update_column_indices f ob = do {
     let info = ob_info ob;
     let cols = expand [] (current_table ob + 1) (column_indices info);
     is \<leftarrow> f (cols ! current_table ob);
     Some (ob\<lparr>ob_info := info\<lparr>column_indices := cols[current_table ob := is]\<rparr>\<rparr>) }"

definition column_inserted :: "size_t \<Rightarrow> size_t list \<Rightarrow> size_t list" where
  "column_inserted ndx indices = (insert_empty_at 0 ndx (expand_to indices ndx))[ndx := npos]"

definition on_descriptor :: "(change_builder \<Rightarrow> change_builder) \<Rightarrow> observer \<Rightarrow> observer option" where
  "on_descriptor f ob = do {
     info \<leftarrow> change_active (\<lambda>c. Some (f c)) (active_descriptor ob) ((ob_info ob)\<lparr>schema_changed := True\<rparr>);
     Some (ob\<lparr>ob_info := info\<rparr>) }"

definition observe_insert_column :: "size_t \<Rightarrow> observer \<Rightarrow> observer option" where
  "observe_insert_column ndx ob = do {
     ob \<leftarrow> on_descriptor (\<lambda>c. insert_column c ndx) ob;
     if active_descriptor ob \<noteq> active_table ob \<or> \<not> is_top_level_table ob then Some ob
     else update_column_indices (\<lambda>is. Some (column_inserted ndx is))
       (map_lists (\<lambda>l. if table_ndx l = current_table ob \<and> col_ndx l \<ge> ndx then l\<lparr>col_ndx := col_ndx l + 1\<rparr> else l) ob) }"

definition column_moved :: "size_t \<Rightarrow> size_t \<Rightarrow> size_t list \<Rightarrow> size_t list option" where
  "column_moved from to indices = rotate_to 0 from to (expand_to indices (max from to + 1))"

definition observe_move_column :: "size_t \<Rightarrow> size_t \<Rightarrow> observer \<Rightarrow> observer option" where
  "observe_move_column from to ob = do {
     ob \<leftarrow> on_descriptor (\<lambda>c. move_column c from to) ob;
     if active_descriptor ob \<noteq> active_table ob \<or> \<not> is_top_level_table ob then Some ob
     else update_column_indices (column_moved from to)
       (map_lists (\<lambda>l. if table_ndx l = current_table ob then l\<lparr>col_ndx := adjust_for_move from to (col_ndx l)\<rparr> else l) ob) }"

definition prepare_table_indices :: "transaction_change_info \<Rightarrow> transaction_change_info" where
  "prepare_table_indices info =
     (if table_indices info = [] \<and> table_modifications_needed info \<noteq> []
      then info\<lparr>table_indices := [0..<length (table_modifications_needed info)]\<rparr> else info)"

definition insert_group_level_table :: "size_t \<Rightarrow> observer \<Rightarrow> observer" where
  "insert_group_level_table ndx ob =
     (let ob = map_lists (\<lambda>l. if table_ndx l \<ge> ndx then l\<lparr>table_ndx := table_ndx l + 1\<rparr> else l) ob;
          info = prepare_table_indices ((ob_info ob)\<lparr>schema_changed := True\<rparr>)
      in ob\<lparr>ob_info := info\<lparr>
           table_indices := adjust_ge ndx (table_indices info),
           info_tables := insert_empty_at cb_nil ndx (info_tables info),
           table_moves_needed := insert_empty_at False ndx (table_moves_needed info),
           table_modifications_needed := insert_empty_at False ndx (table_modifications_needed info)\<rparr>\<rparr>)"

definition move_group_level_table :: "size_t \<Rightarrow> size_t \<Rightarrow> observer \<Rightarrow> observer option" where
  "move_group_level_table from to ob = do {
     let ob = map_lists (\<lambda>l. l\<lparr>table_ndx := adjust_for_move from to (table_ndx l)\<rparr>) ob;
     let info = prepare_table_indices ((ob_info ob)\<lparr>schema_changed := True\<rparr>);
     tables \<leftarrow> rotate_to cb_nil from to (info_tables info);
     modifs \<leftarrow> rotate_to False from to (table_modifications_needed info);
     mvs \<leftarrow> rotate_to False from to (table_moves_needed info);
     Some (ob\<lparr>ob_info := info\<lparr>table_indices := map (adjust_for_move from to) (table_indices info),
       info_tables := tables, table_modifications_needed := modifs, table_moves_needed := mvs\<rparr>\<rparr>) }"

subsection \<open>The log\<close>

fun observe :: "bool \<Rightarrow> log_instruction \<Rightarrow> observer \<Rightarrow> (log_error + observer) option" where
  "observe dbg (SelectTable t path) ob = map_option Inr (select_table dbg t path ob)"
| "observe dbg (SelectDescriptor levels) ob = Some (Inr (select_descriptor levels ob))"
| "observe dbg (SelectLinkList c row) ob = map_option Inr (select_link_list dbg c row ob)"
| "observe dbg (SetCell c row k) ob = map_option Inr (if k = InstrSet then mark_dirty dbg row c ob else Some ob)"
| "observe dbg (SetCellUnique c row) ob = Some (Inr ob)"
| "observe dbg (ChangeCell c row) ob = map_option Inr (mark_dirty dbg row c ob)"
| "observe dbg (LinkListSet i) ob = map_option Inr (link_list_set dbg i ob)"
| "observe dbg (LinkListInsert i) ob = map_option Inr (link_list_insert dbg i ob)"
| "observe dbg (LinkListErase i) ob = map_option Inr (link_list_erase dbg i ob)"
| "observe dbg (LinkListNullify i) ob = map_option Inr (link_list_erase dbg i ob)"
| "observe dbg (LinkListSwap i j) ob = map_option Inr (link_list_swap dbg i j ob)"
| "observe dbg (LinkListClear n) ob = map_option Inr (link_list_clear dbg n ob)"
| "observe dbg (LinkListMove from to) ob = map_option Inr (link_list_move dbg from to ob)"
| "observe dbg (InsertEmptyRows row n) ob = map_option Inr (insert_empty_rows dbg row n ob)"
| "observe dbg (AddRowWithKey row) ob = map_option Inr (insert_empty_rows dbg row 1 ob)"
| "observe dbg (EraseRows row prior unordered) ob = map_option Inr (observe_erase_rows dbg row prior unordered ob)"
| "observe dbg (SwapRows a b) ob = map_option Inr (swap_rows dbg a b ob)"
| "observe dbg (MoveRow from to) ob = map_option Inr (move_row dbg from to ob)"
| "observe dbg (MergeRows from to) ob = map_option Inr (merge_rows dbg from to ob)"
| "observe dbg ClearTable ob = map_option Inr (clear_table dbg ob)"
| "observe dbg (InsertColumn ndx) ob = map_option Inr (observe_insert_column ndx ob)"
| "observe dbg (InsertLinkColumn ndx) ob = map_option Inr (observe_insert_column ndx ob)"
| "observe dbg (MoveColumn from to) ob = map_option Inr (observe_move_column from to ob)"
| "observe dbg (InsertGroupLevelTable ndx) ob = Some (Inr (insert_group_level_table ndx ob))"
| "observe dbg (MoveGroupLevelTable from to) ob = map_option Inr (move_group_level_table from to ob)"
| "observe dbg i ob = (case validate i of Inl e \<Rightarrow> Some (Inl e) | Inr u \<Rightarrow> Some (Inr ob))"

fun observe_log :: "bool \<Rightarrow> log_instruction list \<Rightarrow> observer \<Rightarrow> (log_error + observer) option" where
  "observe_log dbg [] ob = Some (Inr ob)"
| "observe_log dbg (i # is) ob = (case observe dbg i ob of
     None \<Rightarrow> None | Some (Inl e) \<Rightarrow> Some (Inl e) | Some (Inr ob) \<Rightarrow> observe_log dbg is ob)"

fun clean_up_lists :: "bool \<Rightarrow> list_change_info list \<Rightarrow> change_builder list \<Rightarrow> change_builder list option" where
  "clean_up_lists dbg [] bs = Some bs"
| "clean_up_lists dbg (l # ls) bs = do {
     c \<leftarrow> clean_up_stale_moves dbg (bs ! list_changes l);
     clean_up_lists dbg ls (bs[list_changes l := c]) }"

definition log_complete :: "bool \<Rightarrow> transaction_change_info \<Rightarrow> transaction_change_info option" where
  "log_complete dbg info = do {
     tables \<leftarrow> map_opt (parse_complete dbg) (info_tables info);
     bs \<leftarrow> clean_up_lists dbg (info_lists info) (builders info);
     Some (info\<lparr>info_tables := tables, builders := bs\<rparr>) }"

end
