(* ===== verification/Log_Encoding.thy ===== *)
theory Log_Encoding
  imports Log_Integers Transact_Log
begin

section \<open>Writing the transaction log\<close>

text \<open>
  \<open>TransactLogEncoder\<close> of \<open>core/realm/impl/transact_log.hpp\<close>: the calls that the parser makes and the encoder
  takes, the buffer that is written, and the arguments that every method gives to \<open>append_simple_instr\<close>.

  \<^item> A call has all arguments of its method. Strings and binaries are lists of bytes, \<open>None\<close> for a null one;
    the bits of a \<open>float\<close> or \<open>double\<close> are a list of bytes that is copied.
  \<^item> The methods that select a table, a descriptor or a list of links are in the library that the headers belong
    to: their encoding is a parameter.
  \<^item> The buffer is what has been written and the space left in the chunk; how much space a new chunk has is a
    parameter, at least what has been asked for. \<open>None\<close> is a failed assertion or a write beyond the space.
\<close>

subsection \<open>The calls\<close>

type_synonym bytes = "byte list"

datatype link_type = Link_Strong | Link_Weak

datatype mixed =
    Mixed_int int
  | Mixed_bool bool
  | Mixed_float bytes
  | Mixed_double bytes
  | Mixed_olddatetime int
  | Mixed_timestamp int int
  | Mixed_string bytes
  | Mixed_binary bytes
  | Mixed_table

datatype log_call =
    Select_table size_t "(size_t \<times> size_t) list"
  | Select_descriptor "size_t list"
  | Select_link_list size_t size_t size_t
  | Insert_group_level_table size_t size_t bytes
  | Erase_group_level_table size_t size_t
  | Rename_group_level_table size_t bytes
  | Insert_empty_rows size_t size_t size_t bool
  | Add_row_with_key size_t size_t size_t int
  | Erase_rows size_t size_t size_t bool
  | Swap_rows size_t size_t
  | Move_row size_t size_t
  | Merge_rows size_t size_t
  | Clear_table size_t
  | Set_int size_t size_t int set_kind size_t
  | Add_int size_t size_t int
  | Set_bool size_t size_t bool set_kind
  | Set_float size_t size_t bytes set_kind
  | Set_double size_t size_t bytes set_kind
  | Set_string size_t size_t "bytes option" set_kind size_t
  | Set_binary size_t size_t "bytes option" set_kind
  | Set_olddatetime size_t size_t int set_kind
  | Set_timestamp size_t size_t int int set_kind
  | Set_table size_t size_t set_kind
  | Set_mixed size_t size_t mixed set_kind
  | Set_link size_t size_t size_t size_t set_kind
  | Set_null size_t size_t set_kind size_t
  | Nullify_link size_t size_t size_t
  | Insert_substring size_t size_t size_t bytes
  | Erase_substring size_t size_t size_t size_t
  | Optimize_table
  | Insert_link_column size_t data_type bytes size_t size_t
  | Insert_column size_t data_type bytes bool
  | Erase_link_column size_t size_t size_t
  | Erase_column size_t
  | Rename_column size_t bytes
  | Add_search_index size_t
  | Remove_search_index size_t
  | Set_link_type size_t link_type
  | Link_list_set size_t size_t size_t
  | Link_list_set_all "int list"
  | Link_list_insert size_t size_t size_t
  | Link_list_move size_t size_t
  | Link_list_swap size_t size_t
  | Link_list_erase size_t size_t
  | Link_list_nullify size_t size_t
  | Link_list_clear size_t

fun type_code :: "data_type \<Rightarrow> nat" where
  "type_code type_Int = 0"
| "type_code type_Bool = 1"
| "type_code type_Float = 9"
| "type_code type_Double = 10"
| "type_code type_String = 2"
| "type_code type_Binary = 4"
| "type_code type_OldDateTime = 7"
| "type_code type_Timestamp = 8"
| "type_code type_Table = 5"
| "type_code type_Mixed = 6"
| "type_code type_Link = 12"
| "type_code type_LinkList = 13"

fun set_code :: "set_kind \<Rightarrow> nat" where
  "set_code InstrSet = 6"
| "set_code InstrSetUnique = 7"
| "set_code InstrSetDefault = 8"

fun link_code :: "link_type \<Rightarrow> int" where
  "link_code Link_Strong = 0"
| "link_code Link_Weak = 1"

definition set_null_sentinel :: int where
  "set_null_sentinel = -1"

subsection \<open>Encoding the arguments\<close>

datatype item = INum int_type int | IChar byte | IRaw bytes | IString bytes | IList "int list"

definition ISize :: "size_t \<Rightarrow> item" where
  "ISize n = INum type_size (int n)"

definition IBool :: "bool \<Rightarrow> item" where
  "IBool b = IChar (if b then 1 else 0)"

fun encode_item :: "item \<Rightarrow> bytes" where
  "encode_item (INum T v) = encode_int T v"
| "encode_item (IChar b) = [b]"
| "encode_item (IRaw bs) = bs"
| "encode_item (IString s) = encode_int type_size (int (length s)) @ s"
| "encode_item (IList vs) = concat (map (encode_int type_int64) vs)"

definition max_enc_bytes_per_num :: nat where
  "max_enc_bytes_per_num = 10"

definition max_numbers_per_chunk :: "bool \<Rightarrow> nat" where
  "max_numbers_per_chunk dbg = (if dbg then 2 else 8)"

fun max_item_size :: "bool \<Rightarrow> item \<Rightarrow> nat" where
  "max_item_size dbg (INum T v) = max_enc_bytes_per_num"
| "max_item_size dbg (IChar b) = 1"
| "max_item_size dbg (IRaw bs) = max_enc_bytes_per_num"
| "max_item_size dbg (IString s) = max_enc_bytes_per_num + length s"
| "max_item_size dbg (IList vs) = max_enc_bytes_per_num * max_numbers_per_chunk dbg"

subsection \<open>The buffer\<close>

record writer =
  written :: bytes
  space :: nat

definition reserve :: "(writer \<Rightarrow> nat \<Rightarrow> nat) \<Rightarrow> nat \<Rightarrow> writer \<Rightarrow> writer" where
  "reserve grow n w = (if space w < n then w\<lparr>space := grow w n\<rparr> else w)"

definition write_bytes :: "bytes \<Rightarrow> writer \<Rightarrow> writer option" where
  "write_bytes bs w = (if length bs \<le> space w
     then Some (w\<lparr>written := written w @ bs, space := space w - length bs\<rparr>) else None)"

function write_list :: "bool \<Rightarrow> (writer \<Rightarrow> nat \<Rightarrow> nat) \<Rightarrow> int list \<Rightarrow> writer \<Rightarrow> writer option" where
  "write_list dbg grow vs w =
     (let n = max_numbers_per_chunk dbg in
      if length vs > n then do {
        w \<leftarrow> write_bytes (concat (map (encode_int type_int64) (take n vs))) w;
        write_list dbg grow (drop n vs) (reserve grow (max_enc_bytes_per_num * n) w) }
      else write_bytes (concat (map (encode_int type_int64) vs)) w)"
  by pat_completeness auto
termination
  by (relation "measure (\<lambda>(_, _, vs, _). length vs)") (auto simp: max_numbers_per_chunk_def split: if_splits)

declare write_list.simps [simp del]

fun write_item :: "bool \<Rightarrow> (writer \<Rightarrow> nat \<Rightarrow> nat) \<Rightarrow> item \<Rightarrow> writer \<Rightarrow> writer option" where
  "write_item dbg grow (IList vs) w = write_list dbg grow vs w"
| "write_item dbg grow i w = write_bytes (encode_item i) w"

definition append_simple_instr :: "bool \<Rightarrow> (writer \<Rightarrow> nat \<Rightarrow> nat) \<Rightarrow> item list \<Rightarrow> writer \<Rightarrow> writer option" where
  "append_simple_instr dbg grow is w =
     fold_opt (write_item dbg grow) is (reserve grow (sum_list (map (max_item_size dbg) is)) w)"

fun append_mixed_instr :: "nat \<Rightarrow> mixed \<Rightarrow> item list \<Rightarrow> item list" where
  "append_mixed_instr instr (Mixed_int v) ns = [IChar instr] @ ns @ [IChar (type_code type_Int), INum type_int64 v]"
| "append_mixed_instr instr (Mixed_bool v) ns = [IChar instr] @ ns @ [IChar (type_code type_Bool), IBool v]"
| "append_mixed_instr instr (Mixed_float v) ns = [IChar instr] @ ns @ [IChar (type_code type_Float), IRaw v]"
| "append_mixed_instr instr (Mixed_double v) ns = [IChar instr] @ ns @ [IChar (type_code type_Double), IRaw v]"
| "append_mixed_instr instr (Mixed_olddatetime v) ns = [IChar instr] @ ns @ [IChar (type_code type_OldDateTime), INum type_int64 v]"
| "append_mixed_instr instr (Mixed_string v) ns = [IChar instr] @ ns @ [IChar (type_code type_String), IString v]"
| "append_mixed_instr instr (Mixed_binary v) ns = [IChar instr] @ ns @ [IChar (type_code type_Binary), IString v]"
| "append_mixed_instr instr (Mixed_timestamp s n) ns =
     [IChar instr] @ ns @ [IChar (type_code type_Timestamp), INum type_int64 s, INum type_int n]"
| "append_mixed_instr instr Mixed_table ns = [IChar instr] @ ns @ [IChar (type_code type_Table)]"

subsection \<open>The methods\<close>

definition enc_insert_group_level_table :: "size_t \<Rightarrow> size_t \<Rightarrow> bytes \<Rightarrow> item list option" where
  "enc_insert_group_level_table t prior_num_tables name = Some [IChar 1, ISize t, ISize prior_num_tables, IString name]"

definition enc_erase_group_level_table :: "size_t \<Rightarrow> size_t \<Rightarrow> item list option" where
  "enc_erase_group_level_table t prior_num_tables = Some [IChar 2, ISize t, ISize prior_num_tables]"

definition enc_rename_group_level_table :: "size_t \<Rightarrow> bytes \<Rightarrow> item list option" where
  "enc_rename_group_level_table t new_name = Some [IChar 3, ISize t, IString new_name]"

definition enc_insert_column :: "size_t \<Rightarrow> data_type \<Rightarrow> bytes \<Rightarrow> bool \<Rightarrow> item list option" where
  "enc_insert_column c type name nullable = Some [IChar (if nullable then 23 else 21), ISize c, IChar (type_code type), IString name]"

definition enc_insert_link_column :: "size_t \<Rightarrow> data_type \<Rightarrow> bytes \<Rightarrow> size_t \<Rightarrow> size_t \<Rightarrow> item list option" where
  "enc_insert_link_column c type name target_ndx backlink_col_ndx = do {
     realm_assert (type = type_Link \<or> type = type_LinkList);
     Some [IChar 22, ISize c, IChar (type_code type), ISize target_ndx, ISize backlink_col_ndx, IString name] }"

definition enc_erase_column :: "size_t \<Rightarrow> item list option" where
  "enc_erase_column c = Some [IChar 24, ISize c]"

definition enc_erase_link_column :: "size_t \<Rightarrow> size_t \<Rightarrow> size_t \<Rightarrow> item list option" where
  "enc_erase_link_column c target_ndx backlink_col_ndx = Some [IChar 25, ISize c, ISize target_ndx, ISize backlink_col_ndx]"

definition enc_rename_column :: "size_t \<Rightarrow> bytes \<Rightarrow> item list option" where
  "enc_rename_column c new_name = Some [IChar 26, ISize c, IString new_name]"

definition enc_set_null :: "size_t \<Rightarrow> size_t \<Rightarrow> set_kind \<Rightarrow> size_t \<Rightarrow> item list option" where
  "enc_set_null c r k prior = Some (if k = InstrSetUnique
     then [IChar (set_code k), INum type_int set_null_sentinel, ISize c, ISize r, ISize prior]
     else [IChar (set_code k), INum type_int set_null_sentinel, ISize c, ISize r])"

definition enc_set_int :: "size_t \<Rightarrow> size_t \<Rightarrow> int \<Rightarrow> set_kind \<Rightarrow> size_t \<Rightarrow> item list option" where
  "enc_set_int c r v k prior = Some (if k = InstrSetUnique
     then [IChar (set_code k), IChar (type_code type_Int), ISize c, ISize r, ISize prior, INum type_int64 v]
     else [IChar (set_code k), IChar (type_code type_Int), ISize c, ISize r, INum type_int64 v])"

definition enc_add_int :: "size_t \<Rightarrow> size_t \<Rightarrow> int \<Rightarrow> item list option" where
  "enc_add_int c r v = Some [IChar 9, ISize c, ISize r, INum type_int64 v]"

definition enc_set_bool :: "size_t \<Rightarrow> size_t \<Rightarrow> bool \<Rightarrow> set_kind \<Rightarrow> item list option" where
  "enc_set_bool c r v k = do {
     realm_assert (k = InstrSet \<or> k = InstrSetDefault);
     Some [IChar (set_code k), IChar (type_code type_Bool), ISize c, ISize r, IBool v] }"

definition enc_set_float :: "size_t \<Rightarrow> size_t \<Rightarrow> bytes \<Rightarrow> set_kind \<Rightarrow> item list option" where
  "enc_set_float c r v k = do {
     realm_assert (k = InstrSet \<or> k = InstrSetDefault);
     Some [IChar (set_code k), IChar (type_code type_Float), ISize c, ISize r, IRaw v] }"

definition enc_set_double :: "size_t \<Rightarrow> size_t \<Rightarrow> bytes \<Rightarrow> set_kind \<Rightarrow> item list option" where
  "enc_set_double c r v k = do {
     realm_assert (k = InstrSet \<or> k = InstrSetDefault);
     Some [IChar (set_code InstrSet), IChar (type_code type_Double), ISize c, ISize r, IRaw v] }"

definition enc_set_string :: "size_t \<Rightarrow> size_t \<Rightarrow> bytes option \<Rightarrow> set_kind \<Rightarrow> size_t \<Rightarrow> item list option" where
  "enc_set_string c r v k prior = (case v of
     None \<Rightarrow> enc_set_null c r k prior
   | Some v \<Rightarrow> Some (if k = InstrSetUnique
       then [IChar (set_code k), IChar (type_code type_String), ISize c, ISize r, ISize prior, IString v]
       else [IChar (set_code k), IChar (type_code type_String), ISize c, ISize r, IString v]))"

definition enc_set_binary :: "size_t \<Rightarrow> size_t \<Rightarrow> bytes option \<Rightarrow> set_kind \<Rightarrow> item list option" where
  "enc_set_binary c r v k = do {
     realm_assert (k = InstrSet \<or> k = InstrSetDefault);
     case v of
       None \<Rightarrow> enc_set_null c r k 0
     | Some v \<Rightarrow> Some [IChar (set_code k), IChar (type_code type_Binary), ISize c, ISize r, IString v] }"

definition enc_set_olddatetime :: "size_t \<Rightarrow> size_t \<Rightarrow> int \<Rightarrow> set_kind \<Rightarrow> item list option" where
  "enc_set_olddatetime c r v k = do {
     realm_assert (k = InstrSet \<or> k = InstrSetDefault);
     Some [IChar (set_code k), IChar (type_code type_OldDateTime), ISize c, ISize r, INum type_int64 v] }"

definition enc_set_timestamp :: "size_t \<Rightarrow> size_t \<Rightarrow> int \<Rightarrow> int \<Rightarrow> set_kind \<Rightarrow> item list option" where
  "enc_set_timestamp c r s n k = do {
     realm_assert (k = InstrSet \<or> k = InstrSetDefault);
     Some [IChar (set_code k), IChar (type_code type_Timestamp), ISize c, ISize r, INum type_int64 s, INum type_int n] }"

definition enc_set_table :: "size_t \<Rightarrow> size_t \<Rightarrow> set_kind \<Rightarrow> item list option" where
  "enc_set_table c r k = do {
     realm_assert (k = InstrSet \<or> k = InstrSetDefault);
     Some [IChar (set_code k), IChar (type_code type_Table), ISize c, ISize r] }"

definition enc_set_mixed :: "size_t \<Rightarrow> size_t \<Rightarrow> mixed \<Rightarrow> set_kind \<Rightarrow> item list option" where
  "enc_set_mixed c r v k = do {
     realm_assert (k = InstrSet \<or> k = InstrSetDefault);
     Some (append_mixed_instr (set_code k) v [IChar (type_code type_Mixed), ISize c, ISize r]) }"

definition enc_set_link :: "size_t \<Rightarrow> size_t \<Rightarrow> size_t \<Rightarrow> size_t \<Rightarrow> set_kind \<Rightarrow> item list option" where
  "enc_set_link c r v target_ndx k = do {
     realm_assert (k = InstrSet \<or> k = InstrSetDefault);
     let v = (1 + v) mod 2 ^ 64;
     Some [IChar (set_code k), IChar (type_code type_Link), ISize c, ISize r, ISize v, ISize target_ndx] }"

definition enc_nullify_link :: "size_t \<Rightarrow> size_t \<Rightarrow> size_t \<Rightarrow> item list option" where
  "enc_nullify_link c r target_ndx = Some [IChar 10, ISize c, ISize r, ISize target_ndx]"

definition enc_insert_substring :: "size_t \<Rightarrow> size_t \<Rightarrow> size_t \<Rightarrow> bytes \<Rightarrow> item list option" where
  "enc_insert_substring c r pos v = Some [IChar 11, ISize c, ISize r, ISize pos, IString v]"

definition enc_erase_substring :: "size_t \<Rightarrow> size_t \<Rightarrow> size_t \<Rightarrow> size_t \<Rightarrow> item list option" where
  "enc_erase_substring c r pos n = Some [IChar 12, ISize c, ISize r, ISize pos, ISize n]"

definition enc_insert_empty_rows :: "size_t \<Rightarrow> size_t \<Rightarrow> size_t \<Rightarrow> bool \<Rightarrow> item list option" where
  "enc_insert_empty_rows r n prior unordered = Some [IChar 13, ISize r, ISize n, ISize prior, IBool unordered]"

definition enc_add_row_with_key :: "size_t \<Rightarrow> size_t \<Rightarrow> size_t \<Rightarrow> int \<Rightarrow> item list option" where
  "enc_add_row_with_key r prior key_col_ndx key = Some [IChar 40, ISize r, ISize prior, ISize key_col_ndx, INum type_int64 key]"

definition enc_erase_rows :: "size_t \<Rightarrow> size_t \<Rightarrow> size_t \<Rightarrow> bool \<Rightarrow> item list option" where
  "enc_erase_rows r n prior unordered = Some [IChar 14, ISize r, ISize n, ISize prior, IBool unordered]"

definition enc_swap_rows :: "size_t \<Rightarrow> size_t \<Rightarrow> item list option" where
  "enc_swap_rows r1 r2 = Some [IChar 15, ISize r1, ISize r2]"

definition enc_move_row :: "size_t \<Rightarrow> size_t \<Rightarrow> item list option" where
  "enc_move_row from_ndx to_ndx = Some [IChar 16, ISize from_ndx, ISize to_ndx]"

definition enc_merge_rows :: "size_t \<Rightarrow> size_t \<Rightarrow> item list option" where
  "enc_merge_rows r new_row_ndx = Some [IChar 17, ISize r, ISize new_row_ndx]"

definition enc_add_search_index :: "size_t \<Rightarrow> item list option" where
  "enc_add_search_index c = Some [IChar 28, ISize c]"

definition enc_remove_search_index :: "size_t \<Rightarrow> item list option" where
  "enc_remove_search_index c = Some [IChar 29, ISize c]"

definition enc_set_link_type :: "size_t \<Rightarrow> link_type \<Rightarrow> item list option" where
  "enc_set_link_type c type = Some [IChar 30, ISize c, INum type_int (link_code type)]"

definition enc_clear_table :: "size_t \<Rightarrow> item list option" where
  "enc_clear_table old_size = Some [IChar 18, ISize old_size]"

definition enc_optimize_table :: "item list option" where
  "enc_optimize_table = Some [IChar 19]"

definition enc_link_list_set :: "size_t \<Rightarrow> size_t \<Rightarrow> size_t \<Rightarrow> item list option" where
  "enc_link_list_set link_ndx v prior_size = Some [IChar 32, ISize link_ndx, ISize v, ISize prior_size]"

definition enc_link_list_nullify :: "size_t \<Rightarrow> size_t \<Rightarrow> item list option" where
  "enc_link_list_nullify link_ndx prior_size = Some [IChar 37, ISize link_ndx, ISize prior_size]"

definition enc_link_list_set_all :: "int list \<Rightarrow> item list option" where
  "enc_link_list_set_all vs = Some [IChar 39, ISize (length vs), IList vs]"

definition enc_link_list_insert :: "size_t \<Rightarrow> size_t \<Rightarrow> size_t \<Rightarrow> item list option" where
  "enc_link_list_insert link_ndx v prior_size = Some [IChar 33, ISize link_ndx, ISize v, ISize prior_size]"

definition enc_link_list_move :: "size_t \<Rightarrow> size_t \<Rightarrow> item list option" where
  "enc_link_list_move from_ndx to_ndx = do {
     realm_assert (from_ndx \<noteq> to_ndx);
     Some [IChar 34, ISize from_ndx, ISize to_ndx] }"

definition enc_link_list_swap :: "size_t \<Rightarrow> size_t \<Rightarrow> item list option" where
  "enc_link_list_swap ndx_1 ndx_2 = Some [IChar 35, ISize ndx_1, ISize ndx_2]"

definition enc_link_list_erase :: "size_t \<Rightarrow> size_t \<Rightarrow> item list option" where
  "enc_link_list_erase link_ndx prior_size = Some [IChar 36, ISize link_ndx, ISize prior_size]"

definition enc_link_list_clear :: "size_t \<Rightarrow> item list option" where
  "enc_link_list_clear old_size = Some [IChar 38, ISize old_size]"

text \<open>The arguments of every method but those that select.\<close>

fun encode_args :: "log_call \<Rightarrow> item list option" where
  "encode_args (Insert_group_level_table a b c) = enc_insert_group_level_table a b c"
| "encode_args (Erase_group_level_table a b) = enc_erase_group_level_table a b"
| "encode_args (Rename_group_level_table a b) = enc_rename_group_level_table a b"
| "encode_args (Insert_empty_rows a b c d) = enc_insert_empty_rows a b c d"
| "encode_args (Add_row_with_key a b c d) = enc_add_row_with_key a b c d"
| "encode_args (Erase_rows a b c d) = enc_erase_rows a b c d"
| "encode_args (Swap_rows a b) = enc_swap_rows a b"
| "encode_args (Move_row a b) = enc_move_row a b"
| "encode_args (Merge_rows a b) = enc_merge_rows a b"
| "encode_args (Clear_table a) = enc_clear_table a"
| "encode_args (Set_int a b c d e) = enc_set_int a b c d e"
| "encode_args (Add_int a b c) = enc_add_int a b c"
| "encode_args (Set_bool a b c d) = enc_set_bool a b c d"
| "encode_args (Set_float a b c d) = enc_set_float a b c d"
| "encode_args (Set_double a b c d) = enc_set_double a b c d"
| "encode_args (Set_string a b c d e) = enc_set_string a b c d e"
| "encode_args (Set_binary a b c d) = enc_set_binary a b c d"
| "encode_args (Set_olddatetime a b c d) = enc_set_olddatetime a b c d"
| "encode_args (Set_timestamp a b c d e) = enc_set_timestamp a b c d e"
| "encode_args (Set_table a b c) = enc_set_table a b c"
| "encode_args (Set_mixed a b c d) = enc_set_mixed a b c d"
| "encode_args (Set_link a b c d e) = enc_set_link a b c d e"
| "encode_args (Set_null a b c d) = enc_set_null a b c d"
| "encode_args (Nullify_link a b c) = enc_nullify_link a b c"
| "encode_args (Insert_substring a b c d) = enc_insert_substring a b c d"
| "encode_args (Erase_substring a b c d) = enc_erase_substring a b c d"
| "encode_args Optimize_table = enc_optimize_table"
| "encode_args (Insert_link_column a b c d e) = enc_insert_link_column a b c d e"
| "encode_args (Insert_column a b c d) = enc_insert_column a b c d"
| "encode_args (Erase_link_column a b c) = enc_erase_link_column a b c"
| "encode_args (Erase_column a) = enc_erase_column a"
| "encode_args (Rename_column a b) = enc_rename_column a b"
| "encode_args (Add_search_index a) = enc_add_search_index a"
| "encode_args (Remove_search_index a) = enc_remove_search_index a"
| "encode_args (Set_link_type a b) = enc_set_link_type a b"
| "encode_args (Link_list_set a b c) = enc_link_list_set a b c"
| "encode_args (Link_list_set_all a) = enc_link_list_set_all a"
| "encode_args (Link_list_insert a b c) = enc_link_list_insert a b c"
| "encode_args (Link_list_move a b) = enc_link_list_move a b"
| "encode_args (Link_list_swap a b) = enc_link_list_swap a b"
| "encode_args (Link_list_erase a b) = enc_link_list_erase a b"
| "encode_args (Link_list_nullify a b) = enc_link_list_nullify a b"
| "encode_args (Link_list_clear a) = enc_link_list_clear a"
| "encode_args _ = None"

record select_encoders =
  enc_select_table :: "size_t \<Rightarrow> (size_t \<times> size_t) list \<Rightarrow> bytes"
  enc_select_descriptor :: "size_t list \<Rightarrow> bytes"
  enc_select_link_list :: "size_t \<Rightarrow> size_t \<Rightarrow> size_t \<Rightarrow> bytes"

fun encode_call :: "select_encoders \<Rightarrow> log_call \<Rightarrow> bytes option" where
  "encode_call sel (Select_table t path) = Some (enc_select_table sel t path)"
| "encode_call sel (Select_descriptor path) = Some (enc_select_descriptor sel path)"
| "encode_call sel (Select_link_list c r t) = Some (enc_select_link_list sel c r t)"
| "encode_call sel call = map_option (\<lambda>is. concat (map encode_item is)) (encode_args call)"

fun encode_log :: "select_encoders \<Rightarrow> log_call list \<Rightarrow> bytes option" where
  "encode_log sel [] = Some []"
| "encode_log sel (c # cs) = do { bs \<leftarrow> encode_call sel c; rest \<leftarrow> encode_log sel cs; Some (bs @ rest) }"

end
