(* ===== verification/Log_Parsing.thy ===== *)
theory Log_Parsing
  imports Log_Encoding
begin

section \<open>Reading the transaction log\<close>

text \<open>
  \<open>TransactLogParser\<close> of \<open>core/realm/impl/transact_log.hpp\<close>: an instruction is read from the bytes and becomes
  the calls of the handler, one for every instruction but \<open>instr_LinkListSetAll\<close>.

  \<^item> The blocks of the input are joined: \<open>read_char\<close> and \<open>read_bytes\<close> go on in the next one.
  \<^item> The handlers of the object store return true from every method, so that no call ends the parsing.
  \<^item> \<open>None\<close> is the exception \<open>BadTransactLog\<close>.
\<close>

definition read_size :: "bytes \<Rightarrow> (size_t \<times> bytes) option" where
  "read_size bs = do { (v, bs) \<leftarrow> read_int type_size bs; Some (nat v, bs) }"

definition read_char :: "bytes \<Rightarrow> (byte \<times> bytes) option" where
  "read_char bs = (case bs of [] \<Rightarrow> None | b # bs \<Rightarrow> Some (b, bs))"

definition read_bytes :: "nat \<Rightarrow> bytes \<Rightarrow> (bytes \<times> bytes) option" where
  "read_bytes n bs = (if length bs < n then None else Some (take n bs, drop n bs))"

definition read_bool :: "bytes \<Rightarrow> (bool \<times> bytes) option" where
  "read_bool bs = do { (v, bs) \<leftarrow> read_int type_char bs; Some (v \<noteq> 0, bs) }"

definition read_float :: "bytes \<Rightarrow> (bytes \<times> bytes) option" where
  "read_float bs = read_bytes 4 bs"

definition read_double :: "bytes \<Rightarrow> (bytes \<times> bytes) option" where
  "read_double bs = read_bytes 8 bs"

definition max_string_size :: nat where
  "max_string_size = 0xFFFFF8 - 8 - 1"

definition read_string :: "bytes \<Rightarrow> (bytes \<times> bytes) option" where
  "read_string bs = do {
     (n, bs) \<leftarrow> read_size bs;
     if n > max_string_size then None else read_bytes n bs }"

definition read_binary :: "bytes \<Rightarrow> (bytes \<times> bytes) option" where
  "read_binary bs = do { (n, bs) \<leftarrow> read_size bs; read_bytes n bs }"

definition read_timestamp :: "bytes \<Rightarrow> ((int \<times> int) \<times> bytes) option" where
  "read_timestamp bs = do {
     (s, bs) \<leftarrow> read_int type_int64 bs; (n, bs) \<leftarrow> read_int type_int bs; Some ((s, n), bs) }"

definition data_type_of :: "int \<Rightarrow> data_type option" where
  "data_type_of v = find (\<lambda>t. int (type_code t) = v)
     [type_Int, type_Bool, type_Float, type_Double, type_String, type_Binary, type_OldDateTime, type_Timestamp,
      type_Table, type_Mixed, type_Link, type_LinkList]"

definition link_type_of :: "int \<Rightarrow> link_type option" where
  "link_type_of v = find (\<lambda>t. link_code t = v) [Link_Strong, Link_Weak]"

definition read_mixed :: "bytes \<Rightarrow> (mixed \<times> bytes) option" where
  "read_mixed bs = do {
     (type, bs) \<leftarrow> read_int type_int bs;
     type \<leftarrow> data_type_of type;
     case type of
       type_Int \<Rightarrow> do { (v, bs) \<leftarrow> read_int type_int64 bs; Some (Mixed_int v, bs) }
     | type_Bool \<Rightarrow> do { (v, bs) \<leftarrow> read_bool bs; Some (Mixed_bool v, bs) }
     | type_Float \<Rightarrow> do { (v, bs) \<leftarrow> read_float bs; Some (Mixed_float v, bs) }
     | type_Double \<Rightarrow> do { (v, bs) \<leftarrow> read_double bs; Some (Mixed_double v, bs) }
     | type_OldDateTime \<Rightarrow> do { (v, bs) \<leftarrow> read_int type_int64 bs; Some (Mixed_olddatetime v, bs) }
     | type_Timestamp \<Rightarrow> do { ((s, n), bs) \<leftarrow> read_timestamp bs; Some (Mixed_timestamp s n, bs) }
     | type_String \<Rightarrow> do { (v, bs) \<leftarrow> read_string bs; Some (Mixed_string v, bs) }
     | type_Binary \<Rightarrow> do { (v, bs) \<leftarrow> read_binary bs; Some (Mixed_binary v, bs) }
     | type_Table \<Rightarrow> Some (Mixed_table, bs)
     | _ \<Rightarrow> None }"

subsection \<open>The instructions\<close>

type_synonym parsed = "(log_call list \<times> bytes) option"

definition call_1 :: "(size_t \<Rightarrow> log_call) \<Rightarrow> bytes \<Rightarrow> parsed" where
  "call_1 f bs = do { (a, bs) \<leftarrow> read_size bs; Some ([f a], bs) }"

definition call_2 :: "(size_t \<Rightarrow> size_t \<Rightarrow> log_call) \<Rightarrow> bytes \<Rightarrow> parsed" where
  "call_2 f bs = do { (a, bs) \<leftarrow> read_size bs; call_1 (f a) bs }"

definition call_3 :: "(size_t \<Rightarrow> size_t \<Rightarrow> size_t \<Rightarrow> log_call) \<Rightarrow> bytes \<Rightarrow> parsed" where
  "call_3 f bs = do { (a, bs) \<leftarrow> read_size bs; call_2 (f a) bs }"

fun set_kind_of :: "nat \<Rightarrow> set_kind" where
  "set_kind_of instr = (if instr = 7 then InstrSetUnique else if instr = 8 then InstrSetDefault else InstrSet)"

definition parse_value :: "data_type \<Rightarrow> size_t \<Rightarrow> size_t \<Rightarrow> set_kind \<Rightarrow> size_t \<Rightarrow> bytes \<Rightarrow> parsed" where
  "parse_value type c r k prior bs = (case type of
       type_Int \<Rightarrow> do { (v, bs) \<leftarrow> read_int type_int64 bs; Some ([Set_int c r v k prior], bs) }
     | type_Bool \<Rightarrow> do { (v, bs) \<leftarrow> read_bool bs; Some ([Set_bool c r v k], bs) }
     | type_Float \<Rightarrow> do { (v, bs) \<leftarrow> read_float bs; Some ([Set_float c r v k], bs) }
     | type_Double \<Rightarrow> do { (v, bs) \<leftarrow> read_double bs; Some ([Set_double c r v k], bs) }
     | type_String \<Rightarrow> do { (v, bs) \<leftarrow> read_string bs; Some ([Set_string c r (Some v) k prior], bs) }
     | type_Binary \<Rightarrow> do { (v, bs) \<leftarrow> read_binary bs; Some ([Set_binary c r (Some v) k], bs) }
     | type_OldDateTime \<Rightarrow> do { (v, bs) \<leftarrow> read_int type_int64 bs; Some ([Set_olddatetime c r v k], bs) }
     | type_Timestamp \<Rightarrow> do {
         (s, bs) \<leftarrow> read_int type_int64 bs; (n, bs) \<leftarrow> read_int type_int bs; Some ([Set_timestamp c r s n k], bs) }
     | type_Table \<Rightarrow> Some ([Set_table c r k], bs)
     | type_Mixed \<Rightarrow> do { (v, bs) \<leftarrow> read_mixed bs; Some ([Set_mixed c r v k], bs) }
     | type_Link \<Rightarrow> do {
         (v, bs) \<leftarrow> read_size bs;
         let target_row = (v + 2 ^ 64 - 1) mod 2 ^ 64;
         (t, bs) \<leftarrow> read_size bs; Some ([Set_link c r target_row t k], bs) }
     | type_LinkList \<Rightarrow> None)"

definition parse_set :: "nat \<Rightarrow> bytes \<Rightarrow> parsed" where
  "parse_set instr bs = do {
     (type, bs) \<leftarrow> read_int type_int bs;
     (c, bs) \<leftarrow> read_size bs;
     (r, bs) \<leftarrow> read_size bs;
     (prior, bs) \<leftarrow> (if instr = 7 then read_size bs else Some (0, bs));
     if type = set_null_sentinel then Some ([Set_null c r (set_kind_of instr) prior], bs)
     else do { type \<leftarrow> data_type_of type; parse_value type c r (set_kind_of instr) prior bs } }"

definition parse_cell :: "nat \<Rightarrow> bytes \<Rightarrow> parsed" where
  "parse_cell instr bs =
     (if instr = 9 then do {
        (c, bs) \<leftarrow> read_size bs; (r, bs) \<leftarrow> read_size bs; (v, bs) \<leftarrow> read_int type_int64 bs; Some ([Add_int c r v], bs) }
      else if instr = 10 then call_3 Nullify_link bs
      else if instr = 11 then do {
        (c, bs) \<leftarrow> read_size bs; (r, bs) \<leftarrow> read_size bs; (pos, bs) \<leftarrow> read_size bs; (v, bs) \<leftarrow> read_string bs;
        Some ([Insert_substring c r pos v], bs) }
      else do { (c, bs) \<leftarrow> read_size bs; call_3 (Erase_substring c) bs })"

fun read_path :: "nat \<Rightarrow> bytes \<Rightarrow> ((size_t \<times> size_t) list \<times> bytes) option" where
  "read_path 0 bs = Some ([], bs)"
| "read_path (Suc n) bs = do {
     (c, bs) \<leftarrow> read_size bs; (r, bs) \<leftarrow> read_size bs; (path, bs) \<leftarrow> read_path n bs; Some ((c, r) # path, bs) }"

fun read_sizes :: "nat \<Rightarrow> bytes \<Rightarrow> (size_t list \<times> bytes) option" where
  "read_sizes 0 bs = Some ([], bs)"
| "read_sizes (Suc n) bs = do { (a, bs) \<leftarrow> read_size bs; (as, bs) \<leftarrow> read_sizes n bs; Some (a # as, bs) }"

definition max_levels :: int where
  "max_levels = 1024"

definition parse_select_table :: "bytes \<Rightarrow> parsed" where
  "parse_select_table bs = do {
     (levels, bs) \<leftarrow> read_int type_int bs;
     if levels < 0 \<or> levels > max_levels then None
     else do { (t, bs) \<leftarrow> read_size bs; (path, bs) \<leftarrow> read_path (nat levels) bs; Some ([Select_table t path], bs) } }"

definition parse_rows :: "nat \<Rightarrow> bytes \<Rightarrow> parsed" where
  "parse_rows instr bs =
     (if instr = 13 then do {
        (r, bs) \<leftarrow> read_size bs; (n, bs) \<leftarrow> read_size bs; (prior, bs) \<leftarrow> read_size bs; (unordered, bs) \<leftarrow> read_bool bs;
        Some ([Insert_empty_rows r n prior unordered], bs) }
      else if instr = 40 then do {
        (r, bs) \<leftarrow> read_size bs; (prior, bs) \<leftarrow> read_size bs; (c, bs) \<leftarrow> read_size bs; (key, bs) \<leftarrow> read_int type_int64 bs;
        Some ([Add_row_with_key r prior c key], bs) }
      else if instr = 14 then do {
        (r, bs) \<leftarrow> read_size bs; (n, bs) \<leftarrow> read_size bs; (prior, bs) \<leftarrow> read_size bs; (unordered, bs) \<leftarrow> read_bool bs;
        Some ([Erase_rows r n prior unordered], bs) }
      else if instr = 15 then call_2 Swap_rows bs
      else if instr = 16 then call_2 Move_row bs
      else if instr = 17 then call_2 Merge_rows bs
      else if instr = 5 then parse_select_table bs
      else call_1 Clear_table bs)"

definition parse_list :: "nat \<Rightarrow> bytes \<Rightarrow> parsed" where
  "parse_list instr bs =
     (if instr = 32 then call_3 Link_list_set bs
      else if instr = 39 then do {
        (n, bs) \<leftarrow> read_size bs; (vs, bs) \<leftarrow> read_sizes n bs;
        Some (map (\<lambda>(i, v). Link_list_set i v n) (enumerate 0 vs), bs) }
      else if instr = 33 then call_3 Link_list_insert bs
      else if instr = 34 then call_2 Link_list_move bs
      else if instr = 35 then call_2 Link_list_swap bs
      else if instr = 36 then call_2 Link_list_erase bs
      else if instr = 37 then call_2 Link_list_nullify bs
      else if instr = 38 then call_1 Link_list_clear bs
      else call_3 Select_link_list bs)"

definition parse_column :: "nat \<Rightarrow> bytes \<Rightarrow> parsed" where
  "parse_column instr bs =
     (if instr = 28 then call_1 Add_search_index bs
      else if instr = 29 then call_1 Remove_search_index bs
      else if instr = 30 then do {
        (c, bs) \<leftarrow> read_size bs; (type, bs) \<leftarrow> read_int type_int bs; type \<leftarrow> link_type_of type;
        Some ([Set_link_type c type], bs) }
      else if instr = 21 \<or> instr = 23 then do {
        (c, bs) \<leftarrow> read_size bs; (type, bs) \<leftarrow> read_int type_int bs; type \<leftarrow> data_type_of type;
        if type = type_Link \<or> type = type_LinkList then None
        else do {
          (name, bs) \<leftarrow> read_string bs;
          if instr = 23 \<and> type = type_Mixed then None
          else Some ([Insert_column c type name (instr = 23)], bs) } }
      else if instr = 22 then do {
        (c, bs) \<leftarrow> read_size bs; (type, bs) \<leftarrow> read_int type_int bs; type \<leftarrow> data_type_of type;
        if type \<noteq> type_Link \<and> type \<noteq> type_LinkList then None
        else do {
          (t, bs) \<leftarrow> read_size bs; (b, bs) \<leftarrow> read_size bs; (name, bs) \<leftarrow> read_string bs;
          Some ([Insert_link_column c type name t b], bs) } }
      else if instr = 24 then call_1 Erase_column bs
      else if instr = 25 then call_3 Erase_link_column bs
      else if instr = 26 then do {
        (c, bs) \<leftarrow> read_size bs; (name, bs) \<leftarrow> read_string bs; Some ([Rename_column c name], bs) }
      else None)"

definition parse_select_descriptor :: "bytes \<Rightarrow> parsed" where
  "parse_select_descriptor bs = do {
     (levels, bs) \<leftarrow> read_int type_int bs;
     if levels < 0 \<or> levels > max_levels then None
     else do { (path, bs) \<leftarrow> read_sizes (nat levels) bs; Some ([Select_descriptor path], bs) } }"

definition parse_group :: "nat \<Rightarrow> bytes \<Rightarrow> parsed" where
  "parse_group instr bs =
     (if instr = 1 then do {
        (t, bs) \<leftarrow> read_size bs; (n, bs) \<leftarrow> read_size bs; (name, bs) \<leftarrow> read_string bs;
        Some ([Insert_group_level_table t n name], bs) }
      else if instr = 2 then call_2 Erase_group_level_table bs
      else if instr = 3 then do {
        (t, bs) \<leftarrow> read_size bs; (name, bs) \<leftarrow> read_string bs; Some ([Rename_group_level_table t name], bs) }
      else None)"

definition parse_one :: "bytes \<Rightarrow> parsed" where
  "parse_one bs = do {
     (instr, bs) \<leftarrow> read_char bs;
     if instr \<in> {6, 7, 8} then parse_set instr bs
     else if instr \<in> {9, 10, 11, 12} then parse_cell instr bs
     else if instr \<in> {13, 40, 14, 15, 16, 17, 5, 18} then parse_rows instr bs
     else if instr \<in> {32, 39, 33, 34, 35, 36, 37, 38, 31} then parse_list instr bs
     else if instr \<in> {27, 28, 29, 30, 21, 23, 22, 24, 25, 26} then parse_column instr bs
     else if instr = 20 then parse_select_descriptor bs
     else if instr \<in> {1, 2, 3, 4} then parse_group instr bs
     else if instr = 19 then Some ([Optimize_table], bs)
     else None }"

end
