(* ===== verification/Log_Roundtrip.thy ===== *)
theory Log_Roundtrip
  imports Log_Parsing
begin

section \<open>The log that is read is the log that was written\<close>

subsection \<open>Every instruction is shorter than the log\<close>

definition shrinks :: "nat \<Rightarrow> ('a \<times> bytes) option \<Rightarrow> bool" where
  "shrinks n r \<longleftrightarrow> (\<forall>x bs. r = Some (x, bs) \<longrightarrow> length bs \<le> n)"

named_theorems shrink

lemma shrinks_Some [shrink]: "length bs \<le> n \<Longrightarrow> shrinks n (Some (x, bs))" and shrinks_None [shrink]: "shrinks n None"
  by (simp_all add: shrinks_def)

lemma shrinks_bind [shrink]:
  "shrinks n r \<Longrightarrow> (\<And>x bs. length bs \<le> n \<Longrightarrow> shrinks n (f x bs)) \<Longrightarrow> shrinks n (r \<bind> (\<lambda>(x, bs). f x bs))"
  by (cases r) (auto simp: shrinks_def)

lemma shrinks_bind_type [shrink]:
  "(\<And>x. shrinks n (f x)) \<Longrightarrow> shrinks n (data_type_of t \<bind> f)"
  "(\<And>x. shrinks n (g x)) \<Longrightarrow> shrinks n (link_type_of t \<bind> g)"
  by (cases "data_type_of t"; cases "link_type_of t"; auto simp: shrinks_def)+

lemma shrinks_if [shrink]: "(b \<Longrightarrow> shrinks n r) \<Longrightarrow> (\<not> b \<Longrightarrow> shrinks n r') \<Longrightarrow> shrinks n (if b then r else r')"
  by simp

lemma read_loop_shrinks: "length bs \<le> n \<Longrightarrow> read_loop T i v part bs = Some (v', part', bs') \<Longrightarrow> length bs' \<le> n"
proof (induction bs arbitrary: i v part)
  case Nil
  then show ?case by (subst (asm) read_loop.simps) (auto split: if_splits)
next
  case (Cons b bs)
  then show ?case by (subst (asm) (2) read_loop.simps) (auto simp: Let_def split: if_splits)
qed

lemma shrinks_read_int [shrink]: "length bs \<le> n \<Longrightarrow> shrinks n (read_int T bs)"
  by (auto simp: shrinks_def read_int_def Let_def split: Option.bind_splits if_splits dest: read_loop_shrinks)

lemma shrinks_read_size [shrink]: "length bs \<le> n \<Longrightarrow> shrinks n (read_size bs)"
  unfolding read_size_def by (intro shrink)

lemma shrinks_read_bytes [shrink]: "length bs \<le> n \<Longrightarrow> shrinks n (read_bytes k bs)"
  by (auto simp: shrinks_def read_bytes_def)

lemmas readers = read_bool_def read_float_def read_double_def read_string_def read_binary_def read_timestamp_def
  call_1_def call_2_def call_3_def

lemma shrinks_readers [shrink]:
  "length bs \<le> n \<Longrightarrow> shrinks n (read_bool bs)" "length bs \<le> n \<Longrightarrow> shrinks n (read_float bs)"
  "length bs \<le> n \<Longrightarrow> shrinks n (read_double bs)" "length bs \<le> n \<Longrightarrow> shrinks n (read_string bs)"
  "length bs \<le> n \<Longrightarrow> shrinks n (read_binary bs)" "length bs \<le> n \<Longrightarrow> shrinks n (read_timestamp bs)"
  "length bs \<le> n \<Longrightarrow> shrinks n (call_1 f bs)" "length bs \<le> n \<Longrightarrow> shrinks n (call_2 f2 bs)"
  "length bs \<le> n \<Longrightarrow> shrinks n (call_3 f3 bs)"
  unfolding readers by (intro shrink; assumption?)+

lemma shrinks_read_mixed [shrink]: "length bs \<le> n \<Longrightarrow> shrinks n (read_mixed bs)"
  unfolding read_mixed_def
  by (auto split: data_type.split prod.splits intro!: shrink)

lemma shrinks_read_path [shrink]: "length bs \<le> n \<Longrightarrow> shrinks n (read_path k bs)"
  by (induction k arbitrary: bs) (auto intro!: shrink)

lemma shrinks_read_sizes [shrink]: "length bs \<le> n \<Longrightarrow> shrinks n (read_sizes k bs)"
  by (induction k arbitrary: bs) (auto intro!: shrink)

lemma shrinks_parse_value [shrink]: "length bs \<le> n \<Longrightarrow> shrinks n (parse_value type c r k p bs)"
  by (cases type) (auto simp: parse_value_def Let_def intro!: shrink)

lemma shrinks_parse_set: "length bs \<le> n \<Longrightarrow> shrinks n (parse_set instr bs)"
  unfolding parse_set_def by (auto intro!: shrink)

lemma shrinks_parse_cell: "length bs \<le> n \<Longrightarrow> shrinks n (parse_cell instr bs)"
  unfolding parse_cell_def by (auto intro!: shrink)

lemma shrinks_parse_rows: "length bs \<le> n \<Longrightarrow> shrinks n (parse_rows instr bs)"
  unfolding parse_rows_def parse_select_table_def by (auto intro!: shrink)

lemma shrinks_parse_list: "length bs \<le> n \<Longrightarrow> shrinks n (parse_list instr bs)"
  unfolding parse_list_def by (auto intro!: shrink)

lemma shrinks_parse_column: "length bs \<le> n \<Longrightarrow> shrinks n (parse_column instr bs)"
  unfolding parse_column_def by (auto intro!: shrink)

lemma shrinks_parse_group: "length bs \<le> n \<Longrightarrow> shrinks n (parse_group instr bs)"
  unfolding parse_group_def by (auto intro!: shrink)

lemma shrinks_parse_select_descriptor: "length bs \<le> n \<Longrightarrow> shrinks n (parse_select_descriptor bs)"
  unfolding parse_select_descriptor_def by (auto intro!: shrink)

lemmas shrinks_groups = shrinks_parse_set shrinks_parse_cell shrinks_parse_rows shrinks_parse_list shrinks_parse_column
  shrinks_parse_group shrinks_parse_select_descriptor

lemma parse_one_shrinks: "parse_one bs = Some (cs, bs') \<Longrightarrow> length bs' < length bs"
proof (cases bs)
  case (Cons b bs0)
  have "shrinks (length bs0) (parse_one (b # bs0))"
    unfolding parse_one_def read_char_def by (auto intro!: shrink shrinks_groups)
  then show "length bs' < length bs" if "parse_one bs = Some (cs, bs')" using that Cons by (auto simp: shrinks_def)
qed (simp add: parse_one_def read_char_def)

text \<open>The loop of \<open>parse\<close>.\<close>

function parse :: "bytes \<Rightarrow> log_call list option" where
  "parse bs = (if bs = [] then Some [] else
     case parse_one bs of None \<Rightarrow> None | Some (cs, bs') \<Rightarrow> map_option ((@) cs) (parse bs'))"
  by pat_completeness auto
termination by (relation "measure length") (auto dest: parse_one_shrinks)

declare parse.simps [simp del]

subsection \<open>The calls that can be written\<close>

definition is_size :: "size_t \<Rightarrow> bool" where
  "is_size n \<longleftrightarrow> n < 2 ^ 64"

definition is_string :: "bytes \<Rightarrow> bool" where
  "is_string s \<longleftrightarrow> length s \<le> max_string_size"

definition not_unique :: "set_kind \<Rightarrow> bool" where
  "not_unique k \<longleftrightarrow> k = InstrSet \<or> k = InstrSetDefault"

fun mixed_ok :: "mixed \<Rightarrow> bool" where
  "mixed_ok (Mixed_int v) \<longleftrightarrow> fits_type type_int64 v"
| "mixed_ok (Mixed_bool b) \<longleftrightarrow> True"
| "mixed_ok (Mixed_float bs) \<longleftrightarrow> length bs = 4"
| "mixed_ok (Mixed_double bs) \<longleftrightarrow> length bs = 8"
| "mixed_ok (Mixed_olddatetime v) \<longleftrightarrow> fits_type type_int64 v"
| "mixed_ok (Mixed_timestamp s n) \<longleftrightarrow> fits_type type_int64 s \<and> fits_type type_int n"
| "mixed_ok (Mixed_string s) \<longleftrightarrow> is_string s"
| "mixed_ok (Mixed_binary s) \<longleftrightarrow> is_size (length s)"
| "mixed_ok Mixed_table \<longleftrightarrow> True"

fun call_ok :: "log_call \<Rightarrow> bool" where
  "call_ok (Select_table t path) \<longleftrightarrow> is_size t \<and> length path \<le> 1024 \<and> (\<forall>(c, r)\<in>set path. is_size c \<and> is_size r)"
| "call_ok (Select_descriptor path) \<longleftrightarrow> length path \<le> 1024 \<and> (\<forall>c\<in>set path. is_size c)"
| "call_ok (Select_link_list c r t) \<longleftrightarrow> is_size c \<and> is_size r \<and> is_size t"
| "call_ok (Insert_group_level_table t n s) \<longleftrightarrow> is_size t \<and> is_size n \<and> is_string s"
| "call_ok (Erase_group_level_table t n) \<longleftrightarrow> is_size t \<and> is_size n"
| "call_ok (Rename_group_level_table t s) \<longleftrightarrow> is_size t \<and> is_string s"
| "call_ok (Insert_empty_rows r n p u) \<longleftrightarrow> is_size r \<and> is_size n \<and> is_size p"
| "call_ok (Add_row_with_key r p c v) \<longleftrightarrow> is_size r \<and> is_size p \<and> is_size c \<and> fits_type type_int64 v"
| "call_ok (Erase_rows r n p u) \<longleftrightarrow> is_size r \<and> is_size n \<and> is_size p"
| "call_ok (Swap_rows a b) \<longleftrightarrow> is_size a \<and> is_size b"
| "call_ok (Move_row a b) \<longleftrightarrow> is_size a \<and> is_size b"
| "call_ok (Merge_rows a b) \<longleftrightarrow> is_size a \<and> is_size b"
| "call_ok (Clear_table n) \<longleftrightarrow> is_size n"
| "call_ok (Set_int c r v k p) \<longleftrightarrow> is_size c \<and> is_size r \<and> is_size p \<and> fits_type type_int64 v"
| "call_ok (Add_int c r v) \<longleftrightarrow> is_size c \<and> is_size r \<and> fits_type type_int64 v"
| "call_ok (Set_bool c r b k) \<longleftrightarrow> is_size c \<and> is_size r \<and> not_unique k"
| "call_ok (Set_float c r bs k) \<longleftrightarrow> is_size c \<and> is_size r \<and> length bs = 4 \<and> not_unique k"
| "call_ok (Set_double c r bs k) \<longleftrightarrow> is_size c \<and> is_size r \<and> length bs = 8 \<and> not_unique k"
| "call_ok (Set_string c r v k p) \<longleftrightarrow> is_size c \<and> is_size r \<and> is_size p \<and> pred_option is_string v"
| "call_ok (Set_binary c r v k) \<longleftrightarrow> is_size c \<and> is_size r \<and> pred_option (\<lambda>s. is_size (length s)) v \<and> not_unique k"
| "call_ok (Set_olddatetime c r v k) \<longleftrightarrow> is_size c \<and> is_size r \<and> fits_type type_int64 v \<and> not_unique k"
| "call_ok (Set_timestamp c r s n k) \<longleftrightarrow> is_size c \<and> is_size r \<and> fits_type type_int64 s \<and> fits_type type_int n \<and> not_unique k"
| "call_ok (Set_table c r k) \<longleftrightarrow> is_size c \<and> is_size r \<and> not_unique k"
| "call_ok (Set_mixed c r m k) \<longleftrightarrow> is_size c \<and> is_size r \<and> mixed_ok m \<and> not_unique k"
| "call_ok (Set_link c r v t k) \<longleftrightarrow> is_size c \<and> is_size r \<and> is_size v \<and> is_size t \<and> not_unique k"
| "call_ok (Set_null c r k p) \<longleftrightarrow> is_size c \<and> is_size r \<and> is_size p"
| "call_ok (Nullify_link c r t) \<longleftrightarrow> is_size c \<and> is_size r \<and> is_size t"
| "call_ok (Insert_substring c r p s) \<longleftrightarrow> is_size c \<and> is_size r \<and> is_size p \<and> is_string s"
| "call_ok (Erase_substring c r p n) \<longleftrightarrow> is_size c \<and> is_size r \<and> is_size p \<and> is_size n"
| "call_ok Optimize_table \<longleftrightarrow> True"
| "call_ok (Insert_link_column c type s t b) \<longleftrightarrow> is_size c \<and> is_size t \<and> is_size b \<and> is_string s \<and> (type = type_Link \<or> type = type_LinkList)"
| "call_ok (Insert_column c type s nullable) \<longleftrightarrow> is_size c \<and> is_string s \<and> type \<noteq> type_Link \<and> type \<noteq> type_LinkList \<and> \<not> (nullable \<and> type = type_Mixed)"
| "call_ok (Erase_link_column c t b) \<longleftrightarrow> is_size c \<and> is_size t \<and> is_size b"
| "call_ok (Erase_column c) \<longleftrightarrow> is_size c"
| "call_ok (Rename_column c s) \<longleftrightarrow> is_size c \<and> is_string s"
| "call_ok (Add_search_index c) \<longleftrightarrow> is_size c"
| "call_ok (Remove_search_index c) \<longleftrightarrow> is_size c"
| "call_ok (Set_link_type c type) \<longleftrightarrow> is_size c"
| "call_ok (Link_list_set i v n) \<longleftrightarrow> is_size i \<and> is_size v \<and> is_size n"
| "call_ok (Link_list_set_all vs) \<longleftrightarrow> is_size (length vs) \<and> (\<forall>v\<in>set vs. 0 \<le> v \<and> fits_type type_int64 v)"
| "call_ok (Link_list_insert i v n) \<longleftrightarrow> is_size i \<and> is_size v \<and> is_size n"
| "call_ok (Link_list_move a b) \<longleftrightarrow> is_size a \<and> is_size b \<and> a \<noteq> b"
| "call_ok (Link_list_swap a b) \<longleftrightarrow> is_size a \<and> is_size b"
| "call_ok (Link_list_erase i n) \<longleftrightarrow> is_size i \<and> is_size n"
| "call_ok (Link_list_nullify i n) \<longleftrightarrow> is_size i \<and> is_size n"
| "call_ok (Link_list_clear n) \<longleftrightarrow> is_size n"

text \<open>
  What is read of a call. The number of rows is written for \<open>instr_SetUnique\<close> only; a null string or binary
  becomes \<open>set_null\<close>; \<open>link_list_set_all\<close> becomes a call for every entry; and a \<open>double\<close> loses its variant.
\<close>

definition prior_read :: "set_kind \<Rightarrow> size_t \<Rightarrow> size_t" where
  "prior_read k prior = (if k = InstrSetUnique then prior else 0)"

fun decoded :: "log_call \<Rightarrow> log_call list" where
  "decoded (Set_int c r v k p) = [Set_int c r v k (prior_read k p)]"
| "decoded (Set_double c r v k) = [Set_double c r v InstrSet]"
| "decoded (Set_string c r (Some v) k p) = [Set_string c r (Some v) k (prior_read k p)]"
| "decoded (Set_string c r None k p) = [Set_null c r k (prior_read k p)]"
| "decoded (Set_binary c r None k) = [Set_null c r k 0]"
| "decoded (Set_null c r k p) = [Set_null c r k (prior_read k p)]"
| "decoded (Link_list_set_all vs) = map (\<lambda>(i, v). Link_list_set i (nat v) (length vs)) (enumerate 0 vs)"
| "decoded c = [c]"

subsection \<open>Reading the items\<close>

lemma fits_size: "is_size n \<Longrightarrow> fits_type type_size (int n)"
  by (simp add: is_size_def fits_type_def type_size_def int_min_def int_max_def)

lemma read_size_item [simp]: "is_size n \<Longrightarrow> read_size (encode_item (ISize n) @ bs) = Some (n, bs)"
  by (simp add: read_size_def ISize_def fits_size)

lemma read_num_item [simp]: "fits_type T v \<Longrightarrow> read_int T (encode_item (INum T v) @ bs) = Some (v, bs)"
  by simp

lemma read_code [simp]: "c < 64 \<Longrightarrow> 6 \<le> digits T \<Longrightarrow> read_int T (c # bs) = Some (int c, bs)"
proof -
  assume c: "c < 64" "6 \<le> digits T"
  have "int c < 2 ^ 6" using c by simp
  also have "\<dots> \<le> 2 ^ digits T" using c by (intro power_increasing) auto
  finally have f: "fits_type T (int c)" by (auto simp: fits_type_def int_max_def int_min_def intro: order_trans [of _ 0])
  then have "encode_int T (int c) = [c]" using c by (simp add: encode_int_enc sign_and_size_def enc_small)
  then show ?thesis using read_int_same [OF f, of bs] by simp
qed

lemma digits_types [simp]: "digits type_int = 31" "digits type_char = 7" "digits type_int64 = 63" "digits type_size = 64"
  by (simp_all add: type_int_def type_char_def type_int64_def type_size_def)

lemma read_bool_item [simp]: "read_bool (encode_item (IBool b) @ bs) = Some (b, bs)"
  by (simp add: read_bool_def IBool_def)

lemma string_size: "is_string s \<Longrightarrow> is_size (length s)"
  by (simp add: is_string_def is_size_def max_string_size_def)

lemma read_string_item [simp]: "is_string s \<Longrightarrow> read_string (encode_item (IString s) @ bs) = Some (s, bs)"
  using fits_size [OF string_size] by (simp add: read_string_def read_size_def read_bytes_def is_string_def)

lemma read_binary_item [simp]: "is_size (length s) \<Longrightarrow> read_binary (encode_item (IString s) @ bs) = Some (s, bs)"
  using fits_size by (simp add: read_binary_def read_size_def read_bytes_def)

lemma read_float_item [simp]: "length v = 4 \<Longrightarrow> read_float (encode_item (IRaw v) @ bs) = Some (v, bs)"
    and read_double_item [simp]: "length v = 8 \<Longrightarrow> read_double (encode_item (IRaw v) @ bs) = Some (v, bs)"
  by (simp_all add: read_float_def read_double_def read_bytes_def)

lemma fits_int_codes [simp]: "fits_type type_int (link_code type)" "fits_type type_int set_null_sentinel"
  by (cases type; simp add: fits_type_def type_int_def int_min_def int_max_def set_null_sentinel_def)+

lemma data_type_of_code [simp]: "data_type_of (int (type_code t)) = Some t" "type_code t < 64"
  by (cases t; simp add: data_type_of_def)+

declare type_code.simps [simp del] set_code.simps [simp del] set_kind_of.simps [simp del]

lemma link_type_of_code [simp]: "link_type_of (link_code t) = Some t"
  by (cases t) (simp_all add: link_type_of_def)

lemma read_list_item [simp]:
  "\<forall>v\<in>set vs. 0 \<le> v \<and> fits_type type_int64 v \<Longrightarrow> read_sizes (length vs) (encode_item (IList vs) @ bs) = Some (map nat vs, bs)"
proof (induction vs)
  case (Cons v vs)
  then have "read_back type_size v = Some v"
    by (auto simp: read_back_def fits_type_def type_size_def type_int64_def int_min_def int_max_def)
  then show ?case using Cons by (simp add: read_size_def read_int_encode_int [of type_int64])
qed simp

lemma set_code_of [simp]: "set_kind_of (set_code k) = k" "set_code k \<in> {6, 7, 8}"
    "set_code k = 7 \<longleftrightarrow> k = InstrSetUnique"
  by (cases k; simp add: set_code.simps set_kind_of.simps)+

lemma type_code_not_null [simp]: "int (type_code t) \<noteq> set_null_sentinel"
  by (simp add: set_null_sentinel_def)

subsection \<open>Reading the instructions\<close>

lemma concat_items [simp]: "concat (map encode_item (i # is)) @ bs = encode_item i @ concat (map encode_item is) @ bs"
    "concat (map encode_item []) @ bs = bs"
  by simp_all

lemma read_char_item [simp]: "read_char (encode_item (IChar b) @ bs) = Some (b, bs)"
  by (simp add: read_char_def)

lemma read_code_item [simp]: "c < 64 \<Longrightarrow> 6 \<le> digits T \<Longrightarrow> read_int T (encode_item (IChar c) @ bs) = Some (int c, bs)"
  by simp

lemma call_item [simp]:
  "is_size a \<Longrightarrow> call_1 f (encode_item (ISize a) @ bs) = Some ([f a], bs)"
  "is_size a \<Longrightarrow> call_2 f2 (encode_item (ISize a) @ bs) = call_1 (f2 a) bs"
  "is_size a \<Longrightarrow> call_3 f3 (encode_item (ISize a) @ bs) = call_2 (f3 a) bs"
  by (simp_all add: call_1_def call_2_def call_3_def)

lemmas enc_defs =
  enc_insert_group_level_table_def enc_erase_group_level_table_def enc_rename_group_level_table_def enc_insert_column_def
  enc_insert_link_column_def enc_erase_column_def enc_erase_link_column_def enc_rename_column_def enc_set_null_def enc_set_int_def
  enc_add_int_def enc_set_bool_def enc_set_float_def enc_set_double_def enc_set_string_def enc_set_binary_def
  enc_set_olddatetime_def enc_set_timestamp_def enc_set_table_def enc_set_mixed_def enc_set_link_def enc_nullify_link_def
  enc_insert_substring_def enc_erase_substring_def enc_insert_empty_rows_def enc_add_row_with_key_def enc_erase_rows_def
  enc_swap_rows_def enc_move_row_def enc_merge_rows_def enc_add_search_index_def enc_remove_search_index_def
  enc_set_link_type_def enc_clear_table_def enc_optimize_table_def enc_link_list_set_def enc_link_list_nullify_def
  enc_link_list_set_all_def enc_link_list_insert_def enc_link_list_move_def enc_link_list_swap_def enc_link_list_erase_def
  enc_link_list_clear_def

fun selects :: "log_call \<Rightarrow> bool" where
  "selects (Select_table t path) = True"
| "selects (Select_descriptor path) = True"
| "selects (Select_link_list c r t) = True"
| "selects _ = False"

lemma parse_items:
  "parse_one (encode_item (IChar instr) @ bs) =
    (if instr \<in> {6, 7, 8} then parse_set instr bs
     else if instr \<in> {9, 10, 11, 12} then parse_cell instr bs
     else if instr \<in> {13, 40, 14, 15, 16, 17, 5, 18} then parse_rows instr bs
     else if instr \<in> {32, 39, 33, 34, 35, 36, 37, 38, 31} then parse_list instr bs
     else if instr \<in> {27, 28, 29, 30, 21, 23, 22, 24, 25, 26} then parse_column instr bs
     else if instr = 20 then parse_select_descriptor bs
     else if instr \<in> {1, 2, 3, 4} then parse_group instr bs
     else if instr = 19 then Some ([Optimize_table], bs)
     else None)"
  by (simp add: parse_one_def del: encode_item.simps)

lemma parse_set_code: "parse_one (encode_item (IChar (set_code k)) @ bs) = parse_set (set_code k) bs"
  using set_code_of(2) [of k] by (simp add: parse_items del: encode_item.simps)

lemma parse_set_items:
  assumes "is_size c" "is_size r" "is_size prior"
  shows "parse_set (set_code k) (encode_item (IChar (type_code type)) @ encode_item (ISize c) @ encode_item (ISize r)
      @ (if k = InstrSetUnique then encode_item (ISize prior) else []) @ bs)
    = parse_value type c r k (prior_read k prior) bs"
  using assms by (auto simp: parse_set_def prior_read_def simp del: encode_item.simps)

lemma parse_set_null:
  assumes "is_size c" "is_size r" "is_size prior"
  shows "parse_set (set_code k) (encode_item (INum type_int set_null_sentinel) @ encode_item (ISize c) @ encode_item (ISize r)
      @ (if k = InstrSetUnique then encode_item (ISize prior) else []) @ bs)
    = Some ([Set_null c r k (prior_read k prior)], bs)"
  using assms by (auto simp: parse_set_def prior_read_def simp del: encode_item.simps)

lemma read_mixed_items:
  assumes "mixed_ok m"
  shows "\<exists>is. append_mixed_instr instr m ns = [IChar instr] @ ns @ is \<and> read_mixed (concat (map encode_item is) @ bs) = Some (m, bs)"
  using assms by (cases m) (simp_all add: read_mixed_def read_timestamp_def del: encode_item.simps)

text \<open>One lemma for each group of instructions.\<close>

lemmas parsers = parse_items parse_cell_def parse_rows_def parse_list_def parse_column_def parse_group_def

lemma parse_set_call:
  assumes "call_ok c" "encode_args c = Some is" and c: "\<exists>col row prior k. c = Set_null col row k prior
    \<or> (\<exists>v. c = Set_int col row v k prior) \<or> (\<exists>v. c = Set_string col row v k prior)"
  shows "parse_one (concat (map encode_item is) @ bs) = Some (decoded c, bs)"
proof -
  have null: "parse_one (concat (map encode_item is) @ bs) = Some ([Set_null col row k (prior_read k prior)], bs)"
    if "is_size col" "is_size row" "is_size prior" "enc_set_null col row k prior = Some is" for col row k prior
    using parse_set_null [OF that(1,2,3), of k bs] that(4)
    by (cases "k = InstrSetUnique") (auto simp: enc_set_null_def parse_set_code simp del: encode_item.simps)
  have v: "parse_one (concat (map encode_item ([IChar (set_code k), IChar (type_code type), ISize col, ISize row]
      @ (if k = InstrSetUnique then [ISize prior] else []) @ vs)) @ bs)
      = parse_value type col row k (prior_read k prior) (concat (map encode_item vs) @ bs)"
    if "is_size col" "is_size row" "is_size prior" for col row k prior type vs
    using parse_set_items [OF that, of k type "concat (map encode_item vs) @ bs"]
    by (cases "k = InstrSetUnique") (simp_all add: parse_set_code del: encode_item.simps)
  from c show ?thesis
  proof (elim exE disjE)
    fix col row prior k assume "c = Set_null col row k prior"
    then show ?thesis using null [of col row prior k] assms(1,2) by simp
  next
    fix col row prior k i assume "c = Set_int col row i k prior"
    then show ?thesis using v [of col row prior k type_Int "[INum type_int64 i]"] assms(1,2)
      by (cases "k = InstrSetUnique") (auto simp: enc_set_int_def parse_value_def simp del: encode_item.simps)
  next
    fix col row prior k s assume c: "c = Set_string col row s k prior"
    then show ?thesis
    proof (cases s)
      case None
      then show ?thesis using null [of col row prior k] assms(1,2) c by (simp add: enc_set_string_def)
    next
      case (Some b)
      then show ?thesis using v [of col row prior k type_String "[IString b]"] assms(1,2) c
        by (cases "k = InstrSetUnique") (auto simp: enc_set_string_def parse_value_def simp del: encode_item.simps)
    qed
  qed
qed

lemma parse_set_plain:
  assumes "is_size col" "is_size row" "not_unique k"
  shows "parse_one (encode_item (IChar (set_code k)) @ encode_item (IChar (type_code type)) @ encode_item (ISize col)
    @ encode_item (ISize row) @ bs) = parse_value type col row k 0 bs"
proof -
  have k: "k \<noteq> InstrSetUnique" "is_size 0" using assms(3) by (auto simp: not_unique_def is_size_def)
  show ?thesis using parse_set_items [OF assms(1,2) k(2), of k type bs] k(1)
    by (simp add: parse_set_code prior_read_def del: encode_item.simps)
qed

fun set_plain :: "log_call \<Rightarrow> bool" where
  "set_plain (Set_bool c r b k) = True"
| "set_plain (Set_float c r bs k) = True"
| "set_plain (Set_double c r bs k) = True"
| "set_plain (Set_binary c r v k) = True"
| "set_plain (Set_olddatetime c r v k) = True"
| "set_plain (Set_timestamp c r s n k) = True"
| "set_plain (Set_table c r k) = True"
| "set_plain (Set_mixed c r m k) = True"
| "set_plain (Set_link c r v t k) = True"
| "set_plain _ = False"

lemma not_unique_set [simp]: "not_unique InstrSet"
  by (simp add: not_unique_def)

lemma link_wrap: "is_size v \<Longrightarrow> is_size ((1 + v) mod 2 ^ 64) \<and> ((1 + v) mod 2 ^ 64 + 2 ^ 64 - 1) mod 2 ^ 64 = v"
  by (cases "v = 2 ^ 64 - 1") (auto simp: is_size_def)

lemma parse_plain_call:
  assumes "call_ok c" "encode_args c = Some is" "set_plain c"
  shows "parse_one (concat (map encode_item is) @ bs) = Some (decoded c, bs)"
  using assms
proof (cases c)
  case (Set_binary c r v k)
  show ?thesis
  proof (cases v)
    case None
    have 0: "is_size 0" by (simp add: is_size_def)
    show ?thesis using parse_set_null [of c r 0 k bs] None assms Set_binary 0
      by (auto simp: enc_set_binary_def enc_set_null_def parse_set_code prior_read_def not_unique_def realm_assert_def
          simp del: encode_item.simps split: if_splits)
  next
    case (Some s)
    then show ?thesis using assms Set_binary
      by (auto simp: enc_set_binary_def parse_set_plain parse_value_def realm_assert_def simp del: encode_item.simps split: if_splits)
  qed
next
  case (Set_mixed c r m k)
  then have ok: "mixed_ok m" "is_size c" "is_size r" "not_unique k" using assms by simp_all
  obtain vs where vs: "append_mixed_instr (set_code k) m [IChar (type_code type_Mixed), ISize c, ISize r]
      = [IChar (set_code k)] @ [IChar (type_code type_Mixed), ISize c, ISize r] @ vs"
      "read_mixed (concat (map encode_item vs) @ bs) = Some (m, bs)"
    using read_mixed_items [OF ok(1)] by metis
  then have "is = [IChar (set_code k), IChar (type_code type_Mixed), ISize c, ISize r] @ vs"
    using assms(2) Set_mixed by (auto simp: enc_set_mixed_def realm_assert_def split: if_splits)
  then show ?thesis using vs(2) ok Set_mixed by (simp add: parse_set_plain parse_value_def del: encode_item.simps)
next
  case (Set_link c r v t k)
  then show ?thesis using assms link_wrap [of v]
    by (auto simp: enc_set_link_def parse_set_plain parse_value_def realm_assert_def Let_def simp del: encode_item.simps split: if_splits)
qed (auto simp: enc_defs parse_set_plain parse_value_def realm_assert_def simp del: encode_item.simps split: if_splits)

lemma enumerate_map: "map (\<lambda>(i, v). f i v) (enumerate n (map g vs)) = map (\<lambda>(i, v). f i (g v)) (enumerate n vs)"
  by (induction vs arbitrary: n) auto

lemma parse_other_call:
  assumes "call_ok c" "encode_args c = Some is" "\<not> set_plain c"
    and "\<And>col row v k prior. c \<noteq> Set_null col row k prior \<and> c \<noteq> Set_int col row v k prior"
    and "\<And>col row s k prior. c \<noteq> Set_string col row s k prior"
  shows "parse_one (concat (map encode_item is) @ bs) = Some (decoded c, bs)"
  using assms(1-3)
proof (cases c)
  case (Set_int c r v k p)
  then show ?thesis using assms(4) by blast
next
  case (Set_string c r s k p)
  then show ?thesis using assms(5) by blast
next
  case (Set_null c r k p)
  then show ?thesis using assms(4) by blast
qed (auto simp: enc_defs parsers realm_assert_def enumerate_map simp del: encode_item.simps split: if_splits)

lemma encode_args_total: "call_ok c \<Longrightarrow> \<not> selects c \<Longrightarrow> \<exists>is. encode_args c = Some is"
  by (cases c) (auto simp: enc_defs not_unique_def realm_assert_def split: option.splits)

lemma parse_args:
  assumes "call_ok c" "encode_args c = Some is"
  shows "parse_one (concat (map encode_item is) @ bs) = Some (decoded c, bs)"
proof (cases "set_plain c")
  case True
  then show ?thesis using parse_plain_call assms by blast
next
  case False
  then show ?thesis using parse_set_call [OF assms] parse_other_call [OF assms False] by blast
qed

text \<open>
  What the handlers rely on of the encoders that select: the parser reads back what they write. They are those
  of the library, so that this is a hypothesis.
\<close>

definition selects_parsed :: "select_encoders \<Rightarrow> bool" where
  "selects_parsed sel \<longleftrightarrow> (\<forall>t path path' c r bs.
     (call_ok (Select_table t path) \<longrightarrow> parse_one (enc_select_table sel t path @ bs) = Some ([Select_table t path], bs))
     \<and> (call_ok (Select_descriptor path') \<longrightarrow> parse_one (enc_select_descriptor sel path' @ bs) = Some ([Select_descriptor path'], bs))
     \<and> (call_ok (Select_link_list c r t) \<longrightarrow> parse_one (enc_select_link_list sel c r t @ bs) = Some ([Select_link_list c r t], bs)))"

lemma parse_call:
  assumes "selects_parsed sel" "call_ok c"
  shows "\<exists>b. encode_call sel c = Some b \<and> (\<forall>bs. parse_one (b @ bs) = Some (decoded c, bs))"
proof (cases "selects c")
  case True
  then show ?thesis using assms by (cases c) (simp_all add: selects_parsed_def)
next
  case False
  then obtain "is" where i: "encode_args c = Some is" using encode_args_total assms(2) by blast
  have "encode_call sel c = Some (concat (map encode_item is))" using False i by (cases c) auto
  then show ?thesis using parse_args [OF assms(2) i] by blast
qed

lemma parse_log:
  assumes "selects_parsed sel" "\<forall>c\<in>set cs. call_ok c"
  shows "\<exists>bs. encode_log sel cs = Some bs \<and> parse bs = Some (concat (map decoded cs))"
  using assms(2)
proof (induction cs)
  case Nil
  then show ?case by (simp add: parse.simps)
next
  case (Cons c cs)
  then obtain bs where bs: "encode_log sel cs = Some bs" "parse bs = Some (concat (map decoded cs))" by auto
  from parse_call [OF assms(1), of c] Cons.prems obtain b where
    b: "encode_call sel c = Some b" "\<And>bs. parse_one (b @ bs) = Some (decoded c, bs)" by auto
  have "b \<noteq> []" using b(2) [of "[]"] by (auto simp: parse_one_def read_char_def)
  then have "parse (b @ bs) = Some (decoded c @ concat (map decoded cs))" using b(2) bs(2) by (subst parse.simps) simp
  then show ?case using b(1) bs(1) by simp
qed

subsection \<open>The space that is reserved\<close>

lemma encode_int_length: "fits_type T v \<Longrightarrow> digits T \<le> 64 \<Longrightarrow> length (encode_int T v) \<le> max_enc_bytes_per_num"
proof -
  assume f: "fits_type T v" "digits T \<le> 64"
  obtain s w where sw: "sign_and_size v = (s, w)" by fastforce
  then have "int w < 2 ^ digits T" using f by (auto simp: sign_and_size_def fits_type_def int_max_def int_min_def split: if_splits)
  also have "\<dots> \<le> 2 ^ 69" using f(2) by (intro power_increasing) auto
  finally have "w < 2 ^ (7 * 9 + 6)" by simp
  from enc_length_bound [OF this, of s] show ?thesis using f(1) sw by (simp add: encode_int_enc max_enc_bytes_per_num_def)
qed

fun item_ok :: "item \<Rightarrow> bool" where
  "item_ok (INum T v) \<longleftrightarrow> fits_type T v \<and> digits T \<le> 64"
| "item_ok (IChar b) \<longleftrightarrow> True"
| "item_ok (IRaw bs) \<longleftrightarrow> length bs \<le> 8"
| "item_ok (IString s) \<longleftrightarrow> is_size (length s)"
| "item_ok (IList vs) \<longleftrightarrow> (\<forall>v\<in>set vs. fits_type type_int64 v)"

lemma item_length:
  "item_ok i \<Longrightarrow> (\<And>vs. i \<noteq> IList vs) \<Longrightarrow> length (encode_item i) \<le> max_item_size dbg i"
  using encode_int_length fits_size by (cases i) (auto simp: max_enc_bytes_per_num_def)

lemma list_length:
  assumes "\<forall>v\<in>set vs. fits_type type_int64 v"
  shows "length (concat (map (encode_int type_int64) vs)) \<le> max_enc_bytes_per_num * length vs"
  using assms
proof (induction vs)
  case (Cons v vs)
  then have "length (encode_int type_int64 v) \<le> max_enc_bytes_per_num" by (intro encode_int_length) auto
  then show ?case using Cons by simp
qed simp

definition grows :: "(writer \<Rightarrow> nat \<Rightarrow> nat) \<Rightarrow> bool" where
  "grows grow \<longleftrightarrow> (\<forall>w n. n \<le> grow w n)"

lemma reserve_space: "grows grow \<Longrightarrow> n \<le> space (reserve grow n w) \<and> written (reserve grow n w) = written w"
  by (auto simp: reserve_def grows_def)

lemma write_bytes_succeeds:
  "length bs \<le> space w \<Longrightarrow> succeeds (write_bytes bs w) (\<lambda>w'. written w' = written w @ bs \<and> space w' = space w - length bs)"
  by (simp add: write_bytes_def)

lemma write_list_succeeds:
  assumes "grows grow" "\<forall>v\<in>set vs. fits_type type_int64 v" "max_enc_bytes_per_num * max_numbers_per_chunk dbg \<le> space w"
  shows "succeeds (write_list dbg grow vs w) (\<lambda>w'. written w' = written w @ concat (map (encode_int type_int64) vs))"
  using assms(2,3)
proof (induction "length vs" arbitrary: vs w rule: less_induct)
  case less
  let ?n = "max_numbers_per_chunk dbg"
  have n: "0 < ?n" by (simp add: max_numbers_per_chunk_def)
  show ?case
  proof (cases "length vs > ?n")
    case False
    have "length (concat (map (encode_int type_int64) vs)) \<le> max_enc_bytes_per_num * ?n"
      using list_length [OF less.prems(1)] False by (meson le_trans mult_le_mono2 not_less)
    then show ?thesis using write_bytes_succeeds [of "concat (map (encode_int type_int64) vs)" w] less.prems(2) False
      by (subst write_list.simps) (auto simp: Let_def elim!: succeeds_mono)
  next
    case True
    have t: "\<forall>v\<in>set (take ?n vs). fits_type type_int64 v" "\<forall>v\<in>set (drop ?n vs). fits_type type_int64 v"
      using less.prems(1) by (auto dest: in_set_takeD in_set_dropD)
    have "length (concat (map (encode_int type_int64) (take ?n vs))) \<le> space w"
      using list_length [OF t(1)] less.prems(2) True by simp
    from write_bytes_succeeds [OF this] obtain w' where
      w': "write_bytes (concat (map (encode_int type_int64) (take ?n vs))) w = Some w'"
        "written w' = written w @ concat (map (encode_int type_int64) (take ?n vs))" by (auto elim: succeedsE)
    let ?w = "reserve grow (max_enc_bytes_per_num * ?n) w'"
    have "succeeds (write_list dbg grow (drop ?n vs) ?w)
        (\<lambda>w''. written w'' = written ?w @ concat (map (encode_int type_int64) (drop ?n vs)))"
      using less.hyps [of "drop ?n vs" ?w] t(2) True n reserve_space [OF assms(1)] by simp
    moreover have "concat (map (encode_int type_int64) vs) = concat (map (encode_int type_int64) (take ?n vs))
        @ concat (map (encode_int type_int64) (drop ?n vs))"
      by (simp add: concat_append [symmetric] map_append [symmetric] del: concat_append map_append)
    moreover have "write_list dbg grow vs w = write_list dbg grow (drop ?n vs) ?w"
      using True w'(1) by (subst write_list.simps) (simp add: Let_def)
    ultimately show ?thesis using w'(2) reserve_space [OF assms(1)] by simp
  qed
qed

text \<open>The list, when there is one, is the last of the items.\<close>

lemma write_items_succeeds:
  assumes "grows grow" "\<forall>i\<in>set is. item_ok i" "\<forall>i\<in>set (butlast is). \<forall>vs. i \<noteq> IList vs"
    "sum_list (map (max_item_size dbg) is) \<le> space w"
  shows "succeeds (fold_opt (write_item dbg grow) is w) (\<lambda>w'. written w' = written w @ concat (map encode_item is))"
  using assms(2-)
proof (induction "is" arbitrary: w)
  case (Cons i "is")
  show ?case
  proof (cases "\<exists>vs. i = IList vs")
    case True
    then obtain vs where vs: "i = IList vs" by blast
    then have "is = []" using Cons.prems(2) by (cases "is") auto
    then show ?thesis using write_list_succeeds [OF assms(1), of vs dbg w] Cons.prems(1,3) vs
      by (auto elim!: succeeds_mono)
  next
    case False
    then have l: "length (encode_item i) \<le> max_item_size dbg i" using item_length Cons.prems(1) by auto
    have "write_item dbg grow i w = write_bytes (encode_item i) w" using False by (cases i) auto
    then obtain w' where w': "write_item dbg grow i w = Some w'" "written w' = written w @ encode_item i"
        "space w' = space w - length (encode_item i)"
      using write_bytes_succeeds [of "encode_item i" w] l Cons.prems(3) by (auto elim: succeedsE)
    have "succeeds (fold_opt (write_item dbg grow) is w') (\<lambda>w''. written w'' = written w' @ concat (map encode_item is))"
      using Cons.IH [of w'] Cons.prems l w'(3) by (auto split: if_splits)
    then show ?thesis using w'(1,2) by simp
  qed
qed simp

end
