(* ===== verification/Log_Reverse.thy ===== *)
theory Log_Reverse
  imports Log_Encoding Change_Sets
begin

section \<open>Reversing the transaction log\<close>

text \<open>
  \<open>TransactReverser\<close> and \<open>ReversedNoCopyInputStream\<close> of \<open>core/realm/impl/transact_log.hpp\<close>: the log of a
  transaction that is rolled back is read, every call writes the instructions that take it back, and the
  instructions are read in the reverse order. An instruction is a range of the buffer: here it is the call that
  the range encodes, and a pending selection with an empty range is \<open>None\<close>.
\<close>

record reverser =
  instructions :: "log_call list"
  pending_ts :: "log_call option"
  pending_ds :: "log_call option"
  pending_lv :: "log_call option"

definition reverser_new :: reverser where
  "reverser_new = \<lparr>instructions = [], pending_ts = None, pending_ds = None, pending_lv = None\<rparr>"

definition append_instruction :: "log_call \<Rightarrow> reverser \<Rightarrow> reverser" where
  "append_instruction c r = r\<lparr>instructions := instructions r @ [c]\<rparr>"

definition sync_select :: "log_call option \<Rightarrow> reverser \<Rightarrow> reverser" where
  "sync_select pending r = (case pending of None \<Rightarrow> r | Some c \<Rightarrow> append_instruction c r)"

definition sync_linkview :: "reverser \<Rightarrow> reverser" where
  "sync_linkview r = (sync_select (pending_lv r) r)\<lparr>pending_lv := None\<rparr>"

definition sync_descriptor :: "reverser \<Rightarrow> reverser" where
  "sync_descriptor r = (let r = sync_linkview r in (sync_select (pending_ds r) r)\<lparr>pending_ds := None\<rparr>)"

definition sync_table :: "reverser \<Rightarrow> reverser" where
  "sync_table r = (let r = sync_descriptor r in (sync_select (pending_ts r) r)\<lparr>pending_ts := None\<rparr>)"

subsection \<open>The instructions that take a call back\<close>

fun inverse_group :: "log_call \<Rightarrow> log_call list" where
  "inverse_group (Insert_group_level_table t n name) = [Erase_group_level_table t (n + 1)]"
| "inverse_group (Erase_group_level_table t n) = [Insert_group_level_table t (n - 1) []]"
| "inverse_group _ = []"

fun inverse_rows :: "log_call \<Rightarrow> log_call list" where
  "inverse_rows (Insert_empty_rows r n prior unordered) = [Erase_rows r n (prior + n) unordered]"
| "inverse_rows (Add_row_with_key r prior c key) = [Erase_rows r 1 (prior + 1) True]"
| "inverse_rows (Erase_rows r n prior unordered) = [Insert_empty_rows r n (prior - n) unordered]"
| "inverse_rows (Swap_rows a b) = [Swap_rows a b]"
| "inverse_rows (Move_row from to) = [Move_row to from]"
| "inverse_rows (Merge_rows a b) = [Merge_rows a a, Merge_rows b b]"
| "inverse_rows (Clear_table n) = [Insert_empty_rows 0 n 0 False]"
| "inverse_rows _ = []"

fun inverse_value :: "log_call \<Rightarrow> log_call list" where
  "inverse_value (Set_int c r v k p) = [Set_int c r v k p]"
| "inverse_value (Add_int c r v) = [Add_int c r (- v)]"
| "inverse_value (Set_bool c r v k) = [Set_bool c r v k]"
| "inverse_value (Set_float c r v k) = [Set_float c r v k]"
| "inverse_value (Set_double c r v k) = [Set_double c r v k]"
| "inverse_value (Set_string c r v k p) = [Set_string c r v k p]"
| "inverse_value (Set_binary c r v k) = [Set_binary c r v k]"
| "inverse_value (Set_olddatetime c r v k) = [Set_olddatetime c r v k]"
| "inverse_value (Set_timestamp c r s n k) = [Set_timestamp c r s n k]"
| "inverse_value (Set_table c r k) = [Set_table c r k]"
| "inverse_value (Set_mixed c r v k) = [Set_mixed c r v k]"
| "inverse_value (Set_null c r k p) = [Set_null c r k p]"
| "inverse_value (Set_link c r v t k) = [Set_link c r v t k]"
| "inverse_value (Nullify_link c r t) = [Set_link c r 0 t InstrSet]"
| "inverse_value _ = []"

fun inverse_column :: "log_call \<Rightarrow> log_call list" where
  "inverse_column (Insert_link_column c type name t b) = [Erase_link_column c t b]"
| "inverse_column (Erase_link_column c t b) = [Insert_link_column c type_Link [] t b]"
| "inverse_column (Insert_column c type name nullable) = [Erase_column c]"
| "inverse_column (Erase_column c) = [Insert_column c type_Int [] False]"
| "inverse_column _ = []"

fun inverse_list :: "log_call \<Rightarrow> log_call list" where
  "inverse_list (Link_list_set i v n) = [Link_list_set i v n]"
| "inverse_list (Link_list_insert i v n) = [Link_list_erase i (n + 1)]"
| "inverse_list (Link_list_move from to) = [Link_list_move from to]"
| "inverse_list (Link_list_swap a b) = [Link_list_swap a b]"
| "inverse_list (Link_list_erase i n) = [Link_list_insert i 0 (n - 1)]"
| "inverse_list (Link_list_clear n) = map (\<lambda>i. Link_list_insert (i - 1) 0 (n - i)) (rev [1..<n + 1])"
| "inverse_list (Link_list_nullify i n) = [Link_list_insert i 0 (n - 1)]"
| "inverse_list _ = []"

text \<open>What a call is about: the group, the selected table, its descriptor or the selected list.\<close>

datatype scope = OnGroup | OnTable | OnDescriptor | OnList

fun scope_of :: "log_call \<Rightarrow> scope" where
  "scope_of (Insert_group_level_table t n name) = OnGroup"
| "scope_of (Erase_group_level_table t n) = OnGroup"
| "scope_of (Rename_group_level_table t name) = OnGroup"
| "scope_of (Insert_link_column c type name t b) = OnDescriptor"
| "scope_of (Insert_column c type name nullable) = OnDescriptor"
| "scope_of (Erase_link_column c t b) = OnDescriptor"
| "scope_of (Erase_column c) = OnDescriptor"
| "scope_of (Rename_column c name) = OnDescriptor"
| "scope_of (Add_search_index c) = OnDescriptor"
| "scope_of (Remove_search_index c) = OnDescriptor"
| "scope_of (Link_list_set i v n) = OnList"
| "scope_of (Link_list_set_all vs) = OnList"
| "scope_of (Link_list_insert i v n) = OnList"
| "scope_of (Link_list_move from to) = OnList"
| "scope_of (Link_list_swap a b) = OnList"
| "scope_of (Link_list_erase i n) = OnList"
| "scope_of (Link_list_nullify i n) = OnList"
| "scope_of (Link_list_clear n) = OnList"
| "scope_of _ = OnTable"

definition inverse :: "log_call \<Rightarrow> log_call list" where
  "inverse c = (case scope_of c of
     OnGroup \<Rightarrow> inverse_group c
   | OnTable \<Rightarrow> inverse_rows c @ inverse_value c
   | OnDescriptor \<Rightarrow> inverse_column c
   | OnList \<Rightarrow> inverse_list c)"

fun reverse_call :: "log_call \<Rightarrow> reverser \<Rightarrow> reverser" where
  "reverse_call (Select_table t path) r = (sync_table r)\<lparr>pending_ts := Some (Select_table t path)\<rparr>"
| "reverse_call (Select_descriptor path) r = (sync_descriptor r)\<lparr>pending_ds := Some (Select_descriptor path)\<rparr>"
| "reverse_call (Select_link_list c row t) r = (sync_linkview r)\<lparr>pending_lv := Some (Select_link_list c row t)\<rparr>"
| "reverse_call c r = fold append_instruction (inverse c) (if scope_of c = OnGroup then sync_table r else r)"

text \<open>The order in which the blocks are read.\<close>

definition reversed_log :: "log_call list \<Rightarrow> log_call list" where
  "reversed_log cs = rev (instructions (sync_table (fold reverse_call cs reverser_new)))"

subsection \<open>The selection of a call\<close>

type_synonym selection = "log_call option \<times> log_call option \<times> log_call option"

text \<open>
  The selected table, descriptor and list. A table that is selected ends the selection of a descriptor and of
  a list, a descriptor that of a list, and a change of the tables of the group all of them.
\<close>

fun select_next :: "log_call \<Rightarrow> selection \<Rightarrow> selection" where
  "select_next (Select_table t path) s = (Some (Select_table t path), None, None)"
| "select_next (Select_descriptor path) (ts, ds, lv) = (ts, Some (Select_descriptor path), None)"
| "select_next (Select_link_list c r t) (ts, ds, lv) = (ts, ds, Some (Select_link_list c r t))"
| "select_next c s = (if scope_of c = OnGroup then (None, None, None) else s)"

text \<open>The part of the selection that a call is about.\<close>

fun about :: "scope \<Rightarrow> selection \<Rightarrow> selection" where
  "about OnGroup s = (None, None, None)"
| "about OnTable (ts, ds, lv) = (ts, None, None)"
| "about OnDescriptor (ts, ds, lv) = (ts, ds, None)"
| "about OnList (ts, ds, lv) = (ts, None, lv)"

fun is_select :: "log_call \<Rightarrow> bool" where
  "is_select (Select_table t path) = True"
| "is_select (Select_descriptor path) = True"
| "is_select (Select_link_list c r t) = True"
| "is_select _ = False"

fun annotate :: "selection \<Rightarrow> log_call list \<Rightarrow> (log_call \<times> selection) list" where
  "annotate s [] = []"
| "annotate s (c # cs) = (if is_select c then [] else [(c, about (scope_of c) s)]) @ annotate (select_next c s) cs"

fun selected_for :: "log_call \<Rightarrow> selection \<Rightarrow> bool" where
  "selected_for (Select_table t path) s \<longleftrightarrow> True"
| "selected_for (Select_descriptor path) (ts, ds, lv) \<longleftrightarrow> ts \<noteq> None"
| "selected_for (Select_link_list c r t) (ts, ds, lv) \<longleftrightarrow> ts \<noteq> None"
| "selected_for c (ts, ds, lv) \<longleftrightarrow> (case scope_of c of
     OnGroup \<Rightarrow> True | OnTable \<Rightarrow> ts \<noteq> None | OnDescriptor \<Rightarrow> ts \<noteq> None \<and> ds \<noteq> None | OnList \<Rightarrow> ts \<noteq> None \<and> lv \<noteq> None)"

fun well_selected :: "selection \<Rightarrow> log_call list \<Rightarrow> bool" where
  "well_selected s [] \<longleftrightarrow> True"
| "well_selected s (c # cs) \<longleftrightarrow> selected_for c s \<and> well_selected (select_next c s) cs"

subsection \<open>The reversed log makes the same selections\<close>

definition extends :: "selection \<Rightarrow> selection \<Rightarrow> bool" where
  "extends s' s \<longleftrightarrow> (case (s', s) of ((ts', ds', lv'), (ts, ds, lv)) \<Rightarrow>
     (ts \<noteq> None \<longrightarrow> ts' = ts) \<and> (ds \<noteq> None \<longrightarrow> ds' = ds) \<and> (lv \<noteq> None \<longrightarrow> lv' = lv))"

lemma extends_refl: "extends s s"
  by (cases s) (simp add: extends_def)

lemma extends_none [simp]: "extends s (None, None, None)"
  by (cases s) (simp add: extends_def)

lemma extends_about:
  "extends s' s \<Longrightarrow> selected_for c s \<Longrightarrow> \<not> is_select c \<Longrightarrow> about (scope_of c) s' = about (scope_of c) s"
  by (cases s; cases s'; cases c) (auto simp: extends_def)

lemma inverse_scope: "i \<in> set (inverse c) \<Longrightarrow> scope_of i = scope_of c \<and> \<not> is_select i"
  by (cases c) (auto simp: inverse_def)

lemma select_next_call: "\<not> is_select c \<Longrightarrow> select_next c s = (if scope_of c = OnGroup then (None, None, None) else s)"
  by (cases c) simp_all

lemma annotate_calls:
  assumes "\<forall>i\<in>set is. scope_of i = k \<and> \<not> is_select i"
  shows "annotate s (is @ cs) = map (\<lambda>i. (i, about k s)) is
    @ annotate (if k = OnGroup \<and> is \<noteq> [] then (None, None, None) else s) cs"
  using assms by (induction "is" arbitrary: s) (auto simp: select_next_call)

definition pending_of :: "selection \<Rightarrow> log_call list" where
  "pending_of s = (case s of (ts, ds, lv) \<Rightarrow> case_option [] (\<lambda>c. [c]) ts @ case_option [] (\<lambda>c. [c]) ds @ case_option [] (\<lambda>c. [c]) lv)"

text \<open>The shape of a selection that a log has made.\<close>

definition made :: "selection \<Rightarrow> bool" where
  "made s \<longleftrightarrow> (case s of (ts, ds, lv) \<Rightarrow>
     (case ts of None \<Rightarrow> ds = None \<and> lv = None | Some c \<Rightarrow> \<exists>t path. c = Select_table t path)
     \<and> (case ds of None \<Rightarrow> True | Some c \<Rightarrow> \<exists>path. c = Select_descriptor path)
     \<and> (case lv of None \<Rightarrow> True | Some c \<Rightarrow> \<exists>col r t. c = Select_link_list col r t))"

lemma made_next: "made s \<Longrightarrow> selected_for c s \<Longrightarrow> made (select_next c s)"
  by (cases s; cases c) (auto simp: made_def split: option.splits)

lemma annotate_pending:
  "made s \<Longrightarrow> fst s \<noteq> None \<Longrightarrow> annotate s' (pending_of s @ cs) = annotate s cs"
  by (cases s) (auto simp: made_def pending_of_def split: option.splits)

lemma annotate_pending_list:
  "made (ts, ds, lv) \<Longrightarrow> annotate (ts', ds', lv') (pending_of (None, None, lv) @ cs) = annotate (ts', ds', if lv = None then lv' else lv) cs"
  by (auto simp: made_def pending_of_def split: option.splits)

lemma annotate_pending_descriptor:
  "made (ts, ds, lv) \<Longrightarrow> annotate (ts', ds', lv') (pending_of (None, ds, lv) @ cs)
    = annotate (ts', if ds = None then ds' else ds, if lv \<noteq> None then lv else if ds = None then lv' else None) cs"
  by (auto simp: made_def pending_of_def split: option.splits)

text \<open>The invariant: what is pending is the selection, and what has been written, read backwards after any
  selection that has what this one has, takes the calls back one by one.\<close>

definition taken_back :: "(log_call \<times> selection) list \<Rightarrow> (log_call \<times> selection) list" where
  "taken_back cs = rev (concat (map (\<lambda>(c, s). map (\<lambda>i. (i, s)) (inverse c)) cs))"

definition reversing :: "(log_call \<times> selection) list \<Rightarrow> selection \<Rightarrow> reverser \<Rightarrow> bool" where
  "reversing done s r \<longleftrightarrow> s = (pending_ts r, pending_ds r, pending_lv r) \<and> made s
     \<and> (\<forall>s'. extends s' s \<longrightarrow> annotate s' (rev (instructions r)) = taken_back done)"

lemma fold_append_instruction: "fold append_instruction cs r = r\<lparr>instructions := instructions r @ cs\<rparr>"
  by (induction cs arbitrary: r) (simp_all add: append_instruction_def)

lemma sync_table_eq: "sync_table r = r\<lparr>instructions := instructions r @ rev (pending_of (pending_ts r, pending_ds r, pending_lv r)),
    pending_ts := None, pending_ds := None, pending_lv := None\<rparr>"
  by (simp add: sync_table_def sync_descriptor_def sync_linkview_def sync_select_def append_instruction_def pending_of_def Let_def
      split: option.splits)

lemma sync_descriptor_eq: "sync_descriptor r = r\<lparr>instructions := instructions r @ rev (pending_of (None, pending_ds r, pending_lv r)),
    pending_ds := None, pending_lv := None\<rparr>"
  by (simp add: sync_descriptor_def sync_linkview_def sync_select_def append_instruction_def pending_of_def Let_def
      split: option.splits)

lemma sync_linkview_eq: "sync_linkview r = r\<lparr>instructions := instructions r @ rev (pending_of (None, None, pending_lv r)), pending_lv := None\<rparr>"
  by (simp add: sync_linkview_def sync_select_def append_instruction_def pending_of_def split: option.splits)

lemma reverse_call_other:
  "\<not> is_select c \<Longrightarrow> reverse_call c r = fold append_instruction (inverse c) (if scope_of c = OnGroup then sync_table r else r)"
  by (cases c) simp_all

text \<open>A selected table ends all others, so that it does not matter what was selected before.\<close>

lemma annotate_all_pending:
  assumes "reversing acc s r"
  shows "annotate s' (pending_of s @ rev (instructions r)) = taken_back acc"
proof (cases "fst s = None")
  case True
  then have "s = (None, None, None)" using assms by (cases s) (auto simp: reversing_def made_def)
  then show ?thesis using assms by (cases s') (simp add: reversing_def pending_of_def)
next
  case False
  then show ?thesis using assms annotate_pending [of s s'] extends_refl by (auto simp: reversing_def)
qed

lemma reversing_step:
  assumes inv: "reversing acc s r" and sel: "selected_for c s"
  shows "reversing (acc @ (if is_select c then [] else [(c, about (scope_of c) s)])) (select_next c s) (reverse_call c r)"
proof -
  obtain ts ds lv where s: "s = (ts, ds, lv)" by (cases s)
  have p: "pending_ts r = ts" "pending_ds r = ds" "pending_lv r = lv" using inv s by (simp_all add: reversing_def)
  have m: "made (ts, ds, lv)" using inv s unfolding reversing_def by blast
  have m2: "made (select_next c s)" using made_next m sel s by blast
  have ann: "extends s' (ts, ds, lv) \<Longrightarrow> annotate s' (rev (instructions r)) = taken_back acc" for s'
    using inv s unfolding reversing_def by blast
  show ?thesis
  proof (cases "is_select c")
    case False
    have tb: "taken_back (acc @ [(c, x)]) = map (\<lambda>i. (i, x)) (rev (inverse c)) @ taken_back acc" for x
      by (simp add: taken_back_def rev_map)
    have next_s: "select_next c s = (if scope_of c = OnGroup then (None, None, None) else s)" by (rule select_next_call [OF False])
    have inv_calls: "\<forall>i\<in>set (rev (inverse c)). scope_of i = scope_of c \<and> \<not> is_select i" using inverse_scope by auto
    show ?thesis
    proof (cases "scope_of c = OnGroup")
      case True
      have "annotate s' (rev (inverse c) @ pending_of s @ rev (instructions r))
          = map (\<lambda>i. (i, about OnGroup s)) (rev (inverse c)) @ taken_back acc" for s'
        using annotate_calls [OF inv_calls, of s'] annotate_all_pending [OF inv] True by simp
      then show ?thesis using False True next_s s p m2
        by (auto simp: reversing_def reverse_call_other fold_append_instruction sync_table_eq tb)
    next
      case other: False
      have "annotate s' (rev (inverse c) @ rev (instructions r)) = map (\<lambda>i. (i, about (scope_of c) s)) (rev (inverse c)) @ taken_back acc"
        if "extends s' s" for s'
        using annotate_calls [OF inv_calls, of s'] ann [of s'] extends_about [OF that sel False] that other s by simp
      then show ?thesis using False other next_s s p m2
        by (auto simp: reversing_def reverse_call_other fold_append_instruction tb)
    qed
  next
    case True
    then show ?thesis
    proof (cases c)
      case (Select_table t path)
      show ?thesis using annotate_all_pending [OF inv] Select_table m2 s p
        by (auto simp: reversing_def sync_table_eq)
    next
      case (Select_descriptor path)
      have ts: "ts \<noteq> None" using sel s Select_descriptor by simp
      have "annotate s' (pending_of (None, ds, lv) @ rev (instructions r)) = taken_back acc"
        if "extends s' (ts, Some c, None)" for s'
        using that ann ts by (cases s') (auto simp: annotate_pending_descriptor [OF m] extends_def)
      then show ?thesis using Select_descriptor m2 s p by (auto simp: reversing_def sync_descriptor_eq)
    next
      case (Select_link_list col row t)
      have ts: "ts \<noteq> None" using sel s Select_link_list by simp
      have "annotate s' (pending_of (None, None, lv) @ rev (instructions r)) = taken_back acc"
        if "extends s' (ts, ds, Some c)" for s'
        using that ann ts by (cases s') (auto simp: annotate_pending_list [OF m] extends_def)
      then show ?thesis using Select_link_list m2 s p by (auto simp: reversing_def sync_linkview_eq)
    qed simp_all
  qed
qed

lemma reversing_run:
  assumes "reversing acc s r" "well_selected s cs"
  shows "\<exists>s'. reversing (acc @ annotate s cs) s' (fold reverse_call cs r)"
  using assms
proof (induction cs arbitrary: acc s r)
  case (Cons c cs)
  then show ?case using Cons.IH [OF reversing_step [of acc s r c]] by (auto split: if_splits)
qed auto

lemma reversed_log_ok:
  assumes "well_selected (None, None, None) cs"
  shows "annotate (None, None, None) (reversed_log cs) = taken_back (annotate (None, None, None) cs)"
proof -
  have "reversing [] (None, None, None) reverser_new"
    by (simp add: reversing_def reverser_new_def made_def taken_back_def)
  from reversing_run [OF this assms] obtain s where
    "reversing (annotate (None, None, None) cs) s (fold reverse_call cs reverser_new)" by auto
  then show ?thesis using annotate_all_pending by (auto simp: reversed_log_def sync_table_eq reversing_def)
qed

end
