(* ===== verification/Transact_Rows.thy ===== *)
theory Transact_Rows
  imports Transact_Log Change_Builder_Runs
begin

section \<open>The log of a group and the change sets of its tables\<close>

text \<open>
  A group is a list of tables, a table a list of rows. The log of a transaction is that of its events: a table
  is selected, the rows of the selected table change, a list of links in one of its cells is selected (which
  changes its row) and changed. The observer is in step with the group: the change set of every table that
  it tracks is right, and it holds none for the others.
\<close>

datatype ('k, 'v) log_event =
    SelectRows size_t
  | ChangeRows "('k, 'v) row_op"
  | ChangeList size_t size_t 'v
  | ListEvent log_instruction

fun row_instruction :: "('k, 'v) row_op \<Rightarrow> log_instruction" where
  "row_instruction (Row_insert i rows) = InsertEmptyRows i (length rows)"
| "row_instruction (Row_modify i c v) = SetCell c i InstrSet"
| "row_instruction (Row_move_over r l) = EraseRows r (l + 1) True"
| "row_instruction (Row_swap a b) = SwapRows a b"
| "row_instruction (Row_clear n) = ClearTable"

fun log_of :: "('k, 'v) log_event \<Rightarrow> log_instruction" where
  "log_of (SelectRows t) = SelectTable t []"
| "log_of (ChangeRows op) = row_instruction op"
| "log_of (ChangeList c r v) = SelectLinkList c r"
| "log_of (ListEvent i) = i"

fun list_instruction :: "log_instruction \<Rightarrow> bool" where
  "list_instruction (LinkListSet i) = True"
| "list_instruction (LinkListInsert i) = True"
| "list_instruction (LinkListErase i) = True"
| "list_instruction (LinkListNullify i) = True"
| "list_instruction (LinkListSwap i j) = True"
| "list_instruction (LinkListClear n) = True"
| "list_instruction (LinkListMove f t) = True"
| "list_instruction _ = False"

type_synonym ('k, 'v) group = "size_t option \<times> ('k, 'v) row list list"

fun change_rows :: "('k, 'v) row_op \<Rightarrow> ('k, 'v) group \<Rightarrow> ('k, 'v) group" where
  "change_rows op (None, ts) = (None, ts)"
| "change_rows op (Some t, ts) = (Some t, ts[t := row_spec op (ts ! t)])"

fun log_spec :: "('k, 'v) log_event \<Rightarrow> ('k, 'v) group \<Rightarrow> ('k, 'v) group" where
  "log_spec (SelectRows t) g = (Some t, snd g)"
| "log_spec (ChangeRows op) g = change_rows op g"
| "log_spec (ChangeList c r v) g = change_rows (Row_modify r c v) g"
| "log_spec (ListEvent i) g = g"

text \<open>\<open>ClearTable\<close> is left out: it does not come with the size of the table.\<close>

fun logged_op :: "('k, 'v) row_op \<Rightarrow> bool" where
  "logged_op (Row_swap a b) \<longleftrightarrow> a < b"
| "logged_op (Row_clear n) \<longleftrightarrow> False"
| "logged_op _ \<longleftrightarrow> True"

fun log_pre :: "('k, 'v) log_event \<Rightarrow> ('k, 'v) group \<Rightarrow> bool" where
  "log_pre (SelectRows t) g \<longleftrightarrow> t < length (snd g)"
| "log_pre (ChangeRows op) g \<longleftrightarrow> (case fst g of None \<Rightarrow> False | Some t \<Rightarrow> logged_op op \<and> row_pre op (snd g ! t))"
| "log_pre (ChangeList c r v) g \<longleftrightarrow> (case fst g of None \<Rightarrow> False | Some t \<Rightarrow> r < length (snd g ! t))"
| "log_pre (ListEvent i) g \<longleftrightarrow> list_instruction i"

definition log_step :: "bool \<Rightarrow> ('k, 'v) log_event \<Rightarrow> observer \<Rightarrow> observer option" where
  "log_step dbg ev ob = (case observe dbg (log_of ev) ob of Some (Inr ob) \<Rightarrow> Some ob | _ \<Rightarrow> None)"

lemma observe_log_step: "fold_opt (log_step dbg) evs ob = Some ob' \<Longrightarrow> observe_log dbg (map log_of evs) ob = Some (Inr ob')"
  by (induction evs arbitrary: ob) (auto simp: log_step_def split: option.splits sum.splits Option.bind_splits)

subsection \<open>The invariant\<close>

definition changes_of :: "transaction_change_info \<Rightarrow> size_t \<Rightarrow> change_builder" where
  "changes_of info t = (if t < length (info_tables info) then info_tables info ! t else cb_nil)"

definition tracked :: "transaction_change_info \<Rightarrow> size_t \<Rightarrow> bool" where
  "tracked info t \<longleftrightarrow> track_all info \<or> needed (table_modifications_needed info) t"

text \<open>An observer that has been asked for change sets of tables, with their moves, and for no lists.\<close>

definition tables_wanted :: "transaction_change_info \<Rightarrow> bool" where
  "tables_wanted info \<longleftrightarrow> info_lists info = [] \<and> info_tables info = []
     \<and> (\<forall>t. tracked info t \<longrightarrow> track_all info \<or> needed (table_moves_needed info) t)"

definition selected :: "transaction_change_info \<Rightarrow> size_t option \<Rightarrow> nat \<Rightarrow> observer \<Rightarrow> bool" where
  "selected info0 cur n ob \<longleftrightarrow> (case cur of None \<Rightarrow> active_table ob = NoChanges
     | Some t \<Rightarrow> t < n \<and> current_table ob = t
         \<and> (if tracked info0 t then active_table ob = TableChanges t \<and> t < length (info_tables (ob_info ob)) \<and> need_move_info ob
            else active_table ob = NoChanges))"

definition in_step :: "bool \<Rightarrow> transaction_change_info \<Rightarrow> ('k, 'v) row list list \<Rightarrow> observer \<Rightarrow> ('k, 'v) group \<Rightarrow> bool" where
  "in_step dbg info0 ts0 ob g \<longleftrightarrow> (case g of (cur, ts) \<Rightarrow>
     tables_wanted info0 \<and> info_lists (ob_info ob) = [] \<and> track_all (ob_info ob) = track_all info0
     \<and> table_modifications_needed (ob_info ob) = table_modifications_needed info0
     \<and> table_moves_needed (ob_info ob) = table_moves_needed info0
     \<and> active_list ob = None \<and> is_top_level_table ob \<and> length ts = length ts0 \<and> selected info0 cur (length ts) ob
     \<and> (\<forall>t. if tracked info0 t \<and> t < length ts then row_inv dbg (ts0 ! t) (changes_of (ob_info ob) t) (ts ! t)
            else changes_of (ob_info ob) t = cb_nil))"

lemma changes_of_expand [simp]:
  "changes_of (info\<lparr>info_tables := expand cb_nil n (info_tables info)\<rparr>) t = changes_of info t"
  by (auto simp: changes_of_def expand_def nth_append)

lemma select_in_step:
  assumes "in_step dbg info0 ts0 ob (cur, ts)" "t < length ts"
  shows "succeeds (select_table dbg t [] ob) (\<lambda>ob'. in_step dbg info0 ts0 ob' (Some t, ts))"
proof -
  let ?info = "ob_info ob"
  let ?tables = "if length (info_tables ?info) \<le> t
    then ?info\<lparr>info_tables := expand cb_nil (max (length (info_tables ?info) * 2) (t + 1)) (info_tables ?info)\<rparr> else ?info"
  have tr: "tracked info0 t = (track_all ?info \<or> needed (table_modifications_needed ?info) t)"
    using assms(1) by (simp add: in_step_def tracked_def)
  show ?thesis
  proof (cases "tracked info0 t")
    case False
    then have "select_table dbg t [] ob = Some (ob\<lparr>current_table := t, active_table := NoChanges, is_top_level_table := True\<rparr>)"
      using tr by (simp add: select_table_def)
    then show ?thesis using assms False by (simp add: in_step_def selected_def)
  next
    case True
    then have eq: "select_table dbg t [] ob = Some (ob\<lparr>current_table := t, active_table := TableChanges t, is_top_level_table := True,
        need_move_info := track_all ?info \<or> needed (table_moves_needed ?info) t, ob_info := ?tables\<rparr>)"
      using tr by (auto simp: select_table_def Let_def)
    have "t < length (info_tables ?tables)" by (auto simp: expand_def max_def)
    moreover have "changes_of ?tables u = changes_of ?info u" for u by simp
    moreover have "track_all ?info \<or> needed (table_moves_needed ?info) t"
      using assms(1) True by (auto simp: in_step_def tables_wanted_def)
    ultimately show ?thesis unfolding eq using assms True by (simp add: in_step_def selected_def)
  qed
qed

text \<open>A change of the selected table.\<close>

lemma change_in_step:
  assumes s: "in_step dbg info0 ts0 ob (Some t, ts)" and pre: "row_pre op (ts ! t)"
  shows "succeeds (on_table (row_step dbg op) ob) (\<lambda>ob'. in_step dbg info0 ts0 ob' (change_rows op (Some t, ts))
    \<and> info_lists (ob_info ob') = [] \<and> is_top_level_table ob')"
proof (cases "tracked info0 t")
  case False
  then show ?thesis using s by (auto simp: in_step_def selected_def on_table_def nth_list_update)
next
  case True
  let ?info = "ob_info ob"
  have a: "active_table ob = TableChanges t" "t < length (info_tables ?info)" "t < length ts"
    using s True by (simp_all add: in_step_def selected_def)
  then have c: "changes_of ?info t = info_tables ?info ! t" by (simp add: changes_of_def)
  have "row_inv dbg (ts0 ! t) (info_tables ?info ! t) (ts ! t)"
    using s True a unfolding in_step_def c [symmetric] by auto
  from row_step_ok [OF this pre] obtain c' where c': "row_step dbg op (info_tables ?info ! t) = Some c'"
    "row_inv dbg (ts0 ! t) c' (row_spec op (ts ! t))" by (rule succeedsE)
  have ch: "changes_of (?info\<lparr>info_tables := (info_tables ?info)[t := c']\<rparr>) u = (if u = t then c' else changes_of ?info u)" for u
    using a(2) by (auto simp: changes_of_def)
  have "on_table (row_step dbg op) ob = Some (ob\<lparr>ob_info := ?info\<lparr>info_tables := (info_tables ?info)[t := c']\<rparr>\<rparr>)"
    using a(1) c'(1) by (simp add: on_table_def)
  then show ?thesis using s a c'(2) True
    by (auto simp: in_step_def selected_def ch nth_list_update split: if_splits)
qed

lemma row_instruction_step:
  assumes "in_step dbg info0 ts0 ob (Some t, ts)" "logged_op op"
  shows "log_step dbg (ChangeRows op) ob = on_table (row_step dbg op) ob"
proof -
  let ?info = "ob_info ob"
  have a: "info_lists ?info = []" "is_top_level_table ob" "need_move_info ob \<or> active_table ob = NoChanges"
    using assms(1) by (auto simp: in_step_def selected_def split: if_splits)
  have keep: "ob'\<lparr>ob_info := (ob_info ob')\<lparr>info_lists := []\<rparr>\<rparr> = ob'" "map_lists f ob' = ob'"
    if "on_table h ob = Some ob'" for h ob' f
    using that a(1) by (cases "active_table ob"; auto simp: on_table_def map_lists_def split: Option.bind_splits)+
  have top: "is_top_level_table ob'" "info_lists (ob_info ob') = []" if "on_table h ob = Some ob'" for h ob'
    using that a(1,2) by (cases "active_table ob"; auto simp: on_table_def split: Option.bind_splits)+
  have tr: "on_table (\<lambda>b. h b (need_move_info ob)) ob = on_table (\<lambda>b. h b True) ob" for h
    using a(3) by (auto simp: on_table_def)
  show ?thesis using assms(2) a(2)
  proof (cases op)
    case (Row_insert i rows)
    have "row_step dbg op = (\<lambda>b. cb_insert dbg b i (length rows) True)" using Row_insert by auto
    then show ?thesis using Row_insert tr [of "\<lambda>b. cb_insert dbg b i (length rows)"] keep(2) top
      by (auto simp: log_step_def insert_empty_rows_def split: Option.bind_splits option.splits)
  next
    case (Row_modify i c v)
    have "row_step dbg op = (\<lambda>b. cb_modify dbg b i c)" using Row_modify by auto
    then show ?thesis using Row_modify by (auto simp: log_step_def mark_dirty_def split: option.splits)
  next
    case (Row_move_over r l)
    have "row_step dbg op = (\<lambda>b. cb_move_over dbg b r l True)" using Row_move_over by auto
    moreover have "erase_lists t' r l 0 [] = []" for t' by (simp add: erase_lists.simps)
    ultimately show ?thesis using Row_move_over tr [of "\<lambda>b. cb_move_over dbg b r l"] keep(1) top
      by (auto simp: log_step_def observe_erase_rows_def split: Option.bind_splits option.splits)
  next
    case (Row_swap x y)
    have "row_step dbg op = (\<lambda>b. cb_swap dbg b x y True)" using Row_swap by auto
    then show ?thesis using Row_swap assms(2) tr [of "\<lambda>b. cb_swap dbg b x y"] keep(2) top a(2)
      by (auto simp: log_step_def swap_rows_def split: Option.bind_splits option.splits)
  qed simp
qed

lemma row_step_modify: "row_step dbg (Row_modify r c v) = (\<lambda>b. cb_modify dbg b r c)"
  by auto

lemma log_step_ok:
  assumes s: "in_step dbg info0 ts0 ob g" and pre: "log_pre ev g"
  shows "succeeds (log_step dbg ev ob) (\<lambda>ob'. in_step dbg info0 ts0 ob' (log_spec ev g))"
proof -
  obtain cur ts where g: "g = (cur, ts)" by fastforce
  show ?thesis
  proof (cases ev)
    case (SelectRows t)
    then show ?thesis using select_in_step [of dbg info0 ts0 ob cur ts t] s pre g
      by (auto simp: log_step_def elim!: succeedsE)
  next
    case (ChangeRows op)
    then obtain t where t: "cur = Some t" "logged_op op" "row_pre op (ts ! t)"
      using pre g by (auto split: option.splits)
    have "in_step dbg info0 ts0 ob (Some t, ts)" using s g t(1) by simp
    from row_instruction_step [OF this t(2)] change_in_step [OF this t(3)] show ?thesis
      using ChangeRows g t(1) by (auto elim: succeeds_mono)
  next
    case (ChangeList c r v)
    then obtain t where t: "cur = Some t" "r < length (ts ! t)" using pre g by (auto split: option.splits)
    have i: "in_step dbg info0 ts0 ob (Some t, ts)" using s g t(1) by simp
    obtain ob' where ob': "mark_dirty dbg r c ob = Some ob'" "in_step dbg info0 ts0 ob' (change_rows (Row_modify r c v) (Some t, ts))"
        "info_lists (ob_info ob') = []"
      using change_in_step [OF i, of "Row_modify r c v"] t(2) by (auto simp: mark_dirty_def succeeds_def row_step_modify)
    then have "find_list (ob_info ob') (current_table ob') c r = None" by (simp add: find_list_def)
    then have "active_list ob' = find_list (ob_info ob') (current_table ob') c r" using ob'(2) by (simp add: in_step_def)
    then have "ob'\<lparr>active_list := find_list (ob_info ob') (current_table ob') c r\<rparr> = ob'" by (metis observer.surjective observer.update_convs(2))
    then show ?thesis using ChangeList g t ob' by (simp add: log_step_def select_link_list_def)
  next
    case (ListEvent i)
    have a: "active_list ob = None" using s g by (simp add: in_step_def)
    have "on_list f ob = Some ob" for f using a by (simp add: on_list_def)
    then have "log_step dbg ev ob = Some ob" using ListEvent pre
      by (cases i) (simp_all add: log_step_def link_list_set_def link_list_insert_def link_list_erase_def
          link_list_swap_def link_list_clear_def link_list_move_def)
    then show ?thesis using ListEvent s by simp
  qed
qed

interpretation log_sim: simulation "in_step dbg info ts" "log_step dbg" log_pre log_spec for dbg info ts
  by unfold_locales (rule log_step_ok)

lemma in_step_new:
  "tables_wanted info \<Longrightarrow> in_step dbg info ts (observer_new info) (None, ts)"
  using row_inv_nil by (auto simp: in_step_def tables_wanted_def observer_new_def selected_def changes_of_def)

subsection \<open>The end of the log\<close>

lemma parse_complete_nil: "parse_complete dbg cb_nil = Some cb_nil"
  by (simp add: parse_complete_def cb_nil_def)

lemma log_complete_ok:
  assumes "in_step dbg info ts0 ob (cur, ts)"
  shows "succeeds (log_complete dbg (ob_info ob)) (\<lambda>info'. \<forall>t. if tracked info t \<and> t < length ts
    then describes dbg (changes_of info' t) (ts0 ! t) (ts ! t) \<and> sorted (map mv_from (moves (changes_of info' t)))
    else changes_of info' t = cb_nil)"
proof -
  let ?tables = "info_tables (ob_info ob)"
  have tables: "if tracked info t \<and> t < length ts then row_inv dbg (ts0 ! t) (changes_of (ob_info ob) t) (ts ! t)
      else changes_of (ob_info ob) t = cb_nil" for t
    using assms by (simp add: in_step_def)
  have "succeeds (parse_complete dbg (?tables ! t)) (\<lambda>c. if tracked info t \<and> t < length ts
      then describes dbg c (ts0 ! t) (ts ! t) \<and> sorted (map mv_from (moves c)) else c = cb_nil)"
    if t: "t < length ?tables" for t
  proof (cases "tracked info t \<and> t < length ts")
    case True
    then have r: "row_inv dbg (ts0 ! t) (?tables ! t) (ts ! t)" using tables [of t] t by (simp add: changes_of_def)
    show ?thesis
      by (rule succeeds_mono [OF parse_complete_ok [of dbg _ "ts0 ! t" "ts ! t"]]) (use r True in \<open>auto simp: row_inv_def\<close>)
  next
    case False
    then have "?tables ! t = cb_nil" using tables [of t] t unfolding changes_of_def by presburger
    then show ?thesis using False by (auto simp: parse_complete_nil)
  qed
  then have pc: "\<exists>c. parse_complete dbg (?tables ! t) = Some c \<and> (if tracked info t \<and> t < length ts
      then describes dbg c (ts0 ! t) (ts ! t) \<and> sorted (map mv_from (moves c)) else c = cb_nil)"
    if "t < length ?tables" for t
    using that by (auto simp: succeeds_def)
  have "succeeds (map_opt (parse_complete dbg) ?tables) (list_all2 (\<lambda>x y. parse_complete dbg x = Some y) ?tables)"
    by (rule map_opt_succeeds) (use pc in \<open>fastforce simp: in_set_conv_nth succeeds_def\<close>)
  then obtain tables' where t': "map_opt (parse_complete dbg) ?tables = Some tables'"
      "length tables' = length ?tables" "\<And>t. t < length ?tables \<Longrightarrow> parse_complete dbg (?tables ! t) = Some (tables' ! t)"
    by (auto simp: succeeds_def list_all2_conv_all_nth)
  let ?info = "(ob_info ob)\<lparr>info_tables := tables'\<rparr>"
  have "log_complete dbg (ob_info ob) = Some ?info"
    using t'(1) assms by (simp add: log_complete_def in_step_def)
  moreover have "if tracked info t \<and> t < length ts
      then describes dbg (changes_of ?info t) (ts0 ! t) (ts ! t) \<and> sorted (map mv_from (moves (changes_of ?info t)))
      else changes_of ?info t = cb_nil" for t
  proof (cases "t < length ?tables")
    case True
    then show ?thesis using pc [OF True] t'(2,3) by (simp add: changes_of_def)
  next
    case False
    then have nil: "changes_of (ob_info ob) t = cb_nil" "changes_of ?info t = cb_nil" using t'(2) by (auto simp: changes_of_def)
    show ?thesis
    proof (cases "tracked info t \<and> t < length ts")
      case True
      then have "describes dbg cb_nil (ts0 ! t) (ts ! t)" using tables [of t] nil(1) by (simp add: row_inv_def)
      then show ?thesis using True nil(2) by (simp add: cb_nil_def)
    next
      case False
      then show ?thesis using nil(2) by auto
    qed
  qed
  ultimately show ?thesis by (auto simp: succeeds_def)
qed

end
