(* ===== verification/Log_Observed.thy ===== *)
theory Log_Observed
  imports Log_Roundtrip Log_Reverse Transact_Rows
begin

section \<open>The observer as a handler of the parser\<close>

text \<open>
  Which method of the observer every call of the parser is, with the arguments that the method reads. The
  values that are set are not among them. The parser makes no call of \<open>link_list_set_all\<close>, which is not a method
  of a handler; it is observed as no change.
\<close>

fun observed :: "log_call \<Rightarrow> log_instruction" where
  "observed (Select_table t path) = SelectTable t path"
| "observed (Select_descriptor path) = SelectDescriptor (length path)"
| "observed (Select_link_list c r t) = SelectLinkList c r"
| "observed (Insert_group_level_table t n name) = InsertGroupLevelTable t"
| "observed (Erase_group_level_table t n) = EraseGroupLevelTable t"
| "observed (Rename_group_level_table t name) = RenameGroupLevelTable t"
| "observed (Insert_empty_rows r n prior unordered) = InsertEmptyRows r n"
| "observed (Add_row_with_key r prior c key) = AddRowWithKey r"
| "observed (Erase_rows r n prior unordered) = EraseRows r prior unordered"
| "observed (Swap_rows a b) = SwapRows a b"
| "observed (Move_row from to) = MoveRow from to"
| "observed (Merge_rows a b) = MergeRows a b"
| "observed (Clear_table n) = ClearTable"
| "observed (Set_int c r v k prior) = SetCell c r k"
| "observed (Add_int c r v) = ChangeCell c r"
| "observed (Set_bool c r v k) = SetCell c r k"
| "observed (Set_float c r v k) = SetCell c r k"
| "observed (Set_double c r v k) = SetCell c r k"
| "observed (Set_string c r v k prior) = SetCell c r k"
| "observed (Set_binary c r v k) = SetCell c r k"
| "observed (Set_olddatetime c r v k) = SetCell c r k"
| "observed (Set_timestamp c r s n k) = SetCell c r k"
| "observed (Set_table c r k) = SetCell c r k"
| "observed (Set_mixed c r v k) = SetCell c r k"
| "observed (Set_link c r v t k) = SetCell c r k"
| "observed (Set_null c r k prior) = SetCell c r k"
| "observed (Nullify_link c r t) = ChangeCell c r"
| "observed (Insert_substring c r pos v) = ChangeCell c r"
| "observed (Erase_substring c r pos n) = ChangeCell c r"
| "observed Optimize_table = OptimizeTable"
| "observed (Insert_link_column c type name t b) = InsertLinkColumn c"
| "observed (Insert_column c type name nullable) = InsertColumn c"
| "observed (Erase_link_column c t b) = EraseLinkColumn c"
| "observed (Erase_column c) = EraseColumn c"
| "observed (Rename_column c name) = RenameColumn c"
| "observed (Add_search_index c) = AddSearchIndex c"
| "observed (Remove_search_index c) = RemoveSearchIndex c"
| "observed (Set_link_type c type) = SetLinkType c"
| "observed (Link_list_set i v n) = LinkListSet i"
| "observed (Link_list_set_all vs) = OptimizeTable"
| "observed (Link_list_insert i v n) = LinkListInsert i"
| "observed (Link_list_move from to) = LinkListMove from to"
| "observed (Link_list_swap a b) = LinkListSwap a b"
| "observed (Link_list_erase i n) = LinkListErase i"
| "observed (Link_list_nullify i n) = LinkListNullify i"
| "observed (Link_list_clear n) = LinkListClear n"

definition read_and_observe :: "bool \<Rightarrow> bytes \<Rightarrow> transaction_change_info \<Rightarrow> (log_error + transaction_change_info) option" where
  "read_and_observe dbg bs info = do {
     calls \<leftarrow> parse bs;
     r \<leftarrow> observe_log dbg (map observed calls) (observer_new info);
     case r of Inl e \<Rightarrow> Some (Inl e) | Inr ob \<Rightarrow> map_option Inr (log_complete dbg (ob_info ob)) }"

end
