(* ===== verification/Transact_Columns.thy ===== *)
theory Transact_Columns
  imports Transact_Rows
begin

section \<open>The initial indices of columns and tables\<close>

text \<open>
  \<open>column_indices\<close> of a table is the start of the list that maps the columns of the table to the columns at
  the start of the transaction, \<open>npos\<close> for a new one; the columns after it count on from its last element.
  \<open>column_at\<close> is how it is read. It is compared with the columns themselves: the list \<open>cols\<close> of the indices
  that the columns had, changed as the table is changed.
\<close>

definition column_at :: "size_t list \<Rightarrow> size_t \<Rightarrow> size_t" where
  "column_at indices i = (if indices = [] then i
     else if i < length indices then indices ! i else i - length indices + last indices + 1)"

lemma column_at_ge: "indices \<noteq> [] \<Longrightarrow> length indices \<le> i \<Longrightarrow> column_at indices i = last indices + 1 + (i - length indices)"
  by (simp add: column_at_def)

lemma length_expand_to: "i < length (expand_to indices i)"
  by (auto simp: expand_to_def Let_def max_def)

lemma expand_to_ne [simp]: "expand_to indices i \<noteq> []"
  using length_expand_to [of i indices] by auto

lemma nth_expand_to:
  assumes "indices = [] \<or> last indices + length indices * 2 + i + 2 < 2 ^ 64" "j < length (expand_to indices i)"
  shows "expand_to indices i ! j = column_at indices j"
  using assms by (auto simp: column_at_def expand_to_def Let_def nth_append split: if_splits)

lemma last_expand_to:
  assumes "indices = [] \<or> last indices + length indices * 2 + i + 2 < 2 ^ 64"
  shows "last (expand_to indices i) = column_at indices (length (expand_to indices i) - 1)"
  using nth_expand_to [OF assms, of "length (expand_to indices i) - 1"] length_expand_to [of i indices]
  by (simp add: last_conv_nth)

lemma column_at_expand_to:
  assumes "indices = [] \<or> last indices + length indices * 2 + i + 2 < 2 ^ 64"
  shows "column_at (expand_to indices i) j = column_at indices j"
proof (cases "j < length (expand_to indices i)")
  case True
  then show ?thesis using nth_expand_to [OF assms True] by (simp add: column_at_def)
next
  case False
  let ?m = "length (expand_to indices i)"
  have "column_at (expand_to indices i) j = column_at indices (?m - 1) + 1 + (j - ?m)"
    using False last_expand_to [OF assms] by (simp add: column_at_ge)
  also have "\<dots> = column_at indices j"
  proof (cases "indices = []")
    case True
    then show ?thesis using False length_expand_to [of i indices] by (simp add: column_at_def)
  next
    case ne: False
    have "length indices \<le> ?m" by (auto simp: expand_to_def Let_def max_def)
    then consider "?m = length indices" | "length indices \<le> ?m - 1" by linarith
    then show ?thesis
    proof cases
      case 1
      then show ?thesis using ne False by (simp add: column_at_def last_conv_nth)
    next
      case 2
      then show ?thesis using ne False length_expand_to [of i indices] by (simp add: column_at_ge)
    qed
  qed
  finally show ?thesis .
qed

text \<open>Far from the end of the numbers nothing wraps around.\<close>

definition no_wrap :: "size_t list \<Rightarrow> nat \<Rightarrow> bool" where
  "no_wrap indices i \<longleftrightarrow> indices = [] \<or> last indices + length indices * 2 + i + 2 < 2 ^ 64"

lemma column_inserted_eq:
  "column_inserted ndx indices = (let e = expand_to indices ndx in take ndx e @ npos # drop ndx e)"
  using length_expand_to [of ndx indices]
  by (simp add: column_inserted_def insert_empty_at_def Let_def list_update_append)

lemma column_at_inserted:
  assumes "no_wrap indices ndx"
  shows "column_at (column_inserted ndx indices) i =
    (if i < ndx then column_at indices i else if i = ndx then npos else column_at indices (i - 1))"
proof -
  let ?e = "expand_to indices ndx"
  have e: "ndx < length ?e" "column_at ?e j = column_at indices j" for j
    using length_expand_to column_at_expand_to assms by (auto simp: no_wrap_def)
  have l: "last (take ndx ?e @ npos # drop ndx ?e) = last ?e" using e(1) by simp
  show ?thesis unfolding column_inserted_eq Let_def e(2) [symmetric]
    using e(1) by (auto simp: column_at_def [of "take ndx ?e @ npos # drop ndx ?e"] column_at_def [of ?e]
        l nth_append nth_Cons' min_def)
qed

lemma column_moved_eq:
  assumes "from \<noteq> to"
  shows "column_moved from to indices = (let e = expand_to indices (max from to + 1) in
    Some (if from < to then take from e @ take (to - from) (drop (from + 1) e) @ [e ! from] @ drop (to + 1) e
      else take to e @ [e ! from] @ take (from - to) (drop to e) @ drop (from + 1) e))"
proof -
  obtain e where e: "e = expand_to indices (max from to + 1)" by simp
  have "max from to + 1 < length e" unfolding e by (rule length_expand_to)
  then have "from < length e" "to < length e" by auto
  then show ?thesis using assms unfolding column_moved_def e [symmetric] Let_def by (simp add: rotate_to_def Let_def)
qed

definition moved_at :: "nat \<Rightarrow> nat \<Rightarrow> (nat \<Rightarrow> 'a) \<Rightarrow> nat \<Rightarrow> 'a" where
  "moved_at f t F i =
     (if f < t then if i < f \<or> t < i then F i else if i = t then F f else F (i + 1)
      else if i < t \<or> f < i then F i else if i = t then F f else F (i - 1))"

lemma column_at_moved:
  assumes "no_wrap indices (max from to + 1)" "from \<noteq> to"
  shows "\<exists>is. column_moved from to indices = Some is \<and> is \<noteq> [] \<and> length is = length (expand_to indices (max from to + 1))
    \<and> last is = last (expand_to indices (max from to + 1)) \<and> column_at is = moved_at from to (column_at indices)"
proof -
  obtain e where e: "e = expand_to indices (max from to + 1)" by simp
  have len: "max from to + 1 < length e" unfolding e by (rule length_expand_to)
  then have ft: "from < length e" "to < length e" "from < length e - 1" "to < length e - 1" by auto
  have at: "column_at e j = column_at indices j" for j
    unfolding e using column_at_expand_to assms(1) by (simp add: no_wrap_def)
  let ?new = "if from < to then take from e @ take (to - from) (drop (from + 1) e) @ [e ! from] @ drop (to + 1) e
      else take to e @ [e ! from] @ take (from - to) (drop to e) @ drop (from + 1) e"
  have l: "length ?new = length e" using ft by auto
  have nth: "?new ! i = moved_at from to ((!) e) i" if "i < length e" for i
    using nth_rotated [OF ft(1,2) that] assms(2) by (auto simp: moved_at_def)
  have ne: "?new \<noteq> []" "e \<noteq> []" using l ft by auto
  have last: "last ?new = last e"
    using nth [of "length e - 1"] l ft ne by (simp add: last_conv_nth moved_at_def)
  have "column_at ?new i = moved_at from to (column_at e) i" for i
  proof (cases "i < length e")
    case True
    then show ?thesis using nth [OF True] l ne ft by (auto simp: column_at_def moved_at_def)
  next
    case False
    then show ?thesis using l ne ft last by (simp add: column_at_def moved_at_def)
  qed
  then show ?thesis using column_moved_eq [OF assms(2), of indices] l last ne unfolding e [symmetric] Let_def at by auto
qed

subsection \<open>The columns of a table\<close>

datatype column_op = ColInsert size_t | ColMove size_t size_t

fun column_step :: "column_op \<Rightarrow> size_t list \<Rightarrow> size_t list option" where
  "column_step (ColInsert ndx) indices = Some (column_inserted ndx indices)"
| "column_step (ColMove from to) indices = column_moved from to indices"

fun column_spec :: "column_op \<Rightarrow> size_t list \<Rightarrow> size_t list" where
  "column_spec (ColInsert ndx) cols = ins_list ndx [npos] cols"
| "column_spec (ColMove from to) cols = move_list from to cols"

fun column_pre :: "nat \<Rightarrow> column_op \<Rightarrow> size_t list \<Rightarrow> bool" where
  "column_pre m (ColInsert ndx) cols \<longleftrightarrow> ndx \<le> length cols \<and> length cols < m"
| "column_pre m (ColMove from to) cols \<longleftrightarrow> from < length cols \<and> to < length cols \<and> from \<noteq> to \<and> length cols \<le> m"

text \<open>The columns of a table that has \<open>n\<close> columns at first, continued without end.\<close>

definition columns_from :: "nat \<Rightarrow> size_t list \<Rightarrow> nat \<Rightarrow> size_t" where
  "columns_from n cols i = (if i < length cols then cols ! i else n + (i - length cols))"

definition columns_inv :: "nat \<Rightarrow> nat \<Rightarrow> size_t list \<Rightarrow> size_t list \<Rightarrow> bool" where
  "columns_inv n m indices cols \<longleftrightarrow> column_at indices = columns_from n cols \<and> n \<le> length cols
     \<and> (indices = [] \<or> last indices < length indices) \<and> length indices + n \<le> 2 * m + 3 + length cols"

lemma nth_move_list:
  assumes "f < length ys" "t < length ys" "f \<noteq> t" "i < length ys"
  shows "move_list f t ys ! i = moved_at f t ((!) ys) i"
  using assms by (auto simp: move_list_def moved_at_def nth_ins_list nth_del_list)

lemma length_expand_bound:
  "i \<le> m + 1 \<Longrightarrow> length indices + n \<le> 2 * m + 3 + k \<Longrightarrow> n \<le> k \<Longrightarrow> length (expand_to indices i) + n \<le> 2 * m + 3 + k"
  by (auto simp: expand_to_def Let_def max_def)

lemma last_expand_less:
  "no_wrap indices i \<Longrightarrow> indices = [] \<or> last indices < length indices \<Longrightarrow> last (expand_to indices i) < length (expand_to indices i)"
  by (auto simp: expand_to_def Let_def max_def no_wrap_def last_append)

lemma column_step_ok:
  assumes m: "m < 2 ^ 60" and inv: "columns_inv n m indices cols" and pre: "column_pre m op cols"
  shows "succeeds (column_step op indices) (\<lambda>indices'. columns_inv n m indices' (column_spec op cols))"
proof -
  have I: "column_at indices = columns_from n cols" "n \<le> length cols" "indices = [] \<or> last indices < length indices"
    "length indices + n \<le> 2 * m + 3 + length cols" using inv by (simp_all add: columns_inv_def)
  have nw: "no_wrap indices i" if "i \<le> m + 1" "length cols \<le> m" for i
  proof -
    have "length indices \<le> 3 * m + 3" using I(4) that(2) by simp
    then show ?thesis using I(3) that m by (auto simp: no_wrap_def)
  qed
  show ?thesis
  proof (cases op)
    case (ColInsert ndx)
    then have ndx: "ndx \<le> length cols" "length cols \<le> m" using pre by auto
    then have w: "no_wrap indices ndx" using nw by simp
    let ?e = "expand_to indices ndx" and ?new = "column_inserted ndx indices"
    have e: "ndx < length ?e" by (rule length_expand_to)
    have new: "length ?new = Suc (length ?e)" "last ?new = last ?e"
      using e by (simp_all add: column_inserted_eq Let_def)
    have "column_at ?new i = columns_from n (ins_list ndx [npos] cols) i" for i
      using ndx unfolding column_at_inserted [OF w] I(1)
      by (auto simp: columns_from_def nth_ins_list not_less)
    moreover have "length ?e + n \<le> 2 * m + 3 + length cols"
      using length_expand_bound [OF _ I(4,2)] ndx by simp
    moreover have "last ?e < length ?e" using last_expand_less [OF w I(3)] .
    ultimately show ?thesis using ColInsert new ndx I(2) by (auto simp: columns_inv_def)
  next
    case (ColMove f t)
    then have ft: "f < length cols" "t < length cols" "f \<noteq> t" "length cols \<le> m" using pre by auto
    then have b: "max f t + 1 \<le> m + 1" by simp
    then have w: "no_wrap indices (max f t + 1)" using nw ft by simp
    from column_at_moved [OF w ft(3)] obtain "is" where mv: "column_moved f t indices = Some is" "is \<noteq> []"
      "length is = length (expand_to indices (max f t + 1))" "last is = last (expand_to indices (max f t + 1))"
      "column_at is = moved_at f t (column_at indices)" by blast
    have len: "length (move_list f t cols) = length cols" using ft by (auto simp: move_list_def)
    have "column_at is i = columns_from n (move_list f t cols) i" for i
    proof (cases "i < length cols")
      case True
      then show ?thesis using nth_move_list [OF ft(1-3) True] ft unfolding mv(5) I(1)
        by (auto simp: columns_from_def len moved_at_def)
    next
      case False
      then show ?thesis using ft unfolding mv(5) I(1) by (auto simp: columns_from_def len moved_at_def)
    qed
    moreover have "length is + n \<le> 2 * m + 3 + length cols"
      using length_expand_bound [OF b I(4,2)] mv(3) by simp
    moreover have "last is < length is" using last_expand_less [OF w I(3)] mv(3,4) by simp
    ultimately show ?thesis using ColMove mv(1) len I(2) by (auto simp: columns_inv_def)
  qed
qed

interpretation column_sim: simulation "\<lambda>indices cols. m < 2 ^ 60 \<and> columns_inv n m indices cols" column_step "column_pre m" column_spec
  for n m
  by unfold_locales (auto intro: column_step_ok elim!: succeeds_mono)

subsection \<open>The columns of a table in the log\<close>

text \<open>
  The schema of the selected table changes. The initial columns of the table and the columns of the observed
  lists of the table follow.
\<close>

fun column_instruction :: "column_op \<Rightarrow> log_instruction" where
  "column_instruction (ColInsert ndx) = InsertColumn ndx"
| "column_instruction (ColMove from to) = MoveColumn from to"

definition table_columns :: "transaction_change_info \<Rightarrow> size_t \<Rightarrow> size_t list" where
  "table_columns info t = (if t < length (column_indices info) then column_indices info ! t else [])"

text \<open>The lists are those of the start, at the columns that are the ones of the start now.\<close>

definition lists_follow :: "nat \<Rightarrow> size_t \<Rightarrow> size_t list \<Rightarrow> list_change_info list \<Rightarrow> list_change_info list \<Rightarrow> bool" where
  "lists_follow n t cols = list_all2 (\<lambda>l l'. table_ndx l' = table_ndx l \<and> row_ndx l' = row_ndx l
     \<and> list_changes l' = list_changes l
     \<and> (if table_ndx l = t then col_ndx l < n \<longrightarrow> col_ndx l' < length cols \<and> cols ! col_ndx l' = col_ndx l
        else col_ndx l' = col_ndx l))"

definition columns_in_step :: "nat \<Rightarrow> nat \<Rightarrow> size_t \<Rightarrow> list_change_info list \<Rightarrow> observer \<Rightarrow> size_t list \<Rightarrow> bool" where
  "columns_in_step n m t ls ob cols \<longleftrightarrow> m < 2 ^ 60 \<and> columns_inv n m (table_columns (ob_info ob) t) cols
     \<and> active_descriptor ob = active_table ob \<and> is_top_level_table ob \<and> current_table ob = t
     \<and> lists_follow n t cols ls (info_lists (ob_info ob))"

fun list_column :: "column_op \<Rightarrow> size_t \<Rightarrow> size_t" where
  "list_column (ColInsert ndx) i = (if i \<ge> ndx then i + 1 else i)"
| "list_column (ColMove from to) i = adjust_for_move from to i"

lemma list_column_ok:
  assumes "column_pre m op cols" "i < length cols"
  shows "list_column op i < length (column_spec op cols) \<and> column_spec op cols ! list_column op i = cols ! i"
proof (cases op)
  case (ColInsert ndx)
  then show ?thesis using assms by (auto simp: nth_ins_list)
next
  case (ColMove f t)
  then have ft: "f < length cols" "t < length cols" "f \<noteq> t" using assms(1) by auto
  have "length (move_list f t cols) = length cols" using ft by (auto simp: move_list_def)
  moreover have "adjust_for_move f t i < length cols" using ft assms(2) by (auto simp: adjust_for_move_def)
  moreover from this have "move_list f t cols ! adjust_for_move f t i = cols ! i"
    using ft by (auto simp: nth_move_list moved_at_def adjust_for_move_def)
  ultimately show ?thesis using ColMove by simp
qed

lemma lists_follow_step:
  assumes "lists_follow n t cols ls ls'" "column_pre m op cols"
  shows "lists_follow n t (column_spec op cols) ls
    (map (\<lambda>l. if table_ndx l = t then l\<lparr>col_ndx := list_column op (col_ndx l)\<rparr> else l) ls')"
  using assms(1) list_column_ok [OF assms(2)]
  unfolding lists_follow_def list_all2_map2 by (auto elim!: list_all2_mono)

lemma change_active_descriptor:
  "\<exists>info'. change_active (\<lambda>c. Some (f c)) a info = Some info' \<and> column_indices info' = column_indices info
    \<and> info_lists info' = info_lists info \<and> table_indices info' = table_indices info
    \<and> table_modifications_needed info' = table_modifications_needed info"
  by (cases a) auto

lemma update_column_indices_ok:
  assumes "succeeds (f (table_columns (ob_info ob) (current_table ob))) P"
  shows "succeeds (update_column_indices f ob) (\<lambda>ob'. P (table_columns (ob_info ob') (current_table ob))
    \<and> active_descriptor ob' = active_descriptor ob \<and> active_table ob' = active_table ob
    \<and> is_top_level_table ob' = is_top_level_table ob \<and> current_table ob' = current_table ob
    \<and> info_lists (ob_info ob') = info_lists (ob_info ob))"
proof -
  let ?cols = "expand [] (current_table ob + 1) (column_indices (ob_info ob))"
  have "?cols ! current_table ob = table_columns (ob_info ob) (current_table ob)" "current_table ob < length ?cols"
    by (auto simp: expand_def table_columns_def nth_append)
  moreover obtain x where x: "f (table_columns (ob_info ob) (current_table ob)) = Some x" "P x"
    using assms by (auto simp: succeeds_def)
  ultimately have "update_column_indices f ob
      = Some (ob\<lparr>ob_info := (ob_info ob)\<lparr>column_indices := ?cols[current_table ob := x]\<rparr>\<rparr>)" "current_table ob < length ?cols"
    by (simp_all add: update_column_indices_def Let_def)
  then show ?thesis using x(2) by (simp add: table_columns_def [of "_\<lparr>column_indices := _\<rparr>"])
qed

lemma column_log_step:
  assumes "columns_in_step n m t ls ob cols" "column_pre m op cols"
  shows "succeeds (case observe dbg (column_instruction op) ob of Some (Inr ob') \<Rightarrow> Some ob' | _ \<Rightarrow> None)
    (\<lambda>ob'. columns_in_step n m t ls ob' (column_spec op cols))"
proof -
  let ?map = "map_lists (\<lambda>l. if table_ndx l = t then l\<lparr>col_ndx := list_column op (col_ndx l)\<rparr> else l)"
  let ?c = "case op of ColInsert ndx \<Rightarrow> (\<lambda>c. insert_column c ndx) | ColMove f t \<Rightarrow> (\<lambda>c. move_column c f t)"
  obtain ob1 where ob1: "on_descriptor ?c ob = Some ob1" "active_descriptor ob1 = active_descriptor ob" "active_table ob1 = active_table ob"
    "is_top_level_table ob1 = is_top_level_table ob" "current_table ob1 = current_table ob"
    "column_indices (ob_info ob1) = column_indices (ob_info ob)" "info_lists (ob_info ob1) = info_lists (ob_info ob)"
    using change_active_descriptor [of ?c "active_descriptor ob" "(ob_info ob)\<lparr>schema_changed := True\<rparr>"]
    by (auto simp: on_descriptor_def)
  have I: "m < 2 ^ 60" "columns_inv n m (table_columns (ob_info ob) t) cols" "active_descriptor ob = active_table ob"
    "is_top_level_table ob" "current_table ob = t" "lists_follow n t cols ls (info_lists (ob_info ob))"
    using assms(1) by (simp_all add: columns_in_step_def)
  have m1: "op = ColInsert ndx \<Longrightarrow> (\<lambda>l :: list_change_info. if table_ndx l = current_table ob \<and> ndx \<le> col_ndx l then l\<lparr>col_ndx := col_ndx l + 1\<rparr> else l)
      = (\<lambda>l. if table_ndx l = t then l\<lparr>col_ndx := list_column op (col_ndx l)\<rparr> else l)" for ndx
    using I(5) by (auto simp: fun_eq_iff)
  have m2: "op = ColMove a b \<Longrightarrow> (\<lambda>l :: list_change_info. if table_ndx l = current_table ob then l\<lparr>col_ndx := adjust_for_move a b (col_ndx l)\<rparr> else l)
      = (\<lambda>l. if table_ndx l = t then l\<lparr>col_ndx := list_column op (col_ndx l)\<rparr> else l)" for a b
    using I(5) by (auto simp: fun_eq_iff)
  have step: "observe dbg (column_instruction op) ob = map_option Inr (update_column_indices (column_step op) (?map ob1))"
  proof (cases op)
    case (ColInsert ndx)
    have "column_step op = (\<lambda>is. Some (column_inserted ndx is))" using ColInsert by auto
    then show ?thesis using ob1 I(3,4) ColInsert m1 [OF ColInsert] by (simp add: observe_insert_column_def)
  next
    case (ColMove a b)
    have "column_step op = column_moved a b" using ColMove by auto
    then show ?thesis using ob1 I(3,4) ColMove m2 [OF ColMove] by (simp add: observe_move_column_def)
  qed
  have at: "table_columns (ob_info (?map ob1)) (current_table (?map ob1)) = table_columns (ob_info ob) t"
    using ob1(5,6) I(5) by (simp add: map_lists_def table_columns_def)
  from column_step_ok [OF I(1,2) assms(2), folded at]
  have "succeeds (update_column_indices (column_step op) (?map ob1)) (\<lambda>ob'. columns_in_step n m t ls ob' (column_spec op cols))"
    by (rule succeeds_mono [OF update_column_indices_ok])
      (use ob1 I lists_follow_step [OF I(6) assms(2)] in \<open>auto simp: columns_in_step_def map_lists_def\<close>)
  then show ?thesis unfolding step by (auto simp: succeeds_def)
qed

definition column_log :: "bool \<Rightarrow> column_op \<Rightarrow> observer \<Rightarrow> observer option" where
  "column_log dbg op ob = (case observe dbg (column_instruction op) ob of Some (Inr ob') \<Rightarrow> Some ob' | _ \<Rightarrow> None)"

interpretation column_log_sim: simulation "columns_in_step n m t ls" "column_log dbg" "column_pre m" column_spec
  for n m t ls dbg
  by unfold_locales (simp add: column_log_def column_log_step)

lemma observe_column_log:
  "fold_opt (column_log dbg) ops ob = Some ob' \<Longrightarrow> observe_log dbg (map column_instruction ops) ob = Some (Inr ob')"
  by (induction ops arbitrary: ob) (auto simp: column_log_def split: option.splits sum.splits Option.bind_splits)

end
