(* ===== verification/Transact_KVO.thy ===== *)
theory Transact_KVO
  imports Transact_Rows Index_Set_Bulk
begin

section \<open>The changes of observed rows\<close>

text \<open>
  The model of \<open>KVOAdapter\<close> in \<open>transact_log_handler.cpp\<close>: the tables and lists that have to be watched for
  the rows the binding observes, and the changes reported for each of them before the transaction advances.

  \<^item> The pointers to observers and to builders of lists are indices. What the group says of its columns and of
    the sizes of its subtables is a parameter.
  \<^item> \<open>lower_bound\<close> over the moves, which are sorted by their source, drops those with a smaller source.
  \<^item> Not modelled: the versions of the transaction and the calls of the binding context.
\<close>

datatype change_kind = KindNone | KindSet | KindInsert | KindRemove | KindSetAll

record column_info =
  initial_column_index :: size_t
  change_kind :: change_kind
  change_indices :: index_set

record observer_state =
  observed_table :: size_t
  observed_row :: size_t
  observer_info :: nat
  observer_changes :: "column_info list"

record list_info =
  list_observer :: nat
  list_builder :: nat
  list_col :: size_t
  list_initial_size :: size_t

record kvo_adapter =
  kvo_observers :: "observer_state list"
  kvo_invalidated :: "nat list"
  kvo_lists :: "list_info list"

definition column_info_new :: column_info where
  "column_info_new = \<lparr>initial_column_index = npos, change_kind = KindNone, change_indices = []\<rparr>"

subsection \<open>Before the log\<close>

text \<open>The columns of the row of the observer \<open>k\<close> that are lists, with their initial size.\<close>

fun observer_lists :: "(size_t \<Rightarrow> size_t) \<Rightarrow> nat \<Rightarrow> (nat \<times> data_type) list \<Rightarrow> (nat \<times> size_t \<times> size_t) list" where
  "observer_lists subtable_size k [] = []"
| "observer_lists subtable_size k ((i, type) # cs) =
     (if type = type_LinkList then (k, i, npos) # observer_lists subtable_size k cs
      else if type = type_Table then (k, i, subtable_size i) # observer_lists subtable_size k cs
      else observer_lists subtable_size k cs)"

definition all_lists :: "link_tables \<Rightarrow> (size_t \<Rightarrow> size_t \<Rightarrow> size_t \<Rightarrow> size_t) \<Rightarrow> observer_state list \<Rightarrow> (nat \<times> size_t \<times> size_t) list" where
  "all_lists g subtable_size os = concat (map (\<lambda>(k, ob).
     observer_lists (\<lambda>i. subtable_size (observed_table ob) i (observed_row ob)) k
       (enumerate 0 (column_types g (observed_table ob)))) (enumerate 0 os))"

definition need_tables :: "size_t list \<Rightarrow> bool list \<Rightarrow> bool list" where
  "need_tables ts bs = (let bs = (if Max (set ts) \<ge> length bs then expand False (Max (set ts) + 1) bs else bs)
     in fold (\<lambda>t bs. bs[t := True]) ts bs)"

definition kvo_new :: "link_tables \<Rightarrow> (size_t \<Rightarrow> size_t \<Rightarrow> size_t \<Rightarrow> size_t) \<Rightarrow> observer_state list
    \<Rightarrow> kvo_adapter \<times> transaction_change_info" where
  "kvo_new g subtable_size os =
     (if os = [] then (\<lparr>kvo_observers = os, kvo_invalidated = [], kvo_lists = []\<rparr>, info_new)
      else
        let ts = remdups (sort (map observed_table os));
            ls = map (\<lambda>(k, o_ndx, i, n). \<lparr>list_observer = o_ndx, list_builder = k, list_col = i, list_initial_size = n\<rparr>)
                   (enumerate 0 (all_lists g subtable_size os))
        in (\<lparr>kvo_observers = os, kvo_invalidated = [], kvo_lists = ls\<rparr>,
            info_new\<lparr>table_modifications_needed := need_tables ts [], table_moves_needed := need_tables ts [],
              info_lists := map (\<lambda>l. \<lparr>table_ndx = observed_table (os ! list_observer l), row_ndx = observed_row (os ! list_observer l),
                                      col_ndx = list_col l, list_changes = list_builder l\<rparr>) ls,
              builders := replicate (length ls) cb_nil\<rparr>))"

subsection \<open>After the log\<close>

definition new_table_ndx :: "transaction_change_info \<Rightarrow> size_t \<Rightarrow> size_t" where
  "new_table_ndx info t = (if t < length (table_indices info) then table_indices info ! t else t)"

definition initial_column :: "transaction_change_info \<Rightarrow> size_t \<Rightarrow> size_t \<Rightarrow> size_t" where
  "initial_column info t i =
     (if length (column_indices info) \<le> t \<or> column_indices info ! t = [] then i
      else let indices = column_indices info ! t in
        if length indices \<le> i then i - length indices + last indices + 1 else indices ! i)"

text \<open>The new index of a row, \<open>None\<close> when it has been deleted.\<close>

definition kept_row_ndx :: "bool \<Rightarrow> change_builder \<Rightarrow> size_t \<Rightarrow> size_t option option" where
  "kept_row_ndx dbg c row = do {
     deleted \<leftarrow> contains dbg (deletions c) row;
     if deleted then Some None
     else do { n \<leftarrow> unshift dbg (deletions c) row; Some (Some (shift (insertions c) n)) } }"

definition new_row_ndx :: "bool \<Rightarrow> change_builder \<Rightarrow> size_t \<Rightarrow> size_t option option" where
  "new_row_ndx dbg c row =
     (case dropWhile (\<lambda>m. mv_from m < row) (moves c) of
        m # ms \<Rightarrow> if mv_from m = row then Some (Some (mv_to m)) else kept_row_ndx dbg c row
      | [] \<Rightarrow> kept_row_ndx dbg c row)"

text \<open>The columns of an observed row that is now at \<open>row\<close>.\<close>

fun changed_columns :: "bool \<Rightarrow> transaction_change_info \<Rightarrow> size_t \<Rightarrow> size_t \<Rightarrow> nat \<Rightarrow> index_set list \<Rightarrow> column_info list
    \<Rightarrow> column_info list option" where
  "changed_columns dbg info t row i (c # cs) (ch # chs) = do {
     let ch = ch\<lparr>initial_column_index := initial_column info t i\<rparr>;
     modified \<leftarrow> (if initial_column_index ch \<noteq> npos then contains dbg c row else Some False);
     rest \<leftarrow> changed_columns dbg info t row (i + 1) cs chs;
     Some ((if modified then ch\<lparr>change_kind := KindSet\<rparr> else ch) # rest) }"
| "changed_columns dbg info t row i _ chs = Some chs"

definition resize_changes :: "nat \<Rightarrow> column_info list \<Rightarrow> column_info list" where
  "resize_changes n chs = take n (expand column_info_new n chs)"

text \<open>The observer with its changes, and whether its row is gone.\<close>

definition observer_before :: "bool \<Rightarrow> transaction_change_info \<Rightarrow> observer_state \<Rightarrow> (observer_state \<times> bool) option" where
  "observer_before dbg info ob =
     (let t = new_table_ndx info (observed_table ob) in
      if length (info_tables info) \<le> t then Some (ob, False)
      else do {
        let c = info_tables info ! t;
        row \<leftarrow> new_row_ndx dbg c (observed_row ob);
        case row of
          None \<Rightarrow> Some (ob, True)
        | Some row \<Rightarrow> do {
            modified \<leftarrow> contains dbg (modifications c) row;
            if \<not> modified then Some (ob, False)
            else do {
              chs \<leftarrow> changed_columns dbg info t row 0 (columns c) (resize_changes (length (columns c)) (observer_changes ob));
              Some (ob\<lparr>observer_changes := chs\<rparr>, False) } } })"

fun observers_before :: "bool \<Rightarrow> transaction_change_info \<Rightarrow> observer_state list \<Rightarrow> (observer_state list \<times> nat list) option" where
  "observers_before dbg info [] = Some ([], [])"
| "observers_before dbg info (ob # obs) = do {
     (ob', gone) \<leftarrow> observer_before dbg info ob;
     (obs', gones) \<leftarrow> observers_before dbg info obs;
     Some (ob' # obs', if gone then observer_info ob # gones else gones) }"

text \<open>
  The positions that the moves of a list have shifted. \<open>in_range\<close> steps over a range that has been passed
  and says whether the position is in the next.
\<close>

fun in_range :: "range list \<Rightarrow> int \<Rightarrow> range list \<times> bool" where
  "in_range [] i = ([], False)"
| "in_range (r # rs) i =
     (let rs' = (if int (snd r) \<le> i then rs else r # rs)
      in (rs', case rs' of [] \<Rightarrow> False | q # _ \<Rightarrow> int (fst q) \<le> i \<and> i < int (snd q)))"

fun shifted_by_moves :: "bool \<Rightarrow> size_t list \<Rightarrow> range list \<Rightarrow> range list \<Rightarrow> int \<Rightarrow> index_set \<Rightarrow> index_set option" where
  "shifted_by_moves dbg [] del ins sh indices = Some indices"
| "shifted_by_moves dbg (i # is) del ins sh indices =
     (let (del, deleted) = in_range del (int i);
          (ins, inserted) = (if deleted then (ins, False) else in_range ins (int i + sh));
          sh = (if deleted then sh - 1 else if inserted then sh + 1 else sh)
      in do {
        indices \<leftarrow> (if sh \<noteq> 0 then add dbg indices i else Some indices);
        shifted_by_moves dbg is del ins sh indices })"

definition moved_indices :: "bool \<Rightarrow> change_builder \<Rightarrow> index_set option" where
  "moved_indices dbg c = do {
     indices \<leftarrow> add_set dbg (modifications c) (deletions c);
     let del = ranges (deletions c);
     let ins = ranges (insertions c);
     shifted_by_moves dbg [min (fst (hd ins)) (fst (hd del)) ..< max (snd (last ins)) (snd (last del))] del ins 0 indices }"

definition only_moves :: "bool \<Rightarrow> change_builder \<Rightarrow> bool option" where
  "only_moves dbg c =
     (if moves c = [] then Some False
      else do {
        i \<leftarrow> count dbg (insertions c) 0 npos;
        if i \<noteq> length (moves c) then Some False
        else do { d \<leftarrow> count dbg (deletions c) 0 npos; Some (d = length (moves c)) } })"

definition list_change :: "bool \<Rightarrow> change_builder \<Rightarrow> size_t \<Rightarrow> column_info \<Rightarrow> column_info option" where
  "list_change dbg c initial_size ch = do {
     only_moves \<leftarrow> only_moves dbg c;
     if only_moves then do {
       indices \<leftarrow> moved_indices dbg c;
       Some (ch\<lparr>change_kind := KindSet, change_indices := indices\<rparr>) }
     else if length (filter ((=) []) [insertions c, modifications c, deletions c]) < 2 then
       Some (ch\<lparr>change_kind := KindSetAll\<rparr>)
     else if insertions c \<noteq> [] then Some (ch\<lparr>change_kind := KindInsert, change_indices := insertions c\<rparr>)
     else if modifications c \<noteq> [] then Some (ch\<lparr>change_kind := KindSet, change_indices := modifications c\<rparr>)
     else do {
       realm_assert (deletions c \<noteq> []);
       indices \<leftarrow> (if last_end (deletions c) > initial_size then set_len dbg (change_indices ch) initial_size
                  else Some (deletions c));
       Some (ch\<lparr>change_kind := KindRemove, change_indices := indices\<rparr>) } }"

definition list_before :: "bool \<Rightarrow> list_info \<Rightarrow> transaction_change_info \<Rightarrow> observer_state list
    \<Rightarrow> (transaction_change_info \<times> observer_state list) option" where
  "list_before dbg l info obs =
     (let c = builders info ! list_builder l; ob = obs ! list_observer l; chs = observer_changes ob; i = list_col l in
      if cs_empty c then
        Some (info, if i < length chs then obs[list_observer l := ob\<lparr>observer_changes := chs[i := (chs ! i)\<lparr>change_kind := KindNone\<rparr>]\<rparr>]
                    else obs)
      else if chs = [] then do {
        gone \<leftarrow> (if dbg then contains dbg (deletions (info_tables info ! new_table_ndx info (observed_table ob))) (observed_row ob)
                else Some True);
        realm_assert_debug dbg gone;
        Some (info, obs) }
      else do {
        realm_assert (i < length chs);
        modif \<leftarrow> remove_set dbg (modifications c) (insertions c);
        let c = c\<lparr>modifications := modif\<rparr>;
        ch \<leftarrow> list_change dbg c (list_initial_size l) (chs ! i);
        Some (info\<lparr>builders := (builders info)[list_builder l := c]\<rparr>,
              obs[list_observer l := ob\<lparr>observer_changes := chs[i := ch]\<rparr>]) })"

fun lists_before :: "bool \<Rightarrow> list_info list \<Rightarrow> transaction_change_info \<Rightarrow> observer_state list
    \<Rightarrow> (transaction_change_info \<times> observer_state list) option" where
  "lists_before dbg [] info obs = Some (info, obs)"
| "lists_before dbg (l # ls) info obs = do {
     (info, obs) \<leftarrow> list_before dbg l info obs; lists_before dbg ls info obs }"

definition kvo_before :: "bool \<Rightarrow> kvo_adapter \<Rightarrow> transaction_change_info \<Rightarrow> (kvo_adapter \<times> transaction_change_info) option" where
  "kvo_before dbg k info =
     (if info_tables info = [] then Some (k, info)
      else do {
        (obs, gone) \<leftarrow> observers_before dbg info (kvo_observers k);
        (info, obs) \<leftarrow> lists_before dbg (kvo_lists k) info obs;
        Some (k\<lparr>kvo_observers := obs, kvo_invalidated := kvo_invalidated k @ gone\<rparr>, info) })"

text \<open>\<open>KVOTransactLogObserver\<close>: the log is observed for the rows, and ends with \<open>parse_complete\<close>.\<close>

definition kvo_observe :: "bool \<Rightarrow> link_tables \<Rightarrow> (size_t \<Rightarrow> size_t \<Rightarrow> size_t \<Rightarrow> size_t) \<Rightarrow> observer_state list \<Rightarrow> log_instruction list
    \<Rightarrow> (log_error + kvo_adapter) option" where
  "kvo_observe dbg g subtable_size os log =
     (let (k, info) = kvo_new g subtable_size os in
      case observe_log dbg log (observer_new info) of
        None \<Rightarrow> None
      | Some (Inl e) \<Rightarrow> Some (Inl e)
      | Some (Inr ob) \<Rightarrow> do {
          info \<leftarrow> log_complete dbg (ob_info ob);
          (k, info) \<leftarrow> kvo_before dbg k info;
          Some (Inr k) })"

subsection \<open>Where an observed row has gone\<close>

text \<open>A change set that is right says of every row whether it is gone, and where it is if not.\<close>

definition row_followed :: "change_builder \<Rightarrow> ('k, 'v) row list \<Rightarrow> ('k, 'v) row list \<Rightarrow> size_t \<Rightarrow> size_t option \<Rightarrow> bool" where
  "row_followed c xs ys row r \<longleftrightarrow> (case r of
     None \<Rightarrow> row \<in> idx (deletions c) \<and> row \<notin> mv_from ` set (moves c)
   | Some j \<Rightarrow> j < length ys \<and> fst (xs ! row) = fst (ys ! j) \<and> (j \<notin> idx (modifications c) \<longrightarrow> xs ! row = ys ! j))"

lemma row_followedI:
  assumes d: "describes dbg c xs ys" and p: "corr (idx (deletions c)) (idx (insertions c)) row j \<or> (row, j) \<in> move_pairs c"
    and row: "row < length xs"
  shows "row_followed c xs ys row (Some j)"
proof -
  have t: "fits (idx (deletions c)) (idx (insertions c)) (move_pairs c) (length xs) (length ys)"
    "same fst {} (cb_pairs c (length xs) (length ys)) xs ys" using d by (simp_all add: describes_def tracks_def)
  have j: "j < length ys" using p fits_corr_less [OF t(1)] t(1) row by (auto simp: fits_def)
  then have "(row, j) \<in> cb_pairs c (length xs) (length ys)" using p row by (simp add: pairs_def)
  then have "fst (xs ! row) = fst (ys ! j)" "j \<notin> idx (modifications c) \<Longrightarrow> snd (xs ! row) = snd (ys ! j)"
    using t(2) d by (auto simp: same_def describes_def)
  then show ?thesis using j by (auto simp: row_followed_def prod_eq_iff)
qed

lemma lower_bound_sorted:
  assumes "sorted (map f xs)"
  shows "case dropWhile (\<lambda>x. f x < k) xs of x # ys \<Rightarrow> x \<in> set xs \<and> (f x = k \<or> k \<notin> f ` set xs) | [] \<Rightarrow> k \<notin> f ` set xs"
  using assms
proof (induction xs)
  case (Cons a xs)
  show ?case
  proof (cases "f a < k")
    case True
    have "case dropWhile (\<lambda>x. f x < k) xs of x # ys \<Rightarrow> x \<in> set xs \<and> (f x = k \<or> k \<notin> f ` set xs) | [] \<Rightarrow> k \<notin> f ` set xs"
      using Cons by simp
    then show ?thesis using True by (auto simp del: dropWhile_eq_Nil_conv split: list.splits)
  next
    case False
    then show ?thesis using Cons.prems by fastforce
  qed
qed simp

lemma kept_row_ndx_ok:
  assumes d: "describes dbg c xs ys" and row: "row < length xs" "row \<notin> mv_from ` set (moves c)"
  shows "succeeds (kept_row_ndx dbg c row) (row_followed c xs ys row)"
proof -
  let ?D = "idx (deletions c)" and ?I = "idx (insertions c)"
  have c: "crv_ok dbg (deletions c)" "crv_ok dbg (insertions c)" using d by (simp_all add: describes_def cb_ok_def)
  have fin: "finite ?I" using d by (auto simp: describes_def tracks_def dest: fits_finite)
  show ?thesis
  proof (cases "row \<in> ?D")
    case True
    then show ?thesis using row by (simp add: kept_row_ndx_def contains_ok [OF c(1)] row_followed_def)
  next
    case False
    have "corr ?D ?I row (shift_of ?I (unshift_of ?D row))" using corr_shift [OF fin False] by simp
    from row_followedI [OF d disjI1 [OF this] row(1)] show ?thesis
      using False by (simp add: kept_row_ndx_def contains_ok [OF c(1)] unshift_ok [OF c(1)] shift_ok [OF c(2)])
  qed
qed

lemma new_row_ndx_ok:
  assumes d: "describes dbg c xs ys" and s: "sorted (map mv_from (moves c))" and row: "row < length xs"
  shows "succeeds (new_row_ndx dbg c row) (row_followed c xs ys row)"
proof (cases "dropWhile (\<lambda>m. mv_from m < row) (moves c)")
  case Nil
  note lb = lower_bound_sorted [OF s, of row, unfolded Nil, simplified]
  show ?thesis using kept_row_ndx_ok [OF d row lb] Nil by (simp only: new_row_ndx_def list.case)
next
  case (Cons m ms)
  note lb = lower_bound_sorted [OF s, of row, unfolded Cons, simplified]
  show ?thesis
  proof (cases "mv_from m = row")
    case True
    then have "(row, mv_to m) \<in> move_pairs c" using lb by (force simp: move_pairs_def)
    from row_followedI [OF d disjI2 [OF this] row] show ?thesis using Cons True by (simp add: new_row_ndx_def)
  next
    case False
    then show ?thesis using kept_row_ndx_ok [OF d row] lb Cons by (simp add: new_row_ndx_def)
  qed
qed

end
