(* ===== verification/Transact_Claims.thy ===== *)
theory Transact_Claims
  imports Transact_Columns Transact_KVO "HOL-Library.Code_Target_Nat"
begin

section \<open>Properties of the observer of the transaction log\<close>

text \<open>
  What a log says of the tables that are tracked, of an observed row and of the columns of a table, and the
  cases in which the bookkeeping of lists, columns and tables goes wrong.
\<close>

declare npos_def [code]

lemma log_spec_length: "length (snd (log_spec ev g)) = length (snd g)"
  by (cases ev; cases g; cases "fst g") auto

lemma fold_log_spec_length: "length (snd (fold log_spec evs g)) = length (snd g)"
  by (induction evs arbitrary: g) (simp_all add: log_spec_length)

lemma log_observed:
  assumes "tables_wanted info" "log_sim.enabled evs (None, ts)"
  shows "\<exists>ob info'. observe_log dbg (map log_of evs) (observer_new info) = Some (Inr ob)
    \<and> log_complete dbg (ob_info ob) = Some info'
    \<and> (\<forall>t. if tracked info t \<and> t < length ts
           then describes dbg (changes_of info' t) (ts ! t) (snd (fold log_spec evs (None, ts)) ! t)
             \<and> sorted (map mv_from (moves (changes_of info' t)))
           else changes_of info' t = cb_nil)"
proof -
  obtain cur ts' where f: "fold log_spec evs (None, ts) = (cur, ts')" by fastforce
  from log_sim.run_ok [OF in_step_new [OF assms(1)] assms(2)] obtain ob where
    ob: "fold_opt (log_step dbg) evs (observer_new info) = Some ob" "in_step dbg info ts ob (cur, ts')"
    unfolding f by (rule succeedsE)
  from log_complete_ok [OF ob(2)] obtain info' where "log_complete dbg (ob_info ob) = Some info'"
    "\<forall>t. if tracked info t \<and> t < length ts' then describes dbg (changes_of info' t) (ts ! t) (ts' ! t)
      \<and> sorted (map mv_from (moves (changes_of info' t))) else changes_of info' t = cb_nil" by (rule succeedsE)
  then show ?thesis using observe_log_step [OF ob(1)] fold_log_spec_length [of evs "(None, ts)"] f by auto
qed

lemma select_table_ok:
  "succeeds (select_table dbg t [] ob) (\<lambda>ob'. is_top_level_table ob' \<and> current_table ob' = t
    \<and> column_indices (ob_info ob') = column_indices (ob_info ob) \<and> info_lists (ob_info ob') = info_lists (ob_info ob)
    \<and> builders (ob_info ob') = builders (ob_info ob) \<and> table_indices (ob_info ob') = table_indices (ob_info ob)
    \<and> table_modifications_needed (ob_info ob') = table_modifications_needed (ob_info ob))"
  by (auto simp: select_table_def Let_def)

text \<open>Two tables of two rows, of which only the second is tracked.\<close>

definition second_wanted :: transaction_change_info where
  "second_wanted = info_new\<lparr>table_modifications_needed := [False, True], table_moves_needed := [False, True]\<rparr>"

definition two_tables :: "(nat, nat) row list list" where
  "two_tables = [[(1, 0), (2, 0)], [(3, 0), (4, 0)]]"

definition some_events :: "(nat, nat) log_event list" where
  "some_events = [SelectRows 0, ChangeRows (Row_modify 0 0 5), SelectRows 1, ChangeRows (Row_insert 2 [(5, 0)]),
     ChangeRows (Row_move_over 0 2), ChangeList 0 1 7]"

lemma some_events_ok: "tables_wanted second_wanted" "log_sim.enabled some_events (None, two_tables)"
  by (auto simp: tables_wanted_def second_wanted_def info_new_def tracked_def needed_def some_events_def two_tables_def
      move_over_list_def npos_def less_Suc_eq)

lemma some_events_run: "tracked second_wanted 1" "\<not> tracked second_wanted 0" "1 < length two_tables" "1 < length (two_tables ! 1)"
    "two_tables ! 1 = [(3, 0), (4, 0)]" "snd (fold log_spec some_events (None, two_tables)) ! 1 = [(5, 0), (4, 7)]"
  by (auto simp: tracked_def second_wanted_def needed_def info_new_def two_tables_def some_events_def move_over_list_def)





text \<open>C35: The columns of a table. However columns are inserted and moved, the initial index of every column
  is the index that it had at the start of the transaction, \<open>npos\<close> for a new one, and every observed list of
  the table is at the column that was its column.\<close>

theorem columns_followed:
  assumes "column_indices info = []" "m < 2 ^ 60" "n \<le> m" "column_log_sim.enabled m ops [0..<n]"
  shows "\<exists>ob. observe_log dbg (SelectTable t [] # SelectDescriptor 0 # map column_instruction ops) (observer_new info) = Some (Inr ob)
    \<and> (\<forall>i<length (fold column_spec ops [0..<n]). initial_column (ob_info ob) t i = fold column_spec ops [0..<n] ! i)
    \<and> lists_follow n t (fold column_spec ops [0..<n]) (info_lists info) (info_lists (ob_info ob))"
proof -
  let ?cols = "fold column_spec ops [0..<n]"
  obtain ob0 where ob0: "select_table dbg t [] (observer_new info) = Some ob0" "is_top_level_table ob0" "current_table ob0 = t"
    "column_indices (ob_info ob0) = []" "info_lists (ob_info ob0) = info_lists info"
    using select_table_ok [of dbg t "observer_new info"] assms(1) by (auto simp: succeeds_def observer_new_def)
  have "lists_follow n t [0..<n] ls ls" for ls
    by (auto simp: lists_follow_def list_all2_conv_all_nth)
  moreover have "columns_inv n m [] [0..<n]" by (auto simp: columns_inv_def column_at_def columns_from_def fun_eq_iff)
  ultimately have "columns_in_step n m t (info_lists info) (select_descriptor 0 ob0) [0..<n]"
    using ob0 assms(2) by (simp add: columns_in_step_def select_descriptor_def table_columns_def)
  from column_log_sim.run_ok [OF this assms(4), of dbg] obtain ob where
    ob: "fold_opt (column_log dbg) ops (select_descriptor 0 ob0) = Some ob" "columns_in_step n m t (info_lists info) ob ?cols"
    by (rule succeedsE)
  have "initial_column (ob_info ob) t i = column_at (table_columns (ob_info ob) t) i" for i
    by (simp add: initial_column_def column_at_def table_columns_def Let_def)
  then show ?thesis using observe_column_log [OF ob(1)] ob(2) ob0(1)
    by (auto simp: columns_in_step_def columns_inv_def columns_from_def)
qed

theorem columns_followed_witness:
  "\<exists>ob. observe_log True [SelectTable 0 [], SelectDescriptor 0, InsertColumn 1, MoveColumn 2 0] (observer_new info_new) = Some (Inr ob)
    \<and> (\<forall>i<3. initial_column (ob_info ob) 0 i = [1, 0, npos] ! i)"
proof -
  have *: "fold column_spec [ColInsert 1, ColMove 2 0] [0..<2] = [1, 0, npos]"
    "column_log_sim.enabled 3 [ColInsert 1, ColMove 2 0] [0..<2]"
    by (simp_all add: ins_list_def move_list_def del_list_def upt_rec)
  show ?thesis using columns_followed [of info_new 3 2 "[ColInsert 1, ColMove 2 0]" True 0] * by (auto simp: info_new_def)
qed

subsection \<open>Lists, columns and tables that are lost\<close>

text \<open>The list that is observed at a cell of a table, and the log that erases a row and then changes the list of
  the row that takes its place.\<close>

definition list_at :: "size_t \<Rightarrow> size_t \<Rightarrow> size_t \<Rightarrow> nat \<Rightarrow> list_change_info" where
  "list_at t row c k = \<lparr>table_ndx = t, row_ndx = row, col_ndx = c, list_changes = k\<rparr>"

definition erase_then_change :: "size_t \<Rightarrow> size_t \<Rightarrow> size_t \<Rightarrow> size_t \<Rightarrow> log_instruction list" where
  "erase_then_change t row last_row c =
     [SelectTable t [], EraseRows row (last_row + 1) True, SelectLinkList c row, LinkListInsert 0]"

lemma insert_not_nil: "case_option False (\<lambda>c. insertions c \<noteq> []) (cb_insert True cb_nil 0 1 True)"
    "case_option False (\<lambda>c. insertions c \<noteq> []) (cb_insert False cb_nil 0 1 True)"
  by code_simp+

lemma select_untracked: "\<not> tracked info t \<Longrightarrow> select_table dbg t [] (observer_new info)
    = Some ((observer_new info)\<lparr>current_table := t\<rparr>)"
  by (simp add: select_table_def observer_new_def tracked_def)

lemma erase_then_change_eq:
  assumes "\<not> tracked info t" "builders info = [cb_nil, cb_nil]"
  shows "observe_log dbg (erase_then_change t row last_row c) (observer_new info) =
    (let ls = erase_lists t row last_row 0 (info_lists info); info' = info\<lparr>info_lists := ls\<rparr> in
     map_option Inr (on_list (\<lambda>b. cb_insert dbg b 0 1 True)
       ((observer_new info')\<lparr>current_table := t, active_list := find_list info' t c row\<rparr>)))"
  using assms by (simp add: erase_then_change_def select_untracked) (simp add: observer_new_def observe_erase_rows_def on_table_def
      select_link_list_def mark_dirty_def link_list_insert_def Let_def split: option.splits)

text \<open>The loop over the observed lists when a row is erased. When the list of the erased row comes first and
  the list of the last row, which takes its place, is at the back, the list that is moved to the front is not
  looked at: it stays at its old row and its later changes are lost. In the other order they are observed.\<close>

theorem erased_row_loses_list:
  assumes "\<not> tracked info t" "builders info = [cb_nil, cb_nil]" "row < last_row"
  shows "(\<exists>ob. observe_log dbg (erase_then_change t row last_row c)
      (observer_new (info\<lparr>info_lists := [list_at t row c 0, list_at t last_row c 1]\<rparr>)) = Some (Inr ob)
      \<and> builders (ob_info ob) = [cb_nil, cb_nil])
    \<and> (\<exists>ob. observe_log dbg (erase_then_change t row last_row c)
      (observer_new (info\<lparr>info_lists := [list_at t last_row c 1, list_at t row c 0]\<rparr>)) = Some (Inr ob)
      \<and> insertions (builders (ob_info ob) ! 1) \<noteq> [])"
proof -
  have u: "\<not> tracked (info\<lparr>info_lists := ls\<rparr>) t" "builders (info\<lparr>info_lists := ls\<rparr>) = [cb_nil, cb_nil]" for ls
    using assms by (simp_all add: tracked_def)
  have 1: "erase_lists t row last_row 0 [list_at t row c 0, list_at t last_row c 1] = [list_at t last_row c 1]"
    using assms(3) by (simp add: erase_lists.simps list_at_def)
  have 2: "erase_lists t row last_row 0 [list_at t last_row c 1, list_at t row c 0] = [list_at t row c 1]"
    using assms(3) by (simp add: erase_lists.simps list_at_def)
  have 3: "find_list (info\<lparr>info_lists := [list_at t last_row c 1]\<rparr>) t c row = None"
    "find_list (info\<lparr>info_lists := [list_at t row c 1]\<rparr>) t c row = Some 1"
    using assms(3) by (simp_all add: find_list_def list_at_def)
  obtain b where b: "cb_insert dbg cb_nil 0 1 True = Some b" "insertions b \<noteq> []"
    using insert_not_nil by (cases dbg) (auto split: option.splits)
  show ?thesis unfolding erase_then_change_eq [OF u]
    using b by (simp add: 1 2 3 on_list_def observer_new_def assms(2) Let_def del: One_nat_def) simp
qed

theorem erased_row_loses_list_witness:
  "\<exists>ob. observe_log True (erase_then_change 0 1 2 3)
      (observer_new (info_new\<lparr>builders := [cb_nil, cb_nil], info_lists := [list_at 0 1 3 0, list_at 0 2 3 1]\<rparr>)) = Some (Inr ob)
      \<and> builders (ob_info ob) = [cb_nil, cb_nil]"
  using erased_row_loses_list [of "info_new\<lparr>builders := [cb_nil, cb_nil]\<rparr>" 0 1 2 True 3]
  by (simp add: tracked_def needed_def info_new_def)

text \<open>The initial indices of columns do not follow the tables. When a table is inserted before a table with
  a new column, the column is taken to be an old one at the new index of the table, and the table that has its
  old index is taken to have a new column.\<close>

theorem columns_left_behind:
  assumes "column_indices info = []" "t < length (table_modifications_needed info)" "table_indices info = []" "ndx \<le> t"
  shows "\<exists>ob. observe_log dbg [SelectTable t [], SelectDescriptor 0, InsertColumn c, InsertGroupLevelTable ndx] (observer_new info)
      = Some (Inr ob)
    \<and> new_table_ndx (ob_info ob) t = t + 1 \<and> initial_column (ob_info ob) (t + 1) c = c
    \<and> initial_column (ob_info ob) t c = npos"
proof -
  obtain ob0 where ob0: "select_table dbg t [] (observer_new info) = Some ob0" "is_top_level_table ob0" "current_table ob0 = t"
    "column_indices (ob_info ob0) = []" "table_indices (ob_info ob0) = []"
    "table_modifications_needed (ob_info ob0) = table_modifications_needed info"
    using select_table_ok [of dbg t "observer_new info"] assms(1,3) by (auto simp: succeeds_def observer_new_def)
  let ?ob1 = "select_descriptor 0 ob0"
  obtain info1 where info1: "change_active (\<lambda>x. Some (insert_column x c)) (active_descriptor ?ob1) ((ob_info ?ob1)\<lparr>schema_changed := True\<rparr>) = Some info1"
    "column_indices info1 = []" "table_indices info1 = []" "table_modifications_needed info1 = table_modifications_needed info"
    using change_active_descriptor [of "\<lambda>x. insert_column x c" "active_descriptor ?ob1" "(ob_info ?ob1)\<lparr>schema_changed := True\<rparr>"] ob0
    by (auto simp: select_descriptor_def)
  let ?cols = "(expand [] (t + 1) [])[t := column_inserted c []]"
  have e: "expand [] (t + 1) [] = replicate (t + 1) []" by (simp add: expand_def)
  have e': "replicate (t + 1) [] ! t = []" by (rule nth_replicate) simp
  obtain ob2 where ob2: "observe_insert_column c ?ob1 = Some ob2" "column_indices (ob_info ob2) = ?cols" "table_indices (ob_info ob2) = []"
    "table_modifications_needed (ob_info ob2) = table_modifications_needed info"
    using info1 ob0(2,3) by (simp add: observe_insert_column_def on_descriptor_def update_column_indices_def Let_def
        select_descriptor_def map_lists_def e e' del: replicate_Suc replicate.simps add_Suc_right One_nat_def)
  have c: "column_inserted c [] ! c = npos" "c < length (column_inserted c [])"
    by (simp_all add: column_inserted_def insert_empty_at_def expand_to_def)
  obtain cols where cols: "cols = ?cols" by simp
  have l: "length cols = t + 1" "cols ! t = column_inserted c []" unfolding cols e by (simp_all add: nth_list_update_eq del: replicate_Suc)
  have "table_modifications_needed info \<noteq> []" using assms(2) by auto
  then show ?thesis using ob0(1) ob2 [folded cols] l c assms(2,4)
    by (simp add: insert_group_level_table_def map_lists_def prepare_table_indices_def Let_def new_table_ndx_def
        initial_column_def adjust_ge_def) auto
qed

theorem columns_left_behind_witness:
  "\<exists>ob. observe_log True [SelectTable 0 [], SelectDescriptor 0, InsertColumn 0, InsertGroupLevelTable 0]
      (observer_new (info_new\<lparr>table_modifications_needed := [True]\<rparr>)) = Some (Inr ob)
    \<and> new_table_ndx (ob_info ob) 0 = 1 \<and> initial_column (ob_info ob) 1 0 = 0 \<and> initial_column (ob_info ob) 0 0 = npos"
  using columns_left_behind [of "info_new\<lparr>table_modifications_needed := [True]\<rparr>" 0 0 True 0] by (simp add: info_new_def)

text \<open>An observed row of a table with a list of links as its only column.\<close>

definition one_list :: link_tables where
  "one_list = \<lparr>column_types = (\<lambda>t. [type_LinkList]), get_link_target = (\<lambda>t c. 0), get_link = (\<lambda>t c r. None),
     get_linklist = (\<lambda>t c r. [])\<rparr>"

definition reported :: "(log_error + kvo_adapter) option \<Rightarrow> (size_t \<times> change_kind) list option" where
  "reported r = (case r of Some (Inr k) \<Rightarrow> Some (map (\<lambda>c. (initial_column_index c, change_kind c)) (observer_changes (hd (kvo_observers k))))
     | _ \<Rightarrow> None)"

text \<open>The changes of a list of an observed row. An insertion in the list is reported at its column. When a
  column has been inserted before it in the same transaction, the insertion is reported at the new column,
  whose initial index is \<open>npos\<close>, and the column of the list is reported as set.\<close>

theorem list_change_at_wrong_column:
  "let ob = \<lparr>observed_table = 0, observed_row = 0, observer_info = 0, observer_changes = []\<rparr>;
       run = (\<lambda>log. reported (kvo_observe True one_list (\<lambda>t c r. 0) [ob] log))
   in run [SelectTable 0 [], SelectLinkList 0 0, LinkListInsert 0] = Some [(0, KindInsert)]
    \<and> run [SelectTable 0 [], SelectDescriptor 0, InsertColumn 0, SelectLinkList 1 0, LinkListInsert 0]
        = Some [(npos, KindInsert), (0, KindSet)]"
  by code_simp

end
