(* ===== verification/Log_Claims.thy ===== *)
theory Log_Claims
  imports Log_Observed Transact_Claims
begin

section \<open>Properties of the transaction log\<close>

text \<open>
  The log that is written, read and observed, and the log that takes a transaction back.
\<close>

text \<open>Encoders that select, for the witnesses: the levels, the table and the path as numbers.\<close>

definition some_selects :: select_encoders where
  "some_selects = \<lparr>
     enc_select_table = (\<lambda>t path. concat (map encode_item
       (IChar 5 # INum type_int (int (length path)) # ISize t # concat (map (\<lambda>(c, r). [ISize c, ISize r]) path)))),
     enc_select_descriptor = (\<lambda>path. concat (map encode_item
       (IChar 20 # INum type_int (int (length path)) # map ISize path))),
     enc_select_link_list = (\<lambda>c r t. concat (map encode_item [IChar 31, ISize c, ISize r, ISize t]))\<rparr>"

lemma read_path_items: "\<forall>(c, r)\<in>set path. is_size c \<and> is_size r \<Longrightarrow>
  read_path (length path) (concat (map encode_item (concat (map (\<lambda>(c, r). [ISize c, ISize r]) path))) @ bs) = Some (path, bs)"
  by (induction path) (auto simp del: encode_item.simps)

lemma read_sizes_items: "\<forall>c\<in>set path. is_size c \<Longrightarrow>
  read_sizes (length path) (concat (map encode_item (map ISize path)) @ bs) = Some (path, bs)"
  by (induction path) (auto simp del: encode_item.simps)

lemma fits_levels: "n \<le> 1024 \<Longrightarrow> fits_type type_int (int n)"
  by (simp add: fits_type_def type_int_def int_min_def int_max_def)

lemma some_selects_parsed: "selects_parsed some_selects"
  unfolding selects_parsed_def
proof (intro allI conjI impI)
  fix t path c r bs assume "call_ok (Select_table t path)"
  then show "parse_one (enc_select_table some_selects t path @ bs) = Some ([Select_table t path], bs)"
    using read_path_items [of path bs]
    by (simp add: some_selects_def parse_items parse_rows_def parse_select_table_def fits_levels max_levels_def
        del: encode_item.simps)
next
  fix path c r bs assume "call_ok (Select_descriptor path)"
  then show "parse_one (enc_select_descriptor some_selects path @ bs) = Some ([Select_descriptor path], bs)"
    using read_sizes_items [of path bs]
    by (simp add: some_selects_def parse_items parse_select_descriptor_def fits_levels max_levels_def del: encode_item.simps)
next
  fix t c r bs assume "call_ok (Select_link_list c r t)"
  then show "parse_one (enc_select_link_list some_selects c r t @ bs) = Some ([Select_link_list c r t], bs)"
    by (simp add: some_selects_def parse_items parse_list_def del: encode_item.simps)
qed

text \<open>C38: An integer of the log. Whatever the type it is written with and the type it is read with, a number in
  the range of the latter is read back, and one outside is rejected. The exception is a negative number other
  than \<open>-1\<close> read as an unsigned one: it is not rejected but comes back as a large number.\<close>

theorem integers_read_back:
  assumes "fits_type T v"
  shows "read_int T' (encode_int T v @ bs) =
    (if fits_type T' v then Some (v, bs)
     else if \<not> is_signed T' \<and> v < -1 \<and> - v \<le> 2 ^ digits T' then Some (v + 2 ^ digits T', bs) else None)"
  by (simp add: read_int_encode_int [OF assms] read_back_def)

theorem integers_read_back_witness:
  "read_int type_int (encode_int type_int64 (-2) @ [7]) = Some (-2, [7])
    \<and> read_int type_size (encode_int type_int64 (-2) @ [7]) = Some (2 ^ 64 - 2, [7])
    \<and> read_int type_char (encode_int type_int64 128 @ [7]) = None"
  using integers_read_back [of type_int64 "-2" type_int "[7]"] integers_read_back [of type_int64 "-2" type_size "[7]"]
    integers_read_back [of type_int64 128 type_char "[7]"]
  by (simp add: fits_type_def type_int_def type_int64_def type_size_def type_char_def int_min_def int_max_def)

lemma call_items_ok:
  assumes "call_ok c" "encode_args c = Some is"
  shows "(\<forall>i\<in>set is. item_ok i) \<and> (\<forall>i\<in>set (butlast is). \<forall>vs. i \<noteq> IList vs)"
proof -
  have [simp]: "item_ok (ISize n) \<longleftrightarrow> is_size n" "item_ok (IBool b)" "ISize n \<noteq> IList vs" "IBool b \<noteq> IList vs" "IList vs \<noteq> ISize n" "IList vs \<noteq> IBool b" for n b vs
    by (auto simp: ISize_def IBool_def is_size_def fits_type_def type_size_def int_min_def int_max_def)
  have [simp]: "item_ok (INum type_int set_null_sentinel)" "item_ok (INum type_int (link_code l))" for l
    by simp_all
  have [simp]: "is_size ((1 + v) mod 2 ^ 64)" for v by (simp add: is_size_def)
  show ?thesis
    using assms
  proof (cases c)
    case (Set_mixed c r m k)
    then show ?thesis using assms by (cases m) (auto simp: enc_set_mixed_def string_size realm_assert_def split: if_splits)
  next
    case (Set_link c r v t k)
    then show ?thesis using assms link_wrap [of v] by (auto simp: enc_set_link_def realm_assert_def Let_def split: if_splits)
  qed (auto simp: enc_defs string_size realm_assert_def split: if_splits option.splits)
qed

text \<open>C39: The space for an instruction. What \<open>append_simple_instr\<close> reserves is enough for what it writes, for
  every call that can be written, so that nothing is written beyond the chunk; the bytes follow what has been
  written before, also when a list of links goes over several chunks.\<close>

theorem space_is_enough:
  assumes "grows grow" "call_ok c" "\<not> selects c"
  shows "\<exists>is w'. encode_args c = Some is \<and> append_simple_instr dbg grow is w = Some w'
    \<and> written w' = written w @ concat (map encode_item is)"
proof -
  obtain "is" where i: "encode_args c = Some is" using encode_args_total [OF assms(2,3)] by blast
  note ok = call_items_ok [OF assms(2) i]
  let ?n = "sum_list (map (max_item_size dbg) is)"
  have "succeeds (fold_opt (write_item dbg grow) is (reserve grow ?n w)) (\<lambda>w'. written w' = written w @ concat (map encode_item is))"
    using write_items_succeeds [OF assms(1), of "is" dbg "reserve grow ?n w"] ok reserve_space [OF assms(1), of ?n w] by simp
  then show ?thesis using i by (auto simp: append_simple_instr_def succeeds_def)
qed

theorem space_is_enough_witness:
  "\<exists>is w'. encode_args (Link_list_set_all [1, 300, 2]) = Some is
    \<and> append_simple_instr True (\<lambda>w n. n) is \<lparr>written = [7], space = 0\<rparr> = Some w'
    \<and> written w' = [7, 39, 3, 1, 172, 2, 2]"
  using space_is_enough [of "\<lambda>w n. n" "Link_list_set_all [1, 300, 2]" True "\<lparr>written = [7], space = 0\<rparr>"]
  by (simp add: grows_def is_size_def fits_type_def type_int64_def int_min_def int_max_def enc_link_list_set_all_def)
     (simp add: ISize_def encode_int_enc sign_and_size_def fits_type_def type_size_def type_int64_def int_min_def int_max_def
       enc.simps numeral_2_eq_2)

text \<open>C37: The log that is read is the log that was written. Every log of calls that can be written is written
  without a failed assertion, and reading it makes the calls again, in their order. What changes: the number of
  rows is kept for \<open>instr_SetUnique\<close> only, a null string or binary is read as \<open>set_null\<close>, the links that are set
  at once are set one by one, and a \<open>double\<close> is always read as \<open>instr_Set\<close>.\<close>

theorem log_roundtrip:
  assumes "selects_parsed sel" "\<forall>c\<in>set cs. call_ok c"
  shows "\<exists>bs. encode_log sel cs = Some bs \<and> parse bs = Some (concat (map decoded cs))"
  by (rule parse_log [OF assms])

theorem log_roundtrip_witness:
  "\<exists>bs. encode_log some_selects [Select_table 2 [], Set_string 1 0 None InstrSetUnique 5, Set_double 0 0 (replicate 8 7) InstrSetDefault,
      Link_list_set_all [3, 4]] = Some bs
    \<and> parse bs = Some [Select_table 2 [], Set_null 1 0 InstrSetUnique 5, Set_double 0 0 (replicate 8 7) InstrSet,
      Link_list_set 0 3 2, Link_list_set 1 4 2]"
proof -
  let ?cs = "[Select_table 2 [], Set_string 1 0 None InstrSetUnique 5, Set_double 0 0 (replicate 8 7) InstrSetDefault,
    Link_list_set_all [3, 4]]"
  have ok: "\<forall>c\<in>set ?cs. call_ok c"
    by (simp add: is_size_def not_unique_def fits_type_def type_int64_def int_min_def int_max_def)
  have "concat (map decoded ?cs) = [Select_table 2 [], Set_null 1 0 InstrSetUnique 5,
      Set_double 0 0 (replicate 8 7) InstrSet, Link_list_set 0 3 2, Link_list_set 1 4 2]"
    by (simp add: prior_read_def numeral_2_eq_2)
  then show ?thesis using log_roundtrip [OF some_selects_parsed ok] by metis
qed


definition some_calls :: "log_call list" where
  "some_calls = [Select_table 0 [], Set_int 0 0 5 InstrSet 0, Select_table 1 [], Insert_empty_rows 2 1 2 False,
     Erase_rows 0 1 3 True, Select_link_list 0 1 0]"

lemma some_calls_ok: "\<forall>c\<in>set some_calls. call_ok c" "map observed (concat (map decoded some_calls)) = map log_of some_events"
  by (simp_all add: some_calls_def some_events_def is_size_def fits_type_def type_int64_def int_min_def int_max_def)


subsection \<open>The reversed log\<close>



text \<open>The move of a link is not taken back. The instruction that the reversed log has for the move of a link
  by more than one position is the same move, which does not give the old list; the move in the other direction
  would.\<close>

theorem reversed_move_is_wrong:
  assumes "f + 1 < t" "t < length xs" "distinct xs"
  shows "inverse (Link_list_move f t) = [Link_list_move f t] \<and> move_list f t (move_list f t xs) \<noteq> xs
    \<and> move_list t f (move_list f t xs) = xs"
proof (intro conjI)
  have len: "length (move_list a b ys) = length ys" if "a < length ys" "b < length ys" for a b and ys :: "'a list"
    using that by (auto simp: move_list_def)
  have nth: "move_list a b ys ! i = moved_at a b ((!) ys) i" if "a < length ys" "b < length ys" "a \<noteq> b" "i < length ys"
    for a b i and ys :: "'a list"
    by (rule nth_move_list [OF that])
  have l: "length (move_list f t xs) = length xs" using assms len by simp
  have "move_list f t (move_list f t xs) ! t = move_list f t xs ! f" using assms l nth [of f "move_list f t xs" t t] by (simp add: moved_at_def)
  also have "\<dots> = xs ! (f + 1)" using assms nth [of f xs t f] by (simp add: moved_at_def)
  also have "\<dots> \<noteq> xs ! t" using assms by (simp add: nth_eq_iff_index_eq)
  finally show "move_list f t (move_list f t xs) \<noteq> xs" by auto
  show "move_list t f (move_list f t xs) = xs"
  proof (rule nth_equalityI)
    show "length (move_list t f (move_list f t xs)) = length xs" using assms l len [of t "move_list f t xs" f] by simp
    fix i assume "i < length (move_list t f (move_list f t xs))"
    then have i: "i < length xs" using assms l len [of t "move_list f t xs" f] by simp
    have "move_list t f (move_list f t xs) ! i = moved_at t f ((!) (move_list f t xs)) i"
      using assms i l nth [of t "move_list f t xs" f i] by simp
    also have "\<dots> = moved_at t f (moved_at f t ((!) xs)) i"
      using assms i nth [of f xs t] by (auto simp: moved_at_def)
    also have "\<dots> = xs ! i" using assms by (auto simp: moved_at_def)
    finally show "move_list t f (move_list f t xs) ! i = xs ! i" .
  qed
qed (simp add: inverse_def)

theorem reversed_move_is_wrong_witness:
  "inverse (Link_list_move 0 2) = [Link_list_move 0 2] \<and> move_list 0 2 (move_list 0 2 [1, 2, 3 :: nat]) \<noteq> [1, 2, 3]"
  using reversed_move_is_wrong [of 0 2 "[1, 2, 3 :: nat]"] by simp

text \<open>
  The number of links before each insertion that takes back the clearing of a list. They are inserted from the
  first to the last, so that \<open>i\<close> links are there before the one at \<open>i\<close>; the instruction says \<open>n - 1 - i\<close>.
\<close>

lemma reversed_clear_counts_down:
  "rev (inverse (Link_list_clear n)) = map (\<lambda>i. Link_list_insert i 0 (n - 1 - i)) [0..<n]"
proof -
  have "rev (inverse (Link_list_clear n)) = map (\<lambda>i. Link_list_insert (i - 1) 0 (n - i)) (map Suc [0..<n])"
    by (simp add: inverse_def rev_map map_Suc_upt)
  then show ?thesis by simp
qed

end
