(* ===== verification/Collection_Delivery.thy ===== *)
theory Collection_Delivery
  imports Collection_Notifier "HOL-Library.Sublist"
begin

section \<open>Delivery while callbacks come and go\<close>

text \<open>
  The loop over the callbacks under everything that the called functions may do. The invariant of a delivery splits
  the callbacks into those that the loop has passed, those it will call, and those that were added since the
  notifier was packaged. The locale \<open>visitor\<close> is what the loop asks of its body; the three methods that deliver are
  its interpretations.
\<close>

subsection \<open>The invariant\<close>

definition tokens :: "collection_notifier \<Rightarrow> nat list" where
  "tokens n = map cb_token (nf_callbacks n)"

definition frozen :: "change_callback \<Rightarrow> nat option \<times> change_set \<times> nat \<times> bool" where
  "frozen c = (cb_fn c, changes_to_deliver c, cb_token c, initial_delivered c)"

definition kept :: "change_callback list \<Rightarrow> change_callback list \<Rightarrow> bool" where
  "kept xs ys \<longleftrightarrow> subseq (map frozen ys) (map frozen xs)"

definition nf_ok :: "collection_notifier \<Rightarrow> bool" where
  "nf_ok n \<longleftrightarrow> distinct (tokens n) \<and> (\<forall>t\<in>set (tokens n). t < nf_next_token n)
     \<and> (nf_have_callbacks n \<longleftrightarrow> nf_callbacks n \<noteq> [])"

definition added_since :: "nat \<Rightarrow> change_callback list \<Rightarrow> bool" where
  "added_since m a \<longleftrightarrow> (\<forall>c\<in>set a. m \<le> cb_token c \<and> cb_fn c \<noteq> None)"

definition in_delivery :: "nat \<Rightarrow> collection_notifier \<Rightarrow> change_callback list \<Rightarrow> change_callback list \<Rightarrow> bool" where
  "in_delivery m n d r \<longleftrightarrow> (\<exists>a. nf_callbacks n = d @ r @ a \<and> added_since m a)
     \<and> (\<forall>c\<in>set (d @ r). cb_token c < m) \<and> (\<forall>c\<in>set r. cb_fn c \<noteq> None) \<and> m \<le> nf_next_token n
     \<and> nf_callback_index n = word_of_nat (length d) - 1 \<and> nf_callback_count n = word_of_nat (length (d @ r))
     \<and> length (d @ r) < 2 ^ 64 \<and> nf_ok n"

text \<open>A call that is valid and does not remove a callback that was added since.\<close>

definition late :: "nat \<Rightarrow> notifier_action \<Rightarrow> bool" where
  "late m a = (case a of RemoveChangeCallback t \<Rightarrow> m \<le> t | _ \<Rightarrow> False)"

fun runs :: "bool \<Rightarrow> nat \<Rightarrow> notifier_action list \<Rightarrow> collection_notifier \<Rightarrow> bool" where
  "runs dbg m [] n = True"
| "runs dbg m (a # as) n = (\<not> late m a \<and> (case notifier_act dbg a n of None \<Rightarrow> False | Some n' \<Rightarrow> runs dbg m as n'))"

definition well_behaved :: "bool \<Rightarrow> nat \<Rightarrow> behaviour \<Rightarrow> bool" where
  "well_behaved dbg m b \<longleftrightarrow> (\<forall>f ch n d r. in_delivery m n d r \<longrightarrow> runs dbg m (b f ch n) n)"

text \<open>\<open>q\<close> says that nothing has been removed.\<close>

definition follows :: "bool \<Rightarrow> change_callback list \<Rightarrow> change_callback list \<Rightarrow> bool" where
  "follows q xs ys \<longleftrightarrow> kept xs ys \<and> (q \<longrightarrow> map frozen ys = map frozen xs)"

definition removes_none :: "behaviour \<Rightarrow> bool" where
  "removes_none b \<longleftrightarrow> (\<forall>f ch n t. RemoveChangeCallback t \<notin> set (b f ch n))"

lemma frozen_cb_fn: "frozen x = frozen y \<Longrightarrow> cb_fn x = cb_fn y"
  and frozen_token: "frozen x = frozen y \<Longrightarrow> cb_token x = cb_token y"
  by (simp_all add: frozen_def)

lemma kept_refl [simp]: "kept xs xs"
  by (simp add: kept_def)

lemma kept_trans: "kept xs ys \<Longrightarrow> kept ys zs \<Longrightarrow> kept xs zs"
  unfolding kept_def by (rule subseq_order.order_trans)

lemma kept_same: "map frozen ys = map frozen xs \<Longrightarrow> kept xs ys"
  by (simp add: kept_def)

lemma kept_drop: "kept (xs @ c # ys) (xs @ ys)"
  unfolding kept_def by (auto intro!: list_emb_append_mono)

lemma kept_member: "kept xs ys \<Longrightarrow> y \<in> set ys \<Longrightarrow> \<exists>x\<in>set xs. frozen x = frozen y"
  unfolding kept_def by (drule list_emb_set [where x = "frozen y"]) auto

lemma kept_tokens: "kept xs ys \<Longrightarrow> set (map cb_token ys) \<subseteq> set (map cb_token xs)"
proof
  fix t assume k: "kept xs ys" and "t \<in> set (map cb_token ys)"
  then obtain y where y: "y \<in> set ys" "t = cb_token y" by auto
  from kept_member [OF k y(1)] obtain x where "x \<in> set xs" "frozen x = frozen y" by blast
  then have "t = cb_token x" using frozen_token [of x y] y(2) by simp
  then show "t \<in> set (map cb_token xs)" using \<open>x \<in> set xs\<close> by simp
qed

lemma kept_Nil [simp]: "kept [] ys \<longleftrightarrow> ys = []"
  by (auto simp: kept_def dest: list_emb_length)

lemma follows_refl [simp]: "follows q xs xs"
  by (simp add: follows_def)

lemma follows_trans: "follows q xs ys \<Longrightarrow> follows q ys zs \<Longrightarrow> follows q xs zs"
  unfolding follows_def using kept_trans by auto

lemma follows_same: "map frozen ys = map frozen xs \<Longrightarrow> follows q xs ys"
  by (simp add: follows_def kept_same)

lemma follows_kept: "follows q xs ys \<Longrightarrow> kept xs ys"
  by (simp add: follows_def)

lemma follows_mono: "follows q xs ys \<Longrightarrow> (p \<Longrightarrow> q) \<Longrightarrow> follows p xs ys"
  by (auto simp: follows_def)

subsection \<open>Positions\<close>

lemma unat_count: "k < 2 ^ 64 \<Longrightarrow> unat (word_of_nat k :: 64 word) = k"
  by (simp add: unat_of_nat take_bit_nat_eq_self)

lemma position_Suc: "(word_of_nat (Suc k) - 1 :: 64 word) = word_of_nat k"
  by simp

lemma unat_position: "0 < k \<Longrightarrow> k < 2 ^ 64 \<Longrightarrow> unat (word_of_nat k - 1 :: 64 word) = k - 1"
  by (cases k) (simp_all add: unat_count)

lemma position_npos: "k < 2 ^ 64 \<Longrightarrow> (word_of_nat k - 1 :: 64 word) = - 1 \<longleftrightarrow> k = 0"
  using unat_count [of k] by (auto simp: diff_eq_eq)

lemma position_less: "a < 2 ^ 64 \<Longrightarrow> b < 2 ^ 64 \<Longrightarrow> (word_of_nat a :: 64 word) < word_of_nat b \<longleftrightarrow> a < b"
  by (simp add: word_less_nat_alt unat_count)

lemma split_removed:
  assumes "d @ r @ a = xs @ c # ys" "c \<notin> set a"
  shows "(\<exists>d2. d = xs @ c # d2 \<and> ys = d2 @ r @ a) \<or> (\<exists>r1 r2. r = r1 @ c # r2 \<and> xs = d @ r1 \<and> ys = r2 @ a)"
  using assms by (fastforce simp: append_eq_append_conv2 append_eq_Cons_conv Cons_eq_append_conv)

lemma in_delivery_distinct: "in_delivery m n d r \<Longrightarrow> distinct (map cb_token (d @ r))"
proof -
  assume "in_delivery m n d r"
  then obtain a where "nf_callbacks n = (d @ r) @ a" "nf_ok n" by (auto simp: in_delivery_def)
  then show ?thesis unfolding nf_ok_def tokens_def by (simp only: map_append [of _ "d @ r" a] distinct_append)
qed

subsection \<open>One call\<close>

lemma find_absent: "u \<notin> set (tokens n) \<Longrightarrow>
    find_callback u n = (if nf_error n then Some (length (nf_callbacks n)) else None)"
proof -
  assume "u \<notin> set (tokens n)"
  then have eq: "takeWhile (\<lambda>c. cb_token c \<noteq> u) (nf_callbacks n) = nf_callbacks n"
    by (auto simp: tokens_def takeWhile_eq_all_conv)
  show ?thesis unfolding find_callback_def Let_def eq by (simp add: realm_assert_def)
qed

lemma find_present: "nf_callbacks n = xs @ c # ys \<Longrightarrow> cb_token c = u \<Longrightarrow> u \<notin> cb_token ` set xs \<Longrightarrow>
    find_callback u n = Some (length xs)"
proof -
  assume "nf_callbacks n = xs @ c # ys" "cb_token c = u" "u \<notin> cb_token ` set xs"
  then have "takeWhile (\<lambda>c. cb_token c \<noteq> u) (nf_callbacks n) = xs @ takeWhile (\<lambda>c. cb_token c \<noteq> u) (c # ys)"
    by (simp only:) (rule takeWhile_append2, metis imageI)
  then have "takeWhile (\<lambda>c. cb_token c \<noteq> u) (nf_callbacks n) = xs" using \<open>cb_token c = u\<close> by simp
  then show ?thesis using \<open>nf_callbacks n = xs @ c # ys\<close> by (simp add: find_callback_def)
qed

lemma token_split:
  assumes "u \<in> set (tokens n)"
  obtains xs c ys where "nf_callbacks n = xs @ c # ys" "cb_token c = u" "u \<notin> cb_token ` set xs"
proof -
  have "\<exists>c\<in>set (nf_callbacks n). cb_token c = u" using assms by (auto simp: tokens_def)
  then obtain xs c ys where "nf_callbacks n = xs @ c # ys" "cb_token c = u" "\<forall>x\<in>set xs. cb_token x \<noteq> u"
    by (rule split_list_first_propE)
  then show ?thesis by (intro that [of xs c ys]) auto
qed

definition removed_at :: "change_callback list \<Rightarrow> change_callback list \<Rightarrow> collection_notifier \<Rightarrow> collection_notifier" where
  "removed_at xs ys n =
     n\<lparr>nf_callback_index := (if nf_callback_index n \<noteq> - 1 \<and> unat (nf_callback_index n) \<ge> length xs
         then nf_callback_index n - 1 else nf_callback_index n),
       nf_callback_count := nf_callback_count n - 1, nf_callbacks := xs @ ys, nf_have_callbacks := (xs @ ys \<noteq> [])\<rparr>"

lemma remove_present: "nf_callbacks n = xs @ c # ys \<Longrightarrow> cb_token c = u \<Longrightarrow> u \<notin> cb_token ` set xs \<Longrightarrow>
    remove_change_callback u n = Some (removed_at xs ys n)"
  by (simp add: remove_change_callback_def find_present removed_at_def Let_def)

lemma remove_absent: "u \<notin> set (tokens n) \<Longrightarrow> remove_change_callback u n = (if nf_error n then Some n else None)"
  by (simp add: remove_change_callback_def find_absent)

lemma remove_callback_cases:
  assumes "remove_change_callback u n = Some n'"
  obtains (absent) "u \<notin> set (tokens n)" "n' = n" "nf_error n"
  | (removed) xs c ys where "nf_callbacks n = xs @ c # ys" "cb_token c = u" "n' = removed_at xs ys n"
  using assms token_split [of u n] remove_present remove_absent
  by (metis option.distinct(1) option.inject)

lemma in_delivery_remove:
  assumes "in_delivery m n d r" "u < m" "remove_change_callback u n = Some n'"
  shows "\<exists>d' r'. in_delivery m n' d' r' \<and> kept d d' \<and> follows (u \<notin> set (map cb_token r)) r r' \<and> u \<notin> set (tokens n')"
  using assms(3)
proof (cases rule: remove_callback_cases)
  case absent
  then show ?thesis using assms(1) by (intro exI [of _ d] exI [of _ r]) simp
next
  case (removed xs c ys)
  from assms(1) obtain a where a: "nf_callbacks n = d @ r @ a" "added_since m a" by (auto simp: in_delivery_def)
  have "c \<notin> set a" using a(2) removed(2) assms(2) by (auto simp: added_since_def)
  moreover have gone: "u \<notin> set (tokens n')"
    using assms(1) removed by (auto simp: in_delivery_def nf_ok_def tokens_def removed_at_def)
  moreover have "nf_ok n'" using assms(1) removed by (auto simp: in_delivery_def nf_ok_def tokens_def removed_at_def)
  ultimately consider d2 where "d = xs @ c # d2" "ys = d2 @ r @ a" | r1 r2 where "r = r1 @ c # r2" "xs = d @ r1" "ys = r2 @ a"
    using split_removed [of d r a xs c ys] a(1) removed(1) by auto
  then show ?thesis
  proof cases
    case 1
    let ?d = "xs @ d2"
    have l: "0 < length d" "length d < 2 ^ 64" using assms(1) 1 by (auto simp: in_delivery_def)
    then have "nf_callback_index n \<noteq> - 1" "unat (nf_callback_index n) = length d - 1"
      using assms(1) position_npos [of "length d"] unat_position [of "length d"] by (auto simp: in_delivery_def)
    then have "in_delivery m n' ?d r"
      using assms(1) 1 a(2) removed \<open>nf_ok n'\<close>
      by (auto simp: in_delivery_def removed_at_def algebra_simps)
    then show ?thesis using kept_drop [of xs c d2] 1 gone by (intro exI [of _ ?d] exI [of _ r]) simp
  next
    case 2
    have l: "length d < 2 ^ 64" using assms(1) by (auto simp: in_delivery_def)
    have "nf_callback_index n = - 1 \<or> unat (nf_callback_index n) < length xs"
    proof (cases "d = []")
      case False
      then have "unat (nf_callback_index n) = length d - 1" "length d - 1 < length d"
        using assms(1) unat_position [of "length d"] l by (simp_all add: in_delivery_def)
      then show ?thesis using 2 by simp
    qed (use assms(1) in \<open>simp add: in_delivery_def\<close>)
    then have "in_delivery m n' d (r1 @ r2)"
      using assms(1) 2 a(2) removed \<open>nf_ok n'\<close>
      by (auto simp: in_delivery_def removed_at_def algebra_simps)
    moreover have "follows (u \<notin> set (map cb_token r)) r (r1 @ r2)" using kept_drop [of r1 c r2] 2 removed(2) by (simp add: follows_def)
    ultimately show ?thesis using gone by (intro exI [of _ d] exI [of _ "r1 @ r2"]) simp
  qed
qed

lemma add_callback_fields:
  assumes "add_change_callback f n = Some (n', t)"
  shows "nf_callbacks n' = nf_callbacks n @ [callback_new f (nf_next_token n)]" "nf_next_token n' = nf_next_token n + 1"
    "nf_callback_index n' = nf_callback_index n" "nf_callback_count n' = nf_callback_count n"
    "nf_have_callbacks n' \<longleftrightarrow> nf_callback_index n = - 1 \<or> nf_have_callbacks n" "nf_error n' = nf_error n"
  using assms by (auto simp: add_change_callback_def Let_def realm_assert_def split: if_splits)

lemma add_callback_ok:
  assumes "add_change_callback f n = Some (n', t)" "nf_ok n" "nf_callback_index n = - 1 \<or> nf_callbacks n \<noteq> []"
  shows "nf_ok n'"
  using assms(2,3) add_callback_fields [OF assms(1)] by (auto simp: nf_ok_def tokens_def callback_new_def)

lemma in_delivery_add:
  assumes "in_delivery m n d r" "add_change_callback f n = Some (n', t)"
  shows "in_delivery m n' d r"
proof -
  have "nf_callback_index n = - 1 \<or> nf_callbacks n \<noteq> []"
    using assms(1) by (cases d) (auto simp: in_delivery_def)
  moreover have "nf_ok n" using assms(1) by (simp add: in_delivery_def)
  ultimately have "nf_ok n'" using add_callback_ok [OF assms(2)] by blast
  then show ?thesis using assms(1) add_callback_fields [OF assms(2)]
    by (auto simp: in_delivery_def added_since_def callback_new_def)
qed

lemma same_tokens: "map frozen ys = map frozen xs \<Longrightarrow> map cb_token ys = map cb_token xs"
proof -
  assume "map frozen ys = map frozen xs"
  then have "map (\<lambda>(f, s, t, i). t) (map frozen ys) = map (\<lambda>(f, s, t, i). t) (map frozen xs)" by simp
  then show ?thesis by (simp add: comp_def frozen_def)
qed

lemma all_same:
  assumes "map frozen ys = map frozen xs"
  shows "(\<forall>c\<in>set ys. P (cb_token c) (cb_fn c)) \<longleftrightarrow> (\<forall>c\<in>set xs. P (cb_token c) (cb_fn c))"
proof -
  have *: "(\<forall>c\<in>set zs. P (cb_token c) (cb_fn c)) \<longleftrightarrow> (\<forall>x\<in>set (map frozen zs). case x of (f, s, t, i) \<Rightarrow> P t f)" for zs
    by (auto simp: frozen_def)
  show ?thesis unfolding * assms ..
qed

lemma accumulate_frozen: "map_opt (accumulate dbg change) cs = Some cs' \<Longrightarrow> map frozen cs' = map frozen cs"
  by (induction cs arbitrary: cs')
    (auto simp: accumulate_def frozen_def split: bind_split_asm if_splits)

text \<open>What changes neither the tokens nor what is frozen.\<close>

lemma in_delivery_same:
  assumes "in_delivery m n d r" "map frozen (nf_callbacks n') = map frozen (nf_callbacks n)"
    "nf_have_callbacks n' = nf_have_callbacks n" "nf_callback_index n' = nf_callback_index n"
    "nf_callback_count n' = nf_callback_count n" "nf_next_token n' = nf_next_token n"
  shows "\<exists>d' r'. in_delivery m n' d' r' \<and> map frozen d' = map frozen d \<and> map frozen r' = map frozen r"
proof -
  from assms(1) obtain a where a: "nf_callbacks n = d @ r @ a" "added_since m a" by (auto simp: in_delivery_def)
  from assms(2) obtain d' z where z: "nf_callbacks n' = d' @ z" "map frozen d = map frozen d'"
      "map frozen r @ map frozen a = map frozen z"
    unfolding a(1) map_append map_eq_append_conv by blast
  from z(3) [symmetric] obtain r' a' where
    ra: "z = r' @ a'" "map frozen r = map frozen r'" "map frozen a = map frozen a'"
    unfolding map_eq_append_conv by blast
  note s = z(1) [unfolded ra(1)] z(2) [symmetric] ra(2,3) [symmetric]
  have "nf_ok n'" using assms(1-3,6) same_tokens [OF assms(2)] by (auto simp: in_delivery_def nf_ok_def tokens_def)
  moreover have "length d' = length d" "length r' = length r" using s(2,3) by (auto dest: map_eq_imp_length_eq)
  moreover have "added_since m a'"
    using a(2) all_same [OF s(4), of "\<lambda>t f. m \<le> t \<and> f \<noteq> None"] by (simp add: added_since_def)
  moreover have "\<forall>c\<in>set d'. cb_token c < m" "\<forall>c\<in>set r'. cb_token c < m \<and> cb_fn c \<noteq> None"
    using assms(1) all_same [OF s(2), of "\<lambda>t f. t < m"] all_same [OF s(3), of "\<lambda>t f. t < m \<and> f \<noteq> None"]
    by (auto simp: in_delivery_def)
  ultimately have "in_delivery m n' d' r'" using assms s(1) by (auto simp: in_delivery_def)
  then show ?thesis using s by blast
qed

lemma frozen_update: "frozen y = frozen (xs ! i) \<Longrightarrow> map frozen (xs[i := y]) = map frozen xs"
  using list_update_id [of "map frozen xs" i]
  by (cases "i < length xs") (simp_all add: map_update list_update_beyond)

lemma in_delivery_suppress:
  assumes "in_delivery m n d r" "suppress_next_notification t n = Some n'"
  shows "\<exists>d' r'. in_delivery m n' d' r' \<and> map frozen d' = map frozen d \<and> map frozen r' = map frozen r"
proof (rule in_delivery_same [OF assms(1)])
  have "frozen (c\<lparr>skip_next := True\<rparr>) = frozen c" for c by (simp add: frozen_def)
  then show "map frozen (nf_callbacks n') = map frozen (nf_callbacks n)"
    using assms(2) by (auto simp: suppress_next_notification_def frozen_update split: bind_split_asm if_splits)
qed (use assms(2) in \<open>auto simp: suppress_next_notification_def split: bind_split_asm\<close>)

lemma in_delivery_handover:
  assumes "in_delivery m n d r" "prepare_handover dbg v c n = Some n'"
  shows "\<exists>d' r'. in_delivery m n' d' r' \<and> map frozen d' = map frozen d \<and> map frozen r' = map frozen r"
proof (rule in_delivery_same [OF assms(1)])
  show "map frozen (nf_callbacks n') = map frozen (nf_callbacks n)"
    using assms(2) by (auto simp: prepare_handover_def add_changes_def Let_def accumulate_frozen
        split: bind_split_asm if_splits)
qed (use assms(2) in \<open>auto simp: prepare_handover_def add_changes_def Let_def split: bind_split_asm\<close>)


lemma in_delivery_act:
  assumes "in_delivery m n d r" "\<not> late m a" "notifier_act dbg a n = Some n'"
  shows "nf_error n' = nf_error n \<and> (\<exists>d' r'. in_delivery m n' d' r'
    \<and> follows (\<forall>t. a \<noteq> RemoveChangeCallback t) d d' \<and> follows (\<forall>t. a \<noteq> RemoveChangeCallback t) r r')"
proof (cases a)
  case (AddChangeCallback f)
  then obtain t where t: "add_change_callback f n = Some (n', t)" using assms(3) by auto
  then have "nf_error n' = nf_error n" by (rule add_callback_fields(6))
  then show ?thesis using in_delivery_add [OF assms(1) t] by (blast intro: follows_refl)
next
  case (RemoveChangeCallback t)
  then have t: "t < m" "remove_change_callback t n = Some n'" using assms by (auto simp: late_def)
  have "nf_error n' = nf_error n" using t(2) by (cases rule: remove_callback_cases) (auto simp: removed_at_def)
  then show ?thesis using in_delivery_remove [OF assms(1) t] RemoveChangeCallback by (auto simp: follows_def)
next
  case (SuppressNext t)
  then have t: "suppress_next_notification t n = Some n'" using assms by simp
  then have "nf_error n' = nf_error n" by (auto simp: suppress_next_notification_def split: bind_split_asm)
  then show ?thesis using in_delivery_suppress [OF assms(1) t] by (blast intro: follows_same)
next
  case Unregister
  then have "n' = unregister_notifier n" using assms by simp
  then have "nf_error n' = nf_error n" "in_delivery m n' d r"
    using assms(1) by (simp_all add: unregister_notifier_def in_delivery_def nf_ok_def tokens_def)
  then show ?thesis by (blast intro: follows_refl)
next
  case (Handover v c)
  then have t: "prepare_handover dbg v c n = Some n'" using assms by simp
  then have "nf_error n' = nf_error n" by (auto simp: prepare_handover_def add_changes_def Let_def split: bind_split_asm)
  then show ?thesis using in_delivery_handover [OF assms(1) t] by (blast intro: follows_same)
qed

lemma in_delivery_runs:
  assumes "in_delivery m n d r" "runs dbg m as n"
  shows "\<exists>n'. fold_opt (notifier_act dbg) as n = Some n' \<and> nf_error n' = nf_error n
    \<and> (\<exists>d' r'. in_delivery m n' d' r' \<and> follows (\<forall>t. RemoveChangeCallback t \<notin> set as) d d'
      \<and> follows (\<forall>t. RemoveChangeCallback t \<notin> set as) r r')"
  using assms
proof (induction as arbitrary: n d r)
  case Nil
  then show ?case by (auto intro: follows_refl)
next
  case (Cons a as)
  from Cons.prems(2) obtain n1 where n1: "\<not> late m a" "notifier_act dbg a n = Some n1" "runs dbg m as n1"
    by (auto split: option.splits)
  let ?a = "\<forall>t. a \<noteq> RemoveChangeCallback t" and ?as = "\<forall>t. RemoveChangeCallback t \<notin> set as"
    and ?q = "\<forall>t. RemoveChangeCallback t \<notin> set (a # as)"
  from in_delivery_act [OF Cons.prems(1) n1(1,2)] obtain d1 r1 where
    1: "nf_error n1 = nf_error n" "in_delivery m n1 d1 r1" "follows ?a d d1" "follows ?a r r1" by blast
  from Cons.IH [OF 1(2) n1(3)] obtain n' d' r' where
    2: "fold_opt (notifier_act dbg) as n1 = Some n'" "nf_error n' = nf_error n1" "in_delivery m n' d' r'"
      "follows ?as d1 d'" "follows ?as r1 r'" by blast
  have q: "?q \<Longrightarrow> ?a" "?q \<Longrightarrow> ?as" by auto
  have "follows ?q d d'" "follows ?q r r'"
    using follows_trans [OF follows_mono [OF 1(3) q(1)] follows_mono [OF 2(4) q(2)]]
      follows_trans [OF follows_mono [OF 1(4) q(1)] follows_mono [OF 2(5) q(2)]] by blast+
  then show ?case using 1(1) 2(1-3) n1(2) by auto
qed

lemma run_fn_ok:
  assumes "in_delivery m n d r" "well_behaved dbg m b"
  shows "\<exists>n' d' r'. run_fn dbg b (Some f) ch n = Some n' \<and> nf_error n' = nf_error n
    \<and> in_delivery m n' d' r' \<and> follows (removes_none b) d d' \<and> follows (removes_none b) r r'"
proof -
  have "runs dbg m (b f ch n) n" using assms unfolding well_behaved_def by blast
  from in_delivery_runs [OF assms(1) this] obtain n' d' r' where
    1: "fold_opt (notifier_act dbg) (b f ch n) n = Some n'" "nf_error n' = nf_error n" "in_delivery m n' d' r'"
      "follows (\<forall>t. RemoveChangeCallback t \<notin> set (b f ch n)) d d'"
      "follows (\<forall>t. RemoveChangeCallback t \<notin> set (b f ch n)) r r'" by blast
  have q: "removes_none b \<Longrightarrow> \<forall>t. RemoveChangeCallback t \<notin> set (b f ch n)" by (simp add: removes_none_def)
  show ?thesis using 1(1-3) follows_mono [OF 1(4) q] follows_mono [OF 1(5) q] by (auto simp: run_fn_def)
qed

subsection \<open>The loop\<close>

locale visitor =
  fixes visit :: "bool \<Rightarrow> behaviour \<Rightarrow> visit"
    and pending :: "change_callback \<Rightarrow> notifier_call list"
    and update :: "change_callback \<Rightarrow> change_callback"
    and finished :: "change_callback \<Rightarrow> bool"
    and error :: bool
  assumes pending_frozen: "frozen c = frozen c' \<Longrightarrow> pending c = pending c'"
    and update_frozen: "frozen c = frozen c' \<Longrightarrow> frozen (update c) = frozen (update c')"
    and update_token: "cb_token (update c) = cb_token c"
    and finished_fn: "finished c \<Longrightarrow> cb_fn c \<noteq> None"
    and visit_ok: "in_delivery m n (d @ [c]) r \<Longrightarrow> well_behaved dbg m b \<Longrightarrow> cb_fn c \<noteq> None \<Longrightarrow>
      (\<And>x. x \<in> set d \<Longrightarrow> finished x) \<Longrightarrow> (error \<Longrightarrow> nf_error n) \<Longrightarrow>
      \<exists>n' d' r'. visit dbg b c n = Some (n', pending c) \<and> nf_error n' = nf_error n \<and> in_delivery m n' d' r'
        \<and> follows (removes_none b) r r' \<and> (\<forall>x\<in>set d'. finished x) \<and> kept (d @ [update c]) d'"
begin

text \<open>What the loop has called when it ends: every callback in its turn that has not been removed before.\<close>

definition called :: "bool \<Rightarrow> change_callback list \<Rightarrow> change_callback list \<Rightarrow> notifier_call list \<Rightarrow> bool" where
  "called q r d' es \<longleftrightarrow> subseq es (concat (map pending r)) \<and> (q \<longrightarrow> es = concat (map pending r))
     \<and> (\<forall>c\<in>set r. set (pending c) \<subseteq> set es \<or> cb_token c \<notin> set (map cb_token d'))"

lemma pending_kept: "kept xs ys \<Longrightarrow> subseq (concat (map pending ys)) (concat (map pending xs))"
proof (induction xs arbitrary: ys)
  case (Cons x xs)
  show ?case
  proof (cases "kept xs ys")
    case True
    then show ?thesis using Cons.IH by (auto intro: list_emb_append2)
  next
    case False
    then obtain y zs where "ys = y # zs" "frozen y = frozen x" "kept xs zs"
      using Cons.prems by (cases ys) (auto simp: kept_def subseq_Cons2_iff split: if_splits)
    then show ?thesis using Cons.IH pending_frozen [of y x] by (auto intro: list_emb_append_mono)
  qed
qed simp

lemma pending_same: "map frozen ys = map frozen xs \<Longrightarrow> map pending ys = map pending xs"
proof (induction xs arbitrary: ys)
  case (Cons x xs)
  then obtain y zs where y: "ys = y # zs" "frozen y = frozen x" "map frozen zs = map frozen xs" by (cases ys) auto
  then show ?case using Cons.IH [OF y(3)] pending_frozen [OF y(2)] by simp
qed simp

lemma update_kept:
  assumes "kept xs ys"
  shows "kept (map update xs) (map update ys)"
  using assms
proof (induction xs arbitrary: ys)
  case (Cons x xs)
  show ?case
  proof (cases "kept xs ys")
    case True
    then show ?thesis using Cons.IH by (auto simp: kept_def)
  next
    case False
    then obtain y zs where "ys = y # zs" "frozen y = frozen x" "kept xs zs"
      using Cons.prems by (cases ys) (auto simp: kept_def subseq_Cons2_iff split: if_splits)
    then show ?thesis using Cons.IH update_frozen [of y x] by (auto simp: kept_def)
  qed
qed simp

lemma kept_append: "kept xs ys \<Longrightarrow> kept us vs \<Longrightarrow> kept (xs @ us) (ys @ vs)"
  by (auto simp: kept_def intro: list_emb_append_mono)

lemma called_step:
  assumes f: "follows q r r'" and c: "called q r' d' es" and d: "set (map cb_token d') \<subseteq> set (map cb_token (d1 @ r'))"
    and d1: "set (map cb_token d1) \<subseteq> T" and dist: "distinct (map cb_token r)" "T \<inter> set (map cb_token r) = {}"
  shows "called q (x # r) d' (pending x @ es)"
  unfolding called_def
proof (intro conjI)
  note k = follows_kept [OF f]
  have "subseq es (concat (map pending r'))" using c by (simp add: called_def)
  then have "subseq es (concat (map pending r))" using pending_kept [OF k] by (rule subseq_order.order_trans)
  then have "subseq (pending x @ es) (pending x @ concat (map pending r))" by (simp add: subseq_append')
  then show "subseq (pending x @ es) (concat (map pending (x # r)))" by simp
  show "q \<longrightarrow> pending x @ es = concat (map pending (x # r))"
  proof
    assume q
    then have "es = concat (map pending r')" "map pending r' = map pending r"
      using c f by (auto simp: called_def follows_def intro: pending_same)
    then show "pending x @ es = concat (map pending (x # r))" by simp
  qed
  show "\<forall>c\<in>set (x # r). set (pending c) \<subseteq> set (pending x @ es) \<or> cb_token c \<notin> set (map cb_token d')"
  proof
    fix y assume "y \<in> set (x # r)"
    then consider "y = x" | "y \<in> set r" "cb_token y \<in> set (map cb_token d')" | "cb_token y \<notin> set (map cb_token d')"
      by auto
    then show "set (pending y) \<subseteq> set (pending x @ es) \<or> cb_token y \<notin> set (map cb_token d')"
    proof cases
      case 2
      have y: "cb_token y \<in> set (map cb_token r)" using 2(1) by simp
      then have "cb_token y \<notin> set (map cb_token d1)" using d1 dist(2) y by blast
      then have "cb_token y \<in> set (map cb_token r')" using 2(2) d unfolding map_append set_append by blast
      then obtain z where z: "z \<in> set r'" "cb_token y = cb_token z" by auto
      from kept_member [OF k z(1)] obtain w where w: "w \<in> set r" "frozen w = frozen z" by blast
      then have "cb_token w = cb_token y" using frozen_token [of w z] z(2) by simp
      then have "w = y" using dist(1) w(1) 2(1) by (auto simp: distinct_map dest: inj_onD)
      then have "pending y = pending z" using pending_frozen [of y z] w(2) by simp
      then show ?thesis using c z 2(2) by (auto simp: called_def)
    qed auto
  qed
qed

lemma loop_ok:
  assumes "in_delivery m n d r" "well_behaved dbg m b" "\<forall>x\<in>set d. finished x" "error \<Longrightarrow> nf_error n"
  shows "\<exists>n' d' es. for_each_loop (visit dbg b) (n\<lparr>nf_callback_index := nf_callback_index n + 1\<rparr>)
      = Some (n'\<lparr>nf_callback_index := nf_callback_index n' + 1\<rparr>, es)
    \<and> nf_error n' = nf_error n \<and> in_delivery m n' d' [] \<and> (\<forall>x\<in>set d'. finished x) \<and> called (removes_none b) r d' es
    \<and> kept (d @ map update r) d'"
  using assms
proof (induction "length r" arbitrary: n d r rule: less_induct)
  case less
  have idx: "nf_callback_index n + 1 = word_of_nat (length d)" and cnt: "nf_callback_count n = word_of_nat (length (d @ r))"
    and l: "length (d @ r) < 2 ^ 64" using less.prems(1) by (auto simp: in_delivery_def)
  show ?case
  proof (cases r)
    case Nil
    then have "\<not> nf_callback_index n + 1 < nf_callback_count n" using idx cnt by simp
    then show ?thesis using less.prems Nil
      by (intro exI [of _ n] exI [of _ d] exI [of _ "[]"]) (subst for_each_loop.simps, simp add: called_def)
  next
    case (Cons c ts)
    let ?n = "n\<lparr>nf_callback_index := nf_callback_index n + 1\<rparr>"
    have at: "nf_callback_index ?n < nf_callback_count ?n" "unat (nf_callback_index ?n) = length d"
      using idx cnt l Cons position_less [of "length d" "length (d @ r)"] by (simp_all add: unat_count)
    have here: "in_delivery m ?n (d @ [c]) ts" "cb_fn c \<noteq> None" and nth: "nf_callbacks n ! length d = c"
        "length d < length (nf_callbacks n)"
      using less.prems(1) Cons by (auto simp: in_delivery_def nf_ok_def tokens_def)
    have dist: "distinct (map cb_token (d @ r))" by (rule in_delivery_distinct [OF less.prems(1)])
    have "\<exists>n1 d1 r1. visit dbg b c ?n = Some (n1, pending c) \<and> nf_error n1 = nf_error ?n \<and> in_delivery m n1 d1 r1
        \<and> follows (removes_none b) ts r1 \<and> (\<forall>x\<in>set d1. finished x) \<and> kept (d @ [update c]) d1"
      using less.prems(3,4) by (intro visit_ok [OF here(1) less.prems(2) here(2)]) simp_all
    then obtain n1 d1 r1 where 1: "visit dbg b c ?n = Some (n1, pending c)" "nf_error n1 = nf_error n"
        "in_delivery m n1 d1 r1" "follows (removes_none b) ts r1" "\<forall>x\<in>set d1. finished x"
        "kept (d @ [update c]) d1" by auto
    have len: "length r1 < length r" using Cons list_emb_length [OF follows_kept [OF 1(4), unfolded kept_def]] by simp
    have "\<exists>n' d' es. for_each_loop (visit dbg b) (n1\<lparr>nf_callback_index := nf_callback_index n1 + 1\<rparr>)
          = Some (n'\<lparr>nf_callback_index := nf_callback_index n' + 1\<rparr>, es)
        \<and> nf_error n' = nf_error n1 \<and> in_delivery m n' d' [] \<and> (\<forall>x\<in>set d'. finished x) \<and> called (removes_none b) r1 d' es
        \<and> kept (d1 @ map update r1) d'"
      using less.prems(4) 1(2) by (intro less.hyps [OF len 1(3) less.prems(2) 1(5)]) simp
    then obtain n' d' es where 2:
        "for_each_loop (visit dbg b) (n1\<lparr>nf_callback_index := nf_callback_index n1 + 1\<rparr>)
          = Some (n'\<lparr>nf_callback_index := nf_callback_index n' + 1\<rparr>, es)"
        "nf_error n' = nf_error n1" "in_delivery m n' d' []" "\<forall>x\<in>set d'. finished x" "called (removes_none b) r1 d' es"
        "kept (d1 @ map update r1) d'" by blast
    have tokens_of: "map cb_token (map update zs) = map cb_token zs" for zs by (simp add: update_token)
    have "called (removes_none b) r d' (pending c @ es)"
      unfolding Cons
    proof (rule called_step [OF 1(4) 2(5)])
      show "set (map cb_token d') \<subseteq> set (map cb_token (d1 @ r1))"
        using kept_tokens [OF 2(6)] by (simp only: map_append tokens_of)
      show "set (map cb_token d1) \<subseteq> set (map cb_token (d @ [c]))"
        using kept_tokens [OF 1(6)] by (simp add: update_token)
    qed (use dist Cons in auto)
    moreover have "kept (d @ map update r) d'"
    proof (rule kept_trans [OF _ 2(6)])
      show "kept (d @ map update r) (d1 @ map update r1)"
        using kept_append [OF 1(6) update_kept [OF follows_kept [OF 1(4)]]] Cons by simp
    qed
    moreover have "for_each_loop (visit dbg b) ?n = Some (n'\<lparr>nf_callback_index := nf_callback_index n' + 1\<rparr>, pending c @ es)"
      using at nth 1(1) 2(1) by (subst for_each_loop.simps) simp
    ultimately show ?thesis using 2(2-4) 1(2) by auto
  qed
qed

lemma for_each_ok:
  assumes "in_delivery m n [] r" "well_behaved dbg m b" "error \<Longrightarrow> nf_error n"
  shows "\<exists>n' d' es. for_each_callback dbg (visit dbg b) n = Some (n', es) \<and> nf_error n' = nf_error n
    \<and> in_delivery m n' [] d' \<and> (\<forall>x\<in>set d'. finished x) \<and> kept (map update r) d' \<and> called (removes_none b) r d' es"
proof -
  from loop_ok [OF assms(1,2) _ assms(3)] obtain n' d' es where
    1: "for_each_loop (visit dbg b) (n\<lparr>nf_callback_index := nf_callback_index n + 1\<rparr>)
      = Some (n'\<lparr>nf_callback_index := nf_callback_index n' + 1\<rparr>, es)"
    "nf_error n' = nf_error n" "in_delivery m n' d' []" "\<forall>x\<in>set d'. finished x" "called (removes_none b) r d' es"
    "kept (map update r) d'" by auto
  have "unat (nf_callback_count n) \<le> length (nf_callbacks n)"
    using assms(1) unat_count [of "length r"] by (auto simp: in_delivery_def)
  then have "for_each_callback dbg (visit dbg b) n = Some (n'\<lparr>nf_callback_index := - 1\<rparr>, es)"
    using 1(1) by (simp add: for_each_callback_def)
  moreover have "in_delivery m (n'\<lparr>nf_callback_index := - 1\<rparr>) [] d'"
    using 1(3,4) finished_fn by (auto simp: in_delivery_def nf_ok_def tokens_def)
  ultimately show ?thesis using 1(2,4-6) by auto
qed

end

subsection \<open>The three visitors\<close>

definition before_pending :: "change_callback \<Rightarrow> notifier_call list" where
  "before_pending c = (if changes_empty (changes_to_deliver c) then [] else [Before_change (cb_token c) (changes_to_deliver c)])"

definition after_pending :: "change_callback \<Rightarrow> notifier_call list" where
  "after_pending c = (if initial_delivered c \<and> changes_empty (changes_to_deliver c) then []
     else [After_change (cb_token c) (changes_to_deliver c)])"

definition after_update :: "change_callback \<Rightarrow> change_callback" where
  "after_update c = (if initial_delivered c \<and> changes_empty (changes_to_deliver c) then c
     else c\<lparr>initial_delivered := True, changes_to_deliver := no_changes\<rparr>)"

definition error_pending :: "change_callback \<Rightarrow> notifier_call list" where
  "error_pending c = [Error_call (cb_token c)]"

definition has_fn :: "change_callback \<Rightarrow> bool" where
  "has_fn c \<longleftrightarrow> cb_fn c \<noteq> None"

definition delivered :: "change_callback \<Rightarrow> bool" where
  "delivered c \<longleftrightarrow> has_fn c \<and> initial_delivered c \<and> changes_empty (changes_to_deliver c)"

lemma all_kept:
  assumes "kept xs ys" "\<And>x. x \<in> set xs \<Longrightarrow> P x" "\<And>x y. frozen x = frozen y \<Longrightarrow> P x \<Longrightarrow> P y"
  shows "\<forall>y\<in>set ys. P y"
  using kept_member [OF assms(1)] assms(2,3) by blast

text \<open>The update of the callback that is visited.\<close>

lemma in_delivery_update:
  assumes "in_delivery m n (d @ [c]) r" "cb_token (g c) = cb_token c"
  shows "in_delivery m (update_visited g n) (d @ [g c]) r \<and> nf_error (update_visited g n) = nf_error n"
proof -
  from assms(1) obtain a where a: "nf_callbacks n = d @ c # r @ a" "added_since m a" by (auto simp: in_delivery_def)
  have i: "unat (nf_callback_index n) = length d"
    using assms(1) unat_position [of "Suc (length d)"] by (simp add: in_delivery_def)
  then have cs: "nf_callbacks (update_visited g n) = d @ g c # r @ a"
    using a(1) by (simp add: update_visited_def nth_append list_update_append)
  have "map cb_token (d @ g c # r @ a) = map cb_token (d @ c # r @ a)" using assms(2) by simp
  then have "tokens (update_visited g n) = tokens n" unfolding tokens_def cs a(1) .
  then have "nf_ok (update_visited g n)"
    using assms(1) cs a(1) by (simp add: in_delivery_def nf_ok_def) (simp add: update_visited_def)
  then have "in_delivery m (update_visited g n) (d @ [g c]) r"
    using assms cs a(2) by (auto simp: in_delivery_def) (simp_all add: update_visited_def)
  then show ?thesis by (simp add: update_visited_def)
qed

lemma before_visit_ok:
  assumes "in_delivery m n (d @ [c]) r" "well_behaved dbg m b" "cb_fn c \<noteq> None" "\<And>x. x \<in> set d \<Longrightarrow> has_fn x"
  shows "\<exists>n' d' r'. before_visit dbg b c n = Some (n', before_pending c) \<and> nf_error n' = nf_error n
    \<and> in_delivery m n' d' r' \<and> follows (removes_none b) r r' \<and> (\<forall>x\<in>set d'. has_fn x)
    \<and> kept (d @ [c]) d'"
proof (cases "changes_empty (changes_to_deliver c)")
  case True
  then show ?thesis using assms(1,3,4)
    by (intro exI [of _ n] exI [of _ "d @ [c]"] exI [of _ r]) (auto simp: before_visit_def before_pending_def has_fn_def)
next
  case False
  obtain f where f: "cb_fn c = Some f" using assms(3) by auto
  from run_fn_ok [OF assms(1,2), of f "changes_to_deliver c"] obtain n' d' r' where
    1: "run_fn dbg b (Some f) (changes_to_deliver c) n = Some n'" "nf_error n' = nf_error n" "in_delivery m n' d' r'"
      "follows (removes_none b) (d @ [c]) d'" "follows (removes_none b) r r'" by blast
  note k = follows_kept [OF 1(4)]
  have "\<forall>x\<in>set d'. has_fn x"
    using assms(3,4) by (intro all_kept [OF k]) (auto simp: has_fn_def frozen_def)
  then show ?thesis using 1 f False k
    by (intro exI [of _ n'] exI [of _ d'] exI [of _ r']) (simp add: before_visit_def before_pending_def)
qed

lemma after_visit_ok:
  assumes "in_delivery m n (d @ [c]) r" "well_behaved dbg m b" "cb_fn c \<noteq> None" "\<And>x. x \<in> set d \<Longrightarrow> delivered x"
  shows "\<exists>n' d' r'. after_visit dbg b c n = Some (n', after_pending c) \<and> nf_error n' = nf_error n
    \<and> in_delivery m n' d' r' \<and> follows (removes_none b) r r' \<and> (\<forall>x\<in>set d'. delivered x)
    \<and> kept (d @ [after_update c]) d'"
proof (cases "initial_delivered c \<and> changes_empty (changes_to_deliver c)")
  case True
  then show ?thesis using assms(1,3,4)
    by (intro exI [of _ n] exI [of _ "d @ [c]"] exI [of _ r]) (auto simp: after_visit_def after_pending_def delivered_def has_fn_def after_update_def)
next
  case False
  obtain f where f: "cb_fn c = Some f" using assms(3) by auto
  let ?g = "\<lambda>c::change_callback. c\<lparr>initial_delivered := True, changes_to_deliver := no_changes\<rparr>"
  have g: "after_update c = ?g c" unfolding after_update_def using False by (rule if_not_P)
  have u: "in_delivery m (update_visited ?g n) (d @ [?g c]) r" "nf_error (update_visited ?g n) = nf_error n"
    using in_delivery_update [OF assms(1), of ?g] by simp_all
  from run_fn_ok [OF u(1) assms(2), of f "changes_to_deliver c"] obtain n' d' r' where
    1: "run_fn dbg b (Some f) (changes_to_deliver c) (update_visited ?g n) = Some n'" "nf_error n' = nf_error (update_visited ?g n)"
      "in_delivery m n' d' r'" "follows (removes_none b) (d @ [?g c]) d'" "follows (removes_none b) r r'" by blast
  note k = follows_kept [OF 1(4)]
  have "\<forall>x\<in>set d'. delivered x"
    using assms(3,4) by (intro all_kept [OF k])
      (auto simp: delivered_def has_fn_def frozen_def changes_empty_def no_changes_def)
  moreover have "after_visit dbg b c n = Some (n', after_pending c)"
    using 1(1) f False by (auto simp: after_visit_def after_pending_def Let_def)
  ultimately show ?thesis using 1(2,3,5) u(2) k g by auto
qed

lemma error_visit_ok:
  assumes "in_delivery m n (d @ [c]) r" "well_behaved dbg m b" "cb_fn c \<noteq> None" "\<And>x. x \<in> set d \<Longrightarrow> False" "nf_error n"
  shows "\<exists>n' d' r'. error_visit dbg b c n = Some (n', error_pending c) \<and> nf_error n' = nf_error n
    \<and> in_delivery m n' d' r' \<and> follows (removes_none b) r r' \<and> (\<forall>x\<in>set d'. False)
    \<and> kept (d @ [c]) d'"
proof -
  have d: "d = []" using assms(4) by (cases d) auto
  obtain f where f: "cb_fn c = Some f" using assms(3) by auto
  let ?g = "\<lambda>c::change_callback. c\<lparr>cb_fn := None\<rparr>"
  have u: "in_delivery m (update_visited ?g n) [?g c] r" "nf_error (update_visited ?g n)"
    using in_delivery_update [OF assms(1), of ?g] d assms(5) by simp_all
  from run_fn_ok [OF u(1) assms(2), of f no_changes] obtain n1 d1 r1 where
    1: "run_fn dbg b (Some f) no_changes (update_visited ?g n) = Some n1" "nf_error n1"
      "in_delivery m n1 d1 r1" "follows (removes_none b) [?g c] d1" "follows (removes_none b) r r1" using u(2) by auto
  have less: "cb_token c < m" using assms(1) by (auto simp: in_delivery_def)
  have "remove_change_callback (cb_token c) n1 \<noteq> None"
    using 1(2) remove_present remove_absent token_split by (metis option.distinct(1))
  then obtain n2 where n2: "remove_change_callback (cb_token c) n1 = Some n2" by auto
  from in_delivery_remove [OF 1(3) less n2] obtain d2 r2 where
    2: "in_delivery m n2 d2 r2" "kept d1 d2" "follows (cb_token c \<notin> set (map cb_token r1)) r1 r2" "cb_token c \<notin> set (tokens n2)" by blast
  have "set (map cb_token d2) \<subseteq> {cb_token c}" using kept_tokens [OF kept_trans [OF follows_kept [OF 1(4)] 2(2)]] by simp
  moreover have "set (map cb_token d2) \<subseteq> set (tokens n2)" using 2(1) by (auto simp: in_delivery_def tokens_def)
  ultimately have "d2 = []" using 2(4) by (cases d2) auto
  moreover have "nf_error n2" using n2 1(2) by (cases rule: remove_callback_cases) (auto simp: removed_at_def)
  moreover have "error_visit dbg b c n = Some (n2, error_pending c)"
    using 1(1) f n2 by (simp add: error_visit_def error_pending_def Let_def)
  moreover have "cb_token c \<notin> set (map cb_token r1)" if "removes_none b"
  proof -
    have "map frozen d1 = [frozen (?g c)]" using 1(4) that by (simp add: follows_def)
    then have "map cb_token d1 = [cb_token c]" using same_tokens [of d1 "[?g c]"] by simp
    moreover have "distinct (map cb_token (d1 @ r1))" by (rule in_delivery_distinct [OF 1(3)])
    ultimately show ?thesis unfolding map_append by simp
  qed
  then have "follows (removes_none b) r r2" using follows_trans [OF 1(5) follows_mono [OF 2(3)]] by blast
  ultimately show ?thesis using 2(1) assms(5) d
    by (intro exI [of _ n2] exI [of _ d2] exI [of _ r2]) (simp add: kept_def)
qed

interpretation before: visitor before_visit before_pending "\<lambda>c. c" has_fn False
  using before_visit_ok by unfold_locales (auto simp: before_pending_def frozen_def has_fn_def)

interpretation after: visitor after_visit after_pending after_update delivered False
  using after_visit_ok by unfold_locales (auto simp: after_pending_def after_update_def frozen_def delivered_def has_fn_def)

interpretation error: visitor error_visit error_pending "\<lambda>c. c" "\<lambda>c. False" True
proof
  show "\<exists>n' d' r'. error_visit dbg b c n = Some (n', error_pending c) \<and> nf_error n' = nf_error n \<and> in_delivery m n' d' r'
      \<and> follows (removes_none b) r r' \<and> (\<forall>x\<in>set d'. False) \<and> kept (d @ [c]) d'"
    if "in_delivery m n (d @ [c]) r" "well_behaved dbg m b" "cb_fn c \<noteq> None" "\<And>x. x \<in> set d \<Longrightarrow> False" "True \<Longrightarrow> nf_error n"
    for m n d c r dbg b
    using that(5) by (intro error_visit_ok [OF that(1-4)]) simp_all
qed (simp_all add: error_pending_def frozen_def)

end
