(* ===== verification/Collection_Claims.thy ===== *)
theory Collection_Claims
  imports Collection_Delivery Change_Properties "HOL-Library.Code_Target_Nat"
begin

section \<open>Properties of the callbacks of a collection notifier\<close>

text \<open>
  The states of a notifier that a client, the worker and the deliveries can reach, and what holds in them: the
  invariant, that every delivery returns and leaves nobody out, and that what is delivered is everything that has
  happened. The one thing a client may not do is to remove a callback before the delivery has ended in which it was
  added; what happens then is shown at the end.
\<close>

subsection \<open>Reachable states\<close>

text \<open>
  The second argument is the next token at the time the notifier was packaged, if a delivery is under way.
\<close>

inductive nf_reach :: "bool \<Rightarrow> nat option \<Rightarrow> collection_notifier \<Rightarrow> bool" for dbg where
  start: "nf_reach dbg None (collection_notifier_new v)"
| attached: "nf_reach dbg x n \<Longrightarrow> attach_to n = Some n' \<Longrightarrow> nf_reach dbg x n'"
| detached: "nf_reach dbg x n \<Longrightarrow> detach n = Some n' \<Longrightarrow> nf_reach dbg x n'"
| idle_act: "nf_reach dbg None n \<Longrightarrow> notifier_act dbg a n = Some n' \<Longrightarrow> nf_reach dbg None n'"
| act: "nf_reach dbg (Some m) n \<Longrightarrow> \<not> late m a \<Longrightarrow> notifier_act dbg a n = Some n' \<Longrightarrow> nf_reach dbg (Some m) n'"
| packaged: "nf_reach dbg x n \<Longrightarrow> length (nf_callbacks n) < 2 ^ 64 \<Longrightarrow> package_for_delivery dbg True n = Some (n', True)
    \<Longrightarrow> nf_reach dbg (Some (nf_next_token n)) n'"
| before: "nf_reach dbg (Some m) n \<Longrightarrow> well_behaved dbg m b \<Longrightarrow> before_advance dbg b n = Some (n', es)
    \<Longrightarrow> nf_reach dbg (Some m) n'"
| after: "nf_reach dbg (Some m) n \<Longrightarrow> well_behaved dbg m b \<Longrightarrow> after_advance dbg b n = Some (n', es)
    \<Longrightarrow> nf_reach dbg (Some m) n'"
| ended: "nf_reach dbg (Some m) n \<Longrightarrow> nf_reach dbg None n"
| failed: "nf_reach dbg x n \<Longrightarrow> length (nf_callbacks n) < 2 ^ 64 \<Longrightarrow> well_behaved dbg (nf_next_token n) b
    \<Longrightarrow> deliver_error dbg b n = Some (n', es) \<Longrightarrow> nf_reach dbg None n'"

definition nf_idle :: "collection_notifier \<Rightarrow> bool" where
  "nf_idle n \<longleftrightarrow> nf_ok n \<and> nf_callback_index n = - 1 \<and> (\<forall>c\<in>set (nf_callbacks n). has_fn c)"

lemma in_delivery_idle: "in_delivery m n [] r \<Longrightarrow> nf_idle n"
  by (auto simp: in_delivery_def nf_idle_def has_fn_def added_since_def)

lemma idle_in_delivery:
  "nf_idle n \<Longrightarrow> length (nf_callbacks n) < 2 ^ 64 \<Longrightarrow> nf_callback_count n = word_of_nat (length (nf_callbacks n))
    \<Longrightarrow> in_delivery (nf_next_token n) n [] (nf_callbacks n)"
  by (auto simp: in_delivery_def nf_idle_def has_fn_def added_since_def nf_ok_def tokens_def)

lemma idle_same:
  assumes "nf_idle n" "map frozen (nf_callbacks n') = map frozen (nf_callbacks n)"
    "nf_have_callbacks n' = nf_have_callbacks n" "nf_callback_index n' = nf_callback_index n"
    "nf_next_token n' = nf_next_token n"
  shows "nf_idle n'"
  using assms(1,3-5) same_tokens [OF assms(2)] all_same [OF assms(2), of "\<lambda>t f. f \<noteq> None"] assms(2)
  by (auto simp: nf_idle_def nf_ok_def tokens_def has_fn_def)

text \<open>Every act of an idle notifier is one of a delivery that has nobody to call.\<close>

lemma idle_act_ok:
  assumes "nf_idle n" "notifier_act dbg a n = Some n'"
  shows "nf_idle n'"
proof (cases a)
  case (AddChangeCallback f)
  then obtain t where t: "add_change_callback f n = Some (n', t)" using assms(2) by auto
  show ?thesis using assms(1) add_callback_fields [OF t] add_callback_ok [OF t]
    by (auto simp: nf_idle_def callback_new_def has_fn_def)
next
  case (RemoveChangeCallback t)
  then have "remove_change_callback t n = Some n'" using assms(2) by simp
  then show ?thesis
    using assms(1)
    by (cases rule: remove_callback_cases) (auto simp: nf_idle_def nf_ok_def tokens_def removed_at_def)
next
  case (SuppressNext t)
  have "frozen (c\<lparr>skip_next := True\<rparr>) = frozen c" for c by (simp add: frozen_def)
  then show ?thesis using SuppressNext assms(2)
    by (intro idle_same [OF assms(1)])
      (auto simp: suppress_next_notification_def frozen_update split: bind_split_asm if_splits)
next
  case Unregister
  then show ?thesis using assms by (auto simp: unregister_notifier_def nf_idle_def nf_ok_def tokens_def)
next
  case (Handover v c)
  then show ?thesis using assms(2)
    by (intro idle_same [OF assms(1)])
      (auto simp: prepare_handover_def add_changes_def Let_def accumulate_frozen split: bind_split_asm if_splits)
qed

lemma map_opt_package: "map_opt (package_callback dbg) cs = Some cs' \<Longrightarrow>
    map cb_token cs' = map cb_token cs \<and> map cb_fn cs' = map cb_fn cs \<and> length cs' = length cs"
  by (induction cs arbitrary: cs') (auto simp: package_callback_def split: bind_split_asm)

lemma all_fn: "map cb_fn cs' = map cb_fn cs \<Longrightarrow> (\<forall>c\<in>set cs'. has_fn c) \<longleftrightarrow> (\<forall>c\<in>set cs. has_fn c)"
  unfolding has_fn_def by (metis (mono_tags) image_iff list.set_map)

lemma package_in_delivery:
  assumes "nf_idle n" "length (nf_callbacks n) < 2 ^ 64" "package_for_delivery dbg True n = Some (n', True)"
  shows "in_delivery (nf_next_token n) n' [] (nf_callbacks n')"
proof -
  from assms(3) obtain cs where cs: "map_opt (package_callback dbg) (nf_callbacks n) = Some cs"
      "n' = n\<lparr>nf_callbacks := cs, nf_callback_count := word_of_nat (length cs)\<rparr>"
    by (auto simp: package_for_delivery_def split: bind_split_asm)
  note p = map_opt_package [OF cs(1)]
  have "nf_idle n'" using assms(1) p all_fn [of cs "nf_callbacks n"] cs(2)
    by (auto simp: nf_idle_def nf_ok_def tokens_def)
  from idle_in_delivery [OF this] show ?thesis using assms(2) p cs(2) by simp
qed

lemma error_in_delivery:
  assumes "nf_idle n" "length (nf_callbacks n) < 2 ^ 64"
  shows "in_delivery (nf_next_token n)
    (n\<lparr>nf_error := True, nf_callback_count := word_of_nat (length (nf_callbacks n))\<rparr>) [] (nf_callbacks n)"
  using idle_in_delivery [of "n\<lparr>nf_error := True, nf_callback_count := word_of_nat (length (nf_callbacks n))\<rparr>"] assms
  by (simp add: nf_idle_def nf_ok_def tokens_def)

lemma in_delivery_sg [simp]: "in_delivery m (n\<lparr>nf_sg := b\<rparr>) d r = in_delivery m n d r" "nf_idle (n\<lparr>nf_sg := b\<rparr>) = nf_idle n"
  by (simp_all add: in_delivery_def nf_idle_def nf_ok_def tokens_def)

definition deliverable :: "nat option \<Rightarrow> collection_notifier \<Rightarrow> bool" where
  "deliverable x n \<longleftrightarrow> nf_idle n \<and> (\<forall>m. x = Some m \<longrightarrow> (\<exists>r. in_delivery m n [] r))"

lemma nf_reach_deliverable: "nf_reach dbg x n \<Longrightarrow> deliverable x n"
proof (induction rule: nf_reach.induct)
  case (start v)
  then show ?case by (simp add: deliverable_def nf_idle_def nf_ok_def tokens_def collection_notifier_new_def)
next
  case (attached x n n')
  then have "n' = n\<lparr>nf_sg := True\<rparr>" by (auto simp: attach_to_def split: bind_split_asm)
  then show ?case using attached.IH by (simp add: deliverable_def)
next
  case (detached x n n')
  then have "n' = n\<lparr>nf_sg := False\<rparr>" by (auto simp: detach_def split: bind_split_asm)
  then show ?case using detached.IH by (simp add: deliverable_def)
next
  case (idle_act n a n')
  then show ?case using idle_act_ok by (simp add: deliverable_def)
next
  case (act m n a n')
  then obtain r where "in_delivery m n [] r" by (auto simp: deliverable_def)
  from in_delivery_act [OF this act.hyps(2,3)] obtain r' where "in_delivery m n' [] r'"
    by (auto simp: follows_def)
  then show ?case using in_delivery_idle by (auto simp: deliverable_def)
next
  case (packaged x n n')
  then have "in_delivery (nf_next_token n) n' [] (nf_callbacks n')" by (auto simp: deliverable_def intro: package_in_delivery)
  then show ?case using in_delivery_idle by (auto simp: deliverable_def)
next
  case (before m n b n' es)
  then obtain r where "in_delivery m n [] r" by (auto simp: deliverable_def)
  from before.for_each_ok [OF this before.hyps(2)] before.hyps(3) obtain d' where "in_delivery m n' [] d'"
    by (auto simp: before_advance_def)
  then show ?case using in_delivery_idle by (auto simp: deliverable_def)
next
  case (after m n b n' es)
  then obtain r where "in_delivery m n [] r" by (auto simp: deliverable_def)
  from after.for_each_ok [OF this after.hyps(2)] after.hyps(3) obtain d' where "in_delivery m n' [] d'"
    by (auto simp: after_advance_def)
  then show ?case using in_delivery_idle by (auto simp: deliverable_def)
next
  case (ended m n)
  then show ?case by (simp add: deliverable_def)
next
  case (failed x n b n' es)
  then have "nf_idle n" by (simp add: deliverable_def)
  from error.for_each_ok [OF error_in_delivery [OF this failed.hyps(2)] failed.hyps(3)] failed.hyps(4)
  obtain d' where "in_delivery (nf_next_token n) n' [] d'" by (auto simp: deliver_error_def Let_def)
  then show ?case using in_delivery_idle by (auto simp: deliverable_def)
qed

subsection \<open>The invariant\<close>

text \<open>C28: at every time between two calls the tokens of the registered callbacks are distinct and older than the next
  token, no callback is being visited, and the flag that lets the worker skip a notifier without callbacks is
  right, whatever the callbacks have done during deliveries.\<close>

theorem notifier_invariant:
  assumes "nf_reach dbg x n"
  shows "distinct (tokens n) \<and> (\<forall>t\<in>set (tokens n). t < nf_next_token n) \<and> nf_callback_index n = - 1
    \<and> (nf_have_callbacks n \<longleftrightarrow> nf_callbacks n \<noteq> [])"
  using nf_reach_deliverable [OF assms] by (simp add: deliverable_def nf_idle_def nf_ok_def)

subsection \<open>Deliveries\<close>

text \<open>The callbacks that were registered when the notifier was packaged.\<close>

definition packaged_callbacks :: "nat \<Rightarrow> collection_notifier \<Rightarrow> change_callback list" where
  "packaged_callbacks m n = filter (\<lambda>c. cb_token c < m) (nf_callbacks n)"

lemma in_delivery_packaged:
  assumes "in_delivery m n [] r"
  shows "packaged_callbacks m n = r"
proof -
  from assms obtain a where "nf_callbacks n = r @ a" "added_since m a" "\<forall>c\<in>set r. cb_token c < m"
    by (auto simp: in_delivery_def)
  then show ?thesis by (auto simp: packaged_callbacks_def added_since_def filter_empty_conv)
qed

lemma packaged_token:
  "t < m \<Longrightarrow> t \<in> set (map cb_token (packaged_callbacks m n)) \<longleftrightarrow> t \<in> set (tokens n)"
  by (auto simp: packaged_callbacks_def tokens_def)

lemma nf_reach_packaged: "nf_reach dbg (Some m) n \<Longrightarrow> in_delivery m n [] (packaged_callbacks m n)"
  using nf_reach_deliverable in_delivery_packaged by (fastforce simp: deliverable_def)


text \<open>C29: with both halves of a delivery, no callback is told of changes by \<open>after\<close> that it was not told of by
  \<open>before\<close>.\<close>

theorem after_follows_before:
  assumes "nf_reach dbg (Some m) n" "well_behaved dbg m b" "well_behaved dbg m b'"
  shows "\<exists>n1 es1 n2 es2. before_advance dbg b n = Some (n1, es1) \<and> after_advance dbg b' n1 = Some (n2, es2)
    \<and> (\<forall>t ch. After_change t ch \<in> set es2 \<longrightarrow> changes_empty ch \<or> Before_change t ch \<in> set es1)"
proof -
  let ?r = "packaged_callbacks m n"
  from before.for_each_ok [OF nf_reach_packaged [OF assms(1)] assms(2)] obtain n1 d1 es1 where
    1: "before_advance dbg b n = Some (n1, es1)" "in_delivery m n1 [] d1" "kept ?r d1"
      "before.called (removes_none b) ?r d1 es1" by (auto simp: before_advance_def)
  from after.for_each_ok [OF 1(2) assms(3)] obtain n2 d2 es2 where
    2: "after_advance dbg b' n1 = Some (n2, es2)" "after.called (removes_none b') d1 d2 es2"
    by (auto simp: after_advance_def)
  have "Before_change t ch \<in> set es1" if a: "After_change t ch \<in> set es2" "\<not> changes_empty ch" for t ch
  proof -
    have "set es2 \<subseteq> set (concat (map after_pending d1))" using 2(2) by (auto simp: after.called_def dest: list_emb_set)
    then obtain c where "c \<in> set d1" "After_change t ch \<in> set (after_pending c)" using a(1) by auto
    then have c: "c \<in> set d1" "t = cb_token c" "ch = changes_to_deliver c" by (auto simp: after_pending_def split: if_splits)
    from kept_member [OF 1(3) c(1)] obtain c0 where c0: "c0 \<in> set ?r" "frozen c0 = frozen c" by blast
    then have "cb_token c0 \<in> set (map cb_token d1)" "before_pending c0 = [Before_change t ch]"
      using c a(2) by (auto simp: frozen_def before_pending_def)
    then show ?thesis using 1(4) c0(1) by (auto simp: before.called_def)
  qed
  then show ?thesis using 1(1) 2(1) by blast
qed


subsection \<open>What is delivered\<close>

text \<open>
  A sequence of change sets, each right for the state that the one before it leads to and such that merging it fits
  the chunks that \<open>add_shifted_by\<close> allocates.
\<close>

fun chained :: "bool \<Rightarrow> change_builder \<Rightarrow> change_builder list \<Rightarrow> ('k, 'v) row list \<Rightarrow> ('k, 'v) row list \<Rightarrow> bool" where
  "chained dbg acc [] ys zs \<longleftrightarrow> ys = zs"
| "chained dbg acc (c # cs) ys zs \<longleftrightarrow> move_mapping c = [] \<and> track_columns c = track_columns acc
     \<and> (\<forall>del. add_shifted_by dbg (deletions acc) (insertions acc) (deletions c) = Some del
        \<longrightarrow> length (ranges del) \<le> (length (ranges (deletions acc)) div max_size dbg + 1) * max_size dbg)
     \<and> (\<exists>ws. describes dbg c ys ws \<and> (\<forall>acc'. cb_merge dbg acc c = Some acc' \<longrightarrow> chained dbg acc' cs ws zs))"

lemma map_opt_length: "map_opt f xs = Some ys \<Longrightarrow> length ys = length xs"
  by (induction xs arbitrary: ys) (auto split: bind_split_asm)

lemma accumulate_merges: "accumulate dbg change c = Some c' \<Longrightarrow> \<not> skip_next c \<Longrightarrow>
    cb_merge dbg (accumulated_changes c) change = Some (accumulated_changes c') \<and> \<not> skip_next c'"
  by (auto simp: accumulate_def split: bind_split_asm)

lemma package_finalizes: "package_callback dbg c = Some c' \<Longrightarrow>
    cb_finalize dbg (accumulated_changes c) = Some (changes_to_deliver c')
    \<and> accumulated_changes c' = finalized (accumulated_changes c)"
  by (auto simp: package_callback_def split: bind_split_asm)

lemma map_opt_nth: "map_opt f xs = Some ys \<Longrightarrow> i < length xs \<Longrightarrow> length ys = length xs \<and> f (xs ! i) = Some (ys ! i)"
proof (induction xs arbitrary: ys i)
  case (Cons x xs)
  then obtain y zs where y: "f x = Some y" "map_opt f xs = Some zs" "ys = y # zs" by (auto split: bind_split_asm)
  have "length zs = length xs" using map_opt_length [OF y(2)] .
  then show ?case using Cons.IH [OF y(2)] Cons.prems(2) y by (cases i) auto
qed simp

lemma add_changes_nth:
  assumes "add_changes dbg c n = Some n'" "i < length (nf_callbacks n)"
  shows "length (nf_callbacks n') = length (nf_callbacks n)
    \<and> accumulate dbg c (nf_callbacks n ! i) = Some (nf_callbacks n' ! i)"
  using assms map_opt_nth by (fastforce simp: add_changes_def split: bind_split_asm)

lemma accumulated_changes_describe:
  assumes "i < length (nf_callbacks n)" "\<not> skip_next (nf_callbacks n ! i)"
    "describes dbg (accumulated_changes (nf_callbacks n ! i)) xs ys" "move_mapping (accumulated_changes (nf_callbacks n ! i)) = []"
    "chained dbg (accumulated_changes (nf_callbacks n ! i)) cs ys zs"
    "fold_opt (add_changes dbg) cs n = Some n1"
  shows "i < length (nf_callbacks n1) \<and> describes dbg (accumulated_changes (nf_callbacks n1 ! i)) xs zs
    \<and> move_mapping (accumulated_changes (nf_callbacks n1 ! i)) = []"
  using assms
proof (induction cs arbitrary: n ys)
  case (Cons c cs)
  let ?acc = "accumulated_changes (nf_callbacks n ! i)"
  from Cons.prems(6) obtain n' where n': "add_changes dbg c n = Some n'" "fold_opt (add_changes dbg) cs n' = Some n1"
    by (auto split: bind_split_asm)
  note at = add_changes_nth [OF n'(1) Cons.prems(1)]
  then have acc: "cb_merge dbg ?acc c = Some (accumulated_changes (nf_callbacks n' ! i))"
      "\<not> skip_next (nf_callbacks n' ! i)"
    using Cons.prems(2) accumulate_merges by blast+
  from Cons.prems(5) obtain ws where ws: "describes dbg c ys ws" "chained dbg (accumulated_changes (nf_callbacks n' ! i)) cs ws zs"
    using acc(1) by auto
  have "succeeds (cb_merge dbg ?acc c) (\<lambda>a. describes dbg a xs ws \<and> move_mapping a = [])"
    using Cons.prems(5) by (intro cb_merge_ok [OF Cons.prems(3) ws(1) Cons.prems(4)]) auto
  then have "describes dbg (accumulated_changes (nf_callbacks n' ! i)) xs ws"
      "move_mapping (accumulated_changes (nf_callbacks n' ! i)) = []" using acc(1) by (auto elim: succeedsE)
  then show ?case using Cons.IH [of n' ws] at Cons.prems(1) acc(2) ws(2) n'(2) by simp
qed simp

lemma finalized_describes:
  assumes "describes dbg c xs ys" "move_mapping c = []"
  shows "describes dbg (finalized c) ys ys"
proof -
  have "same snd {} (pairs {} {} {} (length ys) (length ys)) ys ys" by (auto simp: same_def pairs_def)
  then show ?thesis
    using assms(2) by (simp add: describes_def cb_ok_def moves_ok_def finalized_def crv_ok_Nil tracks_id move_pairs_def)
qed


subsection \<open>Examples\<close>

definition two_callbacks :: collection_notifier where
  "two_callbacks = (collection_notifier_new 1)\<lparr>nf_sg := True, nf_callbacks := [callback_new 0 0, callback_new 1 1],
     nf_next_token := 2, nf_have_callbacks := True, nf_wake_ups := 2\<rparr>"

definition handed_over :: "nat \<Rightarrow> change_builder \<Rightarrow> collection_notifier \<Rightarrow> collection_notifier" where
  "handed_over v c n = the (prepare_handover True v c n)"

definition packaged_now :: "collection_notifier \<Rightarrow> collection_notifier" where
  "packaged_now n = fst (the (package_for_delivery True True n))"

definition first_delivery :: collection_notifier where
  "first_delivery = packaged_now (handed_over 2 example_first two_callbacks)"

text \<open>The first callback removes the second one.\<close>

definition remove_second :: behaviour where
  "remove_second f ch n = (if f = 0 \<and> 1 \<in> set (tokens n) then [RemoveChangeCallback 1] else [])"

lemma two_callbacks_reach: "nf_reach True None two_callbacks"
proof -
  have "nf_reach True None ((collection_notifier_new 1)\<lparr>nf_sg := True\<rparr>)"
    by (rule attached [OF start [of _ 1]]) (simp add: attach_to_def collection_notifier_new_def)
  from idle_act [OF this, of "AddChangeCallback 0"] idle_act [of True _ "AddChangeCallback 1" two_callbacks]
  show ?thesis
    by (simp add: add_change_callback_def collection_notifier_new_def two_callbacks_def Let_def)
qed

lemma first_delivery_reach: "nf_reach True (Some 2) first_delivery"
proof -
  let ?h = "handed_over 2 example_first two_callbacks"
  have "prepare_handover True 2 example_first two_callbacks \<noteq> None" by code_simp
  then have "nf_reach True None ?h"
    using idle_act [OF two_callbacks_reach, of "Handover 2 example_first" ?h] by (auto simp: handed_over_def)
  moreover have "package_for_delivery True True ?h = Some (packaged_now ?h, True)"
  proof -
    have "map_option snd (package_for_delivery True True ?h) = Some True" by code_simp
    then show ?thesis by (auto simp: packaged_now_def)
  qed
  moreover have "nf_next_token ?h = 2" "length (nf_callbacks ?h) = 2" by code_simp+
  ultimately show ?thesis using packaged [of True None ?h "packaged_now ?h"] by (simp add: first_delivery_def)
qed

lemma remove_second_well_behaved: "well_behaved True 2 remove_second"
proof -
  have "remove_change_callback 1 n \<noteq> None" if "1 \<in> set (tokens n)" for n
    using that by (rule token_split) (use remove_present in force)
  then show ?thesis by (fastforce simp: well_behaved_def remove_second_def late_def split: option.split)
qed

definition quiet :: behaviour where
  "quiet f ch n = []"

lemma quiet_well_behaved [simp]: "well_behaved dbg m quiet" "removes_none quiet"
  by (simp_all add: well_behaved_def quiet_def removes_none_def)

theorem notifier_invariant_witness:
  "distinct (tokens first_delivery) \<and> nf_callback_index first_delivery = - 1 \<and> nf_have_callbacks first_delivery"
proof -
  have "nf_callbacks first_delivery \<noteq> []" by code_simp
  then show ?thesis using notifier_invariant [OF first_delivery_reach] by simp
qed


theorem after_follows_before_witness:
  "\<exists>n1 es1 n2 es2. before_advance True quiet first_delivery = Some (n1, es1)
    \<and> after_advance True remove_second n1 = Some (n2, es2)"
  using after_follows_before [OF first_delivery_reach quiet_well_behaved(1) remove_second_well_behaved] by blast


lemma example_chained:
  "chained True cb_nil [example_first, example_second]
     (nat_rows [(1, 0), (2, 0), (3, 0), (4, 0)]) (nat_rows [(1, 0), (9, 0), (4, 0)])"
proof -
  have first: "describes True example_first (nat_rows [(1, 0), (2, 0), (3, 0), (4, 0)]) (nat_rows [(3, 8), (4, 0), (1, 0)])"
    using list_built [of "[List_erase 1, List_move 0 2, List_modify 0 0 8]" "nat_rows [(1, 0), (2, 0), (3, 0), (4, 0)]" True]
    by (simp add: example_first_def del_list_def ins_list_def move_list_def npos_def)
  have second: "describes True example_second (nat_rows [(3, 8), (4, 0), (1, 0)]) (nat_rows [(1, 0), (9, 0), (4, 0)])"
    using list_built [of "[List_move 2 0, List_insert 1 [(9, 0)], List_erase 2]" "nat_rows [(3, 8), (4, 0), (1, 0)]" True]
    by (simp add: example_second_def del_list_def ins_list_def move_list_def npos_def)
  have fits: "(case add_shifted_by True (deletions c) (insertions c) (deletions c') of None \<Rightarrow> True
      | Some del \<Rightarrow> length (ranges del) \<le> (length (ranges (deletions c)) div max_size True + 1) * max_size True)"
    if "(c, c') \<in> {(cb_nil, example_first), (example_first, example_second)}" for c c'
    using that by (elim insertE emptyE) (simp only: prod.inject, code_simp)+
  have "cb_merge True cb_nil example_first = Some example_first"
    "move_mapping example_first = []" "move_mapping example_second = []"
    "track_columns example_first = track_columns cb_nil" "track_columns example_second = track_columns example_first"
    by code_simp+
  then show ?thesis using first second fits [of cb_nil example_first] fits [of example_first example_second]
    by (auto split: option.splits)
qed

definition first_two :: collection_notifier where
  "first_two = the (fold_opt (add_changes True) [example_first, example_second] two_callbacks)"


subsection \<open>A removal that is not allowed for\<close>

text \<open>The first callback adds another one and removes it again.\<close>

definition add_and_remove :: behaviour where
  "add_and_remove f ch n = (if f = 0 then [AddChangeCallback 2, RemoveChangeCallback (nf_next_token n)] else [])"

definition after_lossy :: "(collection_notifier \<times> notifier_call list) option" where
  "after_lossy = after_advance True add_and_remove first_delivery"

definition second_delivery :: "(collection_notifier \<times> notifier_call list) option" where
  "second_delivery = after_advance True quiet (packaged_now (handed_over 3 example_second (fst (the after_lossy))))"

definition added_and_removed :: collection_notifier where
  "added_and_removed = the (fold_opt (notifier_act False) [AddChangeCallback 0, RemoveChangeCallback 0]
     (packaged_now (collection_notifier_new 1)))"

text \<open>\<open>remove_callback\<close> counts down the callbacks to be called although the removed one may not be among them. If a
  callback adds another one and removes it again, the last callback is not called, and the next delivery tells
  it only of the changes since. If there was no callback, the count wraps around and the next loop goes beyond
  the end of the callbacks.\<close>

theorem late_removal_loses_changes:
  "map_option snd after_lossy = Some [After_change 0 (the (cb_finalize True example_first))]
   \<and> map_option (tokens \<circ> fst) after_lossy = Some [0, 1]
   \<and> map_option snd second_delivery = Some [After_change 0 (the (cb_finalize True example_second)),
        After_change 1 (the (cb_finalize True example_second))]
   \<and> nf_callbacks added_and_removed = [] \<and> nf_callback_count added_and_removed = - 1
   \<and> after_advance False quiet added_and_removed = None"
proof (intro conjI)
  show "map_option snd after_lossy = Some [After_change 0 (the (cb_finalize True example_first))]" by code_simp
  show "map_option (tokens \<circ> fst) after_lossy = Some [0, 1]" by code_simp
  show "map_option snd second_delivery = Some [After_change 0 (the (cb_finalize True example_second)),
        After_change 1 (the (cb_finalize True example_second))]" by code_simp
  show "nf_callbacks added_and_removed = []" by code_simp
  show "nf_callback_count added_and_removed = - 1" by code_simp
  show "after_advance False quiet added_and_removed = None" by code_simp
qed

end
