(* ===== verification/Spec2Isabelle.thy ===== *)
theory Spec2Isabelle
  imports Index_Set_Properties Change_Properties Calculate_Claims Results_Claims Store_Rename Session_Claims Notifier_Claims Progress_Claims Deep_Claims Log_Claims Collection_Claims
begin

text \<open>
  A verification development for the Realm object store, the C++ library that the demo application ships in
  \<open>reactive-mobile-demo/Pods/Realm\<close>. Paths below are relative to \<open>Realm/ObjectStore/src\<close> and \<open>include\<close> there. The
  core database and the sync client are compiled libraries with headers only; the templates of the transaction log in
  \<open>core/realm/impl/transact_log.hpp\<close> are code and are modelled.

  \<^bold>\<open>How the parts interact.\<close> A write transaction leaves a log of instructions. When a Realm advances, the parser
  reads the log and calls an observer, which feeds every instruction on a table or list of interest to a change set
  builder; the sets of positions in it are \<open>IndexSet\<close>s. The notifiers take what the observer has found, compare the rows
  of their query or list before and after, ask the deep checker which rows have changed through links, and hand the
  result to their callbacks, which merge it with what they have not delivered yet. Opening a Realm compares the
  schema of the file with the one wanted and applies the differences. A synchronised Realm has a session, a state
  machine around a session of the sync client.

  \<^bold>\<open>Conventions.\<close> Code that can fail an assertion, leave an array or not return is in the option monad, and \<open>None\<close> is
  the failure; exceptions of the code are \<open>Inl\<close> of a sum. \<open>dbg\<close> says whether it is a debug build, which verifies more
  and has chunks of four ranges in place of hundreds. Sizes and positions are natural numbers with \<open>npos\<close> for
  \<open>size_t(-1)\<close>; where the code wraps around or tests bits (callback counts, versions, progress, the bytes of the
  log) they are words or the wrap-around is written out. \<open>succeeds m P\<close> says that \<open>m\<close> ends without a failure
  in a state with \<open>P\<close>, so that every theorem of this form is one on termination and on assertions too.
  \<open>simulation\<close> is the locale of an implementation that runs operations against their specification.

  \<^bold>\<open>Theories.\<close>

  \<^item> \<open>Prelude\<close>: sizes, assertions, \<open>succeeds\<close>, runs of operations, lemmas on lists and sets.

  \<^item> \<open>index_set.cpp\<close>, \<open>index_set.hpp\<close>. \<open>Range_Lists\<close> has the abstract side, ordered lists of disjoint ranges.
    \<open>Chunked_Ranges\<close> has \<open>ChunkedRangeVector\<close> with its iterators, \<open>Index_Set\<close>, \<open>Index_Set_Update\<close> and
    \<open>Index_Set_Bulk\<close> the operations; \<open>Index_Set_Count\<close>, \<open>Index_Set_Merge\<close> and \<open>Index_Set_Shifted\<close> what they do to the
    set, and \<open>Index_Set_Ops\<close> the interface \<open>set_op\<close> that the other parts use. \<open>Index_Set_Properties\<close>: every run of
    operations keeps the chunks well formed and computes the composition of the meanings of its operations.

  \<^item> \<open>impl/collection_change_builder.cpp\<close>. \<open>Change_Builder\<close> and \<open>Change_Calculate\<close> are the code. \<open>Change_Sets\<close> says what
    a right change set between two lists is, and how two of them compose; \<open>Change_Builder_Ops\<close>, \<open>Change_Builder_Rows\<close>,
    \<open>Change_Merge\<close> and \<open>Change_Builder_Runs\<close> show it for every operation, for \<open>merge\<close> and for runs.
    \<open>Change_Matches\<close> and \<open>Change_Sequences\<close> show that the search for common blocks returns and that what is
    computed leads from the old list to the new one, \<open>Change_Unsorted\<close> the same for rows in table order.
    \<open>Change_Properties\<close> and \<open>Calculate_Claims\<close> have the properties.

  \<^item> \<open>object_schema.cpp\<close>, \<open>schema.cpp\<close>, \<open>property.hpp\<close>: \<open>Schema_Model\<close>, with the proofs on validation and comparison
    in \<open>Schema_Properties\<close>, \<open>Schema_Compare\<close>, \<open>Schema_Views\<close> and the properties in \<open>Schema_Claims\<close>.

  \<^item> \<open>object_store.cpp\<close>: \<open>Store_Model\<close> reads and writes a file, \<open>Store_Changes\<close> checks lists of changes, \<open>Store_Apply\<close>
    applies them in every schema mode. The tables of a file are a parameter; \<open>Store_Reference\<close> has what is required of
    them as a predicate, and an implementation that has it. \<open>Store_Claims\<close> and \<open>Store_Rename\<close>: which changes each mode
    accepts, and that the columns in the schema are those of the file.

  \<^item> \<open>sync/sync_session.cpp\<close>: \<open>Session_Model\<close> and \<open>Session_Ops\<close> are the states and the operations, every call that leaves
    the session in the order of the code. \<open>Session_Invariant\<close> and \<open>Session_Claims\<close>: no assertion fails in a reachable
    state, the history is a path through the documented diagram, and waiters are resolved once.
    \<open>Session_Notifiers\<close>, \<open>Notifier_Claims\<close> and \<open>Progress_Claims\<close> have its two notifiers.

  \<^item> \<open>impl/transact_log_handler.cpp\<close>: \<open>Transact_Info\<close> is what is collected, \<open>Transact_Log\<close> the validator and the observer,
    \<open>Transact_KVO\<close> the adapter for observed objects. \<open>Transact_Rows\<close> and \<open>Transact_Columns\<close> relate the observer to the
    tables and columns of a group, with the properties in \<open>Transact_Claims\<close>.

  \<^item> \<open>core/realm/impl/transact_log.hpp\<close>: \<open>Log_Integers\<close> is the encoding of integers, \<open>Log_Encoding\<close> the encoder,
    \<open>Log_Parsing\<close> the parser, \<open>Log_Reverse\<close> the reverser. \<open>Log_Roundtrip\<close> shows that what is written is read back and
    \<open>Log_Observed\<close> joins the parser to the observer; \<open>Log_Claims\<close> has the properties.

  \<^item> \<open>impl/collection_notifier.cpp\<close>: \<open>Deep_Change\<close> is the checker of linked rows; \<open>Deep_Related\<close> and \<open>Deep_Reach\<close> show that
    it finds the tables that can be reached and the rows with a modified row within three links (\<open>Deep_Claims\<close>).
    \<open>Collection_Notifier\<close> has the callbacks, \<open>Collection_Delivery\<close> the invariant of a delivery and \<open>Collection_Claims\<close>
    who is told of what. \<open>Notifier_Runs\<close> has the subclasses of \<open>results_notifier.cpp\<close>, \<open>list_notifier.cpp\<close>,
    \<open>primitive_list_notifier.cpp\<close> and \<open>object_notifier.cpp\<close>, \<open>Results_Claims\<close> what they report.

  \<^bold>\<open>Locales.\<close> \<open>simulation\<close> is interpreted for index sets, tables, lists, columns and the log; \<open>set_op\<close> and \<open>col_op\<close>
  for the operations on index sets and on the sets of every column; \<open>col_pair\<close> for the parts of \<open>merge\<close>;
  \<open>row_search\<close> for the search through links, one level after the other; \<open>visitor\<close> for the three deliveries.

  \<^bold>\<open>Bounds and termination.\<close> Recursions that the code does not bound are partial functions: the search for related tables
  (shown to return on every group), the search for common blocks, and the loops over callbacks that change while they
  are called. \<open>check_row\<close> ends with the four entries of \<open>m_current_path\<close>. No fuel is used. Sizes are
  assumed to be below \<open>npos\<close>, and below \<open>2 ^ 60\<close> for column indices.

  \<^bold>\<open>Parameters.\<close> The functions of \<open>Group\<close>, \<open>Table\<close> and the sync library that the store calls (\<open>core\<close>); the links
  between rows (\<open>link_tables\<close>); what a query finds (\<open>query_state\<close>); the size of a new chunk of the log and the encoding
  of selections, with what is required of them (\<open>grows\<close>, \<open>selects_parsed\<close>); what called functions do while they run
  (\<open>behaviour\<close>).

  \<^bold>\<open>Not modelled.\<close> \<open>shared_realm.cpp\<close>, \<open>impl/realm_coordinator.cpp\<close>, \<open>thread_safe_reference.cpp\<close>, \<open>results.cpp\<close>, \<open>list.cpp\<close>
  and \<open>object.cpp\<close> are mostly calls of the core and thread handling. The sync manager, users, metadata, files and
  permissions, the work queue and the Apple code are input and output. The other headers of the core
  database are templates that are instantiated in the compiled library. Of the transaction log, \<open>advance_with_notifications\<close>
  and the class \<open>TransactLogConvenientEncoder\<close>, which caches selections of core objects, are left out. Threads
  are not modelled: methods are steps, as their mutexes make them, and a step of a session ends where its mutex is
  released. The Objective-C, Swift and Ruby parts of the repository are not C++.
\<close>

end
